(* ===== verification/Rust_Prelude.thy ===== *)
theory Rust_Prelude
  imports Main "HOL-Library.Word" "HOL-Library.Sublist"
begin

unbundle bit_operations_syntax

text \<open>
  The vocabulary shared by every component: the machine integers of the Rust sources and the
  saturating and checked operations of the standard library, the error type of a processing
  node, and generic facts on lists and maps of timestamps. Unchecked \<open>+\<close> and \<open>-\<close> on the
  unsigned types are the wrapping operations of the release profile (\<^verbatim>\<open>Cargo.toml\<close> does not
  enable overflow checks for it).
\<close>

section \<open>Machine integers\<close>

type_synonym u8 = "8 word"
type_synonym u16 = "16 word"
type_synonym u32 = "32 word"
type_synonym u64 = "64 word"

definition saturating_add :: "'a::len word \<Rightarrow> 'a word \<Rightarrow> 'a word" where
  "saturating_add x y = (if unat x + unat y < 2 ^ LENGTH('a) then x + y else - 1)"

definition saturating_sub :: "'a::len word \<Rightarrow> 'a word \<Rightarrow> 'a word" where
  "saturating_sub x y = (if y \<le> x then x - y else 0)"

definition saturating_mul :: "'a::len word \<Rightarrow> 'a word \<Rightarrow> 'a word" where
  "saturating_mul x y = (if unat x * unat y < 2 ^ LENGTH('a) then x * y else - 1)"

definition checked_add :: "'a::len word \<Rightarrow> 'a word \<Rightarrow> 'a word option" where
  "checked_add x y = (if unat x + unat y < 2 ^ LENGTH('a) then Some (x + y) else None)"

text \<open>
  \<open>usize\<close> is 64 bits wide on the native target; sizes and indices are natural numbers and the
  checked operations compare against that width.
\<close>

abbreviation usize_bound :: nat where
  "usize_bound \<equiv> 2 ^ 64"

definition usize_checked_add :: "nat \<Rightarrow> nat \<Rightarrow> nat option" where
  "usize_checked_add a b = (if a + b < usize_bound then Some (a + b) else None)"

definition usize_saturating_add :: "nat \<Rightarrow> nat \<Rightarrow> nat" where
  "usize_saturating_add a b = min (a + b) (usize_bound - 1)"

definition usize_saturating_mul :: "nat \<Rightarrow> nat \<Rightarrow> nat" where
  "usize_saturating_mul a b = min (a * b) (usize_bound - 1)"

definition div_ceil :: "nat \<Rightarrow> nat \<Rightarrow> nat" where
  "div_ceil a b = (a + b - 1) div b"

named_theorems sat_simps "saturating and checked operations read as natural numbers"

lemma unat_le_max: "unat x \<le> 2 ^ LENGTH('a) - 1" for x :: "'a::len word"
proof -
  have "unat x < 2 ^ LENGTH('a)" by (rule unsigned_less)
  then show ?thesis by linarith
qed

lemma unat_saturating_add [sat_simps]:
  "unat (saturating_add x y) = min (unat x + unat y) (2 ^ LENGTH('a) - 1)"
  for x y :: "'a::len word"
proof (cases "unat x + unat y < 2 ^ LENGTH('a)")
  case True
  then have "unat x + unat y \<le> 2 ^ LENGTH('a) - 1" by linarith
  with True show ?thesis
    by (simp add: saturating_add_def unat_add_lem min_def)
next
  case False
  have "unat (- 1 :: 'a word) = 2 ^ LENGTH('a) - 1"
    by (simp add: unsigned_minus_1_eq_mask mask_eq_exp_minus_1)
  moreover have "min (unat x + unat y) (2 ^ LENGTH('a) - 1) = 2 ^ LENGTH('a) - 1"
    using False by (intro min_absorb2) linarith
  ultimately show ?thesis
    using False by (simp add: saturating_add_def)
qed

lemma unat_saturating_sub [sat_simps]:
  "unat (saturating_sub x y) = unat x - unat y"
  for x y :: "'a::len word"
  by (auto simp: saturating_sub_def unat_sub word_le_nat_alt not_le)

lemma saturating_add_ge: "x \<le> saturating_add x y" for x y :: "'a::len word"
  using unat_le_max [of x] by (simp add: word_le_nat_alt sat_simps)

lemma saturating_add_mono: "x \<le> y \<Longrightarrow> saturating_add x z \<le> saturating_add y z"
  for x y z :: "'a::len word"
  by (auto simp: word_le_nat_alt sat_simps min_def)

lemma saturating_sub_le: "saturating_sub x y \<le> x" for x y :: "'a::len word"
  by (simp add: word_le_nat_alt sat_simps)

lemma saturating_add_0 [simp]: "saturating_add x 0 = x"
  by (simp add: saturating_add_def)

lemma checked_add_SomeD:
  "checked_add x y = Some z \<Longrightarrow> unat z = unat x + unat y"
  for x y z :: "'a::len word"
  by (auto simp: checked_add_def unat_add_lem split: if_splits)

lemma checked_add_diff:
  "y \<le> x \<Longrightarrow> checked_add y (x - y) = Some x" for x y :: "'a::len word"
  using unsigned_less [of x, where ?'a = nat]
  by (simp add: checked_add_def unat_sub word_le_nat_alt)

lemma usize_saturating_add_id: "a + b < usize_bound \<Longrightarrow> usize_saturating_add a b = a + b"
  by (simp add: usize_saturating_add_def)

lemma div_ceil_mult_ge: "0 < b \<Longrightarrow> a \<le> div_ceil a b * b"
proof -
  assume b: "0 < b"
  have "(a + b - 1) mod b < b" using b by simp
  moreover have "(a + b - 1) div b * b + (a + b - 1) mod b = a + b - 1" by simp
  ultimately show ?thesis unfolding div_ceil_def using b by linarith
qed

lemma less_div_ceil:
  assumes "0 < ri"
  shows "k < div_ceil n ri \<longleftrightarrow> k * ri < n"
proof -
  have "k < (n + ri - 1) div ri \<longleftrightarrow> Suc k * ri \<le> n + ri - 1" using assms by (simp add: less_eq_div_iff_mult_less_eq Suc_le_eq [symmetric])
  also have "\<dots> \<longleftrightarrow> k * ri < n" using assms by auto
  finally show ?thesis by (simp add: div_ceil_def)
qed

section \<open>Results of a processing step\<close>

text \<open>
  The error type \<^verbatim>\<open>WorkError\<close> of a node. A call that would block on an empty, still connected
  channel does not return: the models give it the value \<open>None\<close>. A call that panics ends the
  node's task; it is the additional value \<open>Panicked\<close>.
\<close>

datatype work_error = RecvError | SendError | NodeError string | NodeSource string | Shutdown | Panicked

type_synonym 'a work_result = "work_error + 'a"

text \<open>The question mark of a fallible call: go on with the value, or return the error.\<close>

definition and_then :: "'e + 'a \<Rightarrow> ('a \<Rightarrow> 'e + 'b) \<Rightarrow> 'e + 'b" where
  "and_then r f = (case r of Inl e \<Rightarrow> Inl e | Inr x \<Rightarrow> f x)"

lemma and_then_simps [simp]:
  "and_then (Inl e) f = Inl e" "and_then (Inr x) f = f x"
  by (simp_all add: and_then_def)

lemma and_then_Inr_iff: "and_then r f = Inr y \<longleftrightarrow> (\<exists>x. r = Inr x \<and> f x = Inr y)"
  by (cases r) simp_all

lemma and_then_InrE:
  assumes "and_then r f = Inr y"
  obtains x where "r = Inr x" "f x = Inr y"
  using assms by (cases r) auto

section \<open>Timestamp-ordered sequences\<close>

abbreviation sorted_by :: "('a \<Rightarrow> 'b::linorder) \<Rightarrow> 'a list \<Rightarrow> bool" where
  "sorted_by f xs \<equiv> sorted (map f xs)"

lemma sorted_by_Cons:
  "sorted_by f (x # xs) \<longleftrightarrow> (\<forall>y\<in>set xs. f x \<le> f y) \<and> sorted_by f xs"
  by auto

lemma takeWhile_le_append_drop:
  assumes "sorted_by f xs"
  shows "filter (\<lambda>x. f x \<le> t) xs = takeWhile (\<lambda>x. f x \<le> t) xs"
  using assms
proof (induction xs)
  case Nil
  then show ?case by simp
next
  case (Cons x xs)
  show ?case
  proof (cases "f x \<le> t")
    case True
    with Cons show ?thesis by simp
  next
    case False
    then have "\<forall>y\<in>set xs. \<not> f y \<le> t"
      using Cons.prems by (auto dest: order_trans)
    with False show ?thesis by simp
  qed
qed

lemma dropWhile_le_filter:
  assumes "sorted_by f xs"
  shows "dropWhile (\<lambda>x. f x \<le> t) xs = filter (\<lambda>x. t < f x) xs"
  using assms
proof (induction xs)
  case (Cons x xs)
  then show ?case by (auto simp: not_le dest: order.strict_trans2 intro!: filter_True [symmetric])
qed simp

end
