(* ===== verification/Receivers.thy ===== *)
theory Receivers
  imports Rust_Prelude
begin

text \<open>
  The receiving end of a channel, \<^verbatim>\<open>crates/signal_runtime/src/receiver.rs\<close>. A receiver is the
  queue of envelopes the channel holds, whether a sender is still connected, the putback buffer
  of the owning node and the cached end-of-stream flag. \<open>stream\<close> reads it as the list of items
  that are still to come; the laws of \<open>recv\<close> against that list are the interface
  \<open>item_source\<close> on which the models of the nodes rest.
\<close>

section \<open>State\<close>

datatype 'a channel_message = Sample_Message 'a | Batch "'a list" | EndOfStream

record 'a receiver =
  rx_queue :: "'a channel_message list"
  rx_connected :: bool
  rx_buffer :: "'a list"
  rx_eos :: bool

datatype try_recv_error = Empty | Disconnected

section \<open>Operations\<close>

fun unpack_batch :: "'a list \<Rightarrow> 'a list \<Rightarrow> ('a \<times> 'a list) option" where
  "unpack_batch buffer [] = None"
| "unpack_batch buffer (first # items) = Some (first, buffer @ items)"

fun recv_loop :: "'a receiver \<Rightarrow> 'a channel_message list \<Rightarrow> ('a work_result \<times> 'a receiver) option" where
  "recv_loop r [] =
     (if rx_connected r then None else Some (Inl Shutdown, r\<lparr>rx_queue := []\<rparr>))"
| "recv_loop r (Sample_Message x # q) = Some (Inr x, r\<lparr>rx_queue := q\<rparr>)"
| "recv_loop r (Batch items # q) =
     (case unpack_batch (rx_buffer r) items of
        Some (x, b) \<Rightarrow> Some (Inr x, r\<lparr>rx_queue := q, rx_buffer := b\<rparr>)
      | None \<Rightarrow> recv_loop r q)"
| "recv_loop r (EndOfStream # q) = Some (Inl Shutdown, r\<lparr>rx_queue := q, rx_eos := True\<rparr>)"

definition recv :: "'a receiver \<Rightarrow> ('a work_result \<times> 'a receiver) option" where
  "recv r =
     (if rx_eos r then Some (Inl Shutdown, r)
      else case rx_buffer r of
        x # b \<Rightarrow> Some (Inr x, r\<lparr>rx_buffer := b\<rparr>)
      | [] \<Rightarrow> recv_loop r (rx_queue r))"

fun peek_loop :: "'a receiver \<Rightarrow> 'a channel_message list \<Rightarrow> ('a work_result \<times> 'a receiver) option" where
  "peek_loop r [] =
     (if rx_connected r then None else Some (Inl Shutdown, r\<lparr>rx_queue := []\<rparr>))"
| "peek_loop r (Sample_Message x # q) = Some (Inr x, r\<lparr>rx_queue := q, rx_buffer := [x]\<rparr>)"
| "peek_loop r (Batch items # q) =
     (case items of
        [] \<Rightarrow> peek_loop r q
      | x # _ \<Rightarrow> Some (Inr x, r\<lparr>rx_queue := q, rx_buffer := items\<rparr>))"
| "peek_loop r (EndOfStream # q) = Some (Inl Shutdown, r\<lparr>rx_queue := q, rx_eos := True\<rparr>)"

definition peek :: "'a receiver \<Rightarrow> ('a work_result \<times> 'a receiver) option" where
  "peek r =
     (if rx_eos r then Some (Inl Shutdown, r)
      else case rx_buffer r of
        x # _ \<Rightarrow> Some (Inr x, r)
      | [] \<Rightarrow> peek_loop r (rx_queue r))"

fun try_recv_loop :: "'a receiver \<Rightarrow> 'a channel_message list \<Rightarrow> (try_recv_error + 'a) \<times> 'a receiver" where
  "try_recv_loop r [] =
     (Inl (if rx_connected r then Empty else Disconnected), r\<lparr>rx_queue := []\<rparr>)"
| "try_recv_loop r (Sample_Message x # q) = (Inr x, r\<lparr>rx_queue := q\<rparr>)"
| "try_recv_loop r (Batch items # q) =
     (case unpack_batch (rx_buffer r) items of
        Some (x, b) \<Rightarrow> (Inr x, r\<lparr>rx_queue := q, rx_buffer := b\<rparr>)
      | None \<Rightarrow> try_recv_loop r q)"
| "try_recv_loop r (EndOfStream # q) = (Inl Disconnected, r\<lparr>rx_queue := q, rx_eos := True\<rparr>)"

definition try_recv :: "'a receiver \<Rightarrow> (try_recv_error + 'a) \<times> 'a receiver" where
  "try_recv r =
     (if rx_eos r then (Inl Disconnected, r)
      else case rx_buffer r of
        x # b \<Rightarrow> (Inr x, r\<lparr>rx_buffer := b\<rparr>)
      | [] \<Rightarrow> try_recv_loop r (rx_queue r))"

text \<open>
  \<open>try_recv_many\<close> appends up to \<open>limit\<close> available items to the caller's vector: first from the
  putback buffer, then envelope by envelope from the channel. The loop carries the vector and
  the number of items taken.
\<close>

fun take_channel :: "'a receiver \<Rightarrow> 'a channel_message list \<Rightarrow> 'a list \<Rightarrow> nat \<Rightarrow> nat \<Rightarrow>
    'a receiver \<times> 'a list \<times> nat" where
  "take_channel r q out received limit =
     (if limit \<le> received then (r\<lparr>rx_queue := q\<rparr>, out, received)
      else case q of
        [] \<Rightarrow> (if rx_connected r then r\<lparr>rx_queue := []\<rparr>
               else r\<lparr>rx_queue := [], rx_eos := True\<rparr>, out, received)
      | Sample_Message x # q' \<Rightarrow> take_channel r q' (out @ [x]) (Suc received) limit
      | Batch items # q' \<Rightarrow>
          (let taken = take (min (limit - received) (length items)) items;
               remainder = drop (min (limit - received) (length items)) items
           in take_channel (r\<lparr>rx_buffer := rx_buffer r @ remainder\<rparr>) q' (out @ taken)
                (received + length taken) limit)
      | EndOfStream # q' \<Rightarrow> (r\<lparr>rx_queue := q', rx_eos := True\<rparr>, out, received))"

declare take_channel.simps [simp del]

definition try_recv_many :: "'a receiver \<Rightarrow> 'a list \<Rightarrow> nat \<Rightarrow>
    (try_recv_error + nat) \<times> 'a receiver \<times> 'a list" where
  "try_recv_many r out limit =
     (if limit = 0 then (Inr 0, r, out)
      else
        let buffered = take limit (rx_buffer r);
            received = length buffered;
            r1 = r\<lparr>rx_buffer := drop limit (rx_buffer r)\<rparr>;
            out1 = out @ buffered
        in if rx_eos r1
           then (if received = 0 then Inl Disconnected else Inr received, r1, out1)
           else
             let (r2, out2, n) = take_channel r1 (rx_queue r1) out1 received limit
             in (if 0 < n then Inr n else if rx_eos r2 then Inl Disconnected else Inl Empty,
                 r2, out2))"

fun recv_batch_loop :: "'a receiver \<Rightarrow> 'a channel_message list \<Rightarrow>
    ('a list work_result \<times> 'a receiver) option" where
  "recv_batch_loop r [] =
     (if rx_connected r then None else Some (Inl Shutdown, r\<lparr>rx_queue := [], rx_eos := True\<rparr>))"
| "recv_batch_loop r (Sample_Message x # q) = Some (Inr [x], r\<lparr>rx_queue := q\<rparr>)"
| "recv_batch_loop r (Batch items # q) =
     (if items \<noteq> [] then Some (Inr items, r\<lparr>rx_queue := q\<rparr>) else recv_batch_loop r q)"
| "recv_batch_loop r (EndOfStream # q) = Some (Inl Shutdown, r\<lparr>rx_queue := q, rx_eos := True\<rparr>)"

definition recv_batch :: "'a receiver \<Rightarrow> ('a list work_result \<times> 'a receiver) option" where
  "recv_batch r =
     (if rx_eos r then Some (Inl Shutdown, r)
      else if rx_buffer r \<noteq> [] then Some (Inr (rx_buffer r), r\<lparr>rx_buffer := []\<rparr>)
      else recv_batch_loop r (rx_queue r))"

definition put_back :: "'a receiver \<Rightarrow> 'a \<Rightarrow> 'a receiver" where
  "put_back r x = r\<lparr>rx_buffer := x # rx_buffer r\<rparr>"

definition has_buffered :: "'a receiver \<Rightarrow> bool" where
  "has_buffered r \<longleftrightarrow> rx_buffer r \<noteq> []"

definition is_shutdown :: "'a receiver \<Rightarrow> bool" where
  "is_shutdown r = rx_eos r"

section \<open>The items still to come\<close>

fun queue_items :: "'a channel_message list \<Rightarrow> 'a list" where
  "queue_items [] = []"
| "queue_items (Sample_Message x # q) = x # queue_items q"
| "queue_items (Batch items # q) = items @ queue_items q"
| "queue_items (EndOfStream # q) = []"

definition stream :: "'a receiver \<Rightarrow> 'a list" where
  "stream r = (if rx_eos r then [] else rx_buffer r @ queue_items (rx_queue r))"

definition ends :: "'a receiver \<Rightarrow> bool" where
  "ends r \<longleftrightarrow> rx_eos r \<or> EndOfStream \<in> set (rx_queue r) \<or> \<not> rx_connected r"

named_theorems rx_defs "unfolding of the receiver operations"
declare recv_def [rx_defs] peek_def [rx_defs] try_recv_def [rx_defs] stream_def [rx_defs]
  ends_def [rx_defs]

lemma recv_loop_item:
  assumes "queue_items q = x # xs" "rx_buffer r = []" "\<not> rx_eos r"
  shows "\<exists>r'. recv_loop r q = Some (Inr x, r') \<and> stream r' = xs \<and>
    ends r' = (EndOfStream \<in> set q \<or> \<not> rx_connected r)"
  using assms
proof (induction r q rule: recv_loop.induct)
  case (3 r items q)
  then show ?case
    by (cases items) (auto simp: rx_defs)
qed (auto simp: rx_defs)

lemma recv_loop_end:
  assumes "queue_items q = []" "rx_buffer r = []" "\<not> rx_eos r"
    "EndOfStream \<in> set q \<or> \<not> rx_connected r"
  shows "\<exists>r'. recv_loop r q = Some (Inl Shutdown, r') \<and> stream r' = [] \<and> ends r'"
  using assms by (induction r q rule: recv_loop.induct) (auto simp: rx_defs)

lemma recv_loop_block:
  "queue_items q = [] \<Longrightarrow> EndOfStream \<notin> set q \<Longrightarrow> rx_connected r \<Longrightarrow> recv_loop r q = None"
  by (induction r q rule: recv_loop.induct) auto

section \<open>The interface the nodes rely on\<close>

text \<open>
  A source of items: a receive operation that is described by the list of items to come and by
  whether the stream ends after them. The laws say that a receive delivers the next item, that
  it reports the end of a finished stream and keeps reporting it, and that it blocks otherwise.
\<close>

locale item_source =
  fixes receive :: "'r \<Rightarrow> ('a work_result \<times> 'r) option"
    and items :: "'r \<Rightarrow> 'a list"
    and finite_stream :: "'r \<Rightarrow> bool"
  assumes receive_item:
      "items r = x # xs \<Longrightarrow>
       \<exists>r'. receive r = Some (Inr x, r') \<and> items r' = xs \<and> finite_stream r' = finite_stream r"
    and receive_end:
      "items r = [] \<Longrightarrow> finite_stream r \<Longrightarrow>
       \<exists>r'. receive r = Some (Inl Shutdown, r') \<and> items r' = [] \<and> finite_stream r'"
    and receive_block: "items r = [] \<Longrightarrow> \<not> finite_stream r \<Longrightarrow> receive r = None"
begin

lemma receive_total: "finite_stream r \<Longrightarrow> receive r \<noteq> None"
  using receive_item receive_end by (cases "items r") fastforce+

lemma receive_OkD:
  "receive r = Some (Inr x, r') \<Longrightarrow>
   items r = x # items r' \<and> finite_stream r' = finite_stream r"
proof (cases "items r")
  case Nil
  assume "receive r = Some (Inr x, r')"
  with Nil show ?thesis
    using receive_end receive_block by (cases "finite_stream r") fastforce+
next
  case (Cons y ys)
  assume "receive r = Some (Inr x, r')"
  with Cons show ?thesis using receive_item [OF Cons] by auto
qed

lemma receive_ErrD:
  "receive r = Some (Inl e, r') \<Longrightarrow>
   e = Shutdown \<and> items r = [] \<and> items r' = [] \<and> finite_stream r \<and> finite_stream r'"
proof (cases "items r")
  case Nil
  assume *: "receive r = Some (Inl e, r')"
  then have "finite_stream r" using Nil receive_block by fastforce
  with Nil * show ?thesis using receive_end by fastforce
next
  case (Cons y ys)
  assume "receive r = Some (Inl e, r')"
  with Cons show ?thesis using receive_item [OF Cons] by auto
qed

end

interpretation rx: item_source "recv :: 'a receiver \<Rightarrow> _" stream ends
proof (unfold_locales, goal_cases)
  case (1 r x xs)
  then show ?case
  proof (cases "rx_buffer r")
    case Nil
    with 1 show ?thesis
      using recv_loop_item [of "rx_queue r" x xs r]
      by (auto simp: rx_defs split: if_splits)
  next
    case (Cons y b)
    with 1 show ?thesis by (auto simp: rx_defs split: if_splits)
  qed
next
  case (2 r)
  then show ?case
    using recv_loop_end [of "rx_queue r" r]
    by (cases "rx_eos r") (auto simp: rx_defs split: list.splits)
next
  case (3 r)
  then show ?case
    using recv_loop_block [of "rx_queue r" r] by (auto simp: rx_defs)
qed

section \<open>Peeking, draining and bulk receives\<close>

lemma peek_loop_item:
  assumes "queue_items q = x # xs" "rx_buffer r = []" "\<not> rx_eos r"
  shows "\<exists>r'. peek_loop r q = Some (Inr x, r') \<and> stream r' = x # xs \<and> \<not> rx_eos r' \<and> rx_buffer r' \<noteq> [] \<and>
    ends r' = (EndOfStream \<in> set q \<or> \<not> rx_connected r)"
  using assms
proof (induction r q rule: peek_loop.induct)
  case (3 r items q)
  then show ?case by (cases items) (auto simp: rx_defs)
qed (auto simp: rx_defs)

lemma peek_loop_end:
  assumes "queue_items q = []" "rx_buffer r = []" "\<not> rx_eos r"
    "EndOfStream \<in> set q \<or> \<not> rx_connected r"
  shows "\<exists>r'. peek_loop r q = Some (Inl Shutdown, r') \<and> stream r' = [] \<and> ends r'"
  using assms by (induction r q rule: peek_loop.induct) (auto simp: rx_defs)

lemma peek_loop_block:
  "queue_items q = [] \<Longrightarrow> EndOfStream \<notin> set q \<Longrightarrow> rx_connected r \<Longrightarrow> peek_loop r q = None"
  by (induction r q rule: peek_loop.induct) auto

lemma peek_item:
  assumes "stream r = x # xs"
  shows "\<exists>r'. peek r = Some (Inr x, r') \<and> stream r' = x # xs \<and> ends r' = ends r \<and> \<not> rx_eos r' \<and>
    rx_buffer r' \<noteq> []"
proof (cases "rx_buffer r")
  case Nil
  with assms show ?thesis
    using peek_loop_item [of "rx_queue r" x xs r] by (auto simp: rx_defs split: if_splits)
next
  case (Cons y b)
  with assms show ?thesis by (auto simp: rx_defs split: if_splits)
qed

lemma peek_end:
  assumes "stream r = []"
  shows "if ends r then \<exists>r'. peek r = Some (Inl Shutdown, r') \<and> stream r' = [] \<and> ends r'
    else peek r = None"
proof (cases "rx_eos r")
  case True
  with assms show ?thesis by (auto simp: rx_defs)
next
  case False
  with assms have e: "rx_buffer r = []" "queue_items (rx_queue r) = []" by (auto simp: rx_defs)
  then have p: "peek r = peek_loop r (rx_queue r)" using False by (simp add: peek_def)
  show ?thesis
    using e False peek_loop_end [of "rx_queue r" r] peek_loop_block [of "rx_queue r" r]
    by (auto simp: p ends_def)
qed

lemma stream_put_back:
  "\<not> rx_eos r \<Longrightarrow> stream (put_back r x) = x # stream r"
  "ends (put_back r x) = ends r"
  by (auto simp: put_back_def rx_defs)

function (sequential) drain_before :: "'a receiver \<Rightarrow> u64 \<Rightarrow> ('a \<Rightarrow> u64) \<Rightarrow>
    (unit work_result \<times> 'a receiver) option" where
  "drain_before r before start_time_fn =
     (case recv r of
        None \<Rightarrow> None
      | Some (Inl e, r1) \<Rightarrow> Some (Inl e, r1)
      | Some (Inr current, r1) \<Rightarrow>
          (case peek r1 of
             None \<Rightarrow> None
           | Some (Inl e, r2) \<Rightarrow> Some (Inl e, r2)
           | Some (Inr next, r2) \<Rightarrow>
               if start_time_fn next \<le> before then drain_before r2 before start_time_fn
               else Some (Inr (), put_back r2 current)))"
  by pat_completeness auto

lemma recv_peek_shorter:
  assumes "recv r = Some (Inr x, r1)" "peek r1 = Some (Inr y, r2)"
  shows "stream r = x # stream r2 \<and> stream r2 \<noteq> [] \<and> hd (stream r2) = y \<and> \<not> rx_eos r2 \<and>
    ends r2 = ends r"
proof (cases "stream r1")
  case Nil
  with assms(2) peek_end [of r1] show ?thesis by (auto split: if_splits)
next
  case (Cons z zs)
  with assms peek_item [OF Cons] rx.receive_OkD [OF assms(1)] show ?thesis by auto
qed

termination drain_before
  by (relation "measure (\<lambda>(r, _). length (stream r))") (auto dest: recv_peek_shorter)

declare drain_before.simps [simp del]

text \<open>What draining keeps: from the first item that is followed by one starting after \<open>before\<close>.\<close>

fun drain_spec :: "('a \<Rightarrow> u64) \<Rightarrow> u64 \<Rightarrow> 'a list \<Rightarrow> 'a list option" where
  "drain_spec f before (x # y # xs) =
     (if f y \<le> before then drain_spec f before (y # xs) else Some (x # y # xs))"
| "drain_spec f before _ = None"

lemma drain_before_spec:
  assumes "ends r"
  shows "case drain_spec f before (stream r) of
      Some xs \<Rightarrow> \<exists>r'. drain_before r before f = Some (Inr (), r') \<and> stream r' = xs
    | None \<Rightarrow> \<exists>r'. drain_before r before f = Some (Inl Shutdown, r') \<and> stream r' = []"
  using assms
proof (induction "stream r" arbitrary: r rule: induct_list012)
  case 1
  then obtain r1 where "recv r = Some (Inl Shutdown, r1)" "stream r1 = []"
    using rx.receive_end [of r] by auto
  with 1 show ?case by (simp add: drain_before.simps [of r] 1(1) [symmetric])
next
  case (2 x)
  then obtain r1 where r1: "recv r = Some (Inr x, r1)" "stream r1 = []" "ends r1"
    using rx.receive_item [of r x "[]"] by auto
  then obtain r2 where "peek r1 = Some (Inl Shutdown, r2)" "stream r2 = []"
    using peek_end [of r1] by auto
  with r1 show ?case by (simp add: drain_before.simps [of r] 2(1) [symmetric])
next
  case (3 x y zs)
  obtain r1 where r1: "recv r = Some (Inr x, r1)" "stream r1 = y # zs" "ends r1"
    using 3(3-) rx.receive_item [of r x "y # zs"] by auto
  obtain r2 where r2: "peek r1 = Some (Inr y, r2)" "stream r2 = y # zs" "ends r2" "\<not> rx_eos r2"
    using peek_item [OF r1(2)] r1(3) by auto
  show ?case
  proof (cases "f y \<le> before")
    case True
    with r1 r2 have "drain_before r before f = drain_before r2 before f"
      by (simp add: drain_before.simps [of r])
    with True 3(2) [OF r2(2) [symmetric] r2(3)] r2(2) show ?thesis
      by (auto simp: 3(3) [symmetric] split: option.splits)
  next
    case False
    with r1 r2 show ?thesis
      by (simp add: drain_before.simps [of r] 3(3) [symmetric] stream_put_back)
  qed
qed

text \<open>The bulk receive takes a prefix of the stream, as long as the caller's limit allows.\<close>

lemma take_channel_spec:
  assumes "take_channel r q out received limit = (r', out', n)" "received \<le> limit" "\<not> rx_eos r"
    "received < limit \<longrightarrow> rx_buffer r = []"
  shows "n = received + min (limit - received) (length (queue_items q)) \<and>
    out' = out @ take (limit - received) (queue_items q) \<and>
    stream r' = rx_buffer r @ drop (limit - received) (queue_items q) \<and>
    (length (queue_items q) < limit - received \<longrightarrow>
       (rx_eos r' \<longleftrightarrow> EndOfStream \<in> set q \<or> \<not> rx_connected r))"
  using assms
proof (induction r q out received limit rule: take_channel.induct)
  case (1 r q out received limit)
  note call = 1(3) [unfolded take_channel.simps [of r q out received limit]]
  show ?case
  proof (cases "limit \<le> received")
    case True
    with call 1(4-) show ?thesis by (auto simp: rx_defs)
  next
    case False
    note less = this
    with 1(6) have b: "rx_buffer r = []" by simp
    show ?thesis
    proof (cases q)
      case Nil
      with call less b 1(4,5) show ?thesis by (auto simp: rx_defs split: if_splits)
    next
      case (Cons m q')
      show ?thesis
      proof (cases m)
        case (Sample_Message x)
        have "take_channel r q' (out @ [x]) (Suc received) limit = (r', out', n)"
          using call less Cons Sample_Message by simp
        note IH = 1(1) [OF less Cons Sample_Message this]
        show ?thesis
          using IH less b 1(5) Cons Sample_Message by (auto simp: take_Cons' drop_Cons')
      next
        case (Batch items)
        let ?k = "min (limit - received) (length items)"
        have "take_channel (r\<lparr>rx_buffer := rx_buffer r @ drop ?k items\<rparr>) q' (out @ take ?k items)
            (received + length (take ?k items)) limit = (r', out', n)"
          using call less Cons Batch by (simp add: Let_def)
        note IH = 1(2) [OF less Cons Batch refl refl this]
        show ?thesis
        proof (cases "length items \<le> limit - received")
          case True
          with IH less b 1(5) Cons Batch show ?thesis by auto
        next
          case False
          with IH less b 1(5) Cons Batch show ?thesis by auto
        qed
      next
        case EndOfStream
        with call less b Cons 1(4,5) show ?thesis by (auto simp: rx_defs split: if_splits)
      qed
    qed
  qed
qed

lemma try_recv_many_prefix:
  assumes "\<not> rx_eos r" "0 < limit" "try_recv_many r out limit = (res, r', out')"
  shows "out' = out @ take limit (stream r) \<and> stream r' = drop limit (stream r) \<and>
    res = (if stream r \<noteq> [] then Inr (min limit (length (stream r)))
           else if ends r then Inl Disconnected else Inl Empty)"
proof -
  let ?r1 = "r\<lparr>rx_buffer := drop limit (rx_buffer r)\<rparr>" and ?k = "min limit (length (rx_buffer r))"
  obtain r2 out2 n where t: "take_channel ?r1 (rx_queue r) (out @ take limit (rx_buffer r)) ?k limit = (r2, out2, n)"
    by (cases "take_channel ?r1 (rx_queue r) (out @ take limit (rx_buffer r)) ?k limit")
  have "?k < limit \<longrightarrow> rx_buffer ?r1 = []" by simp
  note spec = take_channel_spec [OF t _ _ this]
  have "res = (if 0 < n then Inr n else if rx_eos r2 then Inl Disconnected else Inl Empty)"
    "r' = r2" "out' = out2"
    using assms t by (auto simp: try_recv_many_def Let_def min.commute split: prod.splits)
  with spec assms(1,2) show ?thesis
    by (auto simp: stream_def ends_def min_def split: if_splits)
qed

lemma take_channel_ends:
  assumes "take_channel r q out received limit = (r', out', n)" "\<not> rx_eos r"
  shows "ends r' \<longleftrightarrow> EndOfStream \<in> set q \<or> \<not> rx_connected r"
  using assms
proof (induction r q out received limit rule: take_channel.induct)
  case (1 r q out received limit)
  note call = 1(3) [unfolded take_channel.simps [of r q out received limit]]
  show ?case
  proof (cases "limit \<le> received \<or> q = []")
    case True
    with call 1(4) show ?thesis by (auto simp: ends_def split: if_splits)
  next
    case False
    then obtain m q' where q: "\<not> limit \<le> received" "q = m # q'" by (cases q) auto
    show ?thesis
      by (cases m) (use call q 1(1) [OF q] 1(2) [OF q _ refl refl] 1(4) in \<open>auto simp: ends_def Let_def\<close>)
  qed
qed

lemma try_recv_many_ends:
  assumes "\<not> rx_eos r" "0 < limit" "try_recv_many r out limit = (res, r', out')"
  shows "ends r' = ends r"
proof -
  let ?r1 = "r\<lparr>rx_buffer := drop limit (rx_buffer r)\<rparr>" and ?k = "min limit (length (rx_buffer r))"
  obtain r2 out2 n where t: "take_channel ?r1 (rx_queue r) (out @ take limit (rx_buffer r)) ?k limit = (r2, out2, n)"
    by (cases "take_channel ?r1 (rx_queue r) (out @ take limit (rx_buffer r)) ?k limit")
  have "r' = r2" using assms t by (auto simp: try_recv_many_def Let_def min.commute)
  with take_channel_ends [OF t] assms(1) show ?thesis by (simp add: ends_def)
qed

lemma recv_loop_Inr_live: "recv_loop r q = Some (Inr x, r') \<Longrightarrow> rx_eos r' = rx_eos r"
  by (induction r q rule: recv_loop.induct) (auto split: if_splits option.splits)

lemma recv_Inr_live: "recv r = Some (Inr x, r') \<Longrightarrow> \<not> rx_eos r'"
  using recv_loop_Inr_live [of r "rx_queue r" x r'] by (auto simp: recv_def split: if_splits list.splits)

section \<open>Receiving whole envelopes\<close>

fun try_recv_batch_loop :: "'a receiver \<Rightarrow> 'a channel_message list \<Rightarrow>
    (try_recv_error + 'a list) \<times> 'a receiver" where
  "try_recv_batch_loop r [] =
     (Inl (if rx_connected r then Empty else Disconnected), r\<lparr>rx_queue := []\<rparr>)"
| "try_recv_batch_loop r (Sample_Message x # q) = (Inr [x], r\<lparr>rx_queue := q\<rparr>)"
| "try_recv_batch_loop r (Batch items # q) =
     (if items \<noteq> [] then (Inr items, r\<lparr>rx_queue := q\<rparr>) else try_recv_batch_loop r q)"
| "try_recv_batch_loop r (EndOfStream # q) = (Inl Disconnected, r\<lparr>rx_queue := q, rx_eos := True\<rparr>)"

definition try_recv_batch :: "'a receiver \<Rightarrow> (try_recv_error + 'a list) \<times> 'a receiver" where
  "try_recv_batch r =
     (if rx_eos r then (Inl Disconnected, r)
      else if rx_buffer r \<noteq> [] then (Inr (rx_buffer r), r\<lparr>rx_buffer := []\<rparr>)
      else try_recv_batch_loop r (rx_queue r))"

lemma recv_batch_loop_spec:
  assumes "rx_buffer r = []" "\<not> rx_eos r"
  shows "case recv_batch_loop r q of
      None \<Rightarrow> queue_items q = [] \<and> EndOfStream \<notin> set q \<and> rx_connected r
    | Some (res, r') \<Rightarrow>
        (case res of
           Inr xs \<Rightarrow> xs \<noteq> [] \<and> queue_items q = xs @ stream r'
         | Inl e \<Rightarrow> e = Shutdown \<and> queue_items q = [] \<and> (EndOfStream \<in> set q \<or> \<not> rx_connected r))"
  using assms
  by (induction r q rule: recv_batch_loop.induct) (auto simp: rx_defs split: option.splits sum.splits)

lemma try_recv_batch_loop_spec:
  assumes "rx_buffer r = []" "\<not> rx_eos r" "try_recv_batch_loop r q = (res, r')"
  shows "case res of
      Inr xs \<Rightarrow> xs \<noteq> [] \<and> queue_items q = xs @ stream r'
    | Inl e \<Rightarrow> queue_items q = [] \<and>
        (e = Disconnected \<longleftrightarrow> EndOfStream \<in> set q \<or> \<not> rx_connected r)"
  using assms
  by (induction r q rule: try_recv_batch_loop.induct) (auto simp: rx_defs split: if_splits sum.splits)

lemma try_recv_loop_spec:
  assumes "rx_buffer r = []" "\<not> rx_eos r" "try_recv_loop r q = (res, r')"
  shows "case res of
      Inr x \<Rightarrow> queue_items q = x # stream r'
    | Inl e \<Rightarrow> queue_items q = [] \<and> (e = Disconnected \<longleftrightarrow> EndOfStream \<in> set q \<or> \<not> rx_connected r)"
  using assms
proof (induction r q rule: try_recv_loop.induct)
  case (3 r items q)
  then show ?case by (cases items) (auto simp: rx_defs split: sum.splits)
qed (auto simp: rx_defs split: if_splits)

section \<open>Multiplexed selection\<close>

text \<open>
  One call of the selector over the receivers with the given indices. Which ready channel the
  underlying select picks is not determined, so the call is a relation; the loop that skips
  empty batches and ended channels is its recursion.
\<close>

definition buffered_index :: "nat list \<Rightarrow> 'a receiver list \<Rightarrow> nat option" where
  "buffered_index indices chs = find (\<lambda>i. \<not> rx_eos (chs ! i) \<and> rx_buffer (chs ! i) \<noteq> []) indices"

definition live :: "nat list \<Rightarrow> 'a receiver list \<Rightarrow> nat \<Rightarrow> bool" where
  "live indices chs i \<longleftrightarrow> buffered_index indices chs = None \<and> i \<in> set indices \<and> \<not> rx_eos (chs ! i)"

inductive select_from :: "nat list \<Rightarrow> 'a receiver list \<Rightarrow> (nat \<times> 'a) work_result \<Rightarrow>
    'a receiver list \<Rightarrow> bool" where
  select_buffered:
    "buffered_index indices chs = Some i \<Longrightarrow> rx_buffer (chs ! i) = x # b \<Longrightarrow>
     select_from indices chs (Inr (i, x)) (chs[i := (chs ! i)\<lparr>rx_buffer := b\<rparr>])"
| select_shutdown:
    "buffered_index indices chs = None \<Longrightarrow> list_all (\<lambda>i. rx_eos (chs ! i)) indices \<Longrightarrow>
     select_from indices chs (Inl Shutdown) chs"
| select_sample:
    "live indices chs i \<Longrightarrow> rx_queue (chs ! i) = Sample_Message x # q \<Longrightarrow>
     select_from indices chs (Inr (i, x)) (chs[i := (chs ! i)\<lparr>rx_queue := q\<rparr>])"
| select_batch:
    "live indices chs i \<Longrightarrow> rx_queue (chs ! i) = Batch items # q \<Longrightarrow>
     unpack_batch (rx_buffer (chs ! i)) items = Some (x, b) \<Longrightarrow>
     select_from indices chs (Inr (i, x)) (chs[i := (chs ! i)\<lparr>rx_queue := q, rx_buffer := b\<rparr>])"
| select_empty_batch:
    "live indices chs i \<Longrightarrow> rx_queue (chs ! i) = Batch items # q \<Longrightarrow>
     unpack_batch (rx_buffer (chs ! i)) items = None \<Longrightarrow>
     select_from indices (chs[i := (chs ! i)\<lparr>rx_queue := q\<rparr>]) res chs' \<Longrightarrow>
     select_from indices chs res chs'"
| select_end:
    "live indices chs i \<Longrightarrow> rx_queue (chs ! i) = EndOfStream # q \<Longrightarrow>
     select_from indices (chs[i := (chs ! i)\<lparr>rx_queue := q, rx_eos := True\<rparr>]) res chs' \<Longrightarrow>
     select_from indices chs res chs'"
| select_disconnected:
    "live indices chs i \<Longrightarrow> rx_queue (chs ! i) = [] \<Longrightarrow> \<not> rx_connected (chs ! i) \<Longrightarrow>
     select_from indices (chs[i := (chs ! i)\<lparr>rx_eos := True\<rparr>]) res chs' \<Longrightarrow>
     select_from indices chs res chs'"

definition select :: "'a receiver list \<Rightarrow> (nat \<times> 'a) work_result \<Rightarrow> 'a receiver list \<Rightarrow> bool" where
  "select chs = select_from [0..<length chs] chs"

lemma buffered_index_Some:
  "buffered_index indices chs = Some i \<Longrightarrow>
   i \<in> set indices \<and> \<not> rx_eos (chs ! i) \<and> rx_buffer (chs ! i) \<noteq> []"
  by (auto simp: buffered_index_def find_Some_iff)

lemma live_buffer:
  "live indices chs i \<Longrightarrow> i \<in> set indices \<and> \<not> rx_eos (chs ! i) \<and> rx_buffer (chs ! i) = []"
  by (auto simp: live_def buffered_index_def find_None_iff)

text \<open>What the streams of the other receivers are worth: they do not change.\<close>

definition same_streams_but :: "nat option \<Rightarrow> 'a receiver list \<Rightarrow> 'a receiver list \<Rightarrow> bool" where
  "same_streams_but skipped chs chs' \<longleftrightarrow> length chs' = length chs \<and>
     list_all (\<lambda>j. Some j = skipped \<or> stream (chs' ! j) = stream (chs ! j)) [0..<length chs]"

definition select_result :: "nat list \<Rightarrow> 'a receiver list \<Rightarrow> (nat \<times> 'a) work_result \<Rightarrow>
    'a receiver list \<Rightarrow> bool" where
  "select_result indices chs res chs' \<longleftrightarrow>
     (case res of
        Inr (i, x) \<Rightarrow> i \<in> set indices \<and> stream (chs ! i) = x # stream (chs' ! i) \<and>
          same_streams_but (Some i) chs chs'
      | Inl e \<Rightarrow> e = Shutdown \<and> list_all (\<lambda>i. stream (chs ! i) = []) indices \<and>
          same_streams_but None chs chs')"

lemma select_result_item:
  assumes "i \<in> set indices" "i < length chs" "stream (chs ! i) = x # stream r"
  shows "select_result indices chs (Inr (i, x)) (chs[i := r])"
  using assms
  by (auto simp: select_result_def same_streams_but_def list_all_iff nth_list_update)

lemma select_result_skip:
  assumes "select_result indices (chs[i := r]) res chs'" "i < length chs" "stream r = stream (chs ! i)"
  shows "select_result indices chs res chs'"
proof -
  have "stream (chs[i := r] ! j) = stream (chs ! j)" for j
    using assms(2,3) by (cases "j = i") auto
  with assms(1) show ?thesis
    by (simp add: select_result_def same_streams_but_def split: sum.splits prod.splits)
qed

lemma select_from_spec:
  assumes "select_from indices chs res chs'" "list_all (\<lambda>i. i < length chs) indices"
  shows "select_result indices chs res chs'"
  using assms
proof (induction rule: select_from.induct)
  case (select_buffered indices chs i x b)
  then show ?case
    using buffered_index_Some [OF select_buffered(1)]
    by (intro select_result_item) (auto simp: list_all_iff rx_defs)
next
  case (select_shutdown indices chs)
  then show ?case by (auto simp: select_result_def list_all_iff same_streams_but_def rx_defs)
next
  case (select_sample indices chs i x q)
  then show ?case
    using live_buffer [OF select_sample(1)]
    by (intro select_result_item) (auto simp: list_all_iff rx_defs)
next
  case (select_batch indices chs i items q x b)
  then show ?case
    using live_buffer [OF select_batch(1)]
    by (intro select_result_item; cases items) (auto simp: list_all_iff rx_defs)
next
  case (select_empty_batch indices chs i items q res chs')
  show ?case
    by (rule select_result_skip [OF select_empty_batch.IH])
      (use select_empty_batch live_buffer [OF select_empty_batch(1)] in
        \<open>cases items; auto simp: list_all_iff rx_defs\<close>)+
next
  case (select_end indices chs i q res chs')
  show ?case
    by (rule select_result_skip [OF select_end.IH])
      (use select_end live_buffer [OF select_end(1)] in \<open>auto simp: list_all_iff rx_defs\<close>)+
next
  case (select_disconnected indices chs i res chs')
  show ?case
    by (rule select_result_skip [OF select_disconnected.IH])
      (use select_disconnected live_buffer [OF select_disconnected(1)] in
        \<open>auto simp: list_all_iff rx_defs\<close>)+
qed

text \<open>A selection over finite streams returns: each skipped envelope or ended channel is progress.\<close>

definition select_work :: "'a receiver list \<Rightarrow> nat" where
  "select_work chs = sum_list (map (\<lambda>r. length (rx_queue r) + (if rx_eos r then 0 else 1)) chs)"

lemma select_work_update:
  assumes "i < length chs"
    "length (rx_queue r) + (if rx_eos r then 0 else 1) <
     length (rx_queue (chs ! i)) + (if rx_eos (chs ! i) then 0 else (1 :: nat))"
  shows "select_work (chs[i := r]) < select_work chs"
proof -
  let ?m = "\<lambda>r :: 'a receiver. length (rx_queue r) + (if rx_eos r then 0 else 1)"
  have "?m (chs ! i) \<le> sum_list (map ?m chs)"
    using assms(1) by (intro member_le_sum_list) auto
  moreover have "sum_list ((map ?m chs)[i := ?m r]) = sum_list (map ?m chs) + ?m r - map ?m chs ! i"
    using assms(1) by (intro sum_list_update) simp
  ultimately show ?thesis
    using assms by (simp add: select_work_def map_update)
qed

lemma ends_update: "i < length chs \<Longrightarrow> (\<And>j. j \<in> set indices \<Longrightarrow> ends (chs ! j)) \<Longrightarrow> ends r \<Longrightarrow>
    j \<in> set indices \<Longrightarrow> ends (chs[i := r] ! j)"
  by (cases "j = i") auto

lemma select_from_returns:
  assumes "list_all (\<lambda>i. i < length chs) indices" "\<And>i. i \<in> set indices \<Longrightarrow> ends (chs ! i)"
  shows "\<exists>res chs'. select_from indices chs res chs'"
  using assms
proof (induction "select_work chs" arbitrary: chs rule: less_induct)
  case less
  show ?case
  proof (cases "buffered_index indices chs")
    case (Some i)
    then obtain x b where "rx_buffer (chs ! i) = x # b"
      using buffered_index_Some [OF Some] by (auto simp: neq_Nil_conv)
    with Some show ?thesis by (blast intro: select_buffered)
  next
    case None
    show ?thesis
    proof (cases "list_all (\<lambda>i. rx_eos (chs ! i)) indices")
      case True
      with None show ?thesis by (blast intro: select_shutdown)
    next
      case False
      then obtain i where i: "i \<in> set indices" "\<not> rx_eos (chs ! i)" by (auto simp: list_all_iff)
      with None have l: "live indices chs i" by (simp add: live_def)
      have len: "i < length chs" using i less.prems(1) by (simp add: list_all_iff)
      have e: "EndOfStream \<in> set (rx_queue (chs ! i)) \<or> \<not> rx_connected (chs ! i)"
        using less.prems(2) [OF i(1)] i(2) by (simp add: ends_def)
      have rec: "\<exists>res chs'. select_from indices (chs[i := r]) res chs'"
        if "ends r" "length (rx_queue r) + (if rx_eos r then 0 else 1) <
          length (rx_queue (chs ! i)) + (1 :: nat)" for r
        using less.hyps [of "chs[i := r]"] select_work_update [OF len, of r] that i
          ends_update [OF len less.prems(2) that(1)] less.prems(1)
        by auto
      show ?thesis
      proof (cases "rx_queue (chs ! i)")
        case Nil
        with e rec [of "(chs ! i)\<lparr>rx_eos := True\<rparr>"] l show ?thesis
          by (auto simp: ends_def intro: select_disconnected)
      next
        case (Cons m q)
        show ?thesis
        proof (cases m)
          case (Sample_Message x)
          with l Cons show ?thesis by (blast intro: select_sample)
        next
          case (Batch items)
          show ?thesis
          proof (cases "unpack_batch (rx_buffer (chs ! i)) items")
            case None
            with e rec [of "(chs ! i)\<lparr>rx_queue := q\<rparr>"] l Cons Batch i show ?thesis
              by (auto simp: ends_def intro: select_empty_batch)
          next
            case (Some xb)
            with l Cons Batch show ?thesis by (cases xb) (blast intro: select_batch)
          qed
        next
          case EndOfStream
          with rec [of "(chs ! i)\<lparr>rx_queue := q, rx_eos := True\<rparr>"] l Cons show ?thesis
            by (auto simp: ends_def intro: select_end)
        qed
      qed
    qed
  qed
qed

section \<open>Properties\<close>

text \<open>
  C1: A blocking receive delivers the items of the stream one by one, in the order in which the
  sender put them into envelopes, whatever the batching; it reports shutdown exactly on a
  finished stream, and blocks exactly when nothing is left and the stream is not finished.
\<close>
theorem recv_fifo:
  "case recv r of
     None \<Rightarrow> stream r = [] \<and> \<not> ends r
   | Some (Inr x, r') \<Rightarrow> stream r = x # stream r' \<and> ends r' = ends r
   | Some (Inl e, r') \<Rightarrow> e = Shutdown \<and> stream r = [] \<and> ends r \<and> stream r' = [] \<and> ends r'"
proof (cases "recv r")
  case None
  then show ?thesis
    using rx.receive_item [of r] rx.receive_end [of r] by (cases "stream r") auto
next
  case (Some res)
  then show ?thesis
    using rx.receive_OkD [of r] rx.receive_ErrD [of r] by (cases res; cases "fst res") auto
qed

text \<open>
  Peeking shows the item the next receive will deliver and takes nothing from the stream.
\<close>
theorem peek_then_recv:
  assumes "peek r = Some (Inr x, r')"
  shows "stream r' = stream r \<and> (\<exists>r''. recv r' = Some (Inr x, r'') \<and> stream r = x # stream r'')"
proof (cases "stream r")
  case Nil
  with assms peek_end [of r] show ?thesis by (auto split: if_splits)
next
  case (Cons y ys)
  with assms peek_item [OF Cons] rx.receive_item [of r' y ys] show ?thesis by auto
qed

theorem peek_then_recv_witness:
  "\<exists>r''. recv \<lparr>rx_queue = [], rx_connected = False, rx_buffer = [3, 4 :: nat], rx_eos = False\<rparr> = Some (Inr 3, r'')"
  using peek_then_recv [of "\<lparr>rx_queue = [Batch [3, 4 :: nat]], rx_connected = False, rx_buffer = [], rx_eos = False\<rparr>" 3
      "\<lparr>rx_queue = [], rx_connected = False, rx_buffer = [3, 4 :: nat], rx_eos = False\<rparr>"]
  by (auto simp: peek_def)

text \<open>
  A bulk receive appends the next \<open>limit\<close> items of the stream (all, when fewer are left) to
  the caller's vector and leaves the rest, also when the limit falls inside a batch; it reports
  the count, and an empty or a disconnected channel only when no item was available.
\<close>
theorem try_recv_many_takes_prefix:
  assumes "\<not> rx_eos r" "0 < limit" "try_recv_many r out limit = (res, r', out')"
  shows "out' = out @ take limit (stream r) \<and> stream r' = drop limit (stream r) \<and>
    res = (if stream r \<noteq> [] then Inr (min limit (length (stream r)))
           else if ends r then Inl Disconnected else Inl Empty)"
  using assms by (rule try_recv_many_prefix)

theorem try_recv_many_takes_prefix_witness:
  "snd (snd (try_recv_many \<lparr>rx_queue = [Batch [1, 2, 3 :: nat], EndOfStream], rx_connected = True,
     rx_buffer = [0], rx_eos = False\<rparr> [] 3)) = [0, 1, 2]"
  using try_recv_many_takes_prefix [of "\<lparr>rx_queue = [Batch [1, 2, 3 :: nat], EndOfStream],
      rx_connected = True, rx_buffer = [0], rx_eos = False\<rparr>" 3 "[]"]
  by (cases "try_recv_many \<lparr>rx_queue = [Batch [1, 2, 3 :: nat], EndOfStream], rx_connected = True,
     rx_buffer = [0], rx_eos = False\<rparr> [] 3") (simp add: stream_def)

text \<open>
  The envelope receives hand over non-empty runs of the stream, and the blocking and the
  non-blocking variants agree with the stream on when there is nothing to deliver.
\<close>
theorem recv_batch_delivers_prefix:
  "(case recv_batch r of
      None \<Rightarrow> stream r = [] \<and> \<not> ends r
    | Some (res, r') \<Rightarrow>
        (case res of
           Inr xs \<Rightarrow> xs \<noteq> [] \<and> stream r = xs @ stream r'
         | Inl e \<Rightarrow> e = Shutdown \<and> stream r = [] \<and> ends r)) \<and>
   (case try_recv_batch r of (res, r') \<Rightarrow>
        (case res of
           Inr xs \<Rightarrow> xs \<noteq> [] \<and> stream r = xs @ stream r'
         | Inl e \<Rightarrow> stream r = [] \<and> (e = Disconnected \<longleftrightarrow> ends r))) \<and>
   (case try_recv r of (res, r') \<Rightarrow>
        (case res of
           Inr x \<Rightarrow> stream r = x # stream r'
         | Inl e \<Rightarrow> stream r = [] \<and> (e = Disconnected \<longleftrightarrow> ends r)))"
proof (cases "rx_eos r \<or> rx_buffer r \<noteq> []")
  case True
  then show ?thesis
    by (cases "rx_buffer r") (auto simp: recv_batch_def try_recv_batch_def try_recv_def stream_def ends_def)
next
  case False
  then have e: "rx_buffer r = []" "\<not> rx_eos r" by simp_all
  then show ?thesis
    using recv_batch_loop_spec [OF e, of "rx_queue r"]
      try_recv_batch_loop_spec [OF e, of "rx_queue r"] try_recv_loop_spec [OF e, of "rx_queue r"]
    by (auto simp: recv_batch_def try_recv_batch_def try_recv_def stream_def ends_def
        split: option.splits prod.splits sum.splits)
qed

lemma peek_loop_eos:
  "peek_loop r q = Some (Inl e, r') \<Longrightarrow> \<not> rx_eos r \<Longrightarrow> rx_eos r' \<longleftrightarrow> EndOfStream \<in> set q"
  by (induction r q rule: peek_loop.induct) (auto split: list.splits if_splits)

text \<open>
  C37: As long as the end of the stream has not been observed, an item that is put back is the next one
  received, in front of everything else that is buffered or queued, and receiving it restores the receiver. When
  a peek has met the end-of-stream marker, an item put back afterwards is lost: the next receive reports the
  shutdown. A peek that ended on a disconnected channel instead does not lose it.
\<close>
theorem put_back_recv:
  assumes "\<not> rx_eos r"
  shows "recv (put_back r x) = Some (Inr x, r) \<and> stream (put_back r x) = x # stream r \<and>
    (\<forall>e r'. peek r = Some (Inl e, r') \<longrightarrow>
      recv (put_back r' x) =
        (if EndOfStream \<in> set (rx_queue r) then Some (Inl Shutdown, put_back r' x) else Some (Inr x, r')))"
proof -
  have "recv (put_back r' x) =
      (if EndOfStream \<in> set (rx_queue r) then Some (Inl Shutdown, put_back r' x) else Some (Inr x, r'))"
    if peek: "peek r = Some (Inl e, r')" for e r'
  proof -
    have "rx_eos r' \<longleftrightarrow> EndOfStream \<in> set (rx_queue r)"
      using assms peek peek_loop_eos [of r "rx_queue r" e r'] by (auto simp: peek_def split: list.splits)
    then show ?thesis by (simp add: put_back_def recv_def)
  qed
  then show ?thesis using assms stream_put_back [of r x] by (simp add: put_back_def recv_def)
qed

theorem put_back_recv_witness:
  "recv (put_back \<lparr>rx_queue = [], rx_connected = True, rx_buffer = [], rx_eos = True\<rparr> (7 :: nat)) =
     Some (Inl Shutdown, put_back \<lparr>rx_queue = [], rx_connected = True, rx_buffer = [], rx_eos = True\<rparr> 7) \<and>
   recv (put_back \<lparr>rx_queue = [Sample_Message 6], rx_connected = True, rx_buffer = [5], rx_eos = False\<rparr> (7 :: nat)) =
     Some (Inr 7, \<lparr>rx_queue = [Sample_Message 6], rx_connected = True, rx_buffer = [5], rx_eos = False\<rparr>)"
  using put_back_recv [of "\<lparr>rx_queue = [EndOfStream], rx_connected = True, rx_buffer = [], rx_eos = False\<rparr>" "7 :: nat"]
    put_back_recv [of "\<lparr>rx_queue = [Sample_Message 6], rx_connected = True, rx_buffer = [5], rx_eos = False\<rparr>" "7 :: nat"]
  by (simp add: peek_def)

text \<open>
  C36: Draining a finite stream up to a time keeps the stream from the item that extends past that
  time; when every later item starts at or before it, the last item is discarded too and the
  result is the shutdown.
\<close>
theorem drain_before_keeps:
  assumes "ends r"
  shows "case drain_spec f before (stream r) of
      Some xs \<Rightarrow> \<exists>r'. drain_before r before f = Some (Inr (), r') \<and> stream r' = xs
    | None \<Rightarrow> \<exists>r'. drain_before r before f = Some (Inl Shutdown, r') \<and> stream r' = []"
  using assms by (rule drain_before_spec)

theorem drain_before_keeps_witness:
  "\<exists>r'. drain_before \<lparr>rx_queue = [Batch [10, 20, 30 :: u64], EndOfStream], rx_connected = True,
      rx_buffer = [], rx_eos = False\<rparr> 25 (\<lambda>t. t) = Some (Inr (), r') \<and> stream r' = [20, 30]"
  using drain_before_keeps [of "\<lparr>rx_queue = [Batch [10, 20, 30 :: u64], EndOfStream],
      rx_connected = True, rx_buffer = [], rx_eos = False\<rparr>" 25 "\<lambda>t. t"]
  by (simp add: stream_def ends_def)

text \<open>
  C35: A selection over finite streams always returns. What it returns is the next item of one of
  the listed channels, and it leaves the stream of every other channel as it was; it reports
  shutdown only when every listed stream is exhausted.
\<close>
theorem selector_fifo:
  assumes "list_all (\<lambda>i. i < length chs) indices" "list_all (\<lambda>i. ends (chs ! i)) indices"
  shows "(\<exists>res chs'. select_from indices chs res chs') \<and>
    (\<forall>res chs'. select_from indices chs res chs' \<longrightarrow>
      (case res of
         Inr (i, x) \<Rightarrow> i \<in> set indices \<and> stream (chs ! i) = x # stream (chs' ! i) \<and>
           same_streams_but (Some i) chs chs'
       | Inl e \<Rightarrow> e = Shutdown \<and> list_all (\<lambda>i. stream (chs ! i) = []) indices \<and>
           same_streams_but None chs chs'))"
  using assms select_from_returns [of chs indices] select_from_spec [of indices chs]
  by (auto simp: list_all_iff select_result_def)

theorem selector_fifo_witness:
  "\<exists>res chs'. select_from [0, 1]
     [\<lparr>rx_queue = [EndOfStream], rx_connected = True, rx_buffer = [], rx_eos = False\<rparr>,
      \<lparr>rx_queue = [Sample_Message (5 :: nat)], rx_connected = False, rx_buffer = [], rx_eos = False\<rparr>] res chs'"
  using selector_fifo [of "[\<lparr>rx_queue = [EndOfStream], rx_connected = True, rx_buffer = [], rx_eos = False\<rparr>,
      \<lparr>rx_queue = [Sample_Message (5 :: nat)], rx_connected = False, rx_buffer = [], rx_eos = False\<rparr>]" "[0, 1]"]
  by (simp add: ends_def)

end
