(* ===== verification/Shared_Senders.thy ===== *)
theory Shared_Senders
  imports Receivers
begin

text \<open>
  The broadcasting side of a live channel, \<^verbatim>\<open>crates/signal_runtime/src/sender.rs\<close>: the
  supervisor-owned subscriber list with its overflow policies, and the sender of an output port.
  The channels themselves belong to the crossbeam crate. They are a parameter: a type of channel
  states and the operation \<open>try_send\<close>, with the documented behaviour of a bounded queue as the
  assumptions of the locale \<open>bounded_channel\<close>. Sends that have to wait are served after the lock is
  released, so subscribers come and go and receivers drain in between; the relation \<open>step\<close> has one
  rule for each of these moves.
\<close>

section \<open>State\<close>

datatype overflow_policy = Block | Lossy | Disconnect u64

datatype 'a try_send_result = Sent | Full "'a channel_message" | Unconnected "'a channel_message"

type_synonym ('c, 'a) try_send_fun = "'c \<Rightarrow> 'a channel_message \<Rightarrow> 'a try_send_result \<times> 'c"

text \<open>A channel handle is an index into the list of channels, shared by all clones of the handle.\<close>

record 'a subscriber =
  sub_id :: u64
  sub_tx :: nat
  sub_policy :: overflow_policy
  sub_label :: "string option"
  sub_pending :: "'a option"

record 'a shared_senders =
  ss_subscribers :: "'a subscriber list"
  ss_sticky :: bool
  ss_last :: "'a option"
  ss_disconnected :: "u64 list"
  ss_closed :: bool

record 'a blocked_send =
  bs_id :: u64
  bs_tx :: nat
  bs_deadline :: "u64 option"
  bs_message :: "'a channel_message"

definition shared_senders_new :: "bool \<Rightarrow> 'a shared_senders" where
  "shared_senders_new sticky =
     \<lparr>ss_subscribers = [], ss_sticky = sticky, ss_last = None, ss_disconnected = [], ss_closed = False\<rparr>"

section \<open>Subscribing\<close>

text \<open>
  \<open>bounded\<close> makes an empty channel of the given capacity. The identifiers come from a process-wide
  counter, which is passed and returned.
\<close>

definition subscribe_with_label :: "(nat \<Rightarrow> 'c) \<Rightarrow> ('c, 'a) try_send_fun \<Rightarrow> 'a shared_senders \<Rightarrow> 'c list \<Rightarrow> u64 \<Rightarrow>
    nat \<Rightarrow> overflow_policy \<Rightarrow> string option \<Rightarrow> (u64 \<times> nat) \<times> 'a shared_senders \<times> 'c list \<times> u64" where
  "subscribe_with_label bounded try_send s chans next_id buffer policy label =
     (let tx = bounded (max buffer 1); h = length chans in
      if ss_closed s
      then ((next_id, h), s, chans @ [snd (try_send tx EndOfStream)], next_id + 1)
      else
        let tx1 = (if ss_sticky s
                   then (case ss_last s of Some newest \<Rightarrow> snd (try_send tx (Sample_Message newest)) | None \<Rightarrow> tx)
                   else tx)
        in ((next_id, h),
            s\<lparr>ss_subscribers := ss_subscribers s @
               [\<lparr>sub_id = next_id, sub_tx = h, sub_policy = policy, sub_label = label, sub_pending = None\<rparr>]\<rparr>,
            chans @ [tx1], next_id + 1))"

definition subscribe :: "(nat \<Rightarrow> 'c) \<Rightarrow> ('c, 'a) try_send_fun \<Rightarrow> 'a shared_senders \<Rightarrow> 'c list \<Rightarrow> u64 \<Rightarrow>
    nat \<Rightarrow> overflow_policy \<Rightarrow> (u64 \<times> nat) \<times> 'a shared_senders \<times> 'c list \<times> u64" where
  "subscribe bounded try_send s chans next_id buffer policy =
     subscribe_with_label bounded try_send s chans next_id buffer policy None"

definition retain_other :: "u64 \<Rightarrow> 'a shared_senders \<Rightarrow> 'a shared_senders" where
  "retain_other i s = s\<lparr>ss_subscribers := filter (\<lambda>sub. sub_id sub \<noteq> i) (ss_subscribers s)\<rparr>"

definition unsubscribe :: "u64 \<Rightarrow> 'a shared_senders \<Rightarrow> 'a shared_senders" where
  "unsubscribe i s = retain_other i s"

definition offer_to :: "('c, 'a) try_send_fun \<Rightarrow> 'a channel_message \<Rightarrow> 'a subscriber \<Rightarrow> 'c list \<Rightarrow> 'c list" where
  "offer_to try_send message sub chans = chans[sub_tx sub := snd (try_send (chans ! sub_tx sub) message)]"

definition shared_close :: "('c, 'a) try_send_fun \<Rightarrow> 'a shared_senders \<Rightarrow> 'c list \<Rightarrow> 'a shared_senders \<times> 'c list" where
  "shared_close try_send s chans =
     (s\<lparr>ss_closed := True, ss_subscribers := []\<rparr>, fold (offer_to try_send EndOfStream) (ss_subscribers s) chans)"

definition take_disconnected :: "'a shared_senders \<Rightarrow> u64 list \<times> 'a shared_senders" where
  "take_disconnected s = (ss_disconnected s, s\<lparr>ss_disconnected := []\<rparr>)"

definition subscriber_count :: "'a shared_senders \<Rightarrow> nat" where
  "subscriber_count s = length (ss_subscribers s)"

text \<open>\<open>len\<close> and \<open>capacity\<close> are the two observers of a channel handle.\<close>

definition would_block :: "('c \<Rightarrow> nat) \<Rightarrow> ('c \<Rightarrow> nat) \<Rightarrow> 'a shared_senders \<Rightarrow> 'c list \<Rightarrow> bool" where
  "would_block len capacity s chans \<longleftrightarrow>
     list_ex (\<lambda>sub. sub_policy sub \<noteq> Lossy \<and> capacity (chans ! sub_tx sub) \<le> len (chans ! sub_tx sub)) (ss_subscribers s)"

section \<open>Sending\<close>

text \<open>A pending value is retried before the new message. The first component tells whether the receiver is gone.\<close>

definition retry_pending :: "('c, 'a) try_send_fun \<Rightarrow> 'a subscriber \<Rightarrow> 'c \<Rightarrow> bool \<times> 'a subscriber \<times> 'c" where
  "retry_pending try_send sub c =
     (case sub_pending sub of
        None \<Rightarrow> (False, sub, c)
      | Some pending \<Rightarrow>
          (case try_send c (Sample_Message pending) of
             (Unconnected _, c1) \<Rightarrow> (True, sub\<lparr>sub_pending := None\<rparr>, c1)
           | (_, c1) \<Rightarrow> (False, sub\<lparr>sub_pending := None\<rparr>, c1)))"

fun newest_value :: "'a channel_message \<Rightarrow> 'a option" where
  "newest_value (Sample_Message x) = Some x"
| "newest_value (Batch xs) = (if xs = [] then None else Some (last xs))"
| "newest_value EndOfStream = None"

definition block_on :: "'a subscriber \<Rightarrow> u64 option \<Rightarrow> 'a channel_message \<Rightarrow> 'a blocked_send" where
  "block_on sub deadline message =
     \<lparr>bs_id = sub_id sub, bs_tx = sub_tx sub, bs_deadline = deadline, bs_message = message\<rparr>"

text \<open>What one subscriber makes of a message: gone or not, its new state, the sends that must wait.\<close>

definition serve :: "('c, 'a) try_send_fun \<Rightarrow> 'a channel_message \<Rightarrow> 'a subscriber \<Rightarrow> 'c \<Rightarrow>
    (bool \<times> 'a subscriber \<times> 'a blocked_send list) \<times> 'c" where
  "serve try_send message sub c =
     (case retry_pending try_send sub c of
        (True, sub1, c1) \<Rightarrow> ((True, sub1, []), c1)
      | (False, sub1, c1) \<Rightarrow>
          (case try_send c1 message of
             (Sent, c2) \<Rightarrow> ((False, sub1, []), c2)
           | (Full m, c2) \<Rightarrow>
               ((case sub_policy sub1 of
                   Block \<Rightarrow> (False, sub1, [block_on sub1 None m])
                 | Lossy \<Rightarrow> (False, sub1\<lparr>sub_pending := newest_value m\<rparr>, [])
                 | Disconnect deadline \<Rightarrow> (False, sub1, [block_on sub1 (Some deadline) m])), c2)
           | (Unconnected m, c2) \<Rightarrow> ((True, sub1, []), c2)))"

fun serve_all :: "('c, 'a) try_send_fun \<Rightarrow> 'a channel_message \<Rightarrow> 'a subscriber list \<Rightarrow> 'c list \<Rightarrow>
    u64 list \<times> 'a subscriber list \<times> 'a blocked_send list \<times> 'c list" where
  "serve_all try_send message [] chans = ([], [], [], chans)"
| "serve_all try_send message (sub # subs) chans =
     (let ((gone, sub1, waiting), c) = serve try_send message sub (chans ! sub_tx sub);
          (dead, subs1, blocked, chans1) = serve_all try_send message subs (chans[sub_tx sub := c])
      in (if gone then sub_id sub # dead else dead, sub1 # subs1, waiting @ blocked, chans1))"

text \<open>The part of \<open>send_message\<close> under the lock; it returns the sends that are left to wait for.\<close>

definition send_locked :: "('c, 'a) try_send_fun \<Rightarrow> 'a channel_message \<Rightarrow> 'a option \<Rightarrow> 'a shared_senders \<Rightarrow> 'c list \<Rightarrow>
    'a blocked_send list \<times> 'a shared_senders \<times> 'c list" where
  "send_locked try_send message sticky_last s chans =
     (let s1 = (if ss_sticky s then (case sticky_last of Some newest \<Rightarrow> s\<lparr>ss_last := Some newest\<rparr> | None \<Rightarrow> s) else s);
          (dead, subs, blocked, chans1) = serve_all try_send message (ss_subscribers s1) chans
      in (blocked, s1\<lparr>ss_subscribers := filter (\<lambda>sub. sub_id sub \<notin> set dead) subs\<rparr>, chans1))"

text \<open>What follows a waiting send, once it succeeded or failed.\<close>

definition finish_blocked :: "bool \<Rightarrow> 'a blocked_send \<Rightarrow> 'a shared_senders \<Rightarrow> 'a shared_senders" where
  "finish_blocked sent b s =
     (if sent then s
      else case bs_deadline b of
        None \<Rightarrow> retain_other (bs_id b) s
      | Some _ \<Rightarrow> let s1 = retain_other (bs_id b) s in s1\<lparr>ss_disconnected := ss_disconnected s1 @ [bs_id b]\<rparr>)"

definition shared_send :: "('c, 'a) try_send_fun \<Rightarrow> 'a \<Rightarrow> 'a shared_senders \<Rightarrow> 'c list \<Rightarrow>
    'a blocked_send list \<times> 'a shared_senders \<times> 'c list" where
  "shared_send try_send x s chans = send_locked try_send (Sample_Message x) (Some x) s chans"

definition shared_send_batch :: "('c, 'a) try_send_fun \<Rightarrow> 'a list \<Rightarrow> 'a shared_senders \<Rightarrow> 'c list \<Rightarrow>
    'a blocked_send list \<times> 'a shared_senders \<times> 'c list" where
  "shared_send_batch try_send xs s chans =
     (if xs = [] then ([], s, chans) else send_locked try_send (Batch xs) (Some (last xs)) s chans)"

section \<open>The sender of a port\<close>

text \<open>
  Static destinations are sent to one after the other, waiting for room; the live list is served
  first. \<open>send_result\<close> of a destination is the outcome of its blocking send, which the channel decides.
\<close>

record destination =
  dest_tx :: nat
  dest_label :: "string option"

record 'a sender =
  tx_destinations :: "destination list"
  tx_shared :: "'a shared_senders option"

definition sender_new_labeled :: "(nat \<times> string option) list \<Rightarrow> 'a sender" where
  "sender_new_labeled ds = \<lparr>tx_destinations = map (\<lambda>(tx, label). \<lparr>dest_tx = tx, dest_label = label\<rparr>) ds, tx_shared = None\<rparr>"

definition sender_new :: "nat list \<Rightarrow> 'a sender" where
  "sender_new txs = sender_new_labeled (map (\<lambda>tx. (tx, None)) txs)"

definition sender_from_shared :: "'a shared_senders \<Rightarrow> 'a sender" where
  "sender_from_shared s = \<lparr>tx_destinations = [], tx_shared = Some s\<rparr>"

definition split_senders :: "'a sender \<Rightarrow> 'a sender list" where
  "split_senders t =
     (let shared_snapshot = (case tx_shared t of
            None \<Rightarrow> [] | Some s \<Rightarrow> map (\<lambda>sub. (sub_tx sub, sub_label sub)) (ss_subscribers s))
      in map (\<lambda>(tx, label). \<lparr>tx_destinations = [\<lparr>dest_tx = tx, dest_label = label\<rparr>], tx_shared = None\<rparr>)
           (map (\<lambda>d. (dest_tx d, dest_label d)) (tx_destinations t) @ shared_snapshot))"

definition destination_label :: "'a sender \<Rightarrow> string option" where
  "destination_label t =
     (if length (tx_destinations t) = 1 \<and> tx_shared t = None then dest_label (tx_destinations t ! 0) else None)"

definition num_destinations :: "'a sender \<Rightarrow> nat" where
  "num_destinations t =
     length (tx_destinations t) + (case tx_shared t of None \<Rightarrow> 0 | Some s \<Rightarrow> subscriber_count s)"

definition sender_is_connected :: "'a sender \<Rightarrow> bool" where
  "sender_is_connected t \<longleftrightarrow> tx_destinations t \<noteq> [] \<or> tx_shared t \<noteq> None"

text \<open>
  A blocking send is a parameter too: given the channel, the message and the deadline, if any, it
  returns whether the message was accepted, or never returns.
\<close>

type_synonym ('c, 'a) send_fun = "'c \<Rightarrow> 'a channel_message \<Rightarrow> u64 option \<Rightarrow> (bool \<times> 'c) option"

fun wait_blocked :: "('c, 'a) send_fun \<Rightarrow> 'a blocked_send list \<Rightarrow> 'a shared_senders \<Rightarrow> 'c list \<Rightarrow>
    ('a shared_senders \<times> 'c list) option" where
  "wait_blocked send [] s chans = Some (s, chans)"
| "wait_blocked send (b # bs) s chans =
     (case send (chans ! bs_tx b) (bs_message b) (bs_deadline b) of
        None \<Rightarrow> None
      | Some (sent, c) \<Rightarrow> wait_blocked send bs (finish_blocked sent b s) (chans[bs_tx b := c]))"

definition send_message :: "('c, 'a) try_send_fun \<Rightarrow> ('c, 'a) send_fun \<Rightarrow> 'a channel_message \<Rightarrow> 'a option \<Rightarrow>
    'a shared_senders \<Rightarrow> 'c list \<Rightarrow> ('a shared_senders \<times> 'c list) option" where
  "send_message try_send send message sticky_last s chans =
     (let (blocked, s1, chans1) = send_locked try_send message sticky_last s chans
      in wait_blocked send blocked s1 chans1)"

fun send_static :: "('c, 'a) send_fun \<Rightarrow> 'a channel_message \<Rightarrow> destination list \<Rightarrow> 'c list \<Rightarrow> bool \<Rightarrow>
    (bool \<times> 'c list) option" where
  "send_static send message [] chans any_success = Some (any_success, chans)"
| "send_static send message (d # ds) chans any_success =
     (case send (chans ! dest_tx d) message None of
        None \<Rightarrow> None
      | Some (sent, c) \<Rightarrow> send_static send message ds (chans[dest_tx d := c]) (any_success \<or> sent))"

definition serve_shared :: "('c, 'a) try_send_fun \<Rightarrow> ('c, 'a) send_fun \<Rightarrow> 'a channel_message \<Rightarrow> 'a \<Rightarrow> 'a sender \<Rightarrow> 'c list \<Rightarrow>
    ('a sender \<times> 'c list) option" where
  "serve_shared try_send send message newest t chans =
     (case tx_shared t of
        None \<Rightarrow> Some (t, chans)
      | Some s \<Rightarrow> map_option (\<lambda>(s1, chans1). (t\<lparr>tx_shared := Some s1\<rparr>, chans1))
                    (send_message try_send send message (Some newest) s chans))"

text \<open>The error carries the value back.\<close>

definition sender_send :: "('c, 'a) try_send_fun \<Rightarrow> ('c, 'a) send_fun \<Rightarrow> 'a sender \<Rightarrow> 'a \<Rightarrow> 'c list \<Rightarrow>
    (('a + unit) \<times> 'a sender \<times> 'c list) option" where
  "sender_send try_send send t x chans =
     Option.bind (serve_shared try_send send (Sample_Message x) x t chans) (\<lambda>(t1, chans1).
     if tx_destinations t1 = [] then Some (Inr (), t1, chans1)
     else map_option (\<lambda>(any_success, chans2). (if any_success then Inr () else Inl x, t1, chans2))
            (send_static send (Sample_Message x) (tx_destinations t1) chans1 False))"

definition sender_send_batch :: "('c, 'a) try_send_fun \<Rightarrow> ('c, 'a) send_fun \<Rightarrow> 'a sender \<Rightarrow> 'a list \<Rightarrow> 'c list \<Rightarrow>
    (('a list + unit) \<times> 'a sender \<times> 'c list) option" where
  "sender_send_batch try_send send t xs chans =
     (if xs = [] then Some (Inr (), t, chans)
      else
        Option.bind (serve_shared try_send send (Batch xs) (last xs) t chans) (\<lambda>(t1, chans1).
        if tx_destinations t1 = [] then Some (Inr (), t1, chans1)
        else map_option (\<lambda>(any_success, chans2). (if any_success then Inr () else Inl xs, t1, chans2))
               (send_static send (Batch xs) (tx_destinations t1) chans1 False)))"

definition sender_close :: "('c, 'a) send_fun \<Rightarrow> 'a sender \<Rightarrow> 'c list \<Rightarrow> 'c list option" where
  "sender_close send t chans = map_option snd (send_static send EndOfStream (tx_destinations t) chans False)"

datatype 'a try_send_error = Full_Value 'a | Unconnected_Value 'a

fun try_send_static :: "('c, 'a) try_send_fun \<Rightarrow> 'a \<Rightarrow> destination list \<Rightarrow> 'c list \<Rightarrow> ('a try_send_error + unit) \<times> 'c list" where
  "try_send_static try_send x [] chans = (Inr (), chans)"
| "try_send_static try_send x (d # ds) chans =
     (case try_send (chans ! dest_tx d) (Sample_Message x) of
        (Sent, c) \<Rightarrow> try_send_static try_send x ds (chans[dest_tx d := c])
      | (Full _, c) \<Rightarrow> (Inl (Full_Value x), chans[dest_tx d := c])
      | (Unconnected _, c) \<Rightarrow> (Inl (Unconnected_Value x), chans[dest_tx d := c]))"

definition sender_try_send :: "('c, 'a) try_send_fun \<Rightarrow> ('c, 'a) send_fun \<Rightarrow> 'a sender \<Rightarrow> 'a \<Rightarrow> 'c list \<Rightarrow>
    (('a try_send_error + unit) \<times> 'a sender \<times> 'c list) option" where
  "sender_try_send try_send send t x chans =
     map_option (\<lambda>(t1, chans1).
       let (r, chans2) = try_send_static try_send x (tx_destinations t1) chans1 in (r, t1, chans2))
       (serve_shared try_send send (Sample_Message x) x t chans)"

section \<open>Interleaving\<close>

text \<open>
  The channel crate as the model sees it, and the system: the list, its channels, the identifier
  counter, and the sends the one sending thread of the port is waiting for. The rule for a
  subscription assumes that the 64-bit counter has not run out.
\<close>

record ('c, 'a) channel_api =
  api_bounded :: "nat \<Rightarrow> 'c"
  api_try_send :: "('c, 'a) try_send_fun"
  api_try_recv :: "'c \<Rightarrow> ('a channel_message \<times> 'c) option"
  api_drop_receiver :: "'c \<Rightarrow> 'c"

record ('c, 'a) bus =
  bus_shared :: "'a shared_senders"
  bus_chans :: "'c list"
  bus_next_id :: u64
  bus_blocked :: "'a blocked_send list"

datatype 'a move = Sends "'a channel_message" | Receives nat "'a channel_message" | Other

inductive bus_step :: "('c, 'a) channel_api \<Rightarrow> ('c, 'a) bus \<Rightarrow> 'a move \<Rightarrow> ('c, 'a) bus \<Rightarrow> bool" for api where
  subscribes: "bus_next_id b < - 1 \<Longrightarrow>
    subscribe_with_label (api_bounded api) (api_try_send api) (bus_shared b) (bus_chans b) (bus_next_id b)
      buffer policy label = (r, s, chans, next_id) \<Longrightarrow>
    bus_step api b Other (b\<lparr>bus_shared := s, bus_chans := chans, bus_next_id := next_id\<rparr>)"
| unsubscribes: "bus_step api b Other (b\<lparr>bus_shared := unsubscribe i (bus_shared b)\<rparr>)"
| closes: "shared_close (api_try_send api) (bus_shared b) (bus_chans b) = (s, chans) \<Longrightarrow>
    bus_step api b Other (b\<lparr>bus_shared := s, bus_chans := chans\<rparr>)"
| sends: "bus_blocked b = [] \<Longrightarrow> newest_value message = Some newest \<Longrightarrow>
    send_locked (api_try_send api) message (Some newest) (bus_shared b) (bus_chans b) = (blocked, s, chans) \<Longrightarrow>
    bus_step api b (Sends message) (b\<lparr>bus_shared := s, bus_chans := chans, bus_blocked := blocked\<rparr>)"
| sent: "bus_blocked b = w # ws \<Longrightarrow> api_try_send api (bus_chans b ! bs_tx w) (bs_message w) = (Sent, c) \<Longrightarrow>
    bus_step api b Other (b\<lparr>bus_chans := (bus_chans b)[bs_tx w := c], bus_blocked := ws\<rparr>)"
| fails: "bus_blocked b = w # ws \<Longrightarrow>
    api_try_send api (bus_chans b ! bs_tx w) (bs_message w) = (Unconnected m, c) \<or>
    bs_deadline w \<noteq> None \<and> api_try_send api (bus_chans b ! bs_tx w) (bs_message w) = (Full m, c) \<Longrightarrow>
    bus_step api b Other (b\<lparr>bus_shared := finish_blocked False w (bus_shared b), bus_blocked := ws\<rparr>)"
| receives: "h < length (bus_chans b) \<Longrightarrow> api_try_recv api (bus_chans b ! h) = Some (m, c) \<Longrightarrow>
    bus_step api b (Receives h m) (b\<lparr>bus_chans := (bus_chans b)[h := c]\<rparr>)"
| drops: "h < length (bus_chans b) \<Longrightarrow>
    bus_step api b Other (b\<lparr>bus_chans := (bus_chans b)[h := api_drop_receiver api (bus_chans b ! h)]\<rparr>)"

inductive bus_run :: "('c, 'a) channel_api \<Rightarrow> ('c, 'a) bus \<Rightarrow> 'a move list \<Rightarrow> ('c, 'a) bus \<Rightarrow> bool" for api where
  start: "bus_run api b [] b"
| more: "bus_run api b moves b1 \<Longrightarrow> bus_step api b1 move b2 \<Longrightarrow> bus_run api b (moves @ [move]) b2"

inductive_cases bus_stepE: "bus_step api b move b'"

section \<open>The channel interface\<close>

locale bounded_channel =
  fixes api :: "('c, 'a) channel_api"
    and queue :: "'c \<Rightarrow> 'a channel_message list" and capacity :: "'c \<Rightarrow> nat" and alive :: "'c \<Rightarrow> bool"
  assumes bounded: "0 < n \<Longrightarrow> queue (api_bounded api n) = [] \<and> capacity (api_bounded api n) = n \<and> alive (api_bounded api n)"
    and try_send_gone: "\<not> alive c \<Longrightarrow> api_try_send api c m = (Unconnected m, c)"
    and try_send_full: "alive c \<Longrightarrow> capacity c \<le> length (queue c) \<Longrightarrow> api_try_send api c m = (Full m, c)"
    and try_send_room: "alive c \<Longrightarrow> length (queue c) < capacity c \<Longrightarrow>
      \<exists>c'. api_try_send api c m = (Sent, c') \<and> queue c' = queue c @ [m] \<and> capacity c' = capacity c \<and> alive c'"
    and try_recv_empty: "queue c = [] \<Longrightarrow> api_try_recv api c = None"
    and try_recv_first: "queue c = m # q \<Longrightarrow>
      \<exists>c'. api_try_recv api c = Some (m, c') \<and> queue c' = q \<and> capacity c' = capacity c \<and> alive c' = alive c"
    and drop_receiver: "\<not> alive (api_drop_receiver api c) \<and> capacity (api_drop_receiver api c) = capacity c \<and>
      length (queue (api_drop_receiver api c)) \<le> length (queue c)"
begin

lemma try_send_cases:
  obtains "\<not> alive c" "api_try_send api c m = (Unconnected m, c)"
  | "alive c" "capacity c \<le> length (queue c)" "api_try_send api c m = (Full m, c)"
  | c' where "alive c" "length (queue c) < capacity c" "api_try_send api c m = (Sent, c')"
      "queue c' = queue c @ [m]" "capacity c' = capacity c" "alive c'"
  using try_send_gone [of c m] try_send_full [of c m] try_send_room [of c m] by (metis not_less)

lemma try_recv_SomeD:
  assumes "api_try_recv api c = Some (m, c')"
  shows "queue c = m # queue c'" "alive c' = alive c" "capacity c' = capacity c"
  using assms try_recv_empty [of c] try_recv_first [of c] by (cases "queue c"; force)+

end

section \<open>Serving the list\<close>

abbreviation served :: "('c, 'a) try_send_fun \<Rightarrow> 'a channel_message \<Rightarrow> 'c list \<Rightarrow> 'a subscriber \<Rightarrow>
    (bool \<times> 'a subscriber \<times> 'a blocked_send list) \<times> 'c" where
  "served try_send m chans sub \<equiv> serve try_send m sub (chans ! sub_tx sub)"

text \<open>Subscribers with different channels do not disturb each other.\<close>

lemma serve_all_eq:
  assumes "distinct (map sub_tx subs)" "\<forall>sub\<in>set subs. sub_tx sub < length chans"
    and "serve_all try_send m subs chans = (dead, subs', blocked, chans')"
  shows "dead = map sub_id (filter (\<lambda>sub. fst (fst (served try_send m chans sub))) subs) \<and>
    subs' = map (\<lambda>sub. fst (snd (fst (served try_send m chans sub)))) subs \<and>
    blocked = concat (map (\<lambda>sub. snd (snd (fst (served try_send m chans sub)))) subs) \<and>
    length chans' = length chans \<and>
    (\<forall>sub\<in>set subs. chans' ! sub_tx sub = snd (served try_send m chans sub)) \<and>
    (\<forall>h. h \<notin> sub_tx ` set subs \<longrightarrow> chans' ! h = chans ! h)"
  using assms
proof (induction subs arbitrary: chans dead subs' blocked chans')
  case (Cons sub subs)
  obtain gone sub1 waiting c where s: "served try_send m chans sub = ((gone, sub1, waiting), c)"
    by (metis prod.exhaust_sel)
  let ?chans = "chans[sub_tx sub := c]"
  obtain dead1 subs1 blocked1 where r: "serve_all try_send m subs ?chans = (dead1, subs1, blocked1, chans')"
    "dead = (if gone then sub_id sub # dead1 else dead1)" "subs' = sub1 # subs1" "blocked = waiting @ blocked1"
    using Cons.prems(3) s by (auto simp: Let_def split: prod.splits)
  have same: "served try_send m ?chans sub' = served try_send m chans sub'" if "sub' \<in> set subs" for sub'
  proof -
    have "sub_tx sub \<noteq> sub_tx sub'" using that Cons.prems(1) by force
    then show ?thesis by simp
  qed
  have "chans' ! sub_tx sub = c"
    using Cons.IH [OF _ _ r(1)] Cons.prems(1,2) by auto
  moreover have "\<forall>h. h \<notin> sub_tx ` set (sub # subs) \<longrightarrow> chans' ! h = chans ! h"
    using Cons.IH [OF _ _ r(1)] Cons.prems(1,2) by auto
  ultimately show ?case
    using Cons.IH [OF _ _ r(1)] Cons.prems(1,2) same s r(2-4)
    by (simp add: same cong: map_cong filter_cong)
qed simp

lemma serve_same_sub:
  "sub_tx (fst (snd (fst (serve try_send m sub c)))) = sub_tx sub"
  "sub_id (fst (snd (fst (serve try_send m sub c)))) = sub_id sub"
  "sub_policy (fst (snd (fst (serve try_send m sub c)))) = sub_policy sub"
  by (auto simp: serve_def retry_pending_def split: option.splits prod.splits try_send_result.splits overflow_policy.splits bool.splits)

section \<open>Invariant of the list\<close>

definition option_list :: "'a option \<Rightarrow> 'a list" where
  "option_list v = (case v of None \<Rightarrow> [] | Some x \<Rightarrow> [x])"

lemma option_list_simps [simp]: "option_list None = []" "option_list (Some x) = [x]"
  by (simp_all add: option_list_def)

definition bus_inv :: "('c, 'a) bus \<Rightarrow> bool" where
  "bus_inv b \<longleftrightarrow>
     (let subs = ss_subscribers (bus_shared b); n = length (bus_chans b) in
      distinct (map sub_id subs) \<and> distinct (map sub_tx subs) \<and>
      (\<forall>sub\<in>set subs. sub_id sub < bus_next_id b \<and> sub_tx sub < n \<and> (sub_policy sub \<noteq> Lossy \<longrightarrow> sub_pending sub = None)) \<and>
      (\<forall>w\<in>set (bus_blocked b). bs_tx w < n \<and> (\<forall>sub\<in>set subs. bs_tx w = sub_tx sub \<longrightarrow> bs_id w = sub_id sub)))"

definition waiting_for :: "('c, 'a) bus \<Rightarrow> nat \<Rightarrow> 'a channel_message list" where
  "waiting_for b h = map bs_message (filter (\<lambda>w. bs_tx w = h) (bus_blocked b))"

fun taken_from :: "nat \<Rightarrow> 'a move list \<Rightarrow> 'a channel_message list" where
  "taken_from h [] = []"
| "taken_from h (Receives h' m # moves) = (if h' = h then m # taken_from h moves else taken_from h moves)"
| "taken_from h (_ # moves) = taken_from h moves"

fun sent_in :: "'a move list \<Rightarrow> 'a channel_message list" where
  "sent_in [] = []"
| "sent_in (Sends m # moves) = m # sent_in moves"
| "sent_in (_ # moves) = sent_in moves"

lemma moves_append [simp]:
  "taken_from h (moves @ moves') = taken_from h moves @ taken_from h moves'"
  "sent_in (moves @ moves') = sent_in moves @ sent_in moves'"
  by (induction moves rule: sent_in.induct) (auto, (metis taken_from.simps move.exhaust append_Cons)?)

lemma bus_invI:
  assumes "distinct (map sub_id (ss_subscribers (bus_shared b)))" "distinct (map sub_tx (ss_subscribers (bus_shared b)))"
    and "\<And>sub. sub \<in> set (ss_subscribers (bus_shared b)) \<Longrightarrow> sub_id sub < bus_next_id b \<and> sub_tx sub < length (bus_chans b) \<and>
      (sub_policy sub \<noteq> Lossy \<longrightarrow> sub_pending sub = None)"
    and "\<And>w. w \<in> set (bus_blocked b) \<Longrightarrow> bs_tx w < length (bus_chans b) \<and>
      (\<forall>sub\<in>set (ss_subscribers (bus_shared b)). bs_tx w = sub_tx sub \<longrightarrow> bs_id w = sub_id sub)"
  shows "bus_inv b"
  using assms by (simp add: bus_inv_def Let_def)

text \<open>Removing subscribers, and sends that have been served, keeps the invariant.\<close>

lemma bus_inv_less:
  assumes "bus_inv b" "ss_subscribers s = filter P (ss_subscribers (bus_shared b))"
    and "length chans = length (bus_chans b)" "set ws \<subseteq> set (bus_blocked b)"
  shows "bus_inv (b\<lparr>bus_shared := s, bus_chans := chans, bus_blocked := ws\<rparr>)"
  using assms by (auto simp: bus_inv_def Let_def distinct_map_filter)

lemma retain_other_subscribers [simp]:
  "ss_subscribers (retain_other i s) = filter (\<lambda>sub. sub_id sub \<noteq> i) (ss_subscribers s)"
  "ss_subscribers (finish_blocked False w s) = filter (\<lambda>sub. sub_id sub \<noteq> bs_id w) (ss_subscribers s)"
  by (auto simp: retain_other_def finish_blocked_def Let_def split: option.splits)

lemma length_offer_to [simp]: "length (fold (offer_to f m) subs chans) = length chans"
  by (induction subs arbitrary: chans) (simp_all add: offer_to_def)

lemma word_less_inc: "x < (- 1 :: 'n::len word) \<Longrightarrow> x < x + 1"
proof -
  assume "x < - 1"
  then have "1 + x \<noteq> 0" by (metis add.commute add.inverse_unique less_irrefl add.inverse_inverse)
  then have "unat (1 + x) = Suc (unat x)" by (rule unatSuc)
  then show ?thesis by (simp add: word_less_nat_alt add.commute)
qed

lemma subscribe_shape:
  assumes "subscribe_with_label bounded f s chans next_id buffer policy label = (r, s', chans', next_id')"
  obtains c where "chans' = chans @ [c]" "next_id' = next_id + 1" "r = (next_id, length chans)"
    "ss_subscribers s' = ss_subscribers s @ (if ss_closed s then [] else
       [\<lparr>sub_id = next_id, sub_tx = length chans, sub_policy = policy, sub_label = label, sub_pending = None\<rparr>])"
  using assms by (auto simp: subscribe_with_label_def Let_def split: if_splits)

lemma bus_inv_subscribed:
  assumes inv: "bus_inv b" and "bus_next_id b < - 1"
    and sub: "subscribe_with_label bounded f (bus_shared b) (bus_chans b) (bus_next_id b) buffer policy label = (r, s, chans, next_id)"
  shows "bus_inv (b\<lparr>bus_shared := s, bus_chans := chans, bus_next_id := next_id\<rparr>)"
proof -
  from sub obtain c where shape: "chans = bus_chans b @ [c]" "next_id = bus_next_id b + 1"
    "ss_subscribers s = ss_subscribers (bus_shared b) @ (if ss_closed (bus_shared b) then [] else
       [\<lparr>sub_id = bus_next_id b, sub_tx = length (bus_chans b), sub_policy = policy, sub_label = label, sub_pending = None\<rparr>])"
    by (rule subscribe_shape)
  have less: "bus_next_id b < bus_next_id b + 1" using word_less_inc [OF assms(2)] .
  have old: "sub_id sub < bus_next_id b \<and> sub_tx sub < length (bus_chans b) \<and> (sub_policy sub \<noteq> Lossy \<longrightarrow> sub_pending sub = None)"
    if "sub \<in> set (ss_subscribers (bus_shared b))" for sub using inv that by (simp add: bus_inv_def Let_def)
  have blocked: "bs_tx w < length (bus_chans b) \<and> (\<forall>sub\<in>set (ss_subscribers (bus_shared b)). bs_tx w = sub_tx sub \<longrightarrow> bs_id w = sub_id sub)"
    if "w \<in> set (bus_blocked b)" for w using inv that by (simp add: bus_inv_def Let_def)
  have new: "bus_next_id b \<notin> sub_id ` set (ss_subscribers (bus_shared b))" "length (bus_chans b) \<notin> sub_tx ` set (ss_subscribers (bus_shared b))"
    using old by fastforce+
  have "distinct (map sub_id (ss_subscribers s))" "distinct (map sub_tx (ss_subscribers s))"
    using inv new by (simp_all add: shape(3) bus_inv_def Let_def)
  moreover have "sub_id sub < next_id \<and> sub_tx sub < length chans \<and> (sub_policy sub \<noteq> Lossy \<longrightarrow> sub_pending sub = None)"
    if "sub \<in> set (ss_subscribers s)" for sub
    using that old [of sub] less by (auto simp: shape less_Suc_eq split: if_splits intro: less_trans)
  moreover have "bs_tx w < length chans \<and> (\<forall>sub\<in>set (ss_subscribers s). bs_tx w = sub_tx sub \<longrightarrow> bs_id w = sub_id sub)"
    if "w \<in> set (bus_blocked b)" for w
    using blocked [OF that] by (auto simp: shape)
  ultimately show ?thesis by (intro bus_invI) simp_all
qed

lemma send_locked_eq:
  assumes inv: "bus_inv b"
    and sent: "send_locked f m newest (bus_shared b) (bus_chans b) = (blocked, s, chans)"
  shows "blocked = concat (map (\<lambda>sub. snd (snd (fst (served f m (bus_chans b) sub)))) (ss_subscribers (bus_shared b)))"
    "ss_subscribers s = map (\<lambda>sub. fst (snd (fst (served f m (bus_chans b) sub))))
       (filter (\<lambda>sub. \<not> fst (fst (served f m (bus_chans b) sub))) (ss_subscribers (bus_shared b)))"
    "length chans = length (bus_chans b)"
    "sub \<in> set (ss_subscribers (bus_shared b)) \<Longrightarrow> chans ! sub_tx sub = snd (served f m (bus_chans b) sub)"
proof -
  let ?subs = "ss_subscribers (bus_shared b)"
  obtain dead subs where all: "serve_all f m ?subs (bus_chans b) = (dead, subs, blocked, chans)"
    "ss_subscribers s = filter (\<lambda>sub. sub_id sub \<notin> set dead) subs"
    using sent by (auto simp: send_locked_def Let_def split: prod.splits if_splits option.splits)
  note eq = serve_all_eq [OF _ _ all(1)]
  have inv': "distinct (map sub_tx ?subs)" "\<forall>sub\<in>set ?subs. sub_tx sub < length (bus_chans b)" "distinct (map sub_id ?subs)"
    using inv by (simp_all add: bus_inv_def Let_def)
  note eq = eq [OF inv'(1,2)]
  show "blocked = concat (map (\<lambda>sub. snd (snd (fst (served f m (bus_chans b) sub)))) ?subs)" "length chans = length (bus_chans b)"
    using eq by simp_all
  show "sub \<in> set ?subs \<Longrightarrow> chans ! sub_tx sub = snd (served f m (bus_chans b) sub)" using eq by simp
  have gone: "sub_id sub \<in> set dead \<longleftrightarrow> fst (fst (served f m (bus_chans b) sub))" if "sub \<in> set ?subs" for sub
    using eq that inv'(3) by (auto simp: distinct_map inj_on_def)
  have subs: "subs = map (\<lambda>sub. fst (snd (fst (served f m (bus_chans b) sub)))) ?subs" using eq by simp
  show "ss_subscribers s = map (\<lambda>sub. fst (snd (fst (served f m (bus_chans b) sub))))
       (filter (\<lambda>sub. \<not> fst (fst (served f m (bus_chans b) sub))) ?subs)"
    unfolding all(2) subs filter_map comp_def serve_same_sub by (simp add: gone cong: filter_cong)
qed

lemma serve_waiting:
  "w \<in> set (snd (snd (fst (serve f m sub c)))) \<Longrightarrow> bs_tx w = sub_tx sub \<and> bs_id w = sub_id sub \<and> sub_policy sub \<noteq> Lossy"
  by (auto simp: serve_def retry_pending_def block_on_def
      split: option.splits prod.splits try_send_result.splits overflow_policy.splits bool.splits)

lemma serve_pending:
  "sub_policy sub \<noteq> Lossy \<Longrightarrow> sub_pending sub = None \<Longrightarrow> fst (snd (fst (serve f m sub c))) = sub"
  by (auto simp: serve_def retry_pending_def split: prod.splits try_send_result.splits overflow_policy.splits)

lemma bus_inv_sends:
  assumes inv: "bus_inv b" and sent: "send_locked f m newest (bus_shared b) (bus_chans b) = (blocked, s, chans)"
  shows "bus_inv (b\<lparr>bus_shared := s, bus_chans := chans, bus_blocked := blocked\<rparr>)"
proof -
  note eq = send_locked_eq [OF inv sent]
  have old: "distinct (map sub_id (ss_subscribers (bus_shared b)))" "distinct (map sub_tx (ss_subscribers (bus_shared b)))"
    "\<And>sub. sub \<in> set (ss_subscribers (bus_shared b)) \<Longrightarrow> sub_id sub < bus_next_id b \<and> sub_tx sub < length (bus_chans b) \<and>
      (sub_policy sub \<noteq> Lossy \<longrightarrow> sub_pending sub = None)"
    using inv by (simp_all add: bus_inv_def Let_def)
  show ?thesis
  proof (rule bus_invI)
    show "distinct (map sub_id (ss_subscribers (bus_shared (b\<lparr>bus_shared := s, bus_chans := chans, bus_blocked := blocked\<rparr>))))"
      "distinct (map sub_tx (ss_subscribers (bus_shared (b\<lparr>bus_shared := s, bus_chans := chans, bus_blocked := blocked\<rparr>))))"
      using old(1,2) by (simp_all add: eq(2) comp_def serve_same_sub distinct_map_filter)
  next
    fix sub assume "sub \<in> set (ss_subscribers (bus_shared (b\<lparr>bus_shared := s, bus_chans := chans, bus_blocked := blocked\<rparr>)))"
    then obtain sub0 where "sub0 \<in> set (ss_subscribers (bus_shared b))"
      "sub = fst (snd (fst (served f m (bus_chans b) sub0)))" by (auto simp: eq(2))
    with old(3) [of sub0] serve_pending [of sub0 f m] show "sub_id sub < bus_next_id (b\<lparr>bus_shared := s, bus_chans := chans, bus_blocked := blocked\<rparr>) \<and>
       sub_tx sub < length (bus_chans (b\<lparr>bus_shared := s, bus_chans := chans, bus_blocked := blocked\<rparr>)) \<and>
      (sub_policy sub \<noteq> Lossy \<longrightarrow> sub_pending sub = None)" by (auto simp: serve_same_sub eq(3))
  next
    fix w assume "w \<in> set (bus_blocked (b\<lparr>bus_shared := s, bus_chans := chans, bus_blocked := blocked\<rparr>))"
    then obtain sub0 where sub0: "sub0 \<in> set (ss_subscribers (bus_shared b))" "bs_tx w = sub_tx sub0" "bs_id w = sub_id sub0"
      by (auto simp: eq(1) dest: serve_waiting)
    then have "bs_id w = sub_id sub" if "sub \<in> set (ss_subscribers s)" "bs_tx w = sub_tx sub" for sub
      using that old(2) by (auto simp: eq(2) serve_same_sub distinct_map inj_on_def)
    with sub0 old(3) show "bs_tx w < length (bus_chans (b\<lparr>bus_shared := s, bus_chans := chans, bus_blocked := blocked\<rparr>)) \<and>
        (\<forall>sub\<in>set (ss_subscribers (bus_shared (b\<lparr>bus_shared := s, bus_chans := chans, bus_blocked := blocked\<rparr>))).
          bs_tx w = sub_tx sub \<longrightarrow> bs_id w = sub_id sub)" by (simp add: eq(3))
  qed
qed

lemma bus_step_inv:
  assumes "bus_step api b move b'" "bus_inv b"
  shows "bus_inv b'"
  using assms(1)
proof cases
  case (subscribes buffer policy label r s chans next_id)
  show ?thesis unfolding subscribes(2) by (rule bus_inv_subscribed [OF assms(2) subscribes(3,4)])
next
  case (unsubscribes i)
  then show ?thesis using bus_inv_less [OF assms(2), of "unsubscribe i (bus_shared b)" _ "bus_chans b" "bus_blocked b"]
    by (simp add: unsubscribe_def)
next
  case (closes s chans)
  then show ?thesis
    using bus_inv_less [OF assms(2), of s "\<lambda>_. False" chans "bus_blocked b"] by (auto simp: shared_close_def)
next
  case (sends message newest blocked s chans)
  show ?thesis unfolding sends(2) by (rule bus_inv_sends [OF assms(2) sends(5)])
next
  case (sent w ws c)
  then show ?thesis
    using bus_inv_less [OF assms(2), of "bus_shared b" "\<lambda>_. True" "(bus_chans b)[bs_tx w := c]" ws] by auto
next
  case (fails w ws m c)
  then show ?thesis
    using bus_inv_less [OF assms(2), of "finish_blocked False w (bus_shared b)" _ "bus_chans b" ws] by auto
next
  case (receives h m c)
  then show ?thesis
    using bus_inv_less [OF assms(2), of "bus_shared b" "\<lambda>_. True" "(bus_chans b)[h := c]" "bus_blocked b"] by simp
next
  case (drops h)
  then show ?thesis
    using bus_inv_less [OF assms(2), of "bus_shared b" "\<lambda>_. True" "(bus_chans b)[h := _]" "bus_blocked b"] by simp
qed

lemma bus_run_inv: "bus_run api b moves b' \<Longrightarrow> bus_inv b \<Longrightarrow> bus_inv b'"
  by (induction rule: bus_run.induct) (auto intro: bus_step_inv)

lemma bus_step_length:
  "bus_step api b move b' \<Longrightarrow> bus_inv b \<Longrightarrow> length (bus_chans b) \<le> length (bus_chans b')"
  by (erule bus_stepE)
    (auto simp: shared_close_def elim!: subscribe_shape dest: send_locked_eq(3))

lemma bus_run_length:
  "bus_run api b moves b' \<Longrightarrow> bus_inv b \<Longrightarrow> length (bus_chans b) \<le> length (bus_chans b')"
  by (induction rule: bus_run.induct) (auto dest: bus_run_inv bus_step_length intro: order_trans)

lemma bus_inv_new: "bus_inv \<lparr>bus_shared = shared_senders_new sticky, bus_chans = [], bus_next_id = n, bus_blocked = []\<rparr>"
  by (simp add: bus_inv_def shared_senders_new_def)

lemma concat_map_single:
  assumes "distinct (map f xs)" "x \<in> set xs" "\<And>y w. y \<in> set xs \<Longrightarrow> w \<in> set (g y) \<Longrightarrow> k w = f y"
  shows "filter (\<lambda>w. k w = f x) (concat (map g xs)) = g x"
  using assms
proof (induction xs)
  case (Cons y ys)
  have same: "filter (\<lambda>w. k w = f x) (g y) = (if f y = f x then g y else [])"
    using Cons.prems(3) [of y] by (auto intro: filter_True filter_False)
  show ?case
  proof (cases "f y = f x")
    case True
    then have "x = y" using Cons.prems by (auto simp: rev_image_eqI)
    moreover have "filter (\<lambda>w. k w = f y) (concat (map g ys)) = []"
      using Cons.prems(1,3) by (auto simp: filter_empty_conv image_iff) (metis list.set_intros(2))
    ultimately show ?thesis using same by simp
  next
    case False
    then show ?thesis using Cons same by auto
  qed
qed simp

context bounded_channel begin

lemma serve_lossless:
  assumes "sub_policy sub \<noteq> Lossy" "sub_pending sub = None" "\<not> fst (fst (serve (api_try_send api) m sub c))"
  shows "queue (snd (serve (api_try_send api) m sub c)) @ map bs_message (snd (snd (fst (serve (api_try_send api) m sub c)))) =
      queue c @ [m]" "alive c" "alive (snd (serve (api_try_send api) m sub c))"
  using assms
  by (cases rule: try_send_cases [of c m];
      auto simp: serve_def retry_pending_def block_on_def split: overflow_policy.splits)+

lemma sends_lossless:
  assumes inv: "bus_inv b" "bus_blocked b = []"
    and sent: "send_locked (api_try_send api) m newest (bus_shared b) (bus_chans b) = (blocked, s, chans)"
    and sub: "sub \<in> set (ss_subscribers s)" "sub_policy sub \<noteq> Lossy"
  shows "sub \<in> set (ss_subscribers (bus_shared b)) \<and> alive (bus_chans b ! sub_tx sub) \<and>
    queue (chans ! sub_tx sub) @ map bs_message (filter (\<lambda>w. bs_tx w = sub_tx sub) blocked) =
    queue (bus_chans b ! sub_tx sub) @ [m]"
proof -
  let ?f = "api_try_send api"
  note eq = send_locked_eq [OF inv(1) sent]
  from sub(1) obtain sub0 where sub0: "sub0 \<in> set (ss_subscribers (bus_shared b))"
    "\<not> fst (fst (served ?f m (bus_chans b) sub0))" "sub = fst (snd (fst (served ?f m (bus_chans b) sub0)))"
    by (auto simp: eq(2))
  then have "sub_policy sub0 \<noteq> Lossy" "sub_pending sub0 = None"
    using sub(2) inv(1) by (auto simp: serve_same_sub bus_inv_def Let_def)
  moreover from serve_pending [OF this] sub0(3) have same: "sub = sub0" by simp
  moreover have "filter (\<lambda>w. bs_tx w = sub_tx sub0) blocked = snd (snd (fst (served ?f m (bus_chans b) sub0)))"
    unfolding eq(1) using inv(1) sub0(1)
    by (intro concat_map_single) (auto simp: bus_inv_def Let_def dest: serve_waiting)
  ultimately show ?thesis using serve_lossless [of sub0 m] sub0 eq(4) [OF sub0(1)] by simp
qed

end

context bounded_channel begin

lemma api_sentD:
  assumes "api_try_send api c m = (Sent, c')"
  shows "queue c' = queue c @ [m]" "alive c'" "alive c"
  using assms by (cases rule: try_send_cases [of c m]; simp)+

lemma bus_step_lossless:
  assumes "bus_step api b move b'" and inv: "bus_inv b"
    and sub: "sub \<in> set (ss_subscribers (bus_shared b'))" "sub_policy sub \<noteq> Lossy" "sub_tx sub < length (bus_chans b)"
    and alive: "alive (bus_chans b' ! sub_tx sub)"
  shows "sub \<in> set (ss_subscribers (bus_shared b)) \<and> alive (bus_chans b ! sub_tx sub) \<and>
    taken_from (sub_tx sub) [move] @ queue (bus_chans b' ! sub_tx sub) @ waiting_for b' (sub_tx sub) =
    queue (bus_chans b ! sub_tx sub) @ waiting_for b (sub_tx sub) @ sent_in [move]"
  using assms(1)
proof cases
  case (subscribes buffer policy label r s chans next_id)
  from subscribes(4) obtain c where shape: "chans = bus_chans b @ [c]"
    "ss_subscribers s = ss_subscribers (bus_shared b) @ (if ss_closed (bus_shared b) then [] else
       [\<lparr>sub_id = bus_next_id b, sub_tx = length (bus_chans b), sub_policy = policy, sub_label = label, sub_pending = None\<rparr>])"
    by (rule subscribe_shape)
  with subscribes(1,2) sub alive show ?thesis by (auto simp: nth_append waiting_for_def split: if_splits)
next
  case (unsubscribes i)
  with sub alive show ?thesis by (simp add: unsubscribe_def waiting_for_def)
next
  case (closes s chans)
  with sub(1) show ?thesis by (auto simp: shared_close_def)
next
  case (sends message newest blocked s chans)
  then show ?thesis
    using sends_lossless [OF inv sends(3,5), of sub] sub by (simp add: waiting_for_def)
next
  case (sent w ws c)
  with sub alive api_sentD [OF sent(4)] show ?thesis
    by (cases "bs_tx w = sub_tx sub") (simp_all add: waiting_for_def)
next
  case (fails w ws m c)
  have "bs_tx w \<noteq> sub_tx sub"
    using fails(2,3) sub(1) inv by (auto simp: bus_inv_def Let_def)
  with fails sub alive show ?thesis by (simp add: waiting_for_def)
next
  case (receives h m c)
  with sub alive try_recv_SomeD [OF receives(4)] show ?thesis
    by (cases "h = sub_tx sub") (simp_all add: waiting_for_def)
next
  case (drops h)
  with sub alive drop_receiver show ?thesis
    by (cases "h = sub_tx sub") (simp_all add: waiting_for_def)
qed

lemma bus_run_lossless:
  assumes "bus_run api b moves b'" "bus_inv b" "sub \<in> set (ss_subscribers (bus_shared b))" "sub_policy sub \<noteq> Lossy"
    and "sub \<in> set (ss_subscribers (bus_shared b'))" "alive (bus_chans b' ! sub_tx sub)"
  shows "taken_from (sub_tx sub) moves @ queue (bus_chans b' ! sub_tx sub) @ waiting_for b' (sub_tx sub) =
    queue (bus_chans b ! sub_tx sub) @ waiting_for b (sub_tx sub) @ sent_in moves"
  using assms
proof (induction rule: bus_run.induct)
  case (more b moves b1 move b2)
  have "sub_tx sub < length (bus_chans b)" using more.prems(1,2) by (simp add: bus_inv_def Let_def)
  then have "sub_tx sub < length (bus_chans b1)"
    using bus_run_length [OF more.hyps(1) more.prems(1)] by simp
  note step = bus_step_lossless [OF more.hyps(2) bus_run_inv [OF more.hyps(1) more.prems(1)] more.prems(4,3) this more.prems(5)]
  with more.IH [OF more.prems(1-3)] show ?case by simp
qed simp

lemma serve_blocks:
  "snd (snd (fst (serve (api_try_send api) m sub c))) \<noteq> [] \<longleftrightarrow>
    sub_policy sub \<noteq> Lossy \<and> alive c \<and> (capacity c \<le> length (queue c))"
  if "sub_policy sub \<noteq> Lossy \<longrightarrow> sub_pending sub = None"
proof (cases "sub_policy sub = Lossy")
  case True
  then show ?thesis using serve_waiting [of _ "api_try_send api" m sub c] by fastforce
next
  case False
  with that show ?thesis
    by (cases rule: try_send_cases [of c m])
      (auto simp: serve_def retry_pending_def split: overflow_policy.splits)
qed

lemma send_blocks_iff:
  assumes "bus_inv b" "send_locked (api_try_send api) m newest (bus_shared b) (bus_chans b) = (blocked, s, chans)"
  shows "blocked \<noteq> [] \<longleftrightarrow> (\<exists>sub\<in>set (ss_subscribers (bus_shared b)). sub_policy sub \<noteq> Lossy \<and>
    alive (bus_chans b ! sub_tx sub) \<and> capacity (bus_chans b ! sub_tx sub) \<le> length (queue (bus_chans b ! sub_tx sub)))"
  using assms(1) serve_blocks [of _ m] unfolding send_locked_eq(1) [OF assms] by (simp add: bus_inv_def Let_def)

text \<open>A pending value goes first, and only when it has found room.\<close>

lemma serve_lossy:
  assumes "sub_policy sub = Lossy" "alive c" "newest_value m = Some newest"
    and "serve (api_try_send api) m sub c = ((gone, sub', waiting), c')"
    and "offered = map Sample_Message (option_list (sub_pending sub)) @ [m]"
  shows "\<not> gone \<and> waiting = [] \<and> alive c' \<and> queue c' = queue c @ take (capacity c - length (queue c)) offered \<and>
    sub_pending sub' = (if length (queue c) + length offered \<le> capacity c then None else Some newest)"
proof -
  have direct: ?thesis if "sub_pending sub = None"
    using assms that
    by (cases rule: try_send_cases [of c m]) (auto simp: serve_def retry_pending_def)
  show ?thesis
  proof (cases "sub_pending sub")
    case (Some p)
    show ?thesis
    proof (cases rule: try_send_cases [of c "Sample_Message p"])
      case 2
      then show ?thesis using assms Some try_send_full [of c m] by (auto simp: serve_def retry_pending_def)
    next
      case (3 c1)
      show ?thesis
      proof (cases rule: try_send_cases [of c1 m])
        case 1
        then show ?thesis using 3 by simp
      next
        case full: 2
        then have "capacity c - length (queue c) = 1" using 3 by simp
        then show ?thesis using full 3 assms Some by (auto simp: serve_def retry_pending_def)
      next
        case room: (3 c2)
        then have "2 \<le> capacity c - length (queue c)" using 3 by simp
        then show ?thesis using room 3 assms Some by (auto simp: serve_def retry_pending_def)
      qed
    qed (use assms in simp)
  qed (rule direct)
qed

end

context bounded_channel begin

definition sound :: "'c \<Rightarrow> bool" where
  "sound c \<longleftrightarrow> 0 < capacity c \<and> length (queue c) \<le> capacity c"

definition roomy :: "('c, 'a) bus \<Rightarrow> bool" where
  "roomy b \<longleftrightarrow> (\<forall>c\<in>set (bus_chans b). sound c)"

lemma try_send_sound: "sound c \<Longrightarrow> sound (snd (api_try_send api c m))"
  by (cases rule: try_send_cases [of c m]) (simp_all add: sound_def)

lemma serve_sound:
  assumes "sound c"
  shows "sound (snd (serve (api_try_send api) m sub c))"
proof -
  have "sound (snd (snd (retry_pending (api_try_send api) sub c)))"
    using try_send_sound [OF assms] assms
    by (auto simp: retry_pending_def split: option.splits prod.splits try_send_result.splits) (metis snd_conv)+
  moreover obtain gone sub1 c1 where r: "retry_pending (api_try_send api) sub c = (gone, sub1, c1)"
    by (metis prod.exhaust_sel)
  moreover obtain r c2 where "api_try_send api c1 m = (r, c2)" by fastforce
  ultimately show ?thesis
    using try_send_sound [of c1 m] by (cases r) (auto simp: serve_def split: bool.splits)
qed

lemma sound_update:
  "\<forall>c\<in>set chans. sound c \<Longrightarrow> (h < length chans \<Longrightarrow> sound (chans ! h) \<Longrightarrow> sound c') \<Longrightarrow> \<forall>c\<in>set (chans[h := c']). sound c"
  by (cases "h < length chans") (auto simp: list_update_beyond dest!: set_update_subset_insert [THEN subsetD])

lemma serve_all_sound:
  "serve_all (api_try_send api) m subs chans = (dead, subs', blocked, chans') \<Longrightarrow> \<forall>c\<in>set chans. sound c \<Longrightarrow>
    \<forall>c\<in>set chans'. sound c"
proof (induction subs arbitrary: chans dead subs' blocked chans')
  case (Cons sub subs)
  obtain gone sub1 waiting c where s: "served (api_try_send api) m chans sub = ((gone, sub1, waiting), c)"
    by (metis prod.exhaust_sel)
  then have "\<forall>c\<in>set (chans[sub_tx sub := c]). sound c"
    using serve_sound [of "chans ! sub_tx sub" m sub] Cons.prems(2) by (intro sound_update) auto
  with Cons s show ?case by (auto simp: Let_def split: prod.splits)
qed simp

lemma offer_sound: "\<forall>c\<in>set chans. sound c \<Longrightarrow> \<forall>c\<in>set (fold (offer_to (api_try_send api) m) subs chans). sound c"
proof (induction subs arbitrary: chans)
  case (Cons sub subs)
  have "\<forall>c\<in>set (offer_to (api_try_send api) m sub chans). sound c"
    unfolding offer_to_def using Cons.prems try_send_sound by (intro sound_update) auto
  with Cons show ?case by simp
qed simp

lemma bus_step_roomy:
  assumes "bus_step api b move b'" "roomy b"
  shows "roomy b'"
  using assms(1)
proof cases
  case (subscribes buffer policy label r s chans next_id)
  have "sound (api_bounded api (max buffer 1))" using bounded [of "max buffer 1"] by (simp add: sound_def)
  with subscribes assms(2) show ?thesis
    by (auto simp: roomy_def subscribe_with_label_def Let_def try_send_sound split: if_splits option.splits)
next
  case (closes s chans)
  then show ?thesis using assms(2) offer_sound by (auto simp: roomy_def shared_close_def)
next
  case (sends message newest blocked s chans)
  then have "\<forall>c\<in>set chans. sound c"
    using assms(2) by (auto simp: roomy_def send_locked_def Let_def split: prod.splits if_splits option.splits dest: serve_all_sound)
  then show ?thesis using sends(2) by (simp add: roomy_def)
next
  case (sent w ws c)
  then show ?thesis
    using try_send_sound [of "bus_chans b ! bs_tx w" "bs_message w"] sound_update [of "bus_chans b" "bs_tx w" c] assms(2)
    by (simp add: roomy_def)
next
  case (receives h m c)
  then have "sound (bus_chans b ! h) \<Longrightarrow> sound c" using try_recv_SomeD [OF receives(4)] by (simp add: sound_def)
  then show ?thesis using receives(2) sound_update [of "bus_chans b" h c] assms(2) by (simp add: roomy_def)
next
  case (drops h)
  have "sound (bus_chans b ! h) \<Longrightarrow> sound (api_drop_receiver api (bus_chans b ! h))"
    using drop_receiver [of "bus_chans b ! h"] by (simp add: sound_def)
  then show ?thesis using drops(2) sound_update [of "bus_chans b" h "api_drop_receiver api (bus_chans b ! h)"] assms(2)
    by (simp add: roomy_def)
qed (use assms(2) in \<open>auto simp: roomy_def\<close>)

lemma bus_run_roomy: "bus_run api b moves b' \<Longrightarrow> roomy b \<Longrightarrow> roomy b'"
  by (induction rule: bus_run.induct) (auto intro: bus_step_roomy)

lemma blocked_gone:
  assumes "bus_blocked b = w # ws" "\<not> alive (bus_chans b ! bs_tx w)"
  shows "\<exists>s. bus_step api b Other (b\<lparr>bus_shared := s, bus_blocked := ws\<rparr>) \<and>
    ss_subscribers s = filter (\<lambda>sub. sub_id sub \<noteq> bs_id w) (ss_subscribers (bus_shared b)) \<and>
    ss_disconnected s = ss_disconnected (bus_shared b) @ (if bs_deadline w = None then [] else [bs_id w])"
proof -
  have "bus_step api b Other (b\<lparr>bus_shared := finish_blocked False w (bus_shared b), bus_blocked := ws\<rparr>)"
    using bus_step.fails [OF assms(1), of api] try_send_gone [OF assms(2)] by blast
  moreover have "ss_disconnected (finish_blocked False w (bus_shared b)) =
      ss_disconnected (bus_shared b) @ (if bs_deadline w = None then [] else [bs_id w])"
    by (simp add: finish_blocked_def retain_other_def split: option.split)
  ultimately show ?thesis using retain_other_subscribers(2) [of w "bus_shared b"] by blast
qed

lemma blocked_room:
  assumes "bus_blocked b = w # ws" "bs_tx w < length (bus_chans b)" "alive (bus_chans b ! bs_tx w)"
    and "length (queue (bus_chans b ! bs_tx w)) < capacity (bus_chans b ! bs_tx w)"
  shows "\<exists>c. bus_step api b Other (b\<lparr>bus_chans := (bus_chans b)[bs_tx w := c], bus_blocked := ws\<rparr>) \<and>
    queue c = queue (bus_chans b ! bs_tx w) @ [bs_message w]"
  using bus_step.sent [OF assms(1)] try_send_room [OF assms(3,4), of "bs_message w"] by blast

lemma blocked_full:
  assumes "bus_blocked b = w # ws" "bs_tx w < length (bus_chans b)" "alive (bus_chans b ! bs_tx w)" "roomy b"
    and "capacity (bus_chans b ! bs_tx w) \<le> length (queue (bus_chans b ! bs_tx w))"
  shows "\<exists>m q c1 c2. queue (bus_chans b ! bs_tx w) = m # q \<and>
    bus_step api b (Receives (bs_tx w) m) (b\<lparr>bus_chans := (bus_chans b)[bs_tx w := c1]\<rparr>) \<and>
    bus_step api (b\<lparr>bus_chans := (bus_chans b)[bs_tx w := c1]\<rparr>) Other
      (b\<lparr>bus_chans := (bus_chans b)[bs_tx w := c2], bus_blocked := ws\<rparr>) \<and>
    queue c2 = q @ [bs_message w]"
proof -
  let ?h = "bs_tx w" and ?c = "bus_chans b ! bs_tx w"
  have cap: "sound ?c" using assms(2,4) by (simp add: roomy_def)
  with assms(5) obtain m q where q: "queue ?c = m # q" by (cases "queue ?c") (auto simp: sound_def)
  then obtain c1 where c1: "api_try_recv api ?c = Some (m, c1)" "queue c1 = q" "capacity c1 = capacity ?c" "alive c1"
    using try_recv_first [OF q] assms(3) by auto
  let ?b = "b\<lparr>bus_chans := (bus_chans b)[?h := c1]\<rparr>"
  have "bus_step api b (Receives ?h m) ?b" by (rule bus_step.receives [OF assms(2) c1(1)])
  moreover have "length (queue c1) < capacity c1" using c1(2,3) q cap by (simp add: sound_def)
  then obtain c2 where "bus_step api ?b Other (?b\<lparr>bus_chans := (bus_chans ?b)[?h := c2], bus_blocked := ws\<rparr>)"
    "queue c2 = q @ [bs_message w]"
    using blocked_room [of ?b w ws] assms(1,2) c1(2,4) by auto
  ultimately show ?thesis using q by auto
qed

text \<open>A send without a deadline waits for its own channel and for nothing else.\<close>

lemma blocked_waits:
  assumes "bus_blocked b = w # ws" "alive (bus_chans b ! bs_tx w)" "bs_deadline w = None"
    and "capacity (bus_chans b ! bs_tx w) \<le> length (queue (bus_chans b ! bs_tx w))" "bus_step api b move b'"
  shows "bus_blocked b' = w # ws"
  using assms(5)
proof cases
  case (sent w1 ws1 c)
  then show ?thesis using assms(1) try_send_full [OF assms(2,4), of "bs_message w"] by simp
next
  case (fails w1 ws1 m c)
  then show ?thesis using assms(1,3) try_send_full [OF assms(2,4), of "bs_message w"] by simp
qed (use assms(1) in simp_all)

end

section \<open>A queue that meets the interface\<close>

record 'a list_channel =
  lc_queue :: "'a channel_message list"
  lc_capacity :: nat
  lc_alive :: bool

definition list_channel_api :: "('a list_channel, 'a) channel_api" where
  "list_channel_api =
     \<lparr>api_bounded = (\<lambda>n. \<lparr>lc_queue = [], lc_capacity = n, lc_alive = True\<rparr>),
      api_try_send = (\<lambda>c m.
        if \<not> lc_alive c then (Unconnected m, c)
        else if lc_capacity c \<le> length (lc_queue c) then (Full m, c)
        else (Sent, c\<lparr>lc_queue := lc_queue c @ [m]\<rparr>)),
      api_try_recv = (\<lambda>c. case lc_queue c of [] \<Rightarrow> None | m # q \<Rightarrow> Some (m, c\<lparr>lc_queue := q\<rparr>)),
      api_drop_receiver = (\<lambda>c. c\<lparr>lc_queue := [], lc_alive := False\<rparr>)\<rparr>"

interpretation list_channel: bounded_channel list_channel_api lc_queue lc_capacity lc_alive
  by unfold_locales (simp_all add: list_channel_api_def)

section \<open>Properties\<close>

text \<open>
  C2: A live subscriber that is not lossy misses nothing and sees nothing twice. However sends,
  receives, late or leaving subscribers and waiting sends are interleaved, what it has received,
  followed by what its channel holds and by what the producer is still waiting to hand over, is
  what the channel held at first followed by every message broadcast since, in order.
\<close>
theorem broadcast_lossless:
  assumes "bounded_channel api queue capacity alive" "bus_inv b" "bus_run api b moves b'"
    and "sub \<in> set (ss_subscribers (bus_shared b))" "sub_policy sub \<noteq> Lossy"
    and "sub \<in> set (ss_subscribers (bus_shared b'))" "alive (bus_chans b' ! sub_tx sub)"
  shows "taken_from (sub_tx sub) moves @ queue (bus_chans b' ! sub_tx sub) @ waiting_for b' (sub_tx sub) =
    queue (bus_chans b ! sub_tx sub) @ waiting_for b (sub_tx sub) @ sent_in moves \<and> bus_inv b'"
  using bounded_channel.bus_run_lossless [OF assms(1,3,2,4-7)] bus_run_inv [OF assms(3,2)] by simp

definition example_subscriber :: "nat subscriber" where
  "example_subscriber = \<lparr>sub_id = 1, sub_tx = 0, sub_policy = Block, sub_label = None, sub_pending = None\<rparr>"

definition example_bus :: "nat channel_message list \<Rightarrow> nat blocked_send list \<Rightarrow> (nat list_channel, nat) bus" where
  "example_bus q ws =
     \<lparr>bus_shared = (shared_senders_new True)\<lparr>ss_subscribers := [example_subscriber], ss_last := Some 5\<rparr>,
      bus_chans = [\<lparr>lc_queue = q, lc_capacity = 1, lc_alive = True\<rparr>], bus_next_id = 2, bus_blocked = ws\<rparr>"

definition example_wait :: "nat blocked_send" where
  "example_wait = \<lparr>bs_id = 1, bs_tx = 0, bs_deadline = None, bs_message = Sample_Message 5\<rparr>"

lemmas example_defs = example_bus_def example_subscriber_def example_wait_def shared_senders_new_def list_channel_api_def

lemma example_steps:
  "bus_step list_channel_api (example_bus [Sample_Message 4] []) (Sends (Sample_Message 5)) (example_bus [Sample_Message 4] [example_wait])"
  "bus_step list_channel_api (example_bus [Sample_Message 4] [example_wait]) (Receives 0 (Sample_Message 4)) (example_bus [] [example_wait])"
  "bus_step list_channel_api (example_bus [] [example_wait]) Other (example_bus [Sample_Message 5] [])"
proof -
  have "send_locked (api_try_send list_channel_api) (Sample_Message 5) (Some 5)
      (bus_shared (example_bus [Sample_Message 4] [])) (bus_chans (example_bus [Sample_Message 4] [])) =
    ([example_wait], bus_shared (example_bus [Sample_Message 4] []), bus_chans (example_bus [Sample_Message 4] []))"
    by (simp add: example_defs send_locked_def serve_def retry_pending_def block_on_def)
  from bus_step.sends [OF _ _ this]
  show "bus_step list_channel_api (example_bus [Sample_Message 4] []) (Sends (Sample_Message 5)) (example_bus [Sample_Message 4] [example_wait])"
    by (simp add: example_defs)
  show "bus_step list_channel_api (example_bus [Sample_Message 4] [example_wait]) (Receives 0 (Sample_Message 4)) (example_bus [] [example_wait])"
    using bus_step.receives [of 0 "example_bus [Sample_Message 4] [example_wait]" list_channel_api] by (simp add: example_defs)
  show "bus_step list_channel_api (example_bus [] [example_wait]) Other (example_bus [Sample_Message 5] [])"
    using bus_step.sent [of "example_bus [] [example_wait]" example_wait "[]" list_channel_api] by (simp add: example_defs)
qed

lemma example_bus_inv: "bus_inv (example_bus [Sample_Message 4] [])"
  by (simp add: bus_inv_def example_defs)

theorem broadcast_lossless_witness:
  "\<exists>moves. bus_run list_channel_api (example_bus [Sample_Message 4] []) moves (example_bus [Sample_Message 5] []) \<and>
    taken_from 0 moves @ [Sample_Message 5] = [Sample_Message 4] @ sent_in moves"
proof -
  let ?moves = "[] @ [Sends (Sample_Message 5)] @ [Receives 0 (Sample_Message 4)] @ [Other]"
  have run: "bus_run list_channel_api (example_bus [Sample_Message 4] []) ?moves (example_bus [Sample_Message 5] [])"
    using example_steps bus_run.start bus_run.more by (metis append.assoc)
  moreover from broadcast_lossless [OF list_channel.bounded_channel_axioms example_bus_inv run, of example_subscriber]
  have "taken_from 0 ?moves @ [Sample_Message 5] = [Sample_Message 4] @ sent_in ?moves"
    by (simp add: example_bus_def example_subscriber_def waiting_for_def)
  ultimately show ?thesis by blast
qed

text \<open>
  C30: The probe that the cooperative scheduler uses before it runs a node is right: when it says that
  a broadcast would not block, the broadcast leaves no send to wait for; and a broadcast has to wait
  exactly when a connected subscriber that is not lossy has a full channel, in which case the probe
  has said so.
\<close>
theorem would_block_correct:
  assumes "bounded_channel api queue capacity alive" "bus_inv b"
    and "send_locked (api_try_send api) m newest (bus_shared b) (bus_chans b) = (blocked, s, chans)"
  shows "(\<not> would_block (\<lambda>c. length (queue c)) capacity (bus_shared b) (bus_chans b) \<longrightarrow> blocked = []) \<and>
    (blocked \<noteq> [] \<longleftrightarrow> (\<exists>sub\<in>set (ss_subscribers (bus_shared b)). sub_policy sub \<noteq> Lossy \<and>
       alive (bus_chans b ! sub_tx sub) \<and> capacity (bus_chans b ! sub_tx sub) \<le> length (queue (bus_chans b ! sub_tx sub))))"
  using bounded_channel.send_blocks_iff [OF assms] by (auto simp: would_block_def list_ex_iff)

theorem would_block_correct_witness:
  "would_block (\<lambda>c. length (lc_queue c)) lc_capacity (bus_shared (example_bus [Sample_Message 4] [])) (bus_chans (example_bus [Sample_Message 4] [])) \<and>
   fst (send_locked (api_try_send list_channel_api) (Sample_Message 5) (Some 5)
     (bus_shared (example_bus [Sample_Message 4] [])) (bus_chans (example_bus [Sample_Message 4] []))) \<noteq> []"
proof -
  let ?b = "example_bus [Sample_Message 4] []"
  obtain blocked s chans where r:
    "send_locked (api_try_send list_channel_api) (Sample_Message 5) (Some 5) (bus_shared ?b) (bus_chans ?b) = (blocked, s, chans)"
    using prod_cases3 by blast
  from would_block_correct [OF list_channel.bounded_channel_axioms example_bus_inv r] r show ?thesis
    by (auto simp: example_bus_def example_subscriber_def)
qed

text \<open>
  C29: A lossy subscriber never makes the producer wait and never falls behind the newest value. A
  broadcast offers its channel the value that was pending, if any, and then the message; the subscriber stays,
  its channel grows by exactly as much of this as there is room for, and when the message itself found no
  room, its newest value is the one that is pending next.
\<close>
theorem lossy_keeps_newest:
  assumes "bounded_channel api queue capacity alive" "bus_inv b" "newest_value m = Some newest"
    and "send_locked (api_try_send api) m last_value (bus_shared b) (bus_chans b) = (blocked, s, chans)"
    and "sub \<in> set (ss_subscribers (bus_shared b))" "sub_policy sub = Lossy" "alive (bus_chans b ! sub_tx sub)"
    and "offered = (case sub_pending sub of None \<Rightarrow> [m] | Some p \<Rightarrow> [Sample_Message p, m])"
    and "room = capacity (bus_chans b ! sub_tx sub) - length (queue (bus_chans b ! sub_tx sub))"
  shows "(\<forall>w\<in>set blocked. bs_tx w \<noteq> sub_tx sub) \<and>
    queue (chans ! sub_tx sub) = queue (bus_chans b ! sub_tx sub) @ take room offered \<and>
    (\<exists>sub'\<in>set (ss_subscribers s). sub_id sub' = sub_id sub \<and> sub_tx sub' = sub_tx sub \<and>
       sub_pending sub' = (if length offered \<le> room then None else Some newest))"
proof -
  let ?r = "served (api_try_send api) m (bus_chans b) sub"
  note eq = send_locked_eq [OF assms(2,4)]
  have offered: "offered = map Sample_Message (option_list (sub_pending sub)) @ [m]"
    using assms(8) by (cases "sub_pending sub") simp_all
  note lossy = bounded_channel.serve_lossy
    [OF assms(1,6,7,3) _ offered, of "fst (fst ?r)" "fst (snd (fst ?r))" "snd (snd (fst ?r))" "snd ?r"]
  have fits: "length (queue (bus_chans b ! sub_tx sub)) + length offered \<le> capacity (bus_chans b ! sub_tx sub) \<longleftrightarrow> length offered \<le> room"
    unfolding assms(9) offered by auto
  have "filter (\<lambda>w. bs_tx w = sub_tx sub) blocked = snd (snd (fst ?r))"
    unfolding eq(1) using assms(2,5)
    by (intro concat_map_single) (auto simp: bus_inv_def Let_def dest: serve_waiting)
  then have "\<forall>w\<in>set blocked. bs_tx w \<noteq> sub_tx sub" using lossy by (simp add: filter_empty_conv)
  moreover have "fst (snd (fst ?r)) \<in> set (ss_subscribers s)" using lossy assms(5) by (auto simp: eq(2))
  moreover have "queue (chans ! sub_tx sub) = queue (bus_chans b ! sub_tx sub) @ take room offered"
    using lossy eq(4) [OF assms(5)] by (simp add: assms(9))
  moreover have "sub_pending (fst (snd (fst ?r))) = (if length offered \<le> room then None else Some newest)"
    using lossy fits by simp
  ultimately show ?thesis
    by (intro conjI bexI [of _ "fst (snd (fst ?r))"]) (simp_all add: serve_same_sub)
qed

theorem lossy_keeps_newest_witness:
  "fst (snd (serve_all (api_try_send list_channel_api) (Batch [6, 7]) [example_subscriber\<lparr>sub_policy := Lossy, sub_pending := Some 5\<rparr>]
     (bus_chans (example_bus [Sample_Message 4] [])))) = [example_subscriber\<lparr>sub_policy := Lossy, sub_pending := Some 7\<rparr>]"
proof -
  let ?sub = "example_subscriber\<lparr>sub_policy := Lossy, sub_pending := Some 5\<rparr>"
  let ?b = "(example_bus [Sample_Message 4] [])\<lparr>bus_shared := (shared_senders_new False)\<lparr>ss_subscribers := [?sub]\<rparr>\<rparr>"
  have inv: "bus_inv ?b" by (simp add: bus_inv_def example_defs)
  obtain blocked s chans where r: "send_locked (api_try_send list_channel_api) (Batch [6, 7]) (Some 7) (bus_shared ?b) (bus_chans ?b) = (blocked, s, chans)"
    using prod_cases3 by blast
  from lossy_keeps_newest [OF list_channel.bounded_channel_axioms inv _ r, of 7 ?sub] show ?thesis
    by (simp add: example_defs serve_def retry_pending_def)
qed

text \<open>
  C3: A producer that waits can always go on, and only its own slow consumer holds it up. In every state
  that a live list can reach, the channel of the first waiting send decides which step it can take: when the
  receiver is gone, the step that drops the send and its subscriber, and lists a dropped subscriber as disconnected
  if the send has a deadline; when there is room, the one that queues its
  message last and changes nothing else; when the channel is full, its receiver can take the message at the front, and the
  step after that queues the waiting message behind what is left. While the channel is full, a send without a
  deadline stays the first one whatever else happens.
\<close>
theorem blocked_send_progress:
  assumes "bounded_channel api queue capacity alive"
    and "bus_run api \<lparr>bus_shared = shared_senders_new sticky, bus_chans = [], bus_next_id = 1, bus_blocked = []\<rparr> moves b"
    and "bus_blocked b = w # ws" "c = bus_chans b ! bs_tx w"
  shows "(\<not> alive c \<longrightarrow>
      (\<exists>s. bus_step api b Other (b\<lparr>bus_shared := s, bus_blocked := ws\<rparr>) \<and>
        ss_subscribers s = filter (\<lambda>sub. sub_id sub \<noteq> bs_id w) (ss_subscribers (bus_shared b)) \<and>
        ss_disconnected s = ss_disconnected (bus_shared b) @ (if bs_deadline w = None then [] else [bs_id w]))) \<and>
    (alive c \<and> length (queue c) < capacity c \<longrightarrow>
      (\<exists>c1. bus_step api b Other (b\<lparr>bus_chans := (bus_chans b)[bs_tx w := c1], bus_blocked := ws\<rparr>) \<and>
        queue c1 = queue c @ [bs_message w])) \<and>
    (alive c \<and> capacity c \<le> length (queue c) \<longrightarrow>
      (\<exists>m q c1 c2. queue c = m # q \<and>
        bus_step api b (Receives (bs_tx w) m) (b\<lparr>bus_chans := (bus_chans b)[bs_tx w := c1]\<rparr>) \<and>
        bus_step api (b\<lparr>bus_chans := (bus_chans b)[bs_tx w := c1]\<rparr>) Other
          (b\<lparr>bus_chans := (bus_chans b)[bs_tx w := c2], bus_blocked := ws\<rparr>) \<and>
        queue c2 = q @ [bs_message w]) \<and>
      (bs_deadline w = None \<longrightarrow> (\<forall>move b'. bus_step api b move b' \<longrightarrow> bus_blocked b' = w # ws)))"
proof -
  have inv: "bus_inv b" by (rule bus_run_inv [OF assms(2) bus_inv_new])
  then have h: "bs_tx w < length (bus_chans b)" using assms(3) by (auto simp: bus_inv_def Let_def)
  have roomy: "bounded_channel.roomy queue capacity b"
    by (rule bounded_channel.bus_run_roomy [OF assms(1,2)]) (simp add: bounded_channel.roomy_def [OF assms(1)])
  show ?thesis
    using bounded_channel.blocked_gone [OF assms(1,3)] bounded_channel.blocked_room [OF assms(1,3) h]
      bounded_channel.blocked_full [OF assms(1,3) h _ roomy] bounded_channel.blocked_waits [OF assms(1,3)]
    unfolding assms(4) by blast
qed

lemma example_start:
  "bus_run list_channel_api \<lparr>bus_shared = shared_senders_new True, bus_chans = [], bus_next_id = 1, bus_blocked = []\<rparr>
     (([] @ [Other]) @ [Sends (Sample_Message 4)] @ [Sends (Sample_Message 5)]) (example_bus [Sample_Message 4] [example_wait])"
proof -
  let ?b0 = "\<lparr>bus_shared = shared_senders_new True, bus_chans = [], bus_next_id = 1, bus_blocked = []\<rparr> :: (nat list_channel, nat) bus"
  let ?b1 = "(example_bus [] [])\<lparr>bus_shared := (shared_senders_new True)\<lparr>ss_subscribers := [example_subscriber]\<rparr>\<rparr>"
  let ?b2 = "(example_bus [Sample_Message 4] [])\<lparr>bus_shared := (shared_senders_new True)\<lparr>ss_subscribers := [example_subscriber], ss_last := Some 4\<rparr>\<rparr>"
  have "subscribe_with_label (api_bounded list_channel_api) (api_try_send list_channel_api) (bus_shared ?b0) (bus_chans ?b0) (bus_next_id ?b0)
      1 Block None = ((1, 0), bus_shared ?b1, bus_chans ?b1, 2)"
    by (simp add: example_defs subscribe_with_label_def)
  moreover have "(1 :: u64) < - 1" by code_simp
  ultimately have s1: "bus_step list_channel_api ?b0 Other ?b1"
    using bus_step.subscribes [of ?b0 list_channel_api 1 Block None] by (simp add: example_defs)
  have "send_locked (api_try_send list_channel_api) (Sample_Message 4) (Some 4) (bus_shared ?b1) (bus_chans ?b1) =
      ([], bus_shared ?b2, bus_chans ?b2)"
    by (simp add: example_defs send_locked_def serve_def retry_pending_def)
  from bus_step.sends [OF _ _ this] have s2: "bus_step list_channel_api ?b1 (Sends (Sample_Message 4)) ?b2" by (simp add: example_defs)
  have "send_locked (api_try_send list_channel_api) (Sample_Message 5) (Some 5) (bus_shared ?b2) (bus_chans ?b2) =
      ([example_wait], bus_shared (example_bus [] []), bus_chans (example_bus [Sample_Message 4] []))"
    by (simp add: example_defs send_locked_def serve_def retry_pending_def block_on_def)
  from bus_step.sends [OF _ _ this]
  have s3: "bus_step list_channel_api ?b2 (Sends (Sample_Message 5)) (example_bus [Sample_Message 4] [example_wait])"
    by (simp add: example_defs)
  show ?thesis using bus_run.more [OF bus_run.more [OF bus_run.more [OF bus_run.start s1] s2] s3] by simp
qed

theorem blocked_send_progress_witness:
  "\<exists>c1 c2. bus_step list_channel_api (example_bus [Sample_Message 4] [example_wait]) (Receives 0 (Sample_Message 4)) c1 \<and>
     bus_step list_channel_api c1 Other c2 \<and> bus_blocked c2 = [] \<and> lc_queue (bus_chans c2 ! 0) = [Sample_Message 5]"
proof -
  let ?b = "example_bus [Sample_Message 4] [example_wait]"
  have "bs_tx example_wait = 0" "bus_chans ?b = [bus_chans ?b ! 0]" "lc_alive (bus_chans ?b ! 0)" "lc_queue (bus_chans ?b ! 0) = [Sample_Message 4]"
    "lc_capacity (bus_chans ?b ! 0) = 1" "bs_message example_wait = Sample_Message 5"
    by (simp_all add: example_bus_def example_wait_def)
  with blocked_send_progress [OF list_channel.bounded_channel_axioms example_start, of example_wait "[]", OF _ refl]
  obtain c1 c2 where "bus_step list_channel_api ?b (Receives 0 (Sample_Message 4)) (?b\<lparr>bus_chans := (bus_chans ?b)[0 := c1]\<rparr>)"
    "bus_step list_channel_api (?b\<lparr>bus_chans := (bus_chans ?b)[0 := c1]\<rparr>) Other (?b\<lparr>bus_chans := (bus_chans ?b)[0 := c2], bus_blocked := []\<rparr>)"
    "lc_queue c2 = [Sample_Message 5]"
    by (auto simp: example_bus_def)
  then show ?thesis
    by (intro exI [of _ "?b\<lparr>bus_chans := (bus_chans ?b)[0 := c1]\<rparr>"] exI [of _ "?b\<lparr>bus_chans := (bus_chans ?b)[0 := c2], bus_blocked := []\<rparr>"])
      (simp add: example_bus_def)
qed

lemma send_static_each:
  assumes "send_static send m ds chans any = Some (ok, chans')" "distinct (map dest_tx ds)" "\<forall>d\<in>set ds. dest_tx d < length chans"
  shows "\<exists>outcome. (\<forall>d\<in>set ds. send (chans ! dest_tx d) m None = Some (outcome d)) \<and> (ok \<longleftrightarrow> any \<or> (\<exists>d\<in>set ds. fst (outcome d))) \<and>
    (\<forall>d\<in>set ds. chans' ! dest_tx d = snd (outcome d)) \<and> (\<forall>h. h \<notin> dest_tx ` set ds \<longrightarrow> chans' ! h = chans ! h)"
  using assms
proof (induction ds arbitrary: chans any)
  case (Cons d ds)
  from Cons.prems(1) obtain sent c where s: "send (chans ! dest_tx d) m None = Some (sent, c)"
    "send_static send m ds (chans[dest_tx d := c]) (any \<or> sent) = Some (ok, chans')"
    by (auto split: option.splits)
  from Cons.IH [OF s(2)] Cons.prems(2,3) obtain outcome where o:
    "\<forall>d'\<in>set ds. send (chans[dest_tx d := c] ! dest_tx d') m None = Some (outcome d')"
    "ok \<longleftrightarrow> (any \<or> sent) \<or> (\<exists>d'\<in>set ds. fst (outcome d'))" "\<forall>d'\<in>set ds. chans' ! dest_tx d' = snd (outcome d')"
    "\<forall>h. h \<notin> dest_tx ` set ds \<longrightarrow> chans' ! h = chans[dest_tx d := c] ! h"
    by auto
  have ne: "d' \<noteq> d \<and> dest_tx d' \<noteq> dest_tx d" if "d' \<in> set ds" for d'
    using imageI [OF that, of dest_tx] Cons.prems(2) by auto
  let ?outcome = "outcome(d := (sent, c))"
  have "\<forall>d'\<in>set (d # ds). send (chans ! dest_tx d') m None = Some (?outcome d')" using o(1) s(1) ne
    by (auto simp: nth_list_update_neq [OF not_sym])
  moreover have "ok \<longleftrightarrow> any \<or> (\<exists>d'\<in>set (d # ds). fst (?outcome d'))" using o(2) ne by auto
  moreover have "\<forall>d'\<in>set (d # ds). chans' ! dest_tx d' = snd (?outcome d')" using o(3,4) ne Cons.prems(2,3) by auto
  moreover have "\<forall>h. h \<notin> dest_tx ` set (d # ds) \<longrightarrow> chans' ! h = chans ! h" using o(4) by auto
  ultimately show ?case by blast
qed simp

text \<open>
  A send over static destinations offers the value to every one of them, also after another has
  failed, and reports an error, which returns the value, only if there are destinations and every one
  of them has lost its receiver.
\<close>
theorem sender_send_error:
  assumes "sender_send try_send send t x chans = Some (r, t', chans')" "tx_shared t = None"
    and "distinct (map dest_tx (tx_destinations t))" "\<forall>d\<in>set (tx_destinations t). dest_tx d < length chans"
  shows "\<exists>outcome. (\<forall>d\<in>set (tx_destinations t).
      send (chans ! dest_tx d) (Sample_Message x) None = Some (outcome d) \<and> chans' ! dest_tx d = snd (outcome d)) \<and>
    r = (if tx_destinations t \<noteq> [] \<and> (\<forall>d\<in>set (tx_destinations t). \<not> fst (outcome d)) then Inl x else Inr ())"
proof (cases "tx_destinations t = []")
  case False
  with assms(1,2) obtain ok where
    "send_static send (Sample_Message x) (tx_destinations t) chans False = Some (ok, chans')" "r = (if ok then Inr () else Inl x)"
    by (auto simp: sender_send_def serve_shared_def)
  moreover from this(1) send_static_each [OF _ assms(3,4)] obtain outcome where
    "\<forall>d\<in>set (tx_destinations t). send (chans ! dest_tx d) (Sample_Message x) None = Some (outcome d)"
    "ok \<longleftrightarrow> (\<exists>d\<in>set (tx_destinations t). fst (outcome d))" "\<forall>d\<in>set (tx_destinations t). chans' ! dest_tx d = snd (outcome d)"
    by force
  ultimately show ?thesis using False by (intro exI [of _ outcome]) auto
qed (use assms(1,2) in \<open>simp add: sender_send_def serve_shared_def\<close>)

theorem sender_send_error_witness:
  "\<exists>outcome. outcome \<lparr>dest_tx = 0, dest_label = None\<rparr> = (False, 7 :: nat) \<and> outcome \<lparr>dest_tx = 1, dest_label = None\<rparr> = (True, 8) \<and>
    sender_send (\<lambda>c m. (Sent, c)) (\<lambda>c m _. Some (c = 8, c :: nat)) (sender_new [0, 1]) (3 :: nat) [7, 8] =
      Some (Inr (), sender_new [0, 1], [7, 8])"
proof -
  let ?send = "\<lambda>c (m :: nat channel_message) (_ :: u64 option). Some (c = 8, c :: nat)"
  have r: "sender_send (\<lambda>c m. (Sent, c)) ?send (sender_new [0, 1]) 3 [7, 8] = Some (Inr (), sender_new [0, 1], [7, 8])"
    by (simp add: sender_send_def serve_shared_def sender_new_def sender_new_labeled_def)
  from sender_send_error [OF r] obtain outcome where
    "\<forall>d\<in>set (tx_destinations (sender_new [0, 1] :: nat sender)). ?send ([7, 8] ! dest_tx d) (Sample_Message 3) None = Some (outcome d)"
    by (auto simp: sender_new_def sender_new_labeled_def)
  then have "outcome \<lparr>dest_tx = 0, dest_label = None\<rparr> = (False, 7)" "outcome \<lparr>dest_tx = 1, dest_label = None\<rparr> = (True, 8)"
    by (simp_all add: sender_new_def sender_new_labeled_def)
  with r show ?thesis by blast
qed

end
