(* ===== verification/Node_Runtime.thy ===== *)
theory Node_Runtime
  imports Receivers
begin

text \<open>
  What every processing node shares: the scheduler's loop over \<^verbatim>\<open>work()\<close>
  (\<^verbatim>\<open>crates/signal_runtime/src/scheduler.rs\<close>), the output port seen from the node, the port
  schemas of \<^verbatim>\<open>ports.rs\<close>, and the head-of-stream pattern of the merging nodes. The locale
  \<open>draining_node\<close> is the contract a node proves once to obtain that the scheduler drives it to
  completion with exactly the specified output.
\<close>

section \<open>Port schemas\<close>

datatype port_direction = Input | Output

datatype stream_readiness = Item | Complete

datatype stream_semantics = Event | State

datatype protocol_kind = Stream_Protocol | Edge_Query_Protocol

record port_payload =
  pp_type_id :: string
  pp_stream_semantics :: stream_semantics
  pp_default_buffer_capacity :: "nat option"

record port_schema =
  ps_name :: string
  ps_type_id :: string
  ps_index :: nat
  ps_direction :: port_direction
  ps_protocols :: "protocol_kind list"
  ps_payloads :: "port_payload list"
  ps_stream_readiness :: stream_readiness

definition port_payload_new :: "string \<Rightarrow> port_payload" where
  "port_payload_new type_id =
     \<lparr>pp_type_id = type_id, pp_stream_semantics = Event, pp_default_buffer_capacity = None\<rparr>"

definition port_schema_new :: "string \<Rightarrow> string \<Rightarrow> nat \<Rightarrow> port_direction \<Rightarrow> port_schema" where
  "port_schema_new type_id name index direction =
     \<lparr>ps_name = name, ps_type_id = type_id, ps_index = index, ps_direction = direction,
      ps_protocols = [Stream_Protocol], ps_payloads = [port_payload_new type_id],
      ps_stream_readiness = Item\<rparr>"

definition with_state_semantics :: "port_schema \<Rightarrow> port_schema" where
  "with_state_semantics schema =
     schema\<lparr>ps_payloads := map (\<lambda>p. p\<lparr>pp_stream_semantics := State\<rparr>) (ps_payloads schema)\<rparr>"

definition port_schema_state :: "string \<Rightarrow> string \<Rightarrow> nat \<Rightarrow> port_direction \<Rightarrow> port_schema" where
  "port_schema_state type_id name index direction =
     with_state_semantics (port_schema_new type_id name index direction)"

definition with_protocols :: "protocol_kind list \<Rightarrow> port_schema \<Rightarrow> port_schema" where
  "with_protocols protocols schema = schema\<lparr>ps_protocols := protocols\<rparr>"

definition with_default_buffer_capacity :: "nat \<Rightarrow> port_schema \<Rightarrow> port_schema" where
  "with_default_buffer_capacity capacity schema =
     schema\<lparr>ps_payloads :=
       map (\<lambda>p. p\<lparr>pp_default_buffer_capacity := Some (max capacity 1)\<rparr>) (ps_payloads schema)\<rparr>"

lemmas port_schema_defs = port_payload_new_def port_schema_new_def with_state_semantics_def
  port_schema_state_def with_protocols_def with_default_buffer_capacity_def

text \<open>
  The indices of a node's schema are the positions the node uses on its port slices, and the
  directions agree with the slice they describe.
\<close>

definition schema_wf :: "port_direction \<Rightarrow> port_schema list \<Rightarrow> bool" where
  "schema_wf direction schemas \<longleftrightarrow>
     map ps_index schemas = [0..<length schemas] \<and> distinct (map ps_name schemas) \<and>
     list_all (\<lambda>s. ps_direction s = direction \<and> ps_payloads s \<noteq> []) schemas"

section \<open>Output ports\<close>

text \<open>
  An output port as its node sees it: the values its sender has accepted so far and whether a
  destination is left. \<^verbatim>\<open>Sender::send\<close> fails only when every destination has disconnected.
\<close>

record 'a out_port =
  sent :: "'a list"
  open_port :: bool

definition send :: "'a out_port \<Rightarrow> 'a \<Rightarrow> work_error option \<times> 'a out_port" where
  "send p x = (if open_port p then (None, p\<lparr>sent := sent p @ [x]\<rparr>) else (Some SendError, p))"

definition send_batch :: "'a out_port \<Rightarrow> 'a list \<Rightarrow> work_error option \<times> 'a out_port" where
  "send_batch p xs =
     (if xs = [] then (None, p)
      else if open_port p then (None, p\<lparr>sent := sent p @ xs\<rparr>) else (Some SendError, p))"

text \<open>An optional port: a missing sender is skipped.\<close>

definition send_opt :: "'a out_port option \<Rightarrow> 'a \<Rightarrow> work_error option \<times> 'a out_port option" where
  "send_opt port x =
     (case port of
        None \<Rightarrow> (None, None)
      | Some p \<Rightarrow> (let (err, p') = send p x in (err, Some p')))"

definition send_batch_opt :: "'a out_port option \<Rightarrow> 'a list \<Rightarrow> work_error option \<times> 'a out_port option" where
  "send_batch_opt port xs =
     (case port of None \<Rightarrow> (None, None) | Some p \<Rightarrow> (let (err, p1) = send_batch p xs in (err, Some p1)))"

definition log_of :: "'a out_port option \<Rightarrow> 'a list" where
  "log_of port = (case port of None \<Rightarrow> [] | Some p \<Rightarrow> sent p)"

definition accepting :: "'a out_port option \<Rightarrow> bool" where
  "accepting port \<longleftrightarrow> (\<exists>p. port = Some p \<and> open_port p)"

named_theorems port_simps "output ports"

lemma send_open [port_simps]:
  "open_port p \<Longrightarrow> send p x = (None, p\<lparr>sent := sent p @ [x]\<rparr>)"
  by (simp add: send_def)

lemma send_batch_open [port_simps]:
  "open_port p \<Longrightarrow> send_batch p xs = (None, p\<lparr>sent := sent p @ xs\<rparr>)"
  by (simp add: send_batch_def)

lemma log_of_Some [simp]: "log_of (Some p) = sent p"
  by (simp add: log_of_def)

lemma accepting_Some [simp]: "accepting (Some p) = open_port p"
  by (simp add: accepting_def)

lemma accepting_None [simp]: "\<not> accepting None"
  by (simp add: accepting_def)

section \<open>The scheduler's loop over a node\<close>

text \<open>
  The loop of \<^verbatim>\<open>start_process\<close>: \<^verbatim>\<open>work()\<close> is called until it returns an error or the node asks to
  stop. The result is the error that ended the loop (none when the node asked to stop), the
  final state and the number of items produced. \<open>None\<close> is a run that does not end: a call that
  blocks for good, or more calls than the fuel allows.
\<close>

type_synonym 's work_fun = "'s \<Rightarrow> (nat work_result \<times> 's) option"

fun run_node :: "nat \<Rightarrow> 's work_fun \<Rightarrow> ('s \<Rightarrow> bool) \<Rightarrow> 's \<Rightarrow> nat \<Rightarrow>
    (work_error option \<times> 's \<times> nat) option" where
  "run_node 0 work should_stop s produced = None"
| "run_node (Suc fuel) work should_stop s produced =
     (if should_stop s then Some (None, s, produced)
      else case work s of
        None \<Rightarrow> None
      | Some (Inl e, s') \<Rightarrow> Some (Some e, s', produced)
      | Some (Inr n, s') \<Rightarrow> run_node fuel work should_stop s' (produced + n))"

lemma run_node_mono:
  "run_node fuel work stop s n = Some r \<Longrightarrow> fuel \<le> fuel' \<Longrightarrow>
   run_node fuel' work stop s n = Some r"
proof (induction fuel arbitrary: fuel' s n)
  case 0
  then show ?case by simp
next
  case (Suc fuel)
  from Suc.prems obtain k where k: "fuel' = Suc k" "fuel \<le> k" by (cases fuel') auto
  with Suc show ?case
    by (auto split: if_splits option.splits prod.splits sum.splits)
qed

abbreviation never_stop :: "'s \<Rightarrow> bool" where
  "never_stop \<equiv> \<lambda>_. False"

text \<open>
  The contract of a node on finite inputs: in a good state a call returns; a successful call
  leaves less to do and does not change the outcome the state predicts; an error is the
  shutdown at the end, when the prediction has become the observed output.
\<close>

locale draining_node =
  fixes work :: "'s work_fun"
    and good :: "'s \<Rightarrow> bool"
    and remaining :: "'s \<Rightarrow> nat"
    and observed :: "'s \<Rightarrow> 'l"
    and predicted :: "'s \<Rightarrow> 'l"
  assumes work_returns: "good s \<Longrightarrow> work s \<noteq> None"
    and work_Ok:
      "good s \<Longrightarrow> work s = Some (Inr n, s') \<Longrightarrow>
       good s' \<and> remaining s' < remaining s \<and> predicted s' = predicted s"
    and work_Err:
      "good s \<Longrightarrow> work s = Some (Inl e, s') \<Longrightarrow> e = Shutdown \<and> observed s' = predicted s"
begin

lemma run_completes_unless:
  assumes "good s" "remaining s < fuel" "\<And>s. good s \<Longrightarrow> \<not> stop s"
  shows "\<exists>s' m. run_node fuel work stop s n = Some (Some Shutdown, s', m) \<and>
    observed s' = predicted s"
  using assms(1,2)
proof (induction fuel arbitrary: s n)
  case 0
  then show ?case by simp
next
  case (Suc fuel)
  from work_returns [OF Suc.prems(1)] obtain res s1 where w: "work s = Some (res, s1)"
    by auto
  note running = assms(3) [OF Suc.prems(1)]
  show ?case
  proof (cases res)
    case (Inl e)
    with w running work_Err [OF Suc.prems(1)] show ?thesis by auto
  next
    case (Inr k)
    with w work_Ok [OF Suc.prems(1)]
    have g: "good s1" "remaining s1 < remaining s" "predicted s1 = predicted s" by auto
    then have "remaining s1 < fuel" using Suc.prems(2) by linarith
    from Suc.IH [OF g(1) this, of "n + k"] g(3) w Inr running show ?thesis by auto
  qed
qed

lemmas run_completes = run_completes_unless [of _ _ never_stop, simplified]

end

lemma draining_nodeI:
  assumes "\<And>s. good s \<Longrightarrow> \<exists>res s'. work s = Some (res, s') \<and>
    (case res of
       Inl e \<Rightarrow> e = Shutdown \<and> observed s' = predicted s
     | Inr n \<Rightarrow> good s' \<and> remaining s' < remaining s \<and> predicted s' = predicted s)"
  shows "draining_node work good remaining observed predicted"
  by unfold_locales (use assms in \<open>fastforce+\<close>)

text \<open>
  Most nodes first make sure that every input has an item or has ended and then take one step
  on the held items. \<open>fill_then\<close> is that composition, and \<open>filling_node\<close> the contract of its
  two parts.
\<close>

definition fill_then :: "('s \<Rightarrow> (work_error option \<times> 's) option) \<Rightarrow> ('s \<Rightarrow> nat work_result \<times> 's) \<Rightarrow>
    's work_fun" where
  "fill_then fill step s =
     (case fill s of
        None \<Rightarrow> None
      | Some (Some e, s') \<Rightarrow> Some (Inl e, s')
      | Some (None, s') \<Rightarrow> Some (step s'))"

locale filling_node =
  fixes fill :: "'s \<Rightarrow> (work_error option \<times> 's) option"
    and step :: "'s \<Rightarrow> nat work_result \<times> 's"
    and good :: "'s \<Rightarrow> bool"
    and ready :: "'s \<Rightarrow> bool"
    and remaining :: "'s \<Rightarrow> nat"
    and observed :: "'s \<Rightarrow> 'l"
    and predicted :: "'s \<Rightarrow> 'l"
  assumes fill_total: "good s \<Longrightarrow> fill s \<noteq> None"
    and fill_keeps:
      "good s \<Longrightarrow> fill s = Some (err, s') \<Longrightarrow>
       err = None \<and> good s' \<and> ready s' \<and> remaining s' = remaining s \<and>
       predicted s' = predicted s"
    and step_Ok:
      "good s \<Longrightarrow> ready s \<Longrightarrow> step s = (Inr n, s') \<Longrightarrow>
       good s' \<and> remaining s' < remaining s \<and> predicted s' = predicted s"
    and step_Err:
      "good s \<Longrightarrow> ready s \<Longrightarrow> step s = (Inl e, s') \<Longrightarrow>
       e = Shutdown \<and> observed s' = predicted s"

sublocale filling_node \<subseteq> draining_node "fill_then fill step" good remaining observed predicted
proof (unfold_locales, goal_cases)
  case (1 s)
  then show ?case using fill_total by (auto simp: fill_then_def split: option.splits)
next
  case (2 s n s')
  from fill_total [OF 2(1)] obtain err t where f: "fill s = Some (err, t)" by auto
  note k = fill_keeps [OF 2(1) f]
  with 2(2) f have "step t = (Inr n, s')" by (simp add: fill_then_def)
  with k show ?case using step_Ok [of t n s'] by simp
next
  case (3 s e s')
  from fill_total [OF 3(1)] obtain err t where f: "fill s = Some (err, t)" by auto
  note k = fill_keeps [OF 3(1) f]
  with 3(2) f have "step t = (Inl e, s')" by (simp add: fill_then_def)
  with k show ?case using step_Err [of t e s'] by simp
qed

section \<open>Heads of merged streams\<close>

text \<open>
  The merging nodes hold one received item per input and remember that an input has ended.
  \<open>fill_head\<close> is the block they repeat for each input: receive when no head is held and the
  input is still live.
\<close>

definition fill_head :: "'a option \<Rightarrow> bool \<Rightarrow> 'a receiver \<Rightarrow>
    (work_error option \<times> 'a option \<times> bool \<times> 'a receiver) option" where
  "fill_head head eos r =
     (if head = None \<and> \<not> eos then
        (case recv r of
           None \<Rightarrow> None
         | Some (Inr x, r') \<Rightarrow> Some (None, Some x, eos, r')
         | Some (Inl e, r') \<Rightarrow>
             if e = Shutdown then Some (None, None, True, r') else Some (Some e, None, eos, r'))
      else Some (None, head, eos, r))"

definition pending :: "'a option \<Rightarrow> bool \<Rightarrow> 'a receiver \<Rightarrow> 'a list" where
  "pending head eos r =
     (case head of Some x \<Rightarrow> [x] | None \<Rightarrow> []) @ (if eos then [] else stream r)"

lemma fill_head_total: "ends r \<Longrightarrow> fill_head head eos r \<noteq> None"
  using rx.receive_total [of r]
  by (auto simp: fill_head_def split: option.splits prod.splits sum.splits)

lemma fill_headD:
  assumes "fill_head head eos r = Some (err, head', eos', r')"
  shows "err = None \<and> pending head' eos' r' = pending head eos r \<and>
    (ends r \<longrightarrow> ends r') \<and> (eos \<longrightarrow> eos') \<and> (head' = None \<longrightarrow> eos' \<and> pending head eos r = [])
    \<and> (\<forall>x. head' = Some x \<longrightarrow> pending head eos r = x # pending None eos' r')"
  using assms
  by (auto simp: fill_head_def pending_def split: if_splits option.splits prod.splits sum.splits
      dest!: rx.receive_OkD rx.receive_ErrD)

text \<open>
  The same with the lookup of the port: a node that needs an input which is not connected
  reports it by name.
\<close>

definition fill_port :: "string \<Rightarrow> 'a option \<Rightarrow> bool \<Rightarrow> 'a receiver option \<Rightarrow>
    (work_error option \<times> 'a option \<times> bool \<times> 'a receiver option) option" where
  "fill_port message head eos port =
     (if head = None \<and> \<not> eos then
        (case port of
           None \<Rightarrow> Some (Some (NodeError message), head, eos, None)
         | Some r \<Rightarrow> map_option (\<lambda>(err, h, e, r'). (err, h, e, Some r')) (fill_head head eos r))
      else Some (None, head, eos, port))"

definition port_pending :: "'a option \<Rightarrow> bool \<Rightarrow> 'a receiver option \<Rightarrow> 'a list" where
  "port_pending head eos port = (case port of None \<Rightarrow> [] | Some r \<Rightarrow> pending head eos r)"

definition port_ends :: "'a receiver option \<Rightarrow> bool" where
  "port_ends port \<longleftrightarrow> (\<exists>r. port = Some r \<and> ends r)"

text \<open>After filling, a head is held or the input has ended.\<close>

definition head_ready :: "'a option \<Rightarrow> bool \<Rightarrow> bool" where
  "head_ready head eos \<longleftrightarrow> (head = None \<longrightarrow> eos)"

lemma fill_port_total: "port_ends port \<Longrightarrow> fill_port message head eos port \<noteq> None"
  using fill_head_total by (auto simp: fill_port_def port_ends_def)

lemma fill_portD:
  assumes "fill_port message head eos port = Some (err, head', eos', port')" "port_ends port"
  shows "err = None \<and> port_ends port' \<and> head_ready head' eos' \<and>
    port_pending head' eos' port' = port_pending head eos port"
  using assms fill_headD [of head eos _ err head' eos']
  by (fastforce simp: fill_port_def port_pending_def port_ends_def head_ready_def
      split: if_splits option.splits)

lemma port_pending_take:
  "port_ends port \<Longrightarrow> port_pending (Some x) eos port = x # port_pending None eos port"
  by (auto simp: port_pending_def pending_def port_ends_def)

lemma port_pending_ended [simp]: "port_pending None True port = []"
  by (auto simp: port_pending_def pending_def split: option.splits)

text \<open>
  The two inputs of a merging node are filled in turn; an error on the first leaves the second
  untouched. The second input is only looked at when the node uses it.
\<close>

definition fill_two :: "string \<Rightarrow> 'a option \<Rightarrow> bool \<Rightarrow> 'a receiver option \<Rightarrow>
    bool \<Rightarrow> string \<Rightarrow> 'b option \<Rightarrow> bool \<Rightarrow> 'b receiver option \<Rightarrow>
    (work_error option \<times> ('a option \<times> bool \<times> 'a receiver option) \<times>
      ('b option \<times> bool \<times> 'b receiver option)) option" where
  "fill_two m1 h1 e1 p1 used m2 h2 e2 p2 =
     (case fill_port m1 h1 e1 p1 of
        None \<Rightarrow> None
      | Some (Some err, first) \<Rightarrow> Some (Some err, first, (h2, e2, p2))
      | Some (None, first) \<Rightarrow>
          if used then map_option (\<lambda>(err, second). (err, first, second)) (fill_port m2 h2 e2 p2)
          else Some (None, first, (h2, e2, p2)))"

lemma fill_two_total:
  assumes "port_ends p1" "used \<Longrightarrow> port_ends p2"
  shows "fill_two m1 h1 e1 p1 used m2 h2 e2 p2 \<noteq> None"
proof -
  obtain err first where f: "fill_port m1 h1 e1 p1 = Some (err, first)"
    using fill_port_total [OF assms(1), of m1 h1 e1] by auto
  show ?thesis
    using f assms(2) fill_port_total [of p2 m2 h2 e2]
    by (cases err; cases first) (auto simp: fill_two_def)
qed

lemma fill_twoD:
  assumes "fill_two m1 h1 e1 p1 used m2 h2 e2 p2 = Some (err, (h1', e1', p1'), (h2', e2', p2'))"
    and "port_ends p1" "used \<Longrightarrow> port_ends p2"
  shows "err = None \<and> port_ends p1' \<and> head_ready h1' e1' \<and>
    port_pending h1' e1' p1' = port_pending h1 e1 p1 \<and>
    (used \<longrightarrow> port_ends p2' \<and> head_ready h2' e2') \<and>
    port_pending h2' e2' p2' = port_pending h2 e2 p2 \<and>
    (\<not> used \<longrightarrow> h2' = h2 \<and> e2' = e2 \<and> p2' = p2)"
  using assms(1)
proof (cases "fill_port m1 h1 e1 p1")
  case None
  with assms(1) show ?thesis by (simp add: fill_two_def)
next
  case (Some res)
  obtain err1 h e p where res: "res = (err1, h, e, p)" by (cases res) auto
  note one = fill_portD [OF Some [unfolded res] assms(2)]
  show ?thesis
  proof (cases used)
    case False
    with one assms(1) Some res show ?thesis by (auto simp: fill_two_def)
  next
    case True
    with one assms(1) Some res have
      "fill_port m2 h2 e2 p2 = Some (err, h2', e2', p2')" "h1' = h" "e1' = e" "p1' = p"
      by (auto simp: fill_two_def)
    with one True assms(3) show ?thesis by (auto dest!: fill_portD)
  qed
qed

section \<open>Merging an auxiliary stream into a main stream\<close>

text \<open>
  The order in which a two-input node consumes its heads: the auxiliary item goes first when its
  timestamp is not later than that of the main item, and the merge stops with the main stream.
\<close>

fun merge_aux :: "('b \<Rightarrow> u64) \<Rightarrow> ('a \<Rightarrow> u64) \<Rightarrow> 'b list \<Rightarrow> 'a list \<Rightarrow> ('b + 'a) list" where
  "merge_aux fa fm aux [] = []"
| "merge_aux fa fm [] (m # ms) = Inr m # merge_aux fa fm [] ms"
| "merge_aux fa fm (a # as) (m # ms) =
     (if fa a \<le> fm m then Inl a # merge_aux fa fm as (m # ms)
      else Inr m # merge_aux fa fm (a # as) ms)"

definition used_pending :: "bool \<Rightarrow> 'a option \<Rightarrow> bool \<Rightarrow> 'a receiver option \<Rightarrow> 'a list" where
  "used_pending used head eos port = (if used then port_pending head eos port else [])"

lemma merge_heads_cases:
  assumes "port_ends p1" "head_ready h1 e1" "used \<longrightarrow> port_ends p2" "used \<longrightarrow> head_ready h2 e2"
  obtains
    (finished) "h1 = None" "e1" "port_pending h1 e1 p1 = []"
  | (aux) a m where "used" "h2 = Some a" "h1 = Some m" "fa a \<le> fm m"
      "used_pending used h2 e2 p2 = a # used_pending used None e2 p2"
      "merge_aux fa fm (used_pending used h2 e2 p2) (port_pending h1 e1 p1) =
         Inl a # merge_aux fa fm (used_pending used None e2 p2) (port_pending h1 e1 p1)"
  | (main) m where "h1 = Some m" "\<not> (used \<and> (\<exists>a. h2 = Some a \<and> fa a \<le> fm m))"
      "port_pending h1 e1 p1 = m # port_pending None e1 p1"
      "merge_aux fa fm (used_pending used h2 e2 p2) (port_pending h1 e1 p1) =
         Inr m # merge_aux fa fm (used_pending used h2 e2 p2) (port_pending None e1 p1)"
proof (cases h1)
  case None
  with assms(2) show ?thesis by (intro finished) (auto simp: head_ready_def)
next
  case (Some m)
  note h1 = this
  then have p: "port_pending h1 e1 p1 = m # port_pending None e1 p1"
    using assms(1) by (simp add: port_pending_take)
  show ?thesis
  proof (cases "used \<and> (\<exists>a. h2 = Some a \<and> fa a \<le> fm m)")
    case True
    then obtain a where "h2 = Some a" "fa a \<le> fm m" by auto
    with True h1 p assms(3) show ?thesis
      by (intro aux [of a m]) (simp_all add: used_pending_def port_pending_take)
  next
    case False
    with h1 p assms(3,4) show ?thesis
      by (intro main [of m]; cases h2)
        (auto simp: used_pending_def port_pending_take head_ready_def)
  qed
qed

lemma merge_aux_main: "map projr (filter (\<lambda>x. \<not> isl x) (merge_aux fa fm as ms)) = ms"
  by (induction fa fm as ms rule: merge_aux.induct) auto

lemma merge_aux_aux_length: "length (filter isl (merge_aux fa fm as ms)) \<le> length as"
  by (induction fa fm as ms rule: merge_aux.induct) auto

section \<open>Nodes with one input and one output\<close>

text \<open>
  The nodes that consume one input item by item share their \<^verbatim>\<open>work\<close>: look up both ports, send what
  the first call owes (the initial level of a state stream), receive one item, update the node
  and send what the item gives. \<open>unary_work\<close> is that composition over the node's two own parts.
\<close>

record ('n, 'a, 'b) unary_ctx =
  u_node :: 'n
  u_in :: "'a receiver option"
  u_out :: "'b out_port option"

fun send_all :: "'b out_port \<Rightarrow> 'b list \<Rightarrow> work_error option \<times> 'b out_port" where
  "send_all p [] = (None, p)"
| "send_all p (x # xs) =
     (case send p x of
        (Some e, p') \<Rightarrow> (Some e, p')
      | (None, p') \<Rightarrow> send_all p' xs)"

definition unary_work :: "string \<Rightarrow> string \<Rightarrow> ('n \<Rightarrow> 'b list \<times> 'n) \<Rightarrow> ('a \<Rightarrow> 'n \<Rightarrow> 'b list \<times> 'n) \<Rightarrow>
    ('n, 'a, 'b) unary_ctx work_fun" where
  "unary_work missing_in missing_out start step c =
     (case u_in c of
        None \<Rightarrow> Some (Inl (NodeError missing_in), c)
      | Some r \<Rightarrow>
          (case u_out c of
             None \<Rightarrow> Some (Inl (NodeError missing_out), c)
           | Some out \<Rightarrow>
               (let (owed, node1) = start (u_node c);
                    (err, out1) = send_all out owed;
                    c1 = c\<lparr>u_node := node1, u_out := Some out1\<rparr>
                in case err of
                     Some e \<Rightarrow> Some (Inl e, c1)
                   | None \<Rightarrow>
                       (case recv r of
                          None \<Rightarrow> None
                        | Some (Inl e, r') \<Rightarrow> Some (Inl e, c1\<lparr>u_in := Some r'\<rparr>)
                        | Some (Inr x, r') \<Rightarrow>
                            (let (items, node2) = step x node1;
                                 (err', out2) = send_all out1 items;
                                 c2 = c1\<lparr>u_node := node2, u_in := Some r', u_out := Some out2\<rparr>
                             in case err' of
                                  Some e \<Rightarrow> Some (Inl e, c2)
                                | None \<Rightarrow> Some (Inr (length items), c2))))))"

text \<open>What a unary node emits on the items still to come, the call that meets the end included.\<close>

fun unary_run :: "('n \<Rightarrow> 'b list \<times> 'n) \<Rightarrow> ('a \<Rightarrow> 'n \<Rightarrow> 'b list \<times> 'n) \<Rightarrow> 'n \<Rightarrow> 'a list \<Rightarrow> 'b list" where
  "unary_run start step n [] = fst (start n)"
| "unary_run start step n (x # xs) =
     fst (start n) @ fst (step x (snd (start n))) @ unary_run start step (snd (step x (snd (start n)))) xs"

lemma send_all_open: "open_port p \<Longrightarrow> send_all p xs = (None, p\<lparr>sent := sent p @ xs\<rparr>)"
  by (induction xs arbitrary: p) (auto simp: port_simps)

definition unary_good :: "('n, 'a, 'b) unary_ctx \<Rightarrow> bool" where
  "unary_good c \<longleftrightarrow> port_ends (u_in c) \<and> accepting (u_out c)"

definition unary_items :: "('n, 'a, 'b) unary_ctx \<Rightarrow> 'a list" where
  "unary_items c = (case u_in c of None \<Rightarrow> [] | Some r \<Rightarrow> stream r)"

lemma unary_work_cases:
  assumes "unary_good c"
  obtains (finish) c' where "unary_items c = []" "unary_work mi mo start step c = Some (Inl Shutdown, c')"
      "log_of (u_out c') = log_of (u_out c) @ fst (start (u_node c))"
  | (item) x n c' where "unary_items c = x # unary_items c'" "unary_good c'"
      "unary_work mi mo start step c = Some (Inr n, c')"
      "u_node c' = snd (step x (snd (start (u_node c))))"
      "log_of (u_out c') = log_of (u_out c) @ fst (start (u_node c)) @ fst (step x (snd (start (u_node c))))"
proof -
  obtain r out where c: "u_in c = Some r" "ends r" "u_out c = Some out" "open_port out"
    using assms by (auto simp: unary_good_def port_ends_def accepting_def)
  show ?thesis
  proof (cases "stream r")
    case Nil
    then obtain r' where "recv r = Some (Inl Shutdown, r')" using rx.receive_end [of r] c by auto
    with c Nil show ?thesis
      by (intro finish) (auto simp: unary_items_def unary_work_def send_all_open case_prod_beta Let_def)
  next
    case (Cons x xs)
    then obtain r' where "recv r = Some (Inr x, r')" "stream r' = xs" "ends r'"
      using rx.receive_item [of r x xs] c by auto
    with c Cons show ?thesis
      by (intro item) (auto simp: unary_items_def unary_work_def unary_good_def port_ends_def
          send_all_open case_prod_beta Let_def)
  qed
qed

interpretation unary: draining_node "unary_work mi mo start step" unary_good
  "\<lambda>c. length (unary_items c)" "\<lambda>c. log_of (u_out c)"
  "\<lambda>c. log_of (u_out c) @ unary_run start step (u_node c) (unary_items c)"
  for mi mo :: string and start :: "'n \<Rightarrow> 'b list \<times> 'n" and step :: "'a \<Rightarrow> 'n \<Rightarrow> 'b list \<times> 'n"
proof (unfold_locales, goal_cases)
  case (1 c)
  from 1 show ?case by (cases rule: unary_work_cases [where mi = mi and mo = mo and start = start and step = step]) auto
next
  case (2 c n c')
  from 2(1) show ?case
    by (cases rule: unary_work_cases [where mi = mi and mo = mo and start = start and step = step])
      (use 2(2) in auto)
next
  case (3 c e c')
  from 3(1) show ?case
    by (cases rule: unary_work_cases [where mi = mi and mo = mo and start = start and step = step])
      (use 3(2) in auto)
qed

lemma unary_node_run:
  assumes "ends r" "open_port out" "length (stream r) < fuel"
  shows "\<exists>c n. run_node fuel (unary_work mi mo start step) never_stop
      \<lparr>u_node = node, u_in = Some r, u_out = Some out\<rparr> 0 = Some (Some Shutdown, c, n) \<and>
    log_of (u_out c) = sent out @ unary_run start step node (stream r)"
  using unary.run_completes [of "\<lparr>u_node = node, u_in = Some r, u_out = Some out\<rparr>" fuel mi mo start step 0] assms
  by (simp add: unary_good_def port_ends_def unary_items_def)

end
