(* ===== verification/Signal_Events.thy ===== *)
theory Signal_Events
  imports Rust_Prelude
begin

text \<open>
  The payload types that flow between nodes: the events and stepped levels of
  \<^verbatim>\<open>crates/signal_derived/src/events.rs\<close> and the logic samples of
  \<^verbatim>\<open>crates/signal_capture/src/sample.rs\<close>, with the meaning of a level stream as a function of time.
\<close>

section \<open>Payloads\<close>

record timestamp_event =
  te_timestamp_ns :: u64

record timeline_marker =
  tm_timestamp_ns :: u64

record sample =
  s_value :: bool
  s_start_time_ns :: u64

record number_sample =
  ns_value :: "64 word"
  ns_start_time_ns :: u64

text \<open>Text is held as its UTF-8 bytes, the representation the sources measure and store.\<close>

datatype word_payload = Bytes "u8 list" | Text "u8 list"

record decoded_word =
  w_value :: u64
  w_payload :: "word_payload option"
  w_timestamp_ns :: u64
  w_duration_ns :: u64

definition timestamp_event_new :: "u64 \<Rightarrow> timestamp_event" where
  "timestamp_event_new t = \<lparr>te_timestamp_ns = t\<rparr>"

definition timeline_marker_new :: "u64 \<Rightarrow> timeline_marker" where
  "timeline_marker_new t = \<lparr>tm_timestamp_ns = t\<rparr>"

definition sample_new :: "bool \<Rightarrow> u64 \<Rightarrow> sample" where
  "sample_new v t = \<lparr>s_value = v, s_start_time_ns = t\<rparr>"

definition number_sample_new :: "64 word \<Rightarrow> u64 \<Rightarrow> number_sample" where
  "number_sample_new v t = \<lparr>ns_value = v, ns_start_time_ns = t\<rparr>"

definition word_new :: "u64 \<Rightarrow> u64 \<Rightarrow> decoded_word" where
  "word_new v t = \<lparr>w_value = v, w_payload = None, w_timestamp_ns = t, w_duration_ns = 0\<rparr>"

definition word_spanning :: "u64 \<Rightarrow> u64 \<Rightarrow> u64 \<Rightarrow> decoded_word" where
  "word_spanning v t d = \<lparr>w_value = v, w_payload = None, w_timestamp_ns = t, w_duration_ns = d\<rparr>"

definition word_bytes_with_tag :: "u64 \<Rightarrow> u8 list \<Rightarrow> u64 \<Rightarrow> u64 \<Rightarrow> decoded_word" where
  "word_bytes_with_tag tag bs t d =
     \<lparr>w_value = tag, w_payload = Some (Bytes bs), w_timestamp_ns = t, w_duration_ns = d\<rparr>"

definition word_bytes :: "u8 list \<Rightarrow> u64 \<Rightarrow> u64 \<Rightarrow> decoded_word" where
  "word_bytes = word_bytes_with_tag 0"

definition word_labeled :: "u64 \<Rightarrow> u8 list \<Rightarrow> u64 \<Rightarrow> u64 \<Rightarrow> decoded_word" where
  "word_labeled v label t d =
     \<lparr>w_value = v, w_payload = Some (Text label), w_timestamp_ns = t, w_duration_ns = d\<rparr>"

definition word_text :: "u8 list \<Rightarrow> u64 \<Rightarrow> u64 \<Rightarrow> decoded_word" where
  "word_text label t d =
     \<lparr>w_value = 0, w_payload = Some (Text label), w_timestamp_ns = t, w_duration_ns = d\<rparr>"

definition is_numeric :: "decoded_word \<Rightarrow> bool" where
  "is_numeric w \<longleftrightarrow> w_payload w = None"

definition end_ns :: "decoded_word \<Rightarrow> u64" where
  "end_ns w = w_timestamp_ns w + w_duration_ns w"

lemmas event_defs = timestamp_event_new_def timeline_marker_new_def sample_new_def
  number_sample_new_def word_new_def word_spanning_def word_bytes_with_tag_def word_bytes_def
  word_labeled_def word_text_def

section \<open>The visual end of an instantaneous word\<close>

definition MAX_ANNOTATION_NS :: u64 where
  "MAX_ANNOTATION_NS = 100000000"

definition instantaneous_word_end_ns_with_limit ::
    "u64 option \<Rightarrow> u64 \<Rightarrow> u64 \<Rightarrow> u64 \<Rightarrow> u64" where
  "instantaneous_word_end_ns_with_limit previous_start_ns start_ns next_start_ns max_span_ns =
     (let gap_ns = saturating_sub next_start_ns start_ns;
          interval = (case previous_start_ns of
              None \<Rightarrow> None
            | Some previous \<Rightarrow>
                (let d = saturating_sub start_ns previous in if 0 < d then Some d else None));
          inferred_limit_ns = min (case interval of None \<Rightarrow> max_span_ns | Some d \<Rightarrow> d) max_span_ns
      in saturating_add start_ns (min gap_ns inferred_limit_ns))"

definition instantaneous_word_end_ns :: "u64 option \<Rightarrow> u64 \<Rightarrow> u64 \<Rightarrow> u64" where
  "instantaneous_word_end_ns previous_start_ns start_ns next_start_ns =
     instantaneous_word_end_ns_with_limit previous_start_ns start_ns next_start_ns MAX_ANNOTATION_NS"

lemma min_word_nat: "unat (min x y) = min (unat x) (unat y)" for x y :: "'a::len word"
  by (simp add: min_def word_le_nat_alt)

section \<open>The meaning of a level stream\<close>

text \<open>
  A level stream transmits changes only; the level at an instant is the value of the last
  change at or before it, and the initial level before the first change.
\<close>

definition level_at :: "bool \<Rightarrow> sample list \<Rightarrow> u64 \<Rightarrow> bool" where
  "level_at initial samples t =
     fold (\<lambda>s level. if s_start_time_ns s \<le> t then s_value s else level) samples initial"

lemma level_at_Nil [simp]: "level_at v [] t = v"
  by (simp add: level_at_def)

lemma level_at_Cons [simp]:
  "level_at v (s # ss) t = level_at (if s_start_time_ns s \<le> t then s_value s else v) ss t"
  by (simp add: level_at_def)

lemma level_at_append [simp]: "level_at v (ss @ ss') t = level_at (level_at v ss t) ss' t"
  by (simp add: level_at_def)

lemma level_at_later:
  "\<forall>s\<in>set ss. t < s_start_time_ns s \<Longrightarrow> level_at v ss t = v"
  by (induction ss) auto

lemma level_at_last:
  "level_at v ss t = (case filter (\<lambda>s. s_start_time_ns s \<le> t) ss of
     [] \<Rightarrow> v | xs \<Rightarrow> s_value (last xs))"
proof (induction ss rule: rev_induct)
  case Nil
  then show ?case by simp
next
  case (snoc s ss)
  then show ?case by (auto split: list.splits)
qed

end
