(* ===== verification/Event_Gate.thy ===== *)
theory Event_Gate
  imports Node_Runtime Signal_Events
begin

text \<open>
  The event gate, \<^verbatim>\<open>crates/signal_transforms/src/event_gate/gate.rs\<close>: an event stream filtered by a
  boolean level. The node merges the two inputs by timestamp; the theorem says that a complete
  run emits exactly the events at whose instant the gate level is active.
\<close>

section \<open>State\<close>

datatype gate_polarity = ActiveHigh | ActiveLow

record event_gate =
  eg_name :: string
  eg_polarity :: gate_polarity
  eg_gate_level :: bool
  eg_event_head :: "timestamp_event option"
  eg_gate_head :: "sample option"
  eg_event_eos :: bool
  eg_gate_eos :: bool

definition event_gate_new :: "gate_polarity \<Rightarrow> event_gate" where
  "event_gate_new polarity =
     \<lparr>eg_name = ''event_gate'', eg_polarity = polarity, eg_gate_level = False,
      eg_event_head = None, eg_gate_head = None, eg_event_eos = False, eg_gate_eos = False\<rparr>"

definition event_gate_with_name :: "event_gate \<Rightarrow> string \<Rightarrow> event_gate" where
  "event_gate_with_name g name = g\<lparr>eg_name := name\<rparr>"

text \<open>A node together with the ports it is called with.\<close>

record event_gate_ctx =
  egc_node :: event_gate
  egc_events :: "timestamp_event receiver option"
  egc_gate :: "sample receiver option"
  egc_out :: "timestamp_event out_port option"

section \<open>Operations\<close>

definition polarity_active :: "gate_polarity \<Rightarrow> bool \<Rightarrow> bool" where
  "polarity_active polarity level =
     (case polarity of ActiveHigh \<Rightarrow> level | ActiveLow \<Rightarrow> \<not> level)"

definition event_gate_active :: "event_gate \<Rightarrow> bool" where
  "event_gate_active g = polarity_active (eg_polarity g) (eg_gate_level g)"

definition event_gate_input_schema :: "port_schema list" where
  "event_gate_input_schema =
     [port_schema_new ''TimestampEvent'' ''events'' 0 Input,
      port_schema_state ''Sample'' ''gate'' 1 Input]"

definition event_gate_output_schema :: "port_schema list" where
  "event_gate_output_schema = [port_schema_new ''TimestampEvent'' ''events'' 0 Output]"

definition event_gate_fill_heads :: "event_gate_ctx \<Rightarrow> (work_error option \<times> event_gate_ctx) option" where
  "event_gate_fill_heads c =
     (let g = egc_node c in
      case fill_two ''Missing events input'' (eg_event_head g) (eg_event_eos g) (egc_events c)
             True ''Missing gate input'' (eg_gate_head g) (eg_gate_eos g) (egc_gate c) of
        None \<Rightarrow> None
      | Some (err, (event_head, event_eos, events), (gate_head, gate_eos, gate)) \<Rightarrow>
          Some (err, c\<lparr>egc_node := g\<lparr>eg_event_head := event_head, eg_event_eos := event_eos,
                                      eg_gate_head := gate_head, eg_gate_eos := gate_eos\<rparr>,
                       egc_events := events, egc_gate := gate\<rparr>))"

definition gate_precedes_event :: "event_gate \<Rightarrow> bool" where
  "gate_precedes_event g =
     (case eg_gate_head g of
        None \<Rightarrow> False
      | Some gate \<Rightarrow>
          (case eg_event_head g of
             None \<Rightarrow> True
           | Some event \<Rightarrow> s_start_time_ns gate \<le> te_timestamp_ns event))"

definition event_gate_step :: "event_gate_ctx \<Rightarrow> nat work_result \<times> event_gate_ctx" where
  "event_gate_step c =
     (let g = egc_node c in
      if eg_event_head g = None \<and> eg_event_eos g then (Inl Shutdown, c)
      else if gate_precedes_event g then
        (Inr 0, c\<lparr>egc_node := g\<lparr>eg_gate_level := s_value (the (eg_gate_head g)),
                                eg_gate_head := None\<rparr>\<rparr>)
      else
        case eg_event_head g of None \<Rightarrow> (Inl Panicked, c) | Some event \<Rightarrow>
        let c1 = c\<lparr>egc_node := g\<lparr>eg_event_head := None\<rparr>\<rparr>
        in if \<not> event_gate_active g then (Inr 0, c1)
           else case egc_out c of
             None \<Rightarrow> (Inl (NodeError ''Missing events output''), c1)
           | Some out \<Rightarrow>
               (let (err, out') = send out event; c2 = c1\<lparr>egc_out := Some out'\<rparr>
                in case err of Some e \<Rightarrow> (Inl e, c2) | None \<Rightarrow> (Inr 1, c2)))"

definition event_gate_work :: "event_gate_ctx work_fun" where
  "event_gate_work = fill_then event_gate_fill_heads event_gate_step"

section \<open>Specification and refinement\<close>

definition event_gate_spec :: "gate_polarity \<Rightarrow> bool \<Rightarrow> sample list \<Rightarrow> timestamp_event list \<Rightarrow>
    timestamp_event list" where
  "event_gate_spec polarity level gates events =
     filter (\<lambda>e. polarity_active polarity (level_at level gates (te_timestamp_ns e))) events"

text \<open>The items each input still has to deliver, including a held head.\<close>

definition event_gate_events :: "event_gate_ctx \<Rightarrow> timestamp_event list" where
  "event_gate_events c = port_pending (eg_event_head (egc_node c)) (eg_event_eos (egc_node c)) (egc_events c)"

definition event_gate_gates :: "event_gate_ctx \<Rightarrow> sample list" where
  "event_gate_gates c = port_pending (eg_gate_head (egc_node c)) (eg_gate_eos (egc_node c)) (egc_gate c)"

definition event_gate_good :: "event_gate_ctx \<Rightarrow> bool" where
  "event_gate_good c \<longleftrightarrow>
     port_ends (egc_events c) \<and> port_ends (egc_gate c) \<and> accepting (egc_out c) \<and>
     sorted_by te_timestamp_ns (event_gate_events c) \<and>
     sorted_by s_start_time_ns (event_gate_gates c)"

definition event_gate_to_come :: "event_gate_ctx \<Rightarrow> timestamp_event list" where
  "event_gate_to_come c =
     event_gate_spec (eg_polarity (egc_node c)) (eg_gate_level (egc_node c))
       (event_gate_gates c) (event_gate_events c)"

definition event_gate_remaining :: "event_gate_ctx \<Rightarrow> nat" where
  "event_gate_remaining c = length (event_gate_events c) + length (event_gate_gates c)"

lemmas event_gate_views = event_gate_events_def event_gate_gates_def event_gate_good_def
  event_gate_to_come_def event_gate_remaining_def

lemma event_gate_fill_heads_total:
  assumes "event_gate_good c"
  shows "event_gate_fill_heads c \<noteq> None"
  using assms fill_two_total [of "egc_events c" True "egc_gate c"]
  by (auto simp: event_gate_fill_heads_def event_gate_good_def Let_def split: option.splits)

definition event_gate_ready :: "event_gate_ctx \<Rightarrow> bool" where
  "event_gate_ready c \<longleftrightarrow>
     head_ready (eg_event_head (egc_node c)) (eg_event_eos (egc_node c)) \<and>
     head_ready (eg_gate_head (egc_node c)) (eg_gate_eos (egc_node c))"

lemma event_gate_fill_heads_keeps:
  assumes "event_gate_good c" "event_gate_fill_heads c = Some (err, c1)"
  shows "err = None \<and> event_gate_good c1 \<and> event_gate_ready c1 \<and>
    event_gate_remaining c1 = event_gate_remaining c \<and>
    log_of (egc_out c1) = log_of (egc_out c) \<and> event_gate_to_come c1 = event_gate_to_come c"
proof -
  let ?g = "egc_node c"
  from assms(2) obtain h e r h' e' r' where
    f: "fill_two ''Missing events input'' (eg_event_head ?g) (eg_event_eos ?g) (egc_events c)
          True ''Missing gate input'' (eg_gate_head ?g) (eg_gate_eos ?g) (egc_gate c) =
        Some (err, (h, e, r), (h', e', r'))"
    and c1: "c1 = c\<lparr>egc_node := ?g\<lparr>eg_event_head := h, eg_event_eos := e, eg_gate_head := h',
      eg_gate_eos := e'\<rparr>, egc_events := r, egc_gate := r'\<rparr>"
    by (auto simp: event_gate_fill_heads_def Let_def split: option.splits)
  have "port_ends (egc_events c)" "port_ends (egc_gate c)"
    using assms(1) by (auto simp: event_gate_good_def)
  from fill_twoD [OF f this] assms(1) show ?thesis
    by (simp add: c1 event_gate_views event_gate_ready_def)
qed

lemma event_gate_spec_advance:
  assumes "\<forall>e\<in>set events. s_start_time_ns g \<le> te_timestamp_ns e"
  shows "event_gate_spec p v (g # gates) events = event_gate_spec p (s_value g) gates events"
  unfolding event_gate_spec_def using assms by (intro filter_cong) auto

lemma event_gate_spec_event:
  assumes "\<forall>s\<in>set gates. te_timestamp_ns e < s_start_time_ns s"
  shows "event_gate_spec p v gates (e # events) =
    (if polarity_active p v then [e] else []) @ event_gate_spec p v gates events"
  unfolding event_gate_spec_def using level_at_later [OF assms] by simp

text \<open>The three ways a step can go, with the input it consumes.\<close>

lemma event_gate_step_cases:
  assumes good: "event_gate_good c" and ready: "event_gate_ready c"
  obtains (shutdown) "event_gate_events c = []" "event_gate_step c = (Inl Shutdown, c)"
  | (gate) g where "event_gate_gates c = g # port_pending None (eg_gate_eos (egc_node c)) (egc_gate c)"
      "\<forall>e\<in>set (event_gate_events c). s_start_time_ns g \<le> te_timestamp_ns e"
      "event_gate_step c =
         (Inr 0, c\<lparr>egc_node := (egc_node c)\<lparr>eg_gate_level := s_value g, eg_gate_head := None\<rparr>\<rparr>)"
  | (event) e where
      "event_gate_events c = e # port_pending None (eg_event_eos (egc_node c)) (egc_events c)"
      "\<forall>s\<in>set (event_gate_gates c). te_timestamp_ns e < s_start_time_ns s"
      "event_gate_step c =
         (if event_gate_active (egc_node c)
          then (Inr 1, c\<lparr>egc_node := (egc_node c)\<lparr>eg_event_head := None\<rparr>,
            egc_out := Some ((the (egc_out c))\<lparr>sent := sent (the (egc_out c)) @ [e]\<rparr>)\<rparr>)
          else (Inr 0, c\<lparr>egc_node := (egc_node c)\<lparr>eg_event_head := None\<rparr>\<rparr>))"
proof (cases "eg_event_head (egc_node c)")
  case None
  with ready show ?thesis
    by (intro shutdown) (auto simp: event_gate_ready_def head_ready_def event_gate_views event_gate_step_def)
next
  case (Some e)
  note he = this
  have events: "event_gate_events c = e # port_pending None (eg_event_eos (egc_node c)) (egc_events c)"
    using good Some by (simp add: event_gate_views port_pending_take)
  obtain out where out: "egc_out c = Some out" "open_port out"
    using good by (auto simp: event_gate_good_def accepting_def)
  show ?thesis
  proof (cases "gate_precedes_event (egc_node c)")
    case True
    then obtain g where g: "eg_gate_head (egc_node c) = Some g" "s_start_time_ns g \<le> te_timestamp_ns e"
      using he by (auto simp: gate_precedes_event_def split: option.splits)
    have "\<forall>x\<in>set (event_gate_events c). s_start_time_ns g \<le> te_timestamp_ns x"
      using g events good by (fastforce simp: event_gate_good_def)
    with True g he good show ?thesis
      by (intro gate) (auto simp: event_gate_views event_gate_step_def port_pending_take)
  next
    case False
    have "\<forall>s\<in>set (event_gate_gates c). te_timestamp_ns e < s_start_time_ns s"
    proof (cases "eg_gate_head (egc_node c)")
      case None
      with ready show ?thesis by (simp add: event_gate_views event_gate_ready_def head_ready_def)
    next
      case (Some g)
      with False he have "te_timestamp_ns e < s_start_time_ns g"
        by (simp add: gate_precedes_event_def)
      with Some good show ?thesis
        by (fastforce simp: event_gate_views port_pending_take)
    qed
    with False he events out show ?thesis
      by (intro event) (auto simp: event_gate_step_def Let_def port_simps)
  qed
qed

lemma event_gate_step_refines:
  assumes "event_gate_good c" "event_gate_ready c" "event_gate_step c = (res, c')"
  shows "(case res of
      Inr n \<Rightarrow> event_gate_good c' \<and> event_gate_remaining c' < event_gate_remaining c \<and>
        log_of (egc_out c') @ event_gate_to_come c' = log_of (egc_out c) @ event_gate_to_come c
    | Inl e \<Rightarrow> e = Shutdown \<and> log_of (egc_out c') = log_of (egc_out c) @ event_gate_to_come c)"
  using assms(1,2)
proof (cases rule: event_gate_step_cases)
  case shutdown
  with assms(3) show ?thesis by (auto simp: event_gate_to_come_def event_gate_spec_def)
next
  case (gate g)
  with assms(1,3) event_gate_spec_advance [OF gate(2)] show ?thesis
    by (auto simp: event_gate_views)
next
  case (event e)
  obtain out where "egc_out c = Some out" "open_port out"
    using assms(1) by (auto simp: event_gate_good_def accepting_def)
  with event assms(1,3) event_gate_spec_event [OF event(2)] show ?thesis
    by (auto simp: event_gate_views event_gate_active_def split: if_splits)
qed

interpretation event_gate: filling_node event_gate_fill_heads event_gate_step event_gate_good
  event_gate_ready event_gate_remaining
  "\<lambda>c. log_of (egc_out c)" "\<lambda>c. log_of (egc_out c) @ event_gate_to_come c"
  by unfold_locales
    (use event_gate_fill_heads_total event_gate_fill_heads_keeps event_gate_step_refines
     in \<open>fastforce+\<close>)

section \<open>Properties\<close>

text \<open>
  C21: On finite, timestamp-ordered inputs the scheduler's loop over a fresh event gate ends with
  the regular shutdown, and the output holds, in order, exactly the events at whose timestamp the
  gate level (low before the first gate sample) is active for the polarity.
\<close>
theorem event_gate_complete_run:
  assumes "ends events" "ends gate" "open_port out"
    and "sorted_by te_timestamp_ns (stream events)" "sorted_by s_start_time_ns (stream gate)"
    and "length (stream events) + length (stream gate) < fuel"
  shows "\<exists>c n. run_node fuel event_gate_work never_stop
      \<lparr>egc_node = event_gate_new polarity, egc_events = Some events, egc_gate = Some gate,
       egc_out = Some out\<rparr> 0 = Some (Some Shutdown, c, n) \<and>
    log_of (egc_out c) = sent out @
      filter (\<lambda>e. polarity_active polarity (level_at False (stream gate) (te_timestamp_ns e))) (stream events)"
proof -
  let ?c = "\<lparr>egc_node = event_gate_new polarity, egc_events = Some events, egc_gate = Some gate,
    egc_out = Some out\<rparr>"
  have "event_gate_good ?c" "event_gate_remaining ?c < fuel"
    using assms
    by (simp_all add: event_gate_views event_gate_new_def port_pending_def pending_def port_ends_def)
  from event_gate.run_completes [OF this, of 0] show ?thesis
    by (simp add: event_gate_work_def event_gate_views event_gate_spec_def event_gate_new_def
        port_pending_def pending_def)
qed

theorem event_gate_complete_run_witness:
  "\<exists>c n. run_node 6 event_gate_work never_stop
      \<lparr>egc_node = event_gate_new ActiveHigh,
       egc_events = Some \<lparr>rx_queue = [Batch [\<lparr>te_timestamp_ns = 5\<rparr>, \<lparr>te_timestamp_ns = 10\<rparr>],
         Sample_Message \<lparr>te_timestamp_ns = 30\<rparr>, EndOfStream], rx_connected = True, rx_buffer = [], rx_eos = False\<rparr>,
       egc_gate = Some \<lparr>rx_queue = [Sample_Message \<lparr>s_value = True, s_start_time_ns = 10\<rparr>,
         Sample_Message \<lparr>s_value = False, s_start_time_ns = 20\<rparr>], rx_connected = False, rx_buffer = [], rx_eos = False\<rparr>,
       egc_out = Some \<lparr>sent = [], open_port = True\<rparr>\<rparr> 0 = Some (Some Shutdown, c, n) \<and>
    log_of (egc_out c) = [\<lparr>te_timestamp_ns = 10\<rparr>]"
  using event_gate_complete_run [of
      "\<lparr>rx_queue = [Batch [\<lparr>te_timestamp_ns = 5\<rparr>, \<lparr>te_timestamp_ns = 10\<rparr>],
         Sample_Message \<lparr>te_timestamp_ns = 30\<rparr>, EndOfStream], rx_connected = True, rx_buffer = [], rx_eos = False\<rparr>"
      "\<lparr>rx_queue = [Sample_Message \<lparr>s_value = True, s_start_time_ns = 10\<rparr>,
         Sample_Message \<lparr>s_value = False, s_start_time_ns = 20\<rparr>], rx_connected = False, rx_buffer = [], rx_eos = False\<rparr>"
      "\<lparr>sent = [], open_port = True\<rparr>" 6 ActiveHigh]
  by (simp add: stream_def ends_def polarity_active_def)

end
