(* ===== verification/Event_Control.thy ===== *)
theory Event_Control
  imports Node_Runtime Signal_Events
begin

text \<open>
  The event controller, \<^verbatim>\<open>crates/signal_transforms/src/event_control/controller.rs\<close>: delay, hold-off
  and optional manual re-arming of an event stream.
\<close>

section \<open>State\<close>

record event_control =
  ec_name :: string
  ec_delay_ns :: u64
  ec_holdoff_ns :: u64
  ec_manual_rearm :: bool
  ec_armed :: bool
  ec_next_allowed_ns :: u64
  ec_event_head :: "timestamp_event option"
  ec_rearm_head :: "timestamp_event option"
  ec_event_eos :: bool
  ec_rearm_eos :: bool

definition event_control_new :: "u64 \<Rightarrow> u64 \<Rightarrow> bool \<Rightarrow> event_control" where
  "event_control_new delay_ns holdoff_ns manual_rearm =
     \<lparr>ec_name = ''event_control'', ec_delay_ns = delay_ns, ec_holdoff_ns = holdoff_ns,
      ec_manual_rearm = manual_rearm, ec_armed = True, ec_next_allowed_ns = 0,
      ec_event_head = None, ec_rearm_head = None, ec_event_eos = False, ec_rearm_eos = False\<rparr>"

definition event_control_with_name :: "event_control \<Rightarrow> string \<Rightarrow> event_control" where
  "event_control_with_name g name = g\<lparr>ec_name := name\<rparr>"

record event_control_ctx =
  ecc_node :: event_control
  ecc_events :: "timestamp_event receiver option"
  ecc_rearm :: "timestamp_event receiver option"
  ecc_out :: "timestamp_event out_port option"

section \<open>Operations\<close>

definition event_control_input_schema :: "port_schema list" where
  "event_control_input_schema =
     [port_schema_new ''TimestampEvent'' ''events'' 0 Input,
      port_schema_new ''TimestampEvent'' ''rearm'' 1 Input]"

definition event_control_output_schema :: "port_schema list" where
  "event_control_output_schema = [port_schema_new ''TimestampEvent'' ''events'' 0 Output]"

definition event_control_fill_heads ::
    "event_control_ctx \<Rightarrow> (work_error option \<times> event_control_ctx) option" where
  "event_control_fill_heads c =
     (let g = ecc_node c in
      case fill_two ''Missing events input'' (ec_event_head g) (ec_event_eos g) (ecc_events c)
             (ec_manual_rearm g) ''Missing rearm input'' (ec_rearm_head g) (ec_rearm_eos g) (ecc_rearm c) of
        None \<Rightarrow> None
      | Some (err, (event_head, event_eos, events), (rearm_head, rearm_eos, rearm)) \<Rightarrow>
          Some (err, c\<lparr>ecc_node := g\<lparr>ec_event_head := event_head, ec_event_eos := event_eos,
                                      ec_rearm_head := rearm_head, ec_rearm_eos := rearm_eos\<rparr>,
                       ecc_events := events, ecc_rearm := rearm\<rparr>))"

definition rearm_precedes_event :: "event_control \<Rightarrow> bool" where
  "rearm_precedes_event g =
     (ec_manual_rearm g \<and>
      (case ec_rearm_head g of
         None \<Rightarrow> False
       | Some rearm \<Rightarrow>
           (case ec_event_head g of
              None \<Rightarrow> True
            | Some event \<Rightarrow> te_timestamp_ns rearm \<le> te_timestamp_ns event)))"

definition event_control_step :: "event_control_ctx \<Rightarrow> nat work_result \<times> event_control_ctx" where
  "event_control_step c =
     (let g = ecc_node c in
      if ec_event_head g = None \<and> ec_event_eos g then (Inl Shutdown, c)
      else if rearm_precedes_event g then
        (Inr 0, c\<lparr>ecc_node := g\<lparr>ec_rearm_head := None, ec_armed := True\<rparr>\<rparr>)
      else
        case ec_event_head g of None \<Rightarrow> (Inl Panicked, c) | Some event \<Rightarrow>
        let g1 = g\<lparr>ec_event_head := None\<rparr>;
            allowed = (ec_next_allowed_ns g \<le> te_timestamp_ns event \<and>
                       (\<not> ec_manual_rearm g \<or> ec_armed g))
        in if \<not> allowed then (Inr 0, c\<lparr>ecc_node := g1\<rparr>)
           else
             let g2 = g1\<lparr>ec_next_allowed_ns := saturating_add (te_timestamp_ns event) (ec_holdoff_ns g)\<rparr>;
                 g3 = (if ec_manual_rearm g then g2\<lparr>ec_armed := False\<rparr> else g2);
                 c1 = c\<lparr>ecc_node := g3\<rparr>
             in case ecc_out c of
                  None \<Rightarrow> (Inl (NodeError ''Missing events output''), c1)
                | Some out \<Rightarrow>
                    (let (err, out') = send out (timestamp_event_new
                           (saturating_add (te_timestamp_ns event) (ec_delay_ns g)));
                         c2 = c1\<lparr>ecc_out := Some out'\<rparr>
                     in case err of Some e \<Rightarrow> (Inl e, c2) | None \<Rightarrow> (Inr 1, c2)))"

definition event_control_work :: "event_control_ctx work_fun" where
  "event_control_work = fill_then event_control_fill_heads event_control_step"

section \<open>Specification\<close>

text \<open>
  The policy over the merged inputs: which event timestamps pass. A re-arm is \<open>Inl\<close>, an event
  \<open>Inr\<close>.
\<close>

fun passed_times :: "u64 \<Rightarrow> bool \<Rightarrow> bool \<Rightarrow> u64 \<Rightarrow> (timestamp_event + timestamp_event) list \<Rightarrow> u64 list" where
  "passed_times holdoff manual armed next_allowed [] = []"
| "passed_times holdoff manual armed next_allowed (Inl _ # xs) =
     passed_times holdoff manual True next_allowed xs"
| "passed_times holdoff manual armed next_allowed (Inr e # xs) =
     (if next_allowed \<le> te_timestamp_ns e \<and> (\<not> manual \<or> armed)
      then te_timestamp_ns e # passed_times holdoff manual (armed \<and> \<not> manual)
             (saturating_add (te_timestamp_ns e) holdoff) xs
      else passed_times holdoff manual armed next_allowed xs)"

definition delayed :: "u64 \<Rightarrow> u64 list \<Rightarrow> timestamp_event list" where
  "delayed delay_ns = map (\<lambda>t. timestamp_event_new (saturating_add t delay_ns))"

lemma passed_times_ge:
  "t \<in> set (passed_times h m a n xs) \<Longrightarrow> n \<le> t"
proof (induction h m a n xs rule: passed_times.induct)
  case (3 h m a n e xs)
  show ?case
  proof (cases "n \<le> te_timestamp_ns e \<and> (\<not> m \<or> a)")
    case True
    with 3 show ?thesis
      using saturating_add_ge [of "te_timestamp_ns e" h] by force
  next
    case False
    with 3 show ?thesis by auto
  qed
qed auto

text \<open>Passed events are at least the hold-off apart.\<close>

lemma passed_times_spaced:
  "sorted_wrt (\<lambda>t u. saturating_add t h \<le> u) (passed_times h m a n xs)"
  by (induction h m a n xs rule: passed_times.induct) (auto dest: passed_times_ge)

text \<open>With manual re-arming every passed event but the first needs a re-arm of its own.\<close>

lemma passed_times_rearm_bound:
  "length (passed_times h True a n xs) \<le> (if a then 1 else 0) + length (filter isl xs)"
proof (induction h True a n xs rule: passed_times.induct)
  case (3 h a n e xs)
  then show ?case by (auto split: if_splits)
qed auto

lemma passed_times_subseq:
  "subseq (passed_times h m a n xs) (map te_timestamp_ns (map projr (filter (\<lambda>x. \<not> isl x) xs)))"
  by (induction h m a n xs rule: passed_times.induct) auto

section \<open>Refinement\<close>

definition event_control_events :: "event_control_ctx \<Rightarrow> timestamp_event list" where
  "event_control_events c =
     port_pending (ec_event_head (ecc_node c)) (ec_event_eos (ecc_node c)) (ecc_events c)"

definition event_control_rearms :: "event_control_ctx \<Rightarrow> timestamp_event list" where
  "event_control_rearms c = used_pending (ec_manual_rearm (ecc_node c))
     (ec_rearm_head (ecc_node c)) (ec_rearm_eos (ecc_node c)) (ecc_rearm c)"

definition event_control_good :: "event_control_ctx \<Rightarrow> bool" where
  "event_control_good c \<longleftrightarrow> port_ends (ecc_events c) \<and>
     (ec_manual_rearm (ecc_node c) \<longrightarrow> port_ends (ecc_rearm c)) \<and> accepting (ecc_out c)"

definition event_control_ready :: "event_control_ctx \<Rightarrow> bool" where
  "event_control_ready c \<longleftrightarrow>
     head_ready (ec_event_head (ecc_node c)) (ec_event_eos (ecc_node c)) \<and>
     (ec_manual_rearm (ecc_node c) \<longrightarrow>
        head_ready (ec_rearm_head (ecc_node c)) (ec_rearm_eos (ecc_node c)))"

definition event_control_merged :: "event_control_ctx \<Rightarrow> (timestamp_event + timestamp_event) list" where
  "event_control_merged c = merge_aux te_timestamp_ns te_timestamp_ns
     (event_control_rearms c) (event_control_events c)"

definition event_control_to_come :: "event_control_ctx \<Rightarrow> timestamp_event list" where
  "event_control_to_come c =
     (let g = ecc_node c in
      delayed (ec_delay_ns g) (passed_times (ec_holdoff_ns g) (ec_manual_rearm g) (ec_armed g)
        (ec_next_allowed_ns g) (event_control_merged c)))"

definition event_control_remaining :: "event_control_ctx \<Rightarrow> nat" where
  "event_control_remaining c = length (event_control_events c) + length (event_control_rearms c)"

lemmas event_control_views = event_control_events_def event_control_rearms_def
  event_control_good_def event_control_merged_def event_control_to_come_def
  event_control_remaining_def Let_def

lemma event_control_fill_heads_total:
  assumes "event_control_good c"
  shows "event_control_fill_heads c \<noteq> None"
  using assms fill_two_total [of "ecc_events c" "ec_manual_rearm (ecc_node c)" "ecc_rearm c"]
  by (auto simp: event_control_fill_heads_def event_control_good_def Let_def split: option.splits)

lemma event_control_fill_heads_keeps:
  assumes "event_control_good c" "event_control_fill_heads c = Some (err, c1)"
  shows "err = None \<and> event_control_good c1 \<and> event_control_ready c1 \<and>
    event_control_remaining c1 = event_control_remaining c \<and>
    log_of (ecc_out c1) = log_of (ecc_out c) \<and> event_control_to_come c1 = event_control_to_come c"
proof -
  let ?g = "ecc_node c"
  from assms(2) obtain h e r h' e' r' where
    f: "fill_two ''Missing events input'' (ec_event_head ?g) (ec_event_eos ?g) (ecc_events c)
          (ec_manual_rearm ?g) ''Missing rearm input'' (ec_rearm_head ?g) (ec_rearm_eos ?g)
          (ecc_rearm c) = Some (err, (h, e, r), (h', e', r'))"
    and c1: "c1 = c\<lparr>ecc_node := ?g\<lparr>ec_event_head := h, ec_event_eos := e, ec_rearm_head := h',
      ec_rearm_eos := e'\<rparr>, ecc_events := r, ecc_rearm := r'\<rparr>"
    by (auto simp: event_control_fill_heads_def Let_def split: option.splits)
  have "port_ends (ecc_events c)" "ec_manual_rearm ?g \<Longrightarrow> port_ends (ecc_rearm c)"
    using assms(1) by (auto simp: event_control_good_def)
  from fill_twoD [OF f this] assms(1) show ?thesis
    by (simp add: c1 event_control_views event_control_ready_def used_pending_def)
qed

lemma event_control_step_refines:
  assumes good: "event_control_good c" and ready: "event_control_ready c"
    and step: "event_control_step c = (res, c')"
  shows "(case res of
      Inr n \<Rightarrow> event_control_good c' \<and> event_control_remaining c' < event_control_remaining c \<and>
        log_of (ecc_out c') @ event_control_to_come c' = log_of (ecc_out c) @ event_control_to_come c
    | Inl e \<Rightarrow> e = Shutdown \<and> log_of (ecc_out c') = log_of (ecc_out c) @ event_control_to_come c)"
proof -
  let ?g = "ecc_node c"
  obtain out where out: "ecc_out c = Some out" "open_port out"
    using good by (auto simp: event_control_good_def accepting_def)
  have ports: "port_ends (ecc_events c)" "head_ready (ec_event_head ?g) (ec_event_eos ?g)"
    "ec_manual_rearm ?g \<longrightarrow> port_ends (ecc_rearm c)"
    "ec_manual_rearm ?g \<longrightarrow> head_ready (ec_rearm_head ?g) (ec_rearm_eos ?g)"
    using good ready by (auto simp: event_control_good_def event_control_ready_def)
  show ?thesis
  proof (cases rule: merge_heads_cases [OF ports, where fa = te_timestamp_ns and fm = te_timestamp_ns,
        case_names finished aux main])
    case finished
    with step show ?thesis
      by (auto simp: event_control_step_def event_control_views delayed_def)
  next
    case (aux a m)
    with step good show ?thesis
      by (auto simp: event_control_step_def rearm_precedes_event_def event_control_views)
  next
    case (main m)
    with step good out show ?thesis
      by (auto simp: event_control_step_def rearm_precedes_event_def event_control_views
          delayed_def port_simps split: if_splits option.splits)
  qed
qed

interpretation event_control: filling_node event_control_fill_heads event_control_step
  event_control_good event_control_ready event_control_remaining
  "\<lambda>c. log_of (ecc_out c)" "\<lambda>c. log_of (ecc_out c) @ event_control_to_come c"
  by unfold_locales
    (use event_control_fill_heads_total event_control_fill_heads_keeps event_control_step_refines
     in \<open>fastforce+\<close>)

section \<open>Properties\<close>

text \<open>
  C28: On finite inputs the scheduler's loop over a fresh event controller ends with the regular
  shutdown; the output is the events the policy passes on the merged inputs (re-arms first on
  equal timestamps), each delayed by \<open>delay_ns\<close>. The passed events are a subsequence of the
  input, at least the hold-off apart, and with manual re-arming every one but the first has a
  re-arm of its own.
\<close>
theorem event_control_complete_run:
  assumes "ends events" "manual \<longrightarrow> ends rearm" "open_port out"
    and "length (stream events) + length (stream rearm) < fuel"
  shows "\<exists>c n ts. run_node fuel event_control_work never_stop
      \<lparr>ecc_node = event_control_new delay holdoff manual, ecc_events = Some events,
       ecc_rearm = Some rearm, ecc_out = Some out\<rparr> 0 = Some (Some Shutdown, c, n) \<and>
    log_of (ecc_out c) = sent out @ delayed delay ts \<and>
    ts = passed_times holdoff manual True 0 (merge_aux te_timestamp_ns te_timestamp_ns
      (if manual then stream rearm else []) (stream events)) \<and>
    subseq ts (map te_timestamp_ns (stream events)) \<and>
    sorted_wrt (\<lambda>t u. saturating_add t holdoff \<le> u) ts \<and>
    (if manual then length ts \<le> 1 + length (stream rearm) else True)"
proof -
  let ?c = "\<lparr>ecc_node = event_control_new delay holdoff manual, ecc_events = Some events,
    ecc_rearm = Some rearm, ecc_out = Some out\<rparr>"
  have "event_control_good ?c" "event_control_remaining ?c < fuel"
    using assms by (auto simp: event_control_views event_control_new_def port_pending_def pending_def
        used_pending_def port_ends_def)
  note run = event_control.run_completes [OF this, of 0]
  define merged where "merged = merge_aux te_timestamp_ns te_timestamp_ns
    (if manual then stream rearm else []) (stream events)"
  define ts where "ts = passed_times holdoff manual True 0 merged"
  have to_come: "event_control_to_come ?c = delayed delay ts"
    by (cases manual) (simp_all add: ts_def merged_def event_control_views event_control_new_def
        port_pending_def pending_def used_pending_def)
  have bound: "if manual then length ts \<le> 1 + length (stream rearm) else True"
    using passed_times_rearm_bound [of holdoff True 0 merged]
      merge_aux_aux_length [of te_timestamp_ns te_timestamp_ns "stream rearm" "stream events"]
    by (cases manual) (simp_all add: ts_def merged_def)
  have sub: "subseq ts (map te_timestamp_ns (stream events))"
    using passed_times_subseq [of holdoff manual True 0 merged]
    by (simp only: ts_def merged_def merge_aux_main)
  have spaced: "sorted_wrt (\<lambda>t u. saturating_add t holdoff \<le> u) ts"
    unfolding ts_def by (rule passed_times_spaced)
  from run obtain c n where
    "run_node fuel (fill_then event_control_fill_heads event_control_step) never_stop ?c 0 =
       Some (Some Shutdown, c, n)"
    "log_of (ecc_out c) = sent out @ delayed delay ts" using to_come by auto
  with bound sub spaced show ?thesis
    unfolding event_control_work_def ts_def merged_def by blast
qed

theorem event_control_complete_run_witness:
  "\<exists>c n ts. run_node 6 event_control_work never_stop
      \<lparr>ecc_node = event_control_new 3 10 True,
       ecc_events = Some \<lparr>rx_queue = [Batch [\<lparr>te_timestamp_ns = 5\<rparr>, \<lparr>te_timestamp_ns = 20\<rparr>, \<lparr>te_timestamp_ns = 40\<rparr>],
         EndOfStream], rx_connected = True, rx_buffer = [], rx_eos = False\<rparr>,
       ecc_rearm = Some \<lparr>rx_queue = [Sample_Message \<lparr>te_timestamp_ns = 25\<rparr>], rx_connected = False,
         rx_buffer = [], rx_eos = False\<rparr>,
       ecc_out = Some \<lparr>sent = [], open_port = True\<rparr>\<rparr> 0 = Some (Some Shutdown, c, n) \<and>
    log_of (ecc_out c) = [\<lparr>te_timestamp_ns = 8\<rparr>, \<lparr>te_timestamp_ns = 43\<rparr>] \<and> ts = [5 :: u64, 40]"
  using event_control_complete_run [of
      "\<lparr>rx_queue = [Batch [\<lparr>te_timestamp_ns = 5\<rparr>, \<lparr>te_timestamp_ns = 20\<rparr>, \<lparr>te_timestamp_ns = 40\<rparr>],
         EndOfStream], rx_connected = True, rx_buffer = [], rx_eos = False\<rparr>" True
      "\<lparr>rx_queue = [Sample_Message \<lparr>te_timestamp_ns = 25\<rparr>], rx_connected = False,
         rx_buffer = [], rx_eos = False\<rparr>"
      "\<lparr>sent = [], open_port = True\<rparr>" 6 3 10]
  by (simp add: stream_def ends_def delayed_def timestamp_event_new_def saturating_add_def)

end
