(* ===== verification/Word_Matcher.thy ===== *)
theory Word_Matcher
  imports Node_Runtime Signal_Events "HOL-Library.Multiset"
begin

text \<open>
  The word matcher, \<^verbatim>\<open>crates/signal_transforms/src/word_matcher/matcher.rs\<close>: its predicate, its live
  and scheduled reconfiguration, and the matching policy (match count, hold-off, manual re-arm,
  visualization pulses). The matcher's settings and policy state are grouped in the record
  \<open>matcher_policy\<close>; the heads of the two merged inputs stand beside it. Configuration text is
  ASCII; a configuration is the list of its entries in the iteration order of the hash map.
\<close>

section \<open>Settings\<close>

datatype match_op = Op_Eq | Op_Ne | Op_Lt | Op_Le | Op_Gt | Op_Ge

definition match_op_matches :: "match_op \<Rightarrow> u64 \<Rightarrow> u64 \<Rightarrow> bool" where
  "match_op_matches op word pattern =
     (case op of
        Op_Eq \<Rightarrow> word = pattern
      | Op_Ne \<Rightarrow> word \<noteq> pattern
      | Op_Lt \<Rightarrow> word < pattern
      | Op_Le \<Rightarrow> word \<le> pattern
      | Op_Gt \<Rightarrow> word > pattern
      | Op_Ge \<Rightarrow> word \<ge> pattern)"

definition match_op_parse :: "string \<Rightarrow> match_op option" where
  "match_op_parse name =
     (if name = ''eq'' then Some Op_Eq
      else if name = ''ne'' then Some Op_Ne
      else if name = ''lt'' then Some Op_Lt
      else if name = ''le'' then Some Op_Le
      else if name = ''gt'' then Some Op_Gt
      else if name = ''ge'' then Some Op_Ge
      else None)"

datatype match_timestamp = Start | End

definition match_timestamp_parse :: "string \<Rightarrow> match_timestamp option" where
  "match_timestamp_parse name =
     (if name = ''start'' then Some Start else if name = ''end'' then Some End else None)"

datatype predicate_mode = Compare | InclusiveRange | Set_Mode

definition predicate_mode_parse :: "string \<Rightarrow> predicate_mode option" where
  "predicate_mode_parse name =
     (if name = ''compare'' then Some Compare
      else if name = ''range'' then Some InclusiveRange
      else if name = ''set'' then Some Set_Mode
      else None)"

record matcher_settings =
  ms_pattern :: u64
  ms_mask :: u64
  ms_op :: match_op
  ms_match_timestamp :: match_timestamp
  ms_predicate_mode :: predicate_mode
  ms_range_min :: u64
  ms_range_max :: u64
  ms_set_values :: "u64 list"
  ms_match_count :: u64
  ms_holdoff_ns :: u64

definition matcher_settings_default :: matcher_settings where
  "matcher_settings_default =
     \<lparr>ms_pattern = 0, ms_mask = 0, ms_op = Op_Eq, ms_match_timestamp = End,
      ms_predicate_mode = Compare, ms_range_min = 0, ms_range_max = 0, ms_set_values = [],
      ms_match_count = 0, ms_holdoff_ns = 0\<rparr>"

subsection \<open>Parsing the set of values\<close>

definition digit_value :: "nat \<Rightarrow> char \<Rightarrow> nat option" where
  "digit_value radix c =
     (let n = (of_char c :: nat);
          d = (if 48 \<le> n \<and> n \<le> 57 then Some (n - 48)
               else if 97 \<le> n \<and> n \<le> 122 then Some (n - 87)
               else if 65 \<le> n \<and> n \<le> 90 then Some (n - 55)
               else None)
      in case d of None \<Rightarrow> None | Some v \<Rightarrow> if v < radix then Some v else None)"

fun parse_digits :: "nat \<Rightarrow> nat \<Rightarrow> string \<Rightarrow> u64 option" where
  "parse_digits radix acc [] = Some (of_nat acc)"
| "parse_digits radix acc (c # cs) =
     (case digit_value radix c of
        None \<Rightarrow> None
      | Some d \<Rightarrow>
          (let acc' = acc * radix + d
           in if acc' < 2 ^ 64 then parse_digits radix acc' cs else None))"

definition u64_from_str_radix :: "nat \<Rightarrow> string \<Rightarrow> u64 option" where
  "u64_from_str_radix radix s =
     (case s of
        [] \<Rightarrow> None
      | c # cs \<Rightarrow>
          if c = CHR ''+'' then (if cs = [] then None else parse_digits radix 0 cs)
          else parse_digits radix 0 s)"

fun split_on :: "char \<Rightarrow> string \<Rightarrow> string list" where
  "split_on sep [] = [[]]"
| "split_on sep (c # cs) =
     (if c = sep then [] # split_on sep cs
      else case split_on sep cs of
        [] \<Rightarrow> [[c]]
      | piece # pieces \<Rightarrow> (c # piece) # pieces)"

definition is_ascii_whitespace :: "char \<Rightarrow> bool" where
  "is_ascii_whitespace c \<longleftrightarrow> (of_char c :: nat) \<in> {9, 10, 11, 12, 13, 32}"

definition trim :: "string \<Rightarrow> string" where
  "trim s = rev (dropWhile is_ascii_whitespace (rev (dropWhile is_ascii_whitespace s)))"

definition strip_prefix :: "string \<Rightarrow> string \<Rightarrow> string option" where
  "strip_prefix p s = (if take (length p) s = p then Some (drop (length p) s) else None)"

definition parse_set_value :: "string \<Rightarrow> u64 option" where
  "parse_set_value value =
     (case (case strip_prefix ''0x'' value of
              Some hex \<Rightarrow> Some hex
            | None \<Rightarrow> strip_prefix ''0X'' value) of
        None \<Rightarrow> u64_from_str_radix 10 value
      | Some hex \<Rightarrow> u64_from_str_radix 16 hex)"

definition parse_set_values :: "string \<Rightarrow> u64 list option" where
  "parse_set_values values =
     those (map parse_set_value (filter (\<lambda>v. v \<noteq> []) (map trim (split_on (CHR '','') values))))"

subsection \<open>Applying a configuration\<close>

datatype config_value = U64_Value u64 | I64_Value "64 word" | Bool_Value bool | Text_Value string

type_synonym node_config = "(string \<times> config_value) list"

definition configure_entry :: "string \<times> config_value \<Rightarrow> matcher_settings \<Rightarrow> matcher_settings option" where
  "configure_entry entry settings =
     (case entry of
        (key, U64_Value n) \<Rightarrow>
          (if key = ''pattern'' then Some (settings\<lparr>ms_pattern := n\<rparr>)
           else if key = ''mask'' then Some (settings\<lparr>ms_mask := n\<rparr>)
           else if key = ''range_min'' then Some (settings\<lparr>ms_range_min := n\<rparr>)
           else if key = ''range_max'' then Some (settings\<lparr>ms_range_max := n\<rparr>)
           else if key = ''match_count'' \<and> 0 < n then Some (settings\<lparr>ms_match_count := n\<rparr>)
           else if key = ''holdoff_ns'' then Some (settings\<lparr>ms_holdoff_ns := n\<rparr>)
           else None)
      | (key, Text_Value t) \<Rightarrow>
          (if key = ''op'' then map_option (\<lambda>op. settings\<lparr>ms_op := op\<rparr>) (match_op_parse t)
           else if key = ''trigger_at''
             then map_option (\<lambda>at. settings\<lparr>ms_match_timestamp := at\<rparr>) (match_timestamp_parse t)
           else if key = ''predicate''
             then map_option (\<lambda>p. settings\<lparr>ms_predicate_mode := p\<rparr>) (predicate_mode_parse t)
           else if key = ''set''
             then map_option (\<lambda>vs. settings\<lparr>ms_set_values := vs\<rparr>) (parse_set_values t)
           else None)
      | _ \<Rightarrow> None)"

fun configured_settings :: "matcher_settings \<Rightarrow> node_config \<Rightarrow> matcher_settings option" where
  "configured_settings settings [] = Some settings"
| "configured_settings settings (entry # config) =
     (case configure_entry entry settings of
        None \<Rightarrow> None
      | Some settings' \<Rightarrow> configured_settings settings' config)"

section \<open>State\<close>

record configuration_boundary =
  cb_sample_index :: u64
  cb_timestamp_ns :: u64

record matcher_policy =
  mp_settings :: matcher_settings
  mp_manual_rearm :: bool
  mp_armed :: bool
  mp_next_allowed_ns :: u64
  mp_eligible_matches :: u64
  mp_pulse_ns :: u64
  mp_matches :: u64
  mp_last_pulse_end :: u64
  mp_started :: bool
  mp_scheduled :: "(configuration_boundary \<times> node_config) list"

record word_matcher =
  wm_name :: string
  wm_policy :: matcher_policy
  wm_word_head :: "decoded_word option"
  wm_rearm_head :: "timestamp_event option"
  wm_word_eos :: bool
  wm_rearm_eos :: bool

definition word_matcher_new :: "u64 \<Rightarrow> u64 \<Rightarrow> word_matcher" where
  "word_matcher_new pattern mask_bits =
     \<lparr>wm_name = ''word_matcher'',
      wm_policy =
        \<lparr>mp_settings =
           \<lparr>ms_pattern = pattern, ms_mask = mask_bits, ms_op = Op_Eq, ms_match_timestamp = End,
            ms_predicate_mode = Compare, ms_range_min = 0, ms_range_max = - 1,
            ms_set_values = [], ms_match_count = 1, ms_holdoff_ns = 0\<rparr>,
         mp_manual_rearm = False, mp_armed = True, mp_next_allowed_ns = 0,
         mp_eligible_matches = 0, mp_pulse_ns = 1000, mp_matches = 0, mp_last_pulse_end = 0,
         mp_started = False, mp_scheduled = []\<rparr>,
      wm_word_head = None, wm_rearm_head = None, wm_word_eos = False, wm_rearm_eos = False\<rparr>"

definition map_policy :: "(matcher_policy \<Rightarrow> matcher_policy) \<Rightarrow> word_matcher \<Rightarrow> word_matcher" where
  "map_policy f m = m\<lparr>wm_policy := f (wm_policy m)\<rparr>"

definition map_settings :: "(matcher_settings \<Rightarrow> matcher_settings) \<Rightarrow> matcher_policy \<Rightarrow> matcher_policy" where
  "map_settings f p = p\<lparr>mp_settings := f (mp_settings p)\<rparr>"

definition with_op :: "match_op \<Rightarrow> word_matcher \<Rightarrow> word_matcher" where
  "with_op op = map_policy (map_settings (\<lambda>s. s\<lparr>ms_op := op\<rparr>))"

definition with_match_timestamp :: "match_timestamp \<Rightarrow> word_matcher \<Rightarrow> word_matcher" where
  "with_match_timestamp at = map_policy (map_settings (\<lambda>s. s\<lparr>ms_match_timestamp := at\<rparr>))"

definition with_inclusive_range :: "u64 \<Rightarrow> u64 \<Rightarrow> word_matcher \<Rightarrow> word_matcher" where
  "with_inclusive_range minimum maximum = map_policy (map_settings
     (\<lambda>s. s\<lparr>ms_predicate_mode := InclusiveRange, ms_range_min := minimum, ms_range_max := maximum\<rparr>))"

definition with_set :: "u64 list \<Rightarrow> word_matcher \<Rightarrow> word_matcher" where
  "with_set vs = map_policy (map_settings
     (\<lambda>s. s\<lparr>ms_predicate_mode := Set_Mode, ms_set_values := vs\<rparr>))"

definition with_match_count :: "u64 \<Rightarrow> word_matcher \<Rightarrow> word_matcher" where
  "with_match_count n = map_policy (map_settings (\<lambda>s. s\<lparr>ms_match_count := max n 1\<rparr>))"

definition with_holdoff_ns :: "u64 \<Rightarrow> word_matcher \<Rightarrow> word_matcher" where
  "with_holdoff_ns n = map_policy (map_settings (\<lambda>s. s\<lparr>ms_holdoff_ns := n\<rparr>))"

definition with_manual_rearm :: "bool \<Rightarrow> word_matcher \<Rightarrow> word_matcher" where
  "with_manual_rearm b = map_policy (\<lambda>p. p\<lparr>mp_manual_rearm := b\<rparr>)"

definition with_pulse_ns :: "u64 \<Rightarrow> word_matcher \<Rightarrow> word_matcher" where
  "with_pulse_ns n = map_policy (\<lambda>p. p\<lparr>mp_pulse_ns := max n 1\<rparr>)"

datatype config_outcome = Applied | NeedsRestart

definition apply_settings :: "matcher_settings \<Rightarrow> matcher_policy \<Rightarrow> matcher_policy" where
  "apply_settings settings p =
     p\<lparr>mp_settings := settings\<lparr>ms_match_count := max (ms_match_count settings) 1\<rparr>\<rparr>"

definition apply_config :: "node_config \<Rightarrow> matcher_policy \<Rightarrow> config_outcome \<times> matcher_policy" where
  "apply_config config p =
     (case configured_settings (mp_settings p) config of
        None \<Rightarrow> (NeedsRestart, p)
      | Some settings \<Rightarrow> (Applied, apply_settings settings p))"

definition schedule_config :: "node_config \<Rightarrow> configuration_boundary \<Rightarrow> matcher_policy \<Rightarrow>
    config_outcome \<times> matcher_policy" where
  "schedule_config config boundary p =
     (if configured_settings matcher_settings_default config = None then (NeedsRestart, p)
      else if mp_scheduled p \<noteq> [] \<and>
              cb_timestamp_ns (fst (last (mp_scheduled p))) > cb_timestamp_ns boundary
      then (NeedsRestart, p)
      else (Applied, p\<lparr>mp_scheduled := mp_scheduled p @ [(boundary, config)]\<rparr>))"

text \<open>The due configurations are applied in order; an invalid one is a panic (\<open>None\<close>).\<close>

fun apply_due :: "node_config list \<Rightarrow> matcher_policy \<Rightarrow> matcher_policy option" where
  "apply_due [] p = Some p"
| "apply_due (config # due) p =
     (case configured_settings (mp_settings p) config of
        None \<Rightarrow> None
      | Some settings \<Rightarrow> apply_due due (apply_settings settings p))"

definition apply_scheduled_settings :: "u64 \<Rightarrow> matcher_policy \<Rightarrow> matcher_policy option" where
  "apply_scheduled_settings timestamp_ns p =
     (let is_due = (\<lambda>(boundary, _). cb_timestamp_ns boundary \<le> timestamp_ns)
      in apply_due (map snd (takeWhile is_due (mp_scheduled p)))
           (p\<lparr>mp_scheduled := dropWhile is_due (mp_scheduled p)\<rparr>))"

section \<open>Matching\<close>

definition predicate_matches :: "matcher_settings \<Rightarrow> u64 \<Rightarrow> bool" where
  "predicate_matches s word_value =
     (let value = word_value AND ms_mask s in
      case ms_predicate_mode s of
        Compare \<Rightarrow> match_op_matches (ms_op s) value (ms_pattern s AND ms_mask s)
      | InclusiveRange \<Rightarrow>
          (let minimum = ms_range_min s AND ms_mask s;
               maximum = ms_range_max s AND ms_mask s
           in minimum \<le> maximum \<and> minimum \<le> value \<and> value \<le> maximum)
      | Set_Mode \<Rightarrow> (\<exists>candidate\<in>set (ms_set_values s). candidate AND ms_mask s = value))"

definition match_time :: "matcher_settings \<Rightarrow> decoded_word \<Rightarrow> u64" where
  "match_time s word = (case ms_match_timestamp s of Start \<Rightarrow> w_timestamp_ns word | End \<Rightarrow> end_ns word)"

text \<open>Whether a word is reported as a match, and at which time.\<close>

definition decide_match :: "matcher_policy \<Rightarrow> decoded_word \<Rightarrow> u64 option \<times> matcher_policy" where
  "decide_match p word =
     (let s = mp_settings p in
      if predicate_matches s (w_value word) then
        (let ts = match_time s word in
         if ts < mp_next_allowed_ns p \<or> (mp_manual_rearm p \<and> \<not> mp_armed p) then (None, p)
         else
           let eligible = saturating_add (mp_eligible_matches p) 1;
               p1 = p\<lparr>mp_eligible_matches := eligible\<rparr>
           in if eligible < ms_match_count s then (None, p1)
              else
                let p2 = p1\<lparr>mp_eligible_matches := 0,
                            mp_next_allowed_ns := saturating_add ts (ms_holdoff_ns s)\<rparr>;
                    p3 = (if mp_manual_rearm p then p2\<lparr>mp_armed := False\<rparr> else p2)
                in (Some ts, p3\<lparr>mp_matches := mp_matches p3 + 1\<rparr>))
      else (None, p))"

record word_matcher_ctx =
  wmc_node :: word_matcher
  wmc_words :: "decoded_word receiver option"
  wmc_rearm :: "timestamp_event receiver option"
  wmc_match :: "timestamp_event out_port option"
  wmc_pulse :: "sample out_port option"
  wmc_word_out :: "decoded_word out_port option"

definition word_matcher_input_schema :: "port_schema list" where
  "word_matcher_input_schema =
     [port_schema_new ''Word'' ''words'' 0 Input,
      port_schema_new ''TimestampEvent'' ''rearm'' 1 Input]"

definition word_matcher_output_schema :: "port_schema list" where
  "word_matcher_output_schema =
     [port_schema_new ''TimestampEvent'' ''match'' 0 Output,
      port_schema_state ''Sample'' ''matched'' 1 Output,
      with_default_buffer_capacity 8 (port_schema_new ''Word'' ''matching_words'' 2 Output)]"

definition word_matcher_fill_heads :: "word_matcher_ctx \<Rightarrow> (work_error option \<times> word_matcher_ctx) option" where
  "word_matcher_fill_heads c =
     (let m = wmc_node c in
      case fill_two ''Missing words input'' (wm_word_head m) (wm_word_eos m) (wmc_words c)
             (mp_manual_rearm (wm_policy m)) ''Missing rearm input''
             (wm_rearm_head m) (wm_rearm_eos m) (wmc_rearm c) of
        None \<Rightarrow> None
      | Some (err, (word_head, word_eos, words), (rearm_head, rearm_eos, rearm)) \<Rightarrow>
          Some (err, c\<lparr>wmc_node := m\<lparr>wm_word_head := word_head, wm_word_eos := word_eos,
                                      wm_rearm_head := rearm_head, wm_rearm_eos := rearm_eos\<rparr>,
                       wmc_words := words, wmc_rearm := rearm\<rparr>))"

definition rearm_precedes_word :: "word_matcher \<Rightarrow> bool" where
  "rearm_precedes_word m =
     (mp_manual_rearm (wm_policy m) \<and>
      (case wm_rearm_head m of
         None \<Rightarrow> False
       | Some rearm \<Rightarrow>
           (case wm_word_head m of
              None \<Rightarrow> True
            | Some word \<Rightarrow> te_timestamp_ns rearm \<le> w_timestamp_ns word)))"

definition set_policy :: "matcher_policy \<Rightarrow> word_matcher_ctx \<Rightarrow> word_matcher_ctx" where
  "set_policy p c = c\<lparr>wmc_node := (wmc_node c)\<lparr>wm_policy := p\<rparr>\<rparr>"

text \<open>The pulse of one match: two samples, unless it would overlap the previous pulse.\<close>

definition emit_pulse :: "u64 \<Rightarrow> word_matcher_ctx \<Rightarrow> work_error option \<times> word_matcher_ctx" where
  "emit_pulse ts c =
     (let p = wm_policy (wmc_node c) in
      case wmc_pulse c of
        None \<Rightarrow> (None, c)
      | Some port \<Rightarrow>
          if mp_last_pulse_end p \<le> ts then
            (case send port (sample_new True ts) of
               (Some e, port1) \<Rightarrow> (Some e, c\<lparr>wmc_pulse := Some port1\<rparr>)
             | (None, port1) \<Rightarrow>
                 (case send port1 (sample_new False (ts + mp_pulse_ns p)) of
                    (Some e, port2) \<Rightarrow> (Some e, c\<lparr>wmc_pulse := Some port2\<rparr>)
                  | (None, port2) \<Rightarrow>
                      (None, set_policy (p\<lparr>mp_last_pulse_end := ts + mp_pulse_ns p\<rparr>)
                               (c\<lparr>wmc_pulse := Some port2\<rparr>))))
          else (None, c))"

definition emit_match :: "decoded_word \<Rightarrow> u64 \<Rightarrow> word_matcher_ctx \<Rightarrow> nat work_result \<times> word_matcher_ctx" where
  "emit_match word ts c =
     (case send_opt (wmc_match c) (timestamp_event_new ts) of
        (Some e, port) \<Rightarrow> (Inl e, c\<lparr>wmc_match := port\<rparr>)
      | (None, port) \<Rightarrow>
          (case emit_pulse ts (c\<lparr>wmc_match := port\<rparr>) of
             (Some e, c1) \<Rightarrow> (Inl e, c1)
           | (None, c1) \<Rightarrow>
               (case send_opt (wmc_word_out c1) word of
                  (Some e, port') \<Rightarrow> (Inl e, c1\<lparr>wmc_word_out := port'\<rparr>)
                | (None, port') \<Rightarrow> (Inr 1, c1\<lparr>wmc_word_out := port'\<rparr>))))"

text \<open>The level-stream contract of the pulse lane: low at time zero, sent before the first word.\<close>

definition emit_start :: "word_matcher_ctx \<Rightarrow> work_error option \<times> word_matcher_ctx" where
  "emit_start c =
     (let p = wm_policy (wmc_node c) in
      if mp_started p then (None, c)
      else
        case send_opt (wmc_pulse c) (sample_new False 0) of
          (err, port) \<Rightarrow> (err, set_policy (p\<lparr>mp_started := True\<rparr>) (c\<lparr>wmc_pulse := port\<rparr>)))"

definition word_matcher_step :: "word_matcher_ctx \<Rightarrow> nat work_result \<times> word_matcher_ctx" where
  "word_matcher_step c =
     (let m = wmc_node c in
      if wm_word_head m = None \<and> wm_word_eos m then (Inl Shutdown, c)
      else if rearm_precedes_word m then
        (Inr 0, c\<lparr>wmc_node := m\<lparr>wm_rearm_head := None,
          wm_policy := (wm_policy m)\<lparr>mp_armed := True, mp_eligible_matches := 0\<rparr>\<rparr>\<rparr>)
      else
        case emit_start c of
          (Some e, c1) \<Rightarrow> (Inl e, c1)
        | (None, c1) \<Rightarrow>
            (case wm_word_head m of
               None \<Rightarrow> (Inl Panicked, c1)
             | Some word \<Rightarrow>
                 (let c2 = c1\<lparr>wmc_node := (wmc_node c1)\<lparr>wm_word_head := None\<rparr>\<rparr> in
                  case apply_scheduled_settings (w_timestamp_ns word) (wm_policy (wmc_node c2)) of
                    None \<Rightarrow> (Inl Panicked, c2)
                  | Some p \<Rightarrow>
                      (case decide_match p word of
                         (None, p') \<Rightarrow> (Inr 0, set_policy p' c2)
                       | (Some ts, p') \<Rightarrow> emit_match word ts (set_policy p' c2)))))"

definition word_matcher_work :: "word_matcher_ctx work_fun" where
  "word_matcher_work = fill_then word_matcher_fill_heads word_matcher_step"

section \<open>Configuration: validity does not depend on the settings\<close>

definition entry_valid :: "string \<times> config_value \<Rightarrow> bool" where
  "entry_valid entry \<longleftrightarrow> configure_entry entry matcher_settings_default \<noteq> None"

lemma configure_entry_None:
  "configure_entry entry s = None \<longleftrightarrow> \<not> entry_valid entry"
  by (cases entry; cases "snd entry") (auto simp: entry_valid_def configure_entry_def)

lemma configured_settings_None:
  "configured_settings s config = None \<longleftrightarrow> \<not> list_all entry_valid config"
proof (induction config arbitrary: s)
  case Nil
  then show ?case by simp
next
  case (Cons e config)
  then show ?case
    using configure_entry_None [of e s] by (auto split: option.splits)
qed

text \<open>
  The settings after a configuration, field by field: the value of the entry with the field's
  key, or the old value.
\<close>

lemma configured_field:
  assumes "\<And>e s s'. configure_entry e s = Some s' \<Longrightarrow>
      get s' = (if fst e = key then val (snd e) else get s)"
    and "configured_settings s config = Some s'" "distinct (map fst config)"
  shows "get s' = (case map_of config key of Some v \<Rightarrow> val v | None \<Rightarrow> get s)"
  using assms(2,3)
proof (induction config arbitrary: s)
  case Nil
  then show ?case by simp
next
  case (Cons e config)
  then obtain s1 where s1: "configure_entry e s = Some s1" "configured_settings s1 config = Some s'"
    by (auto split: option.splits)
  note IH = Cons.IH [OF s1(2)]
  show ?case
  proof (cases "fst e = key")
    case True
    then have "map_of config key = None"
      using Cons.prems(2) by (auto simp: map_of_eq_None_iff)
    with True IH Cons.prems(2) assms(1) [OF s1(1)] show ?thesis
      by (cases e) simp
  next
    case False
    then have "get s1 = get s" using assms(1) [OF s1(1)] by simp
    with False IH Cons.prems(2) show ?thesis
      by (cases e) (simp split: option.splits)
  qed
qed

definition u64_of :: "config_value \<Rightarrow> u64" where
  "u64_of v = (case v of U64_Value n \<Rightarrow> n | _ \<Rightarrow> 0)"

definition text_of :: "config_value \<Rightarrow> string" where
  "text_of v = (case v of Text_Value t \<Rightarrow> t | _ \<Rightarrow> [])"

lemma configure_entry_fields:
  assumes "configure_entry e s = Some s'"
  shows "ms_pattern s' = (if fst e = ''pattern'' then u64_of (snd e) else ms_pattern s)"
    "ms_mask s' = (if fst e = ''mask'' then u64_of (snd e) else ms_mask s)"
    "ms_op s' = (if fst e = ''op'' then the (match_op_parse (text_of (snd e))) else ms_op s)"
    "ms_match_timestamp s' = (if fst e = ''trigger_at''
       then the (match_timestamp_parse (text_of (snd e))) else ms_match_timestamp s)"
    "ms_predicate_mode s' = (if fst e = ''predicate''
       then the (predicate_mode_parse (text_of (snd e))) else ms_predicate_mode s)"
    "ms_range_min s' = (if fst e = ''range_min'' then u64_of (snd e) else ms_range_min s)"
    "ms_range_max s' = (if fst e = ''range_max'' then u64_of (snd e) else ms_range_max s)"
    "ms_set_values s' = (if fst e = ''set''
       then the (parse_set_values (text_of (snd e))) else ms_set_values s)"
    "ms_match_count s' = (if fst e = ''match_count'' then u64_of (snd e) else ms_match_count s)"
    "ms_holdoff_ns s' = (if fst e = ''holdoff_ns'' then u64_of (snd e) else ms_holdoff_ns s)"
  using assms
  by (cases e; cases "snd e"; force simp: configure_entry_def u64_of_def text_of_def split: if_splits)+

lemma configured_settings_cong:
  assumes "mset config = mset config'" "distinct (map fst config)"
  shows "configured_settings s config = configured_settings s config'"
proof -
  have set_eq: "set config = set config'" using assms(1) by (rule mset_eq_setD)
  have d': "distinct (map fst config')"
    using assms by (metis mset_eq_imp_distinct_iff mset_map)
  have maps: "map_of config = map_of config'"
    using assms(2) d' set_eq by (simp add: map_of_inject_set)
  show ?thesis
  proof (cases "configured_settings s config")
    case None
    then have "configured_settings s config' = None"
      using set_eq by (simp add: configured_settings_None list_all_iff)
    with None show ?thesis by simp
  next
    case (Some t)
    then obtain t' where t': "configured_settings s config' = Some t'"
      using set_eq configured_settings_None [of s config] configured_settings_None [of s config']
      by (cases "configured_settings s config'") (auto simp: list_all_iff)
    have agree: "get t = get t'"
      if "\<And>e s s'. configure_entry e s = Some s' \<Longrightarrow>
        get s' = (if fst e = key then val (snd e) else get s)" for get :: "matcher_settings \<Rightarrow> 'x" and key val
      using configured_field [where get = get and key = key and val = val, OF that Some assms(2)]
        configured_field [where get = get and key = key and val = val, OF that t' d'] maps by simp
    have "t = t'"
      by (rule matcher_settings.equality; (rule agree, erule configure_entry_fields)?) simp_all
    with Some t' show ?thesis by simp
  qed
qed

section \<open>Scheduled configurations\<close>

text \<open>
  The queue of scheduled configurations holds valid configurations in the order of their
  boundaries. Scheduling keeps this, and it is why applying the due ones cannot panic.
\<close>

definition schedule_inv :: "matcher_policy \<Rightarrow> bool" where
  "schedule_inv p \<longleftrightarrow>
     sorted_by (\<lambda>(b, _). cb_timestamp_ns b) (mp_scheduled p) \<and>
     list_all (\<lambda>(_, config). list_all entry_valid config) (mp_scheduled p)"

lemma schedule_config_inv:
  assumes "schedule_inv p"
  shows "schedule_inv (snd (schedule_config config boundary p))"
proof (cases "mp_scheduled p = []")
  case True
  with assms show ?thesis
    by (auto simp: schedule_config_def schedule_inv_def configured_settings_None)
next
  case False
  then obtain xs y where q: "mp_scheduled p = xs @ [y]" by (cases "mp_scheduled p" rule: rev_cases) auto
  have "\<forall>x\<in>set (mp_scheduled p). cb_timestamp_ns (fst x) \<le> cb_timestamp_ns (fst y)"
    using assms by (auto simp: q schedule_inv_def sorted_append case_prod_beta)
  then show ?thesis
    using assms q
    by (auto simp: schedule_config_def schedule_inv_def configured_settings_None sorted_append
        case_prod_beta not_less intro: order_trans)
qed

lemma apply_due_total:
  assumes "list_all (list_all entry_valid) due"
  shows "\<exists>p'. apply_due due p = Some p' \<and> mp_scheduled p' = mp_scheduled p \<and>
    mp_manual_rearm p' = mp_manual_rearm p"
  using assms
proof (induction due arbitrary: p)
  case Nil
  then show ?case by simp
next
  case (Cons config due)
  then obtain s where s: "configured_settings (mp_settings p) config = Some s"
    using configured_settings_None [of "mp_settings p" config] by auto
  from Cons have "\<exists>p'. apply_due due (apply_settings s p) = Some p' \<and>
      mp_scheduled p' = mp_scheduled (apply_settings s p) \<and>
      mp_manual_rearm p' = mp_manual_rearm (apply_settings s p)" by simp
  with s show ?case by (auto simp: apply_settings_def)
qed

lemma apply_scheduled_settings_total:
  assumes "schedule_inv p"
  shows "\<exists>p'. apply_scheduled_settings t p = Some p' \<and> schedule_inv p' \<and>
    mp_scheduled p' = dropWhile (\<lambda>(b, _). cb_timestamp_ns b \<le> t) (mp_scheduled p) \<and>
    mp_manual_rearm p' = mp_manual_rearm p"
proof -
  let ?due = "\<lambda>(b, _ :: node_config). cb_timestamp_ns b \<le> t"
  have all: "list_all (list_all entry_valid) (map snd (takeWhile ?due (mp_scheduled p)))"
    using assms by (auto simp: schedule_inv_def list_all_iff dest!: set_takeWhileD)
  have inv: "schedule_inv (p'\<lparr>mp_scheduled := dropWhile ?due (mp_scheduled p)\<rparr>)" for p'
  proof -
    have "sorted_by (\<lambda>(b, _). cb_timestamp_ns b)
        (takeWhile ?due (mp_scheduled p) @ dropWhile ?due (mp_scheduled p))"
      using assms by (simp add: schedule_inv_def)
    then have "sorted_by (\<lambda>(b, _). cb_timestamp_ns b) (dropWhile ?due (mp_scheduled p))"
      by (simp only: map_append sorted_append)
    then show ?thesis
      using assms by (auto simp: schedule_inv_def list_all_iff dest!: set_dropWhileD)
  qed
  from apply_due_total [OF all, of "p\<lparr>mp_scheduled := dropWhile ?due (mp_scheduled p)\<rparr>"]
  show ?thesis
    using inv by (auto simp: apply_scheduled_settings_def schedule_inv_def)
qed

section \<open>Specification of a run\<close>

text \<open>
  The matches reported for the merged inputs: the matching word and the reported time. Re-arms
  are \<open>Inl\<close>, words \<open>Inr\<close>.
\<close>

definition rearmed :: "matcher_policy \<Rightarrow> matcher_policy" where
  "rearmed p = p\<lparr>mp_armed := True, mp_eligible_matches := 0\<rparr>"

fun reported :: "matcher_policy \<Rightarrow> (timestamp_event + decoded_word) list \<Rightarrow> (decoded_word \<times> u64) list" where
  "reported p [] = []"
| "reported p (Inl _ # xs) = reported (rearmed p) xs"
| "reported p (Inr word # xs) =
     (case apply_scheduled_settings (w_timestamp_ns word) p of
        None \<Rightarrow> []
      | Some p1 \<Rightarrow>
          (case decide_match p1 word of
             (None, p2) \<Rightarrow> reported p2 xs
           | (Some ts, p2) \<Rightarrow> (word, ts) # reported p2 xs))"

text \<open>The visualization pulses of a sequence of match times.\<close>

fun pulses :: "u64 \<Rightarrow> u64 \<Rightarrow> u64 list \<Rightarrow> sample list" where
  "pulses width last_end [] = []"
| "pulses width last_end (t # ts) =
     (if last_end \<le> t
      then sample_new True t # sample_new False (t + width) # pulses width (t + width) ts
      else pulses width last_end ts)"

text \<open>The pulse lane opens with a low sample at time zero once a word has been seen.\<close>

definition pulse_start :: "bool \<Rightarrow> decoded_word list \<Rightarrow> sample list" where
  "pulse_start started words = (if started \<or> words = [] then [] else [sample_new False 0])"

section \<open>Facts about the reported matches\<close>

lemma apply_due_pulse_state:
  "apply_due due (p\<lparr>mp_last_pulse_end := l, mp_started := b\<rparr>) =
   map_option (\<lambda>q. q\<lparr>mp_last_pulse_end := l, mp_started := b\<rparr>) (apply_due due p)"
proof (induction due arbitrary: p)
  case (Cons config due)
  show ?case
  proof (cases "configured_settings (mp_settings p) config")
    case (Some s)
    have "apply_settings s (p\<lparr>mp_last_pulse_end := l, mp_started := b\<rparr>) =
        (apply_settings s p)\<lparr>mp_last_pulse_end := l, mp_started := b\<rparr>"
      by (simp add: apply_settings_def)
    with Some Cons.IH [of "apply_settings s p"] show ?thesis by simp
  qed simp
qed simp

lemma apply_scheduled_settings_pulse_state:
  "apply_scheduled_settings t (p\<lparr>mp_last_pulse_end := l, mp_started := b\<rparr>) =
   map_option (\<lambda>q. q\<lparr>mp_last_pulse_end := l, mp_started := b\<rparr>) (apply_scheduled_settings t p)"
  using apply_due_pulse_state [where l = l and b = b and
    p = "p\<lparr>mp_scheduled := dropWhile (\<lambda>(b, _). cb_timestamp_ns b \<le> t) (mp_scheduled p)\<rparr>"]
  by (cases p) (simp add: apply_scheduled_settings_def Let_def)

lemma decide_match_pulse_state:
  "decide_match (p\<lparr>mp_last_pulse_end := l, mp_started := b\<rparr>) word =
   (fst (decide_match p word), (snd (decide_match p word))\<lparr>mp_last_pulse_end := l, mp_started := b\<rparr>)"
  by (simp add: decide_match_def Let_def)

text \<open>The pulse lane has no influence on what is reported.\<close>

lemma reported_pulse_state:
  "reported (p\<lparr>mp_last_pulse_end := l, mp_started := b\<rparr>) xs = reported p xs"
proof (induction p xs rule: reported.induct)
  case (2 p e xs)
  then show ?case by (cases p) (simp add: rearmed_def)
next
  case (3 p word xs)
  then show ?case
    by (simp add: apply_scheduled_settings_pulse_state decide_match_pulse_state
        split: option.splits prod.splits)
qed simp

lemma decide_match_keeps:
  "mp_pulse_ns (snd (decide_match p w)) = mp_pulse_ns p"
  "mp_last_pulse_end (snd (decide_match p w)) = mp_last_pulse_end p"
  "mp_started (snd (decide_match p w)) = mp_started p"
  "mp_manual_rearm (snd (decide_match p w)) = mp_manual_rearm p"
  "mp_scheduled (snd (decide_match p w)) = mp_scheduled p"
  "mp_settings (snd (decide_match p w)) = mp_settings p"
  by (simp_all add: decide_match_def Let_def)

lemma apply_due_keeps:
  "apply_due due p = Some p' \<Longrightarrow>
   mp_pulse_ns p' = mp_pulse_ns p \<and> mp_last_pulse_end p' = mp_last_pulse_end p \<and>
   mp_started p' = mp_started p \<and> mp_next_allowed_ns p' = mp_next_allowed_ns p \<and>
   mp_armed p' = mp_armed p \<and> mp_eligible_matches p' = mp_eligible_matches p"
  by (induction due arbitrary: p) (fastforce simp: apply_settings_def split: option.splits)+

lemma apply_scheduled_settings_keeps:
  assumes "apply_scheduled_settings t p = Some p'"
  shows "mp_pulse_ns p' = mp_pulse_ns p \<and> mp_last_pulse_end p' = mp_last_pulse_end p \<and>
    mp_started p' = mp_started p"
  using apply_due_keeps [OF assms [unfolded apply_scheduled_settings_def Let_def]] by simp

lemma apply_scheduled_settings_none [simp]:
  "mp_scheduled p = [] \<Longrightarrow> apply_scheduled_settings t p = Some p"
  by (simp add: apply_scheduled_settings_def)

lemma decide_match_SomeD:
  assumes "decide_match p w = (Some t, p')"
  shows "predicate_matches (mp_settings p) (w_value w) \<and> t = match_time (mp_settings p) w \<and>
    mp_next_allowed_ns p \<le> t \<and>
    mp_next_allowed_ns p' = saturating_add t (ms_holdoff_ns (mp_settings p)) \<and>
    mp_eligible_matches p' = 0 \<and>
    ms_match_count (mp_settings p) \<le> saturating_add (mp_eligible_matches p) 1 \<and>
    (mp_manual_rearm p \<longrightarrow> mp_armed p \<and> \<not> mp_armed p')"
  using assms by (auto simp: decide_match_def Let_def not_less split: if_splits)

lemma decide_match_NoneD:
  assumes "decide_match p w = (None, p')"
  shows "mp_next_allowed_ns p' = mp_next_allowed_ns p \<and> mp_armed p' = mp_armed p \<and>
    (mp_eligible_matches p' = mp_eligible_matches p \<or>
     predicate_matches (mp_settings p) (w_value w) \<and>
     mp_eligible_matches p' = saturating_add (mp_eligible_matches p) 1)"
  using assms by (auto simp: decide_match_def Let_def split: if_splits)

lemma decide_match_sameD:
  "decide_match p w = (m, p') \<Longrightarrow> mp_scheduled p' = mp_scheduled p \<and>
   mp_settings p' = mp_settings p \<and> mp_manual_rearm p' = mp_manual_rearm p"
  using decide_match_keeps [of p w] by simp

text \<open>With no configuration pending, the policy keeps its settings and this recursion applies.\<close>

lemma reported_induct [consumes 1, case_names Nil Rearm Skip Match]:
  assumes "mp_scheduled p = []"
    and "\<And>p. P p []"
    and "\<And>p e xs. mp_scheduled p = [] \<Longrightarrow> P (rearmed p) xs \<Longrightarrow> P p (Inl e # xs)"
    and "\<And>p p' w xs. mp_scheduled p = [] \<Longrightarrow> decide_match p w = (None, p') \<Longrightarrow> P p' xs \<Longrightarrow>
      reported p (Inr w # xs) = reported p' xs \<Longrightarrow> P p (Inr w # xs)"
    and "\<And>p p' w t xs. mp_scheduled p = [] \<Longrightarrow> decide_match p w = (Some t, p') \<Longrightarrow> P p' xs \<Longrightarrow>
      reported p (Inr w # xs) = (w, t) # reported p' xs \<Longrightarrow> P p (Inr w # xs)"
  shows "P p xs"
  using assms(1)
proof (induction xs arbitrary: p)
  case (Cons x xs)
  show ?case
  proof (cases x)
    case (Inl e)
    with Cons assms(3) show ?thesis by (simp add: rearmed_def)
  next
    case (Inr w)
    obtain m p' where d: "decide_match p w = (m, p')" by (cases "decide_match p w")
    then have "mp_scheduled p' = []" using Cons.prems decide_match_sameD by simp
    with Cons d Inr show ?thesis
      using assms(4) [of p w p' xs] assms(5) [of p w _ p' xs]
      by (cases m) simp_all
  qed
qed (rule assms(2))

lemma reported_ge:
  assumes "mp_scheduled p = []"
  shows "\<forall>(w, t)\<in>set (reported p xs). mp_next_allowed_ns p \<le> t \<and>
    predicate_matches (mp_settings p) (w_value w) \<and> t = match_time (mp_settings p) w"
  using assms
proof (induction p xs rule: reported_induct)
  case (Rearm p e xs)
  then show ?case by (simp add: rearmed_def)
next
  case (Skip p p' w xs)
  then show ?case
    using decide_match_NoneD [OF Skip(2)] decide_match_sameD [OF Skip(2)] by simp
next
  case (Match p p' w t xs)
  note m = decide_match_SomeD [OF Match(2)] decide_match_sameD [OF Match(2)]
  have "mp_next_allowed_ns p \<le> mp_next_allowed_ns p'"
    using m saturating_add_ge [of t] order_trans by fastforce
  with m Match show ?case by (auto intro: order_trans)
qed simp

lemma reported_spaced:
  assumes "mp_scheduled p = []"
  shows "sorted_wrt (\<lambda>(_, t) (_, u). saturating_add t (ms_holdoff_ns (mp_settings p)) \<le> u) (reported p xs)"
  using assms
proof (induction p xs rule: reported_induct)
  case (Rearm p e xs)
  then show ?case by (simp add: rearmed_def)
next
  case (Skip p p' w xs)
  then show ?case using decide_match_sameD [OF Skip(2)] by simp
next
  case (Match p p' w t xs)
  note m = decide_match_SomeD [OF Match(2)] decide_match_sameD [OF Match(2)]
  with Match(1) have "\<forall>(_, u)\<in>set (reported p' xs). mp_next_allowed_ns p' \<le> u"
    using reported_ge [of p' xs] by auto
  with m Match(3,4) show ?case by auto
qed simp

fun matching_item :: "matcher_settings \<Rightarrow> timestamp_event + decoded_word \<Rightarrow> bool" where
  "matching_item s (Inl _) = False"
| "matching_item s (Inr w) = predicate_matches s (w_value w)"

abbreviation count_matching :: "matcher_settings \<Rightarrow> (timestamp_event + decoded_word) list \<Rightarrow> nat" where
  "count_matching s xs \<equiv> length (filter (matching_item s) xs)"

text \<open>Each report uses up \<open>match_count\<close> matching words, counted from the last report or re-arm.\<close>

lemma reported_count:
  assumes "mp_scheduled p = []"
  shows "unat (ms_match_count (mp_settings p)) * length (reported p xs) \<le>
    unat (mp_eligible_matches p) + count_matching (mp_settings p) xs"
  using assms
proof (induction p xs rule: reported_induct)
  case (Rearm p e xs)
  have "mp_settings (rearmed p) = mp_settings p" "mp_eligible_matches (rearmed p) = 0"
    by (simp_all add: rearmed_def)
  with Rearm show ?case by simp
next
  case (Skip p p' w xs)
  have "unat (saturating_add (mp_eligible_matches p) 1) \<le> unat (mp_eligible_matches p) + 1"
    by (simp add: sat_simps)
  with Skip decide_match_NoneD [OF Skip(2)] decide_match_sameD [OF Skip(2)] show ?case
    by (auto simp del: unsigned_1)
next
  case (Match p p' w t xs)
  note m = decide_match_SomeD [OF Match(2)] decide_match_sameD [OF Match(2)]
  have "unat (ms_match_count (mp_settings p)) \<le> unat (mp_eligible_matches p) + 1"
    using m by (auto simp: word_le_nat_alt sat_simps)
  with m Match(3,4) show ?case by simp
qed simp

lemma reported_words:
  "fst ` set (reported p xs) \<subseteq> set (map projr (filter (\<lambda>x. \<not> isl x) xs))"
proof (induction xs arbitrary: p)
  case (Cons x xs)
  show ?case
  proof (cases x)
    case (Inl e)
    with Cons show ?thesis by simp
  next
    case (Inr w)
    show ?thesis
    proof (cases "apply_scheduled_settings (w_timestamp_ns w) p")
      case (Some q)
      obtain m p' where "decide_match q w = (m, p')" by (cases "decide_match q w")
      with Inr Some Cons [of p'] show ?thesis by (cases m) auto
    qed (simp add: Inr)
  qed
qed simp

text \<open>With manual re-arming every report but the first needs a re-arm of its own.\<close>

lemma reported_rearm_bound:
  assumes "mp_scheduled p = []" "mp_manual_rearm p"
  shows "length (reported p xs) \<le> (if mp_armed p then 1 else 0) + length (filter isl xs)"
  using assms
proof (induction p xs rule: reported_induct)
  case (Rearm p e xs)
  then show ?case by (auto simp: rearmed_def)
next
  case (Skip p p' w xs)
  then show ?case using decide_match_NoneD [OF Skip(2)] decide_match_sameD [OF Skip(2)] by simp
next
  case (Match p p' w t xs)
  then show ?case
    using decide_match_SomeD [OF Match(2)] decide_match_sameD [OF Match(2)] by simp
qed simp

section \<open>Refinement\<close>

lemma pulse_state_started:
  "apply_scheduled_settings t (p\<lparr>mp_started := b\<rparr>) =
     map_option (\<lambda>q. q\<lparr>mp_started := b\<rparr>) (apply_scheduled_settings t p)"
  "decide_match (p\<lparr>mp_started := b\<rparr>) w =
     (fst (decide_match p w), (snd (decide_match p w))\<lparr>mp_started := b\<rparr>)"
  "reported (p\<lparr>mp_started := b\<rparr>) xs = reported p xs"
  "reported (p\<lparr>mp_last_pulse_end := l\<rparr>) xs = reported p xs"
proof -
  have same: "p\<lparr>mp_last_pulse_end := mp_last_pulse_end p, mp_started := b\<rparr> = p\<lparr>mp_started := b\<rparr>" for p :: matcher_policy
    by simp
  show "reported (p\<lparr>mp_started := b\<rparr>) xs = reported p xs"
    using reported_pulse_state [where p = p and l = "mp_last_pulse_end p" and b = b] by simp
  show "reported (p\<lparr>mp_last_pulse_end := l\<rparr>) xs = reported p xs"
    using reported_pulse_state [where p = p and l = l and b = "mp_started p"] by simp
  show "decide_match (p\<lparr>mp_started := b\<rparr>) w =
     (fst (decide_match p w), (snd (decide_match p w))\<lparr>mp_started := b\<rparr>)"
    by (simp add: decide_match_def Let_def)
  show "apply_scheduled_settings t (p\<lparr>mp_started := b\<rparr>) =
     map_option (\<lambda>q. q\<lparr>mp_started := b\<rparr>) (apply_scheduled_settings t p)"
    using apply_scheduled_settings_pulse_state [where t = t and p = p and l = "mp_last_pulse_end p" and b = b]
      apply_scheduled_settings_keeps [where t = t and p = p]
    by (cases "apply_scheduled_settings t p") (simp_all add: same)
qed

definition word_matcher_words :: "word_matcher_ctx \<Rightarrow> decoded_word list" where
  "word_matcher_words c =
     port_pending (wm_word_head (wmc_node c)) (wm_word_eos (wmc_node c)) (wmc_words c)"

definition word_matcher_rearms :: "word_matcher_ctx \<Rightarrow> timestamp_event list" where
  "word_matcher_rearms c = used_pending (mp_manual_rearm (wm_policy (wmc_node c)))
     (wm_rearm_head (wmc_node c)) (wm_rearm_eos (wmc_node c)) (wmc_rearm c)"

definition word_matcher_good :: "word_matcher_ctx \<Rightarrow> bool" where
  "word_matcher_good c \<longleftrightarrow> port_ends (wmc_words c) \<and>
     (mp_manual_rearm (wm_policy (wmc_node c)) \<longrightarrow> port_ends (wmc_rearm c)) \<and>
     accepting (wmc_match c) \<and> accepting (wmc_pulse c) \<and> accepting (wmc_word_out c) \<and>
     schedule_inv (wm_policy (wmc_node c))"

definition word_matcher_ready :: "word_matcher_ctx \<Rightarrow> bool" where
  "word_matcher_ready c \<longleftrightarrow>
     head_ready (wm_word_head (wmc_node c)) (wm_word_eos (wmc_node c)) \<and>
     (mp_manual_rearm (wm_policy (wmc_node c)) \<longrightarrow>
        head_ready (wm_rearm_head (wmc_node c)) (wm_rearm_eos (wmc_node c)))"

definition word_matcher_remaining :: "word_matcher_ctx \<Rightarrow> nat" where
  "word_matcher_remaining c = length (word_matcher_words c) + length (word_matcher_rearms c)"

type_synonym matcher_logs = "timestamp_event list \<times> sample list \<times> decoded_word list"

text \<open>The three output streams that reported matches give.\<close>

definition report_logs :: "matcher_policy \<Rightarrow> decoded_word list \<Rightarrow> (decoded_word \<times> u64) list \<Rightarrow> matcher_logs" where
  "report_logs p words rs =
     (map (\<lambda>(_, t). timestamp_event_new t) rs,
      pulse_start (mp_started p) words @ pulses (mp_pulse_ns p) (mp_last_pulse_end p) (map snd rs),
      map fst rs)"

definition append_logs :: "matcher_logs \<Rightarrow> matcher_logs \<Rightarrow> matcher_logs" where
  "append_logs a b = (fst a @ fst b, fst (snd a) @ fst (snd b), snd (snd a) @ snd (snd b))"

definition word_matcher_logs :: "word_matcher_ctx \<Rightarrow> matcher_logs" where
  "word_matcher_logs c = (log_of (wmc_match c), log_of (wmc_pulse c), log_of (wmc_word_out c))"

definition word_matcher_to_come :: "word_matcher_ctx \<Rightarrow> matcher_logs" where
  "word_matcher_to_come c =
     (let p = wm_policy (wmc_node c) in
      report_logs p (word_matcher_words c)
        (reported p (merge_aux te_timestamp_ns w_timestamp_ns (word_matcher_rearms c) (word_matcher_words c))))"

lemmas word_matcher_views = word_matcher_words_def word_matcher_rearms_def
  word_matcher_good_def word_matcher_to_come_def word_matcher_remaining_def word_matcher_logs_def
  Let_def

lemma word_matcher_fill_heads_total:
  assumes "word_matcher_good c"
  shows "word_matcher_fill_heads c \<noteq> None"
  using assms fill_two_total [of "wmc_words c" "mp_manual_rearm (wm_policy (wmc_node c))" "wmc_rearm c"]
  by (auto simp: word_matcher_fill_heads_def word_matcher_good_def Let_def split: option.splits)

lemma word_matcher_fill_heads_keeps:
  assumes "word_matcher_good c" "word_matcher_fill_heads c = Some (err, c1)"
  shows "err = None \<and> word_matcher_good c1 \<and> word_matcher_ready c1 \<and>
    word_matcher_remaining c1 = word_matcher_remaining c \<and>
    word_matcher_logs c1 = word_matcher_logs c \<and> word_matcher_to_come c1 = word_matcher_to_come c"
proof -
  let ?m = "wmc_node c"
  from assms(2) obtain h e r h' e' r' where
    f: "fill_two ''Missing words input'' (wm_word_head ?m) (wm_word_eos ?m) (wmc_words c)
          (mp_manual_rearm (wm_policy ?m)) ''Missing rearm input'' (wm_rearm_head ?m) (wm_rearm_eos ?m)
          (wmc_rearm c) = Some (err, (h, e, r), (h', e', r'))"
    and c1: "c1 = c\<lparr>wmc_node := ?m\<lparr>wm_word_head := h, wm_word_eos := e, wm_rearm_head := h',
      wm_rearm_eos := e'\<rparr>, wmc_words := r, wmc_rearm := r'\<rparr>"
    by (auto simp: word_matcher_fill_heads_def Let_def split: option.splits)
  have "port_ends (wmc_words c)" "mp_manual_rearm (wm_policy ?m) \<Longrightarrow> port_ends (wmc_rearm c)"
    using assms(1) by (auto simp: word_matcher_good_def)
  from fill_twoD [OF f this] assms(1) show ?thesis
    by (simp add: c1 word_matcher_views word_matcher_ready_def used_pending_def)
qed

lemma emit_match_accepting:
  assumes "wmc_match c = Some a" "wmc_pulse c = Some b" "wmc_word_out c = Some d"
    "open_port a" "open_port b" "open_port d" "p = wm_policy (wmc_node c)"
  shows "emit_match word ts c =
    (if mp_last_pulse_end p \<le> ts
     then (Inr 1, set_policy (p\<lparr>mp_last_pulse_end := ts + mp_pulse_ns p\<rparr>)
       (c\<lparr>wmc_match := Some (a\<lparr>sent := sent a @ [timestamp_event_new ts]\<rparr>),
          wmc_pulse := Some (b\<lparr>sent := sent b @ [sample_new True ts, sample_new False (ts + mp_pulse_ns p)]\<rparr>),
          wmc_word_out := Some (d\<lparr>sent := sent d @ [word]\<rparr>)\<rparr>))
     else (Inr 1,
       c\<lparr>wmc_match := Some (a\<lparr>sent := sent a @ [timestamp_event_new ts]\<rparr>),
         wmc_word_out := Some (d\<lparr>sent := sent d @ [word]\<rparr>)\<rparr>))"
  using assms
  by (simp add: emit_match_def emit_pulse_def send_opt_def set_policy_def Let_def port_simps)

lemma emit_start_accepting:
  assumes "wmc_pulse c = Some b" "open_port b" "p = wm_policy (wmc_node c)"
  shows "emit_start c = (None,
    set_policy (p\<lparr>mp_started := True\<rparr>)
      (c\<lparr>wmc_pulse := Some (b\<lparr>sent := sent b @ (if mp_started p then [] else [sample_new False 0])\<rparr>)\<rparr>))"
  using assms
  by (auto simp: emit_start_def send_opt_def set_policy_def Let_def port_simps)

lemma word_matcher_step_refines:
  assumes good: "word_matcher_good c" and ready: "word_matcher_ready c"
    and step: "word_matcher_step c = (res, c')"
  shows "(case res of
      Inr n \<Rightarrow> word_matcher_good c' \<and> word_matcher_remaining c' < word_matcher_remaining c \<and>
        append_logs (word_matcher_logs c') (word_matcher_to_come c') =
        append_logs (word_matcher_logs c) (word_matcher_to_come c)
    | Inl e \<Rightarrow> e = Shutdown \<and>
        word_matcher_logs c' = append_logs (word_matcher_logs c) (word_matcher_to_come c))"
proof -
  let ?m = "wmc_node c" and ?p = "wm_policy (wmc_node c)"
  obtain a b d where out: "wmc_match c = Some a" "wmc_pulse c = Some b" "wmc_word_out c = Some d"
    "open_port a" "open_port b" "open_port d"
    using good by (auto simp: word_matcher_good_def accepting_def)
  have ports: "port_ends (wmc_words c)" "head_ready (wm_word_head ?m) (wm_word_eos ?m)"
    "mp_manual_rearm ?p \<longrightarrow> port_ends (wmc_rearm c)"
    "mp_manual_rearm ?p \<longrightarrow> head_ready (wm_rearm_head ?m) (wm_rearm_eos ?m)"
    using good ready by (auto simp: word_matcher_good_def word_matcher_ready_def)
  show ?thesis
  proof (cases rule: merge_heads_cases [OF ports, where fa = te_timestamp_ns and fm = w_timestamp_ns,
        case_names finished aux main])
    case finished
    with step show ?thesis
      by (auto simp: word_matcher_step_def word_matcher_views report_logs_def append_logs_def
          pulse_start_def)
  next
    case (aux e w)
    with step good show ?thesis
      by (auto simp: word_matcher_step_def rearm_precedes_word_def word_matcher_views
          rearmed_def report_logs_def schedule_inv_def)
  next
    case (main w)
    have norearm: "\<not> rearm_precedes_word ?m"
      using main by (auto simp: rearm_precedes_word_def split: option.splits)
    have inv: "schedule_inv ?p" using good by (simp add: word_matcher_good_def)
    from apply_scheduled_settings_total [OF inv] obtain p1 where
      p1: "apply_scheduled_settings (w_timestamp_ns w) ?p = Some p1" "schedule_inv p1"
      "mp_manual_rearm p1 = mp_manual_rearm ?p" by auto
    note keep1 = apply_scheduled_settings_keeps [OF p1(1)]
    obtain r p2 where d: "decide_match p1 w = (r, p2)" by (cases "decide_match p1 w")
    have keep2: "mp_pulse_ns p2 = mp_pulse_ns ?p" "mp_last_pulse_end p2 = mp_last_pulse_end ?p"
      "mp_manual_rearm p2 = mp_manual_rearm ?p" "schedule_inv p2"
      using decide_match_keeps [of p1 w] d keep1 p1 by (simp_all add: schedule_inv_def)
    show ?thesis
    proof (cases r)
      case None
      with step good main norearm p1 d keep2 show ?thesis
        by (auto simp: word_matcher_step_def emit_start_accepting [OF out(2) out(5) refl] set_policy_def
            pulse_state_started word_matcher_views report_logs_def append_logs_def pulse_start_def
            schedule_inv_def out)
    next
      case (Some t)
      with step good main norearm p1 d keep2 out show ?thesis
        by (auto simp: word_matcher_step_def emit_start_accepting [OF out(2) out(5) refl]
            emit_match_accepting set_policy_def pulse_state_started word_matcher_views report_logs_def
            append_logs_def pulse_start_def schedule_inv_def split: if_splits)
    qed
  qed
qed

interpretation word_matcher: filling_node word_matcher_fill_heads word_matcher_step
  word_matcher_good word_matcher_ready word_matcher_remaining
  word_matcher_logs "\<lambda>c. append_logs (word_matcher_logs c) (word_matcher_to_come c)"
  by unfold_locales
    (use word_matcher_fill_heads_total word_matcher_fill_heads_keeps word_matcher_step_refines
     in \<open>fastforce+\<close>)

section \<open>Properties\<close>

lemma pulses_times:
  assumes "\<forall>t\<in>set ts. unat t + unat width < 2 ^ 64"
  shows "sorted_by s_start_time_ns (pulses width l ts) \<and>
    (\<forall>x\<in>set (pulses width l ts). l \<le> s_start_time_ns x) \<and>
    (\<exists>k. map s_value (pulses width l ts) = concat (replicate k [True, False]))"
  using assms
proof (induction width l ts rule: pulses.induct)
  case (2 width l t ts)
  show ?case
  proof (cases "l \<le> t")
    case True
    have le: "t \<le> t + width" using 2(3) by (simp add: word_le_nat_alt unat_add_lem [THEN iffD1])
    obtain k where "map s_value (pulses width (t + width) ts) = concat (replicate k [True, False])"
      using 2(1) [OF True] 2(3) by auto
    then have "map s_value (pulses width l (t # ts)) = concat (replicate (Suc k) [True, False])"
      using True by (simp add: sample_new_def)
    with True 2(1) [OF True] 2(3) le show ?thesis
      by (auto simp: sample_new_def simp del: replicate_Suc intro: order_trans)
  next
    case False
    with 2 show ?thesis by auto
  qed
qed (auto intro: exI [of _ 0])

definition matcher_start :: "matcher_policy \<Rightarrow> decoded_word receiver \<Rightarrow> timestamp_event receiver \<Rightarrow>
    timestamp_event out_port \<Rightarrow> sample out_port \<Rightarrow> decoded_word out_port \<Rightarrow> word_matcher_ctx" where
  "matcher_start p words rearm matched pulse word_out =
     \<lparr>wmc_node = \<lparr>wm_name = ''word_matcher'', wm_policy = p, wm_word_head = None,
        wm_rearm_head = None, wm_word_eos = False, wm_rearm_eos = False\<rparr>,
      wmc_words = Some words, wmc_rearm = Some rearm, wmc_match = Some matched,
      wmc_pulse = Some pulse, wmc_word_out = Some word_out\<rparr>"

abbreviation matcher_input :: "matcher_policy \<Rightarrow> decoded_word receiver \<Rightarrow> timestamp_event receiver \<Rightarrow>
    (timestamp_event + decoded_word) list" where
  "matcher_input p words rearm \<equiv> merge_aux te_timestamp_ns w_timestamp_ns
     (if mp_manual_rearm p then stream rearm else []) (stream words)"

lemma matcher_start_run:
  assumes "ends words" "mp_manual_rearm p \<longrightarrow> ends rearm" "schedule_inv p"
    and "open_port matched" "open_port pulse" "open_port word_out"
    and "length (stream words) + length (stream rearm) < fuel"
  shows "\<exists>c n. run_node fuel word_matcher_work never_stop
      (matcher_start p words rearm matched pulse word_out) 0 = Some (Some Shutdown, c, n) \<and>
    word_matcher_logs c = append_logs (sent matched, sent pulse, sent word_out)
      (report_logs p (stream words) (reported p (matcher_input p words rearm)))"
proof -
  let ?c = "matcher_start p words rearm matched pulse word_out"
  have "word_matcher_good ?c" "word_matcher_remaining ?c < fuel"
    using assms by (auto simp: word_matcher_views matcher_start_def port_pending_def pending_def
        used_pending_def port_ends_def)
  note run = word_matcher.run_completes [OF this, of 0]
  have "word_matcher_to_come ?c =
      report_logs p (stream words) (reported p (matcher_input p words rearm))"
    by (cases "mp_manual_rearm p") (simp_all add: word_matcher_views matcher_start_def
        port_pending_def pending_def used_pending_def)
  moreover have "word_matcher_logs ?c = (sent matched, sent pulse, sent word_out)"
    by (simp add: word_matcher_logs_def matcher_start_def)
  ultimately show ?thesis using run by (simp add: word_matcher_work_def)
qed

section \<open>The matches of an input\<close>

text \<open>
  Which matches are due, in terms of the settings and of unbounded numbers. A word passes when its masked value
  compares with the masked pattern as the operator says, or lies in the masked range or set.
\<close>

definition passes :: "matcher_settings \<Rightarrow> u64 \<Rightarrow> bool" where
  "passes s v =
     (let m = (\<lambda>x. unat (x AND ms_mask s)) in
      case ms_predicate_mode s of
        Compare \<Rightarrow>
          (case ms_op s of
             Op_Eq \<Rightarrow> m v = m (ms_pattern s) | Op_Ne \<Rightarrow> m v \<noteq> m (ms_pattern s)
           | Op_Lt \<Rightarrow> m v < m (ms_pattern s) | Op_Le \<Rightarrow> m v \<le> m (ms_pattern s)
           | Op_Gt \<Rightarrow> m (ms_pattern s) < m v | Op_Ge \<Rightarrow> m (ms_pattern s) \<le> m v)
      | InclusiveRange \<Rightarrow> m v \<in> {m (ms_range_min s)..m (ms_range_max s)}
      | Set_Mode \<Rightarrow> m v \<in> m ` set (ms_set_values s))"

definition report_time :: "matcher_settings \<Rightarrow> decoded_word \<Rightarrow> u64" where
  "report_time s w = w_timestamp_ns w + (if ms_match_timestamp s = End then w_duration_ns w else 0)"

text \<open>The settings that the scheduled configurations lead to, one after the other, each from its time on.\<close>

fun planned :: "matcher_settings \<Rightarrow> (configuration_boundary \<times> node_config) list \<Rightarrow> (u64 \<times> matcher_settings) list" where
  "planned s [] = []"
| "planned s ((boundary, config) # rest) =
     (case configured_settings s config of
        None \<Rightarrow> []
      | Some s1 \<Rightarrow> let s2 = s1\<lparr>ms_match_count := max (ms_match_count s1) 1\<rparr> in (cb_timestamp_ns boundary, s2) # planned s2 rest)"

text \<open>
  A word that passes under the settings in force counts unless it comes before the end of the hold-off of the
  previous match, or re-arming is manual and the matcher is not armed. A match is due at every word that
  completes the count; it ends the arming and starts the hold-off. A re-arm starts the count anew.
\<close>

fun matches_due :: "bool \<Rightarrow> matcher_settings \<Rightarrow> (u64 \<times> matcher_settings) list \<Rightarrow> nat \<Rightarrow> nat \<Rightarrow> bool \<Rightarrow>
    (timestamp_event + decoded_word) list \<Rightarrow> (decoded_word \<times> u64) list" where
  "matches_due manual s plan hold counted armed [] = []"
| "matches_due manual s plan hold counted armed (Inl rearm # xs) = matches_due manual s plan hold 0 True xs"
| "matches_due manual s plan hold counted armed (Inr w # xs) =
     (let begun = takeWhile (\<lambda>(t, _). t \<le> w_timestamp_ns w) plan;
          s1 = (if begun = [] then s else snd (last begun));
          plan1 = drop (length begun) plan;
          t = report_time s1 w
      in if passes s1 (w_value w) \<and> hold \<le> unat t \<and> (manual \<longrightarrow> armed)
         then if unat (ms_match_count s1) \<le> counted + 1
              then (w, t) # matches_due manual s1 plan1 (min (unat t + unat (ms_holdoff_ns s1)) (2 ^ 64 - 1)) 0 (armed \<and> \<not> manual) xs
              else matches_due manual s1 plan1 hold (counted + 1) armed xs
         else matches_due manual s1 plan1 hold counted armed xs)"

lemma passes_eq: "predicate_matches s v \<longleftrightarrow> passes s v"
proof (cases "ms_predicate_mode s")
  case Compare
  then show ?thesis
    by (cases "ms_op s")
      (simp_all add: predicate_matches_def passes_def match_op_matches_def word_unat_eq_iff word_le_nat_alt word_less_nat_alt)
next
  case InclusiveRange
  then show ?thesis by (auto simp: predicate_matches_def passes_def Let_def word_le_nat_alt)
next
  case Set_Mode
  then show ?thesis by (auto simp: predicate_matches_def passes_def Let_def image_iff word_unat_eq_iff) metis
qed

lemma report_time_eq: "match_time s w = report_time s w"
  by (cases "ms_match_timestamp s") (simp_all add: match_time_def report_time_def end_ns_def)

lemma planned_due:
  assumes "list_all (\<lambda>(_, config). list_all entry_valid config) sch"
    and "apply_due (map snd (takeWhile (\<lambda>(b, _). cb_timestamp_ns b \<le> t) sch)) p = Some p'"
    and "begun = takeWhile (\<lambda>(b, _). b \<le> t) (planned (mp_settings p) sch)"
  shows "mp_settings p' = (if begun = [] then mp_settings p else snd (last begun)) \<and>
    planned (mp_settings p') (dropWhile (\<lambda>(b, _). cb_timestamp_ns b \<le> t) sch) = drop (length begun) (planned (mp_settings p) sch)"
  using assms
proof (induction sch arbitrary: p begun)
  case (Cons x sch)
  obtain b config where x: "x = (b, config)" by (cases x)
  obtain s where s: "configured_settings (mp_settings p) config = Some s"
    using Cons.prems(1) x configured_settings_None [of "mp_settings p" config] by auto
  show ?case
  proof (cases "cb_timestamp_ns b \<le> t")
    case True
    then have "apply_due (map snd (takeWhile (\<lambda>(b, _). cb_timestamp_ns b \<le> t) sch)) (apply_settings s p) = Some p'"
      using Cons.prems(2) s x by simp
    from Cons.IH [OF _ this refl] Cons.prems(1,3) True s x show ?thesis
      by (auto simp: apply_settings_def Let_def)
  next
    case False
    then show ?thesis using Cons.prems(2,3) s x by (auto simp: Let_def)
  qed
qed simp

lemma reported_matches_due:
  assumes "schedule_inv p"
  shows "reported p xs = matches_due (mp_manual_rearm p) (mp_settings p) (planned (mp_settings p) (mp_scheduled p))
    (unat (mp_next_allowed_ns p)) (unat (mp_eligible_matches p)) (mp_armed p) xs"
  using assms
proof (induction xs arbitrary: p)
  case (Cons x xs)
  show ?case
  proof (cases x)
    case (Inl e)
    have "schedule_inv (rearmed p)" using Cons.prems by (simp add: schedule_inv_def rearmed_def)
    from Cons.IH [OF this] show ?thesis by (simp add: Inl rearmed_def)
  next
    case (Inr w)
    let ?t = "w_timestamp_ns w" and ?plan = "planned (mp_settings p) (mp_scheduled p)"
    obtain p1 where p1: "apply_scheduled_settings ?t p = Some p1" "schedule_inv p1"
      "mp_scheduled p1 = dropWhile (\<lambda>(b, _). cb_timestamp_ns b \<le> ?t) (mp_scheduled p)" "mp_manual_rearm p1 = mp_manual_rearm p"
      using apply_scheduled_settings_total [OF Cons.prems, of ?t] by auto
    note due = p1(1) [unfolded apply_scheduled_settings_def Let_def]
    note kept = apply_due_keeps [OF due]
    have plan: "mp_settings p1 = (if takeWhile (\<lambda>(b, _). b \<le> ?t) ?plan = [] then mp_settings p else snd (last (takeWhile (\<lambda>(b, _). b \<le> ?t) ?plan)))"
      "planned (mp_settings p1) (mp_scheduled p1) = drop (length (takeWhile (\<lambda>(b, _). b \<le> ?t) ?plan)) ?plan"
      using planned_due [OF _ due refl] Cons.prems p1(3) by (auto simp: schedule_inv_def)
    let ?s = "mp_settings p1" and ?due = "report_time (mp_settings p1) w"
    let ?next = "matches_due (mp_manual_rearm p) ?s (planned ?s (mp_scheduled p1))"
    have fields: "mp_next_allowed_ns p = mp_next_allowed_ns p1" "mp_armed p = mp_armed p1" "mp_eligible_matches p = mp_eligible_matches p1"
      using kept by simp_all
    define counts where "counts \<longleftrightarrow> passes ?s (w_value w) \<and> unat (mp_next_allowed_ns p1) \<le> unat ?due \<and> (mp_manual_rearm p1 \<longrightarrow> mp_armed p1)"
    define completes where "completes \<longleftrightarrow> unat (ms_match_count ?s) \<le> unat (mp_eligible_matches p1) + 1"
    have due_now: "matches_due (mp_manual_rearm p) (mp_settings p) ?plan (unat (mp_next_allowed_ns p)) (unat (mp_eligible_matches p)) (mp_armed p) (x # xs) =
        (if counts then if completes
           then (w, ?due) # ?next (min (unat ?due + unat (ms_holdoff_ns ?s)) (2 ^ 64 - 1)) 0 (mp_armed p1 \<and> \<not> mp_manual_rearm p) xs
           else ?next (unat (mp_next_allowed_ns p1)) (unat (mp_eligible_matches p1) + 1) (mp_armed p1) xs
         else ?next (unat (mp_next_allowed_ns p1)) (unat (mp_eligible_matches p1)) (mp_armed p1) xs)"
      unfolding Inr matches_due.simps Let_def plan [symmetric] fields counts_def completes_def p1(4) ..
    obtain m p2 where d: "decide_match p1 w = (m, p2)" by fastforce
    note same = decide_match_sameD [OF d]
    have inv: "schedule_inv p2" using p1(2) same by (simp add: schedule_inv_def)
    have report: "reported p (x # xs) = (case m of None \<Rightarrow> reported p2 xs | Some ts \<Rightarrow> (w, ts) # reported p2 xs)"
      by (simp add: Inr p1(1) d split: option.split)
    have step: "reported p2 xs = ?next (unat (mp_next_allowed_ns p2)) (unat (mp_eligible_matches p2)) (mp_armed p2) xs"
      using Cons.IH [OF inv] same p1(4) by simp
    have count: "saturating_add (mp_eligible_matches p1) 1 < ms_match_count ?s \<longleftrightarrow> \<not> completes"
      and once: "\<not> completes \<Longrightarrow> unat (saturating_add (mp_eligible_matches p1) 1) = unat (mp_eligible_matches p1) + 1"
      using unsigned_less [of "ms_match_count ?s", where ?'a = nat] by (auto simp: completes_def word_less_nat_alt sat_simps)
    have ready: "counts \<longleftrightarrow> passes ?s (w_value w) \<and> \<not> (?due < mp_next_allowed_ns p1 \<or> mp_manual_rearm p1 \<and> \<not> mp_armed p1)"
      by (auto simp: counts_def word_less_nat_alt)
    note decide = d [unfolded decide_match_def passes_eq report_time_eq Let_def count]
    consider "\<not> counts" | "counts" "\<not> completes" | "counts" "completes" by blast
    then show ?thesis
    proof cases
      case 1
      then have "m = None" "p2 = p1" using decide by (auto simp: ready split: if_splits)
      then show ?thesis using 1 step by (simp add: due_now report)
    next
      case 2
      then have "m = None" "p2 = p1\<lparr>mp_eligible_matches := saturating_add (mp_eligible_matches p1) 1\<rparr>"
        using decide by (auto simp: ready split: if_splits)
      then show ?thesis using 2 once step by (simp add: due_now report)
    next
      case 3
      then have m: "m = Some ?due" "mp_eligible_matches p2 = 0" "mp_next_allowed_ns p2 = saturating_add ?due (ms_holdoff_ns ?s)"
        "mp_armed p2 = (mp_armed p1 \<and> \<not> mp_manual_rearm p1)"
        using decide by (auto simp: ready split: if_splits)
      then show ?thesis using 3 p1(4) by (simp add: due_now report step sat_simps)
    qed
  qed
qed simp

text \<open>
  C27: On finite inputs, for any settings and any queue of valid scheduled configurations, the
  scheduler's loop over a word matcher ends with the regular shutdown. Of the merged words and re-arms, a word
  counts when its masked value passes the test of the settings in force at its time, the hold-off of the
  previous match is over, and the matcher is armed where re-arming is manual; every word that completes the
  configured count is a match. The match output carries the configured time of each match, the word output its
  word, and the pulse output the start sample and one pulse per match that does not overlap the previous pulse.
\<close>
theorem word_matcher_complete_run:
  assumes "ends words" "mp_manual_rearm p \<longrightarrow> ends rearm" "schedule_inv p"
    and "open_port matched" "open_port pulse" "open_port word_out"
    and "length (stream words) + length (stream rearm) < fuel"
    and "rs = matches_due (mp_manual_rearm p) (mp_settings p) (planned (mp_settings p) (mp_scheduled p))
      (unat (mp_next_allowed_ns p)) (unat (mp_eligible_matches p)) (mp_armed p)
      (merge_aux te_timestamp_ns w_timestamp_ns (if mp_manual_rearm p then stream rearm else []) (stream words))"
  shows "\<exists>c n. run_node fuel word_matcher_work never_stop
      (matcher_start p words rearm matched pulse word_out) 0 = Some (Some Shutdown, c, n) \<and>
    log_of (wmc_match c) = sent matched @ map (\<lambda>(_, t). timestamp_event_new t) rs \<and>
    log_of (wmc_word_out c) = sent word_out @ map fst rs \<and>
    log_of (wmc_pulse c) = sent pulse @ pulse_start (mp_started p) (stream words) @
      pulses (mp_pulse_ns p) (mp_last_pulse_end p) (map snd rs)"
  using matcher_start_run [OF assms(1-7)] unfolding assms(8) reported_matches_due [OF assms(3), symmetric]
  by (auto simp: word_matcher_logs_def append_logs_def report_logs_def)

definition example_words :: "decoded_word receiver" where
  "example_words = \<lparr>rx_queue = [Batch [word_spanning 7 10 5, word_spanning 3 20 5], Sample_Message (word_spanning 7 30 5),
     EndOfStream], rx_connected = True, rx_buffer = [], rx_eos = False\<rparr>"

definition example_rearm :: "timestamp_event receiver" where
  "example_rearm = \<lparr>rx_queue = [], rx_connected = False, rx_buffer = [], rx_eos = False\<rparr>"

lemma example_streams:
  "stream example_words = [word_spanning 7 10 5, word_spanning 3 20 5, word_spanning 7 30 5]"
  "ends example_words" "stream example_rearm = []" "ends example_rearm"
  by (simp_all add: example_words_def example_rearm_def stream_def ends_def)

lemma example_reported:
  "reported (wm_policy (word_matcher_new 7 255))
     [Inr (word_spanning 7 10 5), Inr (word_spanning 3 20 5), Inr (word_spanning 7 30 5)] =
   [(word_spanning 7 10 5, 15), (word_spanning 7 30 5, 35)]"
  by (simp add: word_matcher_new_def decide_match_def predicate_matches_def match_op_matches_def
      match_time_def end_ns_def word_spanning_def saturating_add_def)

lemma example_due:
  "matches_due False (mp_settings (wm_policy (with_match_count 2 (word_matcher_new 7 15)))) [] 0 0 True
     [Inr (word_spanning 7 10 5), Inr (word_spanning 3 20 5), Inr (word_spanning 7 30 5)] = [(word_spanning 7 30 5, 35)]"
  by (simp add: with_match_count_def map_policy_def map_settings_def word_matcher_new_def passes_def report_time_def word_spanning_def)

theorem word_matcher_complete_run_witness:
  "\<exists>c n. run_node 9 word_matcher_work never_stop
      (matcher_start (wm_policy (with_match_count 2 (word_matcher_new 7 15))) example_words example_rearm
         \<lparr>sent = [], open_port = True\<rparr> \<lparr>sent = [], open_port = True\<rparr> \<lparr>sent = [], open_port = True\<rparr>) 0 =
      Some (Some Shutdown, c, n) \<and>
    log_of (wmc_match c) = [timestamp_event_new 35] \<and> log_of (wmc_word_out c) = [word_spanning 7 30 5] \<and>
    log_of (wmc_pulse c) = [sample_new False 0, sample_new True 35, sample_new False 1035]"
proof -
  let ?p = "wm_policy (with_match_count 2 (word_matcher_new 7 15))"
  have p: "mp_manual_rearm ?p = False" "mp_scheduled ?p = []" "mp_next_allowed_ns ?p = 0" "mp_eligible_matches ?p = 0" "mp_armed ?p = True"
    "mp_started ?p = False" "mp_pulse_ns ?p = 1000" "mp_last_pulse_end ?p = 0"
    by (simp_all add: with_match_count_def map_policy_def map_settings_def word_matcher_new_def)
  show ?thesis
    using word_matcher_complete_run [of example_words ?p example_rearm
        "\<lparr>sent = [], open_port = True\<rparr>" "\<lparr>sent = [], open_port = True\<rparr>" "\<lparr>sent = [], open_port = True\<rparr>" 9
        "[(word_spanning 7 30 5, 35)]"] example_due
    by (simp add: example_streams p schedule_inv_def pulse_start_def)
qed

text \<open>
  As long as no configuration is pending, every reported match satisfies the predicate and
  carries the configured time of its word; reported times are at least the hold-off apart; a
  report takes \<open>match_count\<close> matching words; and with manual re-arming every report but the first
  needs a re-arm of its own.
\<close>
theorem word_matcher_policy:
  assumes "mp_scheduled p = []" "s = mp_settings p"
  shows "(\<forall>(w, t)\<in>set (reported p xs). predicate_matches s (w_value w) \<and> t = match_time s w) \<and>
    sorted_wrt (\<lambda>(_, t) (_, u). saturating_add t (ms_holdoff_ns s) \<le> u) (reported p xs) \<and>
    unat (ms_match_count s) * length (reported p xs) \<le>
      unat (mp_eligible_matches p) + count_matching s xs \<and>
    (mp_manual_rearm p \<longrightarrow> length (reported p xs) \<le> 1 + length (filter isl xs))"
  using reported_ge [OF assms(1)] reported_spaced [OF assms(1)] reported_count [OF assms(1)]
    reported_rearm_bound [OF assms(1)] assms(2)
  by (fastforce split: if_splits)

theorem word_matcher_policy_witness:
  "2 \<le> count_matching (mp_settings (wm_policy (word_matcher_new 7 255)))
     [Inr (word_spanning 7 10 5), Inr (word_spanning 3 20 5), Inr (word_spanning 7 30 5)]"
proof -
  have p: "mp_scheduled (wm_policy (word_matcher_new 7 255)) = []"
    "ms_match_count (mp_settings (wm_policy (word_matcher_new 7 255))) = 1"
    "mp_eligible_matches (wm_policy (word_matcher_new 7 255)) = 0"
    by (simp_all add: word_matcher_new_def)
  show ?thesis
    using word_matcher_policy [OF p(1) refl, of "[Inr (word_spanning 7 10 5),
        Inr (word_spanning 3 20 5), Inr (word_spanning 7 30 5)]", unfolded example_reported p]
    by simp
qed

text \<open>
  The pulse lane of a complete run is a well-formed level stream: its samples are ordered in
  time, start low at time zero, and alternate, so that pulses never overlap; for words whose
  pulse end fits into 64 bits.
\<close>
theorem word_matcher_pulse_lane:
  assumes "ends words" "mp_manual_rearm p \<longrightarrow> ends rearm" "mp_scheduled p = []" "mp_started p = False"
    and "open_port matched" "open_port pulse" "open_port word_out" "sent pulse = []"
    and "length (stream words) + length (stream rearm) < fuel"
    and "\<forall>w\<in>set (stream words). unat (match_time (mp_settings p) w) + unat (mp_pulse_ns p) < 2 ^ 64"
  shows "\<exists>c n k. run_node fuel word_matcher_work never_stop
      (matcher_start p words rearm matched pulse word_out) 0 = Some (Some Shutdown, c, n) \<and>
    sorted_by s_start_time_ns (log_of (wmc_pulse c)) \<and>
    map s_value (log_of (wmc_pulse c)) =
      (if stream words = [] then [] else [False]) @ concat (replicate k [True, False])"
proof -
  let ?rs = "reported p (matcher_input p words rearm)"
  let ?ps = "pulses (mp_pulse_ns p) (mp_last_pulse_end p) (map snd ?rs)"
  have inv: "schedule_inv p" using assms(3) by (simp add: schedule_inv_def)
  have sub: "fst ` set ?rs \<subseteq> set (stream words)"
    using reported_words [of p "matcher_input p words rearm"] by (simp add: merge_aux_main)
  have "\<forall>t\<in>set (map snd ?rs). unat t + unat (mp_pulse_ns p) < 2 ^ 64"
    using reported_ge [OF assms(3), of "matcher_input p words rearm"] sub assms(10) by fastforce
  note times = pulses_times [OF this, of "mp_last_pulse_end p"]
  obtain k where k: "map s_value ?ps = concat (replicate k [True, False])" using times by blast
  obtain c n where run: "run_node fuel word_matcher_work never_stop
      (matcher_start p words rearm matched pulse word_out) 0 = Some (Some Shutdown, c, n)"
    and logs: "word_matcher_logs c = append_logs (sent matched, sent pulse, sent word_out)
      (report_logs p (stream words) ?rs)"
    using matcher_start_run [OF assms(1,2) inv assms(5-7,9)] by blast
  have log: "log_of (wmc_pulse c) = pulse_start False (stream words) @ ?ps"
    using logs assms(4,8) by (simp add: word_matcher_logs_def append_logs_def report_logs_def)
  have "?rs = []" if "stream words = []" using that by simp
  with times k have "sorted_by s_start_time_ns (log_of (wmc_pulse c))"
    "map s_value (log_of (wmc_pulse c)) =
      (if stream words = [] then [] else [False]) @ concat (replicate k [True, False])"
    by (auto simp: log pulse_start_def sample_new_def)
  with run show ?thesis by blast
qed

theorem word_matcher_pulse_lane_witness:
  "\<exists>c n k. run_node 9 word_matcher_work never_stop
      (matcher_start (wm_policy (word_matcher_new 7 255)) example_words example_rearm
         \<lparr>sent = [], open_port = True\<rparr> \<lparr>sent = [], open_port = True\<rparr> \<lparr>sent = [], open_port = True\<rparr>) 0 =
      Some (Some Shutdown, c, n) \<and> sorted_by s_start_time_ns (log_of (wmc_pulse c)) \<and>
    map s_value (log_of (wmc_pulse c)) = [False] @ concat (replicate k [True, False])"
  using word_matcher_pulse_lane [of example_words "wm_policy (word_matcher_new 7 255)" example_rearm
      "\<lparr>sent = [], open_port = True\<rparr>" "\<lparr>sent = [], open_port = True\<rparr>" "\<lparr>sent = [], open_port = True\<rparr>" 9]
  by (simp add: example_streams)
    (simp add: word_matcher_new_def match_time_def end_ns_def word_spanning_def saturating_add_def)

text \<open>
  The settings a configuration gives do not depend on the iteration order of the hash map
  that carries it, and whether it is accepted does not depend on the current settings.
\<close>
theorem configured_settings_order_independent:
  assumes "mset config = mset config'" "distinct (map fst config)"
  shows "configured_settings s config = configured_settings s config' \<and>
    (configured_settings s config = None \<longleftrightarrow> configured_settings matcher_settings_default config = None)"
  using configured_settings_cong [OF assms] by (simp add: configured_settings_None)

theorem configured_settings_order_independent_witness:
  "configured_settings matcher_settings_default [(''mask'', U64_Value 3), (''op'', Text_Value ''lt'')] =
   configured_settings matcher_settings_default [(''op'', Text_Value ''lt''), (''mask'', U64_Value 3)]"
  using configured_settings_order_independent [of "[(''mask'', U64_Value 3), (''op'', Text_Value ''lt'')]"
      "[(''op'', Text_Value ''lt''), (''mask'', U64_Value 3)]" matcher_settings_default]
  by simp

text \<open>
  Scheduling keeps the queue ordered and valid whatever is scheduled, so that applying what is
  due at a word's timestamp never panics: it applies exactly the configurations with a boundary
  not after that timestamp, in order, and keeps the others.
\<close>
theorem scheduled_settings_apply_exactly_when_due:
  assumes "schedule_inv p"
  shows "schedule_inv (snd (schedule_config config boundary p)) \<and>
    (\<exists>p'. apply_scheduled_settings t p = Some p' \<and> schedule_inv p' \<and>
      mp_scheduled p' = filter (\<lambda>(b, _). t < cb_timestamp_ns b) (mp_scheduled p) \<and>
      apply_due (map snd (filter (\<lambda>(b, _). cb_timestamp_ns b \<le> t) (mp_scheduled p)))
        (p\<lparr>mp_scheduled := mp_scheduled p'\<rparr>) = Some p')"
proof -
  let ?f = "\<lambda>(b, _ :: node_config). cb_timestamp_ns b"
  have s: "sorted_by ?f (mp_scheduled p)" using assms by (simp add: schedule_inv_def)
  have take: "takeWhile (\<lambda>(b, _). cb_timestamp_ns b \<le> t) (mp_scheduled p) =
      filter (\<lambda>(b, _). cb_timestamp_ns b \<le> t) (mp_scheduled p)"
    using takeWhile_le_append_drop [OF s, of t] by (simp add: case_prod_unfold)
  have drop: "dropWhile (\<lambda>(b, _). cb_timestamp_ns b \<le> t) (mp_scheduled p) =
      filter (\<lambda>(b, _). t < cb_timestamp_ns b) (mp_scheduled p)"
    using dropWhile_le_filter [OF s, of t] by (simp add: case_prod_unfold)
  obtain p' where p': "apply_scheduled_settings t p = Some p'" "schedule_inv p'"
    "mp_scheduled p' = dropWhile (\<lambda>(b, _). cb_timestamp_ns b \<le> t) (mp_scheduled p)"
    using apply_scheduled_settings_total [OF assms, of t] by blast
  have "apply_due (map snd (filter (\<lambda>(b, _). cb_timestamp_ns b \<le> t) (mp_scheduled p)))
      (p\<lparr>mp_scheduled := mp_scheduled p'\<rparr>) = Some p'"
    using p' take by (simp add: apply_scheduled_settings_def Let_def)
  with p' drop schedule_config_inv [OF assms] show ?thesis by metis
qed

theorem scheduled_settings_apply_exactly_when_due_witness:
  "\<exists>p'. apply_scheduled_settings 15 ((wm_policy (word_matcher_new 1 1))\<lparr>mp_scheduled :=
       [(\<lparr>cb_sample_index = 0, cb_timestamp_ns = 10\<rparr>, [(''mask'', U64_Value 3)]),
        (\<lparr>cb_sample_index = 1, cb_timestamp_ns = 20\<rparr>, [(''mask'', U64_Value 7)])]\<rparr>) = Some p' \<and>
     mp_scheduled p' = [(\<lparr>cb_sample_index = 1, cb_timestamp_ns = 20\<rparr>, [(''mask'', U64_Value 7)])]"
  using scheduled_settings_apply_exactly_when_due [of "(wm_policy (word_matcher_new 1 1))\<lparr>mp_scheduled :=
       [(\<lparr>cb_sample_index = 0, cb_timestamp_ns = 10\<rparr>, [(''mask'', U64_Value 3)]),
        (\<lparr>cb_sample_index = 1, cb_timestamp_ns = 20\<rparr>, [(''mask'', U64_Value 7)])]\<rparr>" "[]"
        "\<lparr>cb_sample_index = 1, cb_timestamp_ns = 20\<rparr>" 15]
  by (auto simp: schedule_inv_def entry_valid_def configure_entry_def)

end
