(* ===== verification/Stream_Transforms.thy ===== *)
theory Stream_Transforms
  imports Node_Runtime Signal_Events
begin

text \<open>
  Transforms with one input and one output, from \<^verbatim>\<open>crates/signal_transforms/src\<close>: the event
  counter (\<^verbatim>\<open>event_counter/counter.rs\<close>), the edge detector (\<^verbatim>\<open>edge_detector/detector.rs\<close>) and the
  buffer relay (\<^verbatim>\<open>buffer/relay.rs\<close>).
\<close>

section \<open>The event counter\<close>

record event_counter =
  cn_name :: string
  cn_start :: "64 word"
  cn_step :: "64 word"
  cn_count :: "64 word"
  cn_started :: bool

definition event_counter_new :: "64 word \<Rightarrow> 64 word \<Rightarrow> event_counter" where
  "event_counter_new start step =
     \<lparr>cn_name = ''event_counter'', cn_start = start, cn_step = step, cn_count = 0, cn_started = False\<rparr>"

definition event_counter_with_name :: "event_counter \<Rightarrow> string \<Rightarrow> event_counter" where
  "event_counter_with_name c name = c\<lparr>cn_name := name\<rparr>"

definition event_counter_input_schema :: "port_schema list" where
  "event_counter_input_schema = [port_schema_new ''TimestampEvent'' ''event'' 0 Input]"

definition event_counter_output_schema :: "port_schema list" where
  "event_counter_output_schema = [port_schema_state ''NumberSample'' ''count'' 0 Output]"

definition event_counter_start :: "event_counter \<Rightarrow> number_sample list \<times> event_counter" where
  "event_counter_start c =
     (if cn_started c then ([], c)
      else ([number_sample_new (cn_start c) 0], c\<lparr>cn_started := True\<rparr>))"

definition event_counter_step :: "timestamp_event \<Rightarrow> event_counter \<Rightarrow> number_sample list \<times> event_counter" where
  "event_counter_step event c =
     (let c1 = c\<lparr>cn_count := cn_count c + 1\<rparr>;
          value = cn_start c1 + cn_count c1 * cn_step c1
      in ([number_sample_new value (te_timestamp_ns event)], c1))"

definition event_counter_work ::
    "(event_counter, timestamp_event, number_sample) unary_ctx work_fun" where
  "event_counter_work =
     unary_work ''Missing event input'' ''Missing count output'' event_counter_start event_counter_step"

lemma event_counter_run_started:
  assumes "cn_started c"
  shows "unary_run event_counter_start event_counter_step c es =
    map (\<lambda>(n, e). number_sample_new (cn_start c + (cn_count c + of_nat n) * cn_step c) (te_timestamp_ns e))
      (zip [1..<Suc (length es)] es)"
  using assms
proof (induction es arbitrary: c)
  case (Cons e es)
  let ?c = "c\<lparr>cn_count := cn_count c + 1\<rparr>"
  have "unary_run event_counter_start event_counter_step c (e # es) =
      number_sample_new (cn_start c + (cn_count c + 1) * cn_step c) (te_timestamp_ns e) #
      unary_run event_counter_start event_counter_step ?c es"
    using Cons.prems by (simp add: event_counter_start_def event_counter_step_def Let_def)
  also have "unary_run event_counter_start event_counter_step ?c es =
      map (\<lambda>(n, e). number_sample_new (cn_start c + (cn_count c + of_nat (Suc n)) * cn_step c) (te_timestamp_ns e))
        (zip [1..<Suc (length es)] es)"
    using Cons by (simp add: algebra_simps)
  also have "\<dots> = map (\<lambda>(n, e). number_sample_new (cn_start c + (cn_count c + of_nat n) * cn_step c) (te_timestamp_ns e))
        (zip (map Suc [1..<Suc (length es)]) es)"
    by (simp add: zip_map1 case_prod_unfold comp_def del: upt_Suc)
  also have "map Suc [1..<Suc (length es)] = [2..<Suc (Suc (length es))]"
    by (simp add: map_Suc_upt numeral_2_eq_2 del: upt_Suc)
  finally show ?case
    by (simp add: upt_conv_Cons numeral_2_eq_2 del: upt_Suc)
qed (simp add: event_counter_start_def)

section \<open>The edge detector\<close>

datatype edge_mode = Rising | Falling | Both

record edge_detector =
  ed_name :: string
  ed_mode :: edge_mode
  ed_debounce_ns :: u64
  ed_minimum_pulse_width_ns :: u64
  ed_previous :: "sample option"
  ed_last_emitted_ns :: "u64 option"

definition edge_detector_new :: "edge_mode \<Rightarrow> u64 \<Rightarrow> u64 \<Rightarrow> edge_detector" where
  "edge_detector_new mode debounce_ns minimum_pulse_width_ns =
     \<lparr>ed_name = ''edge_detector'', ed_mode = mode, ed_debounce_ns = debounce_ns,
      ed_minimum_pulse_width_ns = minimum_pulse_width_ns, ed_previous = None, ed_last_emitted_ns = None\<rparr>"

definition edge_detector_with_name :: "edge_detector \<Rightarrow> string \<Rightarrow> edge_detector" where
  "edge_detector_with_name d name = d\<lparr>ed_name := name\<rparr>"

definition selected :: "edge_mode \<Rightarrow> bool \<Rightarrow> bool" where
  "selected mode value =
     (case mode of Rising \<Rightarrow> value | Falling \<Rightarrow> \<not> value | Both \<Rightarrow> True)"

definition edge_detector_input_schema :: "port_schema list" where
  "edge_detector_input_schema = [port_schema_state ''Sample'' ''signal'' 0 Input]"

definition edge_detector_output_schema :: "port_schema list" where
  "edge_detector_output_schema = [port_schema_new ''TimestampEvent'' ''event'' 0 Output]"

definition edge_detector_step :: "sample \<Rightarrow> edge_detector \<Rightarrow> timestamp_event list \<times> edge_detector" where
  "edge_detector_step s d =
     (case ed_previous d of
        None \<Rightarrow> ([], d\<lparr>ed_previous := Some s\<rparr>)
      | Some previous \<Rightarrow>
          if s_value s = s_value previous then ([], d)
          else
            let d1 = d\<lparr>ed_previous := Some s\<rparr>;
                preceding_width_ns = saturating_sub (s_start_time_ns s) (s_start_time_ns previous);
                debounce_elapsed =
                  (case ed_last_emitted_ns d1 of
                     None \<Rightarrow> True
                   | Some last_ns \<Rightarrow> ed_debounce_ns d1 \<le> saturating_sub (s_start_time_ns s) last_ns)
            in if \<not> selected (ed_mode d1) (s_value s) \<or>
                  preceding_width_ns < ed_minimum_pulse_width_ns d1 \<or> \<not> debounce_elapsed
               then ([], d1)
               else ([timestamp_event_new (s_start_time_ns s)],
                     d1\<lparr>ed_last_emitted_ns := Some (s_start_time_ns s)\<rparr>))"

definition no_start :: "'n \<Rightarrow> 'b list \<times> 'n" where
  "no_start n = ([], n)"

definition edge_detector_work :: "(edge_detector, sample, timestamp_event) unary_ctx work_fun" where
  "edge_detector_work =
     unary_work ''Missing signal input'' ''Missing event output'' no_start edge_detector_step"

text \<open>
  The changes of a level stream, as pairs of the sample that began the preceding level and the
  sample that ended it, and the ones that qualify for the mode and the minimum width.
\<close>

fun level_changes :: "sample \<Rightarrow> sample list \<Rightarrow> (sample \<times> sample) list" where
  "level_changes p [] = []"
| "level_changes p (s # ss) =
     (if s_value s = s_value p then level_changes p ss else (p, s) # level_changes s ss)"

definition qualified_edges :: "edge_mode \<Rightarrow> u64 \<Rightarrow> (sample \<times> sample) list \<Rightarrow> u64 list" where
  "qualified_edges mode width changes =
     map (\<lambda>(_, s). s_start_time_ns s)
       (filter (\<lambda>(p, s). selected mode (s_value s) \<and>
          width \<le> saturating_sub (s_start_time_ns s) (s_start_time_ns p)) changes)"

fun debounced :: "u64 \<Rightarrow> u64 option \<Rightarrow> u64 list \<Rightarrow> u64 list" where
  "debounced d last_ns [] = []"
| "debounced d last_ns (t # ts) =
     (if (case last_ns of None \<Rightarrow> True | Some l \<Rightarrow> d \<le> saturating_sub t l)
      then t # debounced d (Some t) ts else debounced d last_ns ts)"

lemma edge_detector_run:
  assumes "ed_previous d = Some p"
  shows "unary_run no_start edge_detector_step d ss =
    map timestamp_event_new (debounced (ed_debounce_ns d) (ed_last_emitted_ns d)
      (qualified_edges (ed_mode d) (ed_minimum_pulse_width_ns d) (level_changes p ss)))"
  using assms
proof (induction ss arbitrary: d p)
  case Nil
  then show ?case by (simp add: no_start_def qualified_edges_def)
next
  case (Cons s ss)
  show ?case
  proof (cases "s_value s = s_value p")
    case True
    with Cons show ?thesis by (simp add: no_start_def edge_detector_step_def)
  next
    case False
    with Cons.prems Cons.IH [of "snd (edge_detector_step s d)" s] show ?thesis
      by (auto simp: no_start_def edge_detector_step_def Let_def qualified_edges_def not_le
          split: option.splits)
  qed
qed

lemma debounced_ge:
  "t \<in> set (debounced d (Some l) ts) \<Longrightarrow> d \<le> saturating_sub t l"
proof (induction ts arbitrary: l)
  case (Cons u ts)
  show ?case
  proof (cases "d \<le> saturating_sub u l")
    case True
    then consider "t = u" | "t \<in> set (debounced d (Some u) ts)" using Cons.prems by auto
    then show ?thesis
    proof cases
      case 2
      then have "unat d \<le> unat t - unat u" "unat d \<le> unat u - unat l"
        using Cons.IH [of u] True by (simp_all add: word_le_nat_alt sat_simps)
      then show ?thesis by (simp add: word_le_nat_alt sat_simps)
    qed (use True in simp)
  next
    case False
    with Cons show ?thesis by simp
  qed
qed simp

lemma debounced_spaced:
  "sorted_wrt (\<lambda>t u. d \<le> saturating_sub u t) (debounced d last_ns ts)"
  by (induction ts arbitrary: last_ns) (auto dest: debounced_ge)

lemma debounced_subseq: "subseq (debounced d last_ns ts) ts"
  by (induction ts arbitrary: last_ns) auto

section \<open>The buffer relay\<close>

definition BATCH_SIZE :: nat where
  "BATCH_SIZE = 65536"

record 'a buffer_ctx =
  bf_in :: "'a receiver option"
  bf_out :: "'a out_port option"

definition buffer_input_schema :: "string \<Rightarrow> port_schema list" where
  "buffer_input_schema type_id = [port_schema_new type_id ''in'' 0 Input]"

definition buffer_output_schema :: "string \<Rightarrow> port_schema list" where
  "buffer_output_schema type_id = [port_schema_new type_id ''out'' 0 Output]"

definition buffer_work :: "'a buffer_ctx work_fun" where
  "buffer_work c =
     (case bf_in c of
        None \<Rightarrow> Some (Inl (NodeError ''Missing buffer input''), c)
      | Some r \<Rightarrow>
          (case bf_out c of
             None \<Rightarrow> Some (Inl (NodeError ''Missing buffer output''), c)
           | Some out \<Rightarrow>
               (case recv r of
                  None \<Rightarrow> None
                | Some (Inl e, r') \<Rightarrow> Some (Inl e, c\<lparr>bf_in := Some r'\<rparr>)
                | Some (Inr first, r') \<Rightarrow>
                    (let (_, r'', batch) = try_recv_many r' [first] (BATCH_SIZE - 1);
                         (err, out') = send_batch out batch;
                         c' = c\<lparr>bf_in := Some r'', bf_out := Some out'\<rparr>
                     in case err of
                          Some e \<Rightarrow> Some (Inl e, c')
                        | None \<Rightarrow> Some (Inr (length batch), c')))))"

definition buffer_good :: "'a buffer_ctx \<Rightarrow> bool" where
  "buffer_good c \<longleftrightarrow> port_ends (bf_in c) \<and> accepting (bf_out c)"

definition buffer_items :: "'a buffer_ctx \<Rightarrow> 'a list" where
  "buffer_items c = (case bf_in c of None \<Rightarrow> [] | Some r \<Rightarrow> stream r)"

lemma buffer_work_cases:
  assumes "buffer_good c"
  obtains (finish) c' where "buffer_items c = []" "buffer_work c = Some (Inl Shutdown, c')"
      "log_of (bf_out c') = log_of (bf_out c)"
  | (relay) n c' where "buffer_good c'" "length (buffer_items c') < length (buffer_items c)"
      "buffer_work c = Some (Inr n, c')"
      "log_of (bf_out c') @ buffer_items c' = log_of (bf_out c) @ buffer_items c"
proof -
  obtain r out where c: "bf_in c = Some r" "ends r" "bf_out c = Some out" "open_port out"
    using assms by (auto simp: buffer_good_def port_ends_def accepting_def)
  show ?thesis
  proof (cases "stream r")
    case Nil
    then obtain r' where "recv r = Some (Inl Shutdown, r')" using rx.receive_end [of r] c by auto
    with c Nil show ?thesis by (intro finish) (auto simp: buffer_items_def buffer_work_def)
  next
    case (Cons x xs)
    then obtain r' where r': "recv r = Some (Inr x, r')" "stream r' = xs" "ends r'"
      using rx.receive_item [of r x xs] c by auto
    have live: "\<not> rx_eos r'" using recv_Inr_live [OF r'(1)] by simp
    obtain res r'' batch where t: "try_recv_many r' [x] (BATCH_SIZE - 1) = (res, r'', batch)"
      by (cases "try_recv_many r' [x] (BATCH_SIZE - 1)")
    have "0 < BATCH_SIZE - 1" by (simp add: BATCH_SIZE_def)
    note prefix = try_recv_many_prefix [OF live this t] try_recv_many_ends [OF live this t]
    show ?thesis
      by (rule relay [of "c\<lparr>bf_in := Some r'', bf_out := Some (out\<lparr>sent := sent out @ batch\<rparr>)\<rparr>" "length batch"])
        (use c r' Cons t prefix in \<open>auto simp: buffer_items_def buffer_work_def buffer_good_def
          port_ends_def port_simps\<close>)
  qed
qed

interpretation buffer: draining_node "buffer_work :: 'a buffer_ctx work_fun" buffer_good
  "\<lambda>c. length (buffer_items c)" "\<lambda>c. log_of (bf_out c)" "\<lambda>c. log_of (bf_out c) @ buffer_items c"
proof (unfold_locales, goal_cases)
  case (1 c)
  then show ?case by (cases rule: buffer_work_cases) auto
next
  case (2 c n c')
  from 2(1) show ?case by (cases rule: buffer_work_cases) (use 2(2) in auto)
next
  case (3 c e c')
  from 3(1) show ?case by (cases rule: buffer_work_cases) (use 3(2) in auto)
qed

section \<open>Properties\<close>

text \<open>
  On a finite event stream the scheduler's loop over a fresh event counter ends with the
  regular shutdown, and the output is the level \<open>start\<close> at time zero followed, for the \<open>n\<close>-th
  event, by \<open>start + n * step\<close> (64-bit wrapping) at that event's timestamp.
\<close>
theorem event_counter_complete_run:
  assumes "ends r" "open_port out" "length (stream r) < fuel"
  shows "\<exists>c n. run_node fuel event_counter_work never_stop
      \<lparr>u_node = event_counter_new start step, u_in = Some r, u_out = Some out\<rparr> 0 = Some (Some Shutdown, c, n) \<and>
    log_of (u_out c) = sent out @ number_sample_new start 0 #
      map (\<lambda>(n, e). number_sample_new (start + of_nat n * step) (te_timestamp_ns e))
        (zip [1..<Suc (length (stream r))] (stream r))"
proof -
  let ?n = "event_counter_new start step" and ?m = "(event_counter_new start step)\<lparr>cn_started := True\<rparr>"
  have "unary_run event_counter_start event_counter_step ?n es =
      number_sample_new start 0 # unary_run event_counter_start event_counter_step ?m es" for es
    by (cases es) (simp_all add: event_counter_new_def event_counter_start_def)
  moreover have "unary_run event_counter_start event_counter_step ?m (stream r) =
      map (\<lambda>(n, e). number_sample_new (start + of_nat n * step) (te_timestamp_ns e))
        (zip [1..<Suc (length (stream r))] (stream r))"
    by (subst event_counter_run_started) (simp_all add: event_counter_new_def del: upt_Suc)
  ultimately show ?thesis
    using unary_node_run [OF assms, of "''Missing event input''" "''Missing count output''"
      event_counter_start event_counter_step ?n]
    by (simp add: event_counter_work_def del: upt_Suc)
qed

definition example_events :: "timestamp_event receiver" where
  "example_events = \<lparr>rx_queue = [Batch [\<lparr>te_timestamp_ns = 5\<rparr>, \<lparr>te_timestamp_ns = 9\<rparr>], EndOfStream],
     rx_connected = True, rx_buffer = [], rx_eos = False\<rparr>"

theorem event_counter_complete_run_witness:
  "\<exists>c n. run_node 3 event_counter_work never_stop
      \<lparr>u_node = event_counter_new 10 2, u_in = Some example_events, u_out = Some \<lparr>sent = [], open_port = True\<rparr>\<rparr> 0 =
      Some (Some Shutdown, c, n) \<and>
    log_of (u_out c) = [number_sample_new 10 0, number_sample_new 12 5, number_sample_new 14 9]"
  using event_counter_complete_run [of example_events "\<lparr>sent = [], open_port = True\<rparr>" 3 10 2]
  by (simp add: example_events_def stream_def ends_def)

text \<open>
  On a finite level stream the scheduler's loop over a fresh edge detector ends with the
  regular shutdown, and emits exactly the level changes of the selected direction that end a
  level of at least the minimum pulse width, thinned so that emitted events are at least the
  debounce time apart.
\<close>
theorem edge_detector_complete_run:
  assumes "ends r" "open_port out" "length (stream r) < fuel"
  shows "\<exists>c n ts. run_node fuel edge_detector_work never_stop
      \<lparr>u_node = edge_detector_new mode debounce width, u_in = Some r, u_out = Some out\<rparr> 0 =
        Some (Some Shutdown, c, n) \<and>
    log_of (u_out c) = sent out @ map timestamp_event_new ts \<and>
    ts = debounced debounce None (case stream r of [] \<Rightarrow> []
      | s # ss \<Rightarrow> qualified_edges mode width (level_changes s ss)) \<and>
    sorted_wrt (\<lambda>t u. debounce \<le> saturating_sub u t) ts"
proof -
  let ?n = "edge_detector_new mode debounce width"
  let ?ts = "debounced debounce None (case stream r of [] \<Rightarrow> []
      | s # ss \<Rightarrow> qualified_edges mode width (level_changes s ss))"
  have "unary_run no_start edge_detector_step ?n (stream r) = map timestamp_event_new ?ts"
  proof (cases "stream r")
    case Nil
    then show ?thesis by (simp add: no_start_def)
  next
    case (Cons s ss)
    have "unary_run no_start edge_detector_step ?n (s # ss) =
        unary_run no_start edge_detector_step (?n\<lparr>ed_previous := Some s\<rparr>) ss"
      by (simp add: no_start_def edge_detector_step_def edge_detector_new_def)
    with Cons edge_detector_run [of "?n\<lparr>ed_previous := Some s\<rparr>" s ss] show ?thesis
      by (simp add: edge_detector_new_def)
  qed
  with unary_node_run [OF assms, of "''Missing signal input''" "''Missing event output''"
      no_start edge_detector_step ?n] debounced_spaced
  show ?thesis by (auto simp: edge_detector_work_def)
qed

definition example_levels :: "sample receiver" where
  "example_levels = \<lparr>rx_queue = [Batch [sample_new False 0, sample_new True 10, sample_new False 12, sample_new True 40],
     EndOfStream], rx_connected = True, rx_buffer = [], rx_eos = False\<rparr>"

theorem edge_detector_complete_run_witness:
  "\<exists>c n ts. run_node 9 edge_detector_work never_stop
      \<lparr>u_node = edge_detector_new Rising 20 5, u_in = Some example_levels, u_out = Some \<lparr>sent = [], open_port = True\<rparr>\<rparr> 0 =
        Some (Some Shutdown, c, n) \<and>
    log_of (u_out c) = map timestamp_event_new ts \<and> ts = [10, 40]"
  using edge_detector_complete_run [of example_levels "\<lparr>sent = [], open_port = True\<rparr>" 9 Rising 20 5]
  by (auto simp: example_levels_def stream_def ends_def sample_new_def qualified_edges_def selected_def
      saturating_sub_def)

text \<open>
  The buffer relays a finite stream completely, unchanged and in order, whatever the batching
  of its input, and then ends with the regular shutdown.
\<close>
theorem buffer_complete_run:
  assumes "ends r" "open_port out" "length (stream r) < fuel"
  shows "\<exists>c n. run_node fuel buffer_work never_stop \<lparr>bf_in = Some r, bf_out = Some out\<rparr> 0 =
      Some (Some Shutdown, c, n) \<and> log_of (bf_out c) = sent out @ stream r"
  using buffer.run_completes [of "\<lparr>bf_in = Some r, bf_out = Some out\<rparr>" fuel 0] assms
  by (simp add: buffer_good_def buffer_items_def port_ends_def)

theorem buffer_complete_run_witness:
  "\<exists>c n. run_node 9 buffer_work never_stop \<lparr>bf_in = Some \<lparr>rx_queue = [Sample_Message (1 :: nat), Batch [2, 3], EndOfStream],
       rx_connected = True, rx_buffer = [], rx_eos = False\<rparr>, bf_out = Some \<lparr>sent = [], open_port = True\<rparr>\<rparr> 0 =
      Some (Some Shutdown, c, n) \<and> log_of (bf_out c) = [1, 2, 3]"
  using buffer_complete_run [of "\<lparr>rx_queue = [Sample_Message (1 :: nat), Batch [2, 3], EndOfStream],
       rx_connected = True, rx_buffer = [], rx_eos = False\<rparr>" "\<lparr>sent = [], open_port = True\<rparr>" 9]
  by (simp add: stream_def ends_def)

end
