(* ===== verification/Timeline_Markers.thy ===== *)
theory Timeline_Markers
  imports Node_Runtime Signal_Events
begin

text \<open>
  The timeline marker nodes of \<^verbatim>\<open>crates/signal_transforms/src/timeline_marker/transforms.rs\<close>: the
  marker source, the conversion to an event, and the two level generators (before or from a
  marker, and the window between two markers). The theorems read the emitted samples as a level
  over time.
\<close>

section \<open>Source and conversion\<close>

datatype marker_relation = Before | AtOrAfter

record timeline_marker_source =
  tms_name :: string
  tms_marker :: "timeline_marker option"

definition timeline_marker_source_new :: "u64 \<Rightarrow> timeline_marker_source" where
  "timeline_marker_source_new timestamp_ns =
     \<lparr>tms_name = ''timeline_marker'', tms_marker = Some (timeline_marker_new timestamp_ns)\<rparr>"

definition timeline_marker_source_with_name :: "timeline_marker_source \<Rightarrow> string \<Rightarrow> timeline_marker_source" where
  "timeline_marker_source_with_name s name = s\<lparr>tms_name := name\<rparr>"

definition timeline_marker_source_output_schema :: "port_schema list" where
  "timeline_marker_source_output_schema = [port_schema_new ''TimelineMarker'' ''marker'' 0 Output]"

record marker_source_ctx =
  tsc_node :: timeline_marker_source
  tsc_out :: "timeline_marker out_port option"

definition timeline_marker_source_work :: "marker_source_ctx work_fun" where
  "timeline_marker_source_work c =
     Some (case tms_marker (tsc_node c) of
        None \<Rightarrow> (Inl Shutdown, c)
      | Some marker \<Rightarrow>
          (let c1 = c\<lparr>tsc_node := (tsc_node c)\<lparr>tms_marker := None\<rparr>\<rparr> in
           case tsc_out c of
             None \<Rightarrow> (Inl (NodeError ''Missing marker output''), c1)
           | Some out \<Rightarrow>
               (let (err, out') = send out marker; c2 = c1\<lparr>tsc_out := Some out'\<rparr>
                in case err of Some e \<Rightarrow> (Inl e, c2) | None \<Rightarrow> (Inr 1, c2))))"

text \<open>A missing marker input is reported with its index.\<close>

definition receive_marker :: "timeline_marker receiver option \<Rightarrow> string \<Rightarrow>
    (timeline_marker work_result \<times> timeline_marker receiver option) option" where
  "receive_marker port message =
     (case port of
        None \<Rightarrow> Some (Inl (NodeError message), None)
      | Some r \<Rightarrow> map_option (\<lambda>(res, r'). (res, Some r')) (recv r))"

record marker_event_ctx =
  tec_name :: string
  tec_in :: "timeline_marker receiver option"
  tec_out :: "timestamp_event out_port option"

definition timeline_marker_to_event_new :: "timeline_marker receiver option \<Rightarrow>
    timestamp_event out_port option \<Rightarrow> marker_event_ctx" where
  "timeline_marker_to_event_new inp out =
     \<lparr>tec_name = ''timeline_marker_to_event'', tec_in = inp, tec_out = out\<rparr>"

definition timeline_marker_to_event_with_name :: "marker_event_ctx \<Rightarrow> string \<Rightarrow> marker_event_ctx" where
  "timeline_marker_to_event_with_name c name = c\<lparr>tec_name := name\<rparr>"

definition timeline_marker_to_event_input_schema :: "port_schema list" where
  "timeline_marker_to_event_input_schema = [port_schema_new ''TimelineMarker'' ''marker'' 0 Input]"

definition timeline_marker_to_event_output_schema :: "port_schema list" where
  "timeline_marker_to_event_output_schema = [port_schema_new ''TimestampEvent'' ''event'' 0 Output]"

definition timeline_marker_to_event_work :: "marker_event_ctx work_fun" where
  "timeline_marker_to_event_work c =
     (case receive_marker (tec_in c) ''Missing marker input 0'' of
        None \<Rightarrow> None
      | Some (Inl e, r) \<Rightarrow> Some (Inl e, c\<lparr>tec_in := r\<rparr>)
      | Some (Inr marker, r) \<Rightarrow>
          (let c1 = c\<lparr>tec_in := r\<rparr> in
           case tec_out c of
             None \<Rightarrow> Some (Inl (NodeError ''Missing event output''), c1)
           | Some out \<Rightarrow>
               (let (err, out') = send out (timestamp_event_new (tm_timestamp_ns marker));
                    c2 = c1\<lparr>tec_out := Some out'\<rparr>
                in case err of Some e \<Rightarrow> Some (Inl e, c2) | None \<Rightarrow> Some (Inr 1, c2))))"

section \<open>Level generators\<close>

definition relation_samples :: "marker_relation \<Rightarrow> u64 \<Rightarrow> sample list" where
  "relation_samples relation timestamp_ns =
     (case relation of
        Before \<Rightarrow>
          if timestamp_ns = 0 then [sample_new False 0]
          else [sample_new True 0, sample_new False timestamp_ns]
      | AtOrAfter \<Rightarrow>
          if timestamp_ns = 0 then [sample_new True 0]
          else [sample_new False 0, sample_new True timestamp_ns])"

definition window_samples :: "u64 \<Rightarrow> u64 \<Rightarrow> sample list" where
  "window_samples start_ns stop_ns =
     (if start_ns = stop_ns then [sample_new False 0]
      else if start_ns = 0 then [sample_new True 0, sample_new False stop_ns]
      else [sample_new False 0, sample_new True start_ns, sample_new False stop_ns])"

record timeline_marker_relation =
  tmr_name :: string
  tmr_relation :: marker_relation
  tmr_pending_samples :: "sample list"
  tmr_loaded :: bool

definition timeline_marker_relation_new :: "marker_relation \<Rightarrow> timeline_marker_relation" where
  "timeline_marker_relation_new relation =
     \<lparr>tmr_name = ''timeline_marker_relation'', tmr_relation = relation, tmr_pending_samples = [],
      tmr_loaded = False\<rparr>"

definition timeline_marker_relation_with_name ::
    "timeline_marker_relation \<Rightarrow> string \<Rightarrow> timeline_marker_relation" where
  "timeline_marker_relation_with_name n name = n\<lparr>tmr_name := name\<rparr>"

definition timeline_marker_relation_input_schema :: "port_schema list" where
  "timeline_marker_relation_input_schema = [port_schema_new ''TimelineMarker'' ''marker'' 0 Input]"

definition timeline_marker_relation_output_schema :: "port_schema list" where
  "timeline_marker_relation_output_schema = [port_schema_state ''Sample'' ''signal'' 0 Output]"

record marker_relation_ctx =
  trc_node :: timeline_marker_relation
  trc_in :: "timeline_marker receiver option"
  trc_out :: "sample out_port option"

text \<open>Sending the first pending sample; an empty queue is the panic of the \<^verbatim>\<open>expect\<close>.\<close>

definition emit_relation_sample :: "sample out_port \<Rightarrow> marker_relation_ctx \<Rightarrow>
    nat work_result \<times> marker_relation_ctx" where
  "emit_relation_sample out c =
     (case tmr_pending_samples (trc_node c) of
        [] \<Rightarrow> (Inl Panicked, c)
      | s # rest \<Rightarrow>
          (let (err, out') = send out s;
               c1 = c\<lparr>trc_node := (trc_node c)\<lparr>tmr_pending_samples := rest\<rparr>, trc_out := Some out'\<rparr>
           in case err of Some e \<Rightarrow> (Inl e, c1) | None \<Rightarrow> (Inr 1, c1)))"

definition timeline_marker_relation_work :: "marker_relation_ctx work_fun" where
  "timeline_marker_relation_work c =
     (case trc_out c of
        None \<Rightarrow> Some (Inl (NodeError ''Missing relation signal output''), c)
      | Some out \<Rightarrow>
          (let n = trc_node c in
           if tmr_pending_samples n \<noteq> [] then Some (emit_relation_sample out c)
           else if tmr_loaded n then Some (Inl Shutdown, c)
           else case receive_marker (trc_in c) ''Missing marker input 0'' of
             None \<Rightarrow> None
           | Some (Inl e, r) \<Rightarrow> Some (Inl e, c\<lparr>trc_in := r\<rparr>)
           | Some (Inr marker, r) \<Rightarrow>
               Some (emit_relation_sample out
                 (c\<lparr>trc_in := r, trc_node := n\<lparr>tmr_loaded := True,
                   tmr_pending_samples := relation_samples (tmr_relation n) (tm_timestamp_ns marker)\<rparr>\<rparr>))))"

record timeline_marker_window =
  tmw_name :: string
  tmw_pending_samples :: "sample list"
  tmw_loaded :: bool

definition timeline_marker_window_new :: timeline_marker_window where
  "timeline_marker_window_new =
     \<lparr>tmw_name = ''timeline_marker_window'', tmw_pending_samples = [], tmw_loaded = False\<rparr>"

definition timeline_marker_window_with_name :: "timeline_marker_window \<Rightarrow> string \<Rightarrow> timeline_marker_window" where
  "timeline_marker_window_with_name n name = n\<lparr>tmw_name := name\<rparr>"

definition timeline_marker_window_input_schema :: "port_schema list" where
  "timeline_marker_window_input_schema =
     [port_schema_new ''TimelineMarker'' ''start'' 0 Input,
      port_schema_new ''TimelineMarker'' ''end'' 1 Input]"

definition timeline_marker_window_output_schema :: "port_schema list" where
  "timeline_marker_window_output_schema = [port_schema_state ''Sample'' ''signal'' 0 Output]"

record marker_window_ctx =
  twc_node :: timeline_marker_window
  twc_start :: "timeline_marker receiver option"
  twc_end :: "timeline_marker receiver option"
  twc_out :: "sample out_port option"

definition emit_window_sample :: "sample out_port \<Rightarrow> marker_window_ctx \<Rightarrow>
    nat work_result \<times> marker_window_ctx" where
  "emit_window_sample out c =
     (case tmw_pending_samples (twc_node c) of
        [] \<Rightarrow> (Inl Panicked, c)
      | s # rest \<Rightarrow>
          (let (err, out') = send out s;
               c1 = c\<lparr>twc_node := (twc_node c)\<lparr>tmw_pending_samples := rest\<rparr>, twc_out := Some out'\<rparr>
           in case err of Some e \<Rightarrow> (Inl e, c1) | None \<Rightarrow> (Inr 1, c1)))"

definition timeline_marker_window_work :: "marker_window_ctx work_fun" where
  "timeline_marker_window_work c =
     (case twc_out c of
        None \<Rightarrow> Some (Inl (NodeError ''Missing window signal output''), c)
      | Some out \<Rightarrow>
          (let n = twc_node c in
           if tmw_pending_samples n \<noteq> [] then Some (emit_window_sample out c)
           else if tmw_loaded n then Some (Inl Shutdown, c)
           else case receive_marker (twc_start c) ''Missing marker input 0'' of
             None \<Rightarrow> None
           | Some (Inl e, r) \<Rightarrow> Some (Inl e, c\<lparr>twc_start := r\<rparr>)
           | Some (Inr start, r) \<Rightarrow>
               (let c1 = c\<lparr>twc_start := r\<rparr> in
                case receive_marker (twc_end c) ''Missing marker input 1'' of
                  None \<Rightarrow> None
                | Some (Inl e, r') \<Rightarrow> Some (Inl e, c1\<lparr>twc_end := r'\<rparr>)
                | Some (Inr stop, r') \<Rightarrow>
                    (let c2 = c1\<lparr>twc_end := r'\<rparr> in
                     if tm_timestamp_ns start > tm_timestamp_ns stop
                     then Some (Inl (NodeError
                       ''Window start marker must not be later than its end marker''), c2)
                     else Some (emit_window_sample out
                       (c2\<lparr>twc_node := n\<lparr>tmw_loaded := True, tmw_pending_samples :=
                          window_samples (tm_timestamp_ns start) (tm_timestamp_ns stop)\<rparr>\<rparr>))))))"

section \<open>Refinement of the relation node\<close>

definition relation_to_come :: "marker_relation_ctx \<Rightarrow> sample list" where
  "relation_to_come c = tmr_pending_samples (trc_node c) @
     (if tmr_loaded (trc_node c) then []
      else case trc_in c of None \<Rightarrow> [] | Some r \<Rightarrow>
        (case stream r of [] \<Rightarrow> []
         | m # _ \<Rightarrow> relation_samples (tmr_relation (trc_node c)) (tm_timestamp_ns m)))"

definition relation_good :: "marker_relation_ctx \<Rightarrow> bool" where
  "relation_good c \<longleftrightarrow> port_ends (trc_in c) \<and> accepting (trc_out c)"

definition relation_remaining :: "marker_relation_ctx \<Rightarrow> nat" where
  "relation_remaining c = length (tmr_pending_samples (trc_node c)) +
     (if tmr_loaded (trc_node c) then 0 else 2)"

lemma relation_samples_shape:
  "\<exists>s rest. relation_samples relation t = s # rest \<and> length rest \<le> 1"
  by (auto simp: relation_samples_def split: marker_relation.splits)

lemma relation_work_step:
  assumes good: "relation_good c"
  shows "\<exists>res c'. timeline_marker_relation_work c = Some (res, c') \<and>
    (case res of
       Inl e \<Rightarrow> e = Shutdown \<and> log_of (trc_out c') = log_of (trc_out c) @ relation_to_come c
     | Inr n \<Rightarrow> relation_good c' \<and> relation_remaining c' < relation_remaining c \<and>
        log_of (trc_out c') @ relation_to_come c' = log_of (trc_out c) @ relation_to_come c)"
proof -
  obtain r out where c: "trc_in c = Some r" "ends r" "trc_out c = Some out" "open_port out"
    using good by (auto simp: relation_good_def port_ends_def accepting_def)
  show ?thesis
  proof (cases "tmr_pending_samples (trc_node c) = [] \<and> \<not> tmr_loaded (trc_node c)")
    case False
    with c good show ?thesis
      by (cases "tmr_pending_samples (trc_node c)")
        (auto simp: timeline_marker_relation_work_def emit_relation_sample_def relation_to_come_def
          relation_good_def relation_remaining_def Let_def port_simps split: list.splits)
  next
    case True
    show ?thesis
    proof (cases "stream r")
      case Nil
      then obtain r' where "recv r = Some (Inl Shutdown, r')" using rx.receive_end [of r] c by auto
      with True Nil c show ?thesis
        by (auto simp: timeline_marker_relation_work_def receive_marker_def relation_to_come_def Let_def)
    next
      case (Cons m ms)
      then obtain r' where r': "recv r = Some (Inr m, r')" "ends r'"
        using rx.receive_item [of r m ms] c by auto
      obtain s rest where "relation_samples (tmr_relation (trc_node c)) (tm_timestamp_ns m) = s # rest"
        "length rest \<le> 1" using relation_samples_shape by blast
      with True Cons r' c show ?thesis
        by (auto simp: timeline_marker_relation_work_def receive_marker_def emit_relation_sample_def
            relation_to_come_def relation_good_def relation_remaining_def port_ends_def Let_def port_simps)
    qed
  qed
qed

interpretation marker_relation: draining_node timeline_marker_relation_work relation_good
  relation_remaining "\<lambda>c. log_of (trc_out c)" "\<lambda>c. log_of (trc_out c) @ relation_to_come c"
  by (rule draining_nodeI) (rule relation_work_step)

section \<open>Refinement of the window node\<close>

definition window_inputs :: "marker_window_ctx \<Rightarrow> (u64 \<times> u64) option" where
  "window_inputs c =
     (case (twc_start c, twc_end c) of
        (Some r, Some r') \<Rightarrow>
          (case (stream r, stream r') of
             (m # _, m' # _) \<Rightarrow> Some (tm_timestamp_ns m, tm_timestamp_ns m')
           | _ \<Rightarrow> None)
      | _ \<Rightarrow> None)"

definition window_to_come :: "marker_window_ctx \<Rightarrow> sample list" where
  "window_to_come c = tmw_pending_samples (twc_node c) @
     (if tmw_loaded (twc_node c) then []
      else case window_inputs c of None \<Rightarrow> [] | Some (a, b) \<Rightarrow> window_samples a b)"

definition window_good :: "marker_window_ctx \<Rightarrow> bool" where
  "window_good c \<longleftrightarrow> port_ends (twc_start c) \<and> port_ends (twc_end c) \<and> accepting (twc_out c) \<and>
     (tmw_loaded (twc_node c) \<or> (case window_inputs c of None \<Rightarrow> True | Some (a, b) \<Rightarrow> a \<le> b))"

definition window_remaining :: "marker_window_ctx \<Rightarrow> nat" where
  "window_remaining c = length (tmw_pending_samples (twc_node c)) +
     (if tmw_loaded (twc_node c) then 0 else 3)"

lemma window_samples_shape: "\<exists>s rest. window_samples a b = s # rest \<and> length rest \<le> 2"
  by (auto simp: window_samples_def)

lemma window_work_step:
  assumes good: "window_good c"
  shows "\<exists>res c'. timeline_marker_window_work c = Some (res, c') \<and>
    (case res of
       Inl e \<Rightarrow> e = Shutdown \<and> log_of (twc_out c') = log_of (twc_out c) @ window_to_come c
     | Inr n \<Rightarrow> window_good c' \<and> window_remaining c' < window_remaining c \<and>
        log_of (twc_out c') @ window_to_come c' = log_of (twc_out c) @ window_to_come c)"
proof -
  obtain r r' out where c: "twc_start c = Some r" "ends r" "twc_end c = Some r'" "ends r'"
    "twc_out c = Some out" "open_port out"
    using good by (auto simp: window_good_def port_ends_def accepting_def)
  show ?thesis
  proof (cases "tmw_pending_samples (twc_node c) = [] \<and> \<not> tmw_loaded (twc_node c)")
    case False
    with c good show ?thesis
      by (cases "tmw_pending_samples (twc_node c)")
        (auto simp: timeline_marker_window_work_def emit_window_sample_def window_to_come_def
          window_good_def window_remaining_def window_inputs_def Let_def port_simps)
  next
    case True
    show ?thesis
    proof (cases "stream r")
      case Nil
      then obtain r1 where "recv r = Some (Inl Shutdown, r1)" using rx.receive_end [of r] c by auto
      with True Nil c show ?thesis
        by (auto simp: timeline_marker_window_work_def receive_marker_def window_to_come_def
            window_inputs_def Let_def)
    next
      case (Cons m ms)
      note start = this
      then obtain r1 where r1: "recv r = Some (Inr m, r1)" "ends r1"
        using rx.receive_item [of r m ms] c by auto
      show ?thesis
      proof (cases "stream r'")
        case Nil
        then obtain r2 where "recv r' = Some (Inl Shutdown, r2)" using rx.receive_end [of r'] c by auto
        with True Nil start r1 c show ?thesis
          by (auto simp: timeline_marker_window_work_def receive_marker_def window_to_come_def
              window_inputs_def Let_def)
      next
        case (Cons m' ms')
        then obtain r2 where r2: "recv r' = Some (Inr m', r2)" "ends r2"
          using rx.receive_item [of r' m' ms'] c by auto
        have ordered: "tm_timestamp_ns m \<le> tm_timestamp_ns m'"
          using good True start Cons c by (auto simp: window_good_def window_inputs_def)
        obtain s rest where "window_samples (tm_timestamp_ns m) (tm_timestamp_ns m') = s # rest"
          "length rest \<le> 2" using window_samples_shape by blast
        with True start Cons r1 r2 c ordered show ?thesis
          by (auto simp: timeline_marker_window_work_def receive_marker_def emit_window_sample_def
              window_to_come_def window_inputs_def window_good_def window_remaining_def port_ends_def
              Let_def port_simps)
      qed
    qed
  qed
qed

interpretation marker_window: draining_node timeline_marker_window_work window_good
  window_remaining "\<lambda>c. log_of (twc_out c)" "\<lambda>c. log_of (twc_out c) @ window_to_come c"
  by (rule draining_nodeI) (rule window_work_step)

section \<open>Properties\<close>

text \<open>
  Fed with a marker, the relation node completes and emits a level stream that is ordered in
  time, starts at time zero, and is high exactly before the marker, or exactly from it on.
\<close>
theorem marker_relation_level:
  assumes "ends r" "stream r = m # ms" "open_port out" "sent out = []" "2 < fuel"
  shows "\<exists>c n. run_node fuel timeline_marker_relation_work never_stop
      \<lparr>trc_node = timeline_marker_relation_new relation, trc_in = Some r, trc_out = Some out\<rparr> 0 =
        Some (Some Shutdown, c, n) \<and>
    sorted_by s_start_time_ns (log_of (trc_out c)) \<and>
    s_start_time_ns (hd (log_of (trc_out c))) = 0 \<and>
    (\<forall>t. level_at False (log_of (trc_out c)) t \<longleftrightarrow>
       (case relation of Before \<Rightarrow> t < tm_timestamp_ns m | AtOrAfter \<Rightarrow> tm_timestamp_ns m \<le> t))"
proof -
  let ?c = "\<lparr>trc_node = timeline_marker_relation_new relation, trc_in = Some r, trc_out = Some out\<rparr>"
  have "relation_good ?c" "relation_remaining ?c < fuel"
    using assms by (auto simp: relation_good_def relation_remaining_def port_ends_def timeline_marker_relation_new_def)
  from marker_relation.run_completes [OF this, of 0] obtain c n where
    run: "run_node fuel timeline_marker_relation_work never_stop ?c 0 = Some (Some Shutdown, c, n)"
    and log: "log_of (trc_out c) = relation_samples relation (tm_timestamp_ns m)"
    using assms by (auto simp: relation_to_come_def timeline_marker_relation_new_def)
  show ?thesis
    by (rule exI [of _ c], rule exI [of _ n])
      (auto simp: run log relation_samples_def sample_new_def word_gt_0 not_le split: marker_relation.splits)
qed

theorem marker_relation_level_witness:
  "\<exists>c n. run_node 3 timeline_marker_relation_work never_stop
      \<lparr>trc_node = timeline_marker_relation_new Before,
       trc_in = Some \<lparr>rx_queue = [Sample_Message (timeline_marker_new 50)], rx_connected = False, rx_buffer = [], rx_eos = False\<rparr>,
       trc_out = Some \<lparr>sent = [], open_port = True\<rparr>\<rparr> 0 = Some (Some Shutdown, c, n) \<and>
    (\<forall>t. level_at False (log_of (trc_out c)) t \<longleftrightarrow> t < 50)"
  using marker_relation_level [of "\<lparr>rx_queue = [Sample_Message (timeline_marker_new 50)], rx_connected = False,
      rx_buffer = [], rx_eos = False\<rparr>" "timeline_marker_new 50" "[]" "\<lparr>sent = [], open_port = True\<rparr>" 3 Before]
  by (auto simp: stream_def ends_def timeline_marker_new_def)

text \<open>
  Fed with two markers in order, the window node completes and emits a level stream that is
  ordered in time, starts at time zero, and is high exactly from the start marker up to, and not
  including, the end marker.
\<close>
theorem marker_window_level:
  assumes "ends r" "stream r = m # ms" "ends r'" "stream r' = m' # ms'"
    and "tm_timestamp_ns m \<le> tm_timestamp_ns m'" "open_port out" "sent out = []" "3 < fuel"
  shows "\<exists>c n. run_node fuel timeline_marker_window_work never_stop
      \<lparr>twc_node = timeline_marker_window_new, twc_start = Some r, twc_end = Some r', twc_out = Some out\<rparr> 0 =
        Some (Some Shutdown, c, n) \<and>
    sorted_by s_start_time_ns (log_of (twc_out c)) \<and>
    s_start_time_ns (hd (log_of (twc_out c))) = 0 \<and>
    (\<forall>t. level_at False (log_of (twc_out c)) t \<longleftrightarrow> tm_timestamp_ns m \<le> t \<and> t < tm_timestamp_ns m')"
proof -
  let ?c = "\<lparr>twc_node = timeline_marker_window_new, twc_start = Some r, twc_end = Some r', twc_out = Some out\<rparr>"
  have "window_good ?c" "window_remaining ?c < fuel"
    using assms by (auto simp: window_good_def window_inputs_def window_remaining_def port_ends_def
        timeline_marker_window_new_def)
  from marker_window.run_completes [OF this, of 0] obtain c n where
    run: "run_node fuel timeline_marker_window_work never_stop ?c 0 = Some (Some Shutdown, c, n)"
    and log: "log_of (twc_out c) = window_samples (tm_timestamp_ns m) (tm_timestamp_ns m')"
    using assms by (auto simp: window_to_come_def window_inputs_def timeline_marker_window_new_def)
  show ?thesis
    by (rule exI [of _ c], rule exI [of _ n])
      (use assms(5) in \<open>auto simp: run log window_samples_def sample_new_def word_gt_0 not_le\<close>)
qed

theorem marker_window_level_witness:
  "\<exists>c n. run_node 4 timeline_marker_window_work never_stop
      \<lparr>twc_node = timeline_marker_window_new,
       twc_start = Some \<lparr>rx_queue = [Sample_Message (timeline_marker_new 50)], rx_connected = False, rx_buffer = [], rx_eos = False\<rparr>,
       twc_end = Some \<lparr>rx_queue = [Sample_Message (timeline_marker_new 70)], rx_connected = False, rx_buffer = [], rx_eos = False\<rparr>,
       twc_out = Some \<lparr>sent = [], open_port = True\<rparr>\<rparr> 0 = Some (Some Shutdown, c, n) \<and>
    (\<forall>t. level_at False (log_of (twc_out c)) t \<longleftrightarrow> 50 \<le> t \<and> t < 70)"
  using marker_window_level [of
      "\<lparr>rx_queue = [Sample_Message (timeline_marker_new 50)], rx_connected = False, rx_buffer = [], rx_eos = False\<rparr>"
      "timeline_marker_new 50" "[]"
      "\<lparr>rx_queue = [Sample_Message (timeline_marker_new 70)], rx_connected = False, rx_buffer = [], rx_eos = False\<rparr>"
      "timeline_marker_new 70" "[]" "\<lparr>sent = [], open_port = True\<rparr>" 4]
  by (auto simp: stream_def ends_def timeline_marker_new_def)

end
