(* ===== verification/Recorded_Edges.thy ===== *)
theory Recorded_Edges
  imports Signal_Events
begin

text \<open>
  The sparse, incrementally recorded level of \<^verbatim>\<open>crates/signal_capture/src/recorded_edge_query.rs\<close>.
  The transitions are kept in order of their position, so \<^verbatim>\<open>partition_point\<close> is the length of the
  longest prefix that satisfies its predicate. A read of an empty history panics (\<open>None\<close>).
\<close>

section \<open>Operations\<close>

record capture_transition =
  ct_sample :: u64
  ct_value :: bool

type_synonym recorded_edge_query = "capture_transition list"

definition partition_point :: "('a \<Rightarrow> bool) \<Rightarrow> 'a list \<Rightarrow> nat" where
  "partition_point p xs = length (takeWhile p xs)"

definition recorded_edge_query_new :: "bool \<Rightarrow> recorded_edge_query" where
  "recorded_edge_query_new initial = [\<lparr>ct_sample = 0, ct_value = initial\<rparr>]"

definition record_edge :: "u64 \<Rightarrow> bool \<Rightarrow> recorded_edge_query \<Rightarrow> recorded_edge_query" where
  "record_edge timestamp_ns value transitions =
     (let kept = take (partition_point (\<lambda>edge. ct_sample edge < timestamp_ns) transitions) transitions
      in if kept \<noteq> [] \<and> ct_value (last kept) = value then kept
         else kept @ [\<lparr>ct_sample = timestamp_ns, ct_value = value\<rparr>])"

definition value_at :: "recorded_edge_query \<Rightarrow> u64 \<Rightarrow> bool option" where
  "value_at transitions position =
     (let index = partition_point (\<lambda>edge. ct_sample edge \<le> position) transitions - 1
      in if index < length transitions then Some (ct_value (transitions ! index)) else None)"

definition next_edge :: "recorded_edge_query \<Rightarrow> u64 \<Rightarrow> u64 \<Rightarrow> capture_transition option" where
  "next_edge transitions position limit =
     (let index = partition_point (\<lambda>edge. ct_sample edge \<le> position) transitions
      in if index < length transitions \<and> ct_sample (transitions ! index) < limit
         then Some (transitions ! index) else None)"

section \<open>Invariant\<close>

fun alternating :: "recorded_edge_query \<Rightarrow> bool" where
  "alternating (a # b # xs) \<longleftrightarrow> ct_value a \<noteq> ct_value b \<and> alternating (b # xs)"
| "alternating _ \<longleftrightarrow> True"

text \<open>The history starts at zero, is strictly ordered, and every entry changes the level.\<close>

definition edges_inv :: "recorded_edge_query \<Rightarrow> bool" where
  "edges_inv q \<longleftrightarrow> q \<noteq> [] \<and> ct_sample (hd q) = 0 \<and> sorted_wrt (\<lambda>a b. ct_sample a < ct_sample b) q \<and>
     alternating q"

lemma alternating_append:
  "alternating (xs @ ys) \<longleftrightarrow> alternating xs \<and> alternating ys \<and>
     (xs = [] \<or> ys = [] \<or> ct_value (last xs) \<noteq> ct_value (hd ys))"
  by (induction xs rule: alternating.induct; cases ys) auto

lemma take_partition_point: "take (partition_point p xs) xs = takeWhile p xs"
  unfolding partition_point_def by (rule takeWhile_eq_take [symmetric])

lemma record_edge_alt:
  "record_edge t v q = (let kept = takeWhile (\<lambda>e. ct_sample e < t) q in
     if kept \<noteq> [] \<and> ct_value (last kept) = v then kept else kept @ [\<lparr>ct_sample = t, ct_value = v\<rparr>])"
  by (simp add: record_edge_def take_partition_point)

lemma edges_inv_new: "edges_inv (recorded_edge_query_new v)"
  by (simp add: edges_inv_def recorded_edge_query_new_def)

lemma record_edge_inv:
  assumes "edges_inv q"
  shows "edges_inv (record_edge t v q)"
proof -
  let ?kept = "takeWhile (\<lambda>e. ct_sample e < t) q"
  have "sorted_wrt (\<lambda>a b. ct_sample a < ct_sample b) (?kept @ dropWhile (\<lambda>e. ct_sample e < t) q)"
    "alternating (?kept @ dropWhile (\<lambda>e. ct_sample e < t) q)"
    using assms by (simp_all add: edges_inv_def)
  then have sorted: "sorted_wrt (\<lambda>a b. ct_sample a < ct_sample b) ?kept" and alt: "alternating ?kept"
    by (simp_all only: sorted_wrt_append alternating_append)
  have below: "\<forall>e\<in>set ?kept. ct_sample e < t" by (auto dest: set_takeWhileD)
  have first: "ct_sample (hd ?kept) = 0" if "?kept \<noteq> []"
    using that assms by (cases q) (auto simp: edges_inv_def split: if_splits)
  have "t = 0" if "?kept = []"
    using that assms by (cases q) (auto simp: edges_inv_def word_gt_0 split: if_splits)
  then show ?thesis
    using sorted alt below first
    by (auto simp: record_edge_alt Let_def edges_inv_def sorted_wrt_append alternating_append hd_append)
qed

text \<open>
  The recorded history as a level: the value of the last transition at or before a position.
  Recording a level replaces everything from its time on.
\<close>

lemma value_at_last:
  assumes "edges_inv q"
  shows "value_at q t = Some (ct_value (last (takeWhile (\<lambda>e. ct_sample e \<le> t) q)))"
proof -
  let ?k = "takeWhile (\<lambda>e. ct_sample e \<le> t) q"
  have ne: "?k \<noteq> []" using assms by (cases q) (auto simp: edges_inv_def)
  have "length ?k \<le> length q" by (rule length_takeWhile_le)
  moreover have "q ! (length ?k - 1) = ?k ! (length ?k - 1)"
    using ne by (intro takeWhile_nth [symmetric]) simp
  ultimately show ?thesis
    using ne by (simp add: value_at_def partition_point_def Let_def last_conv_nth)
      (metis Suc_pred diff_Suc_less length_greater_0_conv less_le_trans)
qed

lemma record_edge_before:
  assumes "edges_inv q" "p < t"
  shows "value_at (record_edge t v q) p = value_at q p"
proof -
  let ?kept = "takeWhile (\<lambda>e. ct_sample e < t) q"
  have "takeWhile (\<lambda>e. ct_sample e \<le> p) (?kept @ ys) = takeWhile (\<lambda>e. ct_sample e \<le> p) q"
    if "ys = [] \<or> \<not> ct_sample (hd ys) \<le> p" for ys
    using that assms(2)
  proof (induction q)
    case Nil
    then show ?case by (cases ys) auto
  next
    case (Cons a q)
    then show ?case by (cases ys) (auto simp: not_less)
  qed
  from this [of "[]"] this [of "[\<lparr>ct_sample = t, ct_value = v\<rparr>]"] assms(2)
  have "takeWhile (\<lambda>e. ct_sample e \<le> p) (record_edge t v q) = takeWhile (\<lambda>e. ct_sample e \<le> p) q"
    by (simp add: record_edge_alt Let_def)
  with value_at_last [OF assms(1)] value_at_last [OF record_edge_inv [OF assms(1)]] show ?thesis
    by simp
qed

lemma record_edge_after:
  assumes "edges_inv q" "t \<le> p"
  shows "value_at (record_edge t v q) p = Some v"
proof -
  have "\<forall>e\<in>set (record_edge t v q). ct_sample e \<le> p"
    using assms(2) by (auto simp: record_edge_alt Let_def dest!: set_takeWhileD)
  then have "takeWhile (\<lambda>e. ct_sample e \<le> p) (record_edge t v q) = record_edge t v q"
    by (simp add: takeWhile_eq_all_conv)
  moreover have "ct_value (last (record_edge t v q)) = v"
    by (auto simp: record_edge_alt Let_def)
  ultimately show ?thesis
    by (simp only: value_at_last [OF record_edge_inv [OF assms(1)]])
qed

lemma next_edge_split:
  assumes "edges_inv q"
  obtains xs x ys where "q = xs @ x # ys" "\<forall>e\<in>set (xs @ [x]). ct_sample e \<le> p" "\<forall>e\<in>set ys. p < ct_sample e"
    "partition_point (\<lambda>e. ct_sample e \<le> p) q = Suc (length xs)"
proof -
  let ?k = "takeWhile (\<lambda>e. ct_sample e \<le> p) q" and ?d = "dropWhile (\<lambda>e. ct_sample e \<le> p) q"
  have ne: "?k \<noteq> []" using assms by (cases q) (auto simp: edges_inv_def)
  have "sorted_wrt (\<lambda>a b. ct_sample a < ct_sample b) (?k @ ?d)" using assms by (simp add: edges_inv_def)
  then have d: "sorted_wrt (\<lambda>a b. ct_sample a < ct_sample b) ?d" by (simp only: sorted_wrt_append)
  have "\<forall>e\<in>set ?d. p < ct_sample e"
  proof (cases ?d)
    case (Cons b bs)
    then have "p < ct_sample b" using hd_dropWhile [of "\<lambda>e. ct_sample e \<le> p" q] by auto
    with d Cons show ?thesis by auto
  next
    case Nil
    then show ?thesis by (simp only: list.set) simp
  qed
  moreover have "\<forall>e\<in>set ?k. ct_sample e \<le> p" by (auto dest: set_takeWhileD)
  moreover have "q = butlast ?k @ last ?k # ?d"
    using ne by (metis append.assoc append_Cons append_Nil append_butlast_last_id takeWhile_dropWhile_id)
  moreover have "butlast ?k @ [last ?k] = ?k" using ne by simp
  moreover have "partition_point (\<lambda>e. ct_sample e \<le> p) q = Suc (length (butlast ?k))"
    using ne by (simp add: partition_point_def)
  ultimately show ?thesis using that by metis
qed

section \<open>Properties\<close>

text \<open>
  Recording a level at a time changes the recorded signal from that time on and nothing
  before it, replaces any later history, and keeps the history ordered and free of redundant
  entries; reading a recorded history never panics.
\<close>
theorem record_edge_level:
  assumes "edges_inv q"
  shows "edges_inv (record_edge t v q) \<and> value_at q p \<noteq> None \<and>
    value_at (record_edge t v q) p = (if t \<le> p then Some v else value_at q p)"
  using assms record_edge_inv record_edge_before record_edge_after value_at_last
  by (auto simp: not_le)

theorem record_edge_level_witness:
  "value_at (record_edge 10 True (recorded_edge_query_new False)) 12 = Some True"
  using record_edge_level [of "recorded_edge_query_new False" 10 True 12]
  by (simp add: edges_inv_new)

text \<open>
  The next edge after a position is the first change of the recorded level strictly after it
  and below the limit: the level is constant in between and different at the edge. When no edge
  is returned, the level is constant up to the limit.
\<close>
theorem next_edge_is_first_change:
  assumes "edges_inv q"
  shows "case next_edge q p limit of
      Some e \<Rightarrow> p < ct_sample e \<and> ct_sample e < limit \<and> value_at q (ct_sample e) = Some (ct_value e) \<and>
        value_at q p = Some (\<not> ct_value e) \<and>
        (\<forall>p'. p \<le> p' \<longrightarrow> p' < ct_sample e \<longrightarrow> value_at q p' = value_at q p)
    | None \<Rightarrow> \<forall>p'. p \<le> p' \<longrightarrow> p' < limit \<longrightarrow> value_at q p' = value_at q p"
proof -
  obtain xs x ys where q: "q = xs @ x # ys" and le: "\<forall>e\<in>set (xs @ [x]). ct_sample e \<le> p"
    and gt: "\<forall>e\<in>set ys. p < ct_sample e"
    and idx: "partition_point (\<lambda>e. ct_sample e \<le> p) q = Suc (length xs)"
    by (rule next_edge_split [OF assms])
  have level: "value_at q p' = Some (ct_value x)"
    if "p \<le> p'" "ys = [] \<or> p' < ct_sample (hd ys)" for p'
  proof -
    have tw: "takeWhile (\<lambda>e. ct_sample e \<le> p') ys = []" using that(2) by (cases ys) auto
    have "\<forall>e\<in>set (xs @ [x]). ct_sample e \<le> p'" using le that(1) by auto
    then have "takeWhile (\<lambda>e. ct_sample e \<le> p') q = xs @ [x]" by (simp add: q tw)
    then show ?thesis by (simp only: value_at_last [OF assms]) simp
  qed
  show ?thesis
  proof (cases ys)
    case Nil
    then show ?thesis using level idx q by (simp add: next_edge_def)
  next
    case (Cons y zs)
    have nx: "next_edge q p limit = (if ct_sample y < limit then Some y else None)"
      using idx by (simp add: next_edge_def q Cons nth_append)
    have later: "\<forall>e\<in>set zs. ct_sample y < ct_sample e"
      and earlier: "\<forall>e\<in>set (xs @ [x]). ct_sample e < ct_sample y" and "ct_value x \<noteq> ct_value y"
      using assms by (auto simp: edges_inv_def q Cons sorted_wrt_append alternating_append)
    have "\<forall>e\<in>set (xs @ [x, y]). ct_sample e \<le> ct_sample y" using earlier by (auto intro: less_imp_le)
    moreover have "takeWhile (\<lambda>e. ct_sample e \<le> ct_sample y) zs = []" using later by (cases zs) auto
    ultimately have "takeWhile (\<lambda>e. ct_sample e \<le> ct_sample y) ((xs @ [x, y]) @ zs) = xs @ [x, y]"
      by (simp only: takeWhile_append2) simp
    then have "takeWhile (\<lambda>e. ct_sample e \<le> ct_sample y) q = xs @ [x, y]" by (simp add: q Cons)
    then have "value_at q (ct_sample y) = Some (ct_value y)"
      by (simp only: value_at_last [OF assms]) simp
    with nx level gt Cons \<open>ct_value x \<noteq> ct_value y\<close> show ?thesis by auto
  qed
qed

theorem next_edge_is_first_change_witness:
  "value_at (record_edge 10 True (recorded_edge_query_new False)) 3 = Some False"
  using next_edge_is_first_change [of "record_edge 10 True (recorded_edge_query_new False)" 3 50]
  by (simp add: edges_inv_new record_edge_inv)
    (simp add: next_edge_def record_edge_def recorded_edge_query_new_def partition_point_def)

end
