(* ===== verification/Sr_Latch.thy ===== *)
theory Sr_Latch
  imports Node_Runtime Recorded_Edges
begin

text \<open>
  The set/reset latch, \<^verbatim>\<open>crates/signal_transforms/src/sr_latch/latch.rs\<close>: it merges its two event
  streams by timestamp (a reset wins a tie), emits the level changes and records them for edge
  queries. The theorem says what the emitted and the recorded level are at every instant.
\<close>

section \<open>State and operations\<close>

record sr_latch =
  sr_name :: string
  sr_initial :: bool
  sr_state :: bool
  sr_started :: bool
  sr_last_emit_ts :: u64
  sr_set_head :: "timestamp_event option"
  sr_reset_head :: "timestamp_event option"
  sr_set_eos :: bool
  sr_reset_eos :: bool
  sr_edge_query :: recorded_edge_query

definition sr_latch_new :: "bool \<Rightarrow> sr_latch" where
  "sr_latch_new initial =
     \<lparr>sr_name = ''sr_latch'', sr_initial = initial, sr_state = initial, sr_started = False,
      sr_last_emit_ts = 0, sr_set_head = None, sr_reset_head = None, sr_set_eos = False,
      sr_reset_eos = False, sr_edge_query = recorded_edge_query_new initial\<rparr>"

definition sr_latch_with_name :: "sr_latch \<Rightarrow> string \<Rightarrow> sr_latch" where
  "sr_latch_with_name n name = n\<lparr>sr_name := name\<rparr>"

definition sr_latch_input_schema :: "port_schema list" where
  "sr_latch_input_schema =
     [port_schema_new ''TimestampEvent'' ''set'' 0 Input,
      port_schema_new ''TimestampEvent'' ''reset'' 1 Input]"

definition sr_latch_output_schema :: "port_schema list" where
  "sr_latch_output_schema =
     [with_protocols [Stream_Protocol, Edge_Query_Protocol] (port_schema_state ''Sample'' ''q'' 0 Output)]"

record sr_latch_ctx =
  src_node :: sr_latch
  src_set :: "timestamp_event receiver option"
  src_reset :: "timestamp_event receiver option"
  src_out :: "sample out_port option"

text \<open>The initial level, sent by the first call.\<close>

definition sr_latch_start :: "sample out_port \<Rightarrow> sr_latch_ctx \<Rightarrow> work_error option \<times> sr_latch_ctx" where
  "sr_latch_start out c =
     (let n = src_node c in
      if sr_started n then (None, c)
      else
        let n1 = n\<lparr>sr_started := True, sr_state := sr_initial n\<rparr>;
            (err, out') = send out (sample_new (sr_initial n) 0)
        in (err, c\<lparr>src_node := n1, src_out := Some out'\<rparr>))"

text \<open>Both inputs must be connected; then a head, or the end, of each is awaited in turn.\<close>

definition sr_latch_receive :: "sr_latch_ctx \<Rightarrow> (work_error option \<times> sr_latch_ctx) option" where
  "sr_latch_receive c =
     (let n = src_node c in
      if src_set c = None \<or> src_reset c = None
      then Some (Some (NodeError ''Missing set/reset input''), c)
      else case fill_two '''' (sr_set_head n) (sr_set_eos n) (src_set c)
             True '''' (sr_reset_head n) (sr_reset_eos n) (src_reset c) of
        None \<Rightarrow> None
      | Some (err, (h, e, r), (h', e', r')) \<Rightarrow>
          Some (err, c\<lparr>src_node := n\<lparr>sr_set_head := h, sr_set_eos := e, sr_reset_head := h',
                                      sr_reset_eos := e'\<rparr>, src_set := r, src_reset := r'\<rparr>))"

definition sr_latch_fill :: "sr_latch_ctx \<Rightarrow> (work_error option \<times> sr_latch_ctx) option" where
  "sr_latch_fill c =
     (case src_out c of
        None \<Rightarrow> Some (Some (NodeError ''Missing q output''), c)
      | Some out \<Rightarrow>
          (case sr_latch_start out c of
             (Some e, c1) \<Rightarrow> Some (Some e, c1)
           | (None, c1) \<Rightarrow> sr_latch_receive c1))"

text \<open>The head with the least timestamp, the set input first on a tie.\<close>

definition next_head :: "sr_latch \<Rightarrow> (bool \<times> u64) option" where
  "next_head n =
     (case (sr_set_head n, sr_reset_head n) of
        (None, None) \<Rightarrow> None
      | (Some s, None) \<Rightarrow> Some (True, te_timestamp_ns s)
      | (None, Some r) \<Rightarrow> Some (False, te_timestamp_ns r)
      | (Some s, Some r) \<Rightarrow>
          if te_timestamp_ns s \<le> te_timestamp_ns r then Some (True, te_timestamp_ns s)
          else Some (False, te_timestamp_ns r))"

definition sr_latch_step :: "sr_latch_ctx \<Rightarrow> nat work_result \<times> sr_latch_ctx" where
  "sr_latch_step c =
     (let n = src_node c in
      case next_head n of
        None \<Rightarrow> (Inl Shutdown, c)
      | Some (new_state, event_ts) \<Rightarrow>
          let n1 = (if new_state then n\<lparr>sr_set_head := None\<rparr> else n\<lparr>sr_reset_head := None\<rparr>)
          in if new_state = sr_state n1 then (Inr 0, c\<lparr>src_node := n1\<rparr>)
             else
               let ts = (if event_ts < sr_last_emit_ts n1 then sr_last_emit_ts n1 else event_ts);
                   n2 = n1\<lparr>sr_state := new_state, sr_last_emit_ts := ts,
                           sr_edge_query := record_edge ts new_state (sr_edge_query n1)\<rparr>;
                   c1 = c\<lparr>src_node := n2\<rparr>
               in case src_out c of
                    None \<Rightarrow> (Inl (NodeError ''Missing q output''), c1)
                  | Some out \<Rightarrow>
                      (let (err, out') = send out (sample_new new_state ts);
                           c2 = c1\<lparr>src_out := Some out'\<rparr>
                       in case err of Some e \<Rightarrow> (Inl e, c2) | None \<Rightarrow> (Inr 1, c2)))"

definition sr_latch_work :: "sr_latch_ctx work_fun" where
  "sr_latch_work = fill_then sr_latch_fill sr_latch_step"

section \<open>Specification\<close>

text \<open>The merged events, a set as \<open>True\<close>, and the changes the latch makes of them.\<close>

fun latch_merge :: "timestamp_event list \<Rightarrow> timestamp_event list \<Rightarrow> (bool \<times> u64) list" where
  "latch_merge (s # ss) (r # rs) =
     (if te_timestamp_ns s \<le> te_timestamp_ns r
      then (True, te_timestamp_ns s) # latch_merge ss (r # rs)
      else (False, te_timestamp_ns r) # latch_merge (s # ss) rs)"
| "latch_merge ss [] = map (\<lambda>s. (True, te_timestamp_ns s)) ss"
| "latch_merge [] rs = map (\<lambda>r. (False, te_timestamp_ns r)) rs"

fun latch_changes :: "bool \<Rightarrow> u64 \<Rightarrow> (bool \<times> u64) list \<Rightarrow> (bool \<times> u64) list" where
  "latch_changes state last_ts [] = []"
| "latch_changes state last_ts ((v, t) # xs) =
     (if v = state then latch_changes state last_ts xs
      else (v, max t last_ts) # latch_changes v (max t last_ts) xs)"

definition change_samples :: "(bool \<times> u64) list \<Rightarrow> sample list" where
  "change_samples = map (\<lambda>(v, t). sample_new v t)"

definition record_changes :: "(bool \<times> u64) list \<Rightarrow> recorded_edge_query \<Rightarrow> recorded_edge_query" where
  "record_changes = fold (\<lambda>(v, t). record_edge t v)"

section \<open>Refinement\<close>

definition sr_latch_events :: "sr_latch_ctx \<Rightarrow> (bool \<times> u64) list" where
  "sr_latch_events c = latch_merge
     (port_pending (sr_set_head (src_node c)) (sr_set_eos (src_node c)) (src_set c))
     (port_pending (sr_reset_head (src_node c)) (sr_reset_eos (src_node c)) (src_reset c))"

definition sr_latch_good :: "sr_latch_ctx \<Rightarrow> bool" where
  "sr_latch_good c \<longleftrightarrow> port_ends (src_set c) \<and> port_ends (src_reset c) \<and> accepting (src_out c) \<and>
     (sr_started (src_node c) \<or> sr_state (src_node c) = sr_initial (src_node c))"

definition sr_latch_ready :: "sr_latch_ctx \<Rightarrow> bool" where
  "sr_latch_ready c \<longleftrightarrow> sr_started (src_node c) \<and>
     head_ready (sr_set_head (src_node c)) (sr_set_eos (src_node c)) \<and>
     head_ready (sr_reset_head (src_node c)) (sr_reset_eos (src_node c))"

definition sr_latch_remaining :: "sr_latch_ctx \<Rightarrow> nat" where
  "sr_latch_remaining c =
     length (port_pending (sr_set_head (src_node c)) (sr_set_eos (src_node c)) (src_set c)) +
     length (port_pending (sr_reset_head (src_node c)) (sr_reset_eos (src_node c)) (src_reset c))"

definition sr_latch_observed :: "sr_latch_ctx \<Rightarrow> sample list \<times> recorded_edge_query" where
  "sr_latch_observed c = (log_of (src_out c), sr_edge_query (src_node c))"

definition sr_latch_predicted :: "sr_latch_ctx \<Rightarrow> sample list \<times> recorded_edge_query" where
  "sr_latch_predicted c =
     (let n = src_node c; changes = latch_changes (sr_state n) (sr_last_emit_ts n) (sr_latch_events c)
      in (log_of (src_out c) @ (if sr_started n then [] else [sample_new (sr_initial n) 0]) @
            change_samples changes,
          record_changes changes (sr_edge_query n)))"

lemmas sr_latch_views = sr_latch_events_def sr_latch_good_def sr_latch_ready_def
  sr_latch_remaining_def sr_latch_observed_def sr_latch_predicted_def Let_def

lemma sr_latch_fill_keeps:
  assumes "sr_latch_good c"
  shows "\<exists>c1. sr_latch_fill c = Some (None, c1) \<and> sr_latch_good c1 \<and> sr_latch_ready c1 \<and>
    sr_latch_remaining c1 = sr_latch_remaining c \<and> sr_latch_predicted c1 = sr_latch_predicted c"
proof -
  let ?n = "src_node c"
  obtain out r r' where c: "src_out c = Some out" "open_port out" "src_set c = Some r" "src_reset c = Some r'"
    and ends: "port_ends (Some r)" "port_ends (Some r')"
    using assms by (auto simp: sr_latch_good_def accepting_def port_ends_def)
  obtain err h e p h' e' p' where
    f: "fill_two '''' (sr_set_head ?n) (sr_set_eos ?n) (Some r) True '''' (sr_reset_head ?n)
          (sr_reset_eos ?n) (Some r') = Some (err, (h, e, p), (h', e', p'))"
    using fill_two_total [OF ends(1), of True "Some r'"] ends(2) by fastforce
  show ?thesis
    using fill_twoD [OF f ends] assms f c
    by (cases "sr_started ?n")
      (simp_all add: sr_latch_fill_def sr_latch_start_def sr_latch_receive_def sr_latch_views port_simps)
qed

text \<open>The event a step takes is the next one of the merge.\<close>

lemma latch_merge_Nil [simp]: "latch_merge [] rs = map (\<lambda>r. (False, te_timestamp_ns r)) rs"
  by (cases rs) auto

lemma next_head_cases:
  assumes "sr_latch_good c" "sr_latch_ready c"
  obtains (finished) "next_head (src_node c) = None" "sr_latch_events c = []"
  | (set) t where "next_head (src_node c) = Some (True, t)"
      "sr_latch_events c =
         (True, t) # sr_latch_events (c\<lparr>src_node := (src_node c)\<lparr>sr_set_head := None\<rparr>\<rparr>)"
      "sr_latch_remaining (c\<lparr>src_node := (src_node c)\<lparr>sr_set_head := None\<rparr>\<rparr>) < sr_latch_remaining c"
  | (reset) t where "next_head (src_node c) = Some (False, t)"
      "sr_latch_events c =
         (False, t) # sr_latch_events (c\<lparr>src_node := (src_node c)\<lparr>sr_reset_head := None\<rparr>\<rparr>)"
      "sr_latch_remaining (c\<lparr>src_node := (src_node c)\<lparr>sr_reset_head := None\<rparr>\<rparr>) < sr_latch_remaining c"
proof -
  let ?n = "src_node c"
  have ports: "port_ends (src_set c)" "port_ends (src_reset c)"
    using assms(1) by (auto simp: sr_latch_good_def)
  show ?thesis
  proof (cases "sr_set_head ?n")
    case None
    then have "sr_set_eos ?n" using assms(2) by (auto simp: sr_latch_ready_def head_ready_def)
    with None assms(2) ports show ?thesis
      by (cases "sr_reset_head ?n")
        (auto simp: next_head_def sr_latch_views head_ready_def port_pending_take intro: finished reset)
  next
    case (Some s)
    note s = this
    show ?thesis
    proof (cases "sr_reset_head ?n")
      case None
      then have "sr_reset_eos ?n" using assms(2) by (auto simp: sr_latch_ready_def head_ready_def)
      with None s ports show ?thesis
        by (intro set) (auto simp: next_head_def sr_latch_views port_pending_take)
    next
      case (Some r)
      with s ports show ?thesis
        by (cases "te_timestamp_ns s \<le> te_timestamp_ns r")
          (auto simp: next_head_def sr_latch_views port_pending_take intro: set reset)
    qed
  qed
qed

lemma sr_latch_step_refines:
  assumes good: "sr_latch_good c" and ready: "sr_latch_ready c" and step: "sr_latch_step c = (res, c')"
  shows "(case res of
      Inr n \<Rightarrow> sr_latch_good c' \<and> sr_latch_remaining c' < sr_latch_remaining c \<and>
        sr_latch_predicted c' = sr_latch_predicted c
    | Inl e \<Rightarrow> e = Shutdown \<and> sr_latch_observed c' = sr_latch_predicted c)"
proof -
  let ?n = "src_node c"
  obtain out where out: "src_out c = Some out" "open_port out"
    using good by (auto simp: sr_latch_good_def accepting_def)
  have started: "sr_started ?n" using ready by (simp add: sr_latch_ready_def)
  have clamp: "(if t < l then l else t) = max t l" for t l :: u64 by (auto simp: max_def not_less)
  from good ready show ?thesis
  proof (cases rule: next_head_cases)
    case finished
    with step started show ?thesis
      by (auto simp: sr_latch_step_def sr_latch_observed_def sr_latch_predicted_def change_samples_def
          record_changes_def)
  next
    case (set t)
    let ?c = "c\<lparr>src_node := ?n\<lparr>sr_set_head := None\<rparr>\<rparr>"
    have ev: "sr_latch_events (?c\<lparr>src_node := m, src_out := o'\<rparr>) = sr_latch_events ?c"
      "sr_latch_remaining (?c\<lparr>src_node := m, src_out := o'\<rparr>) = sr_latch_remaining ?c"
      if "sr_set_head m = None" "sr_reset_head m = sr_reset_head ?n" "sr_set_eos m = sr_set_eos ?n"
        "sr_reset_eos m = sr_reset_eos ?n" for m o'
      using that by (simp_all add: sr_latch_events_def sr_latch_remaining_def)
    show ?thesis
      using step set started out good ev
      by (auto simp: sr_latch_step_def clamp Let_def port_simps sr_latch_predicted_def sr_latch_good_def
          change_samples_def record_changes_def split: if_splits)
  next
    case (reset t)
    let ?c = "c\<lparr>src_node := ?n\<lparr>sr_reset_head := None\<rparr>\<rparr>"
    have ev: "sr_latch_events (?c\<lparr>src_node := m, src_out := o'\<rparr>) = sr_latch_events ?c"
      "sr_latch_remaining (?c\<lparr>src_node := m, src_out := o'\<rparr>) = sr_latch_remaining ?c"
      if "sr_reset_head m = None" "sr_set_head m = sr_set_head ?n" "sr_set_eos m = sr_set_eos ?n"
        "sr_reset_eos m = sr_reset_eos ?n" for m o'
      using that by (simp_all add: sr_latch_events_def sr_latch_remaining_def)
    show ?thesis
      using step reset started out good ev
      by (auto simp: sr_latch_step_def clamp Let_def port_simps sr_latch_predicted_def sr_latch_good_def
          change_samples_def record_changes_def split: if_splits)
  qed
qed

interpretation sr_latch: filling_node sr_latch_fill sr_latch_step sr_latch_good sr_latch_ready
  sr_latch_remaining sr_latch_observed sr_latch_predicted
proof (unfold_locales, goal_cases)
  case (1 c)
  with sr_latch_fill_keeps [OF 1] show ?case by auto
next
  case (2 c err c')
  with sr_latch_fill_keeps [OF 2(1)] show ?case by auto
next
  case (3 c n c')
  from sr_latch_step_refines [OF 3] show ?case by simp
next
  case (4 c e c')
  from sr_latch_step_refines [OF 4] show ?case by simp
qed

section \<open>The level of a latch\<close>

definition tie_order :: "bool \<times> u64 \<Rightarrow> bool \<times> u64 \<Rightarrow> bool" where
  "tie_order a b \<longleftrightarrow> snd a < snd b \<or> (snd a = snd b \<and> (fst a \<or> \<not> fst b))"

lemma latch_merge_set:
  "set (latch_merge ss rs) = (\<lambda>s. (True, te_timestamp_ns s)) ` set ss \<union> (\<lambda>r. (False, te_timestamp_ns r)) ` set rs"
  by (induction ss rs rule: latch_merge.induct) auto

lemma latch_merge_sorted:
  assumes "sorted_by te_timestamp_ns ss" "sorted_by te_timestamp_ns rs"
  shows "sorted_wrt tie_order (latch_merge ss rs)"
  using assms
proof (induction ss rs rule: latch_merge.induct)
  case (1 s ss r rs)
  show ?case
  proof (cases "te_timestamp_ns s \<le> te_timestamp_ns r")
    case True
    have "\<forall>x\<in>set (latch_merge ss (r # rs)). te_timestamp_ns s \<le> snd x"
      using 1(3,4) True by (auto simp: latch_merge_set intro: order_trans)
    then have "\<forall>x\<in>set (latch_merge ss (r # rs)). tie_order (True, te_timestamp_ns s) x"
      by (auto simp: tie_order_def order.order_iff_strict)
    with True 1 show ?thesis by simp
  next
    case False
    have "\<forall>x\<in>set (latch_merge (s # ss) rs). tie_order (False, te_timestamp_ns r) x"
      using 1(3,4) False
      by (auto simp: latch_merge_set tie_order_def not_le order.order_iff_strict dest: order.strict_trans1)
    with False 1 show ?thesis by simp
  qed
next
  case (2 ss)
  from 2(1) show ?case by (induction ss) (auto simp: tie_order_def order.order_iff_strict)
next
  case (3 r rs)
  from 3(2) have "sorted_wrt tie_order (map (\<lambda>r. (False, te_timestamp_ns r)) (r # rs))"
    by (induction "r # rs" arbitrary: r rs) (auto simp: tie_order_def order.order_iff_strict sorted_wrt_map)
  then show ?case by simp
qed

lemma change_samples_simps [simp]:
  "change_samples [] = []"
  "change_samples ((v, t) # xs) = \<lparr>s_value = v, s_start_time_ns = t\<rparr> # change_samples xs"
  by (simp_all add: change_samples_def sample_new_def)

lemma change_samples_later:
  "\<forall>x\<in>set xs. p < snd x \<Longrightarrow> level_at b (change_samples xs) p = b"
  by (rule level_at_later) (auto simp: change_samples_def sample_new_def)

lemma latch_changes_times:
  "x \<in> set (latch_changes b l xs) \<Longrightarrow> l \<le> snd x"
  by (induction b l xs rule: latch_changes.induct) (fastforce split: if_splits)+

lemma latch_changes_level:
  assumes "sorted_wrt tie_order xs" "\<forall>x\<in>set xs. l \<le> snd x"
  shows "level_at b (change_samples (latch_changes b l xs)) p = level_at b (change_samples xs) p"
  using assms
proof (induction b l xs rule: latch_changes.induct)
  case (2 b l v t xs)
  have later: "\<forall>x\<in>set xs. t \<le> snd x" using 2(3) by (auto simp: tie_order_def)
  show ?case
  proof (cases "v = b")
    case True
    with 2 show ?thesis by simp
  next
    case False
    have m: "max t l = t" using 2(4) by (simp add: max_absorb1)
    show ?thesis
    proof (cases "t \<le> p")
      case True
      with False m 2(2) 2(3) later show ?thesis by simp
    next
      case before: False
      have "\<forall>x\<in>set (latch_changes v t xs). p < snd x"
      proof
        fix x assume "x \<in> set (latch_changes v t xs)"
        then have "t \<le> snd x" by (rule latch_changes_times)
        with before show "p < snd x" by (simp add: not_le order.strict_trans2)
      qed
      moreover have "\<forall>x\<in>set xs. p < snd x" using later before by (auto simp: not_le)
      ultimately show ?thesis using False m before by (simp add: change_samples_later)
    qed
  qed
qed simp

lemma record_changes_level:
  assumes "edges_inv q" "value_at q p = Some b"
  shows "edges_inv (record_changes xs q) \<and>
    value_at (record_changes xs q) p = Some (level_at b (change_samples xs) p)"
  using assms
proof (induction xs arbitrary: q b)
  case (Cons x xs)
  obtain v t where x: "x = (v, t)" by (cases x)
  have "value_at (record_edge t v q) p = Some (if t \<le> p then v else b)"
    using Cons.prems record_edge_before [of q p t v] record_edge_after [of q t p v] by auto
  from Cons.IH [OF record_edge_inv [OF Cons.prems(1)] this] show ?case
    by (simp add: record_changes_def x)
qed (simp add: record_changes_def)

text \<open>
  A level given by ordered sets and resets: high when the latest event is a set, the reset
  winning a tie, or when the initial level is high and there was no reset.
\<close>

definition latched :: "bool \<Rightarrow> u64 list \<Rightarrow> u64 list \<Rightarrow> u64 \<Rightarrow> bool" where
  "latched initial sets resets t \<longleftrightarrow>
     (\<exists>s\<in>set sets. s \<le> t \<and> (\<forall>r\<in>set resets. r \<le> t \<longrightarrow> r < s)) \<or>
     (initial \<and> (\<forall>r\<in>set resets. \<not> r \<le> t))"

lemma level_latched:
  assumes "sorted_wrt tie_order xs"
  shows "level_at b (change_samples xs) t \<longleftrightarrow>
    (\<exists>x\<in>set xs. fst x \<and> snd x \<le> t \<and> (\<forall>y\<in>set xs. \<not> fst y \<longrightarrow> snd y \<le> t \<longrightarrow> snd y < snd x)) \<or>
    (b \<and> (\<forall>y\<in>set xs. \<not> fst y \<longrightarrow> \<not> snd y \<le> t))"
  using assms
proof (induction xs arbitrary: b)
  case (Cons x xs)
  obtain v u where x: "x = (v, u)" by (cases x)
  have order: "\<forall>y\<in>set xs. u < snd y \<or> (u = snd y \<and> (v \<or> \<not> fst y))"
    using Cons.prems by (auto simp: x tie_order_def)
  note IH = Cons.IH [of "if u \<le> t then v else b"]
  consider (later) "\<not> u \<le> t" | (set) "u \<le> t" "v" | (reset) "u \<le> t" "\<not> v" by blast
  then show ?case
  proof cases
    case later
    then have "\<forall>y\<in>set xs. \<not> snd y \<le> t" using order by fastforce
    with later IH Cons.prems show ?thesis by (auto simp: x)
  next
    case set
    have "\<forall>y\<in>set xs. \<not> snd y < u" using order by fastforce
    with set IH Cons.prems show ?thesis by (auto simp: x)
  next
    case reset
    have "\<forall>y\<in>set xs. fst y \<longrightarrow> u < snd y" using order reset by auto
    with reset IH Cons.prems show ?thesis by (auto simp: x)
  qed
qed simp

section \<open>Properties\<close>

text \<open>
  C38: On finite, ordered set and reset streams the scheduler's loop over a fresh latch ends with
  the regular shutdown, and at every instant the emitted level stream and the recorded edge
  query agree: high when the latest event at or before the instant is a set (a reset wins a tie),
  the initial level when there was none.
\<close>
theorem sr_latch_level:
  assumes "ends sets" "ends resets" "open_port out" "sent out = []"
    and "sorted_by te_timestamp_ns (stream sets)" "sorted_by te_timestamp_ns (stream resets)"
    and "length (stream sets) + length (stream resets) < fuel"
  shows "\<exists>c n. run_node fuel sr_latch_work never_stop
      \<lparr>src_node = sr_latch_new initial, src_set = Some sets, src_reset = Some resets, src_out = Some out\<rparr> 0 =
        Some (Some Shutdown, c, n) \<and>
    (\<forall>t. level_at initial (log_of (src_out c)) t =
        latched initial (map te_timestamp_ns (stream sets)) (map te_timestamp_ns (stream resets)) t \<and>
      value_at (sr_edge_query (src_node c)) t = Some (level_at initial (log_of (src_out c)) t))"
proof -
  let ?c = "\<lparr>src_node = sr_latch_new initial, src_set = Some sets, src_reset = Some resets, src_out = Some out\<rparr>"
  let ?xs = "latch_merge (stream sets) (stream resets)" and ?q = "recorded_edge_query_new initial"
  let ?changes = "latch_changes initial 0 ?xs"
  have "sr_latch_good ?c" "sr_latch_remaining ?c < fuel"
    using assms by (simp_all add: sr_latch_views sr_latch_new_def port_pending_def pending_def port_ends_def)
  from sr_latch.run_completes [OF this, of 0] obtain c n where
    run: "run_node fuel sr_latch_work never_stop ?c 0 = Some (Some Shutdown, c, n)"
    and obs: "sr_latch_observed c = sr_latch_predicted ?c" by (auto simp: sr_latch_work_def)
  have log: "log_of (src_out c) = sample_new initial 0 # change_samples ?changes"
    and query: "sr_edge_query (src_node c) = record_changes ?changes ?q"
    using obs assms(4) by (simp_all add: sr_latch_views sr_latch_new_def port_pending_def pending_def)
  have sorted: "sorted_wrt tie_order ?xs" using latch_merge_sorted assms(5,6) by blast
  have level: "level_at initial (log_of (src_out c)) t = level_at initial (change_samples ?xs) t" for t
    using latch_changes_level [OF sorted, of 0] by (simp add: log sample_new_def)
  have "level_at initial (change_samples ?xs) t =
      latched initial (map te_timestamp_ns (stream sets)) (map te_timestamp_ns (stream resets)) t" for t
    unfolding level_latched [OF sorted] latched_def latch_merge_set
    by (simp add: bex_Un ball_Un)
  moreover have "value_at (sr_edge_query (src_node c)) t = Some (level_at initial (log_of (src_out c)) t)" for t
    using record_changes_level [OF edges_inv_new, of initial t initial ?changes]
    by (simp add: query log sample_new_def value_at_last [OF edges_inv_new]) (simp add: recorded_edge_query_new_def)
  ultimately show ?thesis using run level by auto
qed

theorem sr_latch_level_witness:
  "\<exists>c n. run_node 4 sr_latch_work never_stop
      \<lparr>src_node = sr_latch_new False,
       src_set = Some \<lparr>rx_queue = [Sample_Message \<lparr>te_timestamp_ns = 10\<rparr>], rx_connected = False, rx_buffer = [], rx_eos = False\<rparr>,
       src_reset = Some \<lparr>rx_queue = [Sample_Message \<lparr>te_timestamp_ns = 20\<rparr>], rx_connected = False, rx_buffer = [], rx_eos = False\<rparr>,
       src_out = Some \<lparr>sent = [], open_port = True\<rparr>\<rparr> 0 = Some (Some Shutdown, c, n) \<and>
    level_at False (log_of (src_out c)) 15 \<and> \<not> level_at False (log_of (src_out c)) 20"
  using sr_latch_level [of
      "\<lparr>rx_queue = [Sample_Message \<lparr>te_timestamp_ns = 10\<rparr>], rx_connected = False, rx_buffer = [], rx_eos = False\<rparr>"
      "\<lparr>rx_queue = [Sample_Message \<lparr>te_timestamp_ns = 20\<rparr>], rx_connected = False, rx_buffer = [], rx_eos = False\<rparr>"
      "\<lparr>sent = [], open_port = True\<rparr>" 4 False]
  by (auto simp: stream_def ends_def latched_def)

end
