(* ===== verification/Field_Extractor.thy ===== *)
theory Field_Extractor
  imports Node_Runtime Signal_Events Stream_Transforms
begin

text \<open>
  The word field extractor, \<^verbatim>\<open>crates/signal_transforms/src/word_field_extractor/extractor.rs\<close>: a
  contiguous bit field of each word. The theorem relates the bit loops to a shift and a mask of
  the number a word stands for.
\<close>

section \<open>Operations\<close>

record word_field_extractor =
  wf_name :: string
  wf_first_bit :: nat
  wf_bit_count :: nat

definition word_field_extractor_new :: "nat \<Rightarrow> nat \<Rightarrow> word_field_extractor" where
  "word_field_extractor_new first_bit bit_count =
     \<lparr>wf_name = ''word_field_extractor'', wf_first_bit = first_bit, wf_bit_count = max bit_count 1\<rparr>"

definition word_field_extractor_with_name :: "word_field_extractor \<Rightarrow> string \<Rightarrow> word_field_extractor" where
  "word_field_extractor_with_name x name = x\<lparr>wf_name := name\<rparr>"

definition word_field_extractor_input_schema :: "port_schema list" where
  "word_field_extractor_input_schema = [port_schema_new ''Word'' ''words'' 0 Input]"

definition word_field_extractor_output_schema :: "port_schema list" where
  "word_field_extractor_output_schema =
     [with_default_buffer_capacity 8 (port_schema_new ''Word'' ''field'' 0 Output)]"

definition byte_bit :: "u8 list \<Rightarrow> nat \<Rightarrow> bool" where
  "byte_bit bytes b =
     (let byte_from_end = b div 8
      in if length bytes \<le> byte_from_end then False
         else bytes ! (length bytes - 1 - byte_from_end) AND push_bit (b mod 8) 1 \<noteq> 0)"

definition source_bit :: "decoded_word \<Rightarrow> nat \<Rightarrow> bool" where
  "source_bit word b =
     (case w_payload word of
        Some (Bytes bytes) \<Rightarrow> byte_bit bytes b
      | _ \<Rightarrow> b < 64 \<and> w_value word AND push_bit b 1 \<noteq> 0)"

definition low_value :: "word_field_extractor \<Rightarrow> decoded_word \<Rightarrow> u64" where
  "low_value x word =
     fold (\<lambda>output_bit value.
         if source_bit word (usize_saturating_add (wf_first_bit x) output_bit)
         then value OR push_bit output_bit 1 else value)
       [0..<min (wf_bit_count x) 64] 0"

definition extracted_bytes :: "word_field_extractor \<Rightarrow> decoded_word \<Rightarrow> u8 list" where
  "extracted_bytes x word =
     fold (\<lambda>output_bit bytes.
         if source_bit word (usize_saturating_add (wf_first_bit x) output_bit)
         then (let byte_from_end = output_bit div 8; index = length bytes - 1 - byte_from_end
               in bytes[index := bytes ! index OR push_bit (output_bit mod 8) 1])
         else bytes)
       [0..<wf_bit_count x] (replicate (div_ceil (wf_bit_count x) 8) 0)"

definition extract_field :: "word_field_extractor \<Rightarrow> decoded_word \<Rightarrow> decoded_word" where
  "extract_field x word =
     (let value = low_value x word
      in if wf_bit_count x \<le> 64 then word_spanning value (w_timestamp_ns word) (w_duration_ns word)
         else word_bytes_with_tag value (extracted_bytes x word) (w_timestamp_ns word) (w_duration_ns word))"

definition word_field_extractor_step :: "decoded_word \<Rightarrow> word_field_extractor \<Rightarrow>
    decoded_word list \<times> word_field_extractor" where
  "word_field_extractor_step word x = ([extract_field x word], x)"

definition word_field_extractor_work :: "(word_field_extractor, decoded_word, decoded_word) unary_ctx work_fun" where
  "word_field_extractor_work =
     unary_work ''Missing words input'' ''Missing field output'' no_start word_field_extractor_step"

section \<open>The number a word stands for\<close>

text \<open>A byte payload is a big-endian number; any other word stands for its value.\<close>

fun be_value :: "u8 list \<Rightarrow> nat" where
  "be_value [] = 0"
| "be_value (b # bs) = unat b * 256 ^ length bs + be_value bs"

definition word_number :: "decoded_word \<Rightarrow> nat" where
  "word_number word =
     (case w_payload word of Some (Bytes bytes) \<Rightarrow> be_value bytes | _ \<Rightarrow> unat (w_value word))"

lemma be_value_less: "be_value bs < 256 ^ length bs"
proof (induction bs)
  case (Cons b bs)
  have "unat b < 256" using unsigned_less [of b, where ?'a = nat] by simp
  then have "Suc (unat b) * 256 ^ length bs \<le> 256 * 256 ^ length bs"
    by (intro mult_le_mono1) simp
  moreover have "be_value (b # bs) < Suc (unat b) * 256 ^ length bs" using Cons by simp
  moreover have "256 ^ length (b # bs) = 256 * (256 :: nat) ^ length bs" by simp
  ultimately show ?case by (metis order.strict_trans2)
qed simp

lemma bit_unat: "bit (unat w) n \<longleftrightarrow> bit w n" for w :: "'a::len word"
  by (simp add: bit_unsigned_iff possible_bit_def)

lemma be_value_bit: "bit (be_value bs) p \<longleftrightarrow> p div 8 < length bs \<and> bit (bs ! (length bs - 1 - p div 8)) (p mod 8)"
proof (induction bs)
  case (Cons b bs)
  let ?m = "8 * length bs"
  have low: "take_bit ?m (be_value bs) = be_value bs"
    using be_value_less [of bs] by (simp add: take_bit_nat_eq_self_iff power_mult)
  have "be_value (b # bs) = push_bit ?m (unat b) + be_value bs"
    by (simp add: push_bit_eq_mult power_mult)
  also have "\<dots> = push_bit ?m (unat b) OR be_value bs"
    by (rule disjunctive_add) (use low in \<open>auto simp: bit_push_bit_iff bit_take_bit_iff\<close>, metis bit_take_bit_iff not_le)
  finally have eq: "bit (be_value (b # bs)) p \<longleftrightarrow> (?m \<le> p \<and> bit b (p - ?m)) \<or> bit (be_value bs) p"
    by (simp add: bit_or_iff bit_push_bit_iff bit_unat possible_bit_def)
  show ?case
  proof (cases "p div 8 < length bs")
    case True
    then have "p < ?m" by (simp add: div_less_iff_less_mult mult.commute)
    with True eq Cons show ?thesis by (auto simp: nth_Cons')
  next
    case False
    then have "?m \<le> p" by (simp add: div_less_iff_less_mult mult.commute not_less)
    have not_low: "\<not> bit (be_value bs) p" using Cons False by simp
    show ?thesis
    proof (cases "p div 8 = length bs")
      case True
      then have "p - ?m = p mod 8" by (metis minus_mod_eq_mult_div add_diff_cancel_right' mod_div_decomp mult.commute minus_div_mult_eq_mod)
      with True eq not_low \<open>?m \<le> p\<close> show ?thesis by simp
    next
      case neq: False
      have "8 \<le> p - ?m" using False neq by linarith
      then have "\<not> bit b (p - ?m)" using bit_imp_le_length [of b "p - ?m"] by force
      with eq not_low False neq show ?thesis by simp
    qed
  qed
qed simp

lemma source_bit_number: "source_bit word p \<longleftrightarrow> bit (word_number word) p"
proof (cases "\<exists>bytes. w_payload word = Some (Bytes bytes)")
  case True
  then show ?thesis
    by (auto simp: source_bit_def word_number_def byte_bit_def Let_def and_exp_eq_0_iff_not_bit be_value_bit
        split: if_splits)
next
  case False
  have "bit (w_value word) p \<Longrightarrow> p < 64" using bit_imp_le_length [of "w_value word" p] by simp
  with False show ?thesis
    by (auto simp: source_bit_def word_number_def and_exp_eq_0_iff_not_bit bit_unat split: option.splits word_payload.splits)
qed

section \<open>The bit loops\<close>

lemma low_value_bit:
  assumes "n \<le> 64"
  shows "bit (fold (\<lambda>b value. if P b then value OR push_bit b 1 else value) [0..<n] (0 :: u64)) j \<longleftrightarrow> j < n \<and> P j"
  using assms
proof (induction n)
  case (Suc n)
  have one: "bit (2 ^ n :: u64) j \<longleftrightarrow> j = n"
    using Suc.prems by (auto simp: bit_exp_iff)
  from Suc show ?case by (auto simp: bit_or_iff one less_Suc_eq)
qed simp

definition set_output_bit :: "(nat \<Rightarrow> bool) \<Rightarrow> nat \<Rightarrow> u8 list \<Rightarrow> u8 list" where
  "set_output_bit P b bytes =
     (if P b then bytes[length bytes - 1 - b div 8 :=
        bytes ! (length bytes - 1 - b div 8) OR push_bit (b mod 8) 1] else bytes)"

lemma length_set_output_bit [simp]: "length (set_output_bit P b bs) = length bs"
  by (simp add: set_output_bit_def)

lemma extracted_bytes_bits:
  assumes "n \<le> 8 * len"
  shows "length (fold (set_output_bit P) [0..<n] (replicate len 0)) = len \<and>
    (\<forall>k<len. \<forall>i. bit (fold (set_output_bit P) [0..<n] (replicate len 0) ! (len - 1 - k)) i \<longleftrightarrow>
      i < 8 \<and> 8 * k + i < n \<and> P (8 * k + i))"
  using assms
proof (induction n)
  case 0
  then show ?case by (auto simp: set_output_bit_def)
next
  case (Suc n)
  let ?bs = "fold (set_output_bit P) [0..<n] (replicate len 0)"
  have IH: "length ?bs = len"
    "\<And>k i. k < len \<Longrightarrow> bit (?bs ! (len - 1 - k)) i \<longleftrightarrow> i < 8 \<and> 8 * k + i < n \<and> P (8 * k + i)"
    using Suc by auto
  have k0: "n div 8 < len" using Suc.prems by (simp add: div_less_iff_less_mult)
  have one: "bit (2 ^ (n mod 8) :: u8) i \<longleftrightarrow> i = n mod 8" for i
    by (auto simp: bit_exp_iff)
  have split: "8 * k + i < Suc n \<longleftrightarrow> 8 * k + i < n \<or> (k = n div 8 \<and> i = n mod 8)" if "i < 8" for k i
    using that by (auto simp: less_Suc_eq)
  have "bit (set_output_bit P n ?bs ! (len - 1 - k)) i \<longleftrightarrow> i < 8 \<and> 8 * k + i < Suc n \<and> P (8 * k + i)" if k: "k < len" for k i
  proof (cases "k = n div 8")
    case True
    then show ?thesis
      using IH(1) IH(2) [OF k, of i] k0 split [of i k]
      by (cases "i < 8") (auto simp: set_output_bit_def bit_or_iff one)
  next
    case False
    then have "len - 1 - k \<noteq> len - 1 - n div 8" using k k0 by linarith
    then show ?thesis
      using False IH(1) IH(2) [OF k, of i] split [of i k] by (cases "i < 8") (auto simp: set_output_bit_def)
  qed
  with IH(1) show ?case by simp
qed

lemma extracted_bytes_fold:
  "extracted_bytes x word =
     fold (set_output_bit (\<lambda>b. source_bit word (usize_saturating_add (wf_first_bit x) b)))
       [0..<wf_bit_count x] (replicate (div_ceil (wf_bit_count x) 8) 0)"
  unfolding extracted_bytes_def set_output_bit_def [abs_def] Let_def by (rule refl)

lemma low_value_number:
  assumes "wf_first_bit x + wf_bit_count x \<le> usize_bound"
  shows "unat (low_value x word) = take_bit (min (wf_bit_count x) 64) (drop_bit (wf_first_bit x) (word_number word))"
proof (rule bit_eqI)
  fix j
  show "bit (unat (low_value x word)) j =
      bit (take_bit (min (wf_bit_count x) 64) (drop_bit (wf_first_bit x) (word_number word))) j"
    unfolding low_value_def bit_unat
    by (subst low_value_bit)
      (use assms in \<open>auto simp: bit_take_bit_iff bit_drop_bit_eq source_bit_number usize_saturating_add_id\<close>)
qed

lemma extracted_bytes_number:
  assumes "wf_first_bit x + wf_bit_count x \<le> usize_bound"
  shows "length (extracted_bytes x word) = div_ceil (wf_bit_count x) 8 \<and>
    be_value (extracted_bytes x word) = take_bit (wf_bit_count x) (drop_bit (wf_first_bit x) (word_number word))"
proof -
  let ?P = "\<lambda>b. source_bit word (usize_saturating_add (wf_first_bit x) b)"
  have ceil: "wf_bit_count x \<le> 8 * div_ceil (wf_bit_count x) 8"
    using div_ceil_mult_ge [of 8 "wf_bit_count x"] by (simp add: mult.commute)
  have bits: "length (extracted_bytes x word) = div_ceil (wf_bit_count x) 8"
    "\<And>k i. k < div_ceil (wf_bit_count x) 8 \<Longrightarrow>
       bit (extracted_bytes x word ! (div_ceil (wf_bit_count x) 8 - 1 - k)) i \<longleftrightarrow>
       i < 8 \<and> 8 * k + i < wf_bit_count x \<and> ?P (8 * k + i)"
    using extracted_bytes_bits [OF ceil, of ?P] by (simp_all only: extracted_bytes_fold)
  have bit: "bit (be_value (extracted_bytes x word)) p \<longleftrightarrow> p < wf_bit_count x \<and> ?P p" for p
  proof (cases "p div 8 < div_ceil (wf_bit_count x) 8")
    case True
    with bits show ?thesis by (simp add: be_value_bit)
  next
    case False
    then have "\<not> p < wf_bit_count x" using ceil by linarith
    with False bits show ?thesis by (simp add: be_value_bit)
  qed
  have "be_value (extracted_bytes x word) =
      take_bit (wf_bit_count x) (drop_bit (wf_first_bit x) (word_number word))"
  proof (intro bit_eqI)
    fix p
    have "?P p \<longleftrightarrow> bit (word_number word) (wf_first_bit x + p)" if "p < wf_bit_count x"
      using that assms by (simp add: source_bit_number usize_saturating_add_id)
    then show "bit (be_value (extracted_bytes x word)) p =
        bit (take_bit (wf_bit_count x) (drop_bit (wf_first_bit x) (word_number word))) p"
      using bit [of p] by (auto simp: bit_take_bit_iff bit_drop_bit_eq)
  qed
  with bits show ?thesis by simp
qed

section \<open>Properties\<close>

text \<open>
  The extracted field is the number the word stands for (its value, or its bytes read as a
  big-endian number), shifted right by \<open>first_bit\<close> and cut to \<open>bit_count\<close> bits. A field of at most
  64 bits is a numeric word; a wider one has the field as big-endian bytes and its low 64 bits as
  the value. The time span is kept.
\<close>
theorem extract_field_correct:
  assumes "wf_first_bit x + wf_bit_count x \<le> usize_bound"
    and "field = take_bit (wf_bit_count x) (drop_bit (wf_first_bit x) (word_number word))"
  shows "unat (w_value (extract_field x word)) = take_bit 64 field \<and>
    w_timestamp_ns (extract_field x word) = w_timestamp_ns word \<and>
    w_duration_ns (extract_field x word) = w_duration_ns word \<and>
    word_number (extract_field x word) = field \<and>
    (w_payload (extract_field x word) = None \<longleftrightarrow> wf_bit_count x \<le> 64)"
proof -
  have numeric: "word_number (word_spanning v t d) = unat v"
    "word_number (word_bytes_with_tag v bs t d) = be_value bs" for v t d bs
    by (simp_all add: word_number_def word_spanning_def word_bytes_with_tag_def)
  have "take_bit 64 field = take_bit (min (wf_bit_count x) 64)
      (drop_bit (wf_first_bit x) (word_number word))"
    by (simp add: assms(2) min.commute)
  with low_value_number [OF assms(1), of word] have low: "unat (low_value x word) = take_bit 64 field"
    by simp
  moreover have "take_bit 64 field = field" if "wf_bit_count x \<le> 64"
    using that by (simp add: assms(2) min.absorb2)
  ultimately show ?thesis
    using extracted_bytes_number [OF assms(1), of word] assms(2)
    by (cases "wf_bit_count x \<le> 64")
      (simp_all add: extract_field_def Let_def numeric, simp_all add: word_spanning_def word_bytes_with_tag_def)
qed

theorem extract_field_correct_witness:
  "unat (w_value (extract_field (word_field_extractor_new 4 8) (word_new 0xABCD 7))) = 0xBC"
  using extract_field_correct [of "word_field_extractor_new 4 8" _ "word_new 0xABCD 7", OF _ refl]
  by (simp add: word_field_extractor_new_def word_number_def word_new_def drop_bit_eq_div take_bit_eq_mod)

end
