(* ===== verification/Vlq.thy ===== *)
theory Vlq
  imports Rust_Prelude
begin

text \<open>
  The unsigned LEB128 integers of \<^verbatim>\<open>crates/signal_derived/src/derived_word_store/vlq.rs\<close> and the
  error type of the block codec (\<^verbatim>\<open>errors.rs\<close>). A read takes the whole input and a cursor, and
  returns the value with the advanced cursor.
\<close>

section \<open>Errors\<close>

datatype codec_error =
    EmptyBlock
  | OutOfOrder nat u64 u64
  | InvalidRestartInterval
  | InvalidConfiguration string
  | TooManyWords nat
  | Truncated
  | VlqOverflow
  | InvalidFormat string
  | ChecksumMismatch u32 u32

type_synonym 'a codec_result = "codec_error + 'a"

section \<open>Encoding and decoding\<close>

function encode_u64 :: "u64 \<Rightarrow> u8 list" where
  "encode_u64 value =
     (let byte = ucast (value AND 0x7f) :: u8; rest = drop_bit 7 value
      in if rest \<noteq> 0 then (byte OR 0x80) # encode_u64 rest else [byte])"
  by pat_completeness auto

lemma drop_bit_less:
  assumes "drop_bit 7 v \<noteq> (0 :: u64)"
  shows "unat (drop_bit 7 v) < unat v"
proof -
  have "unat (drop_bit 7 v) = unat v div 128" by (simp add: drop_bit_eq_div unat_div)
  moreover have "unat v \<noteq> 0" using assms by (auto simp: unat_eq_0)
  ultimately show ?thesis by simp
qed

termination encode_u64
  by (relation "measure unat") (use drop_bit_less in auto)

declare encode_u64.simps [simp del]

function decode_loop :: "u8 list \<Rightarrow> nat \<Rightarrow> nat \<Rightarrow> u64 \<Rightarrow> (u64 \<times> nat) codec_result" where
  "decode_loop input cursor byte_index value =
     (if 10 \<le> byte_index then Inl VlqOverflow
      else if length input \<le> cursor then Inl Truncated
      else
        let byte = input ! cursor
        in if byte_index = 9 \<and> byte > 1 then Inl VlqOverflow
           else
             let value' = value OR push_bit (byte_index * 7) (ucast (byte AND 0x7f))
             in if byte AND 0x80 = 0 then Inr (value', Suc cursor)
                else decode_loop input (Suc cursor) (Suc byte_index) value')"
  by pat_completeness auto

termination decode_loop
  by (relation "measure (\<lambda>(_, _, byte_index, _). 10 - byte_index)") auto

declare decode_loop.simps [simp del]

definition decode_u64 :: "u8 list \<Rightarrow> nat \<Rightarrow> (u64 \<times> nat) codec_result" where
  "decode_u64 input cursor = decode_loop input cursor 0 0"

text \<open>The number of significant bits of a natural number.\<close>

fun bit_length :: "nat \<Rightarrow> nat" where
  "bit_length n = (if n = 0 then 0 else Suc (bit_length (n div 2)))"

declare bit_length.simps [simp del]

definition leading_zeros :: "u64 \<Rightarrow> nat" where
  "leading_zeros value = 64 - bit_length (unat value)"

definition encoded_len :: "u64 \<Rightarrow> nat" where
  "encoded_len value =
     (let significant_bits = (if value = 0 then 1 else 64 - leading_zeros value)
      in div_ceil significant_bits 7)"

section \<open>Lengths\<close>

lemma bit_length_0 [simp]: "bit_length 0 = 0"
  by (simp add: bit_length.simps)

lemma bit_length_Suc_div: "0 < n \<Longrightarrow> bit_length n = Suc (bit_length (n div 2))"
  by (subst bit_length.simps) simp

lemma bit_length_le: "n < 2 ^ k \<Longrightarrow> bit_length n \<le> k"
proof (induction k arbitrary: n)
  case (Suc k)
  then have "n div 2 < 2 ^ k" by simp
  with Suc show ?case by (cases "n = 0") (auto simp: bit_length_Suc_div)
qed simp

lemma bit_length_div_pow:
  assumes "n div 2 ^ k \<noteq> 0"
  shows "bit_length n = k + bit_length (n div 2 ^ k)"
  using assms
proof (induction k arbitrary: n)
  case (Suc k)
  have "n div 2 div 2 ^ k = n div 2 ^ Suc k" by (simp add: div_mult2_eq)
  with Suc.IH [of "n div 2"] Suc.prems show ?case
    by (cases "n = 0") (auto simp: bit_length_Suc_div)
qed simp

lemma significant_bits:
  "encoded_len v = div_ceil (max 1 (bit_length (unat v))) 7"
proof -
  have "bit_length (unat v) \<le> 64"
    using unsigned_less [of v, where ?'a = nat] by (intro bit_length_le) simp
  moreover have "v \<noteq> 0 \<Longrightarrow> 0 < bit_length (unat v)"
    by (simp add: bit_length_Suc_div unat_gt_0)
  ultimately show ?thesis by (auto simp: encoded_len_def leading_zeros_def Let_def max_def)
qed

lemma unat_drop_7: "unat (drop_bit 7 v) = unat v div 128" for v :: u64
  by (simp add: drop_bit_eq_div unat_div)

lemma drop_7_eq_0: "drop_bit 7 v = 0 \<longleftrightarrow> unat v < 128" for v :: u64
  using unat_drop_7 [of v] by (metis div_eq_0_iff unat_eq_0 zero_neq_numeral)

lemma length_encode_u64: "length (encode_u64 v) = encoded_len v"
proof (induction v rule: encode_u64.induct)
  case (1 v)
  show ?case
  proof (cases "drop_bit 7 v = 0")
    case True
    then have "bit_length (unat v) \<le> 7" by (intro bit_length_le) (simp add: drop_7_eq_0)
    with True show ?thesis
      by (auto simp: encode_u64.simps [of v] significant_bits div_ceil_def max_def)
  next
    case False
    then have "unat v div 2 ^ 7 \<noteq> 0" by (simp add: drop_7_eq_0)
    then have "bit_length (unat v) = 7 + bit_length (unat (drop_bit 7 v))"
      using bit_length_div_pow [of "unat v" 7] by (simp add: unat_drop_7)
    moreover have "0 < bit_length (unat (drop_bit 7 v))"
      using False by (simp add: bit_length_Suc_div unat_gt_0)
    moreover have "length (encode_u64 v) = Suc (encoded_len (drop_bit 7 v))"
      using False 1 [OF refl refl False] by (simp add: encode_u64.simps [of v])
    ultimately show ?thesis
      by (simp add: significant_bits div_ceil_def max_def)
  qed
qed

lemma encoded_len_bounds: "1 \<le> encoded_len v \<and> encoded_len v \<le> 10"
proof -
  have "bit_length (unat v) \<le> 64"
    using unsigned_less [of v, where ?'a = nat] by (intro bit_length_le) simp
  then have "1 \<le> div_ceil (max 1 (bit_length (unat v))) 7 \<and> div_ceil (max 1 (bit_length (unat v))) 7 \<le> 10"
    unfolding div_ceil_def by linarith
  then show ?thesis by (simp add: significant_bits)
qed

lemma encode_u64_ne [simp]: "encode_u64 v \<noteq> []"
  by (subst encode_u64.simps) (simp add: Let_def)

section \<open>Round trip\<close>

lemma low_7_byte:
  "ucast (v AND 0x7f) AND (0x80 :: u8) = 0"
  "(ucast (v AND 0x7f) OR 0x80) AND (0x80 :: u8) \<noteq> 0"
  "ucast ((ucast (v AND 0x7f) :: u8) AND 0x7f) = v AND 0x7f"
  "ucast (((ucast (v AND 0x7f) :: u8) OR 0x80) AND 0x7f) = v AND 0x7f"
  for v :: u64
proof -
  have m: "(0x7f :: u64) = mask 7" "(0x7f :: u8) = mask 7" "(0x80 :: u8) = 2 ^ 7"
    by (simp_all add: mask_eq_decr_exp)
  show "ucast (v AND 0x7f) AND (0x80 :: u8) = 0" unfolding m
    by (simp only: and_exp_eq_0_iff_not_bit) (simp add: bit_simps)
  show "(ucast (v AND 0x7f) OR 0x80) AND (0x80 :: u8) \<noteq> 0" unfolding m
    by (simp add: and_exp_eq_0_iff_not_bit bit_simps)
  show plain: "ucast ((ucast (v AND 0x7f) :: u8) AND 0x7f) = v AND 0x7f" unfolding m
    by (rule bit_eqI) (auto simp: bit_simps)
  have "(x OR 0x80) AND 0x7f = x AND 0x7f" for x :: u8
    by (simp add: bit.conj_disj_distrib2)
  with plain show "ucast (((ucast (v AND 0x7f) :: u8) OR 0x80) AND 0x7f) = v AND 0x7f"
    by (simp only:)
qed

lemma push_7_split:
  "push_bit (i * 7) (v AND 0x7f) OR push_bit (Suc i * 7) (drop_bit 7 v) = push_bit (i * 7) v"
  for v :: u64
proof -
  have m: "(0x7f :: u64) = mask 7" by (simp add: mask_eq_decr_exp)
  show ?thesis unfolding m
  proof (rule bit_eqI)
    fix n
    have "7 + (n - (7 + i * 7)) = n - i * 7" if "7 \<le> n - i * 7" using that by simp
    then show "bit (push_bit (i * 7) (v AND mask 7) OR push_bit (Suc i * 7) (drop_bit 7 v)) n =
        bit (push_bit (i * 7) v) n"
      by (cases "n - i * 7 < 7") (auto simp: bit_simps)
  qed
qed

lemma decode_loop_encode:
  assumes "unat v < 2 ^ (64 - i * 7)" "i < 10"
  shows "decode_loop (pre @ encode_u64 v @ post) (length pre) i acc =
    Inr (acc OR push_bit (i * 7) v, length pre + length (encode_u64 v))"
  using assms
proof (induction v arbitrary: pre i acc rule: encode_u64.induct)
  case (1 v)
  note step = decode_loop.simps [of _ "length pre" i acc]
  show ?case
  proof (cases "drop_bit 7 v = 0")
    case True
    then have e: "encode_u64 v = [ucast (v AND 0x7f)]" by (simp add: encode_u64.simps [of v])
    have v: "v AND 0x7f = v"
      using push_7_split [of 0 v] True by simp
    have "\<not> (1 :: u8) < ucast v" if "i = 9"
    proof -
      from that 1(2) have "unat v < 2" by simp
      then have "unat v = 0 \<or> unat v = 1" by linarith
      then have "v = 0 \<or> v = 1" by (metis unat_eq_0 unsigned_1 word_unat_eq_iff)
      then show ?thesis by auto
    qed
    then show ?thesis using 1(3) True low_7_byte [of v] by (simp add: e step Let_def v)
  next
    case False
    then have e: "encode_u64 v = (ucast (v AND 0x7f) OR 0x80) # encode_u64 (drop_bit 7 v)"
      by (simp add: encode_u64.simps [of v])
    have big: "128 \<le> unat v" using False by (simp add: drop_7_eq_0)
    have i9: "i < 9"
    proof (rule ccontr)
      assume "\<not> i < 9"
      with 1(3) have "i = 9" by simp
      with 1(2) big show False by simp
    qed
    have "unat (drop_bit 7 v) < 2 ^ (64 - Suc i * 7)"
    proof -
      have "(2 :: nat) ^ (64 - i * 7) = 2 ^ (64 - Suc i * 7) * 128"
        using i9 power_add [of "2 :: nat" "64 - Suc i * 7" 7] by simp
      with 1(2) show ?thesis by (simp add: unat_drop_7 less_mult_imp_div_less)
    qed
    with 1(1) [OF refl refl False, of "Suc i" "pre @ [ucast (v AND 0x7f) OR 0x80]"
        "acc OR push_bit (i * 7) (v AND 0x7f)"] i9
    show ?thesis
      using low_7_byte [of v] push_7_split [of i v]
      by (simp add: e step Let_def or.assoc)
  qed
qed

lemma decode_encode_u64:
  "decode_u64 (pre @ encode_u64 v @ post) (length pre) = Inr (v, length pre + length (encode_u64 v))"
  using decode_loop_encode [of v 0 pre post 0] unsigned_less [of v, where ?'a = nat]
  by (simp add: decode_u64_def)

text \<open>The same at a cursor into a buffer that is known to hold the encoding there.\<close>

lemma decode_u64_at:
  assumes "drop cursor input = encode_u64 v @ post" "cursor \<le> length input"
  shows "decode_u64 input cursor = Inr (v, cursor + encoded_len v)"
proof -
  have "input = take cursor input @ encode_u64 v @ post"
    using assms(1) by (metis append_take_drop_id)
  moreover have "length (take cursor input) = cursor" using assms(2) by simp
  ultimately show ?thesis using decode_encode_u64 [of "take cursor input" v post] by (simp add: length_encode_u64)
qed

lemma decode_loop_advances:
  assumes "decode_loop input cursor i acc = Inr (v, c)"
  shows "cursor < c \<and> c \<le> length input \<and> c + i \<le> cursor + 10"
  using assms
proof (induction input cursor i acc rule: decode_loop.induct)
  case (1 input cursor i acc)
  note call = 1(2) [unfolded decode_loop.simps [of input cursor i acc]]
  show ?case
  proof (cases "10 \<le> i \<or> length input \<le> cursor")
    case True
    with call show ?thesis by (auto split: if_splits)
  next
    case False
    with call 1(1) [OF _ _ refl _ refl] show ?thesis
      by (fastforce simp: Let_def split: if_splits)
  qed
qed

section \<open>Properties\<close>

text \<open>
  Decoding reads back any encoded 64-bit integer, wherever the encoding stands in a buffer,
  and leaves the cursor right behind it; the encoding takes exactly the predicted number of
  bytes, between one and ten.
\<close>
theorem vlq_round_trip:
  "decode_u64 (pre @ encode_u64 v @ post) (length pre) = Inr (v, length pre + encoded_len v) \<and>
   length (encode_u64 v) = encoded_len v \<and> 1 \<le> encoded_len v \<and> encoded_len v \<le> 10"
  using decode_encode_u64 [of pre v post] encoded_len_bounds [of v] by (simp add: length_encode_u64)

text \<open>
  Reading an integer from arbitrary bytes never runs past the end of the buffer: a successful
  read consumes between one and ten bytes that lie inside it.
\<close>
theorem vlq_decode_stays_inside:
  assumes "decode_u64 input cursor = Inr (v, c)"
  shows "cursor < c \<and> c \<le> length input \<and> c \<le> cursor + 10"
  using decode_loop_advances [OF assms [unfolded decode_u64_def]] by simp

theorem vlq_decode_stays_inside_witness:
  "decode_u64 [7, 0x80, 1] 1 = Inr (128, 3) \<and> 1 < (3 :: nat) \<and> 3 \<le> length ([7, 0x80, 1] :: u8 list)"
proof -
  have read: "decode_u64 [7, 0x80, 1] 1 = Inr (128, 3)" by (simp add: decode_u64_def decode_loop.simps Let_def)
  from vlq_decode_stays_inside [OF read] read show ?thesis by simp
qed

end
