(* ===== verification/Word_Format.thy ===== *)
theory Word_Format
  imports Vlq
begin

text \<open>
  The fixed-size parts of an encoded word block,
  \<^verbatim>\<open>crates/signal_derived/src/derived_word_store/format.rs\<close>: little-endian fields, the block header
  and the restart entries. A write outside its buffer panics (\<open>None\<close>).
\<close>

section \<open>Slices and little-endian integers\<close>

definition slice :: "'a list \<Rightarrow> nat \<Rightarrow> nat \<Rightarrow> 'a list" where
  "slice bytes offset n = take n (drop offset bytes)"

definition put_bytes :: "'a list \<Rightarrow> nat \<Rightarrow> 'a list \<Rightarrow> 'a list" where
  "put_bytes bytes offset bs = take offset bytes @ bs @ drop (offset + length bs) bytes"

definition to_le :: "nat \<Rightarrow> 'a::len word \<Rightarrow> u8 list" where
  "to_le n w = map (\<lambda>i. ucast (drop_bit (8 * i) w)) [0..<n]"

fun from_le :: "u8 list \<Rightarrow> 'a::len word" where
  "from_le [] = 0"
| "from_le (b # bs) = ucast b OR push_bit 8 (from_le bs)"

definition get_u16 :: "u8 list \<Rightarrow> nat \<Rightarrow> u16 codec_result" where
  "get_u16 bytes offset =
     (if offset + 2 \<le> length bytes then Inr (from_le (slice bytes offset 2)) else Inl Truncated)"

definition get_u32 :: "u8 list \<Rightarrow> nat \<Rightarrow> u32 codec_result" where
  "get_u32 bytes offset =
     (if offset + 4 \<le> length bytes then Inr (from_le (slice bytes offset 4)) else Inl Truncated)"

definition get_u64 :: "u8 list \<Rightarrow> nat \<Rightarrow> u64 codec_result" where
  "get_u64 bytes offset =
     (if offset + 8 \<le> length bytes then Inr (from_le (slice bytes offset 8)) else Inl Truncated)"

lemma length_to_le [simp]: "length (to_le n w) = n"
  by (simp add: to_le_def)

lemma bit_from_le:
  "bit (from_le bs :: 'a::len word) i \<longleftrightarrow>
     i < LENGTH('a) \<and> i div 8 < length bs \<and> bit (bs ! (i div 8)) (i mod 8)"
proof (induction bs arbitrary: i)
  case (Cons b bs)
  show ?case
  proof (cases "i < 8")
    case True
    then show ?thesis by (auto simp: bit_or_iff bit_push_bit_iff bit_unsigned_iff possible_bit_def)
  next
    case False
    then have d: "i div 8 = Suc ((i - 8) div 8)" "i mod 8 = (i - 8) mod 8"
      by (simp_all add: le_div_geq le_mod_geq)
    have "\<not> bit b i" using False bit_imp_le_length [of b i] by auto
    with False Cons [of "i - 8"] show ?thesis
      by (auto simp: bit_or_iff bit_push_bit_iff bit_unsigned_iff possible_bit_def d)
  qed
qed simp

lemma from_le_to_le_take:
  assumes "w = take_bit (8 * k) w" "k \<le> n"
  shows "from_le (take k (to_le n w)) = (w :: 'a::len word)"
proof (rule bit_eqI)
  fix i :: nat
  have "8 * (i div 8) + i mod 8 = i" by simp
  moreover have "bit w i \<Longrightarrow> i div 8 < k"
    using assms(1) by (metis bit_take_bit_iff div_less_iff_less_mult mult.commute zero_less_numeral)
  moreover have "bit w i \<Longrightarrow> i < LENGTH('a)" by (rule bit_imp_le_length)
  ultimately show "bit (from_le (take k (to_le n w)) :: 'a word) i = bit w i"
    using assms(2)
    by (auto simp: bit_from_le to_le_def bit_unsigned_iff bit_drop_bit_eq possible_bit_def min_def)
qed

lemma from_le_to_le: "LENGTH('a) \<le> 8 * n \<Longrightarrow> from_le (to_le n w) = (w :: 'a::len word)"
  using from_le_to_le_take [where k = n and n = n and w = w] by (simp add: take_bit_word_eq_self)

lemma length_put_bytes [simp]:
  "offset + length bs \<le> length bytes \<Longrightarrow> length (put_bytes bytes offset bs) = length bytes"
  by (simp add: put_bytes_def)

lemma slice_put_same:
  "offset + length bs \<le> length bytes \<Longrightarrow> n = length bs \<Longrightarrow> slice (put_bytes bytes offset bs) offset n = bs"
  by (simp add: slice_def put_bytes_def)

lemma slice_put_other:
  assumes "offset + length bs \<le> length bytes" "p + n \<le> offset \<or> offset + length bs \<le> p"
  shows "slice (put_bytes bytes offset bs) p n = slice bytes p n"
proof (cases "p + n \<le> offset")
  case True
  have "take n (drop p (put_bytes bytes offset bs)) = take n (drop p (take offset bytes))"
    using True assms(1) by (simp add: put_bytes_def)
  also have "\<dots> = take n (drop p bytes)" using True by (simp add: drop_take)
  finally show ?thesis by (simp add: slice_def)
next
  case False
  with assms(2) have p: "offset + length bs \<le> p" by simp
  have "drop p (put_bytes bytes offset bs) = drop p bytes"
    using p assms(1) by (simp add: put_bytes_def)
  then show ?thesis by (simp add: slice_def)
qed

lemma drop_put_bytes:
  "offset + length bs \<le> p \<Longrightarrow> offset + length bs \<le> length bytes \<Longrightarrow>
   drop p (put_bytes bytes offset bs) = drop p bytes"
  by (simp add: put_bytes_def)

section \<open>The block header\<close>

definition BLOCK_MAGIC :: "u8 list" where
  "BLOCK_MAGIC = [0x44, 0x57, 0x42, 0x4C]"

definition BLOCK_FLAG_HAS_DURATIONS :: u16 where "BLOCK_FLAG_HAS_DURATIONS = push_bit 0 1"
definition BLOCK_FLAG_HAS_PAYLOADS :: u16 where "BLOCK_FLAG_HAS_PAYLOADS = push_bit 1 1"
definition BLOCK_FLAG_GROUPED_TIMESTAMPS :: u16 where "BLOCK_FLAG_GROUPED_TIMESTAMPS = push_bit 2 1"

definition BLOCK_HEADER_SIZE :: nat where "BLOCK_HEADER_SIZE = 72"
definition RESTART_ENTRY_SIZE :: nat where "RESTART_ENTRY_SIZE = 16"
definition BLOCK_CHECKSUM_OFFSET :: nat where "BLOCK_CHECKSUM_OFFSET = 64"

lemmas block_consts = BLOCK_HEADER_SIZE_def RESTART_ENTRY_SIZE_def BLOCK_CHECKSUM_OFFSET_def

record word_block_header =
  h_flags :: u16
  h_sequence :: u64
  h_first_timestamp_ns :: u64
  h_last_timestamp_ns :: u64
  h_word_count :: u32
  h_value_bytes :: u8
  h_record_payload_len :: u32
  h_restart_count :: u32
  h_restart_table_offset :: u32
  h_duration_count :: u32
  h_duration_table_offset :: u32
  h_block_len :: u32
  h_crc32c :: u32

text \<open>The fields in the order in which the header writes them, after clearing its bytes.\<close>

definition header_fields :: "word_block_header \<Rightarrow> (nat \<times> u8 list) list" where
  "header_fields h =
     [(0, BLOCK_MAGIC),
      (4, to_le 2 (of_nat BLOCK_HEADER_SIZE :: u16)),
      (6, to_le 2 (h_flags h)),
      (8, to_le 8 (h_sequence h)),
      (16, to_le 8 (h_first_timestamp_ns h)),
      (24, to_le 8 (h_last_timestamp_ns h)),
      (32, to_le 4 (h_word_count h)),
      (36, [h_value_bytes h]),
      (40, to_le 4 (h_record_payload_len h)),
      (44, to_le 4 (h_restart_count h)),
      (48, to_le 4 (h_restart_table_offset h)),
      (52, to_le 4 (h_duration_count h)),
      (56, to_le 4 (h_duration_table_offset h)),
      (60, to_le 4 (h_block_len h)),
      (BLOCK_CHECKSUM_OFFSET, to_le 4 (h_crc32c h))]"

fun put_all :: "(nat \<times> u8 list) list \<Rightarrow> u8 list \<Rightarrow> u8 list" where
  "put_all [] bytes = bytes"
| "put_all ((offset, bs) # ws) bytes = put_all ws (put_bytes bytes offset bs)"

definition write_to :: "word_block_header \<Rightarrow> u8 list \<Rightarrow> u8 list option" where
  "write_to h bytes =
     (if length bytes < BLOCK_HEADER_SIZE then None
      else Some (put_all (header_fields h) (put_bytes bytes 0 (replicate BLOCK_HEADER_SIZE 0))))"

definition invalid :: "string \<Rightarrow> codec_error" where
  "invalid message = InvalidFormat message"

definition from_bytes :: "u8 list \<Rightarrow> word_block_header codec_result" where
  "from_bytes bytes =
     (if length bytes < BLOCK_HEADER_SIZE then Inl Truncated
      else if slice bytes 0 4 \<noteq> BLOCK_MAGIC then Inl (invalid ''invalid word-block magic'')
      else and_then (get_u16 bytes 4) (\<lambda>size.
      if unat size \<noteq> BLOCK_HEADER_SIZE then Inl (invalid ''invalid word-block header size'')
      else if list_ex (\<lambda>b. b \<noteq> 0) (slice bytes 37 3) \<or> list_ex (\<lambda>b. b \<noteq> 0) (slice bytes 68 4)
      then Inl (invalid ''non-zero reserved word-block header bytes'')
      else and_then (get_u16 bytes 6) (\<lambda>flags.
           and_then (get_u64 bytes 8) (\<lambda>sequence.
           and_then (get_u64 bytes 16) (\<lambda>first_ts.
           and_then (get_u64 bytes 24) (\<lambda>last_ts.
           and_then (get_u32 bytes 32) (\<lambda>word_count.
           and_then (get_u32 bytes 40) (\<lambda>record_payload_len.
           and_then (get_u32 bytes 44) (\<lambda>restart_count.
           and_then (get_u32 bytes 48) (\<lambda>restart_table_offset.
           and_then (get_u32 bytes 52) (\<lambda>duration_count.
           and_then (get_u32 bytes 56) (\<lambda>duration_table_offset.
           and_then (get_u32 bytes 60) (\<lambda>block_len.
           and_then (get_u32 bytes BLOCK_CHECKSUM_OFFSET) (\<lambda>crc.
           Inr \<lparr>h_flags = flags, h_sequence = sequence, h_first_timestamp_ns = first_ts,
                h_last_timestamp_ns = last_ts, h_word_count = word_count, h_value_bytes = bytes ! 36,
                h_record_payload_len = record_payload_len, h_restart_count = restart_count,
                h_restart_table_offset = restart_table_offset, h_duration_count = duration_count,
                h_duration_table_offset = duration_table_offset, h_block_len = block_len,
                h_crc32c = crc\<rparr>))))))))))))))"

section \<open>Restart entries\<close>

record restart_entry =
  r_timestamp_ns :: u64
  r_payload_offset :: u32
  r_record_index :: u32

definition restart_bytes :: "restart_entry \<Rightarrow> u8 list" where
  "restart_bytes r = to_le 8 (r_timestamp_ns r) @ to_le 4 (r_payload_offset r) @ to_le 4 (r_record_index r)"

definition read_from :: "u8 list \<Rightarrow> nat \<Rightarrow> restart_entry codec_result" where
  "read_from bytes offset =
     (and_then (get_u64 bytes offset) (\<lambda>t.
      and_then (get_u32 bytes (offset + 8)) (\<lambda>p.
      and_then (get_u32 bytes (offset + 12)) (\<lambda>i.
      Inr \<lparr>r_timestamp_ns = t, r_payload_offset = p, r_record_index = i\<rparr>))))"

lemma length_restart_bytes [simp]: "length (restart_bytes r) = RESTART_ENTRY_SIZE"
  by (simp add: restart_bytes_def RESTART_ENTRY_SIZE_def)

lemma read_from_restart_bytes:
  assumes "slice bytes offset RESTART_ENTRY_SIZE = restart_bytes r" "offset + RESTART_ENTRY_SIZE \<le> length bytes"
  shows "read_from bytes offset = Inr r"
proof -
  have sub: "slice bytes (offset + k) n = take n (drop k (restart_bytes r))" if "k + n \<le> 16" for k n
    using that unfolding assms(1) [symmetric]
    by (simp add: slice_def RESTART_ENTRY_SIZE_def drop_take min_def add.commute)
  from sub [of 0 8] sub [of 8 4] sub [of 12 4] assms(2) show ?thesis
    by (simp add: read_from_def get_u64_def get_u32_def restart_bytes_def from_le_to_le RESTART_ENTRY_SIZE_def)
qed

section \<open>Round trip of the header\<close>

definition fits :: "nat \<Rightarrow> (nat \<times> u8 list) list \<Rightarrow> bool" where
  "fits n ws \<longleftrightarrow> list_all (\<lambda>(offset, bs). offset + length bs \<le> n) ws"

lemma length_put_all: "fits (length bytes) ws \<Longrightarrow> length (put_all ws bytes) = length bytes"
  by (induction ws bytes rule: put_all.induct) (auto simp: fits_def)

lemma slice_put_all_other:
  assumes "fits (length bytes) ws"
    and "list_all (\<lambda>(offset, bs). p + n \<le> offset \<or> offset + length bs \<le> p) ws"
  shows "slice (put_all ws bytes) p n = slice bytes p n"
  using assms
  by (induction ws bytes rule: put_all.induct) (auto simp: fits_def slice_put_other)

lemma slice_put_all_same:
  assumes "fits (length bytes) ws" "sorted_wrt (\<lambda>(a, bs) (b, cs). a + length bs \<le> b) ws"
    and "(offset, bs) \<in> set ws"
  shows "slice (put_all ws bytes) offset (length bs) = bs"
  using assms
proof (induction ws bytes rule: put_all.induct)
  case (2 a as ws bytes)
  show ?case
  proof (cases "(offset, bs) = (a, as)")
    case True
    have "list_all (\<lambda>(offset, bs). a + length as \<le> offset \<or> offset + length bs \<le> a) ws"
      using 2(3) by (auto simp: list_all_iff)
    with True 2(2) show ?thesis
      by (simp add: slice_put_all_other slice_put_same fits_def)
  next
    case False
    with 2 show ?thesis by (auto simp: fits_def)
  qed
qed simp

lemma drop_put_all:
  assumes "fits n ws" "n \<le> length bytes"
  shows "drop n (put_all ws bytes) = drop n bytes"
  using assms
  by (induction ws bytes rule: put_all.induct) (auto simp: fits_def drop_put_bytes)

lemma fits_mono: "fits m ws \<Longrightarrow> m \<le> n \<Longrightarrow> fits n ws"
  by (auto simp: fits_def list_all_iff)

lemma header_fields_layout:
  "fits BLOCK_HEADER_SIZE (header_fields h)"
  "sorted_wrt (\<lambda>(a, bs) (b, cs). a + length bs \<le> b) (header_fields h)"
  "list_all (\<lambda>(offset, bs). 37 + 3 \<le> offset \<or> offset + length bs \<le> 37) (header_fields h)"
  "list_all (\<lambda>(offset, bs). 68 + 4 \<le> offset \<or> offset + length bs \<le> 68) (header_fields h)"
  by (simp_all add: fits_def header_fields_def BLOCK_MAGIC_def block_consts)

lemma write_to_SomeD:
  assumes "write_to h bytes = Some out"
  shows "BLOCK_HEADER_SIZE \<le> length bytes" "length out = length bytes"
    "drop BLOCK_HEADER_SIZE out = drop BLOCK_HEADER_SIZE bytes"
    "(offset, bs) \<in> set (header_fields h) \<Longrightarrow> slice out offset (length bs) = bs"
    "slice out 37 3 = [0, 0, 0]" "slice out 68 4 = [0, 0, 0, 0]"
proof -
  let ?b = "put_bytes bytes 0 (replicate BLOCK_HEADER_SIZE 0)"
  show len: "BLOCK_HEADER_SIZE \<le> length bytes"
    using assms by (auto simp: write_to_def split: if_splits)
  have out: "out = put_all (header_fields h) ?b"
    using assms by (auto simp: write_to_def split: if_splits)
  have lb: "length ?b = length bytes" using len by simp
  then have fits: "fits (length ?b) (header_fields h)"
    using fits_mono [OF header_fields_layout(1)] len by simp
  show "length out = length bytes" using length_put_all [OF fits] lb out by simp
  show "drop BLOCK_HEADER_SIZE out = drop BLOCK_HEADER_SIZE bytes"
    using drop_put_all [OF header_fields_layout(1), of ?b] len lb out by (simp add: drop_put_bytes)
  show "slice out offset (length bs) = bs" if "(offset, bs) \<in> set (header_fields h)"
    using slice_put_all_same [OF fits header_fields_layout(2) that] out by simp
  have z: "slice ?b 37 3 = [0, 0, 0]" "slice ?b 68 4 = [0, 0, 0, 0]"
    by (simp_all add: put_bytes_def slice_def numeral_eq_Suc BLOCK_HEADER_SIZE_def)
  show "slice out 37 3 = [0, 0, 0]" "slice out 68 4 = [0, 0, 0, 0]"
    using slice_put_all_other [OF fits header_fields_layout(3)]
      slice_put_all_other [OF fits header_fields_layout(4)] z by (simp_all add: out)
qed

lemma write_to_field:
  assumes "write_to h bytes = Some out" "(offset, bs) \<in> set (header_fields h)" "n = length bs"
  shows "slice out offset n = bs"
  using write_to_SomeD(4) [OF assms(1,2)] assms(3) by simp

lemma header_round_trip:
  assumes "write_to h bytes = Some out"
  shows "from_bytes out = Inr h"
proof -
  note f = write_to_field [OF assms]
  have len: "72 \<le> length out"
    using write_to_SomeD(1,2) [OF assms] by (simp add: BLOCK_HEADER_SIZE_def)
  have u16: "get_u16 out offset = Inr v" if "(offset, to_le 2 v) \<in> set (header_fields h)" "offset \<le> 70" for offset v
    using f [OF that(1), of 2] that(2) len by (simp add: get_u16_def from_le_to_le)
  have u32: "get_u32 out offset = Inr v" if "(offset, to_le 4 v) \<in> set (header_fields h)" "offset \<le> 68" for offset v
    using f [OF that(1), of 4] that(2) len by (simp add: get_u32_def from_le_to_le)
  have u64: "get_u64 out offset = Inr v" if "(offset, to_le 8 v) \<in> set (header_fields h)" "offset \<le> 64" for offset v
    using f [OF that(1), of 8] that(2) len by (simp add: get_u64_def from_le_to_le)
  have magic: "slice out 0 4 = BLOCK_MAGIC"
    by (rule f) (simp_all add: header_fields_def BLOCK_MAGIC_def)
  have "slice out 36 1 = [h_value_bytes h]" by (rule f) (simp_all add: header_fields_def)
  then have vb: "out ! 36 = h_value_bytes h"
    using len by (simp add: slice_def take_Suc_conv_app_nth [of 0 "drop 36 out", simplified])
  note z = write_to_SomeD(5,6) [OF assms]
  have gets: "get_u16 out 4 = Inr (of_nat BLOCK_HEADER_SIZE)" "get_u16 out 6 = Inr (h_flags h)"
    "get_u64 out 8 = Inr (h_sequence h)" "get_u64 out 16 = Inr (h_first_timestamp_ns h)"
    "get_u64 out 24 = Inr (h_last_timestamp_ns h)" "get_u32 out 32 = Inr (h_word_count h)"
    "get_u32 out 40 = Inr (h_record_payload_len h)" "get_u32 out 44 = Inr (h_restart_count h)"
    "get_u32 out 48 = Inr (h_restart_table_offset h)" "get_u32 out 52 = Inr (h_duration_count h)"
    "get_u32 out 56 = Inr (h_duration_table_offset h)" "get_u32 out 60 = Inr (h_block_len h)"
    "get_u32 out BLOCK_CHECKSUM_OFFSET = Inr (h_crc32c h)"
    by (rule u16 u32 u64, simp_all add: header_fields_def BLOCK_CHECKSUM_OFFSET_def)+
  have size: "unat (of_nat BLOCK_HEADER_SIZE :: u16) = BLOCK_HEADER_SIZE"
    by (simp add: BLOCK_HEADER_SIZE_def)
  have "\<not> length out < BLOCK_HEADER_SIZE" using len by (simp add: BLOCK_HEADER_SIZE_def)
  then show ?thesis
    by (simp only: from_bytes_def magic z gets size and_then_simps vb) simp
qed

section \<open>Properties\<close>

text \<open>
  A header written into a buffer that can hold it is read back field for field; the write
  touches only the header bytes. A buffer that is too short is refused on both sides.
\<close>
theorem block_header_round_trip:
  "(case write_to h bytes of
      Some out \<Rightarrow> from_bytes out = Inr h \<and> length out = length bytes \<and>
        drop BLOCK_HEADER_SIZE out = drop BLOCK_HEADER_SIZE bytes
    | None \<Rightarrow> from_bytes bytes = Inl Truncated) \<and>
   (write_to h bytes = None \<longleftrightarrow> length bytes < BLOCK_HEADER_SIZE)"
proof (cases "length bytes < BLOCK_HEADER_SIZE")
  case True
  then have "write_to h bytes = None" "from_bytes bytes = Inl Truncated"
    unfolding write_to_def from_bytes_def by simp_all
  with True show ?thesis by simp
next
  case False
  then obtain out where out: "write_to h bytes = Some out" unfolding write_to_def by simp
  with header_round_trip [OF out] write_to_SomeD(2,3) [OF out] False show ?thesis by simp
qed

end
