(* ===== verification/Crc32c.thy ===== *)
theory Crc32c
  imports Word_Format
begin

text \<open>
  The CRC-32C checks of \<^verbatim>\<open>crates/platform_artifacts/src/crc32c.rs\<close>: the eight lookup tables, the
  slicing-by-eight update, the checksum of several parts and the checksum of a block whose own
  checksum field counts as zero. The update is proved equal to the bitwise definition, and every
  change confined to four adjacent bytes is proved to change the checksum.
\<close>

section \<open>Tables and update\<close>

definition POLYNOMIAL :: u32 where
  "POLYNOMIAL = 0x82f63b78"

definition crc_bit :: "u32 \<Rightarrow> u32" where
  "crc_bit crc = (if crc AND 1 \<noteq> 0 then drop_bit 1 crc XOR POLYNOMIAL else drop_bit 1 crc)"

definition first_table :: "u32 list" where
  "first_table = map (\<lambda>index. (crc_bit ^^ 8) (of_nat index)) [0..<256]"

definition next_table :: "u32 list \<Rightarrow> u32 list" where
  "next_table table = map (\<lambda>previous. first_table ! unat (previous AND 0xff) XOR drop_bit 8 previous) table"

fun tables :: "nat \<Rightarrow> u32 list \<Rightarrow> u32 list list" where
  "tables 0 table = []"
| "tables (Suc n) table = table # tables n (next_table table)"

definition TABLES :: "u32 list list" where
  "TABLES = tables 8 first_table"

definition chunk_step :: "u32 \<Rightarrow> u8 list \<Rightarrow> u32" where
  "chunk_step crc0 chunk =
     (let crc = crc0 XOR from_le (take 4 chunk)
      in TABLES ! 7 ! unat (crc AND 0xff)
         XOR TABLES ! 6 ! unat (drop_bit 8 crc AND 0xff)
         XOR TABLES ! 5 ! unat (drop_bit 16 crc AND 0xff)
         XOR TABLES ! 4 ! unat (drop_bit 24 crc)
         XOR TABLES ! 3 ! unat (chunk ! 4)
         XOR TABLES ! 2 ! unat (chunk ! 5)
         XOR TABLES ! 1 ! unat (chunk ! 6)
         XOR TABLES ! 0 ! unat (chunk ! 7))"

definition byte_step :: "u8 \<Rightarrow> u32 \<Rightarrow> u32" where
  "byte_step byte crc = TABLES ! 0 ! unat ((crc XOR ucast byte) AND 0xff) XOR drop_bit 8 crc"

function update :: "u32 \<Rightarrow> u8 list \<Rightarrow> u32" where
  "update crc bytes =
     (if 8 \<le> length bytes then update (chunk_step crc (take 8 bytes)) (drop 8 bytes)
      else fold byte_step bytes crc)"
  by pat_completeness auto

termination update
  by (relation "measure (\<lambda>(_, bytes). length bytes)") auto

declare update.simps [simp del]

definition checksum_parts :: "u8 list list \<Rightarrow> u32" where
  "checksum_parts parts = NOT (fold (\<lambda>part crc. update crc part) parts (NOT 0))"

text \<open>Slicing outside the block panics (\<open>None\<close>).\<close>

definition block_checksum :: "u8 list \<Rightarrow> nat \<Rightarrow> u32 option" where
  "block_checksum bytes checksum_offset =
     (if length bytes < checksum_offset + 4 then None
      else
        let crc1 = update (NOT 0) (take checksum_offset bytes);
            crc2 = update crc1 [0, 0, 0, 0];
            crc3 = update crc2 (drop (checksum_offset + 4) bytes)
        in Some (NOT crc3))"

section \<open>The bitwise reference\<close>

definition crc_byte :: "u8 \<Rightarrow> u32 \<Rightarrow> u32" where
  "crc_byte byte crc = (crc_bit ^^ 8) (crc XOR ucast byte)"

text \<open>Eight bit steps: the effect of a zero byte on the checksum state.\<close>

definition shift8 :: "u32 \<Rightarrow> u32" where
  "shift8 x = (crc_bit ^^ 8) x"

lemma crc_byte_shift8: "crc_byte byte crc = shift8 (crc XOR ucast byte)"
  by (simp add: crc_byte_def shift8_def del: funpow.simps)

lemma crc_bit_odd: "crc_bit crc = (if odd crc then drop_bit 1 crc XOR POLYNOMIAL else drop_bit 1 crc)"
  by (simp add: crc_bit_def and_one_eq odd_iff_mod_2_eq_one)

lemma crc_bit_xor: "crc_bit (x XOR y) = crc_bit x XOR crc_bit y"
proof -
  have d: "drop_bit 1 (x XOR y) = drop_bit 1 x XOR drop_bit 1 y"
    by (rule bit_eqI) (simp add: bit_drop_bit_eq bit_xor_iff)
  show ?thesis
    by (cases "odd x"; cases "odd y")
      (simp_all add: crc_bit_odd d even_xor_iff ac_simps xor.left_commute)
qed

lemma shift_xor: "(crc_bit ^^ n) (x XOR y) = (crc_bit ^^ n) x XOR (crc_bit ^^ n) y"
  by (induction n) (simp_all add: crc_bit_xor)

lemma crc_bit_low_zero:
  "take_bit n x = 0 \<Longrightarrow> (crc_bit ^^ n) x = drop_bit n x"
proof (induction n)
  case (Suc n)
  have b: "\<not> bit x i" if "i < Suc n" for i
    using that Suc.prems by (metis bit_0_eq bit_take_bit_iff bot_apply bot_bool_def)
  then have "take_bit n x = 0" by (intro bit_eqI) (simp add: bit_take_bit_iff)
  moreover have "even (drop_bit n x)" using b [of n] by (simp add: even_drop_bit_iff_not_bit)
  ultimately show ?case using Suc.IH by (simp add: crc_bit_odd drop_bit_Suc drop_bit_drop_bit add.commute)
qed simp

lemma shift8_push: "take_bit 24 y = y \<Longrightarrow> shift8 (push_bit 8 y) = (y :: u32)"
proof -
  assume y: "take_bit 24 y = y"
  have "take_bit 8 (push_bit 8 y) = 0"
    by (rule bit_eqI) (simp add: bit_simps)
  then have "shift8 (push_bit 8 y) = drop_bit 8 (push_bit 8 y)"
    unfolding shift8_def by (rule crc_bit_low_zero)
  also have "\<dots> = take_bit 24 y"
    by (rule bit_eqI) (auto simp: bit_simps)
  finally show ?thesis using y by simp
qed

lemma split_low_byte: "x = (x AND 0xff) XOR push_bit 8 (drop_bit 8 x)" for x :: u32
proof -
  have m: "(0xff :: u32) = mask 8" by (simp add: mask_eq_decr_exp)
  show ?thesis unfolding m by (rule bit_eqI) (auto simp: bit_simps)
qed

lemma first_table_nth: "i < 256 \<Longrightarrow> first_table ! i = shift8 (of_nat i)"
  by (simp add: first_table_def shift8_def del: funpow.simps)

lemma shift8_xor: "shift8 (x XOR y) = shift8 x XOR shift8 y"
  unfolding shift8_def by (rule shift_xor)

lemma shift8_pow_xor: "(shift8 ^^ n) (x XOR y) = (shift8 ^^ n) x XOR (shift8 ^^ n) y"
  by (induction n) (simp_all add: shift8_xor)

lemma low_byte_less: "unat (x AND 0xff :: u32) < 256"
proof -
  have "x AND 0xff \<le> 0xff" by (rule word_and_le1)
  then show ?thesis by (simp add: word_le_nat_alt)
qed

lemma table_step: "first_table ! unat (x AND 0xff) XOR drop_bit 8 x = shift8 x"
proof -
  have "shift8 (push_bit 8 (drop_bit 8 x)) = drop_bit 8 x"
    by (rule shift8_push, rule bit_eqI) (auto simp: bit_simps dest: bit_imp_le_length)
  then have "shift8 x = shift8 (x AND 0xff) XOR drop_bit 8 x"
    using shift8_xor [of "x AND 0xff" "push_bit 8 (drop_bit 8 x)"] split_low_byte [of x] by simp
  then show ?thesis by (simp add: first_table_nth [OF low_byte_less])
qed

lemma tables_nth:
  "k < n \<Longrightarrow> tables n table ! k = (next_table ^^ k) table"
  by (induction n arbitrary: k table) (auto simp: nth_Cons' funpow_swap1 gr0_conv_Suc)

lemma next_table_nth: "i < length table \<Longrightarrow> next_table table ! i = shift8 (table ! i)"
  by (simp add: next_table_def table_step)

lemma length_next_table [simp]: "length (next_table table) = length table"
  by (simp add: next_table_def)

lemma TABLES_nth:
  assumes "k < 8" "i < 256"
  shows "TABLES ! k ! i = (shift8 ^^ Suc k) (of_nat i)"
proof -
  have "length ((next_table ^^ k) first_table) = 256 \<and>
      (next_table ^^ k) first_table ! i = (shift8 ^^ Suc k) (of_nat i)" for k
  proof (induction k)
    case 0
    have "length first_table = 256" by (simp add: first_table_def)
    with assms(2) show ?case by (simp add: first_table_nth)
  next
    case (Suc k)
    with assms(2) show ?case by (simp add: next_table_nth)
  qed
  with assms(1) show ?thesis by (simp add: TABLES_def tables_nth del: funpow.simps)
qed

lemma TABLES_byte: "k < 8 \<Longrightarrow> TABLES ! k ! unat b = (shift8 ^^ Suc k) (ucast b)" for b :: u8
  using TABLES_nth [of k "unat b"] unsigned_less [of b, where ?'a = nat]
  by (simp del: funpow.simps)

lemma unat_low_byte: "unat (x AND 0xff) = unat (ucast x :: u8)" for x :: u32
proof -
  have m: "(0xff :: u32) = mask 8" by (simp add: mask_eq_decr_exp)
  have "(x AND 0xff) = ucast (ucast x :: u8)" unfolding m by (rule bit_eqI) (auto simp: bit_simps)
  then have "unat (x AND 0xff) = unat (ucast (ucast x :: u8) :: u32)" by simp
  also have "\<dots> = unat (ucast x :: u8)" by (simp add: unsigned_ucast_eq unsigned_take_bit_eq)
  finally show ?thesis .
qed

lemma byte_step_eq: "byte_step byte crc = crc_byte byte crc"
proof -
  let ?x = "crc XOR ucast byte"
  have "drop_bit 8 ?x = drop_bit 8 crc" by (rule bit_eqI) (auto simp: bit_simps dest: bit_imp_le_length)
  with table_step [of ?x] have "first_table ! unat (?x AND 0xff) XOR drop_bit 8 crc = shift8 ?x" by simp
  moreover have "TABLES ! 0 = first_table" by (simp add: TABLES_def numeral_eq_Suc)
  ultimately show ?thesis by (simp add: byte_step_def crc_byte_shift8)
qed

section \<open>Four bytes at a time\<close>

lemma from_le_Cons_xor: "from_le (b # bs) = ucast b XOR push_bit 8 (from_le bs :: u32)"
proof -
  have "\<not> bit b n" if "8 \<le> n" for n using that bit_imp_le_length [of b n] by auto
  then show ?thesis by (intro bit_eqI) (auto simp: bit_simps)
qed

lemma fold_crc_byte_le:
  assumes "length w \<le> 4"
  shows "fold crc_byte w c = (shift8 ^^ length w) (c XOR from_le w)"
  using assms
proof (induction w arbitrary: c)
  case (Cons b bs)
  have "take_bit 24 (from_le bs) = (from_le bs :: u32)"
    using Cons.prems by (intro bit_eqI) (auto simp: bit_take_bit_iff bit_from_le)
  then have "shift8 (push_bit 8 (from_le bs)) = from_le bs" by (rule shift8_push)
  then have "shift8 (c XOR from_le (b # bs)) = shift8 (c XOR ucast b) XOR from_le bs"
    by (simp only: from_le_Cons_xor shift8_xor xor.assoc [symmetric])
  with Cons show ?case by (simp add: crc_byte_shift8 funpow_swap1)
qed simp

lemma fold_four_le: "fold crc_byte [a, b, c, d] x = (shift8 ^^ 4) (x XOR from_le [a, b, c, d])"
proof -
  have "length [a, b, c, d] = 4" by simp
  with fold_crc_byte_le [of "[a, b, c, d]" x] show ?thesis by (simp only:)
qed

lemma shift8_le:
  "(shift8 ^^ 4) (from_le [a, b, c, d]) =
   (shift8 ^^ 4) (ucast a) XOR (shift8 ^^ 3) (ucast b) XOR (shift8 ^^ 2) (ucast c) XOR shift8 (ucast d)"
proof -
  have "(shift8 ^^ 4) (0 XOR from_le [a, b, c, d]) = fold crc_byte [a, b, c, d] 0"
    by (rule fold_four_le [symmetric])
  also have "\<dots> = (shift8 ^^ 4) (ucast a) XOR (shift8 ^^ 3) (ucast b) XOR (shift8 ^^ 2) (ucast c) XOR shift8 (ucast d)"
    by (simp add: crc_byte_shift8 shift8_xor numeral_eq_Suc xor.assoc)
  finally show ?thesis by (simp only: xor.left_neutral)
qed

lemma to_le_4: "to_le 4 x = [ucast x, ucast (drop_bit 8 x), ucast (drop_bit 16 x), ucast (drop_bit 24 x)]"
  by (simp add: to_le_def numeral_eq_Suc)

lemma unat_high_byte: "unat (drop_bit 24 x) = unat (ucast (drop_bit 24 x) :: u8)" for x :: u32
proof -
  have m: "(0xff :: u32) = mask 8" by (simp add: mask_eq_decr_exp)
  have "drop_bit 24 x AND 0xff = drop_bit 24 x"
    unfolding m by (rule bit_eqI) (auto simp: bit_simps dest: bit_imp_le_length)
  then show ?thesis using unat_low_byte [of "drop_bit 24 x"] by simp
qed

lemma shift8_pow_8_le:
  "(shift8 ^^ 8) x = (shift8 ^^ 8) (ucast (ucast x :: u8)) XOR
     (shift8 ^^ 7) (ucast (ucast (drop_bit 8 x) :: u8)) XOR
     (shift8 ^^ 6) (ucast (ucast (drop_bit 16 x) :: u8)) XOR
     (shift8 ^^ 5) (ucast (ucast (drop_bit 24 x) :: u8))"
proof -
  let ?l = "from_le [ucast x, ucast (drop_bit 8 x), ucast (drop_bit 16 x), ucast (drop_bit 24 x)]"
  have le: "?l = x"
    using from_le_to_le [where n = 4 and w = x] by (simp only: to_le_4) simp
  have pow: "(shift8 ^^ 4) ((shift8 ^^ n) y) = (shift8 ^^ (4 + n)) y" for n y by (simp add: funpow_add)
  have one: "(shift8 ^^ 4) (shift8 y) = (shift8 ^^ 5) y" for y using pow [of 1 y] by simp
  have "(shift8 ^^ 8) x = (shift8 ^^ 4) ((shift8 ^^ 4) ?l)" unfolding le by (simp add: pow)
  then show ?thesis unfolding shift8_le by (simp add: shift8_pow_xor pow one)
qed

lemma TABLES_low: "TABLES ! 0 ! unat b = shift8 (ucast b)" for b :: u8
  using TABLES_byte [of 0 b] by simp

lemma chunk_step_eq:
  assumes "length chunk = 8"
  shows "chunk_step crc chunk = fold crc_byte chunk crc"
proof -
  obtain b0 b1 b2 b3 b4 b5 b6 b7 where chunk: "chunk = [b0, b1, b2, b3, b4, b5, b6, b7]"
    using assms by (auto simp: length_Suc_conv numeral_eq_Suc)
  define x where "x = crc XOR from_le [b0, b1, b2, b3]"
  have "fold crc_byte chunk crc = fold crc_byte [b4, b5, b6, b7] (fold crc_byte [b0, b1, b2, b3] crc)"
    by (simp add: chunk)
  also have "\<dots> = (shift8 ^^ 4) ((shift8 ^^ 4) x) XOR (shift8 ^^ 4) (from_le [b4, b5, b6, b7])"
    by (simp only: fold_four_le x_def shift8_pow_xor)
  also have "(shift8 ^^ 4) ((shift8 ^^ 4) x) = (shift8 ^^ 8) x"
    using funpow_add [of 4 4 shift8] by simp
  finally have fold_eq: "fold crc_byte chunk crc = (shift8 ^^ 8) x XOR (shift8 ^^ 4) (from_le [b4, b5, b6, b7])" .
  have take: "take 4 chunk = [b0, b1, b2, b3]" by (simp add: chunk)
  have tail: "chunk ! 4 = b4" "chunk ! 5 = b5" "chunk ! 6 = b6" "chunk ! 7 = b7"
    by (simp_all add: chunk)
  have step: "chunk_step crc chunk =
      TABLES ! 7 ! unat (x AND 0xff) XOR TABLES ! 6 ! unat (drop_bit 8 x AND 0xff)
      XOR TABLES ! 5 ! unat (drop_bit 16 x AND 0xff) XOR TABLES ! 4 ! unat (drop_bit 24 x)
      XOR TABLES ! 3 ! unat b4 XOR TABLES ! 2 ! unat b5 XOR TABLES ! 1 ! unat b6 XOR TABLES ! 0 ! unat b7"
    unfolding chunk_step_def take tail x_def Let_def by (rule refl)
  have suc: "Suc 7 = 8" "Suc 6 = 7" "Suc 5 = 6" "Suc 4 = 5" "Suc 3 = 4" "Suc 2 = 3" "Suc 1 = 2" by simp_all
  have lt: "7 < (8::nat)" "6 < (8::nat)" "5 < (8::nat)" "4 < (8::nat)" "3 < (8::nat)" "2 < (8::nat)" "1 < (8::nat)"
    by simp_all
  show ?thesis
    unfolding fold_eq step shift8_pow_8_le [of x] shift8_le unat_low_byte unat_high_byte TABLES_low
      lt [THEN TABLES_byte] suc
    by (simp only: xor.assoc)
qed

lemma update_eq: "update crc bytes = fold crc_byte bytes crc"
proof (induction crc bytes rule: update.induct)
  case (1 crc bytes)
  have step: "byte_step = crc_byte" by (intro ext byte_step_eq)
  show ?case
  proof (cases "8 \<le> length bytes")
    case True
    have "fold crc_byte bytes crc = fold crc_byte (take 8 bytes @ drop 8 bytes) crc" by simp
    also have "\<dots> = fold crc_byte (drop 8 bytes) (chunk_step crc (take 8 bytes))"
      using True by (simp only: fold_append comp_apply) (simp add: chunk_step_eq)
    finally show ?thesis using 1 True by (simp add: update.simps [of crc bytes])
  qed (simp add: update.simps [of crc bytes] step)
qed

section \<open>Error detection\<close>

lemma bit_31_crc_bit: "bit (crc_bit x) 31 \<longleftrightarrow> odd x"
proof -
  have "bit POLYNOMIAL 31" by (simp add: POLYNOMIAL_def)
  moreover have "\<not> bit (drop_bit 1 x) 31" by (auto simp: bit_simps dest: bit_imp_le_length)
  ultimately show ?thesis by (simp add: crc_bit_odd bit_xor_iff)
qed

lemma crc_bit_eq_0D: "crc_bit x = 0 \<Longrightarrow> x = 0"
proof -
  assume a: "crc_bit x = 0"
  then have e: "even x" using bit_31_crc_bit [of x] by auto
  with a have "drop_bit 1 x = 0" by (simp add: crc_bit_odd)
  then have d: "\<not> bit x (Suc n)" for n
    using bit_drop_bit_eq [of 1 x] by (metis bit_0_eq bot_apply bot_bool_def comp_apply plus_1_eq_Suc)
  show "x = 0"
  proof (rule bit_eqI)
    fix n
    show "bit x n = bit 0 n" using d e by (cases n) (simp_all add: bit_0)
  qed
qed

lemma shift8_eq_0D: "shift8 x = 0 \<Longrightarrow> x = 0"
proof -
  have "(crc_bit ^^ n) x = 0 \<Longrightarrow> x = 0" for n by (induction n) (auto dest: crc_bit_eq_0D)
  then show "shift8 x = 0 \<Longrightarrow> x = 0" unfolding shift8_def by blast
qed

lemma xor_eq_0: "x XOR y = 0 \<longleftrightarrow> x = y" for x y :: u32
proof
  assume "x XOR y = 0"
  then have "\<And>n. bit (x XOR y) n = bit 0 n" by simp
  then show "x = y" by (intro bit_eqI) (simp add: bit_xor_iff)
qed simp

lemma xor_cancel_right: "x XOR z = y XOR z \<Longrightarrow> x = y" for x y z :: u32
proof -
  assume "x XOR z = y XOR z"
  then have "\<And>n. bit (x XOR z) n = bit (y XOR z) n" by simp
  then show "x = y" by (intro bit_eqI) (auto simp add: bit_xor_iff)
qed

lemma xor_cancel_left: "z XOR x = z XOR y \<Longrightarrow> x = y" for x y z :: u32
  by (rule xor_cancel_right [of _ z]) (simp only: xor.commute)

lemma shift8_pow_inj: "(shift8 ^^ n) x = (shift8 ^^ n) y \<Longrightarrow> x = y"
proof -
  have z: "(shift8 ^^ n) v = 0 \<Longrightarrow> v = 0" for v by (induction n) (auto dest: shift8_eq_0D)
  assume "(shift8 ^^ n) x = (shift8 ^^ n) y"
  then have "(shift8 ^^ n) (x XOR y) = 0" by (simp add: shift8_pow_xor)
  then show "x = y" using z xor_eq_0 by blast
qed

lemma fold_crc_byte_inj: "fold crc_byte bs x = fold crc_byte bs y \<Longrightarrow> x = y"
proof (induction bs arbitrary: x y)
  case (Cons b bs)
  then have "shift8 (x XOR ucast b) = shift8 (y XOR ucast b)" by (auto simp: crc_byte_shift8)
  then have "x XOR ucast b = y XOR ucast b" using shift8_pow_inj [of 1] by simp
  then show ?case by (rule xor_cancel_right)
qed simp

lemma fold_crc_byte_burst:
  assumes "length e = length f" "length e \<le> 4" "fold crc_byte e x = fold crc_byte f x"
  shows "e = f"
proof -
  have "x XOR from_le e = x XOR from_le f"
    using assms fold_crc_byte_le [of e x] fold_crc_byte_le [of f x] shift8_pow_inj by auto
  then have "from_le e = (from_le f :: u32)" by (rule xor_cancel_left)
  then have bits: "\<And>n. bit (from_le e :: u32) n = bit (from_le f :: u32) n" by simp
  show ?thesis
  proof (rule nth_equalityI)
    fix i assume i: "i < length e"
    show "e ! i = f ! i"
    proof (rule bit_eqI)
      fix n assume "possible_bit TYPE(u8) n"
      then have n: "n < 8" by (simp add: possible_bit_def)
      with bits [of "8 * i + n"] i assms(1,2) show "bit (e ! i) n = bit (f ! i) n"
        by (simp add: bit_from_le)
    qed
  qed (rule assms(1))
qed

section \<open>Properties\<close>

text \<open>
  C39: The slicing-by-eight update over the lookup tables computes the bitwise CRC-32C of the
  bytes, for every starting state, and so the checksum of several parts is the bitwise checksum of
  their concatenation, however the bytes are split.
\<close>
theorem checksum_parts_correct:
  "update crc bytes = fold crc_byte bytes crc \<and>
   checksum_parts parts = NOT (fold crc_byte (concat parts) (NOT 0))"
proof -
  have "fold (\<lambda>part crc. update crc part) parts c = fold crc_byte (concat parts) c" for c
    by (induction parts arbitrary: c) (simp_all add: update_eq)
  then show ?thesis by (simp add: checksum_parts_def update_eq)
qed

lemma block_checksum_parts:
  assumes "length field = 4" "n = length pre"
  shows "block_checksum (pre @ field @ post) n =
    Some (NOT (fold crc_byte post (fold crc_byte [0, 0, 0, 0] (fold crc_byte pre (NOT 0)))))"
  using assms by (simp add: block_checksum_def update_eq Let_def)

lemma fold_crc_byte_damaged:
  assumes "length damaged = length original" "length original \<le> 4" "damaged \<noteq> original"
  shows "fold crc_byte (damaged @ bs) x \<noteq> fold crc_byte (original @ bs) x"
  using fold_crc_byte_burst [of damaged original x] fold_crc_byte_inj assms by fastforce

lemma block_checksum_damaged:
  assumes "length damaged = length original" "length original \<le> 4" "damaged \<noteq> original" "n + 4 \<le> length pre"
  shows "block_checksum (pre @ damaged @ post) n \<noteq> block_checksum (pre @ original @ post) n"
proof -
  have pre: "pre = take n pre @ take 4 (drop n pre) @ drop (n + 4) pre"
    by (metis add.commute append_take_drop_id drop_drop)
  show ?thesis
    using block_checksum_parts [of "take 4 (drop n pre)" n "take n pre" "drop (n + 4) pre @ _"] assms(4)
      fold_crc_byte_damaged [OF assms(1-3), of post]
    by (subst (1 2) pre) simp
qed

text \<open>
  The block checksum does not depend on the bytes of its own field, so storing it does not
  change it; and corrupting any run of at most four adjacent bytes before or after the field is
  always detected.
\<close>
theorem block_checksum_detects:
  assumes "length field = 4" "length damaged = length original" "length original \<le> 4"
    "damaged \<noteq> original"
  shows "block_checksum (pre @ field @ post) (length pre) = block_checksum (pre @ [0, 0, 0, 0] @ post) (length pre) \<and>
    block_checksum (pre @ field @ mid @ damaged @ post) (length pre) \<noteq>
      block_checksum (pre @ field @ mid @ original @ post) (length pre) \<and>
    block_checksum (pre @ damaged @ mid @ field @ post) (length pre + length original + length mid) \<noteq>
      block_checksum (pre @ original @ mid @ field @ post) (length pre + length original + length mid)"
proof -
  note ne = fold_crc_byte_damaged [OF assms(2-4)]
  have len: "length pre + length original + length mid = length (pre @ original @ mid)"
    "length (pre @ original @ mid) = length (pre @ damaged @ mid)" using assms(2) by simp_all
  show ?thesis
  proof (intro conjI)
    show "block_checksum (pre @ field @ post) (length pre) = block_checksum (pre @ [0, 0, 0, 0] @ post) (length pre)"
      using assms(1) by (simp only: block_checksum_parts) (simp only: block_checksum_parts list.size)
    show "block_checksum (pre @ field @ mid @ damaged @ post) (length pre) \<noteq>
        block_checksum (pre @ field @ mid @ original @ post) (length pre)"
      using assms(1) ne by (simp only: block_checksum_parts) simp
    show "block_checksum (pre @ damaged @ mid @ field @ post) (length pre + length original + length mid) \<noteq>
        block_checksum (pre @ original @ mid @ field @ post) (length pre + length original + length mid)"
      using block_checksum_parts [OF assms(1), of _ "pre @ damaged @ mid" post]
        block_checksum_parts [OF assms(1), of _ "pre @ original @ mid" post]
        ne [of "mid @ [0, 0, 0, 0] @ post" "fold crc_byte pre (NOT 0)"] len by (simp add: add.assoc)
  qed
qed

theorem block_checksum_detects_witness:
  "block_checksum ([1, 2] @ [9, 9, 9, 9] @ [3] @ [4, 5] @ [6]) 2 \<noteq>
   block_checksum ([1, 2] @ [9, 9, 9, 9] @ [3] @ [4, 7] @ [6]) 2"
  using block_checksum_detects [of "[9, 9, 9, 9]" "[4, 5]" "[4, 7]" "[1, 2]" "[6]" "[3]"] by (simp add: numeral_2_eq_2)

end
