(* ===== verification/Word_Encode.thy ===== *)
theory Word_Encode
  imports Crc32c Signal_Events
begin

text \<open>
  The encoding half of \<^verbatim>\<open>crates/signal_derived/src/derived_word_store/codec.rs\<close>: the records of a
  block with their restart entries, the duration and payload exceptions, the grouped timestamps
  of dense byte words and the assembly of the block. A panic is the value \<open>None\<close> of the encoder.
  Sizes are natural numbers; the checks against the address space and against four gigabytes are
  the source's own.
\<close>

section \<open>Values and payloads\<close>

definition value_width :: "u64 \<Rightarrow> nat" where
  "value_width max_value =
     (if max_value \<le> 0xff then 1 else if max_value \<le> 0xffff then 2
      else if max_value \<le> 0xffffffff then 4 else 8)"

fun payload_len :: "word_payload \<Rightarrow> nat" where
  "payload_len (Bytes bytes) = length bytes"
| "payload_len (Text text) = length text"

definition append_value :: "u64 \<Rightarrow> nat \<Rightarrow> u8 list \<Rightarrow> u8 list" where
  "append_value value width output = output @ take width (to_le 8 value)"

definition to_u32 :: "nat \<Rightarrow> string \<Rightarrow> u32 codec_result" where
  "to_u32 value what =
     (if value < 2 ^ 32 then Inr (of_nat value) else Inl (invalid (what @ '' exceeds 4 GiB'')))"

section \<open>Records, durations and payloads\<close>

record encode_state =
  es_records :: "u8 list"
  es_durations :: "u8 list"
  es_payloads :: "u8 list"
  es_restarts :: "restart_entry list"
  es_previous_timestamp :: u64
  es_previous_duration_index :: nat
  es_duration_count :: nat
  es_previous_payload_index :: nat
  es_emitted_payload_count :: nat

definition count_payloads :: "decoded_word list \<Rightarrow> nat" where
  "count_payloads words = length (filter (\<lambda>word. w_payload word \<noteq> None) words)"

definition encode_start :: "decoded_word list \<Rightarrow> encode_state" where
  "encode_start words =
     \<lparr>es_records = [], es_durations = [],
      es_payloads = (if 0 < count_payloads words then encode_u64 (of_nat (count_payloads words)) else []),
      es_restarts = [], es_previous_timestamp = w_timestamp_ns (hd words),
      es_previous_duration_index = 0, es_duration_count = 0,
      es_previous_payload_index = 0, es_emitted_payload_count = 0\<rparr>"

definition push_restart :: "nat \<Rightarrow> nat \<Rightarrow> decoded_word \<Rightarrow> encode_state \<Rightarrow> encode_state codec_result" where
  "push_restart restart_interval index word st =
     (if index mod restart_interval \<noteq> 0 then Inr st
      else if 2 ^ 32 \<le> length (es_records st) then Inl (InvalidFormat ''record payload exceeds 4 GiB'')
      else Inr (st\<lparr>es_restarts := es_restarts st @
             [\<lparr>r_timestamp_ns = w_timestamp_ns word, r_payload_offset = of_nat (length (es_records st)),
               r_record_index = of_nat index\<rparr>]\<rparr>))"

definition encode_record :: "nat \<Rightarrow> nat \<Rightarrow> decoded_word \<Rightarrow> encode_state \<Rightarrow> encode_state" where
  "encode_record value_bytes index word st =
     (let delta = (if index = 0 then 0 else w_timestamp_ns word - es_previous_timestamp st)
      in st\<lparr>es_records := append_value (w_value word) value_bytes (es_records st @ encode_u64 delta),
            es_previous_timestamp := w_timestamp_ns word\<rparr>)"

definition encode_duration :: "nat \<Rightarrow> decoded_word \<Rightarrow> encode_state \<Rightarrow> encode_state" where
  "encode_duration index word st =
     (if w_duration_ns word = 0 then st
      else
        let index_delta = (if es_duration_count st = 0 then index else index - es_previous_duration_index st)
        in st\<lparr>es_durations := es_durations st @ encode_u64 (of_nat index_delta) @ encode_u64 (w_duration_ns word),
              es_previous_duration_index := index,
              es_duration_count := es_duration_count st + 1\<rparr>)"

fun payload_bytes :: "word_payload \<Rightarrow> u8 list" where
  "payload_bytes (Bytes bytes) = [1] @ encode_u64 (of_nat (length bytes)) @ bytes"
| "payload_bytes (Text text) = [2] @ encode_u64 (of_nat (length text)) @ text"

definition encode_payload :: "nat \<Rightarrow> decoded_word \<Rightarrow> encode_state \<Rightarrow> encode_state" where
  "encode_payload index word st =
     (case w_payload word of
        None \<Rightarrow> st
      | Some payload \<Rightarrow>
          let index_delta = (if es_emitted_payload_count st = 0 then index else index - es_previous_payload_index st)
          in st\<lparr>es_payloads := es_payloads st @ encode_u64 (of_nat index_delta) @ payload_bytes payload,
                es_previous_payload_index := index,
                es_emitted_payload_count := es_emitted_payload_count st + 1\<rparr>)"

fun encode_words :: "nat \<Rightarrow> nat \<Rightarrow> nat \<Rightarrow> decoded_word list \<Rightarrow> encode_state \<Rightarrow> encode_state codec_result" where
  "encode_words restart_interval value_bytes index [] st = Inr st"
| "encode_words restart_interval value_bytes index (word # words) st =
     and_then (push_restart restart_interval index word st) (\<lambda>st1.
       encode_words restart_interval value_bytes (Suc index) words
         (encode_payload index word (encode_duration index word (encode_record value_bytes index word st1))))"

section \<open>Dense byte words\<close>

fun encode_dense_words ::
  "nat \<Rightarrow> nat \<Rightarrow> u64 \<Rightarrow> decoded_word list \<Rightarrow> u8 list \<times> restart_entry list \<Rightarrow> u8 list \<times> restart_entry list" where
  "encode_dense_words restart_interval index previous [] (records, restarts) = (records, restarts)"
| "encode_dense_words restart_interval index previous (word # words) (records, restarts) =
     (let restarts' = (if index mod restart_interval = 0
          then restarts @ [\<lparr>r_timestamp_ns = w_timestamp_ns word, r_payload_offset = of_nat (index * 2),
                            r_record_index = of_nat index\<rparr>]
          else restarts);
          delta = (if index = 0 then 0 else w_timestamp_ns word - previous)
      in encode_dense_words restart_interval (Suc index) (w_timestamp_ns word) words
           (records @ [ucast delta, ucast (w_value word)], restarts'))"

section \<open>Grouped timestamps\<close>

definition palette_index_bits :: "nat \<Rightarrow> nat" where
  "palette_index_bits palette_len =
     (if palette_len \<le> 1 then 0 else if palette_len = 2 then 1
      else if palette_len \<le> 4 then 2 else if palette_len \<le> 8 then 3 else 4)"

text \<open>
  Bits are spread over at most two adjacent bytes. The encoder sizes the packed bytes so that
  both indices are in range.
\<close>

definition write_packed_index :: "u8 list \<Rightarrow> nat \<Rightarrow> nat \<Rightarrow> u8 \<Rightarrow> u8 list" where
  "write_packed_index bytes index bits v =
     (let bit_offset = index * bits;
          byte_index = bit_offset div 8;
          shift = bit_offset mod 8;
          encoded = push_bit shift (ucast v :: u16);
          bytes1 = bytes[byte_index := bytes ! byte_index OR ucast encoded]
      in if 8 < shift + bits
         then bytes1[byte_index + 1 := bytes1 ! (byte_index + 1) OR ucast (drop_bit 8 encoded)]
         else bytes1)"

definition group_deltas :: "decoded_word list \<Rightarrow> u64 list" where
  "group_deltas members = map (\<lambda>(a, b). w_timestamp_ns b - w_timestamp_ns a) (zip members (tl members))"

definition palette_add :: "u64 list \<times> bool \<Rightarrow> u64 \<Rightarrow> u64 list \<times> bool" where
  "palette_add = (\<lambda>(palette, available) delta.
     if delta \<in> set palette then (palette, available)
     else if length palette = 16 then (palette, False)
     else (palette @ [delta], available))"

definition collect_palette :: "u64 list \<Rightarrow> u64 list \<times> bool" where
  "collect_palette deltas = foldl palette_add ([], True) deltas"

definition position :: "'a \<Rightarrow> 'a list \<Rightarrow> nat" where
  "position x xs = length (takeWhile (\<lambda>y. y \<noteq> x) xs)"

definition packed_indices :: "u64 list \<Rightarrow> u64 list \<Rightarrow> u8 list" where
  "packed_indices palette deltas =
     (let bits = palette_index_bits (length palette)
      in fold (\<lambda>(delta_index, delta) bytes.
             write_packed_index bytes delta_index bits (of_nat (position delta palette)))
           (enumerate 0 deltas) (replicate (div_ceil (length deltas * bits) 8) 0))"

fun raw_group :: "u64 list \<Rightarrow> decoded_word list \<Rightarrow> u8 list" where
  "raw_group (delta # deltas) (word # words) = encode_u64 delta @ [ucast (w_value word)] @ raw_group deltas words"
| "raw_group _ _ = []"

definition encode_group :: "decoded_word list \<Rightarrow> u8 list" where
  "encode_group members =
     (let deltas = group_deltas members;
          (palette, palette_available) = collect_palette deltas;
          raw_len = 1 + length members + sum_list (map encoded_len deltas);
          palette_bits = palette_index_bits (length palette);
          palette_len_bytes =
            (if palette_available \<and> 1 < length palette
             then 2 + sum_list (map encoded_len palette) + div_ceil ((length members - 1) * palette_bits) 8 + length members
             else usize_bound - 1)
      in if length palette = 1 then [1] @ encode_u64 (palette ! 0) @ map (\<lambda>word. ucast (w_value word)) members
         else if palette_len_bytes < raw_len
         then [2, of_nat (length palette)] @ concat (map encode_u64 palette) @ packed_indices palette deltas @
              map (\<lambda>word. ucast (w_value word)) members
         else [0] @ [ucast (w_value (hd members))] @ raw_group deltas (tl members))"

function chunks :: "nat \<Rightarrow> 'a list \<Rightarrow> 'a list list" where
  "chunks n xs = (if xs = [] \<or> n = 0 then [] else take n xs # chunks n (drop n xs))"
  by pat_completeness auto

termination chunks
  by (relation "measure (\<lambda>(_, xs). length xs)") auto

declare chunks.simps [simp del]

fun encode_groups ::
  "nat \<Rightarrow> nat \<Rightarrow> decoded_word list list \<Rightarrow> u8 list \<times> restart_entry list \<Rightarrow> (u8 list \<times> restart_entry list) option" where
  "encode_groups restart_interval group_index [] acc = Some acc"
| "encode_groups restart_interval group_index (members # groups) (records, restarts) =
     (if 2 ^ 32 \<le> length records then None
      else encode_groups restart_interval (Suc group_index) groups
        (records @ encode_group members,
         restarts @ [\<lparr>r_timestamp_ns = w_timestamp_ns (hd members), r_payload_offset = of_nat (length records),
                      r_record_index = of_nat (group_index * restart_interval)\<rparr>]))"

definition encode_grouped_dense_records ::
  "decoded_word list \<Rightarrow> nat \<Rightarrow> nat \<Rightarrow> (u8 list \<times> restart_entry list) option" where
  "encode_grouped_dense_records words restart_interval timestamp_bytes =
     (let legacy_len = usize_saturating_add timestamp_bytes (length words)
      in case encode_groups restart_interval 0 (chunks restart_interval words) ([], []) of
           None \<Rightarrow> None
         | Some (records, restarts) \<Rightarrow> if length records < legacy_len then Some (records, restarts) else None)"

section \<open>The block\<close>

text \<open>The flag tells whether the timestamps are grouped.\<close>

definition encode_body ::
  "decoded_word list \<Rightarrow> nat \<Rightarrow> nat \<Rightarrow> nat \<Rightarrow> bool \<Rightarrow> (bool \<times> encode_state) codec_result" where
  "encode_body words restart_interval value_bytes timestamp_bytes dense_byte_words =
     (let st = encode_start words
      in case (if dense_byte_words then encode_grouped_dense_records words restart_interval timestamp_bytes else None) of
           Some (records, restarts) \<Rightarrow> Inr (True, st\<lparr>es_records := records, es_restarts := restarts\<rparr>)
         | None \<Rightarrow>
             if dense_byte_words
             then (let (records, restarts) = encode_dense_words restart_interval 0 0 words ([], [])
                   in Inr (False, st\<lparr>es_records := records, es_restarts := restarts\<rparr>))
             else and_then (encode_words restart_interval value_bytes 0 words st) (\<lambda>st1. Inr (False, st1)))"

definition checked :: "'a option \<Rightarrow> 'a codec_result" where
  "checked r = (case r of None \<Rightarrow> Inl (invalid ''word-block size overflow'') | Some x \<Rightarrow> Inr x)"

definition encode_header ::
  "u64 \<Rightarrow> decoded_word list \<Rightarrow> nat \<Rightarrow> bool \<Rightarrow> encode_state \<Rightarrow> (nat \<times> word_block_header) codec_result" where
  "encode_header sequence words value_bytes grouped_timestamps st =
     and_then (checked (usize_checked_add BLOCK_HEADER_SIZE (length (es_records st)))) (\<lambda>restart_table_offset.
     and_then (checked (usize_checked_add restart_table_offset (length (es_restarts st) * RESTART_ENTRY_SIZE)))
       (\<lambda>duration_table_offset.
     and_then (checked (usize_checked_add duration_table_offset (length (es_durations st)))) (\<lambda>durations_end.
     and_then (checked (usize_checked_add durations_end (length (es_payloads st)))) (\<lambda>unpadded_len.
     and_then (checked (usize_checked_add unpadded_len 7)) (\<lambda>padded.
     let block_len = padded - padded mod 8 in
     and_then (to_u32 (length (es_records st)) ''record payload'') (\<lambda>record_payload_len.
     and_then (to_u32 (length (es_restarts st)) ''restart table'') (\<lambda>restart_count.
     and_then (to_u32 restart_table_offset ''restart table offset'') (\<lambda>restart_offset.
     and_then (to_u32 (es_duration_count st) ''duration table'') (\<lambda>duration_count.
     and_then (to_u32 duration_table_offset ''duration table offset'') (\<lambda>duration_offset.
     and_then (to_u32 block_len ''word block'') (\<lambda>len.
     Inr (block_len,
       \<lparr>h_flags = (if 0 < es_duration_count st then BLOCK_FLAG_HAS_DURATIONS else 0) OR
          (if 0 < count_payloads words then BLOCK_FLAG_HAS_PAYLOADS else 0) OR
          (if grouped_timestamps then BLOCK_FLAG_GROUPED_TIMESTAMPS else 0),
        h_sequence = sequence, h_first_timestamp_ns = w_timestamp_ns (hd words),
        h_last_timestamp_ns = w_timestamp_ns (last words), h_word_count = of_nat (length words),
        h_value_bytes = of_nat value_bytes, h_record_payload_len = record_payload_len,
        h_restart_count = restart_count, h_restart_table_offset = restart_offset,
        h_duration_count = duration_count, h_duration_table_offset = duration_offset,
        h_block_len = len, h_crc32c = 0\<rparr>))))))))))))"

text \<open>The vector is cut or filled with zeros to the given length.\<close>

definition resize :: "u8 list \<Rightarrow> nat \<Rightarrow> u8 list" where
  "resize bytes n = take n bytes @ replicate (n - length bytes) 0"

definition encode_output :: "encode_state \<Rightarrow> nat \<Rightarrow> u8 list" where
  "encode_output st block_len =
     resize (replicate BLOCK_HEADER_SIZE 0 @ es_records st @ concat (map restart_bytes (es_restarts st)) @
       es_durations st @ es_payloads st) block_len"

record encoded_block_metadata =
  m_header :: word_block_header
  m_restarts :: "restart_entry list"

definition encode_validated_word_block_with_interval ::
  "u64 \<Rightarrow> decoded_word list \<Rightarrow> nat \<Rightarrow> nat \<Rightarrow> nat \<Rightarrow> bool \<Rightarrow>
   (encoded_block_metadata \<times> u8 list) codec_result option" where
  "encode_validated_word_block_with_interval sequence words restart_interval value_bytes timestamp_bytes
     dense_byte_words =
     (if words = [] then None
      else case and_then (encode_body words restart_interval value_bytes timestamp_bytes dense_byte_words)
          (\<lambda>(grouped, st). and_then (encode_header sequence words value_bytes grouped st)
             (\<lambda>(block_len, header). Inr (st, block_len, header))) of
        Inl e \<Rightarrow> Some (Inl e)
      | Inr (st, block_len, header) \<Rightarrow>
          Option.bind (write_to header (encode_output st block_len)) (\<lambda>output1.
          Option.bind (block_checksum output1 BLOCK_CHECKSUM_OFFSET) (\<lambda>crc.
          Option.bind (write_to (header\<lparr>h_crc32c := crc\<rparr>) output1) (\<lambda>output2.
          Some (Inr (\<lparr>m_header = header\<lparr>h_crc32c := crc\<rparr>, m_restarts = es_restarts st\<rparr>, output2))))))"

end
