(* ===== verification/Word_Decode.thy ===== *)
theory Word_Decode
  imports Word_Encode Recorded_Edges
begin

text \<open>
  The decoding half of \<^verbatim>\<open>crates/signal_derived/src/derived_word_store/codec.rs\<close>: parsing of the
  header and the restart table, the record decoder with its grouped timestamps, the duration and
  payload exceptions, and the decoding of a whole block and of a time window.
\<close>

section \<open>Parsing\<close>

record parsed_word_block =
  pb_header :: word_block_header
  pb_restarts :: "restart_entry list"
  pb_record_end :: nat
  pb_duration_offset :: nat
  pb_block_len :: nat
  pb_value_bytes :: nat

definition validate_restart_order :: "restart_entry list \<Rightarrow> u32 \<Rightarrow> u32 \<Rightarrow> unit codec_result" where
  "validate_restart_order restarts word_count records_len =
     (if restarts = [] \<or> r_record_index (hd restarts) \<noteq> 0 \<or> r_payload_offset (hd restarts) \<noteq> 0
      then Inl (invalid ''restart table does not begin at the first record'')
      else if list_ex (\<lambda>(a, b). r_record_index b \<le> r_record_index a \<or> r_payload_offset b \<le> r_payload_offset a \<or>
                r_timestamp_ns b < r_timestamp_ns a) (zip restarts (tl restarts))
      then Inl (invalid ''restart entries are not strictly ordered'')
      else if word_count \<le> r_record_index (last restarts) \<or> records_len \<le> r_payload_offset (last restarts)
      then Inl (invalid ''restart entry is outside the record payload'')
      else Inr ())"

fun read_restarts :: "u8 list \<Rightarrow> nat \<Rightarrow> nat \<Rightarrow> restart_entry list codec_result" where
  "read_restarts bytes offset 0 = Inr []"
| "read_restarts bytes offset (Suc n) =
     and_then (read_from bytes offset) (\<lambda>r.
     and_then (read_restarts bytes (offset + RESTART_ENTRY_SIZE) n) (\<lambda>rs. Inr (r # rs)))"

text \<open>
  The header is read from at least 72 bytes, so the checksum is defined. The sums of 32-bit
  sizes cannot leave the 64-bit address space; they are checked as in the source.
\<close>

definition parse_word_block :: "u8 list \<Rightarrow> parsed_word_block codec_result" where
  "parse_word_block bytes =
     and_then (from_bytes bytes) (\<lambda>header.
     let block_len = unat (h_block_len header); value_bytes = unat (h_value_bytes header) in
     if block_len \<noteq> length bytes \<or> block_len < BLOCK_HEADER_SIZE
     then Inl (invalid ''word-block length does not match its header'')
     else if block_checksum bytes BLOCK_CHECKSUM_OFFSET \<noteq> Some (h_crc32c header)
     then Inl (ChecksumMismatch (h_crc32c header) (the (block_checksum bytes BLOCK_CHECKSUM_OFFSET)))
     else if h_word_count header = 0 then Inl EmptyBlock
     else if value_bytes \<notin> {1, 2, 4, 8} then Inl (invalid ''invalid value width'')
     else if h_flags header AND
         NOT (BLOCK_FLAG_HAS_DURATIONS OR BLOCK_FLAG_HAS_PAYLOADS OR BLOCK_FLAG_GROUPED_TIMESTAMPS) \<noteq> 0
     then Inl (invalid ''word block contains unsupported flags'')
     else
       case usize_checked_add BLOCK_HEADER_SIZE (unat (h_record_payload_len header)) of
         None \<Rightarrow> Inl (invalid ''record payload offset overflow'')
       | Some record_end \<Rightarrow>
           let restart_offset = unat (h_restart_table_offset header);
               table_bytes = unat (h_restart_count header) * RESTART_ENTRY_SIZE in
           if usize_bound \<le> table_bytes then Inl (invalid ''restart table size overflow'')
           else case usize_checked_add restart_offset table_bytes of
             None \<Rightarrow> Inl (invalid ''restart table offset overflow'')
           | Some restart_end \<Rightarrow>
               let duration_offset = unat (h_duration_table_offset header) in
               if restart_offset \<noteq> record_end \<or> duration_offset \<noteq> restart_end \<or> block_len < duration_offset
               then Inl (invalid ''word-block table offsets are inconsistent'')
               else
                 and_then (read_restarts bytes restart_offset (unat (h_restart_count header))) (\<lambda>restarts.
                 and_then (validate_restart_order restarts (h_word_count header) (h_record_payload_len header)) (\<lambda>_.
                 Inr \<lparr>pb_header = header, pb_restarts = restarts, pb_record_end = record_end,
                      pb_duration_offset = duration_offset, pb_block_len = block_len,
                      pb_value_bytes = value_bytes\<rparr>)))"

section \<open>Records\<close>

datatype group_timestamp_decoder =
    Raw
  | Constant u64
  | Palette "u64 list" nat nat nat nat nat

text \<open>The fields of a palette: deltas, palette length, bits, packed offset, delta count, next delta.\<close>

fun is_complete :: "group_timestamp_decoder \<Rightarrow> bool" where
  "is_complete Raw = True"
| "is_complete (Constant _) = True"
| "is_complete (Palette _ _ _ _ delta_count next_delta) = (next_delta = delta_count)"

record record_decoder =
  rd_cursor :: nat
  rd_timestamp :: u64
  rd_next_restart_index :: nat
  rd_group_timestamps :: group_timestamp_decoder
  rd_skip_initial_legacy_delta :: bool

definition record_decoder_new :: "parsed_word_block \<Rightarrow> nat \<Rightarrow> bool \<Rightarrow> record_decoder" where
  "record_decoder_new parsed restart_index skip_initial_legacy_delta =
     (let restart = pb_restarts parsed ! restart_index
      in \<lparr>rd_cursor = BLOCK_HEADER_SIZE + unat (r_payload_offset restart),
          rd_timestamp = r_timestamp_ns restart, rd_next_restart_index = restart_index,
          rd_group_timestamps = Raw, rd_skip_initial_legacy_delta = skip_initial_legacy_delta\<rparr>)"

definition read_packed_index :: "u8 list \<Rightarrow> nat \<Rightarrow> nat \<Rightarrow> nat \<Rightarrow> u8" where
  "read_packed_index bytes packed_offset index bits =
     (let bit_offset = index * bits;
          byte_index = packed_offset + bit_offset div 8;
          shift = bit_offset mod 8;
          low = ucast (bytes ! byte_index) :: u16;
          high = (if byte_index + 1 < length bytes then ucast (bytes ! (byte_index + 1)) else 0) :: u16
      in ucast (drop_bit shift (low OR push_bit 8 high) AND (push_bit bits 1 - 1)))"

definition get_byte :: "u8 list \<Rightarrow> nat \<Rightarrow> u8 codec_result" where
  "get_byte bytes cursor = (if cursor < length bytes then Inr (bytes ! cursor) else Inl Truncated)"

fun decode_deltas :: "u8 list \<Rightarrow> nat \<Rightarrow> nat \<Rightarrow> (u64 list \<times> nat) codec_result" where
  "decode_deltas bytes cursor 0 = Inr ([], cursor)"
| "decode_deltas bytes cursor (Suc n) =
     and_then (decode_u64 bytes cursor) (\<lambda>(delta, cursor1).
     and_then (decode_deltas bytes cursor1 n) (\<lambda>(deltas, cursor2). Inr (delta # deltas, cursor2)))"

definition decode_timestamp_palette ::
  "u8 list \<Rightarrow> parsed_word_block \<Rightarrow> nat \<Rightarrow> nat \<Rightarrow> nat \<Rightarrow> (group_timestamp_decoder \<times> nat) codec_result" where
  "decode_timestamp_palette bytes parsed next_restart_index record_index cursor =
     and_then (get_byte bytes cursor) (\<lambda>byte.
     let palette_len = unat byte in
     if palette_len < 2 \<or> 16 < palette_len then Inl (invalid ''invalid timestamp palette length'')
     else
       and_then (decode_deltas (take (pb_record_end parsed) bytes) (Suc cursor) palette_len) (\<lambda>(deltas, cursor1).
       let group_end =
             (if next_restart_index + 1 < length (pb_restarts parsed)
              then unat (r_record_index (pb_restarts parsed ! (next_restart_index + 1)))
              else unat (h_word_count (pb_header parsed))) in
       if group_end < record_index + 1 then Inl (invalid ''timestamp restart group is invalid'')
       else
         let delta_count = group_end - (record_index + 1);
             bits = palette_index_bits palette_len;
             packed_len = div_ceil (delta_count * bits) 8 in
         case usize_checked_add cursor1 packed_len of
           None \<Rightarrow> Inl Truncated
         | Some end \<Rightarrow>
             if pb_record_end parsed < end then Inl Truncated
             else Inr (Palette (deltas @ replicate (16 - palette_len) 0) palette_len bits cursor1 delta_count 0, end)))"

text \<open>The first record of a group.\<close>

definition start_group ::
  "u8 list \<Rightarrow> parsed_word_block \<Rightarrow> nat \<Rightarrow> record_decoder \<Rightarrow> record_decoder codec_result" where
  "start_group bytes parsed record_index d =
     (let restart = pb_restarts parsed ! rd_next_restart_index d in
      if \<not> is_complete (rd_group_timestamps d)
      then Inl (invalid ''timestamp palette extends beyond its restart group'')
      else if r_payload_offset restart \<noteq> of_nat (rd_cursor d - BLOCK_HEADER_SIZE)
      then Inl (invalid ''restart entry does not match record payload'')
      else
        and_then (get_byte bytes (rd_cursor d)) (\<lambda>mode.
        let cursor = Suc (rd_cursor d) in
        and_then
          (if mode = 0 then Inr (Raw, cursor)
           else if mode = 1
           then and_then (decode_u64 (take (pb_record_end parsed) bytes) cursor) (\<lambda>(delta, c). Inr (Constant delta, c))
           else if mode = 2 then decode_timestamp_palette bytes parsed (rd_next_restart_index d) record_index cursor
           else Inl (invalid ''invalid grouped timestamp mode''))
          (\<lambda>(timestamps, cursor1).
             Inr (d\<lparr>rd_cursor := cursor1, rd_timestamp := r_timestamp_ns restart,
                    rd_group_timestamps := timestamps,
                    rd_next_restart_index := rd_next_restart_index d + 1\<rparr>))))"

definition add_delta :: "record_decoder \<Rightarrow> u64 \<Rightarrow> record_decoder codec_result" where
  "add_delta d delta =
     (case checked_add (rd_timestamp d) delta of
        None \<Rightarrow> Inl (invalid ''timestamp delta overflow'')
      | Some t \<Rightarrow> Inr (d\<lparr>rd_timestamp := t\<rparr>))"

text \<open>A record inside a group.\<close>

definition continue_group :: "u8 list \<Rightarrow> parsed_word_block \<Rightarrow> record_decoder \<Rightarrow> record_decoder codec_result" where
  "continue_group bytes parsed d =
     (case rd_group_timestamps d of
        Raw \<Rightarrow>
          and_then (decode_u64 (take (pb_record_end parsed) bytes) (rd_cursor d)) (\<lambda>(delta, cursor).
            add_delta (d\<lparr>rd_cursor := cursor\<rparr>) delta)
      | Constant delta \<Rightarrow> add_delta d delta
      | Palette deltas palette_len bits packed_offset delta_count next_delta \<Rightarrow>
          if delta_count \<le> next_delta then Inl (invalid ''timestamp palette is shorter than its group'')
          else
            let palette_index = unat (read_packed_index bytes packed_offset next_delta bits);
                d1 = d\<lparr>rd_group_timestamps := Palette deltas palette_len bits packed_offset delta_count (Suc next_delta)\<rparr>
            in if palette_index < length deltas \<and> palette_index < palette_len
               then add_delta d1 (deltas ! palette_index)
               else Inl (invalid ''timestamp palette index is out of bounds''))"

text \<open>A record with its own timestamp delta.\<close>

definition legacy_timestamp ::
  "u8 list \<Rightarrow> parsed_word_block \<Rightarrow> nat \<Rightarrow> bool \<Rightarrow> record_decoder \<Rightarrow> record_decoder codec_result" where
  "legacy_timestamp bytes parsed record_index at_restart d =
     and_then (decode_u64 (take (pb_record_end parsed) bytes) (rd_cursor d)) (\<lambda>(delta, cursor).
     let d1 = d\<lparr>rd_cursor := cursor\<rparr> in
     and_then
       (if rd_skip_initial_legacy_delta d
        then (if record_index = 0 \<and> delta \<noteq> 0 then Inl (invalid ''first timestamp delta is not zero'')
              else Inr (d1\<lparr>rd_skip_initial_legacy_delta := False\<rparr>))
        else if record_index = 0
        then (if delta \<noteq> 0 then Inl (invalid ''first timestamp delta is not zero'') else Inr d1)
        else add_delta d1 delta)
       (\<lambda>d2.
          if \<not> at_restart then Inr d2
          else
            let restart = pb_restarts parsed ! rd_next_restart_index d2 in
            if r_timestamp_ns restart \<noteq> rd_timestamp d2 \<or>
               r_payload_offset restart \<noteq> of_nat (rd_cursor d - BLOCK_HEADER_SIZE)
            then Inl (invalid ''restart entry does not match record payload'')
            else Inr (d2\<lparr>rd_next_restart_index := rd_next_restart_index d2 + 1\<rparr>)))"

definition read_value :: "u8 list \<Rightarrow> nat \<Rightarrow> nat \<Rightarrow> nat \<Rightarrow> (u64 \<times> nat) codec_result" where
  "read_value bytes cursor record_end width =
     (case usize_checked_add cursor width of
        None \<Rightarrow> Inl Truncated
      | Some end \<Rightarrow>
          let stop = min end record_end in
          if cursor \<le> stop \<and> stop \<le> length bytes \<and> stop - cursor = width
          then Inr (from_le (slice bytes cursor width @ replicate (8 - width) 0), end)
          else Inl Truncated)"

definition decoder_next ::
  "u8 list \<Rightarrow> parsed_word_block \<Rightarrow> nat \<Rightarrow> record_decoder \<Rightarrow> (decoded_word \<times> record_decoder) codec_result" where
  "decoder_next bytes parsed record_index d =
     (let at_restart = rd_next_restart_index d < length (pb_restarts parsed) \<and>
            unat (r_record_index (pb_restarts parsed ! rd_next_restart_index d)) = record_index
      in and_then
           (if h_flags (pb_header parsed) AND BLOCK_FLAG_GROUPED_TIMESTAMPS \<noteq> 0
            then (if at_restart then start_group bytes parsed record_index d else continue_group bytes parsed d)
            else legacy_timestamp bytes parsed record_index at_restart d)
           (\<lambda>d1. and_then (read_value bytes (rd_cursor d1) (pb_record_end parsed) (pb_value_bytes parsed))
             (\<lambda>(v, cursor). Inr (word_new v (rd_timestamp d1), d1\<lparr>rd_cursor := cursor\<rparr>))))"

fun decode_records ::
  "u8 list \<Rightarrow> parsed_word_block \<Rightarrow> nat \<Rightarrow> nat \<Rightarrow> record_decoder \<Rightarrow> (decoded_word list \<times> record_decoder) codec_result" where
  "decode_records bytes parsed record_index 0 d = Inr ([], d)"
| "decode_records bytes parsed record_index (Suc n) d =
     and_then (decoder_next bytes parsed record_index d) (\<lambda>(word, d1).
     and_then (decode_records bytes parsed (Suc record_index) n d1) (\<lambda>(words, d2). Inr (word # words, d2)))"

section \<open>Durations and payloads\<close>

text \<open>
  The entry for a record is written to the word of the decoded range that stands for the record,
  if there is one.
\<close>

definition update_local :: "nat \<Rightarrow> nat \<Rightarrow> (decoded_word \<Rightarrow> decoded_word) \<Rightarrow> decoded_word list \<Rightarrow> decoded_word list" where
  "update_local first_record_index record_index f words =
     (if first_record_index \<le> record_index \<and> record_index - first_record_index < length words
      then words[record_index - first_record_index := f (words ! (record_index - first_record_index))]
      else words)"

text \<open>The record index of an exception: the first is stored as it is, the others as increments.\<close>

definition exception_index :: "bool \<Rightarrow> nat \<Rightarrow> u64 \<Rightarrow> string \<Rightarrow> string \<Rightarrow> nat codec_result" where
  "exception_index first previous index_delta not_increasing overflow =
     (if first then Inr (unat index_delta)
      else if index_delta = 0 then Inl (invalid not_increasing)
      else case usize_checked_add previous (unat index_delta) of
        None \<Rightarrow> Inl (invalid overflow)
      | Some i \<Rightarrow> Inr i)"

fun decode_durations ::
  "u8 list \<Rightarrow> nat \<Rightarrow> nat \<Rightarrow> nat \<Rightarrow> bool \<Rightarrow> nat \<Rightarrow> nat \<Rightarrow> decoded_word list \<Rightarrow> (nat \<times> decoded_word list) codec_result" where
  "decode_durations bytes word_count first_record_index 0 first previous cursor words = Inr (cursor, words)"
| "decode_durations bytes word_count first_record_index (Suc n) first previous cursor words =
     and_then (decode_u64 bytes cursor) (\<lambda>(index_delta, cursor1).
     and_then
       (exception_index first previous index_delta ''duration exception indices are not increasing''
          ''duration index overflow'')
       (\<lambda>record_index.
     and_then (decode_u64 bytes cursor1) (\<lambda>(duration_ns, cursor2).
     if duration_ns = 0 then Inl (invalid ''zero duration stored as an exception'')
     else if word_count \<le> record_index then Inl (invalid ''duration exception index is out of bounds'')
     else decode_durations bytes word_count first_record_index n False record_index cursor2
       (update_local first_record_index record_index (\<lambda>word. word\<lparr>w_duration_ns := duration_ns\<rparr>) words))))"

text \<open>Well-formed UTF-8, as \<^verbatim>\<open>std::str::from_utf8\<close> accepts it.\<close>

definition utf8_tail :: "u8 \<Rightarrow> bool" where
  "utf8_tail b \<longleftrightarrow> 0x80 \<le> b \<and> b \<le> 0xbf"

fun valid_utf8 :: "u8 list \<Rightarrow> bool" where
  "valid_utf8 [] = True"
| "valid_utf8 (a # as) =
     (if a \<le> 0x7f then valid_utf8 as
      else case as of
        [] \<Rightarrow> False
      | b # bs \<Rightarrow>
          if 0xc2 \<le> a \<and> a \<le> 0xdf then utf8_tail b \<and> valid_utf8 bs
          else (case bs of
             [] \<Rightarrow> False
           | c # cs \<Rightarrow>
               if 0xe0 \<le> a \<and> a \<le> 0xef
               then utf8_tail b \<and> utf8_tail c \<and> (a = 0xe0 \<longrightarrow> 0xa0 \<le> b) \<and> (a = 0xed \<longrightarrow> b \<le> 0x9f) \<and> valid_utf8 cs
               else (case cs of
                  [] \<Rightarrow> False
                | d # ds \<Rightarrow>
                    0xf0 \<le> a \<and> a \<le> 0xf4 \<and> utf8_tail b \<and> utf8_tail c \<and> utf8_tail d \<and>
                    (a = 0xf0 \<longrightarrow> 0x90 \<le> b) \<and> (a = 0xf4 \<longrightarrow> b \<le> 0x8f) \<and> valid_utf8 ds)))"

definition read_payload :: "u8 \<Rightarrow> u8 list \<Rightarrow> word_payload codec_result" where
  "read_payload kind bytes =
     (if kind = 1 then Inr (Bytes bytes)
      else if kind = 2
      then (if valid_utf8 bytes then Inr (Text bytes) else Inl (invalid ''word text payload is not UTF-8''))
      else Inl (invalid ''unknown word payload kind''))"

fun decode_payloads ::
  "u8 list \<Rightarrow> nat \<Rightarrow> nat \<Rightarrow> nat \<Rightarrow> bool \<Rightarrow> nat \<Rightarrow> nat \<Rightarrow> decoded_word list \<Rightarrow> (nat \<times> decoded_word list) codec_result" where
  "decode_payloads bytes word_count first_record_index 0 first previous cursor words = Inr (cursor, words)"
| "decode_payloads bytes word_count first_record_index (Suc n) first previous cursor words =
     and_then (decode_u64 bytes cursor) (\<lambda>(index_delta, cursor1).
     and_then
       (exception_index first previous index_delta ''word payload indices are not increasing''
          ''word payload index overflow'')
       (\<lambda>record_index.
     if word_count \<le> record_index then Inl (invalid ''word payload index is out of bounds'')
     else
       and_then (get_byte bytes cursor1) (\<lambda>kind.
       and_then (decode_u64 bytes (Suc cursor1)) (\<lambda>(len, cursor2).
       case usize_checked_add cursor2 (unat len) of
         None \<Rightarrow> Inl (invalid ''word payload length overflow'')
       | Some end \<Rightarrow>
           if length bytes < end then Inl Truncated
           else
             and_then (read_payload kind (slice bytes cursor2 (unat len))) (\<lambda>payload.
             decode_payloads bytes word_count first_record_index n False record_index end
               (update_local first_record_index record_index (\<lambda>word. word\<lparr>w_payload := Some payload\<rparr>) words))))))"

definition apply_durations ::
  "u8 list \<Rightarrow> parsed_word_block \<Rightarrow> nat \<Rightarrow> decoded_word list \<Rightarrow> decoded_word list codec_result" where
  "apply_durations bytes parsed first_record_index words =
     (let word_count = unat (h_word_count (pb_header parsed)) in
      and_then (decode_durations bytes word_count first_record_index (unat (h_duration_count (pb_header parsed)))
          True 0 (pb_duration_offset parsed) words) (\<lambda>(duration_cursor, words1).
      and_then
        (if h_flags (pb_header parsed) AND BLOCK_FLAG_HAS_PAYLOADS \<noteq> 0
         then and_then (decode_u64 bytes duration_cursor) (\<lambda>(payload_count, cursor).
           decode_payloads bytes word_count first_record_index (unat payload_count) True 0 cursor words1)
         else Inr (duration_cursor, words1))
        (\<lambda>(payload_cursor, words2).
      if pb_block_len parsed < payload_cursor \<or> length bytes < pb_block_len parsed then Inl Truncated
      else
        let padding = slice bytes payload_cursor (pb_block_len parsed - payload_cursor) in
        if 7 < length padding \<or> list_ex (\<lambda>b. b \<noteq> 0) padding then Inl (invalid ''invalid word-block padding'')
        else Inr words2)))"

section \<open>Whole blocks\<close>

record decoded_word_block =
  db_header :: word_block_header
  db_restarts :: "restart_entry list"
  db_words :: "decoded_word list"

definition decode_word_block :: "u8 list \<Rightarrow> decoded_word_block codec_result" where
  "decode_word_block bytes =
     and_then (parse_word_block bytes) (\<lambda>parsed.
     let header = pb_header parsed in
     and_then (decode_records bytes parsed 0 (unat (h_word_count header)) (record_decoder_new parsed 0 False))
       (\<lambda>(words, decoder).
     if rd_cursor decoder \<noteq> pb_record_end parsed \<or>
        rd_next_restart_index decoder \<noteq> length (pb_restarts parsed) \<or>
        \<not> is_complete (rd_group_timestamps decoder)
     then Inl (invalid ''record payload length is inconsistent'')
     else if rd_timestamp decoder \<noteq> h_last_timestamp_ns header
     then Inl (invalid ''last timestamp does not match block header'')
     else
       and_then (apply_durations bytes parsed 0 words) (\<lambda>words1.
       Inr \<lparr>db_header = header, db_restarts = pb_restarts parsed, db_words = words1\<rparr>)))"

section \<open>Time windows\<close>

record decoded_word_range =
  dr_header :: word_block_header
  dr_words :: "decoded_word list"
  dr_complete :: bool
  dr_decoded_records :: nat

record range_state =
  rs_previous_predecessor :: "(nat \<times> decoded_word) option"
  rs_predecessor :: "(nat \<times> decoded_word) option"
  rs_selected :: "(nat \<times> decoded_word) list"
  rs_decoded_records :: nat
  rs_complete :: bool

text \<open>The words before the window move to an empty selection.\<close>

definition push_predecessors :: "nat \<Rightarrow> range_state \<Rightarrow> range_state" where
  "push_predecessors max_context_words s =
     (if rs_selected s \<noteq> [] then s
      else
        let selected1 = (case rs_previous_predecessor s of None \<Rightarrow> [] | Some p \<Rightarrow> [p]);
            selected2 = (case rs_predecessor s of
              None \<Rightarrow> selected1
            | Some p \<Rightarrow> if length selected1 < max_context_words then selected1 @ [p] else selected1)
        in s\<lparr>rs_selected := selected2, rs_previous_predecessor := None, rs_predecessor := None\<rparr>)"

fun decode_window ::
  "u8 list \<Rightarrow> parsed_word_block \<Rightarrow> u64 \<Rightarrow> u64 \<Rightarrow> nat \<Rightarrow> nat \<Rightarrow> nat \<Rightarrow> record_decoder \<Rightarrow> range_state \<Rightarrow>
   range_state codec_result" where
  "decode_window bytes parsed start_ns stop_ns max_context_words record_index 0 d s = Inr s"
| "decode_window bytes parsed start_ns stop_ns max_context_words record_index (Suc n) d s =
     and_then (decoder_next bytes parsed record_index d) (\<lambda>(word, d1).
     let s1 = s\<lparr>rs_decoded_records := rs_decoded_records s + 1\<rparr> in
     if w_timestamp_ns word < start_ns
     then decode_window bytes parsed start_ns stop_ns max_context_words (Suc record_index) n d1
       (s1\<lparr>rs_previous_predecessor := rs_predecessor s1, rs_predecessor := Some (record_index, word)\<rparr>)
     else
       let s2 = push_predecessors max_context_words s1 in
       if max_context_words \<le> length (rs_selected s2) then Inr (s2\<lparr>rs_complete := False\<rparr>)
       else
         let s3 = s2\<lparr>rs_selected := rs_selected s2 @ [(record_index, word)]\<rparr> in
         if stop_ns < w_timestamp_ns word then Inr s3
         else decode_window bytes parsed start_ns stop_ns max_context_words (Suc record_index) n d1 s3)"

definition decode_word_block_range :: "u8 list \<Rightarrow> u64 \<Rightarrow> u64 \<Rightarrow> nat \<Rightarrow> decoded_word_range codec_result" where
  "decode_word_block_range bytes start_ns stop_ns max_context_words =
     (if stop_ns < start_ns then Inl (invalid ''range start is after range end'')
      else if max_context_words = 0
      then Inl (InvalidConfiguration ''max_context_words must be greater than zero'')
      else
        and_then (parse_word_block bytes) (\<lambda>parsed.
        let restart_index = partition_point (\<lambda>restart. r_timestamp_ns restart < start_ns) (pb_restarts parsed) - 1;
            first = unat (r_record_index (pb_restarts parsed ! restart_index)) in
        and_then
          (decode_window bytes parsed start_ns stop_ns max_context_words first
             (unat (h_word_count (pb_header parsed)) - first) (record_decoder_new parsed restart_index True)
             \<lparr>rs_previous_predecessor = None, rs_predecessor = None, rs_selected = [],
              rs_decoded_records = 0, rs_complete = True\<rparr>)
          (\<lambda>s.
        let selected = rs_selected (push_predecessors max_context_words s);
            first_record_index = (case selected of [] \<Rightarrow> 0 | (index, _) # _ \<Rightarrow> index) in
        and_then (apply_durations bytes parsed first_record_index (map snd selected)) (\<lambda>words.
        Inr \<lparr>dr_header = pb_header parsed, dr_words = words, dr_complete = rs_complete s,
             dr_decoded_records = rs_decoded_records s\<rparr>))))"

end
