(* ===== verification/Word_Records.thy ===== *)
theory Word_Records
  imports Word_Decode
begin

text \<open>
  Records with their own timestamp deltas. The encoder's output is put in closed form, position by
  position, and the record decoder is shown to step over it word by word from every restart entry.
\<close>

section \<open>Values\<close>

lemma value_width_cases: "value_width m \<in> {1, 2, 4, 8}"
  by (simp add: value_width_def)

lemma value_width_fits:
  assumes "v \<le> m"
  shows "unat v < 2 ^ (8 * value_width m)"
proof -
  have "unat v \<le> unat m" using assms by (simp add: word_le_nat_alt)
  moreover have "unat m < 2 ^ 64" using unsigned_less [of m, where ?'a = nat] by simp
  ultimately show ?thesis by (auto simp: value_width_def word_le_nat_alt)
qed

lemma take_bit_self_unat: "unat v < 2 ^ n \<Longrightarrow> take_bit n v = v" for v :: u64
  by (simp add: word_unat_eq_iff unsigned_take_bit_eq take_bit_nat_eq_self)

lemma from_le_zeros: "from_le (bs @ replicate n 0) = from_le bs"
  by (rule bit_eqI) (auto simp: bit_from_le nth_append)

lemma read_value_at:
  assumes "drop cursor (take record_end bytes) = take width (to_le 8 v) @ post"
    and "unat v < 2 ^ (8 * width)" "width \<le> 8" "cursor \<le> record_end"
    and "record_end \<le> length bytes" "length bytes < usize_bound"
  shows "read_value bytes cursor record_end width = Inr (v, cursor + width)"
proof -
  have "length (drop cursor (take record_end bytes)) = width + length post" using assms(1,3) by simp
  then have e: "cursor + width \<le> record_end" using assms(4,5) by simp
  then have "slice bytes cursor width = take width (drop cursor (take record_end bytes))"
    by (simp add: slice_def drop_take min_def)
  also have "\<dots> = take width (to_le 8 v)" using assms(1,3) by simp
  finally have s: "slice bytes cursor width = take width (to_le 8 v)" .
  have "from_le (take width (to_le 8 v)) = v"
    using assms(2,3) by (intro from_le_to_le_take) (simp_all add: take_bit_self_unat)
  with e s assms(5,6) show ?thesis by (simp add: read_value_def usize_checked_add_def from_le_zeros)
qed

section \<open>Positions in a block\<close>

text \<open>A decoded record carries neither duration nor payload.\<close>

definition plain :: "decoded_word \<Rightarrow> decoded_word" where
  "plain word = word_new (w_value word) (w_timestamp_ns word)"

lemma plain_simps [simp]:
  "w_value (plain w) = w_value w" "w_timestamp_ns (plain w) = w_timestamp_ns w"
  "w_payload (plain w) = None" "w_duration_ns (plain w) = 0"
  by (simp_all add: plain_def word_new_def)

definition delta_at :: "decoded_word list \<Rightarrow> nat \<Rightarrow> u64" where
  "delta_at words i = (if i = 0 then 0 else w_timestamp_ns (words ! i) - w_timestamp_ns (words ! (i - 1)))"

definition record_at :: "nat \<Rightarrow> decoded_word list \<Rightarrow> nat \<Rightarrow> u8 list" where
  "record_at vb words i = encode_u64 (delta_at words i) @ take vb (to_le 8 (w_value (words ! i)))"

definition records_upto :: "nat \<Rightarrow> decoded_word list \<Rightarrow> nat \<Rightarrow> u8 list" where
  "records_upto vb words i = concat (map (record_at vb words) [0..<i])"

text \<open>The restart entries below position \<open>i\<close>, for records that start at the given offsets.\<close>

definition restart_at :: "decoded_word list \<Rightarrow> (nat \<Rightarrow> nat) \<Rightarrow> nat \<Rightarrow> restart_entry" where
  "restart_at words off i =
     \<lparr>r_timestamp_ns = w_timestamp_ns (words ! i), r_payload_offset = of_nat (off i), r_record_index = of_nat i\<rparr>"

definition restarts_upto :: "nat \<Rightarrow> decoded_word list \<Rightarrow> (nat \<Rightarrow> nat) \<Rightarrow> nat \<Rightarrow> restart_entry list" where
  "restarts_upto ri words off i = map (\<lambda>k. restart_at words off (k * ri)) [0..<div_ceil i ri]"

lemma records_upto_Suc: "records_upto vb words (Suc i) = records_upto vb words i @ record_at vb words i"
  by (simp add: records_upto_def)

lemma drop_records_upto:
  assumes "i < n"
  shows "\<exists>post. drop (length (records_upto vb words i)) (records_upto vb words n) = record_at vb words i @ post"
proof -
  have "[0..<n] = [0..<i] @ i # [Suc i..<n]" using assms upt_add_eq_append [of 0 i "n - i"] by (simp add: upt_conv_Cons)
  then show ?thesis by (simp add: records_upto_def)
qed

lemma div_ceil_Suc:
  assumes "0 < ri"
  shows "div_ceil (Suc i) ri = (if i mod ri = 0 then Suc (div_ceil i ri) else div_ceil i ri)"
    and "i mod ri = 0 \<Longrightarrow> div_ceil i ri * ri = i"
proof -
  have m: "div_ceil i ri = (if i mod ri = 0 then i div ri else Suc (i div ri))" for i
  proof -
    have "i div ri * ri + i mod ri = i" by simp
    then have "i + ri - 1 = i div ri * ri + (i mod ri + ri - 1)" using assms by linarith
    then have "div_ceil i ri = i div ri + (i mod ri + ri - 1) div ri"
      unfolding div_ceil_def using assms by (simp only: div_mult_self3)
    moreover have "(i mod ri + ri - 1) div ri = (if i mod ri = 0 then 0 else 1)"
    proof (cases "i mod ri = 0")
      case False
      have "(ri + x) div ri = 1" if "x < ri" for x
        using that by (intro div_nat_eqI) simp_all
      moreover have "i mod ri + ri - 1 = ri + (i mod ri - 1)" "i mod ri - 1 < ri"
        using False assms by (simp_all add: less_imp_diff_less)
      ultimately show ?thesis using False by (simp only: if_False)
    qed (use assms in simp)
    ultimately show ?thesis by simp
  qed
  show "i mod ri = 0 \<Longrightarrow> div_ceil i ri * ri = i" using m [of i] by auto
  show "div_ceil (Suc i) ri = (if i mod ri = 0 then Suc (div_ceil i ri) else div_ceil i ri)"
  proof (cases "Suc (i mod ri) = ri")
    case True
    then have "Suc i mod ri = 0" "Suc i div ri = Suc (i div ri)" by (simp_all add: mod_Suc div_Suc)
    with True m [of i] m [of "Suc i"] show ?thesis by (cases "ri = 1") auto
  next
    case False
    then have "Suc i mod ri \<noteq> 0" "Suc i div ri = i div ri" by (simp_all add: mod_Suc div_Suc)
    with m [of i] m [of "Suc i"] show ?thesis by simp
  qed
qed

lemma div_ceil_0 [simp]: "div_ceil 0 ri = 0"
  by (cases ri) (simp_all add: div_ceil_def)

lemma restarts_upto_Suc:
  "0 < ri \<Longrightarrow> restarts_upto ri words off (Suc i) =
     restarts_upto ri words off i @ (if i mod ri = 0 then [restart_at words off i] else [])"
  by (simp add: restarts_upto_def div_ceil_Suc)

lemma length_restarts_upto [simp]: "length (restarts_upto ri words off i) = div_ceil i ri"
  by (simp add: restarts_upto_def)

lemma restarts_upto_nth: "k < div_ceil i ri \<Longrightarrow> restarts_upto ri words off i ! k = restart_at words off (k * ri)"
  by (simp add: restarts_upto_def)

lemma restart_at_index: "i < 2 ^ 32 \<Longrightarrow> unat (r_record_index (restart_at words off i)) = i"
  by (simp add: restart_at_def unat_of_nat take_bit_nat_eq_self)

text \<open>At position \<open>i\<close> the next restart entry is due exactly when \<open>i\<close> is a multiple of the interval.\<close>

lemma at_restart_iff:
  assumes "0 < ri" "i < n" "n < 2 ^ 32"
  shows "div_ceil i ri < div_ceil n ri \<and>
      unat (r_record_index (restarts_upto ri words off n ! div_ceil i ri)) = i \<longleftrightarrow> i mod ri = 0"
proof
  assume z: "i mod ri = 0"
  note m = div_ceil_Suc(2) [OF assms(1) z]
  with assms have "div_ceil i ri < div_ceil n ri" by (simp add: less_div_ceil)
  with m assms show "div_ceil i ri < div_ceil n ri \<and>
      unat (r_record_index (restarts_upto ri words off n ! div_ceil i ri)) = i"
    by (simp add: restarts_upto_nth restart_at_def unat_of_nat take_bit_nat_eq_self)
next
  assume a: "div_ceil i ri < div_ceil n ri \<and>
      unat (r_record_index (restarts_upto ri words off n ! div_ceil i ri)) = i"
  then have "div_ceil i ri * ri < n" using assms(1) by (simp add: less_div_ceil)
  with a assms(3) have "div_ceil i ri * ri = i"
    using restart_at_index [of "div_ceil i ri * ri"] restarts_upto_nth [of "div_ceil i ri" n ri words off] by simp
  then show "i mod ri = 0" by (metis mod_mult_self2_is_0)
qed

section \<open>The encoder in closed form\<close>

text \<open>The exceptions below position \<open>i\<close>, and their bytes: index deltas and contents.\<close>

definition duration_entries :: "decoded_word list \<Rightarrow> nat \<Rightarrow> (nat \<times> u64) list" where
  "duration_entries words i = map (\<lambda>j. (j, w_duration_ns (words ! j))) (filter (\<lambda>j. w_duration_ns (words ! j) \<noteq> 0) [0..<i])"

definition payload_entries :: "decoded_word list \<Rightarrow> nat \<Rightarrow> (nat \<times> word_payload) list" where
  "payload_entries words i = map (\<lambda>j. (j, the (w_payload (words ! j)))) (filter (\<lambda>j. w_payload (words ! j) \<noteq> None) [0..<i])"

fun index_bytes :: "('a \<Rightarrow> u8 list) \<Rightarrow> nat \<Rightarrow> (nat \<times> 'a) list \<Rightarrow> u8 list" where
  "index_bytes f previous [] = []"
| "index_bytes f previous ((i, x) # es) = encode_u64 (of_nat (i - previous)) @ f x @ index_bytes f i es"

definition last_index :: "(nat \<times> 'a) list \<Rightarrow> nat" where
  "last_index es = (if es = [] then 0 else fst (last es))"

lemma index_bytes_snoc:
  "index_bytes f previous (es @ [(i, x)]) =
     index_bytes f previous es @ encode_u64 (of_nat (i - (if es = [] then previous else fst (last es)))) @ f x"
  by (induction f previous es rule: index_bytes.induct) auto

definition prefix_bytes :: "decoded_word list \<Rightarrow> u8 list" where
  "prefix_bytes words = (if 0 < count_payloads words then encode_u64 (of_nat (count_payloads words)) else [])"

definition state_at :: "nat \<Rightarrow> nat \<Rightarrow> decoded_word list \<Rightarrow> nat \<Rightarrow> encode_state" where
  "state_at ri vb words i =
     \<lparr>es_records = records_upto vb words i,
      es_durations = index_bytes encode_u64 0 (duration_entries words i),
      es_payloads = prefix_bytes words @ index_bytes payload_bytes 0 (payload_entries words i),
      es_restarts = restarts_upto ri words (\<lambda>j. length (records_upto vb words j)) i,
      es_previous_timestamp = w_timestamp_ns (words ! (i - 1)),
      es_previous_duration_index = last_index (duration_entries words i),
      es_duration_count = length (duration_entries words i),
      es_previous_payload_index = last_index (payload_entries words i),
      es_emitted_payload_count = length (payload_entries words i)\<rparr>"

lemma state_at_0: "words \<noteq> [] \<Longrightarrow> encode_start words = state_at ri vb words 0"
  by (simp add: encode_start_def state_at_def records_upto_def duration_entries_def payload_entries_def
      restarts_upto_def last_index_def prefix_bytes_def hd_conv_nth)

lemma state_at_Suc:
  assumes "0 < ri" "i < length words"
  shows "encode_payload i (words ! i) (encode_duration i (words ! i) (encode_record vb i (words ! i)
      ((state_at ri vb words i)\<lparr>es_restarts := restarts_upto ri words (\<lambda>j. length (records_upto vb words j)) (Suc i)\<rparr>))) =
    state_at ri vb words (Suc i)"
proof -
  have d: "duration_entries words (Suc i) = duration_entries words i @
      (if w_duration_ns (words ! i) = 0 then [] else [(i, w_duration_ns (words ! i))])"
    by (simp add: duration_entries_def)
  have p: "payload_entries words (Suc i) = payload_entries words i @
      (case w_payload (words ! i) of None \<Rightarrow> [] | Some x \<Rightarrow> [(i, x)])"
    by (auto simp: payload_entries_def split: option.splits)
  show ?thesis
    unfolding encode_record_def encode_duration_def encode_payload_def state_at_def append_value_def d p
    by (cases "w_payload (words ! i)"; cases "w_duration_ns (words ! i) = 0")
      (simp_all add: Let_def records_upto_Suc record_at_def delta_at_def index_bytes_snoc last_index_def)
qed

lemma encode_words_closed:
  assumes "0 < ri" "words \<noteq> []" "n = length words"
  shows "encode_words ri vb i (drop i words) (state_at ri vb words i) = Inr st \<Longrightarrow> i \<le> n \<Longrightarrow>
    st = state_at ri vb words n"
proof (induction "n - i" arbitrary: i)
  case 0
  with assms show ?case by simp
next
  case (Suc k)
  then have i: "i < length words" using assms by simp
  let ?st = "(state_at ri vb words i)\<lparr>es_restarts := restarts_upto ri words (\<lambda>j. length (records_upto vb words j)) (Suc i)\<rparr>"
  have "push_restart ri i (words ! i) (state_at ri vb words i) = Inr ?st \<or>
      (\<exists>e. push_restart ri i (words ! i) (state_at ri vb words i) = Inl e)"
    using assms(1) by (simp add: push_restart_def state_at_def restarts_upto_Suc restart_at_def)
  with Suc.prems i have "encode_words ri vb (Suc i) (drop (Suc i) words) (state_at ri vb words (Suc i)) = Inr st"
    unfolding Cons_nth_drop_Suc [OF i, symmetric] by (auto simp: state_at_Suc assms(1))
  with Suc.hyps(1) [of "Suc i"] Suc.hyps(2) i assms(3) show ?case by simp
qed

lemma encode_words_total:
  assumes "0 < ri" "words \<noteq> []" "n = length words" "length (records_upto vb words n) < 2 ^ 32"
  shows "i \<le> n \<Longrightarrow> encode_words ri vb i (drop i words) (state_at ri vb words i) = Inr (state_at ri vb words n)"
proof (induction "n - i" arbitrary: i)
  case 0
  with assms show ?case by simp
next
  case (Suc k)
  then have i: "i < length words" using assms by simp
  then obtain post where "drop (length (records_upto vb words i)) (records_upto vb words n) = record_at vb words i @ post"
    using drop_records_upto assms(3) by blast
  then have "length (records_upto vb words n) - length (records_upto vb words i) \<noteq> 0"
    by (metis append_is_Nil_conv encode_u64_ne length_0_conv length_drop record_at_def)
  then have "length (records_upto vb words i) < 2 ^ 32" using assms(4) by simp
  then have "push_restart ri i (words ! i) (state_at ri vb words i) =
      Inr ((state_at ri vb words i)\<lparr>es_restarts := restarts_upto ri words (\<lambda>j. length (records_upto vb words j)) (Suc i)\<rparr>)"
    using assms(1) by (simp add: push_restart_def state_at_def restarts_upto_Suc restart_at_def)
  with Suc i assms show ?case
    unfolding Cons_nth_drop_Suc [OF i, symmetric] by (simp add: state_at_Suc)
qed

text \<open>Dense byte words give the same records and restart entries.\<close>

lemma encode_u64_small: "v \<le> 0x7f \<Longrightarrow> encode_u64 v = [ucast v]"
proof -
  assume v: "v \<le> 0x7f"
  then have "unat v < 128" by (simp add: word_le_nat_alt)
  then have d: "drop_bit 7 v = 0" by (simp add: drop_7_eq_0)
  then have "v AND 0x7f = v" using push_7_split [of 0 v] by simp
  with d show ?thesis by (simp add: encode_u64.simps [of v])
qed

lemma record_at_dense:
  "delta_at words i \<le> 0x7f \<Longrightarrow> record_at 1 words i = [ucast (delta_at words i), ucast (w_value (words ! i))]"
  by (simp add: record_at_def encode_u64_small to_le_def upt_conv_Cons)

lemma length_records_dense:
  "(\<And>j. j < i \<Longrightarrow> delta_at words j \<le> 0x7f) \<Longrightarrow> length (records_upto 1 words i) = 2 * i"
  by (induction i) (simp_all add: records_upto_Suc record_at_dense [simplified], simp add: records_upto_def)

lemma encode_dense_closed:
  assumes "0 < ri" "n = length words" and small: "\<And>j. j < n \<Longrightarrow> delta_at words j \<le> 0x7f"
  shows "i \<le> n \<Longrightarrow> (0 < i \<Longrightarrow> previous = w_timestamp_ns (words ! (i - 1))) \<Longrightarrow>
    encode_dense_words ri i previous (drop i words)
      (records_upto 1 words i, restarts_upto ri words (\<lambda>j. length (records_upto 1 words j)) i) =
    (records_upto 1 words n, restarts_upto ri words (\<lambda>j. length (records_upto 1 words j)) n)"
proof (induction "n - i" arbitrary: i previous)
  case 0
  with assms show ?case by simp
next
  case (Suc k)
  then have i: "i < length words" using assms by simp
  let ?d = "if i = 0 then 0 else w_timestamp_ns (words ! i) - previous"
  have d: "?d = delta_at words i" using Suc.prems(2) by (simp add: delta_at_def)
  have off: "length (records_upto 1 words i) = 2 * i"
    using small i assms(2) by (intro length_records_dense) simp
  have "records_upto 1 words i @ [ucast ?d, ucast (w_value (words ! i))] = records_upto 1 words (Suc i)"
    using small [of i] i assms(2) unfolding d by (simp only: records_upto_Suc record_at_dense)
  moreover have "(if i mod ri = 0
      then restarts_upto ri words (\<lambda>j. length (records_upto 1 words j)) i @
        [\<lparr>r_timestamp_ns = w_timestamp_ns (words ! i), r_payload_offset = of_nat (i * 2), r_record_index = of_nat i\<rparr>]
      else restarts_upto ri words (\<lambda>j. length (records_upto 1 words j)) i) =
      restarts_upto ri words (\<lambda>j. length (records_upto 1 words j)) (Suc i)"
    using assms(1) off by (simp add: restarts_upto_Suc restart_at_def mult.commute)
  ultimately have "encode_dense_words ri i previous (drop i words)
      (records_upto 1 words i, restarts_upto ri words (\<lambda>j. length (records_upto 1 words j)) i) =
    encode_dense_words ri (Suc i) (w_timestamp_ns (words ! i)) (drop (Suc i) words)
      (records_upto 1 words (Suc i), restarts_upto ri words (\<lambda>j. length (records_upto 1 words j)) (Suc i))"
    unfolding Cons_nth_drop_Suc [OF i, symmetric] encode_dense_words.simps Let_def by (simp only:)
  with Suc.hyps(1) [of "Suc i" "w_timestamp_ns (words ! i)"] Suc.hyps(2) i assms(2) show ?case by simp
qed

section \<open>The decoder steps over the records\<close>

text \<open>
  From a position described by \<open>at\<close>, the decoder reads the word of that position and reaches the
  next one.
\<close>

definition record_stream ::
  "u8 list \<Rightarrow> parsed_word_block \<Rightarrow> decoded_word list \<Rightarrow> (nat \<Rightarrow> record_decoder \<Rightarrow> bool) \<Rightarrow> bool" where
  "record_stream bytes parsed words at \<longleftrightarrow>
     (\<forall>i d. i < length words \<longrightarrow> at i d \<longrightarrow>
        (\<exists>d'. decoder_next bytes parsed i d = Inr (plain (words ! i), d') \<and> at (Suc i) d'))"

definition holds_records :: "u8 list \<Rightarrow> parsed_word_block \<Rightarrow> u8 list \<Rightarrow> bool" where
  "holds_records bytes parsed records \<longleftrightarrow>
     length bytes < usize_bound \<and> length records < 2 ^ 32 \<and>
     pb_record_end parsed = BLOCK_HEADER_SIZE + length records \<and> pb_record_end parsed \<le> length bytes \<and>
     drop BLOCK_HEADER_SIZE (take (pb_record_end parsed) bytes) = records"

lemma holds_records_drop:
  "holds_records bytes parsed records \<Longrightarrow>
   drop (BLOCK_HEADER_SIZE + off) (take (pb_record_end parsed) bytes) = drop off records"
  unfolding holds_records_def by (metis add.commute drop_drop)

lemma decode_u64_record:
  assumes "holds_records bytes parsed records" "drop off records = encode_u64 v @ post"
  shows "decode_u64 (take (pb_record_end parsed) bytes) (BLOCK_HEADER_SIZE + off) =
    Inr (v, BLOCK_HEADER_SIZE + (off + encoded_len v))"
proof -
  have "off \<le> length records"
    using assms(2) by (metis append_is_Nil_conv drop_all encode_u64_ne linorder_le_cases)
  then have "BLOCK_HEADER_SIZE + off \<le> length (take (pb_record_end parsed) bytes)"
    using assms(1) by (simp add: holds_records_def)
  with assms holds_records_drop [OF assms(1), of off] show ?thesis
    using decode_u64_at [of "BLOCK_HEADER_SIZE + off" "take (pb_record_end parsed) bytes" v post]
    by (simp add: add.assoc)
qed

lemma read_value_record:
  assumes "holds_records bytes parsed records" "drop off records = take width (to_le 8 v) @ post"
    "unat v < 2 ^ (8 * width)" "width \<in> {1, 2, 4, 8}"
  shows "read_value bytes (BLOCK_HEADER_SIZE + off) (pb_record_end parsed) width =
    Inr (v, BLOCK_HEADER_SIZE + (off + width))"
proof -
  have "length (drop off records) = width + length post" using assms(2,4) by auto
  then have "off \<le> length records" using assms(4) by auto
  with assms holds_records_drop [OF assms(1), of off] show ?thesis
    using read_value_at [of "BLOCK_HEADER_SIZE + off" "pb_record_end parsed" bytes width v post]
    by (auto simp: holds_records_def add.assoc)
qed

definition well_ordered :: "decoded_word list \<Rightarrow> bool" where
  "well_ordered words \<longleftrightarrow> sorted_by w_timestamp_ns words"

lemma delta_at_add:
  assumes "well_ordered words" "0 < i" "i < length words"
  shows "checked_add (w_timestamp_ns (words ! (i - 1))) (delta_at words i) = Some (w_timestamp_ns (words ! i))"
proof -
  have "map w_timestamp_ns words ! (i - 1) \<le> map w_timestamp_ns words ! i"
    using assms unfolding well_ordered_def by (intro sorted_nth_mono) simp_all
  with assms show ?thesis by (simp add: delta_at_def checked_add_diff)
qed

definition at_legacy :: "nat \<Rightarrow> nat \<Rightarrow> decoded_word list \<Rightarrow> nat \<Rightarrow> record_decoder \<Rightarrow> bool" where
  "at_legacy ri vb words i d \<longleftrightarrow>
     rd_cursor d = BLOCK_HEADER_SIZE + length (records_upto vb words i) \<and>
     rd_next_restart_index d = div_ceil i ri \<and> rd_group_timestamps d = Raw \<and>
     (if i = 0 \<or> rd_skip_initial_legacy_delta d
      then i < length words \<longrightarrow> rd_timestamp d = w_timestamp_ns (words ! i)
      else rd_timestamp d = w_timestamp_ns (words ! (i - 1)))"

lemma legacy_stream:
  assumes rec: "holds_records bytes parsed (records_upto vb words (length words))"
    and n: "length words < 2 ^ 32" "0 < ri" "well_ordered words"
    and vb: "pb_value_bytes parsed = vb" "vb \<in> {1, 2, 4, 8}" "\<And>w. w \<in> set words \<Longrightarrow> unat (w_value w) < 2 ^ (8 * vb)"
    and flags: "h_flags (pb_header parsed) AND BLOCK_FLAG_GROUPED_TIMESTAMPS = 0"
    and restarts: "pb_restarts parsed = restarts_upto ri words (\<lambda>j. length (records_upto vb words j)) (length words)"
  shows "record_stream bytes parsed words (at_legacy ri vb words)"
  unfolding record_stream_def
proof (intro allI impI)
  fix i d assume i: "i < length words" and at: "at_legacy ri vb words i d"
  let ?off = "length (records_upto vb words i)"
  obtain post where post: "drop ?off (records_upto vb words (length words)) = record_at vb words i @ post"
    using drop_records_upto [OF i] by blast
  then have "drop (?off + encoded_len (delta_at words i)) (records_upto vb words (length words)) =
      take vb (to_le 8 (w_value (words ! i))) @ post"
    by (simp add: record_at_def length_encode_u64 drop_drop [symmetric] add.commute [of ?off])
  note val = read_value_record [OF rec this vb(3) vb(2)]
  have delta: "decode_u64 (take (pb_record_end parsed) bytes) (rd_cursor d) =
      Inr (delta_at words i, BLOCK_HEADER_SIZE + (?off + encoded_len (delta_at words i)))"
    using at post by (auto simp: at_legacy_def record_at_def intro: decode_u64_record [OF rec])
  let ?restart = "pb_restarts parsed ! rd_next_restart_index d"
  let ?d1 = "d\<lparr>rd_cursor := BLOCK_HEADER_SIZE + (?off + encoded_len (delta_at words i)),
      rd_timestamp := w_timestamp_ns (words ! i), rd_skip_initial_legacy_delta := False\<rparr>"
  have next_restart: "rd_next_restart_index d = div_ceil i ri" using at by (simp add: at_legacy_def)
  have restart: "i mod ri = 0 \<Longrightarrow> ?restart = restart_at words (\<lambda>j. length (records_upto vb words j)) i"
  proof -
    assume z: "i mod ri = 0"
    note m = div_ceil_Suc(2) [OF n(2) z]
    with i n(2) have "div_ceil i ri < div_ceil (length words) ri" by (simp add: less_div_ceil)
    with m show "?restart = restart_at words (\<lambda>j. length (records_upto vb words j)) i"
      by (simp add: restarts next_restart restarts_upto_nth)
  qed
  have step: "legacy_timestamp bytes parsed i (i mod ri = 0) d =
      Inr (?d1\<lparr>rd_next_restart_index := div_ceil (Suc i) ri\<rparr>)"
  proof -
    have "(if rd_skip_initial_legacy_delta d
        then (if i = 0 \<and> delta_at words i \<noteq> 0 then Inl (invalid ''first timestamp delta is not zero'')
              else Inr (d\<lparr>rd_cursor := BLOCK_HEADER_SIZE + (?off + encoded_len (delta_at words i)),
                          rd_skip_initial_legacy_delta := False\<rparr>))
        else if i = 0
        then (if delta_at words i \<noteq> 0 then Inl (invalid ''first timestamp delta is not zero'')
              else Inr (d\<lparr>rd_cursor := BLOCK_HEADER_SIZE + (?off + encoded_len (delta_at words i))\<rparr>))
        else add_delta (d\<lparr>rd_cursor := BLOCK_HEADER_SIZE + (?off + encoded_len (delta_at words i))\<rparr>) (delta_at words i)) =
      Inr ?d1"
      using at i delta_at_add [OF n(3) _ i]
      by (cases d; cases "i = 0") (auto simp: at_legacy_def add_delta_def delta_at_def)
    note inner = this
    have cur: "rd_cursor d - BLOCK_HEADER_SIZE = ?off" using at by (simp add: at_legacy_def)
    have same: "i mod ri \<noteq> 0 \<Longrightarrow> ?d1\<lparr>rd_next_restart_index := div_ceil i ri\<rparr> = ?d1"
      using next_restart by (cases d) simp
    show ?thesis
      unfolding legacy_timestamp_def delta and_then_simps prod.case Let_def inner div_ceil_Suc(1) [OF n(2)]
      using restart same next_restart by (cases "i mod ri = 0") (simp_all add: cur restart_at_def)
  qed
  have "decoder_next bytes parsed i d = Inr (plain (words ! i),
      ?d1\<lparr>rd_next_restart_index := div_ceil (Suc i) ri,
          rd_cursor := BLOCK_HEADER_SIZE + length (records_upto vb words (Suc i))\<rparr>)"
    using step val i vb(1) at_restart_iff [OF n(2) i n(1)] vb(2)
    by (auto simp: decoder_next_def Let_def flags next_restart restarts records_upto_Suc record_at_def
        length_encode_u64 plain_def)
  then show "\<exists>d'. decoder_next bytes parsed i d = Inr (plain (words ! i), d') \<and> at_legacy ri vb words (Suc i) d'"
    using at by (auto simp: at_legacy_def)
qed

lemma legacy_start:
  assumes "0 < ri" "k < div_ceil (length words) ri" "length (records_upto vb words (length words)) < 2 ^ 32"
    and restarts: "pb_restarts parsed = restarts_upto ri words (\<lambda>j. length (records_upto vb words j)) (length words)"
    and "skip \<or> k = 0"
  shows "at_legacy ri vb words (k * ri) (record_decoder_new parsed k skip)"
proof -
  have k: "k * ri < length words" using assms(1,2) by (simp add: less_div_ceil)
  then obtain post where "drop (length (records_upto vb words (k * ri))) (records_upto vb words (length words)) =
      record_at vb words (k * ri) @ post" using drop_records_upto by blast
  then have "length (records_upto vb words (length words)) - length (records_upto vb words (k * ri)) \<noteq> 0"
    by (metis append_is_Nil_conv encode_u64_ne length_0_conv length_drop record_at_def)
  then have "length (records_upto vb words (k * ri)) < 2 ^ 32" using assms(3) by simp
  moreover have "div_ceil (k * ri) ri = k" using div_ceil_Suc(2) [OF assms(1), of "k * ri"] assms(1) by simp
  ultimately show ?thesis
    using assms(2,5) k
    by (auto simp: at_legacy_def record_decoder_new_def restarts restarts_upto_nth restart_at_def Let_def
        unat_of_nat take_bit_nat_eq_self)
qed

end
