(* ===== verification/Word_Groups.thy ===== *)
theory Word_Groups
  imports Word_Records
begin

text \<open>
  Grouped timestamps: the packed palette indices read back what was written, every delta of a
  group is in its palette, and the record decoder steps over the groups word by word.
\<close>

section \<open>Packed indices\<close>

lemma palette_index_bits_bounds:
  assumes "2 \<le> n" "n \<le> 16"
  shows "1 \<le> palette_index_bits n" "palette_index_bits n \<le> 4" "n \<le> 2 ^ palette_index_bits n"
  using assms by (auto simp: palette_index_bits_def)

lemma length_write_packed_index [simp]: "length (write_packed_index bytes index bits v) = length bytes"
  by (simp add: write_packed_index_def Let_def)

lemma bit_small: "unat (v :: u8) < 2 ^ bits \<Longrightarrow> bit v n \<Longrightarrow> n < bits"
proof (rule ccontr)
  assume v: "unat v < 2 ^ bits" "bit v n" "\<not> n < bits"
  then have "bit (unat v) n" by (simp add: bit_unsigned_iff)
  moreover have "take_bit bits (unat v) = unat v" using v(1) by (rule take_bit_nat_eq_self)
  ultimately show False using v(3) by (metis bit_take_bit_iff)
qed

lemma write_packed_index_bit:
  assumes v: "unat v < 2 ^ bits" and bits: "bits \<le> 8" and fits: "Suc index * bits \<le> 8 * length bytes"
    and p: "p < 8 * length bytes"
  shows "bit (write_packed_index bytes index bits v ! (p div 8)) (p mod 8) \<longleftrightarrow>
    bit (bytes ! (p div 8)) (p mod 8) \<or> index * bits \<le> p \<and> bit v (p - index * bits)"
proof -
  define s where "s = index * bits mod 8"
  define b where "b = index * bits div 8"
  define q where "q = p div 8"
  define t where "t = p mod 8"
  have o: "index * bits = 8 * b + s" "s < 8" by (simp_all add: s_def b_def)
  have pq: "p = 8 * q + t" "t < 8" by (simp_all add: q_def t_def)
  have q: "q < length bytes" using p pq by simp
  let ?enc = "push_bit s (ucast v :: u16)"
  have enc: "bit ?enc n \<longleftrightarrow> n < 16 \<and> s \<le> n \<and> bit v (n - s)" for n
    using bit_imp_le_length [of v "n - s"] by (auto simp: bit_simps)
  have lo: "bit (ucast ?enc :: u8) t \<longleftrightarrow> s \<le> t \<and> bit v (t - s)"
    using pq(2) enc [of t] by (simp add: bit_unsigned_iff)
  have hi: "bit (ucast (drop_bit 8 ?enc) :: u8) t \<longleftrightarrow> bit v (8 + t - s)"
    using pq(2) o(2) enc [of "8 + t"] by (simp add: bit_unsigned_iff bit_drop_bit_eq)
  have wr: "write_packed_index bytes index bits v ! q =
      (if q = b then bytes ! q OR ucast ?enc
       else if q = Suc b \<and> 8 < s + bits then bytes ! q OR ucast (drop_bit 8 ?enc) else bytes ! q)"
    using q by (auto simp: write_packed_index_def Let_def s_def [symmetric] b_def [symmetric] nth_list_update)
  have small: "bit v n \<Longrightarrow> n < bits" for n by (rule bit_small [OF v])
  show ?thesis unfolding q_def [symmetric] t_def [symmetric]
  proof (cases q b rule: linorder_cases)
    case less
    then have "p < index * bits" using o pq by simp
    with less wr show "bit (write_packed_index bytes index bits v ! q) t =
        (bit (bytes ! q) t \<or> index * bits \<le> p \<and> bit v (p - index * bits))" by simp
  next
    case equal
    then have "index * bits \<le> p \<longleftrightarrow> s \<le> t" "p - index * bits = t - s" using o pq by simp_all
    with equal wr lo show "bit (write_packed_index bytes index bits v ! q) t =
        (bit (bytes ! q) t \<or> index * bits \<le> p \<and> bit v (p - index * bits))" by (simp add: bit_or_iff)
  next
    case greater
    then have le: "index * bits \<le> p" using o pq by simp
    show "bit (write_packed_index bytes index bits v ! q) t =
        (bit (bytes ! q) t \<or> index * bits \<le> p \<and> bit v (p - index * bits))"
    proof (cases "q = Suc b")
      case True
      then have "p - index * bits = 8 + t - s" using o pq by simp
      with True wr hi le small [of "8 + t - s"] o(2) show ?thesis by (auto simp: bit_or_iff)
    next
      case False
      with greater have "p - index * bits \<ge> 8" using o pq by simp
      with small [of "p - index * bits"] bits have "\<not> bit v (p - index * bits)" by auto
      with False greater wr show ?thesis by simp
    qed
  qed
qed

lemma fold_packed:
  fixes f :: "'a \<Rightarrow> u8"
  assumes "\<And>x. x \<in> set ds \<Longrightarrow> unat (f x) < 2 ^ bits" "bits \<le> 8"
    "m = length bytes0" "length ds * bits \<le> 8 * m" "\<And>b. b < m \<Longrightarrow> bytes0 ! b = 0"
  shows "length (fold (\<lambda>(i, x) bytes. write_packed_index bytes i bits (f x)) (enumerate 0 ds) bytes0) = m \<and>
    (\<forall>p < 8 * m. bit (fold (\<lambda>(i, x) bytes. write_packed_index bytes i bits (f x)) (enumerate 0 ds) bytes0 ! (p div 8)) (p mod 8)
       \<longleftrightarrow> (\<exists>j < length ds. j * bits \<le> p \<and> bit (f (ds ! j)) (p - j * bits)))"
  using assms(1,4)
proof (induction ds rule: rev_induct)
  case Nil
  have "bit (bytes0 ! (p div 8)) (p mod 8) = False" if "p < 8 * m" for p
    using that assms(5) [of "p div 8"] by simp
  with assms(3) show ?case by simp
next
  case (snoc x ds)
  let ?old = "fold (\<lambda>(i, x) bytes. write_packed_index bytes i bits (f x)) (enumerate 0 ds) bytes0"
  have fold: "fold (\<lambda>(i, x) bytes. write_packed_index bytes i bits (f x)) (enumerate 0 (ds @ [x])) bytes0 =
      write_packed_index ?old (length ds) bits (f x)"
    by (simp add: enumerate_append_eq)
  have "length ds * bits \<le> 8 * m" using snoc.prems(2) by simp
  with snoc have IH: "length ?old = m"
    "\<And>p. p < 8 * m \<Longrightarrow> bit (?old ! (p div 8)) (p mod 8) \<longleftrightarrow> (\<exists>j < length ds. j * bits \<le> p \<and> bit (f (ds ! j)) (p - j * bits))"
    by auto
  show ?case unfolding fold
  proof (intro conjI allI impI)
    fix p assume p: "p < 8 * m"
    have "bit (write_packed_index ?old (length ds) bits (f x) ! (p div 8)) (p mod 8) \<longleftrightarrow>
        bit (?old ! (p div 8)) (p mod 8) \<or> length ds * bits \<le> p \<and> bit (f x) (p - length ds * bits)"
      using snoc.prems assms(2) p by (intro write_packed_index_bit) (simp_all add: IH(1))
    then show "bit (write_packed_index ?old (length ds) bits (f x) ! (p div 8)) (p mod 8) \<longleftrightarrow>
        (\<exists>j < length (ds @ [x]). j * bits \<le> p \<and> bit (f ((ds @ [x]) ! j)) (p - j * bits))"
      using IH(2) [OF p] by (auto simp: less_Suc_eq nth_append)
  qed (simp add: IH(1))
qed

lemma read_packed_index_bit:
  assumes "drop po bytes = packed @ rest" "po \<le> length bytes" "bits \<le> 8"
    and fits: "Suc index * bits \<le> 8 * length packed"
  shows "bit (read_packed_index bytes po index bits) t \<longleftrightarrow>
    t < bits \<and> bit (packed ! ((index * bits + t) div 8)) ((index * bits + t) mod 8)"
proof (cases "t < bits")
  case True
  define s where "s = index * bits mod 8"
  define b where "b = index * bits div 8"
  have o: "index * bits = 8 * b + s" "s < 8" by (simp_all add: s_def b_def)
  have in_range: "8 * b + s + t < 8 * length packed" using fits True o by simp
  have nth: "bytes ! (po + i) = packed ! i" "po + i < length bytes" if "i < length packed" for i
  proof -
    have "drop po bytes ! i = packed ! i" using assms(1) that by (simp add: nth_append)
    then show "bytes ! (po + i) = packed ! i" using assms(2) by simp
    have "length (drop po bytes) = length packed + length rest" using assms(1) by simp
    with that show "po + i < length bytes" by simp
  qed
  let ?high = "(if po + b + 1 < length bytes then ucast (bytes ! (po + b + 1)) else 0) :: u16"
  have m: "(push_bit bits 1 - 1 :: u16) = mask bits" by (simp add: mask_eq_decr_exp)
  have "bit (read_packed_index bytes po index bits) t \<longleftrightarrow>
      bit ((ucast (bytes ! (po + b)) :: u16) OR push_bit 8 ?high) (s + t)"
    unfolding read_packed_index_def Let_def m s_def [symmetric] b_def [symmetric]
    using True assms(3) by (simp add: bit_unsigned_iff bit_and_iff bit_mask_iff bit_drop_bit_eq bit_or_iff possible_bit_def)
  also have "\<dots> \<longleftrightarrow> (if s + t < 8 then bit (bytes ! (po + b)) (s + t) else bit ?high (s + t - 8))"
    using True assms(3) o(2) bit_imp_le_length [of "bytes ! (po + b)" "s + t"]
    by (auto simp: bit_or_iff bit_push_bit_iff bit_unsigned_iff possible_bit_def)
  also have "\<dots> \<longleftrightarrow> bit (packed ! ((8 * b + s + t) div 8)) ((8 * b + s + t) mod 8)"
  proof (cases "s + t < 8")
    case True
    then have "(8 * b + s + t) div 8 = b" "(8 * b + s + t) mod 8 = s + t" by (simp_all add: add.assoc)
    with True in_range nth [of b] show ?thesis by simp
  next
    case False
    then obtain u where u: "s + t = 8 + u" by (metis add_diff_inverse_nat)
    with \<open>t < bits\<close> assms(3) o(2) have "u < 8" by simp
    then have d: "(8 * b + s + t) div 8 = Suc b" "(8 * b + s + t) mod 8 = u" using u by (simp_all add: add.assoc)
    have "Suc b < length packed" using in_range u by simp
    with nth [of "Suc b"] \<open>u < 8\<close> False u d show ?thesis by (simp add: bit_unsigned_iff)
  qed
  finally show ?thesis using True o by simp
next
  case False
  have m: "(push_bit bits 1 - 1 :: u16) = mask bits" by (simp add: mask_eq_decr_exp)
  from False show ?thesis
    unfolding read_packed_index_def Let_def m by (simp add: bit_unsigned_iff bit_and_iff bit_mask_iff)
qed

lemma position_less: "x \<in> set xs \<Longrightarrow> position x xs < length xs \<and> xs ! position x xs = x"
  unfolding position_def by (induction xs) auto

lemma packed_indices_read:
  assumes "drop po bytes = packed_indices palette deltas @ rest" "po \<le> length bytes"
    and len: "2 \<le> length palette" "length palette \<le> 16" and sub: "set deltas \<subseteq> set palette"
    and i: "i < length deltas"
  shows "unat (read_packed_index bytes po i (palette_index_bits (length palette))) = position (deltas ! i) palette"
proof -
  define bits where "bits = palette_index_bits (length palette)"
  define f :: "u64 \<Rightarrow> u8" where "f = (\<lambda>delta. of_nat (position delta palette))"
  define m where "m = div_ceil (length deltas * bits) 8"
  note bounds = palette_index_bits_bounds [OF len, folded bits_def]
  have pos: "position x palette < length palette" if "x \<in> set deltas" for x
    using that sub position_less [of x palette] by auto
  have f: "unat (f x) = position x palette" if "x \<in> set deltas" for x
    using pos [OF that] len by (simp add: f_def unat_of_nat take_bit_nat_eq_self)
  have small: "unat (f x) < 2 ^ bits" if "x \<in> set deltas" for x
    using f [OF that] pos [OF that] bounds(3) by simp
  have m: "length deltas * bits \<le> 8 * m"
    using div_ceil_mult_ge [of 8 "length deltas * bits"] by (simp add: m_def mult.commute)
  have packed: "packed_indices palette deltas =
      fold (\<lambda>(i, x) bytes. write_packed_index bytes i bits (f x)) (enumerate 0 deltas) (replicate m 0)"
    unfolding packed_indices_def Let_def bits_def f_def m_def by (rule refl)
  have all: "length (packed_indices palette deltas) = m \<and>
      (\<forall>p < 8 * m. bit (packed_indices palette deltas ! (p div 8)) (p mod 8)
         \<longleftrightarrow> (\<exists>j < length deltas. j * bits \<le> p \<and> bit (f (deltas ! j)) (p - j * bits)))"
    unfolding packed by (rule fold_packed) (use small bounds m in simp_all)
  have fits: "Suc i * bits \<le> 8 * m"
    using i m by (meson Suc_leI mult_le_mono1 order_trans)
  have "read_packed_index bytes po i bits = f (deltas ! i)"
  proof (rule bit_eqI)
    fix t
    have "bit (read_packed_index bytes po i bits) t \<longleftrightarrow> t < bits \<and>
        bit (packed_indices palette deltas ! ((i * bits + t) div 8)) ((i * bits + t) mod 8)"
      using assms(1,2) bounds fits all by (intro read_packed_index_bit [where rest = rest]) simp_all
    also have "\<dots> \<longleftrightarrow> t < bits \<and> (\<exists>j < length deltas. j * bits \<le> i * bits + t \<and> bit (f (deltas ! j)) (i * bits + t - j * bits))"
      using all fits by auto
    also have "\<dots> \<longleftrightarrow> bit (f (deltas ! i)) t"
    proof
      assume a: "t < bits \<and> (\<exists>j < length deltas. j * bits \<le> i * bits + t \<and> bit (f (deltas ! j)) (i * bits + t - j * bits))"
      then obtain j where j: "j < length deltas" "j * bits \<le> i * bits + t" "bit (f (deltas ! j)) (i * bits + t - j * bits)"
        by blast
      have "i * bits + t - j * bits < bits" using bit_small [OF small j(3)] j(1) by simp
      then have "(i * bits + t) div bits = j" using j(2) by (intro div_nat_eqI) (simp_all add: mult.commute)
      moreover have "(i * bits + t) div bits = i" using a bounds(1) by simp
      ultimately show "bit (f (deltas ! i)) t" using j(3) by simp
    next
      assume a: "bit (f (deltas ! i)) t"
      then have "t < bits" using bit_small [OF small a] i by simp
      with a i show "t < bits \<and> (\<exists>j < length deltas. j * bits \<le> i * bits + t \<and> bit (f (deltas ! j)) (i * bits + t - j * bits))"
        by (auto intro!: exI [of _ i])
    qed
    finally show "bit (read_packed_index bytes po i bits) t = bit (f (deltas ! i)) t" .
  qed
  then show ?thesis using f [of "deltas ! i"] i by (simp add: bits_def)
qed

section \<open>Palettes\<close>

lemma collect_palette_snoc: "collect_palette (ds @ [d]) = palette_add (collect_palette ds) d"
  by (simp add: collect_palette_def)

lemma collect_palette_spec:
  "set (fst (collect_palette ds)) \<subseteq> set ds \<and> length (fst (collect_palette ds)) \<le> 16 \<and>
   (if snd (collect_palette ds) then set ds \<subseteq> set (fst (collect_palette ds))
    else length (fst (collect_palette ds)) = 16)"
proof (induction ds rule: rev_induct)
  case Nil
  show ?case by (simp add: collect_palette_def)
next
  case (snoc d ds)
  then show ?case unfolding collect_palette_snoc
    by (cases "collect_palette ds") (auto simp: palette_add_def split: if_splits)
qed

definition byte_values :: "decoded_word list \<Rightarrow> u8 list" where
  "byte_values words = map (\<lambda>word. ucast (w_value word)) words"

lemma raw_len_bound: "sum_list (map encoded_len ds) \<le> 10 * length ds"
  using encoded_len_bounds by (induction ds) (simp_all, metis add_mono)

lemma length_group_deltas [simp]: "length (group_deltas g) = length g - 1"
  by (cases g) (simp_all add: group_deltas_def)

text \<open>The three layouts of a group.\<close>

lemma encode_group_cases:
  assumes "length g < 2 ^ 32"
  obtains (Constant) x where "set (group_deltas g) \<subseteq> {x}" "encode_group g = [1] @ encode_u64 x @ byte_values g"
  | (Palette) p where "2 \<le> length p" "length p \<le> 16" "set (group_deltas g) \<subseteq> set p"
      "encode_group g = [2, of_nat (length p)] @ concat (map encode_u64 p) @ packed_indices p (group_deltas g) @ byte_values g"
  | (Raw) "encode_group g = [0] @ [ucast (w_value (hd g))] @ raw_group (group_deltas g) (tl g)"
proof -
  obtain p a where p: "collect_palette (group_deltas g) = (p, a)" by fastforce
  let ?raw = "1 + length g + sum_list (map encoded_len (group_deltas g))"
  let ?bits = "palette_index_bits (length p)"
  let ?pal = "if a \<and> 1 < length p
      then 2 + sum_list (map encoded_len p) + div_ceil ((length g - 1) * ?bits) 8 + length g else usize_bound - 1"
  have spec: "length p \<le> 16" "if a then set (group_deltas g) \<subseteq> set p else length p = 16"
    using collect_palette_spec [of "group_deltas g"] p by auto
  have "?raw \<le> usize_bound - 1" using raw_len_bound [of "group_deltas g"] assms by simp
  then have avail: "a \<and> 1 < length p" if "?pal < ?raw" using that by (auto split: if_splits)
  have enc: "encode_group g =
      (if length p = 1 then [1] @ encode_u64 (p ! 0) @ byte_values g
       else if ?pal < ?raw
       then [2, of_nat (length p)] @ concat (map encode_u64 p) @ packed_indices p (group_deltas g) @ byte_values g
       else [0] @ [ucast (w_value (hd g))] @ raw_group (group_deltas g) (tl g))"
    unfolding encode_group_def Let_def p byte_values_def by simp
  consider "length p = 1" | "length p \<noteq> 1" "?pal < ?raw" | "length p \<noteq> 1" "\<not> ?pal < ?raw" by blast
  then show thesis
  proof cases
    case 1
    then have "set p \<subseteq> {p ! 0}" by (auto simp: length_Suc_conv)
    moreover have "a" using spec(2) 1 by (auto split: if_splits)
    ultimately show ?thesis using Constant [of "p ! 0"] spec(2) 1 enc by auto
  next
    case 2
    then show ?thesis using Palette [of p] spec avail enc by auto
  next
    case 3
    then show ?thesis using Raw enc by simp
  qed
qed

lemma encode_group_ne [simp]: "encode_group g \<noteq> []"
  by (simp add: encode_group_def Let_def split: prod.splits)

section \<open>Chunks\<close>

lemma chunks_Nil [simp]: "chunks n [] = []"
  by (simp add: chunks.simps)

lemma chunks_nth:
  assumes "0 < n"
  shows "length (chunks n xs) = div_ceil (length xs) n \<and>
    (\<forall>k < length (chunks n xs). chunks n xs ! k = take n (drop (k * n) xs))"
  using assms
proof (induction n xs rule: chunks.induct)
  case (1 n xs)
  show ?case
  proof (cases "xs = []")
    case True
    then show ?thesis by simp
  next
    case False
    with 1 have IH: "length (chunks n (drop n xs)) = div_ceil (length xs - n) n"
      "\<And>k. k < div_ceil (length xs - n) n \<Longrightarrow> chunks n (drop n xs) ! k = take n (drop (k * n) (drop n xs))"
      by simp_all
    have c: "chunks n xs = take n xs # chunks n (drop n xs)"
      using False 1(2) by (subst chunks.simps) simp
    have "div_ceil (length xs) n = Suc (div_ceil (length xs - n) n)"
    proof (cases "n \<le> length xs")
      case True
      then have "length xs + n - 1 = n + (length xs - n + n - 1)" using 1(2) by simp
      then show ?thesis unfolding div_ceil_def using 1(2) by (simp only: div_add_self1)
    next
      case small: False
      with False 1(2) have "(length xs + n - 1) div n = 1" by (intro div_nat_eqI) (cases xs; simp)+
      with small show ?thesis by (simp add: div_ceil_def)
    qed
    with c IH show ?thesis by (auto simp: nth_Cons' add.commute mult.commute gr0_conv_Suc split: if_splits)
  qed
qed

section \<open>Inside a group\<close>

text \<open>
  The decoder has read \<open>j\<close> words of the group; after the rest of the group the records go on with
  \<open>post\<close>.
\<close>

definition in_group :: "u8 list \<Rightarrow> decoded_word list \<Rightarrow> nat \<Rightarrow> u8 list \<Rightarrow> record_decoder \<Rightarrow> bool" where
  "in_group records g j post d \<longleftrightarrow>
     (\<exists>off \<le> length records. rd_cursor d = BLOCK_HEADER_SIZE + off \<and>
        ((\<exists>x. rd_group_timestamps d = Constant x \<and> set (group_deltas g) \<subseteq> {x} \<and>
            drop off records = byte_values (drop j g) @ post) \<or>
         (rd_group_timestamps d = Raw \<and>
            drop off records = raw_group (drop (j - 1) (group_deltas g)) (drop j g) @ post) \<or>
         (\<exists>p po rest. rd_group_timestamps d =
              Palette (p @ replicate (16 - length p) 0) (length p) (palette_index_bits (length p))
                (BLOCK_HEADER_SIZE + po) (length g - 1) (j - 1) \<and>
            2 \<le> length p \<and> length p \<le> 16 \<and> set (group_deltas g) \<subseteq> set p \<and> po \<le> length records \<and>
            drop po records = packed_indices p (group_deltas g) @ rest \<and>
            drop off records = byte_values (drop j g) @ post)))"

lemma in_group_end:
  assumes "in_group records g (length g) post d" "g \<noteq> []"
  shows "is_complete (rd_group_timestamps d) \<and>
    rd_cursor d = BLOCK_HEADER_SIZE + (length records - length post)"
proof -
  from assms(1) obtain off where off: "off \<le> length records" "rd_cursor d = BLOCK_HEADER_SIZE + off"
    "drop off records = post"
    unfolding in_group_def by (auto simp: byte_values_def)
  have "off = length records - length post" using off(1) off(3) [symmetric] by simp
  with assms off show ?thesis by (auto simp: in_group_def)
qed

lemma byte_value_read:
  assumes "holds_records bytes parsed records" "drop off records = ucast (w_value w) # post" "w_value w \<le> 0xff"
    "off \<le> length records"
  shows "read_value bytes (BLOCK_HEADER_SIZE + off) (pb_record_end parsed) 1 = Inr (w_value w, BLOCK_HEADER_SIZE + Suc off)"
    "drop (Suc off) records = post" "Suc off \<le> length records"
proof -
  have "take 1 (to_le 8 (w_value w)) = [ucast (w_value w)]" by (simp add: to_le_def upt_conv_Cons)
  moreover have "unat (w_value w) < 2 ^ (8 * 1)" using assms(3) by (simp add: word_le_nat_alt)
  ultimately show "read_value bytes (BLOCK_HEADER_SIZE + off) (pb_record_end parsed) 1 = Inr (w_value w, BLOCK_HEADER_SIZE + Suc off)"
    using read_value_record [OF assms(1), of off 1 "w_value w" post] assms(2) by simp
  show "drop (Suc off) records = post" using assms(2) by (metis drop_Suc list.sel(3) tl_drop)
  show "Suc off \<le> length records" using assms(2,4) by (metis drop_all leI list.distinct(1) not_less_eq_eq)
qed

lemma byte_values_drop: "j < length g \<Longrightarrow> byte_values (drop j g) = ucast (w_value (g ! j)) # byte_values (drop (Suc j) g)"
  unfolding byte_values_def by (simp add: Cons_nth_drop_Suc [symmetric])

lemma group_deltas_nth:
  "Suc j < length g \<Longrightarrow> group_deltas g ! j = w_timestamp_ns (g ! Suc j) - w_timestamp_ns (g ! j)"
  by (simp add: group_deltas_def nth_tl)

text \<open>A record inside a group: its delta and its value.\<close>

definition group_step :: "u8 list \<Rightarrow> parsed_word_block \<Rightarrow> u8 list \<Rightarrow> decoded_word list \<Rightarrow> nat \<Rightarrow> u8 list \<Rightarrow>
  record_decoder codec_result \<Rightarrow> bool" where
  "group_step bytes parsed records g j post r \<longleftrightarrow>
     (\<exists>d1 cursor. r = Inr d1 \<and> rd_timestamp d1 = w_timestamp_ns (g ! j) \<and>
        read_value bytes (rd_cursor d1) (pb_record_end parsed) 1 = Inr (w_value (g ! j), cursor) \<and>
        in_group records g (Suc j) post (d1\<lparr>rd_cursor := cursor\<rparr>))"

lemma group_stepI:
  "r = Inr d1 \<Longrightarrow> rd_timestamp d1 = w_timestamp_ns (g ! j) \<Longrightarrow>
   read_value bytes (rd_cursor d1) (pb_record_end parsed) 1 = Inr (w_value (g ! j), cursor) \<Longrightarrow>
   in_group records g (Suc j) post (d1\<lparr>rd_cursor := cursor\<rparr>) \<Longrightarrow> group_step bytes parsed records g j post r"
  unfolding group_step_def by blast

lemma add_group_delta:
  assumes "0 < j" "j < length g" "rd_timestamp d = w_timestamp_ns (g ! (j - 1))"
    "w_timestamp_ns (g ! (j - 1)) \<le> w_timestamp_ns (g ! j)"
  shows "add_delta d (group_deltas g ! (j - 1)) = Inr (d\<lparr>rd_timestamp := w_timestamp_ns (g ! j)\<rparr>)"
    and "group_deltas g ! (j - 1) \<in> set (group_deltas g)"
proof -
  have "group_deltas g ! (j - 1) = w_timestamp_ns (g ! j) - w_timestamp_ns (g ! (j - 1))"
    using group_deltas_nth [of "j - 1" g] assms(1,2) by simp
  with assms(4) have "checked_add (w_timestamp_ns (g ! (j - 1))) (group_deltas g ! (j - 1)) = Some (w_timestamp_ns (g ! j))"
    by (simp only: checked_add_diff)
  then show "add_delta d (group_deltas g ! (j - 1)) = Inr (d\<lparr>rd_timestamp := w_timestamp_ns (g ! j)\<rparr>)"
    unfolding add_delta_def assms(3) by simp
  show "group_deltas g ! (j - 1) \<in> set (group_deltas g)" using assms(1,2) by (intro nth_mem) simp
qed

lemma byte_values_read:
  assumes "holds_records bytes parsed records" "drop off records = byte_values (drop j g) @ post"
    "j < length g" "w_value (g ! j) \<le> 0xff" "off \<le> length records"
  shows "read_value bytes (BLOCK_HEADER_SIZE + off) (pb_record_end parsed) 1 = Inr (w_value (g ! j), BLOCK_HEADER_SIZE + Suc off)"
    "drop (Suc off) records = byte_values (drop (Suc j) g) @ post" "Suc off \<le> length records"
  using byte_value_read [OF assms(1) _ assms(4,5), of "byte_values (drop (Suc j) g) @ post"] assms(2,3)
  by (simp_all add: byte_values_drop)

lemma continue_constant:
  assumes "holds_records bytes parsed records" "j < length g" "w_value (g ! j) \<le> 0xff"
    and "rd_cursor d = BLOCK_HEADER_SIZE + off" "off \<le> length records"
    and "rd_group_timestamps d = Constant x" "set (group_deltas g) \<subseteq> {x}"
    and "drop off records = byte_values (drop j g) @ post"
    and add: "add_delta d (group_deltas g ! (j - 1)) = Inr (d\<lparr>rd_timestamp := w_timestamp_ns (g ! j)\<rparr>)"
      "group_deltas g ! (j - 1) \<in> set (group_deltas g)"
  shows "group_step bytes parsed records g j post (continue_group bytes parsed d)"
proof (rule group_stepI)
  note val = byte_values_read [OF assms(1,8,2,3,5)]
  show "continue_group bytes parsed d = Inr (d\<lparr>rd_timestamp := w_timestamp_ns (g ! j)\<rparr>)"
    using add assms(6,7) by (auto simp: continue_group_def)
  show "read_value bytes (rd_cursor (d\<lparr>rd_timestamp := w_timestamp_ns (g ! j)\<rparr>)) (pb_record_end parsed) 1 =
      Inr (w_value (g ! j), BLOCK_HEADER_SIZE + Suc off)"
    using val(1) assms(4) by simp
  show "in_group records g (Suc j) post
      (d\<lparr>rd_timestamp := w_timestamp_ns (g ! j), rd_cursor := BLOCK_HEADER_SIZE + Suc off\<rparr>)"
    unfolding in_group_def using assms val(2,3) by (intro exI [of _ "Suc off"]) simp
qed simp

lemma continue_raw:
  assumes rec: "holds_records bytes parsed records" and j: "0 < j" "j < length g" and v: "w_value (g ! j) \<le> 0xff"
    and d: "rd_cursor d = BLOCK_HEADER_SIZE + off" "rd_group_timestamps d = Raw"
    and bytes: "drop off records = raw_group (drop (j - 1) (group_deltas g)) (drop j g) @ post"
    and add: "\<And>c. add_delta (d\<lparr>rd_cursor := c\<rparr>) (group_deltas g ! (j - 1)) =
      Inr (d\<lparr>rd_cursor := c, rd_timestamp := w_timestamp_ns (g ! j)\<rparr>)"
  shows "group_step bytes parsed records g j post (continue_group bytes parsed d)"
proof (rule group_stepI)
  let ?x = "group_deltas g ! (j - 1)" and ?rest = "raw_group (drop j (group_deltas g)) (drop (Suc j) g)"
  let ?off = "off + encoded_len ?x"
  let ?d1 = "d\<lparr>rd_cursor := BLOCK_HEADER_SIZE + ?off, rd_timestamp := w_timestamp_ns (g ! j)\<rparr>"
  have raw: "raw_group (drop (j - 1) (group_deltas g)) (drop j g) =
      encode_u64 ?x @ [ucast (w_value (g ! j))] @ ?rest"
    using j Cons_nth_drop_Suc [of "j - 1" "group_deltas g"] Cons_nth_drop_Suc [of j g]
    by (metis One_nat_def Suc_pred' length_group_deltas raw_group.simps(1) less_diff_conv add.commute plus_1_eq_Suc)
  have drop: "drop ?off records = ucast (w_value (g ! j)) # ?rest @ post"
    using bytes raw by (simp add: add.commute [of off] drop_drop [symmetric] length_encode_u64 [symmetric])
  then have le: "?off \<le> length records" by (metis drop_all linorder_le_cases list.distinct(1))
  note val = byte_value_read [OF rec drop v le]
  show "continue_group bytes parsed d = Inr ?d1"
    using decode_u64_record [OF rec, of off ?x "[ucast (w_value (g ! j))] @ ?rest @ post"] bytes raw d add
    by (simp add: continue_group_def)
  show "read_value bytes (rd_cursor ?d1) (pb_record_end parsed) 1 = Inr (w_value (g ! j), BLOCK_HEADER_SIZE + Suc ?off)"
    using val(1) by simp
  show "in_group records g (Suc j) post (?d1\<lparr>rd_cursor := BLOCK_HEADER_SIZE + Suc ?off\<rparr>)"
    unfolding in_group_def using d val(2,3) by (intro exI [of _ "Suc ?off"]) simp
qed simp

lemma drop_packed:
  assumes rec: "holds_records bytes parsed records" and "po \<le> length records" "drop po records = packed @ rest"
  shows "drop (BLOCK_HEADER_SIZE + po) bytes = packed @ rest @ drop (pb_record_end parsed) bytes"
proof -
  have "drop (BLOCK_HEADER_SIZE + po) (take (pb_record_end parsed) bytes @ drop (pb_record_end parsed) bytes) =
      drop po records @ drop (pb_record_end parsed) bytes"
    using holds_records_drop [OF rec, of po] rec assms(2)
    by (simp only: drop_append) (simp add: holds_records_def)
  then show ?thesis using assms(3) by simp
qed

lemma continue_palette:
  assumes rec: "holds_records bytes parsed records" and j: "0 < j" "j < length g" and v: "w_value (g ! j) \<le> 0xff"
    and d: "rd_cursor d = BLOCK_HEADER_SIZE + off" "off \<le> length records"
      "rd_group_timestamps d = Palette (p @ replicate (16 - length p) 0) (length p) (palette_index_bits (length p))
         (BLOCK_HEADER_SIZE + po) (length g - 1) (j - 1)"
    and p: "2 \<le> length p" "length p \<le> 16" "set (group_deltas g) \<subseteq> set p" "po \<le> length records"
      "drop po records = packed_indices p (group_deltas g) @ rest"
    and bytes: "drop off records = byte_values (drop j g) @ post"
    and add: "\<And>t. add_delta (d\<lparr>rd_group_timestamps := t\<rparr>) (group_deltas g ! (j - 1)) =
      Inr (d\<lparr>rd_group_timestamps := t, rd_timestamp := w_timestamp_ns (g ! j)\<rparr>)"
      "group_deltas g ! (j - 1) \<in> set (group_deltas g)"
  shows "group_step bytes parsed records g j post (continue_group bytes parsed d)"
proof (rule group_stepI)
  let ?x = "group_deltas g ! (j - 1)"
  let ?d1 = "d\<lparr>rd_group_timestamps := Palette (p @ replicate (16 - length p) 0) (length p)
      (palette_index_bits (length p)) (BLOCK_HEADER_SIZE + po) (length g - 1) (Suc (j - 1)),
      rd_timestamp := w_timestamp_ns (g ! j)\<rparr>"
  note val = byte_values_read [OF rec bytes j(2) v d(2)]
  have "unat (read_packed_index bytes (BLOCK_HEADER_SIZE + po) (j - 1) (palette_index_bits (length p))) = position ?x p"
    using drop_packed [OF rec p(4,5)]
    by (rule packed_indices_read) (use rec p j in \<open>auto simp: holds_records_def\<close>)
  moreover have "position ?x p < length p" "p ! position ?x p = ?x"
    using position_less [of ?x p] add(2) p(3) by auto
  ultimately show "continue_group bytes parsed d = Inr ?d1"
    using d(3) p(2) j add(1) by (simp add: continue_group_def Let_def nth_append)
  show "read_value bytes (rd_cursor ?d1) (pb_record_end parsed) 1 = Inr (w_value (g ! j), BLOCK_HEADER_SIZE + Suc off)"
    using val(1) d(1) by simp
  show "in_group records g (Suc j) post (?d1\<lparr>rd_cursor := BLOCK_HEADER_SIZE + Suc off\<rparr>)"
    unfolding in_group_def using p j(1) val(2,3) by (intro exI [of _ "Suc off"]) auto
qed simp

lemma continue_group_step:
  assumes rec: "holds_records bytes parsed records" and at: "in_group records g j post d"
    and j: "0 < j" "j < length g" and v: "w_value (g ! j) \<le> 0xff"
    and ts: "rd_timestamp d = w_timestamp_ns (g ! (j - 1))" "w_timestamp_ns (g ! (j - 1)) \<le> w_timestamp_ns (g ! j)"
  shows "group_step bytes parsed records g j post (continue_group bytes parsed d)"
proof -
  have add: "add_delta d' (group_deltas g ! (j - 1)) = Inr (d'\<lparr>rd_timestamp := w_timestamp_ns (g ! j)\<rparr>)"
    if "rd_timestamp d' = rd_timestamp d" for d'
    using that ts add_group_delta(1) [OF j, of d'] by simp
  note mem = add_group_delta(2) [OF j ts]
  from at show ?thesis unfolding in_group_def
  proof (elim exE conjE disjE)
    fix off x
    assume "off \<le> length records" "rd_cursor d = BLOCK_HEADER_SIZE + off" "rd_group_timestamps d = Constant x"
      "set (group_deltas g) \<subseteq> {x}" "drop off records = byte_values (drop j g) @ post"
    then show ?thesis using rec j(2) v add mem by (intro continue_constant) simp_all
  next
    fix off
    assume "rd_cursor d = BLOCK_HEADER_SIZE + off" "rd_group_timestamps d = Raw"
      "drop off records = raw_group (drop (j - 1) (group_deltas g)) (drop j g) @ post"
    then show ?thesis by (intro continue_raw [OF rec j v]) (simp_all add: add [simplified])
  next
    fix off p po rest
    assume "off \<le> length records" "rd_cursor d = BLOCK_HEADER_SIZE + off"
      "rd_group_timestamps d = Palette (p @ replicate (16 - length p) 0) (length p) (palette_index_bits (length p))
        (BLOCK_HEADER_SIZE + po) (length g - 1) (j - 1)"
      "2 \<le> length p" "length p \<le> 16" "set (group_deltas g) \<subseteq> set p" "po \<le> length records"
      "drop po records = packed_indices p (group_deltas g) @ rest" "drop off records = byte_values (drop j g) @ post"
    then show ?thesis by (intro continue_palette [OF rec j v]) (simp_all add: add [simplified] mem [simplified])
  qed
qed

lemma continue_group_next_restart:
  "continue_group bytes parsed d = Inr d1 \<Longrightarrow> rd_next_restart_index d1 = rd_next_restart_index d"
  by (auto simp: continue_group_def add_delta_def Let_def elim!: and_then_InrE
      split: group_timestamp_decoder.splits option.splits if_splits)

section \<open>At the start of a group\<close>

lemma get_byte_record:
  assumes "holds_records bytes parsed records" "drop off records = b # rest" "off \<le> length records"
  shows "get_byte bytes (BLOCK_HEADER_SIZE + off) = Inr b" "Suc off \<le> length records" "drop (Suc off) records = rest"
proof -
  have "drop (BLOCK_HEADER_SIZE + off) bytes = b # rest @ drop (pb_record_end parsed) bytes"
    using drop_packed [OF assms(1,3), of "[b]" rest] assms(2) by simp
  then show "get_byte bytes (BLOCK_HEADER_SIZE + off) = Inr b"
    unfolding get_byte_def
    by (metis drop_all leI list.distinct(1) nth_via_drop)
  show "Suc off \<le> length records" using assms(2,3) by (metis drop_all leI list.distinct(1) not_less_eq_eq)
  show "drop (Suc off) records = rest" using assms(2) by (metis drop_Suc list.sel(3) tl_drop)
qed

lemma decode_deltas_record:
  assumes rec: "holds_records bytes parsed records"
  shows "drop off records = concat (map encode_u64 p) @ post \<Longrightarrow>
    decode_deltas (take (pb_record_end parsed) bytes) (BLOCK_HEADER_SIZE + off) (length p) =
      Inr (p, BLOCK_HEADER_SIZE + (off + length (concat (map encode_u64 p))))"
proof (induction p arbitrary: off)
  case (Cons x p)
  have "drop (off + encoded_len x) records = concat (map encode_u64 p) @ post"
    using Cons.prems by (simp add: add.commute [of off] drop_drop [symmetric] length_encode_u64 [symmetric])
  with Cons decode_u64_record [OF rec, of off x] show ?case by (simp add: length_encode_u64 add.assoc)
qed simp

lemma length_packed_indices:
  "length (packed_indices p ds) = div_ceil (length ds * palette_index_bits (length p)) 8"
proof -
  have "length (fold (\<lambda>(i, x) bytes. write_packed_index bytes i bits (f x)) es bytes0) = length bytes0"
    for f :: "u64 \<Rightarrow> u8" and es bits bytes0
    by (induction es arbitrary: bytes0) auto
  then show ?thesis unfolding packed_indices_def Let_def by simp
qed

lemma drop_append_length: "drop off xs = ys @ zs \<Longrightarrow> drop (off + length ys) xs = zs"
  by (simp add: add.commute [of off] drop_drop [symmetric])

lemma drop_nonempty_le: "drop off xs = y # ys \<Longrightarrow> off \<le> length xs"
  by (metis drop_all linorder_le_cases list.distinct(1))

lemma start_value:
  assumes rec: "holds_records bytes parsed records" and g: "g \<noteq> []" "w_value (g ! 0) \<le> 0xff"
    and "drop off records = byte_values g @ post"
  shows "read_value bytes (BLOCK_HEADER_SIZE + off) (pb_record_end parsed) 1 = Inr (w_value (g ! 0), BLOCK_HEADER_SIZE + Suc off)"
    "drop (Suc off) records = byte_values (drop 1 g) @ post" "off < length records"
proof -
  have "byte_values g = ucast (w_value (g ! 0)) # byte_values (drop 1 g)"
    using byte_values_drop [of 0 g] g by simp
  with assms(4) have "off \<le> length records" by (intro drop_nonempty_le) simp
  with byte_values_read [OF rec, of off 0 g post] g assms(4)
  show "read_value bytes (BLOCK_HEADER_SIZE + off) (pb_record_end parsed) 1 = Inr (w_value (g ! 0), BLOCK_HEADER_SIZE + Suc off)"
    "drop (Suc off) records = byte_values (drop 1 g) @ post" "off < length records"
    by simp_all
qed

lemma start_palette:
  assumes rec: "holds_records bytes parsed records" and g: "g \<noteq> []"
    and p: "2 \<le> length p" "length p \<le> 16"
    and group_end: "(if k + 1 < length (pb_restarts parsed)
          then unat (r_record_index (pb_restarts parsed ! (k + 1)))
          else unat (h_word_count (pb_header parsed))) = i + length g"
    and bytes: "drop off records = of_nat (length p) # concat (map encode_u64 p) @ packed_indices p (group_deltas g) @ post"
    and po: "po = Suc off + length (concat (map encode_u64 p))"
  shows "decode_timestamp_palette bytes parsed k i (BLOCK_HEADER_SIZE + off) =
      Inr (Palette (p @ replicate (16 - length p) 0) (length p) (palette_index_bits (length p))
        (BLOCK_HEADER_SIZE + po) (length g - 1) 0, BLOCK_HEADER_SIZE + (po + length (packed_indices p (group_deltas g))))"
    "drop po records = packed_indices p (group_deltas g) @ post"
    "po + length (packed_indices p (group_deltas g)) \<le> length records"
proof -
  note byte = get_byte_record [OF rec bytes drop_nonempty_le [OF bytes]]
  have len: "unat (of_nat (length p) :: u8) = length p" using p(2) by (simp add: unat_of_nat take_bit_nat_eq_self)
  note deltas = decode_deltas_record [OF rec byte(3), folded po]
  show drop: "drop po records = packed_indices p (group_deltas g) @ post"
    using drop_append_length [OF byte(3)] po by simp
  have "po \<le> length records"
  proof -
    have "length (drop (Suc off) records) = length (concat (map encode_u64 p)) + length (packed_indices p (group_deltas g)) + length post"
      unfolding byte(3) by simp
    with byte(2) show ?thesis by (simp add: po)
  qed
  moreover have "length (drop po records) = length (packed_indices p (group_deltas g)) + length post" unfolding drop by simp
  ultimately show fits: "po + length (packed_indices p (group_deltas g)) \<le> length records" by simp
  have count: "i + length g - (i + 1) = length (group_deltas g)" "\<not> i + length g < i + 1" using g by (cases g; simp)+
  have fits': "BLOCK_HEADER_SIZE + (po + length (packed_indices p (group_deltas g))) \<le> pb_record_end parsed"
    "pb_record_end parsed < usize_bound"
    using fits rec by (simp_all add: holds_records_def)
  then have "usize_checked_add (BLOCK_HEADER_SIZE + po) (div_ceil (length (group_deltas g) * palette_index_bits (length p)) 8) =
      Some (BLOCK_HEADER_SIZE + (po + length (packed_indices p (group_deltas g))))"
    by (simp add: usize_checked_add_def length_packed_indices)
  with p fits'(1) show "decode_timestamp_palette bytes parsed k i (BLOCK_HEADER_SIZE + off) =
      Inr (Palette (p @ replicate (16 - length p) 0) (length p) (palette_index_bits (length p))
        (BLOCK_HEADER_SIZE + po) (length g - 1) 0, BLOCK_HEADER_SIZE + (po + length (packed_indices p (group_deltas g))))"
    unfolding decode_timestamp_palette_def byte(1) and_then_simps Let_def len group_end count(1)
    using deltas count(2) by simp
qed

lemma start_group_step:
  assumes rec: "holds_records bytes parsed records"
    and g: "g \<noteq> []" "length g < 2 ^ 32" "w_value (g ! 0) \<le> 0xff"
    and d: "rd_cursor d = BLOCK_HEADER_SIZE + off" "is_complete (rd_group_timestamps d)"
    and restart: "pb_restarts parsed ! rd_next_restart_index d = restart"
      "r_payload_offset restart = of_nat off" "r_timestamp_ns restart = w_timestamp_ns (g ! 0)"
    and group_end: "(if rd_next_restart_index d + 1 < length (pb_restarts parsed)
          then unat (r_record_index (pb_restarts parsed ! (rd_next_restart_index d + 1)))
          else unat (h_word_count (pb_header parsed))) = i + length g"
    and bytes: "drop off records = encode_group g @ post"
  shows "group_step bytes parsed records g 0 post (start_group bytes parsed i d)"
    "start_group bytes parsed i d = Inr d1 \<Longrightarrow> rd_next_restart_index d1 = rd_next_restart_index d + 1"
proof -
  let ?next = "\<lambda>gts c. d\<lparr>rd_cursor := c, rd_timestamp := w_timestamp_ns (g ! 0), rd_group_timestamps := gts,
      rd_next_restart_index := rd_next_restart_index d + 1\<rparr>"
  have off: "off \<le> length records"
    using bytes by (metis append_is_Nil_conv drop_all encode_group_ne linorder_le_cases)
  show "start_group bytes parsed i d = Inr d1 \<Longrightarrow> rd_next_restart_index d1 = rd_next_restart_index d + 1"
    by (auto simp: start_group_def Let_def elim!: and_then_InrE split: if_splits prod.splits)
  from g(2) show "group_step bytes parsed records g 0 post (start_group bytes parsed i d)"
  proof (cases g rule: encode_group_cases)
    case (Constant x)
    then have b: "drop off records = 1 # encode_u64 x @ byte_values g @ post" using bytes by simp
    note byte = get_byte_record [OF rec b off]
    note val = start_value [OF rec g(1,3) drop_append_length [OF byte(3)], unfolded length_encode_u64]
    have "start_group bytes parsed i d = Inr (?next (Constant x) (BLOCK_HEADER_SIZE + (Suc off + encoded_len x)))"
      unfolding start_group_def using d restart byte(1) decode_u64_record [OF rec byte(3)] by (simp add: Let_def)
    then show ?thesis
      by (rule group_stepI) (use val Constant(1) in
          \<open>auto simp: in_group_def intro!: exI [of _ "Suc (Suc off + encoded_len x)"]\<close>)
  next
    case (Palette p)
    define po where "po = Suc (Suc off) + length (concat (map encode_u64 p))"
    have b: "drop off records = 2 # of_nat (length p) # concat (map encode_u64 p) @
        packed_indices p (group_deltas g) @ byte_values g @ post" using Palette(4) bytes by simp
    note byte = get_byte_record [OF rec b off]
    note pal = start_palette [OF rec g(1) Palette(1,2) group_end byte(3), OF po_def]
    note val = start_value [OF rec g(1,3) drop_append_length [OF pal(2)]]
    have "start_group bytes parsed i d = Inr (?next (Palette (p @ replicate (16 - length p) 0) (length p)
        (palette_index_bits (length p)) (BLOCK_HEADER_SIZE + po) (length g - 1) 0)
        (BLOCK_HEADER_SIZE + (po + length (packed_indices p (group_deltas g)))))"
      unfolding start_group_def using d restart byte(1) pal(1) by (simp add: Let_def)
    then show ?thesis
      by (rule group_stepI) (use val Palette(1-3) pal(2,3) in
          \<open>auto simp: in_group_def intro!: exI [of _ "Suc (po + length (packed_indices p (group_deltas g)))"]\<close>)
  next
    case Raw
    then have b: "drop off records = 0 # ucast (w_value (g ! 0)) # raw_group (group_deltas g) (tl g) @ post"
      using bytes g(1) by (simp add: hd_conv_nth)
    note byte = get_byte_record [OF rec b off]
    note val = byte_value_read [OF rec byte(3) g(3) byte(2)]
    have "start_group bytes parsed i d = Inr (?next Raw (BLOCK_HEADER_SIZE + Suc off))"
      unfolding start_group_def using d restart byte(1) by (simp add: Let_def)
    then show ?thesis
      by (rule group_stepI) (use val in \<open>auto simp: in_group_def drop_Suc intro!: exI [of _ "Suc (Suc off)"]\<close>)
  qed
qed

section \<open>The grouped encoder in closed form\<close>

definition group_offset :: "nat \<Rightarrow> decoded_word list \<Rightarrow> nat \<Rightarrow> nat" where
  "group_offset ri words k = length (concat (map encode_group (take k (chunks ri words))))"

lemma encode_groups_closed:
  assumes ri: "0 < ri"
    and "encode_groups ri k (drop k (chunks ri words))
      (concat (map encode_group (take k (chunks ri words))),
       map (\<lambda>k. restart_at words (\<lambda>i. group_offset ri words (i div ri)) (k * ri)) [0..<k]) = Some (records, restarts)"
    and "k \<le> length (chunks ri words)"
  shows "records = concat (map encode_group (chunks ri words)) \<and>
    restarts = restarts_upto ri words (\<lambda>i. group_offset ri words (i div ri)) (length words)"
  using assms(2,3)
proof (induction "length (chunks ri words) - k" arbitrary: k)
  case 0
  with ri show ?case by (simp add: restarts_upto_def chunks_nth)
next
  case (Suc m)
  then have k: "k < length (chunks ri words)" by simp
  note nth = chunks_nth [OF ri, of words]
  have "k * ri < length words" using k nth ri by (simp add: less_div_ceil)
  then have hd: "w_timestamp_ns (hd (chunks ri words ! k)) = w_timestamp_ns (words ! (k * ri))"
    using k nth ri by (simp add: hd_take hd_drop_conv_nth)
  have "encode_groups ri (Suc k) (drop (Suc k) (chunks ri words))
      (concat (map encode_group (take (Suc k) (chunks ri words))),
       map (\<lambda>k. restart_at words (\<lambda>i. group_offset ri words (i div ri)) (k * ri)) [0..<Suc k]) = Some (records, restarts)"
    using Suc.prems(1) k ri unfolding Cons_nth_drop_Suc [OF k, symmetric]
    by (simp add: take_Suc_conv_app_nth restart_at_def group_offset_def hd split: if_splits)
  with Suc.hyps(1) [of "Suc k"] Suc.hyps(2) k show ?case by simp
qed

section \<open>The decoder steps over the groups\<close>

abbreviation grouped_records :: "nat \<Rightarrow> decoded_word list \<Rightarrow> u8 list" where
  "grouped_records ri words \<equiv> concat (map encode_group (chunks ri words))"

abbreviation later_groups :: "nat \<Rightarrow> decoded_word list \<Rightarrow> nat \<Rightarrow> u8 list" where
  "later_groups ri words k \<equiv> concat (map encode_group (drop (Suc k) (chunks ri words)))"

definition at_grouped :: "nat \<Rightarrow> decoded_word list \<Rightarrow> nat \<Rightarrow> record_decoder \<Rightarrow> bool" where
  "at_grouped ri words i d \<longleftrightarrow>
     (if i mod ri = 0 \<or> i = length words
      then rd_cursor d = BLOCK_HEADER_SIZE + group_offset ri words (div_ceil i ri) \<and>
        rd_next_restart_index d = div_ceil i ri \<and> is_complete (rd_group_timestamps d)
      else rd_next_restart_index d = Suc (i div ri) \<and> rd_timestamp d = w_timestamp_ns (words ! (i - 1)) \<and>
        in_group (grouped_records ri words) (chunks ri words ! (i div ri)) (i mod ri) (later_groups ri words (i div ri)) d)"

lemma grouped_records_split:
  assumes "k < length (chunks ri words)"
  shows "drop (group_offset ri words k) (grouped_records ri words) = encode_group (chunks ri words ! k) @ later_groups ri words k"
    "length (grouped_records ri words) - length (later_groups ri words k) = group_offset ri words (Suc k)"
proof -
  have "chunks ri words = take k (chunks ri words) @ chunks ri words ! k # drop (Suc k) (chunks ri words)"
    using assms by (rule id_take_nth_drop)
  then have "grouped_records ri words = concat (map encode_group (take k (chunks ri words))) @
      encode_group (chunks ri words ! k) @ later_groups ri words k"
    by (metis append.assoc concat.simps(2) concat_append list.simps(9) map_append)
  with assms show "drop (group_offset ri words k) (grouped_records ri words) = encode_group (chunks ri words ! k) @ later_groups ri words k"
    "length (grouped_records ri words) - length (later_groups ri words k) = group_offset ri words (Suc k)"
    by (simp_all add: group_offset_def take_Suc_conv_app_nth)
qed

lemma chunk_facts:
  assumes "0 < ri" "i < length words"
  shows "i div ri < length (chunks ri words)"
    "length (chunks ri words ! (i div ri)) = min ri (length words - i div ri * ri)"
    "i mod ri < length (chunks ri words ! (i div ri))"
    "x < length (chunks ri words ! (i div ri)) \<Longrightarrow> chunks ri words ! (i div ri) ! x = words ! (i div ri * ri + x)"
    "Suc i mod ri = 0 \<or> Suc i = length words \<longleftrightarrow> Suc (i mod ri) = length (chunks ri words ! (i div ri))"
proof -
  note nth = chunks_nth [OF assms(1), of words]
  have i: "i div ri * ri + i mod ri = i" "i mod ri < ri" using assms(1) by simp_all
  then have "i div ri * ri < length words" using assms(2) by linarith
  then show k: "i div ri < length (chunks ri words)" using nth assms(1) by (simp add: less_div_ceil)
  with nth show len: "length (chunks ri words ! (i div ri)) = min ri (length words - i div ri * ri)"
    by (simp add: min.commute)
  have "i mod ri < length words - i div ri * ri" using i assms(2) by linarith
  with i(2) show "i mod ri < length (chunks ri words ! (i div ri))" by (simp add: len)
  show "x < length (chunks ri words ! (i div ri)) \<Longrightarrow> chunks ri words ! (i div ri) ! x = words ! (i div ri * ri + x)"
    using nth k \<open>i div ri * ri < length words\<close> by simp
  have "Suc i mod ri = 0 \<longleftrightarrow> Suc (i mod ri) = ri" using assms(1) by (simp add: mod_Suc)
  moreover have "Suc i = length words \<longleftrightarrow> Suc (i mod ri) = length words - i div ri * ri"
    using i assms(2) by linarith
  moreover have "Suc (i mod ri) \<le> ri" "Suc (i mod ri) \<le> length words - i div ri * ri"
    using i assms(2) by linarith+
  ultimately show "Suc i mod ri = 0 \<or> Suc i = length words \<longleftrightarrow> Suc (i mod ri) = length (chunks ri words ! (i div ri))"
    unfolding len by (auto simp: min_def)
qed

lemma at_grouped_Suc:
  assumes ri: "0 < ri" and i: "i < length words"
    and "in_group (grouped_records ri words) (chunks ri words ! (i div ri)) (Suc (i mod ri)) (later_groups ri words (i div ri)) d"
    and "rd_timestamp d = w_timestamp_ns (words ! i)" "rd_next_restart_index d = Suc (i div ri)"
  shows "at_grouped ri words (Suc i) d"
proof (cases "Suc i mod ri = 0 \<or> Suc i = length words")
  case True
  note f = chunk_facts [OF ri i]
  have "chunks ri words ! (i div ri) \<noteq> []" using f(3) by auto
  then have "is_complete (rd_group_timestamps d)" "rd_cursor d = BLOCK_HEADER_SIZE + group_offset ri words (Suc (i div ri))"
    using in_group_end assms(3) f(5) True grouped_records_split(2) [OF f(1)] by (metis, metis)
  moreover have "div_ceil (Suc i) ri = Suc (i div ri)"
    unfolding div_ceil_def using ri div_add_self2 [of ri i] by simp
  ultimately show ?thesis using True assms(5) by (simp add: at_grouped_def)
next
  case False
  then have "Suc i mod ri = Suc (i mod ri)" "Suc i div ri = i div ri" by (simp_all add: mod_Suc div_Suc split: if_splits)
  with False assms show ?thesis by (simp add: at_grouped_def)
qed

text \<open>A group ends where the next restart entry or the end of the block says.\<close>

lemma group_end_index:
  assumes "0 < ri" "length words < 2 ^ 32" "i < length words" "i mod ri = 0"
  shows "(if Suc (i div ri) < div_ceil (length words) ri
      then unat (r_record_index (restarts_upto ri words off (length words) ! Suc (i div ri)))
      else length words) = i + min ri (length words - i)"
proof -
  have i: "i div ri * ri = i" using assms(4) by auto
  show ?thesis
  proof (cases "Suc (i div ri) < div_ceil (length words) ri")
    case True
    then have lt: "Suc (i div ri) * ri < length words" using assms(1) by (simp only: less_div_ceil)
    with restart_at_index [of "Suc (i div ri) * ri" words off] assms(2) i True show ?thesis
      by (simp add: restarts_upto_nth)
  next
    case False
    then have "length words \<le> Suc (i div ri) * ri" using assms(1) by (simp only: less_div_ceil not_less)
    with i assms(3) False show ?thesis by simp
  qed
qed

lemma div_ceil_not_multiple:
  assumes "0 < ri" "i mod ri \<noteq> 0"
  shows "div_ceil i ri = Suc (i div ri)"
proof -
  obtain i' where i': "i = Suc i'" using assms(2) by (cases i) auto
  then have "div_ceil i ri = Suc (i' div ri)"
    unfolding div_ceil_def using assms(1) div_add_self2 [of ri i'] by simp
  moreover have "i div ri = i' div ri" using assms i' by (simp add: div_Suc mod_Suc split: if_splits)
  ultimately show ?thesis by simp
qed

lemma grouped_stream:
  assumes rec: "holds_records bytes parsed (grouped_records ri words)"
    and n: "length words < 2 ^ 32" "0 < ri" "well_ordered words"
    and vb: "pb_value_bytes parsed = 1" "\<And>w. w \<in> set words \<Longrightarrow> w_value w \<le> 0xff"
    and head: "h_flags (pb_header parsed) AND BLOCK_FLAG_GROUPED_TIMESTAMPS \<noteq> 0"
      "unat (h_word_count (pb_header parsed)) = length words"
    and restarts: "pb_restarts parsed = restarts_upto ri words (\<lambda>i. group_offset ri words (i div ri)) (length words)"
  shows "record_stream bytes parsed words (at_grouped ri words)"
  unfolding record_stream_def
proof (intro allI impI)
  fix i d assume i: "i < length words" and at: "at_grouped ri words i d"
  define k where "k = i div ri"
  define g where "g = chunks ri words ! k"
  let ?records = "grouped_records ri words" and ?post = "later_groups ri words k"
  note f = chunk_facts [OF n(2) i, folded k_def, folded g_def]
  have gj: "g ! (i mod ri) = words ! i" using f(3,4) by (simp add: k_def)
  have g: "g \<noteq> []" "length g < 2 ^ 32" using f(2,3) n(1) by auto
  have "\<exists>r. group_step bytes parsed ?records g (i mod ri) ?post r \<and>
      (\<forall>d1. r = Inr d1 \<longrightarrow> rd_next_restart_index d1 = Suc k \<and>
         decoder_next bytes parsed i d =
           and_then (read_value bytes (rd_cursor d1) (pb_record_end parsed) 1)
             (\<lambda>(v, cursor). Inr (word_new v (rd_timestamp d1), d1\<lparr>rd_cursor := cursor\<rparr>)))"
  proof (cases "i mod ri = 0")
    case True
    then have ki: "div_ceil i ri = k" "k * ri = i"
      using div_ceil_Suc(2) [OF n(2) True] n(2) unfolding k_def by (metis nonzero_mult_div_cancel_right not_less_zero, auto)
    with at True have d: "rd_cursor d = BLOCK_HEADER_SIZE + group_offset ri words k" "rd_next_restart_index d = k"
      "is_complete (rd_group_timestamps d)" by (simp_all add: at_grouped_def)
    have "k < div_ceil (length words) ri" using ki(2) i n(2) by (simp add: less_div_ceil)
    then have restart: "pb_restarts parsed ! rd_next_restart_index d = restart_at words (\<lambda>i. group_offset ri words (i div ri)) i"
      using ki(2) by (simp add: restarts d(2) restarts_upto_nth)
    have group_end: "(if rd_next_restart_index d + 1 < length (pb_restarts parsed)
          then unat (r_record_index (pb_restarts parsed ! (rd_next_restart_index d + 1)))
          else unat (h_word_count (pb_header parsed))) = i + length g"
      using group_end_index [OF n(2,1) i True, of "\<lambda>i. group_offset ri words (i div ri)"] ki(2)
      unfolding restarts d(2) f(2) head(2) k_def by (simp only: length_restarts_upto Suc_eq_plus1)
    note step = start_group_step [OF rec g _ d(1,3) restart _ _ group_end grouped_records_split(1) [OF f(1), folded g_def]]
    have "group_step bytes parsed ?records g 0 ?post (start_group bytes parsed i d)"
      using step(1) vb(2) [of "words ! i"] i gj True by (simp add: restart_at_def k_def)
    moreover have "rd_next_restart_index d1 = Suc k" if "start_group bytes parsed i d = Inr d1" for d1
      using step(2) [OF _ _ _ that] vb(2) [of "words ! i"] i gj True d(2) by (simp add: restart_at_def k_def)
    ultimately show ?thesis
      using True at_restart_iff [OF n(2) i n(1)] ki(1)
      by (intro exI [of _ "start_group bytes parsed i d"])
        (simp add: decoder_next_def Let_def head(1) restarts d(2) vb(1))
  next
    case False
    then have d: "rd_next_restart_index d = Suc k" "rd_timestamp d = w_timestamp_ns (words ! (i - 1))"
      "in_group ?records g (i mod ri) ?post d"
      using at i by (simp_all add: at_grouped_def k_def g_def)
    have prev: "g ! (i mod ri - 1) = words ! (i - 1)"
      using f(4) [of "i mod ri - 1"] f(3) False by (simp add: k_def)
    have "w_timestamp_ns (words ! (i - 1)) \<le> w_timestamp_ns (words ! i)"
      using sorted_nth_mono [of "map w_timestamp_ns words" "i - 1" i] n(3) i by (simp add: well_ordered_def)
    then have "group_step bytes parsed ?records g (i mod ri) ?post (continue_group bytes parsed d)"
      using d False f(3) vb(2) [of "words ! i"] i
      by (intro continue_group_step [OF rec]) (simp_all add: gj prev [simplified])
    moreover have "div_ceil i ri = Suc k" using False n(2) by (simp add: div_ceil_not_multiple k_def)
    ultimately show ?thesis
      using False at_restart_iff [OF n(2) i n(1)] d(1) continue_group_next_restart
      by (intro exI [of _ "continue_group bytes parsed d"])
        (auto simp: decoder_next_def Let_def head(1) restarts vb(1))
  qed
  then obtain d1 cursor where step: "rd_timestamp d1 = w_timestamp_ns (words ! i)" "rd_next_restart_index d1 = Suc k"
    "in_group ?records g (Suc (i mod ri)) ?post (d1\<lparr>rd_cursor := cursor\<rparr>)"
    "decoder_next bytes parsed i d = Inr (plain (words ! i), d1\<lparr>rd_cursor := cursor\<rparr>)"
    unfolding group_step_def gj by (auto simp: plain_def)
  then have "at_grouped ri words (Suc i) (d1\<lparr>rd_cursor := cursor\<rparr>)"
    using n(2) i by (intro at_grouped_Suc) (simp_all add: k_def g_def)
  with step(4) show "\<exists>d'. decoder_next bytes parsed i d = Inr (plain (words ! i), d') \<and> at_grouped ri words (Suc i) d'"
    by blast
qed


lemma grouped_start:
  assumes "0 < ri" "k < div_ceil (length words) ri" "length (grouped_records ri words) < 2 ^ 32"
    and restarts: "pb_restarts parsed = restarts_upto ri words (\<lambda>i. group_offset ri words (i div ri)) (length words)"
  shows "at_grouped ri words (k * ri) (record_decoder_new parsed k skip)"
proof -
  have k: "k < length (chunks ri words)" using assms(2) chunks_nth [OF assms(1), of words] by simp
  have "group_offset ri words k \<le> length (grouped_records ri words)"
    using grouped_records_split(1) [OF k]
    by (metis append_is_Nil_conv drop_all encode_group_ne linorder_le_cases)
  then have "unat (of_nat (group_offset ri words k) :: u32) = group_offset ri words k"
    using assms(3) by (simp add: unat_of_nat take_bit_nat_eq_self)
  moreover have "div_ceil (k * ri) ri = k" using div_ceil_Suc(2) [OF assms(1), of "k * ri"] assms(1) by simp
  ultimately show ?thesis
    using assms(1,2)
    by (simp add: at_grouped_def record_decoder_new_def Let_def restarts restarts_upto_nth restart_at_def)
qed

end
