(* ===== verification/Word_Blocks.thy ===== *)
theory Word_Blocks
  imports Word_Groups
begin

text \<open>
  Whole blocks: decoding an encoded block gives back its words, its header and its restart entries,
  and decoding a time window gives back the words around it.
\<close>

section \<open>Streams of records\<close>

lemma decoder_next_timestamp:
  "decoder_next bytes parsed i d = Inr (w, d') \<Longrightarrow> rd_timestamp d' = w_timestamp_ns w"
  by (auto simp: decoder_next_def Let_def word_new_def elim!: and_then_InrE split: prod.splits)

lemma decode_records_stream:
  assumes stream: "record_stream bytes parsed words at"
  shows "at i d \<Longrightarrow> i + n = length words \<Longrightarrow>
    \<exists>d'. decode_records bytes parsed i n d = Inr (map plain (drop i words), d') \<and> at (length words) d' \<and>
      (0 < n \<longrightarrow> rd_timestamp d' = w_timestamp_ns (last words))"
proof (induction n arbitrary: i d)
  case (Suc n)
  then have i: "i < length words" by simp
  with stream Suc.prems(1) obtain d1 where d1: "decoder_next bytes parsed i d = Inr (plain (words ! i), d1)" "at (Suc i) d1"
    unfolding record_stream_def by blast
  from Suc.IH [OF d1(2)] Suc.prems(2) obtain d' where d':
    "decode_records bytes parsed (Suc i) n d1 = Inr (map plain (drop (Suc i) words), d')" "at (length words) d'"
    "0 < n \<longrightarrow> rd_timestamp d' = w_timestamp_ns (last words)" by auto
  have "rd_timestamp d' = w_timestamp_ns (last words)"
  proof (cases "n = 0")
    case True
    then have "length words - 1 = i" "words \<noteq> []" "d' = d1" using Suc.prems(2) d'(1) by auto
    then have "words ! i = last words" "d' = d1" by (simp_all add: last_conv_nth)
    with decoder_next_timestamp [OF d1(1)] show ?thesis by simp
  qed (use d'(3) in simp)
  with d1(1) d'(1,2) i show ?case by (simp add: Cons_nth_drop_Suc [symmetric])
qed simp

section \<open>Durations and payloads\<close>

text \<open>The entries come in increasing order of their record index.\<close>

definition entries_ok :: "bool \<Rightarrow> nat \<Rightarrow> nat \<Rightarrow> (nat \<times> 'a) list \<Rightarrow> bool" where
  "entries_ok first previous word_count es \<longleftrightarrow>
     sorted_wrt (<) (map fst es) \<and> (\<forall>i \<in> fst ` set es. i < word_count) \<and>
     (if first then previous = 0 else \<forall>i \<in> fst ` set es. previous < i)"

lemma entries_ok_Cons:
  assumes "entries_ok first previous word_count ((i, x) # es)"
  shows "entries_ok False i word_count es" "i < word_count" "first \<Longrightarrow> previous = 0" "\<not> first \<Longrightarrow> previous < i"
  using assms by (auto simp: entries_ok_def split: if_splits)

lemma unat_index: "n < usize_bound \<Longrightarrow> unat (of_nat n :: u64) = n"
  by (simp add: unat_of_nat take_bit_nat_eq_self)

lemma entry_index:
  assumes "entries_ok first previous word_count ((i, x) # es)" "word_count < usize_bound"
  shows "exception_index first previous (of_nat (i - previous)) e1 e2 = Inr i"
proof -
  note ok = entries_ok_Cons [OF assms(1)]
  define x where "x = (of_nat (i - previous) :: u64)"
  have u: "unat x = i - previous" using ok(2) assms(2) unfolding x_def by (intro unat_index) simp
  then have "x = 0 \<longleftrightarrow> i - previous = 0" by (metis unat_eq_0)
  then show ?thesis
    using ok(2-4) assms(2) unfolding x_def [symmetric]
    by (cases first) (simp_all add: u usize_checked_add_def exception_index_def)
qed

definition apply_entries :: "('a \<Rightarrow> decoded_word \<Rightarrow> decoded_word) \<Rightarrow> nat \<Rightarrow> (nat \<times> 'a) list \<Rightarrow> decoded_word list \<Rightarrow> decoded_word list" where
  "apply_entries h base es words = fold (\<lambda>(i, x). update_local base i (h x)) es words"

lemma decode_durations_entries:
  assumes "word_count < usize_bound"
  shows "drop cursor bytes = index_bytes encode_u64 previous es @ post \<Longrightarrow> cursor \<le> length bytes \<Longrightarrow>
    entries_ok first previous word_count es \<Longrightarrow> (\<forall>(i, d) \<in> set es. d \<noteq> 0) \<Longrightarrow>
    decode_durations bytes word_count base (length es) first previous cursor words =
      Inr (cursor + length (index_bytes encode_u64 previous es),
           apply_entries (\<lambda>d w. w\<lparr>w_duration_ns := d\<rparr>) base es words)"
proof (induction es arbitrary: cursor previous first words)
  case (Cons e es)
  obtain i d where e: "e = (i, d)" by (cases e)
  let ?c1 = "cursor + encoded_len (of_nat (i - previous))"
  let ?c2 = "?c1 + encoded_len d"
  note ok = entries_ok_Cons [OF Cons.prems(3) [unfolded e]]
  have c1: "drop ?c1 bytes = encode_u64 d @ index_bytes encode_u64 i es @ post"
    using Cons.prems(1) unfolding e index_bytes.simps
    by (metis append.assoc drop_append_length length_encode_u64)
  then have c2: "drop ?c2 bytes = index_bytes encode_u64 i es @ post" "?c1 \<le> length bytes"
    by (metis drop_append_length length_encode_u64, metis append_is_Nil_conv drop_all encode_u64_ne linorder_le_cases)
  have d1: "decode_u64 bytes cursor = Inr (of_nat (i - previous), ?c1)"
    using Cons.prems(1,2) by (intro decode_u64_at) (simp_all add: e)
  have d2: "decode_u64 bytes ?c1 = Inr (d, ?c2)" by (rule decode_u64_at [OF c1 c2(2)])
  have "?c2 \<le> length bytes"
  proof -
    have "length (drop ?c1 bytes) = encoded_len d + length (index_bytes encode_u64 i es @ post)"
      unfolding c1 by (simp add: length_encode_u64)
    then show ?thesis using c2(2) by simp
  qed
  with Cons.IH [OF c2(1) _ ok(1)] Cons.prems(4) show ?case
    using entry_index [OF Cons.prems(3) [unfolded e] assms] ok(2)
    by (simp add: e d1 d2 length_encode_u64 apply_entries_def add.assoc)
qed (simp add: apply_entries_def)

text \<open>A text payload is a string of the source language: its bytes are well-formed UTF-8.\<close>

fun valid_payload :: "word_payload \<Rightarrow> bool" where
  "valid_payload (Bytes bytes) = True"
| "valid_payload (Text text) = valid_utf8 text"

lemma payload_bytes_read:
  assumes "valid_payload x"
  obtains kind content where "payload_bytes x = kind # encode_u64 (of_nat (length content)) @ content"
    "read_payload kind content = Inr x"
  using assms by (cases x) (auto simp: read_payload_def)

lemma read_payload_entry:
  assumes "drop cursor bytes = payload_bytes x @ post" "cursor \<le> length bytes" "length bytes < usize_bound"
    and "valid_payload x"
  obtains kind c2 c3 where "get_byte bytes cursor = Inr kind"
    "decode_u64 bytes (Suc cursor) = Inr (of_nat (c3 - c2), c2)" "unat (of_nat (c3 - c2) :: u64) = c3 - c2"
    "usize_checked_add c2 (c3 - c2) = Some c3" "\<not> length bytes < c3" "c3 = cursor + length (payload_bytes x)"
    "read_payload kind (slice bytes c2 (c3 - c2)) = Inr x" "drop c3 bytes = post"
proof -
  obtain kind content where k: "payload_bytes x = kind # encode_u64 (of_nat (length content)) @ content"
    "read_payload kind content = Inr x" using assms(4) by (rule payload_bytes_read)
  let ?n = "of_nat (length content) :: u64"
  have b: "drop cursor bytes = kind # encode_u64 ?n @ content @ post" using assms(1) k(1) by simp
  then have lt: "cursor < length bytes" by (metis drop_all leI list.distinct(1))
  have d1: "drop (Suc cursor) bytes = encode_u64 ?n @ content @ post" using b by (metis drop_Suc list.sel(3) tl_drop)
  define c2 where "c2 = Suc cursor + encoded_len ?n"
  have d2: "drop c2 bytes = content @ post" using drop_append_length [OF d1] by (simp add: c2_def length_encode_u64)
  have "length (drop (Suc cursor) bytes) = encoded_len ?n + length content + length post" unfolding d1 by (simp add: length_encode_u64)
  then have len: "c2 + length content \<le> length bytes" using lt by (simp add: c2_def)
  show thesis
  proof (rule that [of kind "c2 + length content" c2])
    show "get_byte bytes cursor = Inr kind" using b lt unfolding get_byte_def by (simp add: nth_via_drop)
    show "decode_u64 bytes (Suc cursor) = Inr (of_nat (c2 + length content - c2), c2)"
      using decode_u64_at [OF d1] lt by (simp add: c2_def)
    show "unat (of_nat (c2 + length content - c2) :: u64) = c2 + length content - c2"
      using len assms(3) by (simp add: unat_index)
    show "usize_checked_add c2 (c2 + length content - c2) = Some (c2 + length content)"
      using len assms(3) by (simp add: usize_checked_add_def)
    show "c2 + length content = cursor + length (payload_bytes x)" by (simp add: c2_def k(1) length_encode_u64)
    show "read_payload kind (slice bytes c2 (c2 + length content - c2)) = Inr x" using d2 k(2) by (simp add: slice_def)
    show "drop (c2 + length content) bytes = post" by (rule drop_append_length [OF d2])
  qed (use len in simp)
qed

lemma decode_payloads_entries:
  assumes "word_count < usize_bound" "length bytes < usize_bound"
  shows "drop cursor bytes = index_bytes payload_bytes previous es @ post \<Longrightarrow> cursor \<le> length bytes \<Longrightarrow>
    entries_ok first previous word_count es \<Longrightarrow> (\<forall>(i, x) \<in> set es. valid_payload x) \<Longrightarrow>
    decode_payloads bytes word_count base (length es) first previous cursor words =
      Inr (cursor + length (index_bytes payload_bytes previous es),
           apply_entries (\<lambda>x w. w\<lparr>w_payload := Some x\<rparr>) base es words)"
proof (induction es arbitrary: cursor previous first words)
  case (Cons e es)
  obtain i x where e: "e = (i, x)" by (cases e)
  let ?c1 = "cursor + encoded_len (of_nat (i - previous))"
  note ok = entries_ok_Cons [OF Cons.prems(3) [unfolded e]]
  have c0: "drop cursor bytes = encode_u64 (of_nat (i - previous)) @ payload_bytes x @ index_bytes payload_bytes i es @ post"
    using Cons.prems(1) by (simp add: e)
  have c1: "drop ?c1 bytes = payload_bytes x @ index_bytes payload_bytes i es @ post"
    using drop_append_length [OF c0] by (simp add: length_encode_u64)
  have "payload_bytes x \<noteq> []" by (cases x) simp_all
  then have le: "?c1 \<le> length bytes"
    using c1 by (metis append_is_Nil_conv drop_all linorder_le_cases)
  have d1: "decode_u64 bytes cursor = Inr (of_nat (i - previous), ?c1)"
    by (rule decode_u64_at [OF c0 Cons.prems(2)])
  have "valid_payload x" using Cons.prems(4) by (simp add: e)
  from read_payload_entry [OF c1 le assms(2) this] obtain kind c2 c3 where r:
    "get_byte bytes ?c1 = Inr kind" "decode_u64 bytes (Suc ?c1) = Inr (of_nat (c3 - c2), c2)"
    "unat (of_nat (c3 - c2) :: u64) = c3 - c2" "usize_checked_add c2 (c3 - c2) = Some c3" "\<not> length bytes < c3"
    "c3 = ?c1 + length (payload_bytes x)" "read_payload kind (slice bytes c2 (c3 - c2)) = Inr x"
    "drop c3 bytes = index_bytes payload_bytes i es @ post" .
  have IH: "decode_payloads bytes word_count base (length es) False i c3 words =
      Inr (c3 + length (index_bytes payload_bytes i es), apply_entries (\<lambda>x w. w\<lparr>w_payload := Some x\<rparr>) base es words)" for words
    using Cons.IH [OF r(8) _ ok(1)] r(5) Cons.prems(4) by simp
  show ?case
    using entry_index [OF Cons.prems(3) [unfolded e] assms(1)] ok(2) IH r(5)
    by (simp add: e d1 r(1-4,7) length_encode_u64 apply_entries_def del: of_nat_diff) (simp add: r(6))
qed (simp add: apply_entries_def)

text \<open>What the entries do to the words of a range.\<close>

lemma length_update_local [simp]: "length (update_local base i f words) = length words"
  by (simp add: update_local_def)

lemma length_apply_entries [simp]: "length (apply_entries h base es words) = length words"
  unfolding apply_entries_def by (induction es arbitrary: words) auto

lemma apply_entries_nth:
  assumes "distinct (map fst es)" "j < length words"
  shows "apply_entries h base es words ! j =
    (case map_of es (base + j) of None \<Rightarrow> words ! j | Some x \<Rightarrow> h x (words ! j))"
  using assms
proof (induction es arbitrary: words)
  case Nil
  then show ?case by (simp add: apply_entries_def)
next
  case (Cons e es)
  obtain i x where e: "e = (i, x)" by (cases e)
  have step: "apply_entries h base (e # es) words = apply_entries h base es (update_local base i (h x) words)"
    by (simp add: apply_entries_def e)
  have nth: "update_local base i (h x) words ! j = (if i = base + j then h x (words ! j) else words ! j)"
    using Cons.prems(2) by (auto simp: update_local_def nth_list_update)
  have "i \<notin> fst ` set es" using Cons.prems(1) by (simp add: e)
  then have "map_of es i = None" by (simp add: map_of_eq_None_iff)
  with Cons show ?case unfolding step by (auto simp: nth e split: option.split)
qed

lemma map_of_indexed:
  "map_of (map (\<lambda>j. (j, f j)) (filter P [0..<n])) i = (if i < n \<and> P i then Some (f i) else None)"
  by (induction n) (auto simp: map_add_def less_Suc_eq split: option.splits)

lemma restore_words:
  assumes "base + m \<le> length words"
  shows "apply_entries (\<lambda>x w. w\<lparr>w_payload := Some x\<rparr>) base (payload_entries words (length words))
      (apply_entries (\<lambda>d w. w\<lparr>w_duration_ns := d\<rparr>) base (duration_entries words (length words))
        (map plain (take m (drop base words)))) = take m (drop base words)"
proof (rule nth_equalityI)
  fix j
  assume "j < length (apply_entries (\<lambda>x w. w\<lparr>w_payload := Some x\<rparr>) base (payload_entries words (length words))
      (apply_entries (\<lambda>d w. w\<lparr>w_duration_ns := d\<rparr>) base (duration_entries words (length words))
        (map plain (take m (drop base words)))))"
  then have j: "j < m" "base + j < length words" using assms by simp_all
  have d: "distinct (map fst (duration_entries words (length words)))"
    "distinct (map fst (payload_entries words (length words)))"
    by (simp_all add: duration_entries_def payload_entries_def comp_def)
  show "apply_entries (\<lambda>x w. w\<lparr>w_payload := Some x\<rparr>) base (payload_entries words (length words))
      (apply_entries (\<lambda>d w. w\<lparr>w_duration_ns := d\<rparr>) base (duration_entries words (length words))
        (map plain (take m (drop base words)))) ! j = take m (drop base words) ! j"
    using j assms d
    by (cases "words ! (base + j)")
      (simp add: apply_entries_nth duration_entries_def payload_entries_def map_of_indexed plain_def word_new_def
        split: option.split)
qed (use assms in simp)

lemma entries_sorted:
  "entries_ok True 0 n (duration_entries words n)" "entries_ok True 0 n (payload_entries words n)"
  by (auto simp: entries_ok_def duration_entries_def payload_entries_def comp_def
      intro!: sorted_wrt_filter)

section \<open>The written block\<close>

lemma put_all_snoc: "put_all (ws @ [(offset, bs)]) bytes = put_bytes (put_all ws bytes) offset bs"
  by (induction ws bytes rule: put_all.induct) simp_all

lemma header_fields_crc:
  obtains fields where "\<And>crc. header_fields (h\<lparr>h_crc32c := crc\<rparr>) = fields @ [(BLOCK_CHECKSUM_OFFSET, to_le 4 crc)]"
    "fits BLOCK_HEADER_SIZE fields"
proof -
  let ?fields = "butlast (header_fields h)"
  have "header_fields (h\<lparr>h_crc32c := crc\<rparr>) = ?fields @ [(BLOCK_CHECKSUM_OFFSET, to_le 4 crc)]" for crc
    by (simp add: header_fields_def)
  moreover have "fits BLOCK_HEADER_SIZE ?fields"
    using header_fields_layout(1) [of h] by (auto simp: fits_def list_all_iff dest: in_set_butlastD)
  ultimately show thesis by (rule that)
qed

text \<open>Storing the checksum does not change the checksum.\<close>

lemma write_checksum:
  assumes "write_to h bytes = Some out1" "write_to (h\<lparr>h_crc32c := crc\<rparr>) out1 = Some out2"
  shows "block_checksum out2 BLOCK_CHECKSUM_OFFSET = block_checksum out1 BLOCK_CHECKSUM_OFFSET"
proof -
  obtain fields where f: "\<And>crc. header_fields (h\<lparr>h_crc32c := crc\<rparr>) = fields @ [(BLOCK_CHECKSUM_OFFSET, to_le 4 crc)]"
    "fits BLOCK_HEADER_SIZE fields" using header_fields_crc [of h] by blast
  have h: "header_fields h = fields @ [(BLOCK_CHECKSUM_OFFSET, to_le 4 (h_crc32c h))]" using f(1) [of "h_crc32c h"] by simp
  let ?z = "\<lambda>b. put_bytes b 0 (replicate BLOCK_HEADER_SIZE (0 :: u8))"
  note out = write_to_SomeD [OF assms(1)]
  have "?z out1 = ?z bytes" using out(3) by (simp add: put_bytes_def)
  moreover define body where "body = put_all fields (?z bytes)"
  ultimately have eq: "out1 = put_bytes body BLOCK_CHECKSUM_OFFSET (to_le 4 (h_crc32c h))"
    "out2 = put_bytes body BLOCK_CHECKSUM_OFFSET (to_le 4 crc)"
    using assms f(1) h by (auto simp: write_to_def put_all_snoc split: if_splits)
  have "length (?z bytes) = length bytes" using out(1) by simp
  then have "length body = length bytes"
    unfolding body_def using f(2) out(1) by (metis fits_mono length_put_all)
  then have "length (take BLOCK_CHECKSUM_OFFSET body) = BLOCK_CHECKSUM_OFFSET"
    using out(1) by (simp add: block_consts)
  then show ?thesis
    unfolding eq put_bytes_def length_to_le by (simp only: block_checksum_parts length_to_le)
qed

lemma encode_InrD:
  assumes "encode_validated_word_block_with_interval sequence words ri vb tb dense = Some (Inr (m, out))"
  obtains grouped st block_len header crc where "words \<noteq> []" "encode_body words ri vb tb dense = Inr (grouped, st)"
    "encode_header sequence words vb grouped st = Inr (block_len, header)"
    "m = \<lparr>m_header = header\<lparr>h_crc32c := crc\<rparr>, m_restarts = es_restarts st\<rparr>"
    "from_bytes out = Inr (header\<lparr>h_crc32c := crc\<rparr>)" "block_checksum out BLOCK_CHECKSUM_OFFSET = Some crc"
    "length out = length (encode_output st block_len)"
    "drop BLOCK_HEADER_SIZE out = drop BLOCK_HEADER_SIZE (encode_output st block_len)"
proof -
  have ne: "words \<noteq> []" using assms by (auto simp: encode_validated_word_block_with_interval_def)
  with assms obtain grouped st block_len header out1 crc where body:
    "encode_body words ri vb tb dense = Inr (grouped, st)"
    "encode_header sequence words vb grouped st = Inr (block_len, header)"
    "write_to header (encode_output st block_len) = Some out1"
    "block_checksum out1 BLOCK_CHECKSUM_OFFSET = Some crc"
    "write_to (header\<lparr>h_crc32c := crc\<rparr>) out1 = Some out"
    "m = \<lparr>m_header = header\<lparr>h_crc32c := crc\<rparr>, m_restarts = es_restarts st\<rparr>"
    unfolding encode_validated_word_block_with_interval_def
    by (auto split: sum.splits Option.bind_splits elim!: and_then_InrE)
  have "block_checksum out BLOCK_CHECKSUM_OFFSET = Some crc" using write_checksum [OF body(3,5)] body(4) by simp
  with that [OF ne body(1,2,6)] header_round_trip [OF body(5)]
    write_to_SomeD(2,3) [OF body(3)] write_to_SomeD(2,3) [OF body(5)]
  show thesis by simp
qed

lemma to_u32_InrD: "to_u32 n what = Inr x \<Longrightarrow> unat x = n \<and> n < 2 ^ 32"
  by (auto simp: to_u32_def unat_of_nat take_bit_nat_eq_self split: if_splits)

lemma checked_InrD: "checked (usize_checked_add a b) = Inr x \<Longrightarrow> x = a + b"
  by (auto simp: checked_def usize_checked_add_def split: if_splits)

lemma encode_headerD:
  assumes "encode_header sequence words vb grouped st = Inr (block_len, h)"
  defines "table \<equiv> BLOCK_HEADER_SIZE + length (es_records st)"
  defines "durations \<equiv> table + length (es_restarts st) * RESTART_ENTRY_SIZE"
  defines "unpadded \<equiv> durations + length (es_durations st) + length (es_payloads st)"
  shows "unat (h_record_payload_len h) = length (es_records st)" "unat (h_restart_count h) = length (es_restarts st)"
    "unat (h_restart_table_offset h) = table" "unat (h_duration_count h) = es_duration_count st"
    "unat (h_duration_table_offset h) = durations" "unat (h_block_len h) = block_len" "block_len < 2 ^ 32"
    "unpadded \<le> block_len" "block_len \<le> unpadded + 7"
    "h_flags h = (if 0 < es_duration_count st then BLOCK_FLAG_HAS_DURATIONS else 0) OR
      (if 0 < count_payloads words then BLOCK_FLAG_HAS_PAYLOADS else 0) OR
      (if grouped then BLOCK_FLAG_GROUPED_TIMESTAMPS else 0)"
    "h_last_timestamp_ns h = w_timestamp_ns (last words)" "h_word_count h = of_nat (length words)"
    "h_value_bytes h = of_nat vb"
proof -
  have pad: "block_len = unpadded + 7 - (unpadded + 7) mod 8"
    using assms(1) unfolding encode_header_def Let_def table_def durations_def unpadded_def
    by (auto elim!: and_then_InrE dest!: checked_InrD)
  have m: "(unpadded + 7) mod 8 \<le> 7" "(unpadded + 7) mod 8 \<le> unpadded + 7" by simp_all
  then show "unpadded \<le> block_len" "block_len \<le> unpadded + 7" unfolding pad by linarith+
qed (use assms(1) in \<open>auto simp: encode_header_def Let_def table_def durations_def
      elim!: and_then_InrE dest!: checked_InrD to_u32_InrD\<close>)

lemma encode_output_drop:
  assumes "unpadded = BLOCK_HEADER_SIZE + length (es_records st) + length (es_restarts st) * RESTART_ENTRY_SIZE +
      length (es_durations st) + length (es_payloads st)" "unpadded \<le> block_len"
  shows "length (encode_output st block_len) = block_len"
    "drop BLOCK_HEADER_SIZE (encode_output st block_len) =
      es_records st @ concat (map restart_bytes (es_restarts st)) @ es_durations st @ es_payloads st @
      replicate (block_len - unpadded) 0"
proof -
  let ?tail = "es_records st @ concat (map restart_bytes (es_restarts st)) @ es_durations st @ es_payloads st"
  have "length (concat (map restart_bytes rs)) = length rs * RESTART_ENTRY_SIZE" for rs by (induction rs) simp_all
  then have len: "length (replicate BLOCK_HEADER_SIZE 0 @ ?tail) = unpadded" using assms(1) by simp
  then have out: "encode_output st block_len = (replicate BLOCK_HEADER_SIZE 0 @ ?tail) @ replicate (block_len - unpadded) 0"
    unfolding encode_output_def resize_def using assms(2) by (simp only: take_all)
  show "length (encode_output st block_len) = block_len" unfolding out using len assms(2) by (simp only: length_append length_replicate)
  show "drop BLOCK_HEADER_SIZE (encode_output st block_len) =
      es_records st @ concat (map restart_bytes (es_restarts st)) @ es_durations st @ es_payloads st @
      replicate (block_len - unpadded) 0"
    unfolding out by simp
qed

section \<open>Parsing an encoded block\<close>

lemma read_restarts_at:
  "drop offset bytes = concat (map restart_bytes rs) @ post \<Longrightarrow> offset \<le> length bytes \<Longrightarrow>
   read_restarts bytes offset (length rs) = Inr rs"
proof (induction rs arbitrary: offset)
  case (Cons r rs)
  have d: "drop offset bytes = restart_bytes r @ concat (map restart_bytes rs) @ post" using Cons.prems(1) by simp
  have s: "slice bytes offset RESTART_ENTRY_SIZE = restart_bytes r" unfolding slice_def d by simp
  have "length (drop offset bytes) = RESTART_ENTRY_SIZE + length (concat (map restart_bytes rs) @ post)" unfolding d by simp
  then have le: "offset + RESTART_ENTRY_SIZE \<le> length bytes" using Cons.prems(2) by simp
  have "drop (offset + RESTART_ENTRY_SIZE) bytes = concat (map restart_bytes rs) @ post"
    using drop_append_length [OF d] by simp
  with Cons.IH [OF this le] read_from_restart_bytes [OF s le] show ?case by simp
qed simp

text \<open>Restart entries of ordered words at strictly increasing offsets are accepted.\<close>

lemma list_ex_adjacent:
  "\<not> list_ex (\<lambda>(a, b). P a b) (zip xs (tl xs))" if "\<And>k. Suc k < length xs \<Longrightarrow> \<not> P (xs ! k) (xs ! Suc k)"
  using that by (auto simp: list_ex_iff in_set_zip nth_tl)

lemma validate_restarts:
  assumes ri: "0 < ri" and words: "words \<noteq> []" "length words < 2 ^ 32" "well_ordered words"
    and off: "off 0 = 0" "\<And>k. Suc k * ri < length words \<Longrightarrow> off (k * ri) < off (Suc k * ri)"
      "\<And>k. k * ri < length words \<Longrightarrow> off (k * ri) < unat records_len"
  shows "validate_restart_order (restarts_upto ri words off (length words)) (of_nat (length words)) records_len = Inr ()"
proof -
  let ?rs = "restarts_upto ri words off (length words)" and ?n = "div_ceil (length words) ri"
  have n: "0 < ?n" using words(1) by (simp add: less_div_ceil [OF ri])
  have lt: "k < ?n \<longleftrightarrow> k * ri < length words" for k by (rule less_div_ceil [OF ri])
  have u: "unat (of_nat m :: u32) = m" if "m < 2 ^ 32" for m using that by (simp add: unat_of_nat take_bit_nat_eq_self)
  have bound: "off (k * ri) < 2 ^ 32" if "k < ?n" for k
    using off(3) [of k] that unsigned_less [of records_len, where ?'a = nat] by (simp add: lt)
  have idx: "unat (r_record_index (?rs ! k)) = k * ri" "unat (r_payload_offset (?rs ! k)) = off (k * ri)"
    "r_timestamp_ns (?rs ! k) = w_timestamp_ns (words ! (k * ri))" if "k < ?n" for k
    using that lt [of k] words(2) restart_at_index [of "k * ri"] u [OF bound [OF that]]
    by (simp_all add: restarts_upto_nth restart_at_def)
  have hd: "hd ?rs = ?rs ! 0" "last ?rs = ?rs ! (?n - 1)" using n by (simp_all add: hd_conv_nth last_conv_nth length_greater_0_conv [symmetric] del: length_greater_0_conv)
  have adjacent: "\<not> (r_record_index (?rs ! Suc k) \<le> r_record_index (?rs ! k) \<or> r_payload_offset (?rs ! Suc k) \<le> r_payload_offset (?rs ! k) \<or>
      r_timestamp_ns (?rs ! Suc k) < r_timestamp_ns (?rs ! k))" if "Suc k < ?n" for k
  proof -
    have "Suc k * ri < length words" using that lt by blast
    moreover then have "w_timestamp_ns (words ! (k * ri)) \<le> w_timestamp_ns (words ! (Suc k * ri))"
      using sorted_nth_mono [of "map w_timestamp_ns words" "k * ri" "Suc k * ri"] words(3) by (simp add: well_ordered_def)
    ultimately show ?thesis
      using that off(2) [of k] ri idx [of k] idx [of "Suc k"] by (simp add: word_le_nat_alt not_le not_less)
  qed
  have "?rs \<noteq> []" using n by (simp add: length_greater_0_conv [symmetric] del: length_greater_0_conv)
  moreover have "r_record_index (hd ?rs) = 0" "r_payload_offset (hd ?rs) = 0"
    using idx(1,2) [OF n] off(1) unfolding hd by (simp_all add: unat_eq_0)
  moreover have "r_record_index (last ?rs) < of_nat (length words)" "r_payload_offset (last ?rs) < records_len"
    using idx(1,2) [of "?n - 1"] lt [of "?n - 1"] off(3) [of "?n - 1"] n words(2)
    unfolding hd by (simp_all add: word_less_nat_alt u)
  moreover have "\<not> list_ex (\<lambda>(a, b). r_record_index b \<le> r_record_index a \<or> r_payload_offset b \<le> r_payload_offset a \<or>
      r_timestamp_ns b < r_timestamp_ns a) (zip ?rs (tl ?rs))"
    by (rule list_ex_adjacent) (use adjacent in simp)
  ultimately show ?thesis unfolding validate_restart_order_def by (simp add: not_le)
qed

text \<open>What the encoder expects of its arguments.\<close>

definition encodable :: "decoded_word list \<Rightarrow> nat \<Rightarrow> nat \<Rightarrow> bool \<Rightarrow> bool" where
  "encodable words ri vb dense \<longleftrightarrow>
     words \<noteq> [] \<and> length words < 2 ^ 32 \<and> 0 < ri \<and> well_ordered words \<and> vb \<in> {1, 2, 4, 8} \<and>
     (\<forall>w \<in> set words. unat (w_value w) < 2 ^ (8 * vb) \<and> (\<forall>p. w_payload w = Some p \<longrightarrow> valid_payload p)) \<and>
     (dense \<longrightarrow> vb = 1 \<and> (\<forall>w \<in> set words. w_payload w = None \<and> w_duration_ns w = 0) \<and>
        (\<forall>i < length words. delta_at words i \<le> 0x7f))"

text \<open>The two layouts of the records of a block.\<close>

definition record_layout :: "bool \<Rightarrow> nat \<Rightarrow> nat \<Rightarrow> decoded_word list \<Rightarrow> u8 list \<times> (nat \<Rightarrow> nat)" where
  "record_layout grouped ri vb words =
     (if grouped then (grouped_records ri words, \<lambda>i. group_offset ri words (i div ri))
      else (records_upto vb words (length words), \<lambda>i. length (records_upto vb words i)))"

definition body_layout :: "bool \<Rightarrow> nat \<Rightarrow> nat \<Rightarrow> decoded_word list \<Rightarrow> encode_state \<Rightarrow> bool" where
  "body_layout grouped ri vb words st \<longleftrightarrow>
     es_records st = fst (record_layout grouped ri vb words) \<and>
     es_restarts st = restarts_upto ri words (snd (record_layout grouped ri vb words)) (length words) \<and>
     es_durations st = index_bytes encode_u64 0 (duration_entries words (length words)) \<and>
     es_duration_count st = length (duration_entries words (length words)) \<and>
     es_payloads st = prefix_bytes words @ index_bytes payload_bytes 0 (payload_entries words (length words)) \<and>
     (grouped \<longrightarrow> vb = 1)"

lemma encode_body_layout:
  assumes "encodable words ri vb dense" "encode_body words ri vb tb dense = Inr (grouped, st)"
  shows "body_layout grouped ri vb words st"
proof -
  note e = assms(1) [unfolded encodable_def]
  let ?n = "length words"
  have plain_words: "duration_entries words ?n = []" "payload_entries words ?n = []" if dense
    using e that by (auto simp: duration_entries_def payload_entries_def filter_empty_conv)
  consider (grouped) records restarts where dense "encode_grouped_dense_records words ri tb = Some (records, restarts)"
      "grouped" "st = (encode_start words)\<lparr>es_records := records, es_restarts := restarts\<rparr>"
    | (dense) records restarts where dense "encode_dense_words ri 0 0 words ([], []) = (records, restarts)"
      "\<not> grouped" "st = (encode_start words)\<lparr>es_records := records, es_restarts := restarts\<rparr>"
    | (plain) "\<not> dense" "encode_words ri vb 0 words (encode_start words) = Inr st" "\<not> grouped"
    using assms(2) by (auto simp: encode_body_def Let_def elim!: and_then_InrE split: option.splits if_splits prod.splits)
  then show ?thesis
  proof cases
    case grouped
    then have "encode_groups ri 0 (chunks ri words) ([], []) = Some (records, restarts)"
      by (auto simp: encode_grouped_dense_records_def Let_def split: option.splits prod.splits if_splits)
    then have "records = grouped_records ri words \<and> restarts = restarts_upto ri words (\<lambda>i. group_offset ri words (i div ri)) ?n"
      using encode_groups_closed [of ri 0 words records restarts] e by simp
    with grouped plain_words e show ?thesis
      by (simp add: body_layout_def record_layout_def encode_start_def prefix_bytes_def)
  next
    case dense
    have "records = records_upto 1 words ?n \<and> restarts = restarts_upto ri words (\<lambda>j. length (records_upto 1 words j)) ?n"
      using encode_dense_closed [of ri ?n words 0 0] dense e
      by (simp add: records_upto_def [of "Suc 0" words 0] restarts_upto_def [of ri words _ 0])
    with dense plain_words e show ?thesis
      by (simp add: body_layout_def record_layout_def encode_start_def prefix_bytes_def)
  next
    case plain
    then have "st = state_at ri vb words ?n"
      using encode_words_closed [of ri words ?n vb 0 st] state_at_0 [of words ri vb] e by simp
    with plain show ?thesis by (simp add: body_layout_def record_layout_def state_at_def)
  qed
qed

lemma record_layout_increasing:
  assumes "0 < ri" "k * ri < length words"
  shows "snd (record_layout grouped ri vb words) 0 = 0"
    "Suc k * ri < length words \<Longrightarrow> snd (record_layout grouped ri vb words) (k * ri) < snd (record_layout grouped ri vb words) (Suc k * ri)"
    "snd (record_layout grouped ri vb words) (k * ri) < length (fst (record_layout grouped ri vb words))"
proof -
  have legacy: "length (records_upto vb words a) < length (records_upto vb words b)" if "a < b" for a b
  proof -
    obtain post where "drop (length (records_upto vb words a)) (records_upto vb words b) = record_at vb words a @ post"
      using drop_records_upto [OF \<open>a < b\<close>] by blast
    then have "length (records_upto vb words b) - length (records_upto vb words a) \<noteq> 0"
      by (metis append_is_Nil_conv encode_u64_ne length_0_conv length_drop record_at_def)
    then show ?thesis by simp
  qed
  have k: "k < length (chunks ri words)" using assms chunks_nth [OF assms(1), of words] by (simp add: less_div_ceil)
  then have group: "group_offset ri words k < group_offset ri words (Suc k)"
    by (simp add: group_offset_def take_Suc_conv_app_nth length_greater_0_conv [symmetric] del: length_greater_0_conv) simp
  have "group_offset ri words (Suc k) \<le> length (grouped_records ri words)"
    using grouped_records_split(2) [OF k] by simp
  with legacy group assms show "snd (record_layout grouped ri vb words) 0 = 0"
    "Suc k * ri < length words \<Longrightarrow> snd (record_layout grouped ri vb words) (k * ri) < snd (record_layout grouped ri vb words) (Suc k * ri)"
    "snd (record_layout grouped ri vb words) (k * ri) < length (fst (record_layout grouped ri vb words))"
    by (auto simp: record_layout_def group_offset_def [of _ _ 0] records_upto_def [of _ _ 0])
qed

definition parsed_block :: "word_block_header \<Rightarrow> encode_state \<Rightarrow> nat \<Rightarrow> nat \<Rightarrow> parsed_word_block" where
  "parsed_block header st block_len vb =
     \<lparr>pb_header = header, pb_restarts = es_restarts st, pb_record_end = BLOCK_HEADER_SIZE + length (es_records st),
      pb_duration_offset = BLOCK_HEADER_SIZE + length (es_records st) + length (es_restarts st) * RESTART_ENTRY_SIZE,
      pb_block_len = block_len, pb_value_bytes = vb\<rparr>"

lemma flags_supported:
  "((if a then BLOCK_FLAG_HAS_DURATIONS else 0) OR (if b then BLOCK_FLAG_HAS_PAYLOADS else 0) OR
    (if c then BLOCK_FLAG_GROUPED_TIMESTAMPS else 0)) AND
   NOT (BLOCK_FLAG_HAS_DURATIONS OR BLOCK_FLAG_HAS_PAYLOADS OR BLOCK_FLAG_GROUPED_TIMESTAMPS) = 0"
  by (simp add: BLOCK_FLAG_HAS_DURATIONS_def BLOCK_FLAG_HAS_PAYLOADS_def BLOCK_FLAG_GROUPED_TIMESTAMPS_def)

lemma flags_read:
  fixes a b c :: bool
  defines "flags \<equiv> (if a then BLOCK_FLAG_HAS_DURATIONS else 0) OR (if b then BLOCK_FLAG_HAS_PAYLOADS else 0) OR
    (if c then BLOCK_FLAG_GROUPED_TIMESTAMPS else 0)"
  shows "flags AND BLOCK_FLAG_GROUPED_TIMESTAMPS = 0 \<longleftrightarrow> \<not> c" "flags AND BLOCK_FLAG_HAS_PAYLOADS = 0 \<longleftrightarrow> \<not> b"
  unfolding flags_def
  by (cases a; cases b; cases c; simp add: BLOCK_FLAG_HAS_DURATIONS_def BLOCK_FLAG_HAS_PAYLOADS_def BLOCK_FLAG_GROUPED_TIMESTAMPS_def)+

lemma parse_encoded:
  assumes e: "encodable words ri vb dense" and layout: "body_layout grouped ri vb words st"
    and header: "encode_header sequence words vb grouped st = Inr (block_len, header)"
    and out: "from_bytes out = Inr (header\<lparr>h_crc32c := crc\<rparr>)" "block_checksum out BLOCK_CHECKSUM_OFFSET = Some crc"
      "length out = length (encode_output st block_len)"
      "drop BLOCK_HEADER_SIZE out = drop BLOCK_HEADER_SIZE (encode_output st block_len)"
  shows "parse_word_block out = Inr (parsed_block (header\<lparr>h_crc32c := crc\<rparr>) st block_len vb)"
proof -
  note h = encode_headerD [OF header]
  note w = e [unfolded encodable_def] and l = layout [unfolded body_layout_def]
  note o = encode_output_drop [OF refl h(8)]
  have len: "length out = block_len" using out(3) o(1) by simp
  have u: "unat (h_word_count header) = length words" "unat (h_value_bytes header) = vb"
    using w by (auto simp: h(12,13) unat_of_nat take_bit_nat_eq_self)
  have "drop (BLOCK_HEADER_SIZE + length (es_records st)) out = concat (map restart_bytes (es_restarts st)) @
      es_durations st @ es_payloads st @ replicate (block_len -
        (BLOCK_HEADER_SIZE + length (es_records st) + length (es_restarts st) * RESTART_ENTRY_SIZE +
         length (es_durations st) + length (es_payloads st))) 0"
    using drop_append_length [of BLOCK_HEADER_SIZE out "es_records st"] out(4) o(2) by simp
  from read_restarts_at [OF this] have restarts:
    "read_restarts out (BLOCK_HEADER_SIZE + length (es_records st)) (length (es_restarts st)) = Inr (es_restarts st)"
    using h(8) len by simp
  have valid: "validate_restart_order (es_restarts st) (h_word_count header) (h_record_payload_len header) = Inr ()"
  proof -
    have ri: "0 < ri" and n: "0 * ri < length words" using w by simp_all
    note inc = record_layout_increasing [OF ri, of _ words grouped vb]
    have rs: "es_restarts st = restarts_upto ri words (snd (record_layout grouped ri vb words)) (length words)" using l by simp
    show ?thesis
      unfolding h(12) rs
    proof (rule validate_restarts)
      show "snd (record_layout grouped ri vb words) (k * ri) < snd (record_layout grouped ri vb words) (Suc k * ri)"
        if "Suc k * ri < length words" for k using inc(2) [of k] that by simp
      show "snd (record_layout grouped ri vb words) (k * ri) < unat (h_record_payload_len header)"
        if "k * ri < length words" for k using inc(3) [OF that] h(1) l by simp
    qed (use w inc(1) [OF n] in simp_all)
  qed
  have "h_word_count header \<noteq> 0" using u(1) w by (auto simp: unat_eq_0 [symmetric])
  moreover have "BLOCK_HEADER_SIZE \<le> block_len" using h(8) by simp
  moreover have "BLOCK_HEADER_SIZE + length (es_records st) + length (es_restarts st) * RESTART_ENTRY_SIZE \<le> block_len"
    using h(8) by simp
  ultimately show ?thesis
    using len h(1-7) u w restarts valid flags_supported out(1,2)
    by (simp add: parse_word_block_def Let_def usize_checked_add_def h(10) parsed_block_def)
qed

section \<open>Decoding an encoded block\<close>

text \<open>A parsed block that holds the given words.\<close>

definition is_block :: "decoded_word list \<Rightarrow> nat \<Rightarrow> nat \<Rightarrow> bool \<Rightarrow> encode_state \<Rightarrow> parsed_word_block \<Rightarrow> u8 list \<Rightarrow> bool" where
  "is_block words ri vb grouped st parsed out \<longleftrightarrow>
     (\<exists>dense. encodable words ri vb dense) \<and> body_layout grouped ri vb words st \<and>
     (\<exists>header. parsed = parsed_block header st (length out) vb \<and>
        unat (h_word_count header) = length words \<and> unat (h_duration_count header) = es_duration_count st \<and>
        (h_flags header AND BLOCK_FLAG_GROUPED_TIMESTAMPS = 0 \<longleftrightarrow> \<not> grouped) \<and>
        (h_flags header AND BLOCK_FLAG_HAS_PAYLOADS = 0 \<longleftrightarrow> count_payloads words = 0) \<and>
        h_last_timestamp_ns header = w_timestamp_ns (last words)) \<and>
     length out < 2 ^ 32 \<and>
     (\<exists>pad \<le> 7. drop BLOCK_HEADER_SIZE out =
        es_records st @ concat (map restart_bytes (es_restarts st)) @ es_durations st @ es_payloads st @ replicate pad 0)"

lemma is_blockE:
  assumes "is_block words ri vb grouped st parsed out"
  obtains header dense pad where "encodable words ri vb dense" "body_layout grouped ri vb words st"
    "parsed = parsed_block header st (length out) vb" "unat (h_word_count header) = length words"
    "unat (h_duration_count header) = es_duration_count st"
    "h_flags header AND BLOCK_FLAG_GROUPED_TIMESTAMPS = 0 \<longleftrightarrow> \<not> grouped"
    "h_flags header AND BLOCK_FLAG_HAS_PAYLOADS = 0 \<longleftrightarrow> count_payloads words = 0"
    "h_last_timestamp_ns header = w_timestamp_ns (last words)" "length out < 2 ^ 32" "pad \<le> 7"
    "drop BLOCK_HEADER_SIZE out =
      es_records st @ concat (map restart_bytes (es_restarts st)) @ es_durations st @ es_payloads st @ replicate pad 0"
  using assms unfolding is_block_def by (elim conjE exE) (rule that)

lemma is_block_records_ne:
  "encodable words ri vb dense \<Longrightarrow> body_layout grouped ri vb words st \<Longrightarrow> es_records st \<noteq> []"
  using record_layout_increasing(3) [of ri 0 words grouped vb] by (auto simp: encodable_def body_layout_def)

lemma encoded_is_block:
  assumes "encodable words ri vb dense"
    and "encode_validated_word_block_with_interval sequence words ri vb tb dense = Some (Inr (m, out))"
  obtains grouped st where "is_block words ri vb grouped st (parsed_block (m_header m) st (length out) vb) out"
    "parse_word_block out = Inr (parsed_block (m_header m) st (length out) vb)" "m_restarts m = es_restarts st"
proof -
  from assms(2) obtain grouped st block_len header crc where r: "words \<noteq> []"
    "encode_body words ri vb tb dense = Inr (grouped, st)"
    "encode_header sequence words vb grouped st = Inr (block_len, header)"
    "m = \<lparr>m_header = header\<lparr>h_crc32c := crc\<rparr>, m_restarts = es_restarts st\<rparr>"
    "from_bytes out = Inr (header\<lparr>h_crc32c := crc\<rparr>)" "block_checksum out BLOCK_CHECKSUM_OFFSET = Some crc"
    "length out = length (encode_output st block_len)"
    "drop BLOCK_HEADER_SIZE out = drop BLOCK_HEADER_SIZE (encode_output st block_len)"
    by (rule encode_InrD)
  note layout = encode_body_layout [OF assms(1) r(2)]
  note h = encode_headerD [OF r(3)]
  note o = encode_output_drop [OF refl h(8)]
  define pad where "pad = block_len - (BLOCK_HEADER_SIZE + length (es_records st) +
      length (es_restarts st) * RESTART_ENTRY_SIZE + length (es_durations st) + length (es_payloads st))"
  have len: "length out = block_len" using r(7) o(1) by simp
  have bytes: "pad \<le> 7 \<and> drop BLOCK_HEADER_SIZE out =
      es_records st @ concat (map restart_bytes (es_restarts st)) @ es_durations st @ es_payloads st @ replicate pad 0"
    using r(8) o(2) h(9) by (simp add: pad_def)
  have count: "unat (h_word_count header) = length words"
    using assms(1) by (simp add: h(12) encodable_def unat_of_nat take_bit_nat_eq_self)
  have fields: "unat (h_word_count (m_header m)) = length words \<and> unat (h_duration_count (m_header m)) = es_duration_count st \<and>
      (h_flags (m_header m) AND BLOCK_FLAG_GROUPED_TIMESTAMPS = 0 \<longleftrightarrow> \<not> grouped) \<and>
      (h_flags (m_header m) AND BLOCK_FLAG_HAS_PAYLOADS = 0 \<longleftrightarrow> count_payloads words = 0) \<and>
      h_last_timestamp_ns (m_header m) = w_timestamp_ns (last words)"
    using count h(4,11) by (simp add: r(4) h(10) flags_read)
  have "is_block words ri vb grouped st (parsed_block (m_header m) st (length out) vb) out"
    unfolding is_block_def
    by (intro conjI exI [of _ dense] exI [of _ pad] exI [of _ "m_header m"])
      (use assms(1) layout fields bytes len h(7) in simp_all)
  with that parse_encoded [OF assms(1) layout r(3,5-8)] r(4,7) o(1) show thesis by simp
qed

definition stream_at :: "bool \<Rightarrow> nat \<Rightarrow> nat \<Rightarrow> decoded_word list \<Rightarrow> nat \<Rightarrow> record_decoder \<Rightarrow> bool" where
  "stream_at grouped ri vb words = (if grouped then at_grouped ri words else at_legacy ri vb words)"

lemma block_stream:
  assumes "is_block words ri vb grouped st parsed out"
  shows "record_stream out parsed words (stream_at grouped ri vb words)"
    "k < div_ceil (length words) ri \<Longrightarrow> skip \<or> k = 0 \<Longrightarrow>
       stream_at grouped ri vb words (k * ri) (record_decoder_new parsed k skip)"
    "stream_at grouped ri vb words (length words) d \<Longrightarrow>
       rd_cursor d = pb_record_end parsed \<and> rd_next_restart_index d = length (pb_restarts parsed) \<and>
       is_complete (rd_group_timestamps d)"
proof -
  from assms obtain header dense pad where b: "encodable words ri vb dense" "body_layout grouped ri vb words st"
    "parsed = parsed_block header st (length out) vb" "unat (h_word_count header) = length words"
    "h_flags header AND BLOCK_FLAG_GROUPED_TIMESTAMPS = 0 \<longleftrightarrow> \<not> grouped" "length out < 2 ^ 32"
    "drop BLOCK_HEADER_SIZE out =
        es_records st @ concat (map restart_bytes (es_restarts st)) @ es_durations st @ es_payloads st @ replicate pad 0"
    by (rule is_blockE)
  note e = b(1) [unfolded encodable_def] and l = b(2) [unfolded body_layout_def]
  have "es_records st \<noteq> []" by (rule is_block_records_ne [OF b(1,2)])
  moreover have "length (es_records st) \<le> length (drop BLOCK_HEADER_SIZE out)" unfolding b(7) by simp
  ultimately have len: "BLOCK_HEADER_SIZE + length (es_records st) \<le> length out"
    by (cases "BLOCK_HEADER_SIZE \<le> length out") auto
  have holds: "holds_records out parsed (es_records st)"
    unfolding holds_records_def using len b(6) b(7) by (simp add: b(3) parsed_block_def drop_take)
  have restarts: "pb_restarts parsed = restarts_upto ri words (snd (record_layout grouped ri vb words)) (length words)"
    using l by (simp add: b(3) parsed_block_def)
  have small: "length (es_records st) < 2 ^ 32" using len b(6) by simp
  show "record_stream out parsed words (stream_at grouped ri vb words)"
  proof (cases grouped)
    case True
    then have "unat (w_value w) < 2 ^ 8" if "w \<in> set words" for w using that e l by auto
    then have "w_value w \<le> 0xff" if "w \<in> set words" for w using that by (fastforce simp: word_le_nat_alt)
    with True holds restarts e l b(3-5) show ?thesis
      by (auto simp: stream_at_def record_layout_def parsed_block_def intro!: grouped_stream)
  next
    case False
    with holds restarts e l b(3-5) show ?thesis
      by (auto simp: stream_at_def record_layout_def parsed_block_def intro!: legacy_stream)
  qed
  show "stream_at grouped ri vb words (k * ri) (record_decoder_new parsed k skip)"
    if "k < div_ceil (length words) ri" "skip \<or> k = 0"
    using that restarts e l small
    by (auto simp: stream_at_def record_layout_def intro!: grouped_start legacy_start split: if_splits)
  show "rd_cursor d = pb_record_end parsed \<and> rd_next_restart_index d = length (pb_restarts parsed) \<and>
      is_complete (rd_group_timestamps d)" if "stream_at grouped ri vb words (length words) d"
    using that restarts e l chunks_nth [of ri words]
    by (auto simp: stream_at_def record_layout_def b(3) parsed_block_def at_grouped_def at_legacy_def group_offset_def
        split: if_splits)
qed

lemma count_payloads_entries: "count_payloads words = length (payload_entries words (length words))"
proof -
  have "count_payloads words = length (filter (\<lambda>word. w_payload word \<noteq> None) (map ((!) words) [0..<length words]))"
    by (simp add: count_payloads_def map_nth)
  then show ?thesis by (simp add: payload_entries_def filter_map comp_def)
qed

lemma is_block_bytes:
  assumes "is_block words ri vb grouped st parsed out"
  obtains pad where "pad \<le> 7" "pb_duration_offset parsed \<le> length out"
    "drop (pb_duration_offset parsed) out = es_durations st @ es_payloads st @ replicate pad 0"
    "pb_block_len parsed = length out" "length out < 2 ^ 32"
proof -
  from assms obtain header dense pad where b: "encodable words ri vb dense" "body_layout grouped ri vb words st"
    "parsed = parsed_block header st (length out) vb" "length out < 2 ^ 32" "pad \<le> 7"
    "drop BLOCK_HEADER_SIZE out =
      es_records st @ concat (map restart_bytes (es_restarts st)) @ es_durations st @ es_payloads st @ replicate pad 0"
    by (rule is_blockE)
  have table: "length (concat (map restart_bytes rs)) = length rs * RESTART_ENTRY_SIZE" for rs by (induction rs) simp_all
  have "drop BLOCK_HEADER_SIZE out =
      (es_records st @ concat (map restart_bytes (es_restarts st))) @ es_durations st @ es_payloads st @ replicate pad 0"
    using b(6) by simp
  from drop_append_length [OF this] have d: "drop (pb_duration_offset parsed) out = es_durations st @ es_payloads st @ replicate pad 0"
    by (simp add: b(3) parsed_block_def table add.assoc)
  have "length (es_records st) + length (es_restarts st) * RESTART_ENTRY_SIZE \<le> length (drop BLOCK_HEADER_SIZE out)"
    unfolding b(6) by (simp add: table)
  moreover have "BLOCK_HEADER_SIZE \<le> length out" using b(6) is_block_records_ne [OF b(1,2)] by (metis append_is_Nil_conv drop_all linorder_le_cases)
  ultimately have "pb_duration_offset parsed \<le> length out" by (simp add: b(3) parsed_block_def)
  with d b(3-5) that show thesis by (simp add: parsed_block_def)
qed

lemma decode_payload_table:
  assumes "drop c out = prefix_bytes words @ index_bytes payload_bytes 0 (payload_entries words (length words)) @ post"
    and "c \<le> length out" "length words < usize_bound" "length out < usize_bound"
    and valid: "\<And>w p. w \<in> set words \<Longrightarrow> w_payload w = Some p \<Longrightarrow> valid_payload p"
  shows "(if count_payloads words \<noteq> 0
      then and_then (decode_u64 out c) (\<lambda>(payload_count, cursor).
        decode_payloads out (length words) base (unat payload_count) True 0 cursor ws)
      else Inr (c, ws)) =
    Inr (c + length (prefix_bytes words @ index_bytes payload_bytes 0 (payload_entries words (length words))),
         apply_entries (\<lambda>x w. w\<lparr>w_payload := Some x\<rparr>) base (payload_entries words (length words)) ws)"
proof (cases "count_payloads words = 0")
  case True
  then have "prefix_bytes words = []" "payload_entries words (length words) = []"
    by (simp_all add: prefix_bytes_def count_payloads_entries)
  with True show ?thesis by (simp add: apply_entries_def)
next
  case False
  let ?k = "of_nat (count_payloads words) :: u64" and ?pe = "payload_entries words (length words)"
  have "count_payloads words \<le> length words" by (simp add: count_payloads_def)
  then have k: "unat ?k = length ?pe" using assms(3) by (subst unat_index) (simp_all add: count_payloads_entries)
  have d: "drop c out = encode_u64 ?k @ index_bytes payload_bytes 0 ?pe @ post"
    using assms(1) False by (simp add: prefix_bytes_def)
  have dec: "decode_u64 out c = Inr (?k, c + encoded_len ?k)" by (rule decode_u64_at [OF d assms(2)])
  have "valid_payload p" if "w_payload (words ! i) = Some p" "i < length words" for i p
    using valid [OF nth_mem that(1)] that(2) by simp
  then have ok: "\<forall>(i, x) \<in> set ?pe. valid_payload x" by (auto simp: payload_entries_def)
  have d2: "drop (c + encoded_len ?k) out = index_bytes payload_bytes 0 ?pe @ post"
    using drop_append_length [OF d] by (simp add: length_encode_u64)
  have "length (drop c out) = encoded_len ?k + length (index_bytes payload_bytes 0 ?pe) + length post"
    unfolding d by (simp add: length_encode_u64)
  then have "c + encoded_len ?k \<le> length out" using assms(2) encoded_len_bounds [of ?k] by simp
  from decode_payloads_entries [OF assms(3,4) d2 this entries_sorted(2) ok] show ?thesis
    using dec k False by (simp add: prefix_bytes_def length_encode_u64 add.assoc)
qed

lemma apply_durations_block:
  assumes block: "is_block words ri vb grouped st parsed out" and m: "base + m \<le> length words"
  shows "apply_durations out parsed base (map plain (take m (drop base words))) = Inr (take m (drop base words))"
proof -
  from block obtain pad where b: "pad \<le> 7" "pb_duration_offset parsed \<le> length out"
    "drop (pb_duration_offset parsed) out = es_durations st @ es_payloads st @ replicate pad 0"
    "pb_block_len parsed = length out" "length out < 2 ^ 32" by (rule is_block_bytes)
  from block obtain header dense pad' where h: "encodable words ri vb dense" "body_layout grouped ri vb words st"
    "parsed = parsed_block header st (length out) vb" "unat (h_word_count header) = length words"
    "unat (h_duration_count header) = es_duration_count st"
    "h_flags header AND BLOCK_FLAG_HAS_PAYLOADS = 0 \<longleftrightarrow> count_payloads words = 0"
    by (rule is_blockE)
  have head: "pb_header parsed = header" by (simp add: h(3) parsed_block_def)
  note e = h(1) [unfolded encodable_def] and l = h(2) [unfolded body_layout_def]
  let ?n = "length words" and ?o = "pb_duration_offset parsed"
  let ?de = "duration_entries words ?n"
  let ?words0 = "map plain (take m (drop base words))"
  let ?words1 = "apply_entries (\<lambda>d w. w\<lparr>w_duration_ns := d\<rparr>) base ?de ?words0"
  let ?c1 = "?o + length (index_bytes encode_u64 0 ?de)"
  let ?c2 = "?c1 + length (es_payloads st)"
  have small: "?n < usize_bound" "length out < usize_bound" using e b(5) by simp_all
  have d0: "drop ?o out = index_bytes encode_u64 0 ?de @ es_payloads st @ replicate pad 0" using b(3) l by simp
  have durations: "decode_durations out ?n base (es_duration_count st) True 0 ?o ?words0 = Inr (?c1, ?words1)"
    using decode_durations_entries [OF small(1) d0 b(2) entries_sorted(1)] l
    by (auto simp: duration_entries_def)
  have d1: "drop ?c1 out = es_payloads st @ replicate pad 0" by (rule drop_append_length [OF d0])
  have d2: "drop ?c2 out = replicate pad 0" by (rule drop_append_length [OF d1])
  have "length (drop ?o out) = length (index_bytes encode_u64 0 ?de) + length (es_payloads st) + pad" unfolding d0 by simp
  then have len: "?c2 + pad = length out" using b(2) by simp
  have "drop ?c1 out = prefix_bytes words @ index_bytes payload_bytes 0 (payload_entries words ?n) @ replicate pad 0"
    using d1 l by simp
  from decode_payload_table [OF this _ small, of base ?words1] e len l
  have payloads: "(if h_flags header AND BLOCK_FLAG_HAS_PAYLOADS \<noteq> 0
         then and_then (decode_u64 out ?c1) (\<lambda>(payload_count, cursor).
           decode_payloads out ?n base (unat payload_count) True 0 cursor ?words1)
         else Inr (?c1, ?words1)) = Inr (?c2, take m (drop base words))"
    unfolding h(6) restore_words [OF m] by simp
  have "slice out ?c2 (length out - ?c2) = replicate pad 0" using d2 len by (simp add: slice_def)
  then have pad: "\<not> 7 < length (slice out ?c2 (length out - ?c2))" "\<not> list_ex (\<lambda>b. b \<noteq> 0) (slice out ?c2 (length out - ?c2))"
    using b(1) by (simp_all add: list_ex_iff)
  show ?thesis
    unfolding apply_durations_def Let_def head h(4) h(5) durations and_then_simps prod.case payloads b(4)
    using len pad by simp
qed

lemma decode_encoded_block:
  assumes "encodable words ri vb dense"
    and "encode_validated_word_block_with_interval sequence words ri vb tb dense = Some (Inr (m, out))"
  shows "decode_word_block out = Inr \<lparr>db_header = m_header m, db_restarts = m_restarts m, db_words = words\<rparr>"
proof -
  from assms obtain grouped st where b: "is_block words ri vb grouped st (parsed_block (m_header m) st (length out) vb) out"
    "parse_word_block out = Inr (parsed_block (m_header m) st (length out) vb)" "m_restarts m = es_restarts st"
    by (rule encoded_is_block)
  let ?p = "parsed_block (m_header m) st (length out) vb"
  from b(1) obtain header dense' pad where h: "?p = parsed_block header st (length out) vb"
    "unat (h_word_count header) = length words" "h_last_timestamp_ns header = w_timestamp_ns (last words)"
    by (rule is_blockE)
  have head: "m_header m = header" using h(1) by (simp add: parsed_block_def)
  have e: "words \<noteq> []" "0 < ri" using assms(1) by (simp_all add: encodable_def)
  note s = block_stream [OF b(1)]
  have "stream_at grouped ri vb words 0 (record_decoder_new ?p 0 False)"
    using s(2) [of 0 False] e by (simp add: less_div_ceil)
  from decode_records_stream [OF s(1) this] obtain d where d:
    "decode_records out ?p 0 (length words) (record_decoder_new ?p 0 False) = Inr (map plain words, d)"
    "stream_at grouped ri vb words (length words) d" "rd_timestamp d = w_timestamp_ns (last words)"
    using e(1) by auto
  have "apply_durations out ?p 0 (map plain words) = Inr words"
    using apply_durations_block [OF b(1), of 0 "length words"] by simp
  with d s(3) [OF d(2)] h(2,3) b(2,3) show ?thesis
    by (simp add: decode_word_block_def Let_def head parsed_block_def)
qed

end
