(* ===== verification/Block_Builder.thy ===== *)
theory Block_Builder
  imports Word_Blocks
begin

text \<open>
  The block builder of \<^verbatim>\<open>crates/signal_derived/src/derived_word_store/codec.rs\<close>: it accepts the largest
  prefix of a word sequence that fits the configured bounds, predicting the encoded size without
  encoding. Sizes are natural numbers.
\<close>

section \<open>Configuration and state\<close>

record block_codec_config =
  cfg_max_words :: nat
  cfg_restart_interval :: nat
  cfg_max_payload_bytes :: nat
  cfg_max_inter_word_gap_ns :: u64
  cfg_max_timestamp_span_ns :: u64

definition block_codec_config_default :: block_codec_config where
  "block_codec_config_default =
     \<lparr>cfg_max_words = 131072, cfg_restart_interval = 512, cfg_max_payload_bytes = 1024 * 1024,
      cfg_max_inter_word_gap_ns = 1000000, cfg_max_timestamp_span_ns = - 1\<rparr>"

record word_block_builder =
  bb_config :: block_codec_config
  bb_words :: "decoded_word list"
  bb_timestamp_bytes :: nat
  bb_duration_bytes :: nat
  bb_duration_count :: nat
  bb_last_duration_index :: nat
  bb_payload_entry_bytes :: nat
  bb_payload_count :: nat
  bb_last_payload_index :: nat
  bb_max_value :: u64

definition builder_new :: "block_codec_config \<Rightarrow> word_block_builder codec_result" where
  "builder_new config =
     (if cfg_restart_interval config = 0 then Inl InvalidRestartInterval
      else if cfg_max_words config = 0 then Inl (InvalidConfiguration ''max_words must be greater than zero'')
      else if 2 ^ 32 - 1 < cfg_max_words config then Inl (InvalidConfiguration ''max_words must fit in u32'')
      else if cfg_max_payload_bytes config = 0
      then Inl (InvalidConfiguration ''max_payload_bytes must be greater than zero'')
      else Inr \<lparr>bb_config = config, bb_words = [], bb_timestamp_bytes = 0, bb_duration_bytes = 0,
                bb_duration_count = 0, bb_last_duration_index = 0, bb_payload_entry_bytes = 0,
                bb_payload_count = 0, bb_last_payload_index = 0, bb_max_value = 0\<rparr>)"

definition builder_is_empty :: "word_block_builder \<Rightarrow> bool" where
  "builder_is_empty b \<longleftrightarrow> bb_words b = []"

definition builder_len :: "word_block_builder \<Rightarrow> nat" where
  "builder_len b = length (bb_words b)"

definition is_at_word_limit :: "word_block_builder \<Rightarrow> bool" where
  "is_at_word_limit b \<longleftrightarrow> cfg_max_words (bb_config b) \<le> length (bb_words b)"

definition is_duration_free :: "word_block_builder \<Rightarrow> bool" where
  "is_duration_free b \<longleftrightarrow> bb_duration_count b = 0"

definition reset_metadata :: "word_block_builder \<Rightarrow> word_block_builder" where
  "reset_metadata b =
     b\<lparr>bb_timestamp_bytes := 0, bb_duration_bytes := 0, bb_duration_count := 0, bb_last_duration_index := 0,
       bb_payload_entry_bytes := 0, bb_payload_count := 0, bb_last_payload_index := 0, bb_max_value := 0\<rparr>"

definition builder_clear :: "word_block_builder \<Rightarrow> word_block_builder" where
  "builder_clear b = reset_metadata (b\<lparr>bb_words := []\<rparr>)"

text \<open>\<open>None\<close> is the panic of an invalid configuration.\<close>

definition empty_like :: "word_block_builder \<Rightarrow> word_block_builder option" where
  "empty_like b = (case builder_new (bb_config b) of Inl _ \<Rightarrow> None | Inr b' \<Rightarrow> Some b')"

section \<open>Extending a block\<close>

text \<open>The local variables of the sizing loop.\<close>

record extend_locals =
  el_accepted :: nat
  el_timestamp_bytes :: nat
  el_duration_bytes :: nat
  el_duration_count :: nat
  el_last_duration_index :: nat
  el_payload_entry_bytes :: nat
  el_payload_count :: nat
  el_last_payload_index :: nat
  el_max_value :: u64
  el_previous_timestamp :: "u64 option"

definition extend_duration :: "nat \<Rightarrow> decoded_word \<Rightarrow> extend_locals \<Rightarrow> nat \<times> nat \<times> nat" where
  "extend_duration next_index word l =
     (if w_duration_ns word = 0 then (el_duration_bytes l, el_duration_count l, el_last_duration_index l)
      else
        let index_delta = (if el_duration_count l = 0 then next_index else next_index - el_last_duration_index l)
        in (el_duration_bytes l + encoded_len (of_nat index_delta) + encoded_len (w_duration_ns word),
            el_duration_count l + 1, next_index))"

definition extend_payload :: "nat \<Rightarrow> decoded_word \<Rightarrow> extend_locals \<Rightarrow> nat \<times> nat \<times> nat" where
  "extend_payload next_index word l =
     (case w_payload word of
        Some payload \<Rightarrow>
          let index_delta = (if el_payload_count l = 0 then next_index else next_index - el_last_payload_index l)
          in (el_payload_entry_bytes l + encoded_len (of_nat index_delta) + 1 +
                encoded_len (of_nat (payload_len payload)) + payload_len payload,
              el_payload_count l + 1, next_index)
      | None \<Rightarrow> (el_payload_entry_bytes l, el_payload_count l, el_last_payload_index l))"

text \<open>A word after the first: refused at a boundary or when the predicted size is too large.\<close>

definition extend_later ::
  "block_codec_config \<Rightarrow> nat \<Rightarrow> u64 \<Rightarrow> u64 \<Rightarrow> decoded_word \<Rightarrow> extend_locals \<Rightarrow> extend_locals option" where
  "extend_later config next_index first_timestamp previous_timestamp word l =
     (let delta = saturating_sub (w_timestamp_ns word) previous_timestamp in
      if cfg_max_words config \<le> next_index \<or> cfg_max_inter_word_gap_ns config < delta \<or>
         cfg_max_timestamp_span_ns config < saturating_sub (w_timestamp_ns word) first_timestamp
      then None
      else
        let next_timestamp_bytes = el_timestamp_bytes l + encoded_len delta;
            next_max_value = max (el_max_value l) (w_value word);
            next_value_bytes = value_width next_max_value;
            (next_duration_bytes, next_duration_count, next_last_duration_index) = extend_duration next_index word l;
            word_count = next_index + 1;
            (next_payload_entry_bytes, next_payload_count, next_last_payload_index) = extend_payload next_index word l;
            record_bytes = next_timestamp_bytes + word_count * next_value_bytes;
            restart_count = div_ceil word_count (cfg_restart_interval config);
            payload_size = (if 0 < next_payload_count
              then encoded_len (of_nat next_payload_count) + next_payload_entry_bytes else 0)
        in if cfg_max_payload_bytes config <
             record_bytes + restart_count * RESTART_ENTRY_SIZE + next_duration_bytes + payload_size
           then None
           else Some (l\<lparr>el_timestamp_bytes := next_timestamp_bytes, el_max_value := next_max_value,
                  el_duration_bytes := next_duration_bytes, el_duration_count := next_duration_count,
                  el_last_duration_index := next_last_duration_index,
                  el_payload_entry_bytes := next_payload_entry_bytes, el_payload_count := next_payload_count,
                  el_last_payload_index := next_last_payload_index\<rparr>))"

text \<open>The first word of a block is always accepted.\<close>

definition extend_first :: "decoded_word \<Rightarrow> extend_locals \<Rightarrow> extend_locals" where
  "extend_first word l =
     (let l1 = l\<lparr>el_timestamp_bytes := el_timestamp_bytes l + encoded_len 0\<rparr>;
          l2 = (if w_duration_ns word \<noteq> 0
                then l1\<lparr>el_duration_bytes := el_duration_bytes l1 + (encoded_len 0 + encoded_len (w_duration_ns word)),
                        el_duration_count := 1, el_last_duration_index := 0\<rparr>
                else l1);
          l3 = l2\<lparr>el_max_value := w_value word\<rparr>
      in case w_payload word of
           Some payload \<Rightarrow>
             l3\<lparr>el_payload_entry_bytes := encoded_len 0 + 1 + encoded_len (of_nat (payload_len payload)) + payload_len payload,
                el_payload_count := 1, el_last_payload_index := 0\<rparr>
         | None \<Rightarrow> l3)"

fun extend_loop ::
  "block_codec_config \<Rightarrow> nat \<Rightarrow> u64 \<Rightarrow> decoded_word list \<Rightarrow> extend_locals \<Rightarrow> extend_locals" where
  "extend_loop config original_len first_timestamp [] l = l"
| "extend_loop config original_len first_timestamp (word # words) l =
     (let next_index = original_len + el_accepted l;
          step = (case el_previous_timestamp l of
            Some previous_timestamp \<Rightarrow> extend_later config next_index first_timestamp previous_timestamp word l
          | None \<Rightarrow> Some (extend_first word l))
      in case step of
           None \<Rightarrow> l
         | Some l1 \<Rightarrow> extend_loop config original_len first_timestamp words
             (l1\<lparr>el_previous_timestamp := Some (w_timestamp_ns word), el_accepted := el_accepted l1 + 1\<rparr>))"

text \<open>The timestamp of the first word of the extended block; there is one when a word is looked at.\<close>

definition first_timestamp_of :: "word_block_builder \<Rightarrow> decoded_word list \<Rightarrow> u64" where
  "first_timestamp_of b words = w_timestamp_ns (hd (bb_words b @ words))"

definition builder_locals :: "word_block_builder \<Rightarrow> extend_locals" where
  "builder_locals b =
     \<lparr>el_accepted = 0, el_timestamp_bytes = bb_timestamp_bytes b, el_duration_bytes = bb_duration_bytes b,
      el_duration_count = bb_duration_count b, el_last_duration_index = bb_last_duration_index b,
      el_payload_entry_bytes = bb_payload_entry_bytes b, el_payload_count = bb_payload_count b,
      el_last_payload_index = bb_last_payload_index b, el_max_value = bb_max_value b,
      el_previous_timestamp = (if bb_words b = [] then None else Some (w_timestamp_ns (last (bb_words b))))\<rparr>"

definition extend_general :: "word_block_builder \<Rightarrow> decoded_word list \<Rightarrow> nat \<times> word_block_builder" where
  "extend_general b words =
     (let l = extend_loop (bb_config b) (length (bb_words b)) (first_timestamp_of b words) words (builder_locals b)
      in (el_accepted l,
          b\<lparr>bb_timestamp_bytes := el_timestamp_bytes l, bb_duration_bytes := el_duration_bytes l,
            bb_duration_count := el_duration_count l, bb_last_duration_index := el_last_duration_index l,
            bb_payload_entry_bytes := el_payload_entry_bytes l, bb_payload_count := el_payload_count l,
            bb_last_payload_index := el_last_payload_index l, bb_max_value := el_max_value l,
            bb_words := bb_words b @ take (el_accepted l) words\<rparr>))"

definition duration_free_payload_fits_at_max_words :: "word_block_builder \<Rightarrow> bool" where
  "duration_free_payload_fits_at_max_words b \<longleftrightarrow>
     (let max_words = cfg_max_words (bb_config b);
          restart_size = usize_saturating_mul (div_ceil max_words (cfg_restart_interval (bb_config b))) RESTART_ENTRY_SIZE
      in usize_saturating_add (usize_saturating_mul max_words (10 + 8)) restart_size
           \<le> cfg_max_payload_bytes (bb_config b))"

record free_locals =
  fl_accepted :: nat
  fl_timestamp_bytes :: nat
  fl_max_value :: u64
  fl_previous_timestamp :: "u64 option"

fun duration_free_loop :: "block_codec_config \<Rightarrow> u64 \<Rightarrow> decoded_word list \<Rightarrow> free_locals \<Rightarrow> free_locals" where
  "duration_free_loop config first_timestamp [] l = l"
| "duration_free_loop config first_timestamp (word # words) l =
     (let step = (case fl_previous_timestamp l of
          Some previous_timestamp \<Rightarrow>
            let delta = saturating_sub (w_timestamp_ns word) previous_timestamp in
            if cfg_max_inter_word_gap_ns config < delta \<or>
               cfg_max_timestamp_span_ns config < saturating_sub (w_timestamp_ns word) first_timestamp
            then None
            else Some (fl_timestamp_bytes l + (if delta \<le> 0x7f then 1 else encoded_len delta))
        | None \<Rightarrow> Some (fl_timestamp_bytes l + encoded_len 0))
      in case step of
           None \<Rightarrow> l
         | Some timestamp_bytes \<Rightarrow> duration_free_loop config first_timestamp words
             \<lparr>fl_accepted = fl_accepted l + 1, fl_timestamp_bytes = timestamp_bytes,
              fl_max_value = max (fl_max_value l) (w_value word),
              fl_previous_timestamp = Some (w_timestamp_ns word)\<rparr>)"

definition extend_duration_free :: "word_block_builder \<Rightarrow> decoded_word list \<Rightarrow> nat \<times> word_block_builder" where
  "extend_duration_free b words =
     (let l = duration_free_loop (bb_config b) (first_timestamp_of b words) words
            \<lparr>fl_accepted = 0, fl_timestamp_bytes = bb_timestamp_bytes b, fl_max_value = bb_max_value b,
             fl_previous_timestamp = (if bb_words b = [] then None else Some (w_timestamp_ns (last (bb_words b))))\<rparr>
      in (fl_accepted l,
          b\<lparr>bb_timestamp_bytes := fl_timestamp_bytes l, bb_max_value := fl_max_value l,
            bb_words := bb_words b @ take (fl_accepted l) words\<rparr>))"

definition extend_ordered :: "word_block_builder \<Rightarrow> decoded_word list \<Rightarrow> nat \<times> word_block_builder" where
  "extend_ordered b words =
     (let available = cfg_max_words (bb_config b) - length (bb_words b);
          candidates = take (min (length words) available) words
      in if bb_duration_count b = 0 \<and> bb_payload_count b = 0 \<and> duration_free_payload_fits_at_max_words b \<and>
            list_all (\<lambda>word. w_duration_ns word = 0 \<and> is_numeric word) candidates
         then extend_duration_free b candidates
         else extend_general b words)"

section \<open>Encoding\<close>

definition builder_encode :: "word_block_builder \<Rightarrow> u64 \<Rightarrow> (encoded_block_metadata \<times> u8 list) codec_result option" where
  "builder_encode b sequence =
     encode_validated_word_block_with_interval sequence (bb_words b) (cfg_restart_interval (bb_config b))
       (value_width (bb_max_value b)) (bb_timestamp_bytes b)
       (bb_duration_count b = 0 \<and> bb_payload_count b = 0 \<and> bb_max_value b \<le> 0xff \<and>
        bb_timestamp_bytes b = length (bb_words b))"

record encode_word_block_request =
  rq_sequence :: u64
  rq_max_words :: u64
  rq_restart_interval :: u64
  rq_max_payload_bytes :: u64
  rq_max_inter_word_gap_ns :: u64
  rq_max_timestamp_span_ns :: u64
  rq_words :: "decoded_word list"

text \<open>The conversions from 64-bit integers cannot fail in a 64-bit address space.\<close>

definition request_config :: "encode_word_block_request \<Rightarrow> block_codec_config" where
  "request_config r =
     \<lparr>cfg_max_words = unat (rq_max_words r), cfg_restart_interval = unat (rq_restart_interval r),
      cfg_max_payload_bytes = unat (rq_max_payload_bytes r),
      cfg_max_inter_word_gap_ns = rq_max_inter_word_gap_ns r,
      cfg_max_timestamp_span_ns = rq_max_timestamp_span_ns r\<rparr>"

definition encode_owned_word_block ::
  "encode_word_block_request \<Rightarrow> (encoded_block_metadata \<times> u8 list) codec_result option" where
  "encode_owned_word_block request =
     (case builder_new (request_config request) of
        Inl e \<Rightarrow> Some (Inl e)
      | Inr builder \<Rightarrow>
          let (accepted, builder1) = extend_ordered builder (rq_words request)
          in if accepted \<noteq> length (rq_words request)
             then Some (Inl (InvalidConfiguration ''worker word block exceeds its configured bounds''))
             else builder_encode builder1 (rq_sequence request))"

section \<open>Predicted and actual sizes\<close>

definition timestamp_size :: "decoded_word list \<Rightarrow> nat" where
  "timestamp_size ws = sum_list (map (\<lambda>i. encoded_len (delta_at ws i)) [0..<length ws])"

definition duration_size :: "decoded_word list \<Rightarrow> nat" where
  "duration_size ws = length (index_bytes encode_u64 0 (duration_entries ws (length ws)))"

definition payload_entry_size :: "decoded_word list \<Rightarrow> nat" where
  "payload_entry_size ws = length (index_bytes payload_bytes 0 (payload_entries ws (length ws)))"

definition max_word_value :: "decoded_word list \<Rightarrow> u64" where
  "max_word_value ws = fold (\<lambda>w v. max v (w_value w)) ws 0"

definition predicted_size :: "nat \<Rightarrow> decoded_word list \<Rightarrow> nat" where
  "predicted_size ri ws =
     timestamp_size ws + length ws * value_width (max_word_value ws) + div_ceil (length ws) ri * RESTART_ENTRY_SIZE +
     duration_size ws + (if 0 < length (payload_entries ws (length ws))
       then encoded_len (of_nat (length (payload_entries ws (length ws)))) + payload_entry_size ws else 0)"

text \<open>
  The abstract builder: a word is accepted after the words \<open>ws\<close> when it opens the block, or when
  the extended block stays within all bounds; the words of a sequence are accepted one after the
  other until one is refused.
\<close>

definition accepts :: "block_codec_config \<Rightarrow> decoded_word list \<Rightarrow> decoded_word \<Rightarrow> bool" where
  "accepts config ws w \<longleftrightarrow> ws = [] \<or>
     length ws < cfg_max_words config \<and>
     w_timestamp_ns w - w_timestamp_ns (last ws) \<le> cfg_max_inter_word_gap_ns config \<and>
     w_timestamp_ns w - w_timestamp_ns (hd ws) \<le> cfg_max_timestamp_span_ns config \<and>
     predicted_size (cfg_restart_interval config) (ws @ [w]) \<le> cfg_max_payload_bytes config"

fun greedy :: "block_codec_config \<Rightarrow> decoded_word list \<Rightarrow> decoded_word list \<Rightarrow> decoded_word list" where
  "greedy config ws [] = ws"
| "greedy config ws (w # rest) = (if accepts config ws w then greedy config (ws @ [w]) rest else ws)"

text \<open>The bookkeeping of the builder describes the words \<open>ws\<close>.\<close>

definition locals_ok :: "decoded_word list \<Rightarrow> extend_locals \<Rightarrow> bool" where
  "locals_ok ws l \<longleftrightarrow>
     el_timestamp_bytes l = timestamp_size ws \<and>
     el_duration_bytes l = duration_size ws \<and>
     el_duration_count l = length (duration_entries ws (length ws)) \<and>
     el_last_duration_index l = last_index (duration_entries ws (length ws)) \<and>
     el_payload_entry_bytes l = payload_entry_size ws \<and>
     el_payload_count l = length (payload_entries ws (length ws)) \<and>
     el_last_payload_index l = last_index (payload_entries ws (length ws)) \<and>
     el_max_value l = max_word_value ws \<and>
     el_previous_timestamp l = (if ws = [] then None else Some (w_timestamp_ns (last ws)))"

definition builder_inv :: "word_block_builder \<Rightarrow> bool" where
  "builder_inv b \<longleftrightarrow>
     (\<exists>b0. builder_new (bb_config b) = Inr b0) \<and> well_ordered (bb_words b) \<and> locals_ok (bb_words b) (builder_locals b) \<and>
     length (bb_words b) \<le> cfg_max_words (bb_config b) \<and>
     (1 < length (bb_words b) \<longrightarrow>
        predicted_size (cfg_restart_interval (bb_config b)) (bb_words b) \<le> cfg_max_payload_bytes (bb_config b))"

section \<open>One word more\<close>

lemma delta_at_append: "i < length ws \<Longrightarrow> delta_at (ws @ vs) i = delta_at ws i"
  by (cases i) (simp_all add: delta_at_def nth_append)

lemma timestamp_size_snoc: "timestamp_size (ws @ [w]) = timestamp_size ws + encoded_len (delta_at (ws @ [w]) (length ws))"
proof -
  have "map (\<lambda>i. encoded_len (delta_at (ws @ [w]) i)) [0..<length ws] = map (\<lambda>i. encoded_len (delta_at ws i)) [0..<length ws]"
    by (simp add: delta_at_append)
  then show ?thesis by (simp add: timestamp_size_def del: map_eq_conv)
qed

lemma duration_entries_snoc:
  "duration_entries (ws @ [w]) (length (ws @ [w])) = duration_entries ws (length ws) @
     (if w_duration_ns w = 0 then [] else [(length ws, w_duration_ns w)])"
proof -
  have "duration_entries (ws @ [w]) (length ws) = duration_entries ws (length ws)"
    unfolding duration_entries_def by (intro map_cong filter_cong) (auto simp: nth_append)
  then show ?thesis by (simp add: duration_entries_def)
qed

lemma payload_entries_snoc:
  "payload_entries (ws @ [w]) (length (ws @ [w])) = payload_entries ws (length ws) @
     (case w_payload w of None \<Rightarrow> [] | Some p \<Rightarrow> [(length ws, p)])"
proof -
  have "payload_entries (ws @ [w]) (length ws) = payload_entries ws (length ws)"
    unfolding payload_entries_def by (intro map_cong filter_cong) (auto simp: nth_append)
  then show ?thesis by (simp add: payload_entries_def split: option.splits)
qed

lemma length_payload_bytes: "length (payload_bytes p) = 1 + encoded_len (of_nat (payload_len p)) + payload_len p"
  by (cases p) (simp_all add: length_encode_u64)

lemma extend_duration_snoc:
  assumes "locals_ok ws l"
  shows "extend_duration (length ws) w l =
    (duration_size (ws @ [w]), length (duration_entries (ws @ [w]) (length (ws @ [w]))),
     last_index (duration_entries (ws @ [w]) (length (ws @ [w]))))"
  using assms unfolding extend_duration_def duration_size_def duration_entries_snoc locals_ok_def
  by (auto simp: index_bytes_snoc length_encode_u64 last_index_def Let_def)

lemma extend_payload_snoc:
  assumes "locals_ok ws l"
  shows "extend_payload (length ws) w l =
    (payload_entry_size (ws @ [w]), length (payload_entries (ws @ [w]) (length (ws @ [w]))),
     last_index (payload_entries (ws @ [w]) (length (ws @ [w]))))"
  using assms unfolding extend_payload_def payload_entry_size_def payload_entries_snoc locals_ok_def
  by (auto simp: index_bytes_snoc length_encode_u64 length_payload_bytes last_index_def Let_def split: option.splits)

lemma extend_later_snoc:
  assumes "locals_ok ws l" "ws \<noteq> []" "w_timestamp_ns (last ws) \<le> w_timestamp_ns w" "w_timestamp_ns (hd ws) \<le> w_timestamp_ns w"
  shows "(case extend_later config (length ws) (w_timestamp_ns (hd ws)) (w_timestamp_ns (last ws)) w l of
      None \<Rightarrow> \<not> accepts config ws w
    | Some l1 \<Rightarrow> accepts config ws w \<and> el_accepted l1 = el_accepted l \<and>
        locals_ok (ws @ [w]) (l1\<lparr>el_previous_timestamp := Some (w_timestamp_ns w), el_accepted := k\<rparr>))"
proof -
  have d: "delta_at (ws @ [w]) (length ws) = w_timestamp_ns w - w_timestamp_ns (last ws)"
    using assms(2) by (simp add: delta_at_def nth_append last_conv_nth)
  have s: "saturating_sub (w_timestamp_ns w) (w_timestamp_ns (last ws)) = w_timestamp_ns w - w_timestamp_ns (last ws)"
    "saturating_sub (w_timestamp_ns w) (w_timestamp_ns (hd ws)) = w_timestamp_ns w - w_timestamp_ns (hd ws)"
    using assms(3,4) by (simp_all add: saturating_sub_def)
  have m: "max_word_value (ws @ [w]) = max (max_word_value ws) (w_value w)" by (simp add: max_word_value_def)
  show ?thesis
    unfolding extend_later_def Let_def s extend_duration_snoc [OF assms(1)] extend_payload_snoc [OF assms(1)] prod.case
    using assms(1,2) by (auto simp: locals_ok_def accepts_def predicted_size_def timestamp_size_snoc d m not_le not_less)
qed

lemma extend_first_ok:
  assumes "locals_ok [] l"
  shows "locals_ok [w] ((extend_first w l)\<lparr>el_previous_timestamp := Some (w_timestamp_ns w), el_accepted := k\<rparr>)"
    "el_accepted (extend_first w l) = el_accepted l"
proof -
  have e: "duration_entries [w] 1 = (if w_duration_ns w = 0 then [] else [(0, w_duration_ns w)])"
    "payload_entries [w] 1 = (case w_payload w of None \<Rightarrow> [] | Some p \<Rightarrow> [(0, p)])"
    by (auto simp: duration_entries_def payload_entries_def split: option.splits)
  have n: "duration_entries [] 0 = []" "payload_entries [] 0 = []" by (simp_all add: duration_entries_def payload_entries_def)
  show "locals_ok [w] ((extend_first w l)\<lparr>el_previous_timestamp := Some (w_timestamp_ns w), el_accepted := k\<rparr>)"
    using assms e n
    by (auto simp: locals_ok_def extend_first_def Let_def timestamp_size_def duration_size_def payload_entry_size_def
        max_word_value_def delta_at_def length_encode_u64 length_payload_bytes last_index_def split: option.splits)
  show "el_accepted (extend_first w l) = el_accepted l"
    by (auto simp: extend_first_def Let_def split: option.splits)
qed

lemma well_ordered_snocD:
  assumes "well_ordered (ws @ w # rest)" "ws \<noteq> []"
  shows "w_timestamp_ns (last ws) \<le> w_timestamp_ns w" "w_timestamp_ns (hd ws) \<le> w_timestamp_ns w"
  using assms by (auto simp: well_ordered_def sorted_append)

lemma extend_loop_greedy:
  assumes "well_ordered (ws @ words)" "locals_ok ws l" "length ws = original_len + el_accepted l"
    and "words \<noteq> [] \<Longrightarrow> first = w_timestamp_ns (hd (ws @ words))"
  shows "\<exists>k \<le> length words. greedy config ws words = ws @ take k words \<and>
    el_accepted (extend_loop config original_len first words l) = el_accepted l + k \<and>
    locals_ok (ws @ take k words) (extend_loop config original_len first words l)"
  using assms
proof (induction words arbitrary: ws l)
  case (Cons w rest)
  let ?next = "\<lambda>l1. l1\<lparr>el_previous_timestamp := Some (w_timestamp_ns w), el_accepted := el_accepted l + 1\<rparr>"
  have step: "\<exists>k \<le> length (w # rest). greedy config ws (w # rest) = ws @ take k (w # rest) \<and>
      el_accepted (extend_loop config original_len first (w # rest) l) = el_accepted l + k \<and>
      locals_ok (ws @ take k (w # rest)) (extend_loop config original_len first (w # rest) l)"
    if "accepts config ws w" "locals_ok (ws @ [w]) (?next l1)" "el_accepted l1 = el_accepted l"
      "extend_loop config original_len first (w # rest) l = extend_loop config original_len first rest (?next l1)" for l1
  proof -
    have "first = w_timestamp_ns (hd ((ws @ [w]) @ rest))" using Cons.prems(4) by simp
    with Cons.IH [of "ws @ [w]" "?next l1"] that Cons.prems(1,3) obtain k where "k \<le> length rest"
      "greedy config (ws @ [w]) rest = (ws @ [w]) @ take k rest"
      "el_accepted (extend_loop config original_len first rest (?next l1)) = el_accepted l + 1 + k"
      "locals_ok ((ws @ [w]) @ take k rest) (extend_loop config original_len first rest (?next l1))" by auto
    with that show ?thesis by (intro exI [of _ "Suc k"]) simp
  qed
  show ?case
  proof (cases "ws = []")
    case True
    with Cons.prems(2) have "el_previous_timestamp l = None" "locals_ok [] l" by (auto simp: locals_ok_def)
    with extend_first_ok(1) [of l w "el_accepted l + 1"] extend_first_ok(2) [of l w] True show ?thesis
      by (intro step [of "extend_first w l"]) (simp_all add: accepts_def)
  next
    case False
    have p: "el_previous_timestamp l = Some (w_timestamp_ns (last ws))" using Cons.prems(2) False by (simp add: locals_ok_def)
    have f: "first = w_timestamp_ns (hd ws)" using Cons.prems(4) False by simp
    note later = extend_later_snoc [OF Cons.prems(2) False well_ordered_snocD [OF Cons.prems(1) False], of config "el_accepted l + 1"]
    show ?thesis
    proof (cases "extend_later config (length ws) first (w_timestamp_ns (last ws)) w l")
      case None
      then show ?thesis using later p Cons.prems(2,3) f by (intro exI [of _ 0]) simp
    next
      case (Some l1)
      then show ?thesis using later p Cons.prems(3) f by (intro step [of l1]) simp_all
    qed
  qed
qed simp

lemma greedy_inv:
  assumes "length ws \<le> cfg_max_words config" "0 < cfg_max_words config"
    "1 < length ws \<Longrightarrow> predicted_size (cfg_restart_interval config) ws \<le> cfg_max_payload_bytes config"
  shows "length (greedy config ws words) \<le> cfg_max_words config \<and>
    (1 < length (greedy config ws words) \<longrightarrow>
       predicted_size (cfg_restart_interval config) (greedy config ws words) \<le> cfg_max_payload_bytes config)"
  using assms(1,3)
proof (induction words arbitrary: ws)
  case (Cons w words)
  show ?case
  proof (cases "accepts config ws w")
    case True
    with Cons.IH [of "ws @ [w]"] assms(2) show ?thesis by (auto simp: accepts_def)
  qed (use Cons.prems in simp)
qed simp

lemma extend_general_greedy:
  assumes "builder_inv b" "well_ordered (bb_words b @ words)"
  shows "bb_words (snd (extend_general b words)) = greedy (bb_config b) (bb_words b) words \<and>
    fst (extend_general b words) = length (greedy (bb_config b) (bb_words b) words) - length (bb_words b) \<and>
    bb_config (snd (extend_general b words)) = bb_config b \<and> builder_inv (snd (extend_general b words))"
proof -
  let ?l = "extend_loop (bb_config b) (length (bb_words b)) (first_timestamp_of b words) words (builder_locals b)"
  note inv = assms(1) [unfolded builder_inv_def]
  from extend_loop_greedy [of "bb_words b" words "builder_locals b" "length (bb_words b)" "first_timestamp_of b words" "bb_config b"]
  obtain k where k: "k \<le> length words" "greedy (bb_config b) (bb_words b) words = bb_words b @ take k words"
    "el_accepted ?l = k" "locals_ok (bb_words b @ take k words) ?l"
    using assms(2) inv by (auto simp: builder_locals_def first_timestamp_of_def)
  have ordered: "well_ordered (bb_words b @ take k words)"
    using assms(2) by (metis append.assoc append_take_drop_id map_append sorted_append well_ordered_def)
  have pos: "0 < cfg_max_words (bb_config b)" using inv by (auto simp: builder_new_def split: if_splits)
  show ?thesis
    using k ordered inv greedy_inv [OF _ pos, of "bb_words b" words]
    by (auto simp: extend_general_def Let_def builder_inv_def locals_ok_def builder_locals_def)
qed

section \<open>The duration-free path\<close>

definition duration_free :: "decoded_word list \<Rightarrow> bool" where
  "duration_free ws \<longleftrightarrow> list_all (\<lambda>word. w_duration_ns word = 0 \<and> is_numeric word) ws"

lemma duration_free_entries:
  "duration_free ws \<longleftrightarrow> duration_entries ws (length ws) = [] \<and> payload_entries ws (length ws) = []"
  by (auto simp: duration_free_def duration_entries_def payload_entries_def is_numeric_def filter_empty_conv
      list_all_length)

lemma duration_free_append [simp]: "duration_free (ws @ vs) \<longleftrightarrow> duration_free ws \<and> duration_free vs"
  by (simp add: duration_free_def)

lemma timestamp_size_bound: "timestamp_size ws \<le> 10 * length ws"
  using raw_len_bound [of "map (delta_at ws) [0..<length ws]"] by (simp add: timestamp_size_def comp_def)

lemma div_ceil_mono: "a \<le> b \<Longrightarrow> div_ceil a n \<le> div_ceil b n"
  unfolding div_ceil_def by (intro div_le_mono) simp

lemma predicted_size_free:
  assumes "duration_free ws" "length ws \<le> m"
  shows "predicted_size ri ws \<le> m * 18 + div_ceil m ri * RESTART_ENTRY_SIZE"
proof -
  have "length ws * value_width (max_word_value ws) \<le> length ws * 8"
    using value_width_cases [of "max_word_value ws"] by (intro mult_le_mono2) auto
  moreover have "div_ceil (length ws) ri * RESTART_ENTRY_SIZE \<le> div_ceil m ri * RESTART_ENTRY_SIZE"
    by (intro mult_le_mono1 div_ceil_mono assms(2))
  moreover have "predicted_size ri ws = timestamp_size ws + length ws * value_width (max_word_value ws) +
      div_ceil (length ws) ri * RESTART_ENTRY_SIZE"
    using assms(1) by (simp add: duration_free_entries predicted_size_def duration_size_def)
  ultimately show ?thesis using timestamp_size_bound [of ws] assms(2) by linarith
qed

lemma fits_at_max_words:
  assumes "builder_new (bb_config b) = Inr b0" "duration_free_payload_fits_at_max_words b"
    and "duration_free ws" "length ws \<le> cfg_max_words (bb_config b)"
  shows "predicted_size (cfg_restart_interval (bb_config b)) ws \<le> cfg_max_payload_bytes (bb_config b)"
proof -
  let ?m = "cfg_max_words (bb_config b)" and ?ri = "cfg_restart_interval (bb_config b)"
  have m: "?m \<le> 2 ^ 32 - 1" "0 < ?ri" using assms(1) by (auto simp: builder_new_def split: if_splits)
  have "div_ceil ?m ?ri \<le> ?m"
    using m(2) less_div_ceil [OF m(2), of ?m ?m] by (cases "?m < div_ceil ?m ?ri") auto
  with assms(2) m(1) have "?m * 18 + div_ceil ?m ?ri * RESTART_ENTRY_SIZE \<le> cfg_max_payload_bytes (bb_config b)"
    by (simp add: duration_free_payload_fits_at_max_words_def Let_def usize_saturating_add_def usize_saturating_mul_def
        RESTART_ENTRY_SIZE_def)
  with predicted_size_free [OF assms(3,4), of ?ri] show ?thesis by linarith
qed

lemma encoded_len_small: "delta \<le> 0x7f \<Longrightarrow> encoded_len delta = 1"
  using length_encode_u64 [of delta] by (simp add: encode_u64_small)

lemma duration_free_loop_greedy:
  assumes "well_ordered (ws @ words)" "duration_free (ws @ words)" "length ws + length words \<le> cfg_max_words config"
    and "\<And>vs. duration_free vs \<Longrightarrow> length vs \<le> cfg_max_words config \<Longrightarrow>
      predicted_size (cfg_restart_interval config) vs \<le> cfg_max_payload_bytes config"
    and "words \<noteq> [] \<Longrightarrow> first = w_timestamp_ns (hd (ws @ words))"
    and "fl_timestamp_bytes l = timestamp_size ws" "fl_max_value l = max_word_value ws"
      "fl_previous_timestamp l = (if ws = [] then None else Some (w_timestamp_ns (last ws)))"
  shows "\<exists>k \<le> length words. greedy config ws words = ws @ take k words \<and>
    fl_accepted (duration_free_loop config first words l) = fl_accepted l + k \<and>
    fl_timestamp_bytes (duration_free_loop config first words l) = timestamp_size (ws @ take k words) \<and>
    fl_max_value (duration_free_loop config first words l) = max_word_value (ws @ take k words)"
  using assms
proof (induction words arbitrary: ws l)
  case (Cons w rest)
  have m: "max_word_value (ws @ [w]) = max (max_word_value ws) (w_value w)" by (simp add: max_word_value_def)
  have fits: "predicted_size (cfg_restart_interval config) (ws @ [w]) \<le> cfg_max_payload_bytes config"
    using Cons.prems(2,3) by (intro Cons.prems(4)) (simp_all add: duration_free_def)
  let ?ts = "\<lambda>t. \<lparr>fl_accepted = fl_accepted l + 1, fl_timestamp_bytes = t,
      fl_max_value = max (fl_max_value l) (w_value w), fl_previous_timestamp = Some (w_timestamp_ns w)\<rparr>"
  have step: ?case if "accepts config ws w"
    "duration_free_loop config first (w # rest) l = duration_free_loop config first rest (?ts (timestamp_size (ws @ [w])))"
  proof -
    have "first = w_timestamp_ns (hd ((ws @ [w]) @ rest))" using Cons.prems(5) by simp
    with Cons.IH [of "ws @ [w]" "?ts (timestamp_size (ws @ [w]))"] Cons.prems(1-4,7) m obtain k where "k \<le> length rest"
      "greedy config (ws @ [w]) rest = (ws @ [w]) @ take k rest"
      "fl_accepted (duration_free_loop config first rest (?ts (timestamp_size (ws @ [w])))) = fl_accepted l + 1 + k"
      "fl_timestamp_bytes (duration_free_loop config first rest (?ts (timestamp_size (ws @ [w])))) = timestamp_size ((ws @ [w]) @ take k rest)"
      "fl_max_value (duration_free_loop config first rest (?ts (timestamp_size (ws @ [w])))) = max_word_value ((ws @ [w]) @ take k rest)"
      by auto
    with that show ?thesis by (intro exI [of _ "Suc k"]) simp
  qed
  show ?case
  proof (cases "ws = []")
    case True
    have "timestamp_size [w] = encoded_len 0" "timestamp_size [] = 0" by (simp_all add: timestamp_size_def delta_at_def)
    with True Cons.prems(6,8) show ?thesis by (intro step) (simp_all add: accepts_def)
  next
    case False
    let ?delta = "w_timestamp_ns w - w_timestamp_ns (last ws)"
    note le = well_ordered_snocD [OF Cons.prems(1) False]
    have s: "saturating_sub (w_timestamp_ns w) (w_timestamp_ns (last ws)) = ?delta"
      "saturating_sub (w_timestamp_ns w) first = w_timestamp_ns w - w_timestamp_ns (hd ws)"
      using le Cons.prems(5) False by (simp_all add: saturating_sub_def)
    have ts: "timestamp_size (ws @ [w]) = timestamp_size ws + (if ?delta \<le> 0x7f then 1 else encoded_len ?delta)"
      using False by (simp add: timestamp_size_snoc delta_at_def nth_append last_conv_nth encoded_len_small)
    have acc: "accepts config ws w \<longleftrightarrow> ?delta \<le> cfg_max_inter_word_gap_ns config \<and>
        w_timestamp_ns w - w_timestamp_ns (hd ws) \<le> cfg_max_timestamp_span_ns config"
      using fits False Cons.prems(3) by (auto simp: accepts_def)
    have p: "fl_previous_timestamp l = Some (w_timestamp_ns (last ws))" using Cons.prems(8) False by simp
    show ?thesis
    proof (cases "accepts config ws w")
      case True
      then show ?thesis by (intro step) (use acc s ts p Cons.prems(6) in \<open>auto simp: Let_def not_less\<close>)
    next
      case False
      then have "duration_free_loop config first (w # rest) l = l" using acc p s by (auto simp: Let_def)
      with False Cons.prems(6,7) show ?thesis by (intro exI [of _ 0]) simp
    qed
  qed
qed simp

lemma greedy_take:
  "0 < cfg_max_words config \<Longrightarrow>
   greedy config ws words = greedy config ws (take (min (length words) (cfg_max_words config - length ws)) words)"
proof (induction words arbitrary: ws)
  case (Cons w words)
  show ?case
  proof (cases "length ws < cfg_max_words config")
    case True
    then obtain n where n: "cfg_max_words config - length ws = Suc n" "cfg_max_words config - length (ws @ [w]) = n"
      by (metis Suc_diff_Suc diff_Suc_Suc length_append_singleton)
    with Cons.IH [of "ws @ [w]"] Cons.prems show ?thesis by simp
  next
    case False
    then have "\<not> accepts config ws w" using Cons.prems by (auto simp: accepts_def)
    with False show ?thesis by simp
  qed
qed simp

lemma extend_duration_free_greedy:
  assumes "builder_inv b" "well_ordered (bb_words b @ words)" "duration_free words"
    and "bb_duration_count b = 0" "bb_payload_count b = 0" "duration_free_payload_fits_at_max_words b"
    and "length (bb_words b) + length words \<le> cfg_max_words (bb_config b)"
  shows "bb_words (snd (extend_duration_free b words)) = greedy (bb_config b) (bb_words b) words \<and>
    fst (extend_duration_free b words) = length (greedy (bb_config b) (bb_words b) words) - length (bb_words b) \<and>
    bb_config (snd (extend_duration_free b words)) = bb_config b \<and> builder_inv (snd (extend_duration_free b words))"
proof -
  note inv = assms(1) [unfolded builder_inv_def]
  let ?init = "\<lparr>fl_accepted = 0, fl_timestamp_bytes = bb_timestamp_bytes b, fl_max_value = bb_max_value b,
      fl_previous_timestamp = (if bb_words b = [] then None else Some (w_timestamp_ns (last (bb_words b))))\<rparr>"
  let ?l = "duration_free_loop (bb_config b) (first_timestamp_of b words) words ?init"
  obtain b0 where b0: "builder_new (bb_config b) = Inr b0" using inv by blast
  have free: "duration_free (bb_words b)"
    using inv assms(4,5) by (simp add: duration_free_entries locals_ok_def builder_locals_def)
  have "\<exists>k \<le> length words. greedy (bb_config b) (bb_words b) words = bb_words b @ take k words \<and>
      fl_accepted ?l = fl_accepted ?init + k \<and> fl_timestamp_bytes ?l = timestamp_size (bb_words b @ take k words) \<and>
      fl_max_value ?l = max_word_value (bb_words b @ take k words)"
    by (rule duration_free_loop_greedy)
      (use assms(2,3,7) inv free fits_at_max_words [OF b0 assms(6)] in
        \<open>simp_all add: first_timestamp_of_def locals_ok_def builder_locals_def\<close>)
  then obtain k where k: "k \<le> length words" "greedy (bb_config b) (bb_words b) words = bb_words b @ take k words"
    "fl_accepted ?l = k" "fl_timestamp_bytes ?l = timestamp_size (bb_words b @ take k words)"
    "fl_max_value ?l = max_word_value (bb_words b @ take k words)" by auto
  have ordered: "well_ordered (bb_words b @ take k words)"
    using assms(2) by (metis append.assoc append_take_drop_id map_append sorted_append well_ordered_def)
  have "duration_free (bb_words b @ take k words)"
    using free assms(3) by (auto simp: duration_free_def list_all_iff dest: in_set_takeD)
  then have e: "duration_entries (bb_words b @ take k words) (length (bb_words b @ take k words)) = []"
    "payload_entries (bb_words b @ take k words) (length (bb_words b @ take k words)) = []"
    by (simp_all only: duration_free_entries)
  have e0: "duration_entries (bb_words b) (length (bb_words b)) = []" "payload_entries (bb_words b) (length (bb_words b)) = []"
    using free by (simp_all add: duration_free_entries)
  have locals: "locals_ok (bb_words b @ take k words) (builder_locals (snd (extend_duration_free b words)))"
    using k inv unfolding locals_ok_def builder_locals_def duration_size_def payload_entry_size_def e e0
    by (simp add: extend_duration_free_def Let_def)
  have pos: "0 < cfg_max_words (bb_config b)" using b0 by (auto simp: builder_new_def split: if_splits)
  from greedy_inv [OF _ pos, of "bb_words b" words] inv k(2)
  have bounds: "length (bb_words b @ take k words) \<le> cfg_max_words (bb_config b) \<and>
      (1 < length (bb_words b @ take k words) \<longrightarrow>
        predicted_size (cfg_restart_interval (bb_config b)) (bb_words b @ take k words) \<le> cfg_max_payload_bytes (bb_config b))"
    by (simp only:) simp
  have fields: "bb_words (snd (extend_duration_free b words)) = bb_words b @ take k words"
    "bb_config (snd (extend_duration_free b words)) = bb_config b" "fst (extend_duration_free b words) = k"
    using k(3) by (simp_all add: extend_duration_free_def Let_def)
  show ?thesis
    unfolding builder_inv_def fields k(2) using locals bounds ordered b0 k(1) by (simp only:) simp
qed

lemma extend_ordered_greedy:
  assumes "builder_inv b" "well_ordered (bb_words b @ words)"
  shows "bb_words (snd (extend_ordered b words)) = greedy (bb_config b) (bb_words b) words \<and>
    fst (extend_ordered b words) = length (greedy (bb_config b) (bb_words b) words) - length (bb_words b) \<and>
    bb_config (snd (extend_ordered b words)) = bb_config b \<and> builder_inv (snd (extend_ordered b words))"
proof -
  let ?c = "take (min (length words) (cfg_max_words (bb_config b) - length (bb_words b))) words"
  have pos: "0 < cfg_max_words (bb_config b)"
    using assms(1) by (auto simp: builder_inv_def builder_new_def split: if_splits)
  have ordered: "well_ordered (bb_words b @ ?c)"
    using assms(2) by (metis append.assoc append_take_drop_id map_append sorted_append well_ordered_def)
  show ?thesis
  proof (cases "bb_duration_count b = 0 \<and> bb_payload_count b = 0 \<and> duration_free_payload_fits_at_max_words b \<and> duration_free ?c")
    case True
    then have "extend_ordered b words = extend_duration_free b ?c"
      by (simp add: extend_ordered_def Let_def duration_free_def)
    moreover have "length (bb_words b) + length ?c \<le> cfg_max_words (bb_config b)"
      using assms(1) by (auto simp: builder_inv_def)
    ultimately show ?thesis
      using extend_duration_free_greedy [OF assms(1) ordered] True greedy_take [OF pos, of "bb_words b" words] by simp
  next
    case False
    then have "extend_ordered b words = extend_general b words"
      unfolding extend_ordered_def Let_def duration_free_def by (simp only: if_False)
    with extend_general_greedy [OF assms] show ?thesis by simp
  qed
qed

section \<open>Encoding what the builder holds\<close>

lemma length_records_upto:
  assumes "vb \<le> 8"
  shows "length (records_upto vb ws i) = sum_list (map (\<lambda>i. encoded_len (delta_at ws i)) [0..<i]) + i * vb"
proof (induction i)
  case (Suc i)
  then show ?case using assms by (simp add: records_upto_Suc record_at_def length_encode_u64)
qed (simp add: records_upto_def)

lemma sum_list_all_one:
  "sum_list (map f xs) = length xs \<Longrightarrow> (\<And>x. x \<in> set xs \<Longrightarrow> 1 \<le> f x) \<Longrightarrow> x \<in> set xs \<Longrightarrow> f x = (1 :: nat)"
proof (induction xs)
  case (Cons y ys)
  have "length ys \<le> sum_list (map f ys)"
    using sum_list_mono [of ys "\<lambda>_. 1" f] Cons.prems(2) by (simp add: sum_list_triv)
  moreover have "1 \<le> f y" using Cons.prems(2) by simp
  ultimately have "f y = 1" "sum_list (map f ys) = length ys" using Cons.prems(1) by simp_all
  with Cons show ?case by auto
qed simp

lemma encoded_len_one: "encoded_len v = 1 \<Longrightarrow> v \<le> 0x7f"
proof -
  assume "encoded_len v = 1"
  then have "max 1 (bit_length (unat v)) \<le> 7" by (simp add: significant_bits div_ceil_def)
  then have "bit_length (unat v) \<le> 7" by simp
  then have "unat v div 2 ^ 7 = 0" using bit_length_div_pow [of "unat v" 7] bit_length_Suc_div [of "unat v div 2 ^ 7"] by linarith
  then show ?thesis by (simp add: word_le_nat_alt)
qed

lemma max_word_value_ge: "w \<in> set ws \<Longrightarrow> w_value w \<le> max_word_value ws"
proof (induction ws rule: rev_induct)
  case (snoc v ws)
  have "max_word_value (ws @ [v]) = max (max_word_value ws) (w_value v)" by (simp add: max_word_value_def)
  with snoc show ?case by (auto simp: max_def)
qed simp

definition dense_byte_words :: "word_block_builder \<Rightarrow> bool" where
  "dense_byte_words b \<longleftrightarrow> bb_duration_count b = 0 \<and> bb_payload_count b = 0 \<and> bb_max_value b \<le> 0xff \<and>
     bb_timestamp_bytes b = length (bb_words b)"

lemma builder_encodable:
  assumes "builder_inv b" "bb_words b \<noteq> []"
    and "\<And>w p. w \<in> set (bb_words b) \<Longrightarrow> w_payload w = Some p \<Longrightarrow> valid_payload p"
  shows "encodable (bb_words b) (cfg_restart_interval (bb_config b)) (value_width (bb_max_value b)) (dense_byte_words b)"
proof -
  note inv = assms(1) [unfolded builder_inv_def locals_ok_def builder_locals_def, simplified]
  have cfg: "0 < cfg_restart_interval (bb_config b)" "cfg_max_words (bb_config b) < 2 ^ 32"
    using assms(1) by (auto simp: builder_inv_def builder_new_def split: if_splits)
  have "unat (w_value w) < 2 ^ (8 * value_width (bb_max_value b))" if "w \<in> set (bb_words b)" for w
    using value_width_fits [OF max_word_value_ge [OF that]] inv by simp
  moreover have "value_width (bb_max_value b) = 1 \<and> duration_free (bb_words b) \<and>
      (\<forall>i < length (bb_words b). delta_at (bb_words b) i \<le> 0x7f)" if dense: "dense_byte_words b"
  proof (intro conjI allI impI)
    show "value_width (bb_max_value b) = 1" using dense by (simp add: dense_byte_words_def value_width_def)
    show "duration_free (bb_words b)" using dense inv by (simp add: dense_byte_words_def duration_free_entries)
    fix i assume i: "i < length (bb_words b)"
    have "sum_list (map (\<lambda>i. encoded_len (delta_at (bb_words b) i)) [0..<length (bb_words b)]) = length [0..<length (bb_words b)]"
      using dense inv by (simp add: dense_byte_words_def timestamp_size_def)
    then have "encoded_len (delta_at (bb_words b) i) = 1"
      by (rule sum_list_all_one) (use i encoded_len_bounds in auto)
    then show "delta_at (bb_words b) i \<le> 0x7f" by (rule encoded_len_one)
  qed
  ultimately show ?thesis
    using assms(2,3) inv cfg value_width_cases [of "bb_max_value b"]
    by (simp add: encodable_def duration_free_def list_all_iff is_numeric_def)
qed

definition payloads_valid :: "decoded_word list \<Rightarrow> bool" where
  "payloads_valid ws \<longleftrightarrow> list_all (\<lambda>w. case w_payload w of None \<Rightarrow> True | Some p \<Rightarrow> valid_payload p) ws"

lemma payloads_validD: "payloads_valid ws \<Longrightarrow> w \<in> set ws \<Longrightarrow> w_payload w = Some p \<Longrightarrow> valid_payload p"
  by (auto simp: payloads_valid_def list_all_iff split: option.splits)

text \<open>The encoder succeeds when the predicted size leaves room for the header below four gigabytes.\<close>

lemma encode_body_total:
  assumes "encodable words ri vb dense" "timestamp_size words + length words * vb < 2 ^ 32" "tb = timestamp_size words"
  obtains grouped st where "encode_body words ri vb tb dense = Inr (grouped, st)"
    "length (es_records st) \<le> timestamp_size words + length words * vb"
proof -
  note e = assms(1) [unfolded encodable_def]
  have len: "length (records_upto vb words (length words)) = timestamp_size words + length words * vb"
    using length_records_upto [of vb words "length words"] e by (auto simp: timestamp_size_def)
  have "\<exists>grouped st. encode_body words ri vb tb dense = Inr (grouped, st)"
  proof (cases dense)
    case True
    then show ?thesis by (auto simp: encode_body_def Let_def split: option.splits prod.splits)
  next
    case False
    have "encode_words ri vb 0 words (encode_start words) = Inr (state_at ri vb words (length words))"
      using encode_words_total [of ri words "length words" vb 0] state_at_0 [of words ri vb] e len assms(2) by simp
    with False show ?thesis by (auto simp: encode_body_def)
  qed
  then obtain grouped st where r: "encode_body words ri vb tb dense = Inr (grouped, st)" by blast
  have "length (es_records st) \<le> timestamp_size words + length words * vb"
  proof (cases grouped)
    case False
    then show ?thesis using encode_body_layout [OF assms(1) r] len by (simp add: body_layout_def record_layout_def)
  next
    case True
    with r have "dense \<and> length (es_records st) < usize_saturating_add tb (length words)"
      by (auto simp: encode_body_def encode_grouped_dense_records_def Let_def elim!: and_then_InrE
          split: option.splits prod.splits if_splits)
    then show ?thesis using e assms(3) by (auto simp: usize_saturating_add_def)
  qed
  with r that show thesis by blast
qed

lemma encode_header_total:
  assumes "BLOCK_HEADER_SIZE + length (es_records st) + length (es_restarts st) * RESTART_ENTRY_SIZE +
      length (es_durations st) + length (es_payloads st) + 7 < 2 ^ 32" "es_duration_count st < 2 ^ 32"
  shows "\<exists>block_len header. encode_header sequence words vb grouped st = Inr (block_len, header)"
proof -
  define unpadded where "unpadded = BLOCK_HEADER_SIZE + length (es_records st) + length (es_restarts st) * RESTART_ENTRY_SIZE +
      length (es_durations st) + length (es_payloads st)"
  have "unpadded + 7 - (unpadded + 7) mod 8 < 2 ^ 32" using assms(1) unpadded_def by linarith
  moreover have "length (es_restarts st) < 2 ^ 32" using assms(1) unfolding RESTART_ENTRY_SIZE_def by linarith
  ultimately show ?thesis
    using assms
    by (simp add: encode_header_def Let_def usize_checked_add_def checked_def to_u32_def unpadded_def)
qed

lemma encode_total:
  assumes "encodable words ri vb dense" "tb = timestamp_size words" "vb = value_width (max_word_value words)"
    and "predicted_size ri words + BLOCK_HEADER_SIZE + 7 < 2 ^ 32"
  shows "\<exists>m out. encode_validated_word_block_with_interval sequence words ri vb tb dense = Some (Inr (m, out)) \<and>
    length out \<le> predicted_size ri words + BLOCK_HEADER_SIZE + 7"
proof -
  note e = assms(1) [unfolded encodable_def]
  let ?n = "length words"
  have "timestamp_size words + ?n * vb < 2 ^ 32" using assms(3,4) by (simp add: predicted_size_def)
  from encode_body_total [OF assms(1) this assms(2)] obtain grouped st where r:
    "encode_body words ri vb tb dense = Inr (grouped, st)"
    "length (es_records st) \<le> timestamp_size words + ?n * vb" by blast
  note l = encode_body_layout [OF assms(1) r(1), unfolded body_layout_def]
  have payloads: "length (es_payloads st) = (if 0 < length (payload_entries words ?n)
      then encoded_len (of_nat (length (payload_entries words ?n))) + payload_entry_size words else 0)"
    using l by (auto simp: prefix_bytes_def count_payloads_entries payload_entry_size_def length_encode_u64)
  have size: "length (es_records st) + length (es_restarts st) * RESTART_ENTRY_SIZE + length (es_durations st) +
      length (es_payloads st) \<le> predicted_size ri words"
    unfolding payloads predicted_size_def using r(2) l assms(3) by (simp add: duration_size_def)
  have "length (duration_entries words ?n) \<le> ?n"
    by (simp add: duration_entries_def) (metis length_filter_le length_upt minus_nat.diff_0)
  then have "es_duration_count st < 2 ^ 32" using l e by simp
  with encode_header_total [of st sequence words vb grouped] size assms(4) obtain block_len header where h:
    "encode_header sequence words vb grouped st = Inr (block_len, header)" by auto
  note hd = encode_headerD [OF h]
  note o = encode_output_drop [OF refl hd(8)]
  have len: "BLOCK_HEADER_SIZE \<le> length (encode_output st block_len)" using o(1) hd(8) by simp
  then obtain out1 where o1: "write_to header (encode_output st block_len) = Some out1" by (simp add: write_to_def)
  note w1 = write_to_SomeD(1,2) [OF o1]
  then have "BLOCK_CHECKSUM_OFFSET + 4 \<le> length out1" by (simp add: block_consts)
  then obtain crc where crc: "block_checksum out1 BLOCK_CHECKSUM_OFFSET = Some crc" by (simp add: block_checksum_def)
  obtain out2 where o2: "write_to (header\<lparr>h_crc32c := crc\<rparr>) out1 = Some out2" using w1 by (simp add: write_to_def)
  have "length out2 \<le> predicted_size ri words + BLOCK_HEADER_SIZE + 7"
    using write_to_SomeD(2) [OF o2] w1(2) o(1) hd(9) size by simp
  moreover have "encode_validated_word_block_with_interval sequence words ri vb tb dense =
      Some (Inr (\<lparr>m_header = header\<lparr>h_crc32c := crc\<rparr>, m_restarts = es_restarts st\<rparr>, out2))"
    using e r(1) h o1 crc o2 by (simp add: encode_validated_word_block_with_interval_def)
  ultimately show ?thesis by blast
qed

lemma encoding_total:
  assumes "builder_inv b" "bb_words b \<noteq> []" "payloads_valid (bb_words b)"
    and "predicted_size (cfg_restart_interval (bb_config b)) (bb_words b) + BLOCK_HEADER_SIZE + 7 < 2 ^ 32"
  obtains m out where "builder_encode b sequence = Some (Inr (m, out))"
    "length out \<le> predicted_size (cfg_restart_interval (bb_config b)) (bb_words b) + BLOCK_HEADER_SIZE + 7"
    "decode_word_block out = Inr \<lparr>db_header = m_header m, db_restarts = m_restarts m, db_words = bb_words b\<rparr>"
proof -
  have e: "encodable (bb_words b) (cfg_restart_interval (bb_config b)) (value_width (bb_max_value b)) (dense_byte_words b)"
    using assms(1-3) payloads_validD by (intro builder_encodable) blast+
  have f: "bb_timestamp_bytes b = timestamp_size (bb_words b)" "bb_max_value b = max_word_value (bb_words b)"
    using assms(1) by (simp_all add: builder_inv_def locals_ok_def builder_locals_def)
  from encode_total [OF e f(1) _ assms(4), of sequence] f(2) obtain m out where
    enc: "builder_encode b sequence = Some (Inr (m, out))"
    and len: "length out \<le> predicted_size (cfg_restart_interval (bb_config b)) (bb_words b) + BLOCK_HEADER_SIZE + 7"
    unfolding builder_encode_def dense_byte_words_def by auto
  from enc have "decode_word_block out =
      Inr \<lparr>db_header = m_header m, db_restarts = m_restarts m, db_words = bb_words b\<rparr>"
    unfolding builder_encode_def using decode_encoded_block [OF e] by (simp add: dense_byte_words_def)
  with enc len that show ?thesis by blast
qed

section \<open>Properties\<close>

text \<open>
  C6: A block that the builder has accepted can be encoded whenever its predicted size leaves room
  for the header below four gigabytes; decoding the bytes gives back exactly the words, the header
  and the restart entries of the encoder, through either timestamp layout, with durations and
  payloads in place; and the encoded block is never longer than the prediction plus the header and
  the padding.
\<close>
theorem block_round_trip:
  assumes "builder_inv b" "bb_words b \<noteq> []" "payloads_valid (bb_words b)"
    and "predicted_size (cfg_restart_interval (bb_config b)) (bb_words b) + BLOCK_HEADER_SIZE + 7 < 2 ^ 32"
  shows "\<exists>m out. builder_encode b sequence = Some (Inr (m, out)) \<and>
    decode_word_block out = Inr \<lparr>db_header = m_header m, db_restarts = m_restarts m, db_words = bb_words b\<rparr> \<and>
    length out \<le> predicted_size (cfg_restart_interval (bb_config b)) (bb_words b) + BLOCK_HEADER_SIZE + 7"
  using encoding_total [OF assms] by metis

text \<open>
  C12: Extending a block accepts exactly the words that the bounds allow, one after the other until
  one is refused, whether the general path or the path for words without durations runs; the
  builder's bookkeeping then describes the accepted words again, so the block stays within its
  word limit and, with more than one word, within its payload limit.
\<close>
theorem extend_ordered_accepts:
  assumes "builder_inv b" "well_ordered (bb_words b @ words)"
  shows "bb_words (snd (extend_ordered b words)) = greedy (bb_config b) (bb_words b) words \<and>
    length (greedy (bb_config b) (bb_words b) words) = length (bb_words b) + fst (extend_ordered b words) \<and>
    builder_inv (snd (extend_ordered b words))"
proof -
  have "length ws \<le> length (greedy config ws vs)" for config ws vs
  proof (induction config ws vs rule: greedy.induct)
    case (2 config ws w rest)
    then show ?case by auto
  qed simp
  with extend_ordered_greedy [OF assms] show ?thesis by simp
qed

lemma builder_new_inv: "builder_new config = Inr b \<Longrightarrow> builder_inv b"
  by (auto simp: builder_new_def builder_inv_def locals_ok_def builder_locals_def well_ordered_def timestamp_size_def
      duration_size_def payload_entry_size_def duration_entries_def payload_entries_def max_word_value_def last_index_def
      split: if_splits)

definition example_words :: "decoded_word list" where
  "example_words = [word_spanning 300 100 5, word_labeled 4 [0x41] 105 0]"

definition example_config :: block_codec_config where
  "example_config = \<lparr>cfg_max_words = 4, cfg_restart_interval = 2, cfg_max_payload_bytes = 90,
     cfg_max_inter_word_gap_ns = 1000, cfg_max_timestamp_span_ns = 5000\<rparr>"

definition example_builder :: word_block_builder where
  "example_builder = (case builder_new example_config of Inr b \<Rightarrow> snd (extend_ordered b example_words))"

lemma example_size: "predicted_size 2 example_words = 29"
  by code_simp

lemma example_greedy: "greedy example_config [] example_words = example_words"
  by code_simp

lemma example_ordered: "well_ordered example_words"
  unfolding well_ordered_def by code_simp

lemma example_builder_facts:
  "builder_inv example_builder" "bb_words example_builder = example_words" "bb_config example_builder = example_config"
proof -
  obtain b where b: "builder_new example_config = Inr b" "bb_words b = []" "bb_config b = example_config"
    by (simp add: builder_new_def example_config_def)
  have "well_ordered (bb_words b @ example_words)" using b(2) example_ordered by simp
  from extend_ordered_greedy [OF builder_new_inv [OF b(1)] this] example_greedy b
  show "builder_inv example_builder" "bb_words example_builder = example_words" "bb_config example_builder = example_config"
    by (simp_all add: example_builder_def)
qed

theorem block_round_trip_witness:
  "\<exists>m out. builder_encode example_builder 7 = Some (Inr (m, out)) \<and>
    decode_word_block out = Inr \<lparr>db_header = m_header m, db_restarts = m_restarts m, db_words = example_words\<rparr> \<and>
    length out \<le> 108"
proof -
  have valid: "payloads_valid example_words" by code_simp
  have size: "predicted_size (cfg_restart_interval example_config) example_words = 29"
    using example_size by (simp add: example_config_def)
  have "bb_words example_builder \<noteq> []" by (simp add: example_builder_facts example_words_def)
  from block_round_trip [OF example_builder_facts(1) this, of 7] valid
  show ?thesis unfolding example_builder_facts by (simp add: size BLOCK_HEADER_SIZE_def)
qed

theorem extend_ordered_accepts_witness:
  "bb_words (snd (extend_ordered example_builder [word_spanning 9 110 0, word_spanning 9 9000 0])) =
   example_words @ [word_spanning 9 110 0]"
proof -
  have g: "greedy example_config example_words [word_spanning 9 110 0, word_spanning 9 9000 0] =
      example_words @ [word_spanning 9 110 0]" by code_simp
  have "well_ordered (bb_words example_builder @ [word_spanning 9 110 0, word_spanning 9 9000 0])"
    unfolding example_builder_facts well_ordered_def by code_simp
  from extend_ordered_accepts [OF example_builder_facts(1) this] g show ?thesis by (simp add: example_builder_facts)
qed

end
