(* ===== verification/Word_Window.thy ===== *)
theory Word_Window
  imports Block_Builder
begin

text \<open>
  Decoding a time window: from the nearest restart entry the decoder finds the words around the
  window, in order, together with the two words before it.
\<close>

section \<open>Inside the window\<close>

definition segment :: "decoded_word list \<Rightarrow> nat \<Rightarrow> nat \<Rightarrow> (nat \<times> decoded_word) list" where
  "segment words f m = map (\<lambda>j. (j, plain (words ! j))) [f..<f + m]"

lemma segment_simps [simp]:
  "segment words f 0 = []" "segment words f (Suc m) = segment words f m @ [(f + m, plain (words ! (f + m)))]"
  "length (segment words f m) = m" "segment words f m = [] \<longleftrightarrow> m = 0"
  by (auto simp: segment_def)

lemma map_snd_segment: "f + m \<le> length words \<Longrightarrow> map snd (segment words f m) = map plain (take m (drop f words))"
  unfolding segment_def by (intro nth_equalityI) (simp_all add: add.commute)

lemma decode_window_inside:
  assumes stream: "record_stream out parsed words at"
  shows "at i d \<Longrightarrow> i + k = length words \<Longrightarrow> f < i \<Longrightarrow> i - f \<le> mx \<Longrightarrow> rs_selected s = segment words f (i - f) \<Longrightarrow>
    (\<And>j. i \<le> j \<Longrightarrow> j < length words \<Longrightarrow> start \<le> w_timestamp_ns (words ! j)) \<Longrightarrow>
    \<exists>s' m. decode_window out parsed start stop mx i k d s = Inr s' \<and> rs_selected s' = segment words f m \<and>
      0 < m \<and> m \<le> mx \<and> f + m \<le> length words \<and>
      (rs_complete s' \<longrightarrow> rs_complete s \<longrightarrow> f + m = length words \<or> stop < w_timestamp_ns (words ! (f + m - 1)))"
proof (induction k arbitrary: i d s)
  case 0
  then show ?case by (intro exI [of _ s] exI [of _ "i - f"]) simp
next
  case (Suc k)
  then have i: "i < length words" by simp
  with stream Suc.prems(1) obtain d1 where d1: "decoder_next out parsed i d = Inr (plain (words ! i), d1)" "at (Suc i) d1"
    unfolding record_stream_def by blast
  let ?s1 = "s\<lparr>rs_decoded_records := rs_decoded_records s + 1\<rparr>"
  have ts: "\<not> w_timestamp_ns (words ! i) < start" using Suc.prems(6) [OF order_refl i] by simp
  have push: "push_predecessors mx ?s1 = ?s1" using Suc.prems(3,5) by (simp add: push_predecessors_def)
  show ?case
  proof (cases "mx \<le> i - f")
    case True
    then have "decode_window out parsed start stop mx i (Suc k) d s = Inr (?s1\<lparr>rs_complete := False\<rparr>)"
      using d1(1) ts push Suc.prems(5) by (simp add: Let_def)
    with Suc.prems(3,4,5) i show ?thesis
      by (intro exI [of _ "?s1\<lparr>rs_complete := False\<rparr>"] exI [of _ "i - f"]) simp
  next
    case False
    let ?s3 = "?s1\<lparr>rs_selected := rs_selected s @ [(i, plain (words ! i))]\<rparr>"
    have sel: "rs_selected ?s3 = segment words f (Suc i - f)"
      using Suc.prems(3,5) by (simp add: Suc_diff_le)
    show ?thesis
    proof (cases "stop < w_timestamp_ns (words ! i)")
      case True
      then have "decode_window out parsed start stop mx i (Suc k) d s = Inr ?s3"
        using d1(1) ts push False Suc.prems(5) by (simp add: Let_def)
      with True sel i False Suc.prems(3) show ?thesis
        by (intro exI [of _ ?s3] exI [of _ "Suc i - f"]) simp
    next
      case go: False
      have "\<exists>s' m. decode_window out parsed start stop mx (Suc i) k d1 ?s3 = Inr s' \<and> rs_selected s' = segment words f m \<and>
          0 < m \<and> m \<le> mx \<and> f + m \<le> length words \<and>
          (rs_complete s' \<longrightarrow> rs_complete ?s3 \<longrightarrow> f + m = length words \<or> stop < w_timestamp_ns (words ! (f + m - 1)))"
        by (rule Suc.IH [OF d1(2)]) (use Suc.prems sel False in auto)
      moreover have "decode_window out parsed start stop mx i (Suc k) d s = decode_window out parsed start stop mx (Suc i) k d1 ?s3"
        using d1(1) ts push False go Suc.prems(5) by (simp add: Let_def)
      ultimately show ?thesis by simp
    qed
  qed
qed

section \<open>Before the window\<close>

text \<open>After the words before the window, from the restart at \<open>base\<close> on: the last two are kept.\<close>

definition before_state :: "decoded_word list \<Rightarrow> nat \<Rightarrow> nat \<Rightarrow> range_state \<Rightarrow> bool" where
  "before_state words base i s \<longleftrightarrow>
     rs_selected s = [] \<and> rs_complete s \<and>
     rs_previous_predecessor s = (if base + 2 \<le> i then Some (i - 2, plain (words ! (i - 2))) else None) \<and>
     rs_predecessor s = (if base + 1 \<le> i then Some (i - 1, plain (words ! (i - 1))) else None)"

definition window_first :: "nat \<Rightarrow> nat \<Rightarrow> nat" where
  "window_first base i = (if base + 2 \<le> i then i - 2 else base)"

lemma push_predecessors_before:
  assumes "before_state words base i s" "0 < mx" "base \<le> i"
  shows "rs_selected (push_predecessors mx s) = segment words (window_first base i) (min mx (i - window_first base i))"
    "rs_complete (push_predecessors mx s)"
proof -
  consider "i = base" | "i = base + 1" | j where "i = Suc (Suc j)" "base \<le> j"
    using assms(3) by (metis Suc_eq_plus1 add_2_eq_Suc' le_neq_implies_less less_iff_Suc_add nat_le_iff_add not_less_eq_eq le_Suc_eq)
  then show "rs_selected (push_predecessors mx s) = segment words (window_first base i) (min mx (i - window_first base i))"
    using assms(1,2)
    by cases (auto simp: before_state_def push_predecessors_def window_first_def Let_def segment_def numeral_2_eq_2
        upt_conv_Cons min_def)
  show "rs_complete (push_predecessors mx s)" using assms(1) by (auto simp: before_state_def push_predecessors_def Let_def)
qed

lemma decode_window_before:
  assumes stream: "record_stream out parsed words at"
  shows "at i d \<Longrightarrow> i + k = length words \<Longrightarrow> base \<le> i \<Longrightarrow> i \<le> i0 \<Longrightarrow> i0 \<le> length words \<Longrightarrow>
    (\<And>j. j < i0 \<Longrightarrow> w_timestamp_ns (words ! j) < start) \<Longrightarrow> before_state words base i s \<Longrightarrow>
    \<exists>d' s'. at i0 d' \<and> before_state words base i0 s' \<and>
      decode_window out parsed start stop mx i k d s = decode_window out parsed start stop mx i0 (length words - i0) d' s'"
proof (induction k arbitrary: i d s)
  case 0
  then show ?case by (intro exI [of _ d] exI [of _ s]) simp
next
  case (Suc k)
  show ?case
  proof (cases "i = i0")
    case True
    then have "length words - i0 = Suc k" using Suc.prems(2) by simp
    with True Suc.prems show ?thesis by (intro exI [of _ d] exI [of _ s]) (simp del: decode_window.simps)
  next
    case False
    then have i: "i < length words" "i < i0" using Suc.prems by simp_all
    with stream Suc.prems(1) obtain d1 where d1: "decoder_next out parsed i d = Inr (plain (words ! i), d1)" "at (Suc i) d1"
      unfolding record_stream_def by blast
    let ?s1 = "s\<lparr>rs_decoded_records := rs_decoded_records s + 1, rs_previous_predecessor := rs_predecessor s,
        rs_predecessor := Some (i, plain (words ! i))\<rparr>"
    have "before_state words base (Suc i) ?s1" using Suc.prems(3,7) by (auto simp: before_state_def numeral_2_eq_2)
    with Suc.IH [OF d1(2), of ?s1] Suc.prems i
    have "\<exists>d' s'. at i0 d' \<and> before_state words base i0 s' \<and>
        decode_window out parsed start stop mx (Suc i) k d1 ?s1 = decode_window out parsed start stop mx i0 (length words - i0) d' s'"
      by auto
    moreover have "decode_window out parsed start stop mx i (Suc k) d s = decode_window out parsed start stop mx (Suc i) k d1 ?s1"
      using d1(1) Suc.prems(6) [OF i(2)] by (simp add: Let_def)
    ultimately show ?thesis by simp
  qed
qed

section \<open>The selected words\<close>

lemma decode_window_at:
  assumes stream: "record_stream out parsed words at" and at: "at i0 d" and before: "before_state words base i0 s"
    and i0: "base \<le> i0" "i0 \<le> length words" and mx: "0 < mx" and f: "f = window_first base i0"
    and late: "\<And>j. i0 \<le> j \<Longrightarrow> j < length words \<Longrightarrow> start \<le> w_timestamp_ns (words ! j)"
  shows "\<exists>s' m. decode_window out parsed start stop mx i0 (length words - i0) d s = Inr s' \<and>
    rs_selected (push_predecessors mx s') = segment words f m \<and> m \<le> mx \<and> f + m \<le> length words \<and>
    (rs_complete s' \<longrightarrow> i0 = length words \<or> f + m = length words \<or> stop < w_timestamp_ns (words ! (f + m - 1)))"
proof (cases "i0 = length words")
  case True
  with push_predecessors_before [OF before mx i0(1)] f i0 show ?thesis
    by (intro exI [of _ s] exI [of _ "min mx (i0 - f)"]) (auto simp: window_first_def)
next
  case False
  then obtain k where k: "length words - i0 = Suc k" "i0 < length words" using i0(2) by (metis Suc_diff_Suc le_neq_implies_less)
  with stream at obtain d1 where d1: "decoder_next out parsed i0 d = Inr (plain (words ! i0), d1)" "at (Suc i0) d1"
    unfolding record_stream_def by blast
  define s2 where "s2 = push_predecessors mx (s\<lparr>rs_decoded_records := rs_decoded_records s + 1\<rparr>)"
  have fi: "f \<le> i0" using i0(1) f by (simp add: window_first_def)
  have "before_state words base i0 (s\<lparr>rs_decoded_records := rs_decoded_records s + 1\<rparr>)"
    using before by (simp add: before_state_def)
  note s2 = push_predecessors_before [OF this mx i0(1), folded s2_def, folded f]
  have ts: "\<not> w_timestamp_ns (words ! i0) < start" using late [of i0] k(2) by simp
  have idem: "push_predecessors mx s' = s'" if "rs_selected s' = segment words f m" "0 < m" for s' m
    using that by (simp add: push_predecessors_def)
  show ?thesis
  proof (cases "mx \<le> i0 - f")
    case True
    then have "decode_window out parsed start stop mx i0 (Suc k) d s = Inr (s2\<lparr>rs_complete := False\<rparr>)"
      using d1(1) ts s2(1) by (simp add: Let_def s2_def)
    moreover have "rs_selected (s2\<lparr>rs_complete := False\<rparr>) = segment words f mx" using s2(1) True by simp
    ultimately show ?thesis
      using idem [of "s2\<lparr>rs_complete := False\<rparr>" mx] mx True k fi
      by (intro exI [of _ "s2\<lparr>rs_complete := False\<rparr>"] exI [of _ mx]) (simp del: decode_window.simps)
  next
    case False
    let ?s3 = "s2\<lparr>rs_selected := rs_selected s2 @ [(i0, plain (words ! i0))]\<rparr>"
    have sel: "rs_selected ?s3 = segment words f (Suc i0 - f)" using s2(1) False fi by (simp add: Suc_diff_le)
    have step: "decode_window out parsed start stop mx i0 (Suc k) d s =
        (if stop < w_timestamp_ns (words ! i0) then Inr ?s3 else decode_window out parsed start stop mx (Suc i0) k d1 ?s3)"
      using d1(1) ts s2(1) False by (simp add: Let_def s2_def)
    show ?thesis
    proof (cases "stop < w_timestamp_ns (words ! i0)")
      case True
      then have "f + (Suc i0 - f) - 1 = i0" using fi by simp
      with True step sel idem [OF sel] k fi False show ?thesis
        by (intro exI [of _ ?s3] exI [of _ "Suc i0 - f"]) (simp del: decode_window.simps)
    next
      case go: False
      have "\<exists>s' m. decode_window out parsed start stop mx (Suc i0) k d1 ?s3 = Inr s' \<and> rs_selected s' = segment words f m \<and>
          0 < m \<and> m \<le> mx \<and> f + m \<le> length words \<and>
          (rs_complete s' \<longrightarrow> rs_complete ?s3 \<longrightarrow> f + m = length words \<or> stop < w_timestamp_ns (words ! (f + m - 1)))"
        by (rule decode_window_inside [OF stream d1(2)]) (use k fi False sel late in auto)
      then obtain s' m where s': "decode_window out parsed start stop mx (Suc i0) k d1 ?s3 = Inr s'"
        "rs_selected s' = segment words f m" "0 < m" "m \<le> mx" "f + m \<le> length words"
        "rs_complete s' \<longrightarrow> rs_complete ?s3 \<longrightarrow> f + m = length words \<or> stop < w_timestamp_ns (words ! (f + m - 1))"
        by blast
      then show ?thesis unfolding k(1) step using go idem [OF s'(2,3)] s2(2)
        by (intro exI [of _ s'] exI [of _ m]) simp
    qed
  qed
qed

lemma window_start:
  assumes "well_ordered words" "i0 = length (takeWhile (\<lambda>w. w_timestamp_ns w < start) words)"
  shows "j < i0 \<Longrightarrow> w_timestamp_ns (words ! j) < start" "i0 \<le> j \<Longrightarrow> j < length words \<Longrightarrow> start \<le> w_timestamp_ns (words ! j)"
    "i0 \<le> length words"
proof -
  show "i0 \<le> length words" using assms(2) by (simp add: length_takeWhile_le)
  show "w_timestamp_ns (words ! j) < start" if "j < i0"
    using that assms(2) by (metis nth_mem set_takeWhileD takeWhile_nth)
  show "start \<le> w_timestamp_ns (words ! j)" if "i0 \<le> j" "j < length words"
  proof -
    have "\<not> w_timestamp_ns (words ! i0) < start" 
      using that assms(2) nth_length_takeWhile [of "\<lambda>w. w_timestamp_ns w < start" words] by simp
    moreover have "w_timestamp_ns (words ! i0) \<le> w_timestamp_ns (words ! j)"
      using sorted_nth_mono [of "map w_timestamp_ns words" i0 j] assms(1) that by (simp add: well_ordered_def)
    ultimately show ?thesis by simp
  qed
qed

text \<open>The restart entry from which a window is decoded lies at or before the window.\<close>

lemma window_restart:
  assumes "0 < ri" "words \<noteq> []" "well_ordered words" "i0 = length (takeWhile (\<lambda>w. w_timestamp_ns w < start) words)"
    and "k = partition_point (\<lambda>r. r_timestamp_ns r < start) (restarts_upto ri words off (length words)) - 1"
  shows "k < div_ceil (length words) ri" "k * ri \<le> i0"
proof -
  let ?rs = "restarts_upto ri words off (length words)"
  let ?pp = "partition_point (\<lambda>r. r_timestamp_ns r < start) ?rs"
  have "?pp \<le> div_ceil (length words) ri"
    using length_takeWhile_le [of "\<lambda>r. r_timestamp_ns r < start" ?rs] by (simp add: partition_point_def)
  moreover have "0 < div_ceil (length words) ri" using assms(1,2) by (simp add: less_div_ceil)
  ultimately show lt: "k < div_ceil (length words) ri" using assms(5) by simp
  show "k * ri \<le> i0"
  proof (cases "?pp = 0")
    case False
    then have kpp: "k < ?pp" using assms(5) by simp
    then have "r_timestamp_ns (?rs ! k) < start"
      unfolding partition_point_def by (metis (mono_tags, lifting) nth_mem set_takeWhileD takeWhile_nth)
    then have "w_timestamp_ns (words ! (k * ri)) < start" using lt by (simp add: restarts_upto_nth restart_at_def)
    moreover have "k * ri < length words" using lt assms(1) by (simp add: less_div_ceil)
    ultimately show ?thesis using window_start(2) [OF assms(3,4), of "k * ri"] by (meson leI less_le_not_le order_less_imp_le)
  qed (use assms(5) in simp)
qed

lemma window_covers:
  assumes "well_ordered words" "\<And>j. j < i0 \<Longrightarrow> w_timestamp_ns (words ! j) < start" "f \<le> i0" "f + m \<le> length words"
    and "i0 = length words \<or> f + m = length words \<or> stop < w_timestamp_ns (words ! (f + m - 1))"
    and i: "i < length words" "start \<le> w_timestamp_ns (words ! i)" "w_timestamp_ns (words ! i) \<le> stop"
  shows "f \<le> i \<and> i < f + m"
proof -
  have "i0 \<le> i" using assms(2) [of i] i(2) by (meson leD leI)
  moreover have "i < f + m"
  proof (rule ccontr)
    assume "\<not> i < f + m"
    then have "w_timestamp_ns (words ! (f + m - 1)) \<le> w_timestamp_ns (words ! i)"
      using sorted_nth_mono [of "map w_timestamp_ns words" "f + m - 1" i] assms(1) i(1) by (simp add: well_ordered_def)
    with assms(5) i \<open>i0 \<le> i\<close> \<open>\<not> i < f + m\<close> show False by auto
  qed
  ultimately show ?thesis using assms(3) by simp
qed

lemma decode_range_block:
  assumes block: "is_block words ri vb grouped st parsed out" and parse: "parse_word_block out = Inr parsed"
    and range: "start \<le> stop" "0 < mx"
  shows "\<exists>r f m. decode_word_block_range out start stop mx = Inr r \<and> dr_header r = pb_header parsed \<and>
    dr_words r = take m (drop f words) \<and> m \<le> mx \<and> f + m \<le> length words \<and>
    (dr_complete r \<longrightarrow> (\<forall>i < length words. start \<le> w_timestamp_ns (words ! i) \<and> w_timestamp_ns (words ! i) \<le> stop \<longrightarrow> f \<le> i \<and> i < f + m))"
proof -
  from block obtain header dense pad where h: "encodable words ri vb dense" "body_layout grouped ri vb words st"
    "parsed = parsed_block header st (length out) vb" "unat (h_word_count header) = length words"
    by (rule is_blockE)
  have w: "words \<noteq> []" "0 < ri" "well_ordered words" "length words < 2 ^ 32" using h(1) by (simp_all add: encodable_def)
  define off where "off = snd (record_layout grouped ri vb words)"
  have rs: "pb_restarts parsed = restarts_upto ri words off (length words)" using h(2,3) by (simp add: body_layout_def parsed_block_def off_def)
  have n: "unat (h_word_count (pb_header parsed)) = length words" using h(3,4) by (simp add: parsed_block_def)
  define k where "k = partition_point (\<lambda>r. r_timestamp_ns r < start) (pb_restarts parsed) - 1"
  define i0 where "i0 = length (takeWhile (\<lambda>w. w_timestamp_ns w < start) words)"
  note k = window_restart [OF w(2,1,3) i0_def k_def [unfolded rs]]
  note i0 = window_start [OF w(3) i0_def]
  have base: "unat (r_record_index (pb_restarts parsed ! k)) = k * ri"
    using k(1) w less_div_ceil [OF w(2), of k "length words"] restart_at_index [of "k * ri"]
    by (simp add: rs restarts_upto_nth)
  let ?s0 = "\<lparr>rs_previous_predecessor = None, rs_predecessor = None, rs_selected = [], rs_decoded_records = 0, rs_complete = True\<rparr>"
  note stream = block_stream [OF block]
  have at: "stream_at grouped ri vb words (k * ri) (record_decoder_new parsed k True)" using stream(2) [OF k(1)] by simp
  have "before_state words (k * ri) (k * ri) ?s0" by (simp add: before_state_def)
  from decode_window_before [OF stream(1) at _ order_refl k(2) i0(3) i0(1) this, of "length words - k * ri" stop mx] k(2) i0(3)
  obtain d' s1 where s1: "stream_at grouped ri vb words i0 d'" "before_state words (k * ri) i0 s1"
    "decode_window out parsed start stop mx (k * ri) (length words - k * ri) (record_decoder_new parsed k True) ?s0 =
     decode_window out parsed start stop mx i0 (length words - i0) d' s1" by auto
  define f where "f = window_first (k * ri) i0"
  have fi: "f \<le> i0" using k(2) by (simp add: f_def window_first_def)
  from decode_window_at [OF stream(1) s1(1,2) k(2) i0(3) range(2) f_def i0(2), of stop] obtain s' m where s':
    "decode_window out parsed start stop mx i0 (length words - i0) d' s1 = Inr s'"
    "rs_selected (push_predecessors mx s') = segment words f m" "m \<le> mx" "f + m \<le> length words"
    "rs_complete s' \<longrightarrow> i0 = length words \<or> f + m = length words \<or> stop < w_timestamp_ns (words ! (f + m - 1))" by blast
  have fm: "(case segment words f m of [] \<Rightarrow> 0 | (index, _) # _ \<Rightarrow> index) = (if m = 0 then 0 else f)"
    by (cases m) (simp_all add: segment_def upt_conv_Cons del: upt_Suc segment_simps)
  have ad: "apply_durations out parsed (if m = 0 then 0 else f) (map snd (segment words f m)) = Inr (take m (drop f words))"
    using apply_durations_block [OF block s'(4)] apply_durations_block [OF block, of 0 0] by (simp add: map_snd_segment s'(4))
  have "decode_word_block_range out start stop mx =
      Inr \<lparr>dr_header = pb_header parsed, dr_words = take m (drop f words), dr_complete = rs_complete s',
           dr_decoded_records = rs_decoded_records s'\<rparr>"
    unfolding decode_word_block_range_def parse and_then_simps Let_def k_def [symmetric] base n s1(3) s'(1,2) fm ad
    using range by simp
  moreover have "f \<le> i \<and> i < f + m"
    if "rs_complete s'" "i < length words" "start \<le> w_timestamp_ns (words ! i)" "w_timestamp_ns (words ! i) \<le> stop" for i
    using window_covers [OF w(3) i0(1) _ s'(4)] s'(5) that fi by blast
  ultimately show ?thesis using s'(3,4) by (intro exI conjI) auto
qed

section \<open>Properties\<close>

text \<open>
  C10: Decoding a time window of a block that the encoder wrote always succeeds for a non-empty
  window and a positive context limit. The result is a contiguous stretch of the block's words, with
  their durations and payloads, no longer than the limit; when it is reported complete it holds
  every word of the block whose timestamp lies in the window.
\<close>
theorem decode_range_correct:
  assumes inv: "builder_inv b" "payloads_valid (bb_words b)" and enc: "builder_encode b sequence = Some (Inr (m, out))"
    and range: "start \<le> stop" "0 < mx"
  shows "\<exists>r f k. decode_word_block_range out start stop mx = Inr r \<and> dr_header r = m_header m \<and>
    dr_words r = take k (drop f (bb_words b)) \<and> k \<le> mx \<and> f + k \<le> length (bb_words b) \<and>
    (dr_complete r \<longrightarrow> (\<forall>i < length (bb_words b).
       start \<le> w_timestamp_ns (bb_words b ! i) \<and> w_timestamp_ns (bb_words b ! i) \<le> stop \<longrightarrow> f \<le> i \<and> i < f + k))"
proof -
  have ne: "bb_words b \<noteq> []"
    using enc by (auto simp: builder_encode_def encode_validated_word_block_with_interval_def)
  have e: "encodable (bb_words b) (cfg_restart_interval (bb_config b)) (value_width (bb_max_value b)) (dense_byte_words b)"
    using inv ne payloads_validD by (intro builder_encodable) blast+
  from enc obtain grouped st where
    "is_block (bb_words b) (cfg_restart_interval (bb_config b)) (value_width (bb_max_value b)) grouped st
       (parsed_block (m_header m) st (length out) (value_width (bb_max_value b))) out"
    "parse_word_block out = Inr (parsed_block (m_header m) st (length out) (value_width (bb_max_value b)))"
    unfolding builder_encode_def dense_byte_words_def [symmetric] by (rule encoded_is_block [OF e])
  from decode_range_block [OF this range] show ?thesis by (simp add: parsed_block_def)
qed

theorem decode_range_correct_witness:
  "\<exists>m out r f k. builder_encode example_builder 7 = Some (Inr (m, out)) \<and>
    decode_word_block_range out 90 104 8 = Inr r \<and> dr_words r = take k (drop f example_words) \<and>
    (dr_complete r \<longrightarrow> f = 0 \<and> 0 < k)"
proof -
  have valid: "payloads_valid (bb_words example_builder)" unfolding example_builder_facts by code_simp
  have ne: "bb_words example_builder \<noteq> []" by (simp add: example_builder_facts example_words_def)
  have size: "predicted_size (cfg_restart_interval (bb_config example_builder)) (bb_words example_builder)
      + BLOCK_HEADER_SIZE + 7 < 2 ^ 32"
    using example_size by (simp add: example_builder_facts example_config_def BLOCK_HEADER_SIZE_def)
  obtain m out where enc: "builder_encode example_builder 7 = Some (Inr (m, out))"
    by (rule encoding_total [OF example_builder_facts(1) ne valid size])
  from decode_range_correct [OF example_builder_facts(1) valid enc, of 90 104 8] obtain r f k where
    r: "decode_word_block_range out 90 104 8 = Inr r" "dr_words r = take k (drop f example_words)"
    "dr_complete r \<longrightarrow> (\<forall>i < length example_words. 90 \<le> w_timestamp_ns (example_words ! i) \<and>
       w_timestamp_ns (example_words ! i) \<le> 104 \<longrightarrow> f \<le> i \<and> i < f + k)"
    unfolding example_builder_facts by auto
  have "w_timestamp_ns (example_words ! 0) = 100" by code_simp
  then have "dr_complete r \<longrightarrow> f = 0 \<and> 0 < k" using r(3) by (auto simp: example_words_def dest: spec [of _ 0])
  with enc r show ?thesis by blast
qed

end
