(* ===== verification/Ordered_Map.thy ===== *)
theory Ordered_Map
  imports Rust_Prelude "HOL-Library.Char_ord" "HOL-Library.List_Lexorder"
begin

text \<open>
  The ordered maps of the standard library as association lists with increasing keys, and text:
  strings are lists of bytes, compared byte by byte as Rust compares them, and numbers print in
  decimal. The laws that the components use are those of the locale \<open>ordered_map\<close>.
\<close>

section \<open>Ordered maps\<close>

type_synonym ('k, 'v) btree_map = "('k \<times> 'v) list"

definition increasing :: "('k::linorder, 'v) btree_map \<Rightarrow> bool" where
  "increasing m \<longleftrightarrow> sorted_wrt (<) (map fst m)"

fun btree_insert :: "'k::linorder \<Rightarrow> 'v \<Rightarrow> ('k, 'v) btree_map \<Rightarrow> ('k, 'v) btree_map" where
  "btree_insert k v [] = [(k, v)]"
| "btree_insert k v ((k', v') # m) =
     (if k < k' then (k, v) # (k', v') # m
      else if k = k' then (k, v) # m
      else (k', v') # btree_insert k v m)"

definition btree_remove :: "'k::linorder \<Rightarrow> ('k, 'v) btree_map \<Rightarrow> ('k, 'v) btree_map" where
  "btree_remove k m = filter (\<lambda>(k', _). k' \<noteq> k) m"

lemma increasing_simps [simp]:
  "increasing []"
  "increasing ((k, v) # m) \<longleftrightarrow> (\<forall>k'\<in>fst ` set m. k < k') \<and> increasing m"
  by (auto simp: increasing_def)

lemma increasing_distinct: "increasing m \<Longrightarrow> distinct (map fst m)"
  unfolding increasing_def by (metis strict_sorted_iff)

locale ordered_map =
  fixes insert :: "'k::linorder \<Rightarrow> 'v \<Rightarrow> ('k, 'v) btree_map \<Rightarrow> ('k, 'v) btree_map"
    and remove :: "'k \<Rightarrow> ('k, 'v) btree_map \<Rightarrow> ('k, 'v) btree_map"
  assumes lookup_insert: "map_of (insert k v m) = (map_of m)(k \<mapsto> v)"
    and lookup_remove: "map_of (remove k m) = (map_of m)(k := None)"
    and insert_increasing: "increasing m \<Longrightarrow> increasing (insert k v m)"
    and remove_increasing: "increasing m \<Longrightarrow> increasing (remove k m)"
begin

lemma insert_keys: "increasing m \<Longrightarrow> fst ` set (insert k v m) = Set.insert k (fst ` set m)"
  using lookup_insert [of k v m] by (metis dom_fun_upd dom_map_of_conv_image_fst option.distinct(1))

lemma remove_keys: "fst ` set (remove k m) = fst ` set m - {k}"
  using lookup_remove [of k m] by (metis dom_fun_upd dom_map_of_conv_image_fst)

text \<open>An ordered map is determined by its lookups.\<close>

lemma increasing_unique:
  assumes "increasing m" "increasing m'" "map_of m = map_of m'"
  shows "m = m'"
proof -
  have "set m = set m'"
    using assms by (metis increasing_distinct set_map_of_compr)
  moreover have "sorted (map fst m)" "sorted (map fst m')" "distinct (map fst m)" "distinct (map fst m')"
    using assms(1,2) by (auto simp: increasing_def strict_sorted_iff)
  ultimately show ?thesis
    by (intro map_sorted_distinct_set_unique [of fst]) (auto simp: distinct_map)
qed

text \<open>Inserting the entries of a list one after the other: the last one for a key counts.\<close>

lemma collect_entries:
  "increasing acc \<Longrightarrow> increasing (fold (\<lambda>(k, v). insert k v) xs acc) \<and>
    map_of (fold (\<lambda>(k, v). insert k v) xs acc) = map_of acc ++ map_of (rev xs)"
proof (induction xs arbitrary: acc)
  case (Cons x xs)
  show ?case using Cons.IH [of "insert (fst x) (snd x) acc"] Cons.prems insert_increasing
    by (cases x) (simp add: lookup_insert fun_eq_iff map_add_def split: option.splits)
qed simp

end

lemma map_of_btree_insert: "map_of (btree_insert k v m) = (map_of m)(k \<mapsto> v)"
  by (induction k v m rule: btree_insert.induct) auto

lemma set_btree_insert: "increasing m \<Longrightarrow> fst ` set (btree_insert k v m) = insert k (fst ` set m)"
  using map_of_btree_insert [of k v m] by (metis dom_fun_upd dom_map_of_conv_image_fst option.distinct(1))

lemma increasing_btree_insert: "increasing m \<Longrightarrow> increasing (btree_insert k v m)"
  by (induction k v m rule: btree_insert.induct) (auto simp: set_btree_insert)

interpretation btree: ordered_map btree_insert btree_remove
proof
  show "increasing (btree_remove k m)" if "increasing m" for k and m :: "('a, 'b) btree_map"
    using that by (induction m) (auto simp: btree_remove_def)
  show "map_of (btree_remove k m) = (map_of m)(k := None)" for k and m :: "('a, 'b) btree_map"
    by (induction m) (auto simp: btree_remove_def fun_eq_iff)
qed (simp_all add: map_of_btree_insert increasing_btree_insert)

section \<open>Decimal numbers\<close>

fun show_nat :: "nat \<Rightarrow> string" where
  "show_nat n = (if n < 10 then [char_of (48 + n)] else show_nat (n div 10) @ [char_of (48 + n mod 10)])"

declare show_nat.simps [simp del]

definition show_int :: "int \<Rightarrow> string" where
  "show_int i = (if i < 0 then CHR ''-'' # show_nat (nat (- i)) else show_nat (nat i))"

end
