(* ===== verification/Trigger_Program.thy ===== *)
theory Trigger_Program
  imports Ordered_Map
begin

text \<open>
  The portable trigger domain, \<^verbatim>\<open>crates/logic_analyzer_trigger/src\<close>: identifiers, the schema that a
  capture provider advertises, trigger programs and their validation (\<^verbatim>\<open>program.rs\<close>), and the simple
  conditions of a lane (\<^verbatim>\<open>condition.rs\<close>). Identifiers and messages are byte strings; labels, of which
  only blankness matters, are lists of Unicode scalar values. A signed 64-bit operand is a word read
  through \<open>sint\<close>. The validators append to a vector of diagnostics; here they return what they append.
\<close>

section \<open>Simple conditions\<close>

datatype simple_trigger_condition = Ignore | Low | High | Rising | Falling | Either

fun is_edge :: "simple_trigger_condition \<Rightarrow> bool" where
  "is_edge Rising = True"
| "is_edge Falling = True"
| "is_edge Either = True"
| "is_edge _ = False"

fun condition_matches :: "simple_trigger_condition \<Rightarrow> bool option \<Rightarrow> bool \<Rightarrow> bool" where
  "condition_matches Ignore previous current = True"
| "condition_matches Low previous current = (\<not> current)"
| "condition_matches High previous current = current"
| "condition_matches Rising previous current = (previous = Some False \<and> current)"
| "condition_matches Falling previous current = (previous = Some True \<and> \<not> current)"
| "condition_matches Either previous current = (case previous of Some p \<Rightarrow> p \<noteq> current | None \<Rightarrow> False)"

section \<open>Errors and identifiers\<close>

datatype trigger_schema_error =
    EmptyIdentifier | InvalidIdentifierCharacters string | EmptyCountModes | DuplicateCountModes
  | InvalidCountRange | EmptyChoiceLabel | EmptyOperandLabel | InvalidUnsignedOperandRange
  | InvalidSignedOperandRange | InvalidSignedOperandStep | EmptyOperandChoices | DuplicateOperandChoices
  | UnknownDefaultChoice | InvalidByteOperand | EmptyPredicateLabel | DuplicatePredicateOperands
  | ZeroSchemaRevision | ZeroSchemaLimits | EmptyLogicOperators | DuplicateLogicOperators
  | ExplicitIgnoreCondition | DuplicateDigitalConditions | DuplicateRegisteredPredicates
  | UnsupportedSimpleProgram

type_synonym trigger_identifier = string
type_synonym capture_channel_id = string
type_synonym label = "nat list"

definition identifier_byte :: "char \<Rightarrow> bool" where
  "identifier_byte c \<longleftrightarrow>
     (CHR ''a'' \<le> c \<and> c \<le> CHR ''z'') \<or> (CHR ''A'' \<le> c \<and> c \<le> CHR ''Z'') \<or> (CHR ''0'' \<le> c \<and> c \<le> CHR ''9'') \<or>
     c = CHR ''.'' \<or> c = CHR ''_'' \<or> c = CHR ''-''"

definition trigger_identifier_new :: "string \<Rightarrow> trigger_schema_error + trigger_identifier" where
  "trigger_identifier_new v =
     (if v = [] then Inl EmptyIdentifier
      else if \<not> list_all identifier_byte v then Inl (InvalidIdentifierCharacters v)
      else Inr v)"

text \<open>The Unicode property White\_Space, which \<open>trim\<close> removes.\<close>

definition white_space :: "nat \<Rightarrow> bool" where
  "white_space c \<longleftrightarrow> (9 \<le> c \<and> c \<le> 13) \<or> c = 32 \<or> c = 133 \<or> c = 160 \<or> c = 5760 \<or> (8192 \<le> c \<and> c \<le> 8202) \<or>
     c = 8232 \<or> c = 8233 \<or> c = 8239 \<or> c = 8287 \<or> c = 12288"

definition blank :: "label \<Rightarrow> bool" where
  "blank l \<longleftrightarrow> list_all white_space l"

section \<open>Schemas\<close>

datatype trigger_logic_operator = And | Or | Xor | Nand | Nor

datatype trigger_count_mode = Occurrences | Consecutive

record trigger_count_capabilities =
  cc_modes :: "trigger_count_mode list"
  cc_minimum :: u64
  cc_maximum :: u64
  cc_step :: u64

definition trigger_count_capabilities_new ::
    "trigger_count_mode list \<Rightarrow> u64 \<Rightarrow> u64 \<Rightarrow> u64 \<Rightarrow> trigger_schema_error + trigger_count_capabilities" where
  "trigger_count_capabilities_new modes minimum maximum step =
     (if modes = [] then Inl EmptyCountModes
      else if \<not> distinct modes then Inl DuplicateCountModes
      else if maximum < minimum \<or> step = 0 then Inl InvalidCountRange
      else Inr \<lparr>cc_modes = modes, cc_minimum = minimum, cc_maximum = maximum, cc_step = step\<rparr>)"

record trigger_choice =
  choice_id :: trigger_identifier
  choice_label :: label

definition trigger_choice_new :: "trigger_identifier \<Rightarrow> label \<Rightarrow> trigger_schema_error + trigger_choice" where
  "trigger_choice_new i l = (if blank l then Inl EmptyChoiceLabel else Inr \<lparr>choice_id = i, choice_label = l\<rparr>)"

text \<open>The fields of the numeric kinds are minimum, maximum, step and default.\<close>

datatype trigger_operand_kind =
    Boolean_Kind bool
  | Unsigned_Kind u64 u64 u64 u64
  | Signed_Kind u64 u64 u64 u64
  | DurationNs_Kind u64 u64 u64 u64
  | Choice_Kind "trigger_choice list" trigger_identifier
  | Channel_Kind "capture_channel_id option"
  | Bytes_Kind nat nat "u8 list"

definition is_multiple_of :: "nat \<Rightarrow> nat \<Rightarrow> bool" where
  "is_multiple_of a b \<longleftrightarrow> a mod b = 0"

definition validate_unsigned_range :: "u64 \<Rightarrow> u64 \<Rightarrow> u64 \<Rightarrow> u64 \<Rightarrow> trigger_schema_error + unit" where
  "validate_unsigned_range minimum maximum step dflt =
     (if maximum < minimum \<or> step = 0 \<or> dflt < minimum \<or> maximum < dflt \<or>
         \<not> is_multiple_of (unat (dflt - minimum)) (unat step)
      then Inl InvalidUnsignedOperandRange else Inr ())"

text \<open>The offset is computed at 128 bits, where the difference of two 64-bit numbers is exact.\<close>

definition signed_offset :: "u64 \<Rightarrow> u64 \<Rightarrow> nat" where
  "signed_offset minimum v =
     (let offset = sint v - sint minimum in if 0 \<le> offset then nat offset else 2 ^ 128 - 1)"

definition validate_signed_range :: "u64 \<Rightarrow> u64 \<Rightarrow> u64 \<Rightarrow> u64 \<Rightarrow> trigger_schema_error + unit" where
  "validate_signed_range minimum maximum step dflt =
     (if sint maximum < sint minimum \<or> step = 0 \<or> sint dflt < sint minimum \<or> sint maximum < sint dflt
      then Inl InvalidSignedOperandRange
      else if \<not> is_multiple_of (signed_offset minimum dflt) (unat step) then Inl InvalidSignedOperandStep
      else Inr ())"

fun validate_schema :: "trigger_operand_kind \<Rightarrow> trigger_schema_error + unit" where
  "validate_schema (Boolean_Kind _) = Inr ()"
| "validate_schema (Channel_Kind _) = Inr ()"
| "validate_schema (Unsigned_Kind minimum maximum step dflt) = validate_unsigned_range minimum maximum step dflt"
| "validate_schema (DurationNs_Kind minimum maximum step dflt) = validate_unsigned_range minimum maximum step dflt"
| "validate_schema (Signed_Kind minimum maximum step dflt) = validate_signed_range minimum maximum step dflt"
| "validate_schema (Choice_Kind choices dflt) =
     (if choices = [] then Inl EmptyOperandChoices
      else if \<not> distinct (map choice_id choices) then Inl DuplicateOperandChoices
      else if dflt \<notin> set (map choice_id choices) then Inl UnknownDefaultChoice
      else Inr ())"
| "validate_schema (Bytes_Kind minimum_length maximum_length dflt) =
     (if maximum_length < minimum_length \<or> length dflt < minimum_length \<or> maximum_length < length dflt
      then Inl InvalidByteOperand else Inr ())"

record trigger_operand_schema =
  op_id :: trigger_identifier
  op_label :: label
  op_kind :: trigger_operand_kind

definition trigger_operand_schema_new ::
    "trigger_identifier \<Rightarrow> label \<Rightarrow> trigger_operand_kind \<Rightarrow> trigger_schema_error + trigger_operand_schema" where
  "trigger_operand_schema_new i l kind =
     (if blank l then Inl EmptyOperandLabel
      else and_then (validate_schema kind) (\<lambda>_. Inr \<lparr>op_id = i, op_label = l, op_kind = kind\<rparr>))"

record registered_predicate_schema =
  ps_id :: trigger_identifier
  ps_label :: label
  ps_operands :: "trigger_operand_schema list"

definition registered_predicate_schema_new ::
    "trigger_identifier \<Rightarrow> label \<Rightarrow> trigger_operand_schema list \<Rightarrow> trigger_schema_error + registered_predicate_schema" where
  "registered_predicate_schema_new i l operands =
     (if blank l then Inl EmptyPredicateLabel
      else if \<not> distinct (map op_id operands) then Inl DuplicatePredicateOperands
      else Inr \<lparr>ps_id = i, ps_label = l, ps_operands = operands\<rparr>)"

record trigger_editor_schema =
  es_id :: trigger_identifier
  es_revision :: u32
  es_maximum_stages :: nat
  es_maximum_predicates_per_stage :: nat
  es_logic_operators :: "trigger_logic_operator list"
  es_digital_conditions :: "simple_trigger_condition list"
  es_stage_inversion :: bool
  es_count :: "trigger_count_capabilities option"
  es_predicates :: "registered_predicate_schema list"

definition trigger_editor_schema_new :: "trigger_identifier \<Rightarrow> u32 \<Rightarrow> nat \<Rightarrow> nat \<Rightarrow> trigger_logic_operator list \<Rightarrow>
    trigger_schema_error + trigger_editor_schema" where
  "trigger_editor_schema_new i revision maximum_stages maximum_predicates_per_stage logic_operators =
     (if revision = 0 then Inl ZeroSchemaRevision
      else if maximum_stages = 0 \<or> maximum_predicates_per_stage = 0 then Inl ZeroSchemaLimits
      else if logic_operators = [] then Inl EmptyLogicOperators
      else if \<not> distinct logic_operators then Inl DuplicateLogicOperators
      else Inr \<lparr>es_id = i, es_revision = revision, es_maximum_stages = maximum_stages,
                es_maximum_predicates_per_stage = maximum_predicates_per_stage, es_logic_operators = logic_operators,
                es_digital_conditions = [], es_stage_inversion = False, es_count = None, es_predicates = []\<rparr>)"

definition with_digital_conditions ::
    "trigger_editor_schema \<Rightarrow> simple_trigger_condition list \<Rightarrow> trigger_schema_error + trigger_editor_schema" where
  "with_digital_conditions s conditions =
     (if Ignore \<in> set conditions then Inl ExplicitIgnoreCondition
      else if \<not> distinct conditions then Inl DuplicateDigitalConditions
      else Inr (s\<lparr>es_digital_conditions := conditions\<rparr>))"

definition with_stage_inversion :: "trigger_editor_schema \<Rightarrow> bool \<Rightarrow> trigger_editor_schema" where
  "with_stage_inversion s enabled = s\<lparr>es_stage_inversion := enabled\<rparr>"

definition with_count :: "trigger_editor_schema \<Rightarrow> trigger_count_capabilities \<Rightarrow> trigger_editor_schema" where
  "with_count s count = s\<lparr>es_count := Some count\<rparr>"

definition with_registered_predicates ::
    "trigger_editor_schema \<Rightarrow> registered_predicate_schema list \<Rightarrow> trigger_schema_error + trigger_editor_schema" where
  "with_registered_predicates s predicates =
     (if \<not> distinct (map ps_id predicates) then Inl DuplicateRegisteredPredicates
      else Inr (s\<lparr>es_predicates := predicates\<rparr>))"

section \<open>Programs\<close>

definition TRIGGER_PROGRAM_FORMAT_VERSION :: u16 where
  "TRIGGER_PROGRAM_FORMAT_VERSION = 1"

record trigger_count =
  tc_mode :: trigger_count_mode
  tc_value :: u64

datatype trigger_operand_value =
    Boolean_Value bool
  | Unsigned_Value u64
  | Signed_Value u64
  | DurationNs_Value u64
  | Choice_Value trigger_identifier
  | Channel_Value capture_channel_id
  | Bytes_Value "u8 list"

datatype trigger_predicate =
    Digital capture_channel_id simple_trigger_condition
  | Registered trigger_identifier "(trigger_identifier, trigger_operand_value) btree_map"

record trigger_stage =
  st_predicates :: "trigger_predicate list"
  st_logic :: trigger_logic_operator
  st_inverted :: bool
  st_count :: "trigger_count option"

record trigger_program =
  tp_format_version :: u16
  tp_schema_id :: trigger_identifier
  tp_schema_revision :: u32
  tp_stages :: "trigger_stage list"

definition trigger_program_new :: "trigger_identifier \<Rightarrow> u32 \<Rightarrow> trigger_stage list \<Rightarrow> trigger_program" where
  "trigger_program_new schema_id schema_revision stages =
     \<lparr>tp_format_version = TRIGGER_PROGRAM_FORMAT_VERSION, tp_schema_id = schema_id,
      tp_schema_revision = schema_revision, tp_stages = stages\<rparr>"

datatype trigger_validation_code =
    SchemaUnavailable | FormatVersion | SchemaIdentity | SchemaRevision | StageLimit | PredicateLimit
  | UnsupportedLogic | UnsupportedInversion | UnsupportedCount | UnsupportedCountMode | CountRange
  | UnknownChannel | DuplicateChannel | UnsupportedDigitalCondition | UnknownPredicate | MissingOperand
  | UnexpectedOperand | OperandType | OperandRange | OperandStep | UnknownChoice | ByteLength

record trigger_validation_diagnostic =
  td_path :: string
  td_code :: trigger_validation_code
  td_message :: string

definition diagnostic :: "string \<Rightarrow> trigger_validation_code \<Rightarrow> string \<Rightarrow> trigger_validation_diagnostic" where
  "diagnostic path code message = \<lparr>td_path = path, td_code = code, td_message = message\<rparr>"

type_synonym trigger_validation_errors = "trigger_validation_diagnostic list"

definition schema_unavailable :: trigger_validation_errors where
  "schema_unavailable =
     [diagnostic ''program.schema_id'' SchemaUnavailable
        ''this capture profile does not advertise an advanced-trigger schema'']"

text \<open>The text of a list of errors, and the names that debug formatting gives the enumerations.\<close>

fun join_errors :: "trigger_validation_errors \<Rightarrow> string" where
  "join_errors [] = []"
| "join_errors [d] = td_path d @ '': '' @ td_message d"
| "join_errors (d # ds) = td_path d @ '': '' @ td_message d @ ''; '' @ join_errors ds"

definition display_errors :: "trigger_validation_errors \<Rightarrow> string" where
  "display_errors ds =
     (if length ds \<noteq> 1 then ''trigger program has '' @ show_nat (length ds) @ '' validation errors: '' else []) @
     join_errors ds"

fun debug_logic :: "trigger_logic_operator \<Rightarrow> string" where
  "debug_logic And = ''And''"
| "debug_logic Or = ''Or''"
| "debug_logic Xor = ''Xor''"
| "debug_logic Nand = ''Nand''"
| "debug_logic Nor = ''Nor''"

fun debug_mode :: "trigger_count_mode \<Rightarrow> string" where
  "debug_mode Occurrences = ''Occurrences''"
| "debug_mode Consecutive = ''Consecutive''"

fun debug_condition :: "simple_trigger_condition \<Rightarrow> string" where
  "debug_condition Ignore = ''Ignore''"
| "debug_condition Low = ''Low''"
| "debug_condition High = ''High''"
| "debug_condition Rising = ''Rising''"
| "debug_condition Falling = ''Falling''"
| "debug_condition Either = ''Either''"

section \<open>Validation\<close>

abbreviation quoted :: "string \<Rightarrow> string" where
  "quoted s \<equiv> CHR 0x27 # s @ [CHR 0x27]"

abbreviation range_text :: "string \<Rightarrow> string \<Rightarrow> string" where
  "range_text low high \<equiv> low @ ''..='' @ high"

definition validate_unsigned_value :: "u64 \<Rightarrow> u64 \<Rightarrow> u64 \<Rightarrow> u64 \<Rightarrow> string \<Rightarrow> trigger_validation_errors" where
  "validate_unsigned_value minimum maximum step v path =
     (if v < minimum \<or> maximum < v
      then [diagnostic path OperandRange
              (''trigger operand must be '' @ range_text (show_nat (unat minimum)) (show_nat (unat maximum)))]
      else if \<not> is_multiple_of (unat (v - minimum)) (unat step)
      then [diagnostic path OperandStep
              (''trigger operand must use step '' @ show_nat (unat step) @ '' from '' @ show_nat (unat minimum))]
      else [])"

definition validate_signed_value :: "u64 \<Rightarrow> u64 \<Rightarrow> u64 \<Rightarrow> u64 \<Rightarrow> string \<Rightarrow> trigger_validation_errors" where
  "validate_signed_value minimum maximum step v path =
     (if sint v < sint minimum \<or> sint maximum < sint v
      then [diagnostic path OperandRange
              (''trigger operand must be '' @ range_text (show_int (sint minimum)) (show_int (sint maximum)))]
      else if \<not> is_multiple_of (signed_offset minimum v) (unat step)
      then [diagnostic path OperandStep
              (''trigger operand must use step '' @ show_nat (unat step) @ '' from '' @ show_int (sint minimum))]
      else [])"

definition wrong_type :: "string \<Rightarrow> trigger_validation_errors" where
  "wrong_type path = [diagnostic path OperandType ''trigger operand value has the wrong type'']"

definition validate_operand :: "trigger_operand_kind \<Rightarrow> trigger_operand_value \<Rightarrow> string \<Rightarrow> capture_channel_id list \<Rightarrow>
    trigger_validation_errors" where
  "validate_operand kind operand path channels =
     (case kind of
        Boolean_Kind _ \<Rightarrow> (case operand of Boolean_Value _ \<Rightarrow> [] | _ \<Rightarrow> wrong_type path)
      | Unsigned_Kind minimum maximum step _ \<Rightarrow>
          (case operand of Unsigned_Value v \<Rightarrow> validate_unsigned_value minimum maximum step v path | _ \<Rightarrow> wrong_type path)
      | DurationNs_Kind minimum maximum step _ \<Rightarrow>
          (case operand of DurationNs_Value v \<Rightarrow> validate_unsigned_value minimum maximum step v path | _ \<Rightarrow> wrong_type path)
      | Signed_Kind minimum maximum step _ \<Rightarrow>
          (case operand of Signed_Value v \<Rightarrow> validate_signed_value minimum maximum step v path | _ \<Rightarrow> wrong_type path)
      | Choice_Kind choices _ \<Rightarrow>
          (case operand of
             Choice_Value v \<Rightarrow>
               (if \<not> list_ex (\<lambda>choice. choice_id choice = v) choices
                then [diagnostic path UnknownChoice (''trigger choice '' @ quoted v @ '' is not registered'')] else [])
           | _ \<Rightarrow> wrong_type path)
      | Channel_Kind _ \<Rightarrow>
          (case operand of
             Channel_Value channel \<Rightarrow>
               (if channel \<notin> set channels
                then [diagnostic path UnknownChannel (''capture channel '' @ quoted channel @ '' is not enabled'')] else [])
           | _ \<Rightarrow> wrong_type path)
      | Bytes_Kind minimum_length maximum_length _ \<Rightarrow>
          (case operand of
             Bytes_Value v \<Rightarrow>
               (if length v < minimum_length \<or> maximum_length < length v
                then [diagnostic path ByteLength
                        (''trigger byte value requires '' @ range_text (show_nat minimum_length) (show_nat maximum_length) @
                         '' bytes'')]
                else [])
           | _ \<Rightarrow> wrong_type path))"

definition validate_count :: "trigger_editor_schema \<Rightarrow> trigger_count option \<Rightarrow> string \<Rightarrow> trigger_validation_errors" where
  "validate_count s count stage_path =
     (case count of
        None \<Rightarrow> []
      | Some c \<Rightarrow>
          (case es_count s of
             None \<Rightarrow> [diagnostic (stage_path @ ''.count'') UnsupportedCount ''trigger stage counting is unsupported'']
           | Some capabilities \<Rightarrow>
               (if tc_mode c \<notin> set (cc_modes capabilities)
                then [diagnostic (stage_path @ ''.count.mode'') UnsupportedCountMode
                        (''trigger count mode '' @ debug_mode (tc_mode c) @ '' is unsupported'')] else []) @
               (if tc_value c < cc_minimum capabilities \<or> cc_maximum capabilities < tc_value c \<or>
                   \<not> is_multiple_of (unat (tc_value c - cc_minimum capabilities)) (unat (cc_step capabilities))
                then [diagnostic (stage_path @ ''.count.value'') CountRange
                        (''trigger count must be '' @
                         range_text (show_nat (unat (cc_minimum capabilities))) (show_nat (unat (cc_maximum capabilities))) @
                         '' in steps of '' @ show_nat (unat (cc_step capabilities)))] else [])))"

definition missing_operand :: "string \<Rightarrow> trigger_identifier \<Rightarrow> trigger_validation_diagnostic" where
  "missing_operand path operand =
     diagnostic (path @ ''.operands.'' @ operand) MissingOperand (''trigger operand '' @ quoted operand @ '' is required'')"

fun validate_predicate :: "trigger_editor_schema \<Rightarrow> trigger_predicate \<Rightarrow> string \<Rightarrow> capture_channel_id list \<Rightarrow>
    trigger_validation_errors" where
  "validate_predicate s (Digital channel condition) path channels =
     (if channel \<notin> set channels
      then [diagnostic (path @ ''.channel'') UnknownChannel (''capture channel '' @ quoted channel @ '' is not enabled'')]
      else []) @
     (if condition = Ignore \<or> condition \<notin> set (es_digital_conditions s)
      then [diagnostic (path @ ''.condition'') UnsupportedDigitalCondition
              (''digital trigger condition '' @ debug_condition condition @ '' is unsupported'')]
      else [])"
| "validate_predicate s (Registered predicate operands) path channels =
     (case find (\<lambda>schema. ps_id schema = predicate) (es_predicates s) of
        None \<Rightarrow> [diagnostic (path @ ''.predicate'') UnknownPredicate
                   (''registered trigger predicate '' @ quoted predicate @ '' is unknown'')]
      | Some schema \<Rightarrow>
          concat (map (\<lambda>operand.
            case map_of operands (op_id operand) of
              Some v \<Rightarrow> validate_operand (op_kind operand) v (path @ ''.operands.'' @ op_id operand) channels
            | None \<Rightarrow> [missing_operand path (op_id operand)]) (ps_operands schema)) @
          concat (map (\<lambda>operand.
            if list_ex (\<lambda>schema. op_id schema = operand) (ps_operands schema) then []
            else [diagnostic (path @ ''.operands.'' @ operand) UnexpectedOperand
                    (''trigger operand '' @ quoted operand @ '' is not registered'')]) (map fst operands)))"

definition indexed_path :: "string \<Rightarrow> nat \<Rightarrow> string" where
  "indexed_path path i = path @ ''['' @ show_nat i @ '']''"

text \<open>The loop over the predicates of a stage carries the channels it has seen.\<close>

fun validate_predicates :: "trigger_editor_schema \<Rightarrow> string \<Rightarrow> capture_channel_id list \<Rightarrow> nat \<Rightarrow> capture_channel_id list \<Rightarrow>
    trigger_predicate list \<Rightarrow> trigger_validation_errors" where
  "validate_predicates s stage_path channels i digital_channels [] = []"
| "validate_predicates s stage_path channels i digital_channels (p # ps) =
     (let path = indexed_path (stage_path @ ''.predicates'') i;
          (duplicate, seen) = (case p of
            Digital channel _ \<Rightarrow> (if channel \<in> set digital_channels
              then [diagnostic (path @ ''.channel'') DuplicateChannel
                      (''capture channel '' @ quoted channel @ '' appears more than once in this trigger stage'')] else [],
              channel # digital_channels)
          | Registered _ _ \<Rightarrow> ([], digital_channels))
      in duplicate @ validate_predicate s p path channels @
         validate_predicates s stage_path channels (Suc i) seen ps)"

definition validate_stage :: "trigger_editor_schema \<Rightarrow> capture_channel_id list \<Rightarrow> nat \<Rightarrow> trigger_stage \<Rightarrow>
    trigger_validation_errors" where
  "validate_stage s channels i stage =
     (let stage_path = indexed_path ''program.stages'' i in
      (if st_predicates stage = [] \<or> es_maximum_predicates_per_stage s < length (st_predicates stage)
       then [diagnostic (stage_path @ ''.predicates'') PredicateLimit
               (''trigger stage requires 1..='' @ show_nat (es_maximum_predicates_per_stage s) @ '' predicates'')] else []) @
      (if st_logic stage \<notin> set (es_logic_operators s)
       then [diagnostic (stage_path @ ''.logic'') UnsupportedLogic
               (''trigger stage logic '' @ debug_logic (st_logic stage) @ '' is unsupported'')] else []) @
      (if st_inverted stage \<and> \<not> es_stage_inversion s
       then [diagnostic (stage_path @ ''.inverted'') UnsupportedInversion ''trigger stage inversion is unsupported''] else []) @
      validate_count s (st_count stage) stage_path @
      validate_predicates s stage_path channels 0 [] (st_predicates stage))"

fun validate_stages :: "trigger_editor_schema \<Rightarrow> capture_channel_id list \<Rightarrow> nat \<Rightarrow> trigger_stage list \<Rightarrow>
    trigger_validation_errors" where
  "validate_stages s channels i [] = []"
| "validate_stages s channels i (stage # stages) =
     validate_stage s channels i stage @ validate_stages s channels (Suc i) stages"

datatype validated_trigger_program = ValidatedTriggerProgram trigger_program

definition program_diagnostics :: "trigger_editor_schema \<Rightarrow> trigger_program \<Rightarrow> capture_channel_id list \<Rightarrow>
    trigger_validation_errors" where
  "program_diagnostics s p channels =
     (if tp_format_version p \<noteq> TRIGGER_PROGRAM_FORMAT_VERSION
      then [diagnostic ''program.format_version'' FormatVersion
              (''trigger program format '' @ show_nat (unat (tp_format_version p)) @ '' is unsupported'')] else []) @
     (if tp_schema_id p \<noteq> es_id s
      then [diagnostic ''program.schema_id'' SchemaIdentity
              (''trigger program targets schema '' @ quoted (tp_schema_id p) @ '', expected '' @ quoted (es_id s))] else []) @
     (if tp_schema_revision p \<noteq> es_revision s
      then [diagnostic ''program.schema_revision'' SchemaRevision
              (''trigger program targets schema revision '' @ show_nat (unat (tp_schema_revision p)) @ '', expected '' @
               show_nat (unat (es_revision s)))] else []) @
     (if tp_stages p = [] \<or> es_maximum_stages s < length (tp_stages p)
      then [diagnostic ''program.stages'' StageLimit
              (''trigger program requires 1..='' @ show_nat (es_maximum_stages s) @ '' stages'')] else []) @
     validate_stages s channels 0 (tp_stages p)"

definition validate_program :: "trigger_editor_schema \<Rightarrow> trigger_program \<Rightarrow> capture_channel_id list \<Rightarrow>
    trigger_validation_errors + validated_trigger_program" where
  "validate_program s p channels =
     (let diagnostics = program_diagnostics s p channels in
      if diagnostics = [] then Inr (ValidatedTriggerProgram p) else Inl diagnostics)"

section \<open>Lane controls\<close>

datatype trigger_program_form =
    FreeRun
  | CommonDigital "(capture_channel_id, simple_trigger_condition) btree_map"
  | Advanced

datatype trigger_program_edit_error =
    Validation trigger_validation_errors
  | AdvancedProgram
  | UnknownEditChannel capture_channel_id
  | Schema trigger_schema_error

definition simple_program :: "trigger_editor_schema \<Rightarrow> (capture_channel_id \<times> simple_trigger_condition) list \<Rightarrow>
    trigger_schema_error + trigger_program option" where
  "simple_program s conditions =
     (if And \<notin> set (es_logic_operators s) then Inl UnsupportedSimpleProgram
      else
        let predicates = map (\<lambda>(channel, condition). Digital channel condition)
              (filter (\<lambda>(_, condition). condition \<noteq> Ignore) conditions)
        in Inr (if predicates = [] then None
                else Some (trigger_program_new (es_id s) (es_revision s)
                  [\<lparr>st_predicates = predicates, st_logic = And, st_inverted = False, st_count = None\<rparr>])))"

fun collect_conditions :: "(capture_channel_id, simple_trigger_condition) btree_map \<Rightarrow> trigger_predicate list \<Rightarrow>
    trigger_program_form" where
  "collect_conditions conditions [] = CommonDigital conditions"
| "collect_conditions conditions (Registered _ _ # ps) = Advanced"
| "collect_conditions conditions (Digital channel condition # ps) =
     (if map_of conditions channel \<noteq> None then Advanced
      else collect_conditions (btree_insert channel condition conditions) ps)"

definition program_form :: "trigger_editor_schema \<Rightarrow> trigger_program option \<Rightarrow> capture_channel_id list \<Rightarrow>
    trigger_validation_errors + trigger_program_form" where
  "program_form s program channels =
     (case program of
        None \<Rightarrow> Inr FreeRun
      | Some p \<Rightarrow>
          and_then (validate_program s p channels) (\<lambda>_.
          case tp_stages p of
            [stage] \<Rightarrow>
              (if st_logic stage \<noteq> And \<or> st_inverted stage \<or> st_count stage \<noteq> None then Inr Advanced
               else Inr (collect_conditions [] (st_predicates stage)))
          | _ \<Rightarrow> Inr Advanced))"

definition map_err :: "('e \<Rightarrow> 'f) \<Rightarrow> 'e + 'a \<Rightarrow> 'f + 'a" where
  "map_err f r = (case r of Inl e \<Rightarrow> Inl (f e) | Inr x \<Rightarrow> Inr x)"

definition with_simple_condition :: "trigger_editor_schema \<Rightarrow> trigger_program option \<Rightarrow> capture_channel_id list \<Rightarrow>
    capture_channel_id \<Rightarrow> simple_trigger_condition \<Rightarrow> trigger_program_edit_error + trigger_program option" where
  "with_simple_condition s program channels channel condition =
     (if channel \<notin> set channels then Inl (UnknownEditChannel channel)
      else
        and_then (map_err Validation (program_form s program channels)) (\<lambda>form.
        and_then (case form of FreeRun \<Rightarrow> Inr [] | CommonDigital conditions \<Rightarrow> Inr conditions | Advanced \<Rightarrow> Inl AdvancedProgram)
          (\<lambda>conditions.
        let conditions1 = (if condition = Ignore then btree_remove channel conditions
                           else btree_insert channel condition conditions) in
        and_then (map_err Schema (simple_program s conditions1)) (\<lambda>made.
        let program1 = (case made of Some p \<Rightarrow> (if tp_stages p \<noteq> [] then Some p else None) | None \<Rightarrow> None) in
        case program1 of
          None \<Rightarrow> Inr None
        | Some p \<Rightarrow> and_then (map_err Validation (validate_program s p channels)) (\<lambda>_. Inr (Some p))))))"

section \<open>Typing\<close>

text \<open>What a provider promises to execute: the typing judgement that validation decides.\<close>

inductive operand_typed :: "capture_channel_id list \<Rightarrow> trigger_operand_value \<Rightarrow> trigger_operand_kind \<Rightarrow> bool" for channels where
  boolean: "operand_typed channels (Boolean_Value v) (Boolean_Kind dflt)"
| unsigned: "minimum \<le> v \<Longrightarrow> v \<le> maximum \<Longrightarrow> unat step dvd unat v - unat minimum \<Longrightarrow>
    operand_typed channels (Unsigned_Value v) (Unsigned_Kind minimum maximum step dflt)"
| duration: "minimum \<le> v \<Longrightarrow> v \<le> maximum \<Longrightarrow> unat step dvd unat v - unat minimum \<Longrightarrow>
    operand_typed channels (DurationNs_Value v) (DurationNs_Kind minimum maximum step dflt)"
| signed: "sint minimum \<le> sint v \<Longrightarrow> sint v \<le> sint maximum \<Longrightarrow> int (unat step) dvd sint v - sint minimum \<Longrightarrow>
    operand_typed channels (Signed_Value v) (Signed_Kind minimum maximum step dflt)"
| choice: "choice \<in> set choices \<Longrightarrow> operand_typed channels (Choice_Value (choice_id choice)) (Choice_Kind choices dflt)"
| channel: "channel \<in> set channels \<Longrightarrow> operand_typed channels (Channel_Value channel) (Channel_Kind dflt)"
| bytes: "minimum_length \<le> length v \<Longrightarrow> length v \<le> maximum_length \<Longrightarrow>
    operand_typed channels (Bytes_Value v) (Bytes_Kind minimum_length maximum_length dflt)"

inductive_simps operand_typed_simps:
  "operand_typed channels v (Boolean_Kind dflt)"
  "operand_typed channels v (Unsigned_Kind minimum maximum step dflt)"
  "operand_typed channels v (DurationNs_Kind minimum maximum step dflt)"
  "operand_typed channels v (Signed_Kind minimum maximum step dflt)"
  "operand_typed channels v (Choice_Kind choices dflt)"
  "operand_typed channels v (Channel_Kind dflt)"
  "operand_typed channels v (Bytes_Kind minimum_length maximum_length dflt)"

inductive predicate_typed :: "trigger_editor_schema \<Rightarrow> capture_channel_id list \<Rightarrow> trigger_predicate \<Rightarrow> bool" for s channels where
  digital: "channel \<in> set channels \<Longrightarrow> condition \<noteq> Ignore \<Longrightarrow> condition \<in> set (es_digital_conditions s) \<Longrightarrow>
    predicate_typed s channels (Digital channel condition)"
| registered: "find (\<lambda>schema. ps_id schema = predicate) (es_predicates s) = Some schema \<Longrightarrow>
    (\<And>operand. operand \<in> set (ps_operands schema) \<Longrightarrow>
       \<exists>v. map_of operands (op_id operand) = Some v \<and> operand_typed channels v (op_kind operand)) \<Longrightarrow>
    fst ` set operands \<subseteq> op_id ` set (ps_operands schema) \<Longrightarrow>
    predicate_typed s channels (Registered predicate operands)"

inductive_simps predicate_typed_simps:
  "predicate_typed s channels (Digital channel condition)"
  "predicate_typed s channels (Registered predicate operands)"

fun digital_channels :: "trigger_predicate list \<Rightarrow> capture_channel_id list" where
  "digital_channels [] = []"
| "digital_channels (Digital channel _ # ps) = channel # digital_channels ps"
| "digital_channels (Registered _ _ # ps) = digital_channels ps"

definition count_typed :: "trigger_editor_schema \<Rightarrow> trigger_count option \<Rightarrow> bool" where
  "count_typed s count \<longleftrightarrow> (\<forall>c. count = Some c \<longrightarrow> (\<exists>capabilities. es_count s = Some capabilities \<and>
     tc_mode c \<in> set (cc_modes capabilities) \<and> cc_minimum capabilities \<le> tc_value c \<and> tc_value c \<le> cc_maximum capabilities \<and>
     unat (cc_step capabilities) dvd unat (tc_value c) - unat (cc_minimum capabilities)))"

definition stage_typed :: "trigger_editor_schema \<Rightarrow> capture_channel_id list \<Rightarrow> trigger_stage \<Rightarrow> bool" where
  "stage_typed s channels stage \<longleftrightarrow>
     st_predicates stage \<noteq> [] \<and> length (st_predicates stage) \<le> es_maximum_predicates_per_stage s \<and>
     st_logic stage \<in> set (es_logic_operators s) \<and> (st_inverted stage \<longrightarrow> es_stage_inversion s) \<and>
     count_typed s (st_count stage) \<and> distinct (digital_channels (st_predicates stage)) \<and>
     (\<forall>p\<in>set (st_predicates stage). predicate_typed s channels p)"

definition program_typed :: "trigger_editor_schema \<Rightarrow> capture_channel_id list \<Rightarrow> trigger_program \<Rightarrow> bool" where
  "program_typed s channels p \<longleftrightarrow>
     tp_format_version p = TRIGGER_PROGRAM_FORMAT_VERSION \<and> tp_schema_id p = es_id s \<and> tp_schema_revision p = es_revision s \<and>
     tp_stages p \<noteq> [] \<and> length (tp_stages p) \<le> es_maximum_stages s \<and> (\<forall>stage\<in>set (tp_stages p). stage_typed s channels stage)"

section \<open>Validation decides typing\<close>

lemma multiple_of_difference:
  "minimum \<le> v \<Longrightarrow> is_multiple_of (unat (v - minimum)) (unat step) \<longleftrightarrow> unat step dvd unat v - unat minimum"
  for v minimum step :: u64
  by (simp add: is_multiple_of_def unat_sub dvd_eq_mod_eq_0)

lemma multiple_of_offset:
  assumes "sint minimum \<le> sint v"
  shows "is_multiple_of (signed_offset minimum v) (unat step) \<longleftrightarrow> int (unat step) dvd sint v - sint minimum"
proof -
  have offset: "signed_offset minimum v = nat (sint v - sint minimum)" using assms by (simp add: signed_offset_def)
  have "int (signed_offset minimum v) = sint v - sint minimum" unfolding offset using assms by simp
  then show ?thesis
    unfolding is_multiple_of_def dvd_eq_mod_eq_0 [symmetric] by (metis int_dvd_int_iff)
qed

lemma validate_unsigned_value_iff:
  "validate_unsigned_value minimum maximum step v path = [] \<longleftrightarrow>
    minimum \<le> v \<and> v \<le> maximum \<and> unat step dvd unat v - unat minimum"
  by (auto simp: validate_unsigned_value_def multiple_of_difference not_less)

lemma validate_signed_value_iff:
  "validate_signed_value minimum maximum step v path = [] \<longleftrightarrow>
    sint minimum \<le> sint v \<and> sint v \<le> sint maximum \<and> int (unat step) dvd sint v - sint minimum"
  unfolding validate_signed_value_def using multiple_of_offset [of minimum v step] by (simp add: not_less)

lemma validate_operand_typed: "validate_operand kind v path channels = [] \<longleftrightarrow> operand_typed channels v kind"
proof -
  note iffs = validate_operand_def wrong_type_def operand_typed_simps validate_unsigned_value_iff validate_signed_value_iff
  show ?thesis
  proof (cases kind)
    case (Choice_Kind choices dflt)
    show ?thesis unfolding Choice_Kind by (cases v) (auto simp: iffs list_ex_iff)
  next
    case (Bytes_Kind minimum_length maximum_length dflt)
    show ?thesis unfolding Bytes_Kind by (cases v) (simp_all add: iffs not_less)
  qed (cases v; simp add: iffs)+
qed

lemma validate_count_typed: "validate_count s count path = [] \<longleftrightarrow> count_typed s count"
  by (auto simp: validate_count_def count_typed_def not_less multiple_of_difference split: option.splits)

lemma validate_predicate_typed: "validate_predicate s p path channels = [] \<longleftrightarrow> predicate_typed s channels p"
proof (cases p)
  case (Digital channel condition)
  then show ?thesis by (auto simp: predicate_typed_simps)
next
  case (Registered predicate operands)
  have unexpected: "(\<forall>operand\<in>set (map fst operands). list_ex (\<lambda>schema. op_id schema = operand) (ps_operands schema)) \<longleftrightarrow>
      fst ` set operands \<subseteq> op_id ` set (ps_operands schema)" for schema
    by (simp add: list_ex_iff image_subset_iff image_iff) metis
  show ?thesis
  proof (cases "find (\<lambda>schema. ps_id schema = predicate) (es_predicates s)")
    case (Some schema)
    then show ?thesis using Registered unexpected [of schema]
      by (auto simp: predicate_typed_simps validate_operand_typed split: option.splits if_splits)
  qed (simp add: Registered predicate_typed_simps)
qed

lemma validate_predicates_typed:
  "validate_predicates s path channels i seen ps = [] \<longleftrightarrow>
    distinct (digital_channels ps) \<and> set (digital_channels ps) \<inter> set seen = {} \<and> (\<forall>p\<in>set ps. predicate_typed s channels p)"
proof (induction ps arbitrary: i seen)
  case (Cons p ps)
  show ?case
    by (cases p) (auto simp: Let_def Cons.IH validate_predicate_typed simp del: validate_predicate.simps split: if_splits)
qed simp

lemma validate_stage_typed: "validate_stage s channels i stage = [] \<longleftrightarrow> stage_typed s channels stage"
  by (auto simp: validate_stage_def Let_def validate_count_typed validate_predicates_typed stage_typed_def not_less)

lemma validate_stages_typed: "validate_stages s channels i stages = [] \<longleftrightarrow> (\<forall>stage\<in>set stages. stage_typed s channels stage)"
  by (induction stages arbitrary: i) (auto simp: validate_stage_typed)

lemma program_diagnostics_typed: "program_diagnostics s p channels = [] \<longleftrightarrow> program_typed s channels p"
  by (auto simp: program_diagnostics_def program_typed_def validate_stages_typed not_less)

section \<open>Lane editing\<close>

fun lane_conditions :: "trigger_program_form \<Rightarrow> (capture_channel_id \<rightharpoonup> simple_trigger_condition) option" where
  "lane_conditions FreeRun = Some Map.empty"
| "lane_conditions (CommonDigital m) = Some (map_of m)"
| "lane_conditions Advanced = None"

abbreviation digital_of :: "capture_channel_id \<times> simple_trigger_condition \<Rightarrow> trigger_predicate" where
  "digital_of \<equiv> \<lambda>(channel, condition). Digital channel condition"

lemma digital_channels_of [simp]: "digital_channels (map digital_of m) = map fst m"
  by (induction m) auto

lemma collect_conditions_digital:
  assumes "distinct (map fst xs)" "set (map fst xs) \<inter> fst ` set acc = {}" "increasing acc"
  shows "collect_conditions acc (map digital_of xs) = CommonDigital (fold (\<lambda>(k, v). btree_insert k v) xs acc)"
  using assms
proof (induction xs arbitrary: acc)
  case (Cons x xs)
  obtain channel condition where x: "x = (channel, condition)" by fastforce
  have "map_of acc channel = None" using Cons.prems(2) x by (auto simp: map_of_eq_None_iff)
  moreover have "set (map fst xs) \<inter> fst ` set (btree_insert channel condition acc) = {}"
    using Cons.prems x by (auto simp: btree.insert_keys)
  ultimately show ?case
    using Cons.IH [of "btree_insert channel condition acc"] Cons.prems x by (simp add: btree.insert_increasing)
qed simp

lemma map_of_rev_distinct: "distinct (map fst xs) \<Longrightarrow> map_of (rev xs) = map_of xs"
proof (induction xs)
  case (Cons x xs)
  then have "map_of xs (fst x) = None" by (simp add: map_of_eq_None_iff)
  with Cons show ?case by (cases x) (auto simp: fun_eq_iff map_add_def split: option.splits)
qed simp

lemma collect_increasing:
  assumes "increasing m"
  shows "collect_conditions [] (map digital_of m) = CommonDigital m"
proof -
  have d: "distinct (map fst m)" using assms by (rule increasing_distinct)
  note c = btree.collect_entries [of "[] :: (capture_channel_id, simple_trigger_condition) btree_map" m]
  have "fold (\<lambda>(k, v). btree_insert k v) m [] = m"
    using c assms map_of_rev_distinct [OF d] by (intro btree.increasing_unique) simp_all
  then show ?thesis using collect_conditions_digital [OF d, of "[]"] by simp
qed

lemma collect_conditions_InrD:
  assumes "collect_conditions acc ps = CommonDigital m" "increasing acc"
  shows "increasing m \<and> (\<forall>kv\<in>set m. kv \<in> set acc \<or> digital_of kv \<in> set ps)"
  using assms
proof (induction acc ps rule: collect_conditions.induct)
  case (3 conditions channel condition ps)
  from 3(2) have *: "collect_conditions (btree_insert channel condition conditions) ps = CommonDigital m"
    "map_of conditions channel = None" by (auto split: if_splits)
  have inc: "increasing (btree_insert channel condition conditions)" using 3(3) by (rule btree.insert_increasing)
  have "kv \<in> set conditions \<or> kv = (channel, condition)" if "kv \<in> set (btree_insert channel condition conditions)" for kv
    using that by (induction channel condition conditions rule: btree_insert.induct) (auto split: if_splits)
  with 3(1) [OF _ * (1) inc] *(2) show ?case by fastforce
qed auto

text \<open>The conditions that the lane controls find in a program: in order, and never the omitted one.\<close>

lemma program_form_CommonD:
  assumes "program_form s program channels = Inr (CommonDigital m)"
  shows "increasing m" "\<forall>(channel, condition)\<in>set m. channel \<in> set channels \<and> condition \<noteq> Ignore \<and> condition \<in> set (es_digital_conditions s)"
proof -
  from assms obtain p stage where p: "program = Some p" "tp_stages p = [stage]" "program_typed s channels p"
    "collect_conditions [] (st_predicates stage) = CommonDigital m"
    by (auto simp: program_form_def and_then_Inr_iff validate_program_def program_diagnostics_typed Let_def
        split: option.splits list.splits if_splits)
  note c = collect_conditions_InrD [OF p(4)]
  show "increasing m" using c by simp
  have "stage_typed s channels stage" using p(2,3) by (simp add: program_typed_def)
  then have "predicate_typed s channels (digital_of kv)" if "kv \<in> set m" for kv
    using c that by (auto simp: stage_typed_def)
  then show "\<forall>(channel, condition)\<in>set m. channel \<in> set channels \<and> condition \<noteq> Ignore \<and> condition \<in> set (es_digital_conditions s)"
    by (force simp: predicate_typed_simps)
qed

definition simple_stage :: "(capture_channel_id, simple_trigger_condition) btree_map \<Rightarrow> trigger_stage" where
  "simple_stage m = \<lparr>st_predicates = map digital_of m, st_logic = And, st_inverted = False, st_count = None\<rparr>"

lemma simple_program_eq:
  assumes "\<forall>(_, condition)\<in>set m. condition \<noteq> Ignore" "And \<in> set (es_logic_operators s)"
  shows "simple_program s m =
    Inr (if m = [] then None else Some (trigger_program_new (es_id s) (es_revision s) [simple_stage m]))"
proof -
  have "filter (\<lambda>(_, condition). condition \<noteq> Ignore) m = m" using assms(1) by (auto intro: filter_True)
  then show ?thesis using assms(2) by (simp add: simple_program_def simple_stage_def)
qed

lemma program_form_simple:
  assumes "increasing m" "validate_program s (trigger_program_new i r [simple_stage m]) channels = Inr v"
  shows "program_form s (Some (trigger_program_new i r [simple_stage m])) channels = Inr (CommonDigital m)"
  using assms(2) collect_increasing [OF assms(1)]
  by (simp add: program_form_def trigger_program_new_def simple_stage_def)

definition edited_conditions :: "(capture_channel_id, simple_trigger_condition) btree_map \<Rightarrow> capture_channel_id \<Rightarrow>
    simple_trigger_condition \<Rightarrow> (capture_channel_id, simple_trigger_condition) btree_map" where
  "edited_conditions m channel condition =
     (if condition = Ignore then btree_remove channel m else btree_insert channel condition m)"

lemma edited_conditions_facts:
  assumes "increasing m" "\<forall>(_, condition)\<in>set m. condition \<noteq> Ignore"
  shows "increasing (edited_conditions m channel condition)"
    "map_of (edited_conditions m channel condition) =
      (if condition = Ignore then (map_of m)(channel := None) else (map_of m)(channel \<mapsto> condition))"
    "\<forall>(_, k)\<in>set (edited_conditions m channel condition). k \<noteq> Ignore"
proof -
  show inc: "increasing (edited_conditions m channel condition)"
    using assms(1) by (simp add: edited_conditions_def btree.insert_increasing btree.remove_increasing)
  show lookup: "map_of (edited_conditions m channel condition) =
      (if condition = Ignore then (map_of m)(channel := None) else (map_of m)(channel \<mapsto> condition))"
    by (simp add: edited_conditions_def btree.lookup_insert btree.lookup_remove)
  show "\<forall>(_, k)\<in>set (edited_conditions m channel condition). k \<noteq> Ignore"
  proof clarify
    fix c assume "(c, Ignore) \<in> set (edited_conditions m channel condition)"
    then have "map_of (edited_conditions m channel condition) c = Some Ignore"
      using increasing_distinct [OF inc] by simp
    then have "map_of m c = Some Ignore" by (auto simp: lookup split: if_splits)
    then show False using assms(2) by (auto dest: map_of_SomeD)
  qed
qed

text \<open>What an edit does, once the program has the common form with the conditions \<open>m\<close>.\<close>

lemma with_simple_condition_eq:
  assumes "channel \<in> set channels" "program_form s program channels = Inr form" "lane_conditions form = Some f"
  obtains m where "map_of m = f" "increasing m" "\<forall>(_, condition)\<in>set m. condition \<noteq> Ignore"
    "with_simple_condition s program channels channel condition =
      and_then (map_err Schema (simple_program s (edited_conditions m channel condition))) (\<lambda>made.
      case made of None \<Rightarrow> Inr None
      | Some p \<Rightarrow> if tp_stages p \<noteq> [] then and_then (map_err Validation (validate_program s p channels)) (\<lambda>_. Inr (Some p)) else Inr None)"
proof (cases form)
  case FreeRun
  then show ?thesis using assms that [of "[]"]
    by (auto simp: with_simple_condition_def map_err_def edited_conditions_def Let_def and_then_def split: sum.splits option.splits if_splits)
next
  case (CommonDigital m)
  then have "increasing m" "\<forall>(_, condition)\<in>set m. condition \<noteq> Ignore"
    using program_form_CommonD assms(2) by force+
  moreover have "map_of m = f" using assms(3) CommonDigital by simp
  ultimately show ?thesis using assms(1,2) CommonDigital that [of m]
    by (auto simp: with_simple_condition_def map_err_def edited_conditions_def Let_def and_then_def split: sum.splits option.splits if_splits)
next
  case Advanced
  then show ?thesis using assms(3) by simp
qed

section \<open>Properties\<close>

text \<open>
  C31: Validation decides the typing of trigger programs. A program is accepted, unchanged, exactly
  when all of this holds: it has the current format and the identity and revision of the schema; it has at least
  one stage and no more than the schema allows; every stage has at least one predicate and no more than the
  schema allows, a logic operator that the schema offers, an inversion only if the schema supports it, and a count
  only if the schema has one with that mode, range and step; no channel occurs twice among the digital predicates
  of a stage; every digital predicate names an enabled channel and an advertised condition other than to ignore;
  and every registered predicate has exactly the operands of its schema, each with a value of the operand's
  kind, range, step, choices, channels or length. Every other program is refused with at least one diagnostic.
\<close>
theorem validate_program_decides_typing:
  "(validate_program s p channels = Inr (ValidatedTriggerProgram p) \<longleftrightarrow> program_typed s channels p) \<and>
   (\<not> program_typed s channels p \<longrightarrow> (\<exists>ds. ds \<noteq> [] \<and> validate_program s p channels = Inl ds))"
  using program_diagnostics_typed [of s p channels] by (auto simp: validate_program_def Let_def)

definition example_schema :: trigger_editor_schema where
  "example_schema =
     \<lparr>es_id = ''demo'', es_revision = 3, es_maximum_stages = 1, es_maximum_predicates_per_stage = 4,
      es_logic_operators = [And], es_digital_conditions = [Low, High, Rising], es_stage_inversion = False,
      es_count = None, es_predicates = []\<rparr>"

definition example_program :: trigger_program where
  "example_program = trigger_program_new ''demo'' 3 [simple_stage [(''D0'', High)]]"

lemma example_program_typed: "program_typed example_schema [''D0'', ''D1''] example_program"
  by (simp add: program_typed_def stage_typed_def count_typed_def predicate_typed_simps example_schema_def example_program_def
      trigger_program_new_def simple_stage_def)

theorem validate_program_decides_typing_witness:
  "validate_program example_schema example_program [''D0'', ''D1''] = Inr (ValidatedTriggerProgram example_program)"
  using validate_program_decides_typing [of example_schema example_program "[''D0'', ''D1'']"] example_program_typed by simp

text \<open>
  C32: Editing one lane changes that lane only. After a successful edit the program again has the form
  that lane controls understand, and the conditions it shows are the previous ones with the edited
  channel set to the new condition, or without it when the new condition is to ignore the channel.
\<close>
theorem lane_edit_round_trip:
  assumes "with_simple_condition s program channels channel condition = Inr program'"
  shows "\<exists>form f form'. program_form s program channels = Inr form \<and> lane_conditions form = Some f \<and>
    program_form s program' channels = Inr form' \<and>
    lane_conditions form' = Some (if condition = Ignore then f(channel := None) else f(channel \<mapsto> condition))"
proof -
  have enabled: "channel \<in> set channels" using assms by (simp add: with_simple_condition_def split: if_splits)
  then obtain form where form: "program_form s program channels = Inr form"
    using assms by (cases "program_form s program channels") (simp_all add: with_simple_condition_def map_err_def)
  have "form \<noteq> Advanced" using assms enabled form by (auto simp: with_simple_condition_def map_err_def)
  then obtain f where f: "lane_conditions form = Some f" by (cases form) auto
  obtain m where m: "map_of m = f" "increasing m" "\<forall>(_, condition)\<in>set m. condition \<noteq> Ignore"
    "with_simple_condition s program channels channel condition =
      and_then (map_err Schema (simple_program s (edited_conditions m channel condition))) (\<lambda>made.
      case made of None \<Rightarrow> Inr None
      | Some p \<Rightarrow> if tp_stages p \<noteq> [] then and_then (map_err Validation (validate_program s p channels)) (\<lambda>_. Inr (Some p)) else Inr None)"
    using with_simple_condition_eq [OF enabled form f] by blast
  let ?m = "edited_conditions m channel condition"
  note facts = edited_conditions_facts [OF m(2,3), of channel condition]
  have "And \<in> set (es_logic_operators s)"
    using assms m(4) by (auto simp: simple_program_def map_err_def split: if_splits)
  note made = simple_program_eq [OF facts(3) this]
  have "\<exists>form'. program_form s program' channels = Inr form' \<and> lane_conditions form' = Some (map_of ?m)"
  proof (cases "?m = []")
    case True
    then have "program' = None" using assms m(4) made by (simp add: map_err_def)
    then show ?thesis using True by (simp add: program_form_def)
  next
    case False
    let ?p = "trigger_program_new (es_id s) (es_revision s) [simple_stage ?m]"
    have "tp_stages ?p \<noteq> []" by (simp add: trigger_program_new_def)
    with False assms m(4) made obtain v where "program' = Some ?p" "validate_program s ?p channels = Inr v"
      by (auto simp: map_err_def and_then_Inr_iff split: sum.splits)
    with program_form_simple [OF facts(1)] show ?thesis by simp
  qed
  with form f facts(2) m(1) show ?thesis by auto
qed

theorem lane_edit_round_trip_witness:
  "\<exists>program form'. with_simple_condition example_schema (Some example_program) [''D0'', ''D1''] ''D1'' Rising = Inr program \<and>
    program_form example_schema program [''D0'', ''D1''] = Inr form' \<and>
    lane_conditions form' = Some [''D0'' \<mapsto> High, ''D1'' \<mapsto> Rising]"
proof -
  let ?program = "Some (trigger_program_new ''demo'' 3 [simple_stage [(''D0'', High), (''D1'', Rising)]])"
  have edit: "with_simple_condition example_schema (Some example_program) [''D0'', ''D1''] ''D1'' Rising = Inr ?program"
    by code_simp
  have form: "program_form example_schema (Some example_program) [''D0'', ''D1''] = Inr (CommonDigital [(''D0'', High)])"
    by code_simp
  from lane_edit_round_trip [OF edit] form edit show ?thesis by auto
qed

text \<open>
  C33: When an edit is refused, and only then. A disabled channel is refused with its name, a program
  that does not validate with its diagnostics, and a program in advanced form is never replaced. In
  the remaining cases the edit succeeds if the schema has the conjunction, the condition is one that
  it advertises or the channel is to be ignored, and the resulting lanes are within its limits.
\<close>
theorem lane_edit_errors:
  shows "(channel \<notin> set channels \<longrightarrow>
      with_simple_condition s program channels channel condition = Inl (UnknownEditChannel channel)) \<and>
    (\<forall>ds. channel \<in> set channels \<and> program_form s program channels = Inl ds \<longrightarrow>
      with_simple_condition s program channels channel condition = Inl (Validation ds)) \<and>
    (channel \<in> set channels \<and> program_form s program channels = Inr Advanced \<longrightarrow>
      with_simple_condition s program channels channel condition = Inl AdvancedProgram) \<and>
    (\<forall>form f. channel \<in> set channels \<and> program_form s program channels = Inr form \<and> lane_conditions form = Some f \<and>
      And \<in> set (es_logic_operators s) \<and> 0 < es_maximum_stages s \<and>
      (condition = Ignore \<or> condition \<in> set (es_digital_conditions s)) \<and>
      card (dom (if condition = Ignore then f(channel := None) else f(channel \<mapsto> condition))) \<le> es_maximum_predicates_per_stage s \<longrightarrow>
      (\<exists>program'. with_simple_condition s program channels channel condition = Inr program'))"
proof (intro conjI allI impI)
  fix form f
  assume a: "channel \<in> set channels \<and> program_form s program channels = Inr form \<and> lane_conditions form = Some f \<and>
      And \<in> set (es_logic_operators s) \<and> 0 < es_maximum_stages s \<and>
      (condition = Ignore \<or> condition \<in> set (es_digital_conditions s)) \<and>
      card (dom (if condition = Ignore then f(channel := None) else f(channel \<mapsto> condition))) \<le> es_maximum_predicates_per_stage s"
  then obtain m where m: "map_of m = f" "increasing m" "\<forall>(_, condition)\<in>set m. condition \<noteq> Ignore"
    "with_simple_condition s program channels channel condition =
      and_then (map_err Schema (simple_program s (edited_conditions m channel condition))) (\<lambda>made.
      case made of None \<Rightarrow> Inr None
      | Some p \<Rightarrow> if tp_stages p \<noteq> [] then and_then (map_err Validation (validate_program s p channels)) (\<lambda>_. Inr (Some p)) else Inr None)"
    using with_simple_condition_eq [of channel channels s program form f condition] by blast
  let ?m = "edited_conditions m channel condition"
  let ?p = "trigger_program_new (es_id s) (es_revision s) [simple_stage ?m]"
  note facts = edited_conditions_facts [OF m(2,3), of channel condition]
  have old: "\<forall>c k. f c = Some k \<longrightarrow> c \<in> set channels \<and> k \<in> set (es_digital_conditions s)"
  proof (cases form)
    case (CommonDigital m')
    with a program_form_CommonD(2) [of s program channels m'] show ?thesis by (auto dest: map_of_SomeD)
  qed (use a in auto)
  have lanes: "\<forall>(c, k)\<in>set ?m. c \<in> set channels \<and> k \<in> set (es_digital_conditions s)"
  proof clarify
    fix c k assume "(c, k) \<in> set ?m"
    then have "map_of ?m c = Some k" using increasing_distinct [OF facts(1)] by simp
    with a old facts(2) m(1) show "c \<in> set channels \<and> k \<in> set (es_digital_conditions s)" by (auto split: if_splits)
  qed
  have "length ?m = card (dom (map_of ?m))"
    using increasing_distinct [OF facts(1)] by (metis distinct_card dom_map_of_conv_image_fst length_map set_map)
  then have "length ?m \<le> es_maximum_predicates_per_stage s" using a facts(2) m(1) by metis
  then have "program_typed s channels ?p" if "?m \<noteq> []"
    using that a lanes facts(1,3) increasing_distinct [OF facts(1)]
    by (auto simp: program_typed_def trigger_program_new_def stage_typed_def simple_stage_def count_typed_def predicate_typed_simps)
  then have valid: "validate_program s ?p channels = Inr (ValidatedTriggerProgram ?p)" if "?m \<noteq> []"
    using that by (simp add: validate_program_def program_diagnostics_typed)
  have "And \<in> set (es_logic_operators s)" using a by simp
  from simple_program_eq [OF facts(3) this] valid m(4)
  show "\<exists>program'. with_simple_condition s program channels channel condition = Inr program'"
    by (cases "?m = []") (simp_all add: map_err_def trigger_program_new_def)
qed (simp_all add: with_simple_condition_def map_err_def)

theorem lane_edit_errors_witness:
  "with_simple_condition example_schema None [''D0''] ''D7'' High = Inl (UnknownEditChannel ''D7'') \<and>
   (\<exists>program'. with_simple_condition example_schema None [''D0''] ''D0'' High = Inr program')"
  using lane_edit_errors [of "''D7''" "[''D0'']" example_schema None High]
    lane_edit_errors [of "''D0''" "[''D0'']" example_schema None High]
  by (auto simp: program_form_def example_schema_def)

end
