(* ===== verification/Graph_Document.thy ===== *)
theory Graph_Document
  imports Ordered_Map
begin

text \<open>
  The persisted graph document, \<^verbatim>\<open>crates/node_graph_document/src\<close>: sockets (\<^verbatim>\<open>socket.rs\<close>), nodes
  (\<^verbatim>\<open>node.rs\<close>) and the graph with its wires, growing input groups and reroutes (\<^verbatim>\<open>graph.rs\<close>). JSON
  values belong to another crate and are a type parameter, coordinates are the bits of their floats,
  and the hash map of nodes is a map. An edit that does not return, because it indexes a missing
  socket or because the recursion along reroutes never ends, is \<open>None\<close>; the depth to which that
  recursion is followed is an argument.
\<close>

section \<open>Sockets\<close>

datatype socket_direction = Input | Output

datatype socket_shape = Circle | Diamond | Square | Triangle

type_synonym node_id = u32

record socket_id =
  sid_node :: node_id
  sid_index :: nat
  sid_direction :: socket_direction

record variadic_info =
  vi_base :: string
  vi_max :: nat
  vi_placeholder :: bool

type_synonym graph_color = "u8 list"

definition from_rgb :: "u8 \<Rightarrow> u8 \<Rightarrow> u8 \<Rightarrow> graph_color" where
  "from_rgb red green blue = [red, green, blue, 255]"

record 'j socket =
  so_schema_id :: string
  so_name :: string
  so_type_name :: string
  so_color :: graph_color
  so_shape :: socket_shape
  so_allowed :: "string list"
  so_resolved_type :: "string option"
  so_def_index :: nat
  so_variadic :: "variadic_info option"
  so_visible :: bool
  so_editor_visible :: bool
  so_hidden :: bool
  so_has_control :: bool
  so_extensions :: "(string, 'j) btree_map"

definition effective_type :: "'j socket \<Rightarrow> string" where
  "effective_type s = (case so_resolved_type s of Some t \<Rightarrow> t | None \<Rightarrow> so_type_name s)"

definition accepts_type :: "'j socket \<Rightarrow> string \<Rightarrow> bool" where
  "accepts_type s incoming \<longleftrightarrow>
     incoming = ''Any'' \<or> so_type_name s = ''Any'' \<or> incoming = so_type_name s \<or> incoming \<in> set (so_allowed s)"

definition is_variadic_placeholder :: "'j socket \<Rightarrow> bool" where
  "is_variadic_placeholder s = (case so_variadic s of Some info \<Rightarrow> vi_placeholder info | None \<Rightarrow> False)"

definition is_variadic_member :: "'j socket \<Rightarrow> bool" where
  "is_variadic_member s = (case so_variadic s of Some info \<Rightarrow> \<not> vi_placeholder info | None \<Rightarrow> False)"

definition compatible :: "'j socket \<Rightarrow> socket_direction \<Rightarrow> 'j socket \<Rightarrow> socket_direction \<Rightarrow> bool" where
  "compatible from from_dir to to_dir =
     (if from_dir = to_dir then False
      else let (output, input) = (if from_dir = Output then (from, to) else (to, from))
           in accepts_type input (effective_type output))"

record socket_ref =
  sr_schema_id :: string
  sr_definition_index :: nat
  sr_member_index :: nat
  sr_direction :: socket_direction

definition reference :: "'j socket \<Rightarrow> socket_direction \<Rightarrow> nat \<Rightarrow> socket_ref" where
  "reference s direction member_index =
     \<lparr>sr_schema_id = so_schema_id s, sr_definition_index = so_def_index s, sr_member_index = member_index,
      sr_direction = direction\<rparr>"

section \<open>Nodes\<close>

datatype node_kind = Regular | Reroute

datatype badge_severity = Info | Warning | Error

record node_badge =
  nb_text :: string
  nb_severity :: badge_severity

record graph_position =
  gp_x :: u32
  gp_y :: u32

record 'j node =
  nd_id :: node_id
  nd_kind :: node_kind
  nd_title :: string
  nd_type_name :: string
  nd_header_color :: graph_color
  nd_pos :: graph_position
  nd_inputs :: "'j socket list"
  nd_outputs :: "'j socket list"
  nd_collapsed :: bool
  nd_muted :: bool
  nd_state :: 'j
  nd_property_count :: nat
  nd_badge :: "node_badge option"
  nd_selected :: bool

definition def_name :: "'j node \<Rightarrow> string" where
  "def_name n = (if nd_type_name n = [] then nd_title n else nd_type_name n)"

definition socket_reference :: "'j node \<Rightarrow> socket_direction \<Rightarrow> nat \<Rightarrow> socket_ref option" where
  "socket_reference n direction socket_index =
     (let sockets = (case direction of Input \<Rightarrow> nd_inputs n | Output \<Rightarrow> nd_outputs n) in
      if socket_index < length sockets
      then
        let s = sockets ! socket_index;
            member_index = (if is_variadic_member s
              then length (filter (\<lambda>other. so_def_index other = so_def_index s \<and> is_variadic_member other) (take socket_index sockets))
              else 0)
        in Some (reference s direction member_index)
      else None)"

text \<open>The inputs that are still free are marked in \<open>used\<close>.\<close>

fun claim_input :: "string \<Rightarrow> nat \<Rightarrow> bool list \<Rightarrow> 'j socket list \<Rightarrow> nat option" where
  "claim_input t i (u # us) (s # ss) = (if \<not> u \<and> accepts_type s t then Some i else claim_input t (Suc i) us ss)"
| "claim_input t i _ _ = None"

fun pass_through :: "'j socket list \<Rightarrow> bool list \<Rightarrow> nat \<Rightarrow> 'j socket list \<Rightarrow> (nat \<times> nat) list" where
  "pass_through inputs used out_idx [] = []"
| "pass_through inputs used out_idx (output # outputs) =
     (case claim_input (effective_type output) 0 used inputs of
        None \<Rightarrow> pass_through inputs used (Suc out_idx) outputs
      | Some in_idx \<Rightarrow> (out_idx, in_idx) # pass_through inputs (used[in_idx := True]) (Suc out_idx) outputs)"

definition mute_pass_through_pairs :: "'j node \<Rightarrow> (nat \<times> nat) list" where
  "mute_pass_through_pairs n = pass_through (nd_inputs n) (replicate (length (nd_inputs n)) False) 0 (nd_outputs n)"

definition new_reroute :: "'j \<Rightarrow> node_id \<Rightarrow> graph_position \<Rightarrow> 'j node" where
  "new_reroute null i pos =
     (let input = \<lparr>so_schema_id = [], so_name = [], so_type_name = ''Any'', so_color = from_rgb 150 150 150,
                   so_shape = Circle, so_allowed = [], so_resolved_type = None, so_def_index = 0, so_variadic = None,
                   so_visible = True, so_editor_visible = True, so_hidden = False, so_has_control = False,
                   so_extensions = []\<rparr>
      in \<lparr>nd_id = i, nd_kind = Reroute, nd_title = [], nd_type_name = [], nd_header_color = from_rgb 80 80 80,
          nd_pos = pos, nd_inputs = [input], nd_outputs = [input], nd_collapsed = False, nd_muted = False,
          nd_state = null, nd_property_count = 0, nd_badge = None, nd_selected = False\<rparr>)"

definition blank_node :: "'j \<Rightarrow> node_id \<Rightarrow> string \<Rightarrow> graph_position \<Rightarrow> 'j node" where
  "blank_node null i type_name pos =
     \<lparr>nd_id = i, nd_kind = Regular, nd_title = type_name, nd_type_name = type_name,
      nd_header_color = from_rgb 80 80 80, nd_pos = pos, nd_inputs = [], nd_outputs = [], nd_collapsed = False,
      nd_muted = False, nd_state = null, nd_property_count = 0, nd_badge = None, nd_selected = False\<rparr>"

section \<open>The document\<close>

record connection =
  co_from :: socket_id
  co_to :: socket_id

record frame =
  fr_id :: u32
  fr_label :: string
  fr_color :: graph_color
  fr_node_ids :: "node_id list"
  fr_selected :: bool

record 'j graph_state =
  gs_nodes :: "node_id \<rightharpoonup> 'j node"
  gs_connections :: "connection list"
  gs_frames :: "frame list"
  gs_next_id :: u32
  gs_next_frame_id :: u32
  gs_semantic_revision :: u64
  gs_extensions :: "(string, 'j) btree_map"

definition graph_default :: "'j graph_state" where
  "graph_default = \<lparr>gs_nodes = Map.empty, gs_connections = [], gs_frames = [], gs_next_id = 0, gs_next_frame_id = 0,
     gs_semantic_revision = 0, gs_extensions = []\<rparr>"

definition mark_semantic_change :: "'j graph_state \<Rightarrow> 'j graph_state" where
  "mark_semantic_change g = g\<lparr>gs_semantic_revision := saturating_add (gs_semantic_revision g) 1\<rparr>"

definition mark_semantic_change_after :: "'j graph_state \<Rightarrow> u64 \<Rightarrow> 'j graph_state" where
  "mark_semantic_change_after g previous =
     g\<lparr>gs_semantic_revision := saturating_add (max (gs_semantic_revision g) previous) 1\<rparr>"

definition set_extension :: "'j graph_state \<Rightarrow> string \<Rightarrow> 'j \<Rightarrow> 'j graph_state" where
  "set_extension g k v = g\<lparr>gs_extensions := btree_insert k v (gs_extensions g)\<rparr>"

definition set_semantic_extension :: "'j graph_state \<Rightarrow> string \<Rightarrow> 'j \<Rightarrow> bool \<times> 'j graph_state" where
  "set_semantic_extension g k v =
     (if map_of (gs_extensions g) k = Some v then (False, g)
      else (True, mark_semantic_change (g\<lparr>gs_extensions := btree_insert k v (gs_extensions g)\<rparr>)))"

definition remove_extension :: "'j graph_state \<Rightarrow> string \<Rightarrow> 'j graph_state" where
  "remove_extension g k = g\<lparr>gs_extensions := btree_remove k (gs_extensions g)\<rparr>"

definition remove_semantic_extension :: "'j graph_state \<Rightarrow> string \<Rightarrow> bool \<times> 'j graph_state" where
  "remove_semantic_extension g k =
     (let removed = map_of (gs_extensions g) k \<noteq> None;
          g1 = g\<lparr>gs_extensions := btree_remove k (gs_extensions g)\<rparr>
      in (removed, if removed then mark_semantic_change g1 else g1))"

definition alloc_id :: "'j graph_state \<Rightarrow> node_id \<times> 'j graph_state" where
  "alloc_id g = (gs_next_id g, g\<lparr>gs_next_id := gs_next_id g + 1\<rparr>)"

definition add_node :: "'j graph_state \<Rightarrow> 'j node \<Rightarrow> 'j graph_state" where
  "add_node g n = mark_semantic_change (g\<lparr>gs_nodes := (gs_nodes g)(nd_id n \<mapsto> n)\<rparr>)"

section \<open>Input sockets and their wires\<close>

definition input_at :: "'j graph_state \<Rightarrow> socket_id \<Rightarrow> 'j socket option" where
  "input_at g s =
     (case gs_nodes g (sid_node s) of
        None \<Rightarrow> None
      | Some n \<Rightarrow> if sid_index s < length (nd_inputs n) then Some (nd_inputs n ! sid_index s) else None)"

definition output_at :: "'j graph_state \<Rightarrow> socket_id \<Rightarrow> 'j socket option" where
  "output_at g s =
     (case gs_nodes g (sid_node s) of
        None \<Rightarrow> None
      | Some n \<Rightarrow> if sid_index s < length (nd_outputs n) then Some (nd_outputs n ! sid_index s) else None)"

definition update_node :: "'j graph_state \<Rightarrow> node_id \<Rightarrow> ('j node \<Rightarrow> 'j node) \<Rightarrow> 'j graph_state" where
  "update_node g i f = (case gs_nodes g i of None \<Rightarrow> g | Some n \<Rightarrow> g\<lparr>gs_nodes := (gs_nodes g)(i \<mapsto> f n)\<rparr>)"

definition update_input :: "'j graph_state \<Rightarrow> socket_id \<Rightarrow> ('j socket \<Rightarrow> 'j socket) \<Rightarrow> 'j graph_state" where
  "update_input g s f =
     update_node g (sid_node s) (\<lambda>n. n\<lparr>nd_inputs := (nd_inputs n)[sid_index s := f (nd_inputs n ! sid_index s)]\<rparr>)"

definition shift_up :: "node_id \<Rightarrow> nat \<Rightarrow> connection \<Rightarrow> connection" where
  "shift_up i index c =
     (if sid_node (co_to c) = i \<and> index \<le> sid_index (co_to c)
      then c\<lparr>co_to := (co_to c)\<lparr>sid_index := sid_index (co_to c) + 1\<rparr>\<rparr> else c)"

definition shift_down :: "node_id \<Rightarrow> nat \<Rightarrow> connection \<Rightarrow> connection" where
  "shift_down i index c =
     (if sid_node (co_to c) = i \<and> index < sid_index (co_to c)
      then c\<lparr>co_to := (co_to c)\<lparr>sid_index := sid_index (co_to c) - 1\<rparr>\<rparr> else c)"

definition insert_at :: "nat \<Rightarrow> 'a \<Rightarrow> 'a list \<Rightarrow> 'a list" where
  "insert_at index x xs = take index xs @ x # drop index xs"

definition remove_at :: "nat \<Rightarrow> 'a list \<Rightarrow> 'a list" where
  "remove_at index xs = take index xs @ drop (Suc index) xs"

definition insert_input_socket :: "'j graph_state \<Rightarrow> node_id \<Rightarrow> nat \<Rightarrow> 'j socket \<Rightarrow> 'j graph_state" where
  "insert_input_socket g i index s =
     (case gs_nodes g i of
        None \<Rightarrow> g
      | Some n \<Rightarrow>
          let index1 = min index (length (nd_inputs n)) in
          g\<lparr>gs_nodes := (gs_nodes g)(i \<mapsto> n\<lparr>nd_inputs := insert_at index1 s (nd_inputs n)\<rparr>),
            gs_connections := map (shift_up i index1) (gs_connections g)\<rparr>)"

definition remove_input_socket :: "'j graph_state \<Rightarrow> node_id \<Rightarrow> nat \<Rightarrow> 'j socket option \<times> 'j graph_state" where
  "remove_input_socket g i index =
     (case gs_nodes g i of
        None \<Rightarrow> (None, g)
      | Some n \<Rightarrow>
          if length (nd_inputs n) \<le> index then (None, g)
          else
            (Some (nd_inputs n ! index),
             g\<lparr>gs_nodes := (gs_nodes g)(i \<mapsto> n\<lparr>nd_inputs := remove_at index (nd_inputs n)\<rparr>),
               gs_connections := map (shift_down i index)
                 (filter (\<lambda>c. \<not> (sid_node (co_to c) = i \<and> sid_index (co_to c) = index)) (gs_connections g))\<rparr>))"

definition resolve_input :: "'j graph_state \<Rightarrow> socket_id \<Rightarrow> socket_id \<Rightarrow> 'j graph_state" where
  "resolve_input g from to =
     (let out_type = map_option effective_type (output_at g from) in
      if input_at g to = None then g
      else update_input g to (\<lambda>s. s\<lparr>so_resolved_type :=
             (case out_type of
                Some t \<Rightarrow> if t \<noteq> ''Any'' \<and> t \<noteq> so_type_name s then Some t else None
              | None \<Rightarrow> None)\<rparr>))"

definition clear_input_resolution :: "'j graph_state \<Rightarrow> socket_id \<Rightarrow> 'j graph_state" where
  "clear_input_resolution g to =
     (if input_at g to = None then g else update_input g to (\<lambda>s. s\<lparr>so_resolved_type := None\<rparr>))"

section \<open>Reroutes\<close>

definition reroute_output :: "node_id \<Rightarrow> socket_id" where
  "reroute_output i = \<lparr>sid_node = i, sid_index = 0, sid_direction = Output\<rparr>"

definition downstream_of :: "'j graph_state \<Rightarrow> socket_id \<Rightarrow> socket_id list" where
  "downstream_of g output = map co_to (filter (\<lambda>c. co_from c = output) (gs_connections g))"

text \<open>A reroute shows its input's type at its output; \<open>None\<close> stands for the panic on a missing socket.\<close>

definition mirror_reroute :: "'j graph_state \<Rightarrow> node_id \<Rightarrow> 'j node \<Rightarrow> 'j graph_state option" where
  "mirror_reroute g i n =
     (case (nd_inputs n, nd_outputs n) of
        (input # _, output # outputs) \<Rightarrow>
          let input_type = effective_type input in
          Some (update_node g i (\<lambda>n. n\<lparr>nd_outputs :=
            output\<lparr>so_resolved_type := (if input_type \<noteq> ''Any'' then Some input_type else None)\<rparr> # outputs\<rparr>))
      | _ \<Rightarrow> None)"

fun propagate_reroute_output :: "nat \<Rightarrow> 'j graph_state \<Rightarrow> node_id \<Rightarrow> 'j graph_state option"
  and cascade :: "nat \<Rightarrow> 'j graph_state \<Rightarrow> socket_id \<Rightarrow> socket_id list \<Rightarrow> 'j graph_state option" where
  "propagate_reroute_output 0 g i = None"
| "propagate_reroute_output (Suc depth) g i =
     (case gs_nodes g i of
        None \<Rightarrow> Some g
      | Some n \<Rightarrow>
          if nd_kind n \<noteq> Reroute then Some g
          else case mirror_reroute g i n of
            None \<Rightarrow> None
          | Some g1 \<Rightarrow> cascade depth g1 (reroute_output i) (downstream_of g1 (reroute_output i)))"
| "cascade depth g output [] = Some g"
| "cascade depth g output (to # rest) =
     (case propagate_reroute_output depth (resolve_input g output to) (sid_node to) of
        None \<Rightarrow> None
      | Some g1 \<Rightarrow> cascade depth g1 output rest)"

text \<open>The reroutes are visited in the order in which the hash map happens to list them.\<close>

fun propagate_each :: "nat \<Rightarrow> 'j graph_state \<Rightarrow> node_id list \<Rightarrow> 'j graph_state option" where
  "propagate_each depth g [] = Some g"
| "propagate_each depth g (i # ids) =
     (case propagate_reroute_output depth g i of None \<Rightarrow> None | Some g1 \<Rightarrow> propagate_each depth g1 ids)"

definition is_reroute :: "'j graph_state \<Rightarrow> node_id \<Rightarrow> bool" where
  "is_reroute g i \<longleftrightarrow> (case gs_nodes g i of Some n \<Rightarrow> nd_kind n = Reroute | None \<Rightarrow> False)"

definition reconcile_reroute_outputs :: "nat \<Rightarrow> 'j graph_state \<Rightarrow> node_id list \<Rightarrow> 'j graph_state option" where
  "reconcile_reroute_outputs depth g order = propagate_each depth g (filter (is_reroute g) order)"

section \<open>Growing groups\<close>

definition group_members :: "nat \<Rightarrow> 'j socket list \<Rightarrow> nat" where
  "group_members def_index inputs = length (filter (\<lambda>s. so_def_index s = def_index \<and> is_variadic_member s) inputs)"

definition numbered :: "string \<Rightarrow> nat \<Rightarrow> string" where
  "numbered base n = base @ '' '' @ show_nat n"

definition grow_variadic_group :: "'j graph_state \<Rightarrow> socket_id \<Rightarrow> 'j graph_state" where
  "grow_variadic_group g to =
     (case (gs_nodes g (sid_node to), input_at g to) of
        (Some n, Some s) \<Rightarrow>
          (case so_variadic s of
             None \<Rightarrow> g
           | Some info \<Rightarrow>
               if \<not> vi_placeholder info then g
               else
                 let number = group_members (so_def_index s) (nd_inputs n) + 1;
                     g1 = update_input g to (\<lambda>s. s\<lparr>so_variadic := Some (info\<lparr>vi_placeholder := False\<rparr>),
                            so_name := numbered (vi_base info) number\<rparr>)
                 in if number < vi_max info
                    then insert_input_socket g1 (sid_node to) (sid_index to + 1)
                           (s\<lparr>so_resolved_type := None, so_name := vi_base info\<rparr>)
                    else g1)
      | _ \<Rightarrow> g)"

fun renumber_members :: "nat \<Rightarrow> string \<Rightarrow> nat \<Rightarrow> 'j socket list \<Rightarrow> 'j socket list" where
  "renumber_members def_index base members [] = []"
| "renumber_members def_index base members (s # ss) =
     (if so_def_index s = def_index \<and> is_variadic_member s
      then s\<lparr>so_name := numbered base (members + 1)\<rparr> # renumber_members def_index base (members + 1) ss
      else s # renumber_members def_index base members ss)"

definition last_where :: "('a \<Rightarrow> bool) \<Rightarrow> 'a list \<Rightarrow> nat option" where
  "last_where P xs = (case rev (filter (\<lambda>i. P (xs ! i)) [0..<length xs]) of [] \<Rightarrow> None | i # _ \<Rightarrow> Some i)"

definition renumber_variadic_group :: "'j graph_state \<Rightarrow> node_id \<Rightarrow> nat \<Rightarrow> variadic_info \<Rightarrow> 'j graph_state" where
  "renumber_variadic_group g i def_index info =
     (case gs_nodes g i of
        None \<Rightarrow> g
      | Some n \<Rightarrow>
          let g1 = update_node g i (\<lambda>n. n\<lparr>nd_inputs := renumber_members def_index (vi_base info) 0 (nd_inputs n)\<rparr>);
              members = group_members def_index (nd_inputs n);
              placeholder = last_where (\<lambda>s. so_def_index s = def_index \<and> is_variadic_placeholder s) (nd_inputs n)
          in if vi_max info \<le> members
             then (case placeholder of Some index \<Rightarrow> snd (remove_input_socket g1 i index) | None \<Rightarrow> g1)
             else g1)"

definition variadic_members :: "'j graph_state \<Rightarrow> node_id \<Rightarrow> nat \<Rightarrow> nat" where
  "variadic_members g i def_index =
     (case gs_nodes g i of None \<Rightarrow> 0 | Some n \<Rightarrow> group_members def_index (nd_inputs n))"

definition collapse_variadic_member :: "'j graph_state \<Rightarrow> socket_id \<Rightarrow> 'j graph_state" where
  "collapse_variadic_member g to =
     (case input_at g to of
        None \<Rightarrow> g
      | Some s \<Rightarrow>
          (case so_variadic s of
             None \<Rightarrow> g
           | Some info \<Rightarrow>
               if vi_placeholder info then g
               else
                 (case remove_input_socket g (sid_node to) (sid_index to) of
                    (None, g1) \<Rightarrow> g1
                  | (Some removed, g1) \<Rightarrow>
                      (case gs_nodes g1 (sid_node to) of
                         None \<Rightarrow> g1
                       | Some n \<Rightarrow>
                           let def_index = so_def_index s;
                               g2 = update_node g1 (sid_node to) (\<lambda>n. n\<lparr>nd_inputs :=
                                 renumber_members def_index (vi_base info) 0 (nd_inputs n)\<rparr>);
                               members = group_members def_index (nd_inputs n);
                               group_end = last_where (\<lambda>s. so_def_index s = def_index) (nd_inputs n);
                               has_placeholder = list_ex (\<lambda>s. so_def_index s = def_index \<and> is_variadic_placeholder s) (nd_inputs n)
                           in if \<not> has_placeholder \<and> members < vi_max info
                              then insert_input_socket g2 (sid_node to)
                                     (case group_end of Some index \<Rightarrow> index + 1 | None \<Rightarrow> sid_index to)
                                     (removed\<lparr>so_resolved_type := None, so_name := vi_base info,
                                        so_variadic := Some (info\<lparr>vi_placeholder := True\<rparr>)\<rparr>)
                              else g2))))"

section \<open>Wires\<close>

definition on_input_disconnected :: "nat \<Rightarrow> 'j graph_state \<Rightarrow> socket_id \<Rightarrow> 'j graph_state option" where
  "on_input_disconnected depth g to =
     (let is_member = (case input_at g to of Some s \<Rightarrow> is_variadic_member s | None \<Rightarrow> False);
          g1 = (if is_member then collapse_variadic_member g to else clear_input_resolution g to)
      in propagate_reroute_output depth g1 (sid_node to))"

definition add_connection :: "nat \<Rightarrow> 'j graph_state \<Rightarrow> socket_id \<Rightarrow> socket_id \<Rightarrow> 'j graph_state option" where
  "add_connection depth g from to =
     (let g1 = g\<lparr>gs_connections := filter (\<lambda>c. co_to c \<noteq> to) (gs_connections g) @ [\<lparr>co_from = from, co_to = to\<rparr>]\<rparr>;
          g2 = resolve_input g1 from to;
          g3 = grow_variadic_group g2 to
      in map_option mark_semantic_change (propagate_reroute_output depth g3 (sid_node to)))"

definition disconnect_input :: "nat \<Rightarrow> 'j graph_state \<Rightarrow> socket_id \<Rightarrow> (bool \<times> 'j graph_state) option" where
  "disconnect_input depth g to =
     (let g1 = g\<lparr>gs_connections := filter (\<lambda>c. co_to c \<noteq> to) (gs_connections g)\<rparr>;
          removed = (length (gs_connections g1) \<noteq> length (gs_connections g))
      in if removed then map_option (\<lambda>g2. (True, mark_semantic_change g2)) (on_input_disconnected depth g1 to)
         else Some (False, g1))"

definition remove_connection_at :: "nat \<Rightarrow> 'j graph_state \<Rightarrow> nat \<Rightarrow> (connection \<times> 'j graph_state) option" where
  "remove_connection_at depth g index =
     (if length (gs_connections g) \<le> index then None
      else
        let c = gs_connections g ! index;
            g1 = g\<lparr>gs_connections := remove_at index (gs_connections g)\<rparr>
        in map_option (\<lambda>g2. (c, mark_semantic_change g2)) (on_input_disconnected depth g1 (co_to c)))"

definition insert_variadic_connection :: "nat \<Rightarrow> 'j graph_state \<Rightarrow> socket_id \<Rightarrow> socket_id \<Rightarrow> (bool \<times> 'j graph_state) option" where
  "insert_variadic_connection depth g from to =
     (case input_at g to of
        None \<Rightarrow> Some (False, g)
      | Some s \<Rightarrow>
          (case so_variadic s of
             None \<Rightarrow> Some (False, g)
           | Some info \<Rightarrow>
               if vi_placeholder info then Some (False, g)
               else if \<not> list_ex (\<lambda>c. co_to c = to) (gs_connections g) then Some (False, g)
               else if vi_max info \<le> variadic_members g (sid_node to) (so_def_index s) then Some (False, g)
               else
                 let g1 = insert_input_socket g (sid_node to) (sid_index to) (s\<lparr>so_resolved_type := None\<rparr>);
                     g2 = g1\<lparr>gs_connections := gs_connections g1 @ [\<lparr>co_from = from, co_to = to\<rparr>]\<rparr>;
                     g3 = resolve_input g2 from to;
                     g4 = renumber_variadic_group g3 (sid_node to) (so_def_index s) info
                 in map_option (\<lambda>g5. (True, mark_semantic_change g5)) (propagate_reroute_output depth g4 (sid_node to))))"

definition is_input_connected :: "'j graph_state \<Rightarrow> socket_id \<Rightarrow> bool" where
  "is_input_connected g s \<longleftrightarrow> list_ex (\<lambda>c. co_to c = s) (gs_connections g)"

definition is_output_connected :: "'j graph_state \<Rightarrow> socket_id \<Rightarrow> bool" where
  "is_output_connected g s \<longleftrightarrow> list_ex (\<lambda>c. co_from c = s) (gs_connections g)"

definition add_frame :: "'j graph_state \<Rightarrow> string \<Rightarrow> graph_color \<Rightarrow> node_id list \<Rightarrow> u32 \<times> 'j graph_state" where
  "add_frame g label color node_ids =
     (gs_next_frame_id g,
      g\<lparr>gs_next_frame_id := gs_next_frame_id g + 1,
        gs_frames := gs_frames g @ [\<lparr>fr_id = gs_next_frame_id g, fr_label = label, fr_color = color,
          fr_node_ids = node_ids, fr_selected = False\<rparr>]\<rparr>)"

definition cleanup_frames :: "'j graph_state \<Rightarrow> 'j graph_state" where
  "cleanup_frames g =
     g\<lparr>gs_frames := filter (\<lambda>f. fr_node_ids f \<noteq> [])
        (map (\<lambda>f. f\<lparr>fr_node_ids := filter (\<lambda>i. gs_nodes g i \<noteq> None) (fr_node_ids f)\<rparr>) (gs_frames g))\<rparr>"

section \<open>What the helpers keep\<close>

lemma update_node_simps [simp]:
  "gs_connections (update_node g i f) = gs_connections g" "gs_frames (update_node g i f) = gs_frames g"
  "gs_nodes (update_node g i f) j = (if j = i then map_option f (gs_nodes g i) else gs_nodes g j)"
  by (auto simp: update_node_def split: option.splits)

lemma update_input_connections [simp]: "gs_connections (update_input g s f) = gs_connections g"
  by (simp add: update_input_def)

lemma resolve_input_connections [simp]:
  "gs_connections (resolve_input g from to) = gs_connections g"
  "gs_connections (clear_input_resolution g to) = gs_connections g"
  by (simp_all add: resolve_input_def clear_input_resolution_def Let_def)

lemma mark_semantic_change_simps [simp]:
  "gs_connections (mark_semantic_change g) = gs_connections g" "gs_nodes (mark_semantic_change g) = gs_nodes g"
  by (simp_all add: mark_semantic_change_def)

lemma mirror_reroute_connections: "mirror_reroute g i n = Some g' \<Longrightarrow> gs_connections g' = gs_connections g"
  by (auto simp: mirror_reroute_def Let_def split: list.splits)

text \<open>What both the mirroring of a reroute and the resolution of an input keep, the propagation keeps.\<close>

lemma propagate_keeps:
  assumes mirror: "\<And>g i n g'. P g \<Longrightarrow> gs_nodes g i = Some n \<Longrightarrow> nd_kind n = Reroute \<Longrightarrow> mirror_reroute g i n = Some g' \<Longrightarrow> P g'"
    and resolve: "\<And>g from to. P g \<Longrightarrow> P (resolve_input g from to)"
  shows "propagate_reroute_output depth g i = Some g' \<Longrightarrow> P g \<Longrightarrow> P g'"
    and "cascade depth g out tos = Some g' \<Longrightarrow> P g \<Longrightarrow> P g'"
proof (induction depth g i and depth g out tos arbitrary: g' and g' rule: propagate_reroute_output_cascade.induct)
  case (2 depth g i)
  show ?case
  proof (cases "is_reroute g i")
    case True
    then obtain n where n: "gs_nodes g i = Some n" "nd_kind n = Reroute"
      by (auto simp: is_reroute_def split: option.splits)
    then obtain g1 where g1: "mirror_reroute g i n = Some g1"
      "cascade depth g1 (reroute_output i) (downstream_of g1 (reroute_output i)) = Some g'"
      using 2(2) by (auto split: option.splits)
    show ?thesis using 2(1) [OF n(1) _ g1] n(2) mirror [OF 2(3) n g1(1)] by simp
  next
    case False
    then show ?thesis using 2(2,3) by (simp add: is_reroute_def split: option.splits)
  qed
next
  case (4 depth g out to rest)
  then obtain g1 where g1: "propagate_reroute_output depth (resolve_input g out to) (sid_node to) = Some g1"
    "cascade depth g1 out rest = Some g'" by (auto split: option.splits)
  show ?case using 4(1) [OF g1(1) resolve [OF 4(4)]] 4(2) [OF g1] by simp
qed auto

lemma propagate_connections:
  "propagate_reroute_output depth g i = Some g' \<Longrightarrow> gs_connections g' = gs_connections g"
  by (rule propagate_keeps(1) [where P = "\<lambda>g'. gs_connections g' = gs_connections g"])
    (auto dest: mirror_reroute_connections)

lemma insert_input_socket_length [simp]: "length (gs_connections (insert_input_socket g i index s)) = length (gs_connections g)"
  by (auto simp: insert_input_socket_def Let_def split: option.splits)

lemma remove_input_socket_length: "length (gs_connections (snd (remove_input_socket g i index))) \<le> length (gs_connections g)"
  by (auto simp: remove_input_socket_def Let_def split: option.splits)

lemma collapse_length: "length (gs_connections (collapse_variadic_member g to)) \<le> length (gs_connections g)"
  using remove_input_socket_length [of g "sid_node to" "sid_index to"]
  by (auto simp: collapse_variadic_member_def Let_def split: option.splits prod.splits)

lemma on_input_disconnected_length:
  "on_input_disconnected depth g to = Some g' \<Longrightarrow> length (gs_connections g') \<le> length (gs_connections g)"
  by (auto simp: on_input_disconnected_def Let_def collapse_length dest!: propagate_connections split: if_splits)

lemma remove_connection_at_length:
  assumes "remove_connection_at depth g index = Some (c, g')"
  shows "length (gs_connections g') < length (gs_connections g)"
  using assms by (auto simp: remove_connection_at_def Let_def remove_at_def dest!: on_input_disconnected_length split: if_splits)

section \<open>Removing nodes\<close>

function remove_outgoing :: "nat \<Rightarrow> 'j graph_state \<Rightarrow> node_id \<Rightarrow> 'j graph_state option" where
  "remove_outgoing depth g i =
     (case filter (\<lambda>k. sid_node (co_from (gs_connections g ! k)) = i) [0..<length (gs_connections g)] of
        [] \<Rightarrow> Some g
      | position # _ \<Rightarrow>
          (case remove_connection_at depth g position of
             None \<Rightarrow> None
           | Some (c, g1) \<Rightarrow> remove_outgoing depth g1 i))"
  by pat_completeness auto
termination
  by (relation "measure (\<lambda>(_, g, _). length (gs_connections g))") (auto dest: remove_connection_at_length)

declare remove_outgoing.simps [simp del]

definition remove_node :: "nat \<Rightarrow> 'j graph_state \<Rightarrow> node_id \<Rightarrow> 'j graph_state option" where
  "remove_node depth g i =
     (if gs_nodes g i = None then Some g
      else
        let g1 = mark_semantic_change (g\<lparr>gs_nodes := (gs_nodes g)(i := None)\<rparr>)
        in remove_outgoing depth
             (g1\<lparr>gs_connections := filter (\<lambda>c. sid_node (co_to c) \<noteq> i) (gs_connections g1)\<rparr>) i)"

section \<open>Pasted nodes\<close>

definition connected_indices :: "'j graph_state \<Rightarrow> node_id \<Rightarrow> nat set" where
  "connected_indices g i = {sid_index (co_to c) |c. c \<in> set (gs_connections g) \<and> sid_node (co_to c) = i}"

lemma connected_indices_code [code]:
  "connected_indices g i = set (map (\<lambda>c. sid_index (co_to c)) (filter (\<lambda>c. sid_node (co_to c) = i) (gs_connections g)))"
  by (auto simp: connected_indices_def)

definition unconnected_member :: "'j graph_state \<Rightarrow> node_id \<Rightarrow> nat option" where
  "unconnected_member g i =
     (case gs_nodes g i of
        None \<Rightarrow> None
      | Some n \<Rightarrow>
          find (\<lambda>k. is_variadic_member (nd_inputs n ! k) \<and> k \<notin> connected_indices g i) [0..<length (nd_inputs n)])"

definition member_count :: "'j graph_state \<Rightarrow> node_id \<Rightarrow> nat" where
  "member_count g i = (case gs_nodes g i of None \<Rightarrow> 0 | Some n \<Rightarrow> length (filter is_variadic_member (nd_inputs n)))"

lemma renumber_members_facts [simp]:
  "length (renumber_members d base k ss) = length ss"
  "map so_variadic (renumber_members d base k ss) = map so_variadic ss"
  "map so_def_index (renumber_members d base k ss) = map so_def_index ss"
  by (induction ss arbitrary: k) auto

lemma filter_member_map:
  "map so_variadic ss = map so_variadic ss' \<Longrightarrow>
    length (filter is_variadic_member ss) = length (filter is_variadic_member ss')"
proof (induction ss arbitrary: ss')
  case (Cons s ss)
  then obtain s' rest where "ss' = s' # rest" "so_variadic s = so_variadic s'" "map so_variadic ss = map so_variadic rest"
    by (metis map_eq_Cons_conv)
  with Cons.IH [of rest] show ?case by (simp add: is_variadic_member_def)
qed simp

lemma filter_insert_at: "filter P (insert_at k x xs) = filter P (take k xs) @ (if P x then [x] else []) @ filter P (drop k xs)"
  by (simp add: insert_at_def)

lemma length_filter_take_drop: "length (filter P (take k xs)) + length (filter P (drop k xs)) = length (filter P xs)"
  by (metis append_take_drop_id filter_append length_append)

lemma length_filter_remove_at:
  "k < length xs \<Longrightarrow> P (xs ! k) \<Longrightarrow> Suc (length (filter P (remove_at k xs))) = length (filter P xs)"
  using length_filter_take_drop [of P k xs] by (simp add: remove_at_def Cons_nth_drop_Suc [symmetric])

lemma member_count_insert:
  "\<not> is_variadic_member s \<Longrightarrow> member_count (insert_input_socket g i k s) j = member_count g j"
  by (auto simp: member_count_def insert_input_socket_def Let_def filter_insert_at length_filter_take_drop split: option.splits)

lemma collapse_member_count:
  assumes "input_at g to = Some s" "is_variadic_member s"
  shows "member_count (collapse_variadic_member g to) (sid_node to) < member_count g (sid_node to)"
proof -
  obtain n where n: "gs_nodes g (sid_node to) = Some n" "sid_index to < length (nd_inputs n)" "s = nd_inputs n ! sid_index to"
    using assms(1) by (auto simp: input_at_def split: option.splits if_splits)
  obtain info where info: "so_variadic s = Some info" "\<not> vi_placeholder info"
    using assms(2) by (auto simp: is_variadic_member_def split: option.splits)
  have placeholder: "\<not> is_variadic_member (x\<lparr>so_resolved_type := r, so_name := nm, so_variadic := Some (info\<lparr>vi_placeholder := True\<rparr>)\<rparr>)" for x r nm
    by (simp add: is_variadic_member_def)
  let ?inputs = "remove_at (sid_index to) (nd_inputs n)"
  have "Suc (length (filter is_variadic_member ?inputs)) = length (filter is_variadic_member (nd_inputs n))"
    using n assms(2) by (intro length_filter_remove_at) simp_all
  moreover have "length (filter is_variadic_member (renumber_members d base k ?inputs)) = length (filter is_variadic_member ?inputs)" for d base k
    by (rule filter_member_map) simp
  ultimately show ?thesis
    using n info assms(1)
    by (simp add: collapse_variadic_member_def remove_input_socket_def Let_def member_count_insert placeholder)
      (simp add: member_count_def)
qed

text \<open>Each round collapses one member, so the loop ends.\<close>

function prune_members :: "'j graph_state \<Rightarrow> node_id \<Rightarrow> 'j graph_state" where
  "prune_members g i =
     (case unconnected_member g i of
        None \<Rightarrow> g
      | Some index \<Rightarrow>
          prune_members (collapse_variadic_member g \<lparr>sid_node = i, sid_index = index, sid_direction = Input\<rparr>) i)"
  by pat_completeness auto
termination
proof (relation "measure (\<lambda>(g, i). member_count g i)")
  fix g :: "'j graph_state" and i index assume "unconnected_member g i = Some index"
  then obtain n where "gs_nodes g i = Some n" "index < length (nd_inputs n)" "is_variadic_member (nd_inputs n ! index)"
    by (auto simp: unconnected_member_def find_Some_iff split: option.splits)
  then have "input_at g \<lparr>sid_node = i, sid_index = index, sid_direction = Input\<rparr> = Some (nd_inputs n ! index)"
    "is_variadic_member (nd_inputs n ! index)" by (simp_all add: input_at_def)
  from collapse_member_count [OF this]
  show "((collapse_variadic_member g \<lparr>sid_node = i, sid_index = index, sid_direction = Input\<rparr>, i), (g, i)) \<in>
      measure (\<lambda>(g, i). member_count g i)" by simp
qed simp

declare prune_members.simps [simp del]

definition clear_unconnected :: "'j graph_state \<Rightarrow> node_id \<Rightarrow> 'j graph_state" where
  "clear_unconnected g i =
     update_node g i (\<lambda>n. n\<lparr>nd_inputs := map (\<lambda>(k, s).
        if so_resolved_type s \<noteq> None \<and> k \<notin> connected_indices g i then s\<lparr>so_resolved_type := None\<rparr> else s)
        (enumerate 0 (nd_inputs n))\<rparr>)"

definition prune_unconnected_resolutions :: "'j graph_state \<Rightarrow> node_id list \<Rightarrow> 'j graph_state" where
  "prune_unconnected_resolutions g ids = fold (\<lambda>i g. clear_unconnected (prune_members g i) i) ids g"

end
