(* ===== verification/Graph_Invariant.thy ===== *)
theory Graph_Invariant
  imports Graph_Document
begin

text \<open>
  Every edit keeps the document well wired: wires run from existing outputs to existing inputs, no
  input has two wires, and reroutes keep their one input and one output.
\<close>

section \<open>The invariant\<close>

definition node_ok :: "node_id \<Rightarrow> 'j node \<Rightarrow> bool" where
  "node_ok i n \<longleftrightarrow> nd_id n = i \<and> (nd_kind n = Reroute \<longrightarrow>
     (\<exists>input out. nd_inputs n = [input] \<and> so_variadic input = None \<and> nd_outputs n = [out]))"

definition shaped :: "'j graph_state \<Rightarrow> bool" where
  "shaped g \<longleftrightarrow> (\<forall>i n. gs_nodes g i = Some n \<longrightarrow> node_ok i n)"

definition wire_ok :: "node_id set \<Rightarrow> 'j graph_state \<Rightarrow> connection \<Rightarrow> bool" where
  "wire_ok E g c \<longleftrightarrow> sid_direction (co_to c) = Input \<and> input_at g (co_to c) \<noteq> None \<and>
     (sid_node (co_from c) \<in> E \<or> sid_direction (co_from c) = Output \<and> output_at g (co_from c) \<noteq> None)"

text \<open>While a node is being removed its own wires are exempt.\<close>

definition wired :: "node_id set \<Rightarrow> 'j graph_state \<Rightarrow> bool" where
  "wired E g \<longleftrightarrow> (\<forall>c\<in>set (gs_connections g). wire_ok E g c) \<and> distinct (map co_to (gs_connections g))"

definition doc_inv :: "'j graph_state \<Rightarrow> bool" where
  "doc_inv g \<longleftrightarrow> wired {} g \<and> shaped g"

definition dims :: "'j graph_state \<Rightarrow> node_id \<Rightarrow> (nat \<times> nat) option" where
  "dims g i = map_option (\<lambda>n. (length (nd_inputs n), length (nd_outputs n))) (gs_nodes g i)"

lemma socket_exists:
  "input_at g s \<noteq> None \<longleftrightarrow> (\<exists>k l. dims g (sid_node s) = Some (k, l) \<and> sid_index s < k)"
  "output_at g s \<noteq> None \<longleftrightarrow> (\<exists>k l. dims g (sid_node s) = Some (k, l) \<and> sid_index s < l)"
  by (auto simp: input_at_def output_at_def dims_def split: option.splits)

lemma wired_same: "dims g' = dims g \<Longrightarrow> gs_connections g' = gs_connections g \<Longrightarrow> wired E g' = wired E g"
  unfolding wired_def wire_ok_def socket_exists by simp

lemma shapedD: "shaped g \<Longrightarrow> gs_nodes g i = Some n \<Longrightarrow> node_ok i n"
  by (simp add: shaped_def)

lemma shaped_update_node:
  "shaped g \<Longrightarrow> (\<And>n. gs_nodes g i = Some n \<Longrightarrow> node_ok i n \<Longrightarrow> node_ok i (f n)) \<Longrightarrow> shaped (update_node g i f)"
  by (auto simp: shaped_def split: if_splits)

lemma dims_update_node:
  "(\<And>n. gs_nodes g i = Some n \<Longrightarrow> length (nd_inputs (f n)) = length (nd_inputs n) \<and> length (nd_outputs (f n)) = length (nd_outputs n)) \<Longrightarrow>
    dims (update_node g i f) = dims g"
  by (auto simp: dims_def fun_eq_iff option.map_comp comp_def intro: map_option_cong)

text \<open>Edits of a socket that keep it a plain or a variadic socket.\<close>

lemma update_input_keeps:
  assumes "shaped g" "\<And>s. so_variadic s = None \<Longrightarrow> so_variadic (f s) = None"
  shows "shaped (update_input g to f)" "dims (update_input g to f) = dims g"
proof -
  show "dims (update_input g to f) = dims g"
    unfolding update_input_def by (rule dims_update_node) simp
  have "node_ok i (n\<lparr>nd_inputs := (nd_inputs n)[k := f (nd_inputs n ! k)]\<rparr>)" if "node_ok i n" for i n k
    using that assms(2) by (auto simp: node_ok_def) (cases k; auto)
  then show "shaped (update_input g to f)"
    unfolding update_input_def using assms(1) by (intro shaped_update_node)
qed

lemma resolve_input_keeps:
  assumes "shaped g"
  shows "shaped (resolve_input g from to)" "dims (resolve_input g from to) = dims g"
    "shaped (clear_input_resolution g to)" "dims (clear_input_resolution g to) = dims g"
  unfolding resolve_input_def clear_input_resolution_def Let_def
  using assms by (auto intro: update_input_keeps(1)) (simp_all add: update_input_keeps(2))

lemma mirror_reroute_keeps:
  assumes "shaped g" "gs_nodes g i = Some n" "mirror_reroute g i n = Some g'"
  shows "shaped g'" "dims g' = dims g"
proof -
  from assms(3) obtain input inputs out outputs r where n: "nd_inputs n = input # inputs" "nd_outputs n = out # outputs"
    "g' = update_node g i (\<lambda>n. n\<lparr>nd_outputs := out\<lparr>so_resolved_type := r\<rparr> # outputs\<rparr>)"
    by (auto simp: mirror_reroute_def Let_def split: list.splits)
  show "dims g' = dims g" unfolding n(3) by (rule dims_update_node) (use assms(2) n(2) in simp)
  show "shaped g'" unfolding n(3) by (rule shaped_update_node [OF assms(1)]) (use assms(2) n(2) in \<open>auto simp: node_ok_def\<close>)
qed

lemma propagate_keeps_inv:
  assumes "propagate_reroute_output depth g i = Some g'" "wired E g" "shaped g"
  shows "wired E g'" "shaped g'"
proof -
  have "wired E g' \<and> shaped g'"
  proof (rule propagate_keeps(1) [where P = "\<lambda>g. wired E g \<and> shaped g", OF _ _ assms(1)])
    fix g :: "'a graph_state" and i n g'
    assume "wired E g \<and> shaped g" "gs_nodes g i = Some n" "mirror_reroute g i n = Some g'"
    then show "wired E g' \<and> shaped g'"
      using mirror_reroute_keeps wired_same mirror_reroute_connections by metis
  next
    fix g :: "'a graph_state" and src to assume "wired E g \<and> shaped g"
    then show "wired E (resolve_input g src to) \<and> shaped (resolve_input g src to)"
      using resolve_input_keeps wired_same resolve_input_connections by metis
  qed (use assms in simp)
  then show "wired E g'" "shaped g'" by simp_all
qed

section \<open>Moving sockets\<close>

definition up :: "node_id \<Rightarrow> nat \<Rightarrow> socket_id \<Rightarrow> socket_id" where
  "up i k s = (if sid_node s = i \<and> k \<le> sid_index s then s\<lparr>sid_index := sid_index s + 1\<rparr> else s)"

definition down :: "node_id \<Rightarrow> nat \<Rightarrow> socket_id \<Rightarrow> socket_id" where
  "down i k s = (if sid_node s = i \<and> k < sid_index s then s\<lparr>sid_index := sid_index s - 1\<rparr> else s)"

lemma shift_simps [simp]:
  "co_to (shift_up i k c) = up i k (co_to c)" "co_from (shift_up i k c) = co_from c"
  "co_to (shift_down i k c) = down i k (co_to c)" "co_from (shift_down i k c) = co_from c"
  "sid_node (up i k s) = sid_node s" "sid_direction (up i k s) = sid_direction s"
  "sid_node (down i k s) = sid_node s" "sid_direction (down i k s) = sid_direction s"
  by (auto simp: shift_up_def shift_down_def up_def down_def)

lemma up_inj: "up i k s = up i k t \<Longrightarrow> s = t"
  by (cases s; cases t) (auto simp: up_def split: if_splits)

lemma down_inj:
  "\<not> (sid_node s = i \<and> sid_index s = k) \<Longrightarrow> \<not> (sid_node t = i \<and> sid_index t = k) \<Longrightarrow> down i k s = down i k t \<Longrightarrow> s = t"
  by (cases s; cases t) (auto simp: down_def split: if_splits)

lemma up_misses: "up (sid_node t) (sid_index t) s \<noteq> t"
  by (cases s; cases t) (auto simp: up_def)

text \<open>A wire keeps the socket it ends in when sockets around it come and go.\<close>

lemma input_at_insert:
  assumes "gs_nodes g i = Some n" "k \<le> length (nd_inputs n)"
  shows "input_at (insert_input_socket g i k s) (up i k t) = input_at g t"
    "output_at (insert_input_socket g i k s) = output_at g"
  using assms
  by (auto simp: insert_input_socket_def input_at_def output_at_def insert_at_def up_def nth_append fun_eq_iff Suc_diff_le
      split: option.splits if_splits)

lemma input_at_remove:
  assumes "gs_nodes g i = Some n" "k < length (nd_inputs n)" "\<not> (sid_node t = i \<and> sid_index t = k)"
  shows "input_at (snd (remove_input_socket g i k)) (down i k t) = input_at g t"
  using assms
  by (auto simp: remove_input_socket_def input_at_def output_at_def remove_at_def down_def nth_append fun_eq_iff min_def
      split: option.splits if_splits)

lemma output_at_remove: "output_at (snd (remove_input_socket g i k)) = output_at g"
  by (auto simp: remove_input_socket_def output_at_def fun_eq_iff split: option.splits)

lemma wired_insert:
  assumes "wired E g"
  shows "wired E (insert_input_socket g i k s)"
proof (cases "gs_nodes g i")
  case (Some n)
  let ?k = "min k (length (nd_inputs n))"
  have same: "insert_input_socket g i k s = insert_input_socket g i ?k s" using Some by (simp add: insert_input_socket_def Let_def)
  have conns: "gs_connections (insert_input_socket g i ?k s) = map (shift_up i ?k) (gs_connections g)"
    using Some by (simp add: insert_input_socket_def Let_def)
  note at = input_at_insert [OF Some, of ?k s]
  have "distinct (map (up i ?k) (map co_to (gs_connections g)))"
    using assms by (subst distinct_map) (auto simp: wired_def inj_on_def dest: up_inj)
  then show ?thesis
    unfolding same using assms by (auto simp: wired_def wire_ok_def conns at comp_def)
qed (use assms in \<open>simp add: insert_input_socket_def\<close>)

lemma wired_remove:
  assumes "wired E g"
  shows "wired E (snd (remove_input_socket g i k))"
proof (cases "gs_nodes g i")
  case (Some n)
  show ?thesis
  proof (cases "k < length (nd_inputs n)")
    case True
    let ?kept = "filter (\<lambda>c. \<not> (sid_node (co_to c) = i \<and> sid_index (co_to c) = k)) (gs_connections g)"
    have conns: "gs_connections (snd (remove_input_socket g i k)) = map (shift_down i k) ?kept"
      using Some True by (simp add: remove_input_socket_def)
    note at = input_at_remove [OF Some True]
    have "distinct (map co_to ?kept)" using assms by (simp add: wired_def distinct_map_filter)
    then have "distinct (map (down i k) (map co_to ?kept))"
      by (subst distinct_map) (auto simp: inj_on_def intro!: down_inj [of _ i k])
    then show ?thesis
      using assms by (auto simp: wired_def wire_ok_def conns at output_at_remove comp_def)
  qed (use assms Some in \<open>simp add: remove_input_socket_def\<close>)
qed (use assms in \<open>simp add: remove_input_socket_def\<close>)

definition regular_at :: "'j graph_state \<Rightarrow> node_id \<Rightarrow> bool" where
  "regular_at g i \<longleftrightarrow> (\<forall>n. gs_nodes g i = Some n \<longrightarrow> nd_kind n = Regular)"

lemma not_reroute [simp]: "k \<noteq> Reroute \<longleftrightarrow> k = Regular"
  by (cases k) auto

lemma shaped_insert_remove:
  assumes "shaped g" "regular_at g i"
  shows "shaped (insert_input_socket g i k s)" "shaped (snd (remove_input_socket g i k))"
    "regular_at (insert_input_socket g i k s) i" "regular_at (snd (remove_input_socket g i k)) i"
  using assms
  by (auto simp: shaped_def regular_at_def insert_input_socket_def remove_input_socket_def node_ok_def Let_def split: option.splits if_splits)

lemma variadic_regular:
  assumes "shaped g" "input_at g to = Some s" "so_variadic s = Some info"
  shows "regular_at g (sid_node to)"
proof -
  from assms(2) obtain n where n: "gs_nodes g (sid_node to) = Some n" "sid_index to < length (nd_inputs n)" "s = nd_inputs n ! sid_index to"
    by (auto simp: input_at_def split: option.splits if_splits)
  have "nd_kind n \<noteq> Reroute" using shapedD [OF assms(1) n(1)] n assms(3) by (auto simp: node_ok_def)
  then show ?thesis using n(1) by (simp add: regular_at_def)
qed

text \<open>Changes to the sockets of a regular node that keep their number.\<close>

lemma update_regular:
  assumes "shaped g" "regular_at g i"
    and "\<And>n. nd_id (f n) = nd_id n \<and> nd_kind (f n) = nd_kind n \<and> length (nd_inputs (f n)) = length (nd_inputs n) \<and> nd_outputs (f n) = nd_outputs n"
  shows "shaped (update_node g i f)" "regular_at (update_node g i f) i" "dims (update_node g i f) = dims g"
proof -
  show "dims (update_node g i f) = dims g" by (rule dims_update_node) (simp add: assms(3))
  show "shaped (update_node g i f)"
    using assms by (intro shaped_update_node) (auto simp: node_ok_def regular_at_def)
  show "regular_at (update_node g i f) i" using assms(2,3) by (auto simp: regular_at_def)
qed

section \<open>The edits\<close>

lemma wired_update_regular:
  assumes "wired E g" "shaped g" "regular_at g i"
    and "\<And>n. nd_id (f n) = nd_id n \<and> nd_kind (f n) = nd_kind n \<and> length (nd_inputs (f n)) = length (nd_inputs n) \<and> nd_outputs (f n) = nd_outputs n"
  shows "wired E (update_node g i f)"
  using assms(1) wired_same [of "update_node g i f" g E] update_regular(3) [OF assms(2-4)] by simp

lemma grow_keeps:
  assumes "wired E g" "shaped g"
  shows "wired E (grow_variadic_group g to)" "shaped (grow_variadic_group g to)"
proof -
  have "wired E (grow_variadic_group g to) \<and> shaped (grow_variadic_group g to)"
  proof (cases "\<exists>n s info. gs_nodes g (sid_node to) = Some n \<and> input_at g to = Some s \<and> so_variadic s = Some info \<and> vi_placeholder info")
    case True
    then obtain n s info where s: "gs_nodes g (sid_node to) = Some n" "input_at g to = Some s" "so_variadic s = Some info" "vi_placeholder info"
      by blast
    have regular: "regular_at g (sid_node to)" by (rule variadic_regular [OF assms(2) s(2,3)])
    define f where "f = (\<lambda>n :: 'a node. n\<lparr>nd_inputs := (nd_inputs n)[sid_index to := (nd_inputs n ! sid_index to)
      \<lparr>so_variadic := Some (info\<lparr>vi_placeholder := False\<rparr>),
        so_name := numbered (vi_base info) (group_members (so_def_index s) (nd_inputs (the (gs_nodes g (sid_node to)))) + 1)\<rparr>]\<rparr>)"
    have f: "nd_id (f n) = nd_id n \<and> nd_kind (f n) = nd_kind n \<and> length (nd_inputs (f n)) = length (nd_inputs n) \<and> nd_outputs (f n) = nd_outputs n" for n
      by (simp add: f_def)
    note g1 = wired_update_regular [OF assms regular f] update_regular(1,2) [OF assms(2) regular f]
    have "grow_variadic_group g to \<in> {update_node g (sid_node to) f,
        insert_input_socket (update_node g (sid_node to) f) (sid_node to) (sid_index to + 1) (s\<lparr>so_resolved_type := None, so_name := vi_base info\<rparr>)}"
      using s by (simp add: grow_variadic_group_def update_input_def f_def Let_def)
    then show ?thesis using g1 wired_insert shaped_insert_remove(1) by auto
  next
    case False
    then have "grow_variadic_group g to = g" by (auto simp: grow_variadic_group_def split: option.splits)
    then show ?thesis using assms by simp
  qed
  then show "wired E (grow_variadic_group g to)" "shaped (grow_variadic_group g to)" by simp_all
qed

definition renumbered :: "'j graph_state \<Rightarrow> node_id \<Rightarrow> nat \<Rightarrow> string \<Rightarrow> 'j graph_state" where
  "renumbered g i d base = update_node g i (\<lambda>n. n\<lparr>nd_inputs := renumber_members d base 0 (nd_inputs n)\<rparr>)"

lemma renumbered_keeps:
  assumes "wired E g" "shaped g" "regular_at g i"
  shows "wired E (renumbered g i d base)" "shaped (renumbered g i d base)" "regular_at (renumbered g i d base) i"
  unfolding renumbered_def using assms by (auto intro!: wired_update_regular update_regular(1,2))

lemma renumber_keeps:
  assumes "wired E g" "shaped g" "regular_at g i"
  shows "wired E (renumber_variadic_group g i d info) \<and> shaped (renumber_variadic_group g i d info)"
proof -
  let ?g = "renumbered g i d (vi_base info)"
  note g1 = renumbered_keeps [OF assms, of d "vi_base info"]
  have "renumber_variadic_group g i d info \<in> {g, ?g} \<union> range (\<lambda>k. snd (remove_input_socket ?g i k))"
    by (auto simp: renumber_variadic_group_def renumbered_def Let_def split: option.splits)
  then consider "renumber_variadic_group g i d info = g" | "renumber_variadic_group g i d info = ?g"
    | k where "renumber_variadic_group g i d info = snd (remove_input_socket ?g i k)" by auto
  then show ?thesis
    using assms(1,2) g1(1,2) wired_remove [OF g1(1)] shaped_insert_remove(2) [OF g1(2,3)] by cases simp_all
qed

lemma collapse_keeps:
  assumes "wired E g" "shaped g"
  shows "wired E (collapse_variadic_member g to)" "shaped (collapse_variadic_member g to)"
proof -
  have "wired E (collapse_variadic_member g to) \<and> shaped (collapse_variadic_member g to)"
  proof (cases "\<exists>s info. input_at g to = Some s \<and> so_variadic s = Some info \<and> \<not> vi_placeholder info")
    case True
    then obtain s info where s: "input_at g to = Some s" "so_variadic s = Some info" "\<not> vi_placeholder info" by blast
    let ?i = "sid_node to"
    have regular: "regular_at g ?i" by (rule variadic_regular [OF assms(2) s(1,2)])
    obtain removed g1 where g1: "remove_input_socket g ?i (sid_index to) = (removed, g1)" by fastforce
    have inv: "wired E g1" "shaped g1" "regular_at g1 ?i"
      using wired_remove [OF assms(1), of ?i "sid_index to"] shaped_insert_remove(2,4) [OF assms(2) regular, of "sid_index to"] g1 by simp_all
    let ?g = "renumbered g1 ?i (so_def_index s) (vi_base info)"
    note g2 = renumbered_keeps [OF inv, of "so_def_index s" "vi_base info"]
    have "collapse_variadic_member g to \<in> {g1, ?g} \<union> range (\<lambda>(k, s). insert_input_socket ?g ?i k s)"
      using s g1 by (auto simp: collapse_variadic_member_def renumbered_def Let_def split: option.splits)
    then consider "collapse_variadic_member g to = g1" | "collapse_variadic_member g to = ?g"
      | k s' where "collapse_variadic_member g to = insert_input_socket ?g ?i k s'" by auto
    then show ?thesis
      using inv(1,2) g2(1,2) wired_insert [OF g2(1)] shaped_insert_remove(1) [OF g2(2,3)] by cases simp_all
  next
    case False
    then have "collapse_variadic_member g to = g" by (auto simp: collapse_variadic_member_def split: option.splits)
    then show ?thesis using assms by simp
  qed
  then show "wired E (collapse_variadic_member g to)" "shaped (collapse_variadic_member g to)" by simp_all
qed

lemma on_input_disconnected_keeps:
  assumes "on_input_disconnected depth g to = Some g'" "wired E g" "shaped g"
  shows "wired E g'" "shaped g'"
proof -
  let ?g = "if (case input_at g to of Some s \<Rightarrow> is_variadic_member s | None \<Rightarrow> False)
    then collapse_variadic_member g to else clear_input_resolution g to"
  have "wired E (clear_input_resolution g to)"
    using assms(2) wired_same [of "clear_input_resolution g to" g E] resolve_input_keeps(4) [OF assms(3)] by simp
  then have "wired E ?g" "shaped ?g" using collapse_keeps [OF assms(2,3)] resolve_input_keeps(3) [OF assms(3)] by simp_all
  then show "wired E g'" "shaped g'"
    using assms(1) propagate_keeps_inv by (simp_all only: on_input_disconnected_def Let_def)
qed

lemma wires_do_not_matter [simp]:
  "input_at (g\<lparr>gs_connections := cs\<rparr>) = input_at g" "output_at (g\<lparr>gs_connections := cs\<rparr>) = output_at g"
  "wire_ok E (g\<lparr>gs_connections := cs\<rparr>) = wire_ok E g"
  "input_at (mark_semantic_change g) = input_at g" "output_at (mark_semantic_change g) = output_at g"
  "wire_ok E (mark_semantic_change g) = wire_ok E g"
  by (auto simp: input_at_def output_at_def wire_ok_def fun_eq_iff)

text \<open>Fewer wires are fine.\<close>

lemma wired_fewer:
  "wired E g \<Longrightarrow> set cs \<subseteq> set (gs_connections g) \<Longrightarrow> distinct (map co_to cs) \<Longrightarrow> wired E (g\<lparr>gs_connections := cs\<rparr>)"
  by (auto simp: wired_def)

lemma shaped_more [simp]:
  "shaped (g\<lparr>gs_connections := cs\<rparr>) = shaped g" "shaped (mark_semantic_change g) = shaped g"
  by (simp_all add: shaped_def)

lemma wired_mark [simp]: "wired E (mark_semantic_change g) = wired E g"
  by (simp add: wired_def)

lemma remove_at_subset: "set (remove_at k xs) \<subseteq> set xs"
  by (auto simp: remove_at_def dest: in_set_takeD in_set_dropD)

lemma distinct_remove_at:
  assumes "distinct (map f xs)"
  shows "distinct (map f (remove_at k xs))"
proof (cases "k < length xs")
  case True
  have "distinct (map f (take k xs @ xs ! k # drop (Suc k) xs))" using assms id_take_nth_drop [OF True] by simp
  then show ?thesis unfolding remove_at_def by auto
qed (use assms in \<open>simp add: remove_at_def\<close>)

lemma remove_connection_at_keeps:
  assumes "remove_connection_at depth g k = Some (c, g')" "wired E g" "shaped g"
  shows "wired E g'" "shaped g'"
proof -
  let ?g = "g\<lparr>gs_connections := remove_at k (gs_connections g)\<rparr>"
  from assms(1) obtain g2 where g2: "on_input_disconnected depth ?g (co_to c) = Some g2" "g' = mark_semantic_change g2"
    by (auto simp: remove_connection_at_def Let_def split: if_splits)
  have "wired E ?g" using assms(2) distinct_remove_at
    by (intro wired_fewer remove_at_subset) (auto simp: wired_def)
  with on_input_disconnected_keeps [OF g2(1)] assms(3) g2(2) show "wired E g'" "shaped g'" by simp_all
qed

lemma remove_outgoing_keeps:
  "remove_outgoing depth g i = Some g' \<Longrightarrow> wired {i} g \<Longrightarrow> shaped g \<Longrightarrow>
    wired {i} g' \<and> shaped g' \<and> (\<forall>c\<in>set (gs_connections g'). sid_node (co_from c) \<noteq> i)"
proof (induction depth g i arbitrary: g' rule: remove_outgoing.induct)
  case (1 depth g i)
  let ?ks = "filter (\<lambda>k. sid_node (co_from (gs_connections g ! k)) = i) [0..<length (gs_connections g)]"
  show ?case
  proof (cases ?ks)
    case Nil
    then have "\<forall>c\<in>set (gs_connections g). sid_node (co_from c) \<noteq> i"
      by (fastforce simp: filter_empty_conv in_set_conv_nth)
    with Nil 1(2-4) show ?thesis by (simp add: remove_outgoing.simps)
  next
    case (Cons k ks)
    with 1(2) obtain c g1 where g1: "remove_connection_at depth g k = Some (c, g1)" "remove_outgoing depth g1 i = Some g'"
      by (subst (asm) remove_outgoing.simps) (auto split: option.splits)
    note keeps = remove_connection_at_keeps [OF g1(1) 1(3,4)]
    show ?thesis by (rule 1(1) [OF Cons g1(1) refl g1(2) keeps])
  qed
qed

lemma wired_more_exempt: "wired {} g \<Longrightarrow> wired E g"
  by (auto simp: wired_def wire_ok_def)

lemma remove_node_keeps:
  assumes "remove_node depth g i = Some g'" "doc_inv g"
  shows "doc_inv g'"
proof (cases "gs_nodes g i")
  case (Some n)
  define g0 where "g0 = mark_semantic_change (g\<lparr>gs_nodes := (gs_nodes g)(i := None)\<rparr>)"
  define g1 where "g1 = g0\<lparr>gs_connections := filter (\<lambda>c. sid_node (co_to c) \<noteq> i) (gs_connections g0)\<rparr>"
  have "remove_outgoing depth g1 i = Some g'"
    using assms(1) Some by (simp add: remove_node_def g1_def g0_def Let_def)
  moreover have "wire_ok {i} g0 c" if "wire_ok {} g c" "sid_node (co_to c) \<noteq> i" for c
    using that by (auto simp: wire_ok_def g0_def input_at_def output_at_def)
  then have "wired {i} g1"
    using assms(2) by (auto simp: doc_inv_def wired_def g1_def g0_def distinct_map_filter)
  moreover have "shaped g1" using assms(2) by (auto simp: doc_inv_def shaped_def g1_def g0_def)
  ultimately have "wired {i} g'" "shaped g'" "\<forall>c\<in>set (gs_connections g'). sid_node (co_from c) \<noteq> i"
    using remove_outgoing_keeps by fastforce+
  then show ?thesis by (auto simp: doc_inv_def wired_def wire_ok_def)
qed (use assms in \<open>simp add: remove_node_def\<close>)

definition valid_wire :: "'j graph_state \<Rightarrow> socket_id \<Rightarrow> socket_id \<Rightarrow> bool" where
  "valid_wire g src to \<longleftrightarrow> sid_direction src = Output \<and> output_at g src \<noteq> None \<and> sid_direction to = Input \<and> input_at g to \<noteq> None"

lemma add_connection_keeps:
  assumes "add_connection depth g src to = Some g'" "doc_inv g" "valid_wire g src to"
  shows "doc_inv g'"
proof -
  let ?g1 = "g\<lparr>gs_connections := filter (\<lambda>c. co_to c \<noteq> to) (gs_connections g) @ [\<lparr>co_from = src, co_to = to\<rparr>]\<rparr>"
  let ?g2 = "resolve_input ?g1 src to"
  from assms(1) obtain g3 where g3: "propagate_reroute_output depth (grow_variadic_group ?g2 to) (sid_node to) = Some g3"
    "g' = mark_semantic_change g3" by (auto simp: add_connection_def Let_def)
  have "wired {} ?g1" "shaped ?g1"
    using assms(2,3)
    by (auto simp: doc_inv_def wired_def distinct_map_filter) (simp add: wire_ok_def valid_wire_def)
  then have "wired {} ?g2" "shaped ?g2"
    using wired_same [of ?g2 ?g1] resolve_input_keeps(1,2) [of ?g1 src to] by simp_all
  note grown = grow_keeps [OF this, of to]
  from propagate_keeps_inv [OF g3(1) grown] g3(2) show ?thesis by (simp add: doc_inv_def)
qed

lemma disconnect_input_keeps:
  assumes "disconnect_input depth g to = Some (r, g')" "doc_inv g"
  shows "doc_inv g'"
proof -
  let ?g = "g\<lparr>gs_connections := filter (\<lambda>c. co_to c \<noteq> to) (gs_connections g)\<rparr>"
  have inv: "wired {} ?g" "shaped ?g" using assms(2) by (auto simp: doc_inv_def wired_def distinct_map_filter intro: wired_fewer)
  from assms(1) consider "g' = ?g" | g2 where "on_input_disconnected depth ?g to = Some g2" "g' = mark_semantic_change g2"
    by (auto simp: disconnect_input_def Let_def split: if_splits)
  then show ?thesis
    using inv on_input_disconnected_keeps [OF _ inv] by cases (auto simp: doc_inv_def)
qed

lemma insert_variadic_connection_keeps:
  assumes "insert_variadic_connection depth g src to = Some (r, g')" "doc_inv g" "valid_wire g src to"
  shows "doc_inv g'"
proof (cases r)
  case True
  from assms(1) True obtain s info g5 where s: "input_at g to = Some s" "so_variadic s = Some info"
    and g5: "let g1 = insert_input_socket g (sid_node to) (sid_index to) (s\<lparr>so_resolved_type := None\<rparr>);
                 g2 = g1\<lparr>gs_connections := gs_connections g1 @ [\<lparr>co_from = src, co_to = to\<rparr>]\<rparr>;
                 g3 = resolve_input g2 src to
             in propagate_reroute_output depth (renumber_variadic_group g3 (sid_node to) (so_def_index s) info) (sid_node to) = Some g5"
      "g' = mark_semantic_change g5"
    by (auto simp: insert_variadic_connection_def Let_def split: option.splits if_splits)
  from s(1) obtain n where n: "gs_nodes g (sid_node to) = Some n" "sid_index to < length (nd_inputs n)"
    by (auto simp: input_at_def split: option.splits if_splits)
  have regular: "regular_at g (sid_node to)" using variadic_regular s assms(2) by (auto simp: doc_inv_def)
  define g1 where "g1 = insert_input_socket g (sid_node to) (sid_index to) (s\<lparr>so_resolved_type := None\<rparr>)"
  define g2 where "g2 = g1\<lparr>gs_connections := gs_connections g1 @ [\<lparr>co_from = src, co_to = to\<rparr>]\<rparr>"
  have conns: "gs_connections g1 = map (shift_up (sid_node to) (sid_index to)) (gs_connections g)"
    using n by (simp add: g1_def insert_input_socket_def Let_def)
  have g1: "wired {} g1" "shaped g1" "regular_at g1 (sid_node to)"
    using assms(2) wired_insert shaped_insert_remove(1,3) [OF _ regular] by (auto simp: g1_def doc_inv_def)
  have fresh: "to \<notin> co_to ` set (gs_connections g1)"
    unfolding conns using up_misses [of to, symmetric] by (auto simp: image_iff)
  have "output_at g1 src = output_at g src" using input_at_insert(2) [OF n(1)] n(2) by (simp add: g1_def)
  moreover have "input_at g1 to \<noteq> None"
    using n by (simp add: g1_def insert_input_socket_def input_at_def insert_at_def Let_def)
  ultimately have "wire_ok {} g1 \<lparr>co_from = src, co_to = to\<rparr>" using assms(3) by (simp add: wire_ok_def valid_wire_def)
  then have "wired {} g2" "shaped g2" "regular_at g2 (sid_node to)"
    using g1 fresh by (auto simp: g2_def wired_def regular_at_def)
  moreover define g3 where "g3 = resolve_input g2 src to"
  ultimately have "wired {} g3" "shaped g3"
    using wired_same [of g3 g2] resolve_input_keeps(1,2) [of g2 src to] by simp_all
  moreover have "regular_at g3 (sid_node to)"
    using \<open>regular_at g2 (sid_node to)\<close> by (auto simp: g3_def resolve_input_def regular_at_def update_input_def Let_def split: if_splits)
  ultimately have "wired {} (renumber_variadic_group g3 (sid_node to) (so_def_index s) info)"
    "shaped (renumber_variadic_group g3 (sid_node to) (so_def_index s) info)" using renumber_keeps by blast+
  from propagate_keeps_inv [OF _ this] g5 show ?thesis
    by (auto simp: doc_inv_def g3_def g2_def g1_def Let_def)
next
  case False
  then have "g' = g" using assms(1)
    by (auto simp: insert_variadic_connection_def Let_def split: option.splits if_splits)
  then show ?thesis using assms(2) by simp
qed

lemma prune_members_keeps: "doc_inv g \<Longrightarrow> doc_inv (prune_members g i)"
proof (induction g i rule: prune_members.induct)
  case (1 g i)
  then show ?case
    using collapse_keeps [of "{}" g] by (subst prune_members.simps) (auto simp: doc_inv_def split: option.splits)
qed

lemma clear_unconnected_keeps:
  assumes "doc_inv g"
  shows "doc_inv (clear_unconnected g i)"
proof -
  let ?f = "\<lambda>n. n\<lparr>nd_inputs := map (\<lambda>(k, s). if so_resolved_type s \<noteq> None \<and> k \<notin> connected_indices g i
    then s\<lparr>so_resolved_type := None\<rparr> else s) (enumerate 0 (nd_inputs n))\<rparr>"
  have "dims (update_node g i ?f) = dims g" by (rule dims_update_node) simp
  moreover have "shaped (update_node g i ?f)"
    using assms by (intro shaped_update_node) (auto simp: doc_inv_def node_ok_def)
  ultimately show ?thesis
    using assms wired_same [of "update_node g i ?f" g] by (simp add: clear_unconnected_def doc_inv_def)
qed

lemma prune_keeps: "doc_inv g \<Longrightarrow> doc_inv (prune_unconnected_resolutions g ids)"
  unfolding prune_unconnected_resolutions_def
  by (induction ids arbitrary: g) (auto intro: clear_unconnected_keeps prune_members_keeps)

lemma reconcile_keeps: "reconcile_reroute_outputs depth g order = Some g' \<Longrightarrow> doc_inv g \<Longrightarrow> doc_inv g'"
  unfolding reconcile_reroute_outputs_def
proof -
  have "propagate_each depth g ids = Some g' \<Longrightarrow> doc_inv g \<Longrightarrow> doc_inv g'" for ids
    by (induction ids arbitrary: g) (auto simp: doc_inv_def split: option.splits dest: propagate_keeps_inv)
  then show "propagate_each depth g (filter (is_reroute g) order) = Some g' \<Longrightarrow> doc_inv g \<Longrightarrow> doc_inv g'" by blast
qed

section \<open>Wires follow their sockets\<close>

text \<open>
  The input sockets of a document move by an injective renaming \<open>f\<close>, the removed ones apart: the wires are
  those of the remaining sockets, renamed, and a remaining socket is found under its new name as it was, but
  for the name it shows and for the changes allowed by \<open>changed\<close>.
\<close>

definition same_socket :: "'j socket \<Rightarrow> 'j socket \<Rightarrow> bool" where
  "same_socket s s' \<longleftrightarrow> s\<lparr>so_name := so_name s'\<rparr> = s'"

definition keeps_places :: "(socket_id \<Rightarrow> bool) \<Rightarrow> (socket_id \<Rightarrow> socket_id) \<Rightarrow> bool" where
  "keeps_places removed f \<longleftrightarrow>
     (\<forall>s t. \<not> removed s \<and> \<not> removed t \<longrightarrow> sid_node (f s) = sid_node s \<and> sid_direction (f s) = sid_direction s \<and>
       (sid_node s = sid_node t \<and> sid_index s < sid_index t \<longrightarrow> sid_index (f s) < sid_index (f t)))"

definition wires_follow :: "(socket_id \<Rightarrow> bool) \<Rightarrow> (socket_id \<Rightarrow> bool) \<Rightarrow> 'j graph_state \<Rightarrow> 'j graph_state \<Rightarrow> bool" where
  "wires_follow removed changed g g' \<longleftrightarrow>
     (\<exists>f. keeps_places removed f \<and>
       gs_connections g' = map (\<lambda>c. c\<lparr>co_to := f (co_to c)\<rparr>) (filter (\<lambda>c. \<not> removed (co_to c)) (gs_connections g)) \<and>
       (\<forall>t s. \<not> removed t \<and> input_at g t = Some s \<longrightarrow>
         (\<exists>s'. input_at g' (f t) = Some s' \<and> (changed t \<or> same_socket s s'))))"

definition at_socket :: "socket_id \<Rightarrow> socket_id \<Rightarrow> bool" where
  "at_socket to t \<longleftrightarrow> sid_node t = sid_node to \<and> sid_index t = sid_index to"

abbreviation nowhere :: "socket_id \<Rightarrow> bool" where
  "nowhere \<equiv> \<lambda>_. False"

lemma same_socket_refl [simp]: "same_socket s s"
  by (simp add: same_socket_def)

lemma same_socket_trans: "same_socket s t \<Longrightarrow> same_socket t u \<Longrightarrow> same_socket s u"
  unfolding same_socket_def by (cases s; cases t; cases u) auto

lemma wires_follow_refl: "wires_follow nowhere changed g g"
  unfolding wires_follow_def by (intro exI [of _ "\<lambda>t. t"]) (simp add: map_idI keeps_places_def)

lemma wires_follow_trans:
  assumes "wires_follow removed changed g g1" "wires_follow nowhere nowhere g1 g2"
  shows "wires_follow removed changed g g2"
proof -
  obtain f where f: "keeps_places removed f"
    "gs_connections g1 = map (\<lambda>c. c\<lparr>co_to := f (co_to c)\<rparr>) (filter (\<lambda>c. \<not> removed (co_to c)) (gs_connections g))"
    "\<And>t s. \<not> removed t \<Longrightarrow> input_at g t = Some s \<Longrightarrow> \<exists>s'. input_at g1 (f t) = Some s' \<and> (changed t \<or> same_socket s s')"
    using assms(1) unfolding wires_follow_def by blast
  obtain h where h: "keeps_places nowhere h" "gs_connections g2 = map (\<lambda>c. c\<lparr>co_to := h (co_to c)\<rparr>) (gs_connections g1)"
    "\<And>t s. input_at g1 t = Some s \<Longrightarrow> \<exists>s'. input_at g2 (h t) = Some s' \<and> same_socket s s'"
    using assms(2) unfolding wires_follow_def by auto
  have "\<exists>s'. input_at g2 (h (f t)) = Some s' \<and> (changed t \<or> same_socket s s')" if "\<not> removed t" "input_at g t = Some s" for t s
    using f(3) [OF that] h(3) same_socket_trans by blast
  moreover have "keeps_places removed (\<lambda>t. h (f t))" using f(1) h(1) unfolding keeps_places_def by metis
  ultimately show ?thesis
    unfolding wires_follow_def by (intro exI [of _ "\<lambda>t. h (f t)"]) (auto simp: h(2) f(2))
qed

lemma follow_insert: "wires_follow nowhere nowhere g (insert_input_socket g i k s)"
proof (cases "gs_nodes g i")
  case (Some n)
  let ?k = "min k (length (nd_inputs n))"
  have same: "insert_input_socket g i k s = insert_input_socket g i ?k s" using Some by (simp add: insert_input_socket_def Let_def)
  have shift: "shift_up i ?k c = c\<lparr>co_to := up i ?k (co_to c)\<rparr>" for c by (simp add: shift_up_def up_def)
  have "gs_connections (insert_input_socket g i ?k s) = map (\<lambda>c. c\<lparr>co_to := up i ?k (co_to c)\<rparr>) (gs_connections g)"
    using Some by (simp add: insert_input_socket_def Let_def shift)
  then show ?thesis
    unfolding same wires_follow_def using input_at_insert(1) [OF Some, of ?k s]
    by (intro exI [of _ "up i ?k"]) (auto simp: keeps_places_def up_def)
qed (simp add: insert_input_socket_def wires_follow_refl)

lemma follow_remove:
  assumes "gs_nodes g i = Some n" "k < length (nd_inputs n)"
  shows "wires_follow (\<lambda>t. sid_node t = i \<and> sid_index t = k) nowhere g (snd (remove_input_socket g i k))"
proof -
  have shift: "shift_down i k c = c\<lparr>co_to := down i k (co_to c)\<rparr>" for c by (simp add: shift_down_def down_def)
  have "gs_connections (snd (remove_input_socket g i k)) =
      map (\<lambda>c. c\<lparr>co_to := down i k (co_to c)\<rparr>) (filter (\<lambda>c. \<not> (sid_node (co_to c) = i \<and> sid_index (co_to c) = k)) (gs_connections g))"
    using assms by (simp add: remove_input_socket_def shift)
  then show ?thesis
    unfolding wires_follow_def using input_at_remove [OF assms]
    by (intro exI [of _ "down i k"]) (auto simp: keeps_places_def down_def)
qed

lemma follow_update:
  assumes "\<And>n k. k < length (nd_inputs n) \<Longrightarrow> k < length (nd_inputs (f n)) \<and> (changed \<lparr>sid_node = i, sid_index = k, sid_direction = Input\<rparr> \<or>
    same_socket (nd_inputs n ! k) (nd_inputs (f n) ! k))"
    and "\<And>t. changed t = changed (t\<lparr>sid_direction := Input\<rparr>)"
  shows "wires_follow nowhere changed g (update_node g i f)"
proof -
  have "\<exists>s'. input_at (update_node g i f) t = Some s' \<and> (changed t \<or> same_socket s s')" if t: "input_at g t = Some s" for t s
  proof (cases "sid_node t = i")
    case True
    obtain n where n: "gs_nodes g i = Some n" "sid_index t < length (nd_inputs n)" "s = nd_inputs n ! sid_index t"
      using t True by (auto simp: input_at_def split: option.splits if_splits)
    have "t\<lparr>sid_direction := Input\<rparr> = \<lparr>sid_node = i, sid_index = sid_index t, sid_direction = Input\<rparr>" using True by (cases t) simp
    then have "changed \<lparr>sid_node = i, sid_index = sid_index t, sid_direction = Input\<rparr> = changed t" using assms(2) [of t] by simp
    then show ?thesis using assms(1) [OF n(2)] n True by (simp add: input_at_def)
  next
    case False
    then have "input_at (update_node g i f) t = input_at g t" by (simp add: input_at_def split: option.split)
    then show ?thesis using t by simp
  qed
  then show ?thesis
    unfolding wires_follow_def by (intro exI [of _ "\<lambda>t. t"]) (simp add: map_idI keeps_places_def)
qed

lemma follow_renumber: "wires_follow nowhere nowhere g (update_node g i (\<lambda>n. n\<lparr>nd_inputs := renumber_members d base m (nd_inputs n)\<rparr>))"
proof (rule follow_update)
  have renumber: "k < length ss \<Longrightarrow> k < length (renumber_members d base m ss) \<and> same_socket (ss ! k) (renumber_members d base m ss ! k)"
    for k and ss :: "'a socket list" and m
    by (induction d base m ss arbitrary: k rule: renumber_members.induct) (auto simp: nth_Cons same_socket_def split: nat.split)
  fix n :: "'a node" and k
  assume "k < length (nd_inputs n)"
  then show "k < length (nd_inputs (n\<lparr>nd_inputs := renumber_members d base m (nd_inputs n)\<rparr>)) \<and>
      (nowhere \<lparr>sid_node = i, sid_index = k, sid_direction = Input\<rparr> \<or>
       same_socket (nd_inputs n ! k) (nd_inputs (n\<lparr>nd_inputs := renumber_members d base m (nd_inputs n)\<rparr>) ! k))"
    using renumber by simp
qed simp

lemma follow_grow: "wires_follow nowhere (at_socket to) g (grow_variadic_group g to)"
proof -
  have update: "wires_follow nowhere (at_socket to) g (update_input g to f)" for f
    unfolding update_input_def
  proof (rule follow_update)
    fix n :: "'a node" and k
    assume "k < length (nd_inputs n)"
    then show "k < length (nd_inputs (n\<lparr>nd_inputs := (nd_inputs n)[sid_index to := f (nd_inputs n ! sid_index to)]\<rparr>)) \<and>
        (at_socket to \<lparr>sid_node = sid_node to, sid_index = k, sid_direction = Input\<rparr> \<or>
         same_socket (nd_inputs n ! k) (nd_inputs (n\<lparr>nd_inputs := (nd_inputs n)[sid_index to := f (nd_inputs n ! sid_index to)]\<rparr>) ! k))"
      by (cases "k = sid_index to") (simp_all add: at_socket_def)
  qed (simp add: at_socket_def)
  show ?thesis
    using update wires_follow_refl [of "at_socket to" g] wires_follow_trans [OF update follow_insert]
    by (auto simp: grow_variadic_group_def Let_def split: option.splits)
qed

lemma follow_collapse:
  assumes "input_at g to = Some s" "is_variadic_member s"
  shows "wires_follow (at_socket to) nowhere g (collapse_variadic_member g to)"
proof -
  obtain n where n: "gs_nodes g (sid_node to) = Some n" "sid_index to < length (nd_inputs n)"
    using assms(1) by (auto simp: input_at_def split: option.splits if_splits)
  have at: "(\<lambda>t. sid_node t = sid_node to \<and> sid_index t = sid_index to) = at_socket to" by (simp add: at_socket_def fun_eq_iff)
  note removed = follow_remove [OF n, unfolded at]
  note renumbered = wires_follow_trans [OF removed follow_renumber]
  obtain info where info: "so_variadic s = Some info" "\<not> vi_placeholder info"
    using assms(2) by (auto simp: is_variadic_member_def split: option.splits)
  show ?thesis
    using removed renumbered wires_follow_trans [OF renumbered follow_insert] n info
    by (auto simp: collapse_variadic_member_def assms(1) remove_input_socket_def Let_def split: option.splits)
qed

section \<open>Properties\<close>

text \<open>One edit of a document. A node is added under a fresh identity, and a wire is drawn between existing sockets.\<close>

inductive edit :: "nat \<Rightarrow> 'j graph_state \<Rightarrow> 'j graph_state \<Rightarrow> bool" for depth where
  adds: "gs_nodes g (nd_id n) = None \<Longrightarrow> node_ok (nd_id n) n \<Longrightarrow> edit depth g (add_node g n)"
| removes: "remove_node depth g i = Some g' \<Longrightarrow> edit depth g g'"
| connects: "valid_wire g src to \<Longrightarrow> add_connection depth g src to = Some g' \<Longrightarrow> edit depth g g'"
| inserts: "valid_wire g src to \<Longrightarrow> insert_variadic_connection depth g src to = Some (r, g') \<Longrightarrow> edit depth g g'"
| disconnects: "disconnect_input depth g to = Some (r, g') \<Longrightarrow> edit depth g g'"
| cuts: "remove_connection_at depth g k = Some (c, g') \<Longrightarrow> edit depth g g'"
| prunes: "edit depth g (prune_unconnected_resolutions g ids)"
| reconciles: "reconcile_reroute_outputs depth g order = Some g' \<Longrightarrow> edit depth g g'"

lemma add_node_keeps:
  assumes "doc_inv g" "gs_nodes g (nd_id n) = None" "node_ok (nd_id n) n"
  shows "doc_inv (add_node g n)"
proof -
  have "wire_ok {} (add_node g n) c" if "wire_ok {} g c" for c
    using that assms(2) by (auto simp: wire_ok_def add_node_def input_at_def output_at_def)
  moreover have "gs_connections (add_node g n) = gs_connections g" by (simp add: add_node_def)
  ultimately show ?thesis using assms(1,3) by (auto simp: doc_inv_def wired_def shaped_def add_node_def)
qed

lemma edit_keeps: "edit depth g g' \<Longrightarrow> doc_inv g \<Longrightarrow> doc_inv g'"
proof (induction rule: edit.induct)
  case (cuts g k c g')
  then show ?case using remove_connection_at_keeps [of depth g k c g' "{}"] by (simp add: doc_inv_def)
qed (auto intro: add_node_keeps remove_node_keeps add_connection_keeps insert_variadic_connection_keeps
    disconnect_input_keeps prune_keeps reconcile_keeps)

lemma edits_keep: "(edit depth)\<^sup>*\<^sup>* graph_default g \<Longrightarrow> doc_inv g"
proof (induction rule: rtranclp_induct)
  case base
  then show ?case by (simp add: doc_inv_def wired_def shaped_def graph_default_def)
next
  case (step g g')
  then show ?case by (blast intro: edit_keeps)
qed

text \<open>
  C16: A document stays well wired while it is edited, starting from the empty one, by adding nodes under
  unused identities, drawing wires between existing sockets, inserting and removing wires, removing nodes, pruning
  and reconciling: every wire runs from an existing output to an existing input, no input has two wires, nodes
  are filed under their own identity, and a reroute keeps its one input and one output. When a group of inputs
  grows, or a member of it collapses, each remaining socket moves with the wire that ends in it: the wires are
  renamed as the sockets are, the sockets of a node keep their order, and under its new index a socket is what it
  was but for its name; only the placeholder at which the group grows becomes a member.
\<close>
theorem document_stays_wired:
  assumes "(edit depth)\<^sup>*\<^sup>* graph_default g"
  shows "doc_inv g \<and> distinct (map co_to (gs_connections g)) \<and>
    (\<forall>c\<in>set (gs_connections g). \<exists>out inp. output_at g (co_from c) = Some out \<and> input_at g (co_to c) = Some inp) \<and>
    (\<forall>to. wires_follow nowhere (at_socket to) g (grow_variadic_group g to)) \<and>
    (\<forall>to s. input_at g to = Some s \<and> is_variadic_member s \<longrightarrow> wires_follow (at_socket to) nowhere g (collapse_variadic_member g to))"
  using edits_keep [OF assms] follow_grow follow_collapse by (auto simp: doc_inv_def wired_def wire_ok_def)

definition example_reroute :: "node_id \<Rightarrow> unit node" where
  "example_reroute i = new_reroute () i \<lparr>gp_x = 0, gp_y = 0\<rparr>"

lemma example_reroute_ok: "node_ok (nd_id (example_reroute i)) (example_reroute i)"
  by (simp add: node_ok_def example_reroute_def new_reroute_def Let_def)

definition example_two :: "unit graph_state" where
  "example_two = add_node (add_node graph_default (example_reroute 1)) (example_reroute 2)"

definition example_wired :: "unit graph_state" where
  "example_wired = the (add_connection 3 example_two (reroute_output 1) \<lparr>sid_node = 2, sid_index = 0, sid_direction = Input\<rparr>)"

lemma example_two_edits: "(edit 3)\<^sup>*\<^sup>* graph_default example_two"
proof -
  have "edit 3 graph_default (add_node graph_default (example_reroute 1))"
    by (rule edit.adds) (simp_all add: graph_default_def example_reroute_ok)
  moreover have "edit 3 (add_node graph_default (example_reroute 1)) example_two"
    unfolding example_two_def
    by (rule edit.adds) (simp_all add: example_reroute_ok, simp add: add_node_def graph_default_def example_reroute_def new_reroute_def Let_def)
  ultimately show ?thesis by (meson converse_rtranclp_into_rtranclp rtranclp.rtrancl_refl)
qed

lemma example_two_nodes: "gs_nodes example_two = [1 \<mapsto> example_reroute 1, 2 \<mapsto> example_reroute 2]" "gs_connections example_two = []"
  by (simp_all add: example_two_def add_node_def graph_default_def example_reroute_def new_reroute_def Let_def)

lemma example_connects:
  "add_connection 3 example_two (reroute_output 1) \<lparr>sid_node = 2, sid_index = 0, sid_direction = Input\<rparr> = Some example_wired"
proof -
  have "add_connection 3 example_two (reroute_output 1) \<lparr>sid_node = 2, sid_index = 0, sid_direction = Input\<rparr> \<noteq> None"
    by (simp add: add_connection_def resolve_input_def grow_variadic_group_def input_at_def output_at_def update_input_def Let_def
        example_two_nodes example_reroute_def new_reroute_def reroute_output_def numeral_3_eq_3 mirror_reroute_def downstream_of_def)
  then show ?thesis by (auto simp: example_wired_def)
qed

theorem document_stays_wired_witness: "doc_inv example_wired"
proof -
  have "valid_wire example_two (reroute_output 1) \<lparr>sid_node = 2, sid_index = 0, sid_direction = Input\<rparr>"
    by (simp add: valid_wire_def input_at_def output_at_def example_two_nodes example_reroute_def new_reroute_def Let_def reroute_output_def)
  from edit.connects [OF this example_connects] example_two_edits have "(edit 3)\<^sup>*\<^sup>* graph_default example_wired" by simp
  from document_stays_wired [OF this] show ?thesis by simp
qed

end
