(* ===== verification/Graph_Reroutes.thy ===== *)
theory Graph_Reroutes
  imports Graph_Invariant
begin

text \<open>
  The propagation of types along reroutes: it ends when the reroutes are not wired in a circle, and
  never ends when they are.
\<close>

section \<open>Chains of reroutes\<close>

definition feeds :: "'j graph_state \<Rightarrow> (node_id \<times> node_id) set" where
  "feeds g = {(i, sid_node (co_to c)) |i c. c \<in> set (gs_connections g) \<and> co_from c = reroute_output i \<and>
     is_reroute g i \<and> is_reroute g (sid_node (co_to c))}"

definition reached :: "'j graph_state \<Rightarrow> node_id \<Rightarrow> node_id set" where
  "reached g i = {j. (i, j) \<in> (feeds g)\<^sup>*}"

text \<open>The propagation changes resolved types only.\<close>

definition same_wiring :: "'j graph_state \<Rightarrow> 'j graph_state \<Rightarrow> bool" where
  "same_wiring g g' \<longleftrightarrow> gs_connections g' = gs_connections g \<and> is_reroute g' = is_reroute g \<and> shaped g'"

lemma same_wiring_feeds: "same_wiring g g' \<Longrightarrow> feeds g' = feeds g"
  by (simp add: same_wiring_def feeds_def)

lemma is_reroute_update_node:
  "(\<And>n. gs_nodes g i = Some n \<Longrightarrow> nd_kind (f n) = nd_kind n) \<Longrightarrow> is_reroute (update_node g i f) = is_reroute g"
  by (auto simp: is_reroute_def fun_eq_iff split: option.splits)

lemma same_wiring_resolve:
  assumes "same_wiring g0 g"
  shows "same_wiring g0 (resolve_input g src to)"
proof -
  have "is_reroute (resolve_input g src to) = is_reroute g"
    unfolding resolve_input_def update_input_def Let_def by (auto intro!: is_reroute_update_node)
  with assms resolve_input_keeps(1) [of g src to] show ?thesis by (simp add: same_wiring_def)
qed

lemma same_wiring_mirror:
  assumes "same_wiring g0 g" "gs_nodes g i = Some n" "mirror_reroute g i n = Some g'"
  shows "same_wiring g0 g'"
proof -
  have "is_reroute g' = is_reroute g"
    using assms(3) by (auto simp: mirror_reroute_def Let_def intro!: is_reroute_update_node split: list.splits)
  with assms mirror_reroute_keeps(1) [OF _ assms(2,3)] mirror_reroute_connections [OF assms(3)]
  show ?thesis by (simp add: same_wiring_def)
qed

lemma same_wiring_propagate:
  "propagate_reroute_output depth g i = Some g' \<Longrightarrow> same_wiring g0 g \<Longrightarrow> same_wiring g0 g'"
  by (rule propagate_keeps(1)) (auto intro: same_wiring_resolve same_wiring_mirror)

lemma mirror_reroute_returns:
  assumes "shaped g" "gs_nodes g i = Some n" "nd_kind n = Reroute"
  obtains g' where "mirror_reroute g i n = Some g'"
  using shapedD [OF assms(1,2)] assms(3) by (auto simp: node_ok_def mirror_reroute_def Let_def)

lemma feeds_downstream:
  assumes "is_reroute g i" "to \<in> set (downstream_of g (reroute_output i))" "is_reroute g (sid_node to)"
  shows "(i, sid_node to) \<in> feeds g"
  using assms by (auto simp: feeds_def downstream_of_def)

lemma reached_finite: "finite (reached g i)"
proof -
  have "feeds g \<subseteq> (\<lambda>c. (sid_node (co_from c), sid_node (co_to c))) ` set (gs_connections g)"
    by (force simp: feeds_def reroute_output_def image_iff)
  then have "finite (feeds g)" by (rule finite_subset) simp
  moreover have "reached g i \<subseteq> insert i (Range (feeds g))" by (auto simp: reached_def elim: rtranclE)
  ultimately show ?thesis by (meson finite_Range finite_insert finite_subset)
qed

lemma reached_decreases:
  assumes "acyclic (feeds g)" "(i, j) \<in> feeds g"
  shows "card (reached g j) < card (reached g i)"
proof (rule psubset_card_mono [OF reached_finite])
  have "reached g j \<subseteq> reached g i" using assms(2) by (auto simp: reached_def intro: converse_rtrancl_into_rtrancl)
  moreover have "i \<in> reached g i" by (simp add: reached_def)
  moreover have "i \<notin> reached g j"
    using assms by (auto simp: reached_def acyclic_def dest: rtrancl_into_trancl2)
  ultimately show "reached g j \<subset> reached g i" by blast
qed

section \<open>Termination\<close>

lemma propagate_returns:
  assumes "acyclic (feeds g0)" "shaped g0"
  shows "same_wiring g0 g \<Longrightarrow> 0 < depth \<Longrightarrow> (is_reroute g0 i \<Longrightarrow> card (reached g0 i) < depth) \<Longrightarrow>
    \<exists>g'. propagate_reroute_output depth g i = Some g'"
proof (induction depth arbitrary: g i)
  case (Suc depth)
  note wiring = Suc.prems(1)
  show ?case
  proof (cases "is_reroute g0 i")
    case True
    then have "is_reroute g i" using wiring by (simp add: same_wiring_def)
    then obtain n where n: "gs_nodes g i = Some n" "nd_kind n = Reroute" by (auto simp: is_reroute_def split: option.splits)
    have "shaped g" using wiring by (simp add: same_wiring_def)
    from mirror_reroute_returns [OF this n] obtain g1 where g1: "mirror_reroute g i n = Some g1" .
    have wiring1: "same_wiring g0 g1" by (rule same_wiring_mirror [OF wiring n(1) g1])
    have card: "card (reached g0 i) \<le> depth" using Suc.prems(3) True by simp
    have "i \<in> reached g0 i" by (simp add: reached_def)
    then have pos: "0 < depth" using card reached_finite [of g0 i] by (metis card_gt_0_iff empty_iff le_0_eq not_gr0)
    have "\<exists>g'. cascade depth g2 (reroute_output i) tos = Some g'"
      if "same_wiring g0 g2" "set tos \<subseteq> set (downstream_of g0 (reroute_output i))" for g2 tos
      using that
    proof (induction tos arbitrary: g2)
      case (Cons to tos)
      have w: "same_wiring g0 (resolve_input g2 (reroute_output i) to)" by (rule same_wiring_resolve [OF Cons.prems(1)])
      have "card (reached g0 (sid_node to)) < depth" if "is_reroute g0 (sid_node to)"
        using reached_decreases [OF assms(1) feeds_downstream [OF True _ that]] Cons.prems(2) card by simp
      from Suc.IH [OF w pos this] obtain g3 where g3:
        "propagate_reroute_output depth (resolve_input g2 (reroute_output i) to) (sid_node to) = Some g3" by blast
      with Cons.IH [OF same_wiring_propagate [OF g3 w]] Cons.prems(2) show ?case by simp
    qed simp
    moreover have "downstream_of g1 (reroute_output i) = downstream_of g0 (reroute_output i)"
      using wiring1 by (simp add: downstream_of_def same_wiring_def)
    ultimately show ?thesis using n g1 wiring1 by auto
  next
    case False
    then have "\<not> is_reroute g i" using wiring by (simp add: same_wiring_def)
    then show ?thesis by (auto simp: is_reroute_def split: option.splits)
  qed
qed simp

text \<open>On a circle every call makes another call on the circle.\<close>

lemma propagate_diverges:
  "(i, i) \<in> (feeds g0)\<^sup>+ \<Longrightarrow> same_wiring g0 g \<Longrightarrow> propagate_reroute_output depth g i = None"
proof (induction depth arbitrary: g i)
  case (Suc depth)
  from Suc.prems(1) obtain j where j: "(i, j) \<in> feeds g0" "(j, i) \<in> (feeds g0)\<^sup>*" by (metis tranclD)
  then have circle: "(j, j) \<in> (feeds g0)\<^sup>+" by (metis rtrancl_into_trancl1 trancl.simps rtrancl_trancl_trancl)
  from j(1) obtain c where c: "c \<in> set (gs_connections g0)" "co_from c = reroute_output i" "sid_node (co_to c) = j" "is_reroute g0 i"
    by (auto simp: feeds_def reroute_output_def)
  have "is_reroute g i" using c(4) Suc.prems(2) by (simp add: same_wiring_def)
  then obtain n where n: "gs_nodes g i = Some n" "nd_kind n = Reroute" by (auto simp: is_reroute_def split: option.splits)
  have stuck: "cascade depth g2 (reroute_output i) tos = None" if "same_wiring g0 g2" "co_to c \<in> set tos" for g2 tos
    using that
  proof (induction tos arbitrary: g2)
    case (Cons to tos)
    have w: "same_wiring g0 (resolve_input g2 (reroute_output i) to)" by (rule same_wiring_resolve [OF Cons.prems(1)])
    show ?case
    proof (cases "to = co_to c")
      case True
      then show ?thesis using Suc.IH [OF circle w] c(3) by simp
    next
      case False
      then show ?thesis using Cons.IH Cons.prems(2) same_wiring_propagate [OF _ w] by (auto split: option.splits)
    qed
  qed simp
  show ?case
  proof (cases "mirror_reroute g i n")
    case (Some g1)
    have w: "same_wiring g0 g1" by (rule same_wiring_mirror [OF Suc.prems(2) n(1) Some])
    then have "co_to c \<in> set (downstream_of g1 (reroute_output i))"
      using c by (auto simp: downstream_of_def same_wiring_def)
    with stuck [OF w] n Some show ?thesis by simp
  qed (use n in simp)
qed simp

lemma card_reached: "card (reached g i) \<le> length (gs_connections g) + 1"
proof -
  have "reached g i \<subseteq> insert i ((\<lambda>c. sid_node (co_to c)) ` set (gs_connections g))"
    by (auto simp: reached_def feeds_def elim: rtranclE)
  then have "card (reached g i) \<le> card (insert i ((\<lambda>c. sid_node (co_to c)) ` set (gs_connections g)))"
    by (rule card_mono [rotated]) simp
  also have "\<dots> \<le> Suc (card ((\<lambda>c. sid_node (co_to c)) ` set (gs_connections g)))" by (rule card_insert_le_m1) simp_all
  also have "\<dots> \<le> Suc (length (gs_connections g))" by (simp add: le_trans [OF card_image_le card_length])
  finally show ?thesis by simp
qed

section \<open>Properties\<close>

text \<open>
  C17: In a well-wired document the propagation of types through reroutes ends, without a panic and
  within as many nested calls as the document has wires and two more, provided that no chain of
  reroutes leads back to itself. On a reroute that lies on such a circle it never returns, however
  deep the recursion is allowed to go.
\<close>
theorem reroute_propagation_terminates:
  assumes "doc_inv g"
  shows "(acyclic (feeds g) \<and> length (gs_connections g) + 1 < depth \<longrightarrow>
      (\<exists>g'. propagate_reroute_output depth g i = Some g' \<and> doc_inv g')) \<and>
    ((i, i) \<in> (feeds g)\<^sup>+ \<longrightarrow> propagate_reroute_output depth g i = None)"
proof -
  have same: "same_wiring g g" "shaped g" using assms by (simp_all add: same_wiring_def doc_inv_def)
  have "\<exists>g'. propagate_reroute_output depth g i = Some g'"
    if "acyclic (feeds g)" "length (gs_connections g) + 1 < depth"
    using propagate_returns [OF that(1) same(2,1)] that(2) card_reached [of g i] by simp
  moreover have "doc_inv g'" if "propagate_reroute_output depth g i = Some g'" for g'
    using propagate_keeps_inv [OF that, of "{}"] assms by (simp add: doc_inv_def)
  ultimately show ?thesis using propagate_diverges [OF _ same(1)] by blast
qed

lemma example_wired_facts: "doc_inv example_wired"
  "gs_connections example_wired = [\<lparr>co_from = reroute_output 1, co_to = \<lparr>sid_node = 2, sid_index = 0, sid_direction = Input\<rparr>\<rparr>]"
proof -
  have wire: "valid_wire example_two (reroute_output 1) \<lparr>sid_node = 2, sid_index = 0, sid_direction = Input\<rparr>"
    by (simp add: valid_wire_def input_at_def output_at_def example_two_nodes example_reroute_def new_reroute_def Let_def reroute_output_def)
  have "doc_inv example_two"
    by (rule edits_keep [OF example_two_edits])
  with add_connection_keeps [OF example_connects _ wire] show "doc_inv example_wired" by simp
  have "map_option gs_connections (add_connection 3 example_two (reroute_output 1) \<lparr>sid_node = 2, sid_index = 0, sid_direction = Input\<rparr>) =
      Some [\<lparr>co_from = reroute_output 1, co_to = \<lparr>sid_node = 2, sid_index = 0, sid_direction = Input\<rparr>\<rparr>]"
    by (simp add: add_connection_def resolve_input_def grow_variadic_group_def input_at_def output_at_def update_input_def Let_def
        example_two_nodes example_reroute_def new_reroute_def reroute_output_def numeral_3_eq_3 mirror_reroute_def downstream_of_def
        mark_semantic_change_def update_node_def)
  then show "gs_connections example_wired = [\<lparr>co_from = reroute_output 1, co_to = \<lparr>sid_node = 2, sid_index = 0, sid_direction = Input\<rparr>\<rparr>]"
    by (simp add: example_connects)
qed

theorem reroute_propagation_terminates_witness:
  "\<exists>g'. propagate_reroute_output 3 example_wired 1 = Some g' \<and> doc_inv g'"
proof -
  have "feeds example_wired \<subseteq> {(1, 2)}" by (auto simp: feeds_def example_wired_facts reroute_output_def)
  moreover have "acyclic {(1 :: node_id, 2)}" by (auto simp: acyclic_def trancl_insert)
  ultimately have "acyclic (feeds example_wired)" by (meson acyclic_subset)
  with reroute_propagation_terminates [OF example_wired_facts(1), of 3 1] show ?thesis by (simp add: example_wired_facts)
qed

text \<open>
  The edit that closes a circle is not refused: in a document with one unconnected reroute, wiring its
  output to its own input never returns.
\<close>

lemma reroute_circle_never_returns:
  "add_connection depth (add_node graph_default (example_reroute 1)) (reroute_output 1)
     \<lparr>sid_node = 1, sid_index = 0, sid_direction = Input\<rparr> = None"
proof -
  let ?to = "\<lparr>sid_node = 1, sid_index = 0, sid_direction = Input\<rparr>"
  define g where "g = add_node graph_default (example_reroute 1)"
  let ?g1 = "g\<lparr>gs_connections := [\<lparr>co_from = reroute_output 1, co_to = ?to\<rparr>]\<rparr>"
  define g2 where "g2 = resolve_input ?g1 (reroute_output 1) ?to"
  have g: "shaped g" "is_reroute g 1" "gs_connections g = []"
    using example_reroute_ok [of 1]
    by (auto simp: g_def add_node_def graph_default_def shaped_def is_reroute_def example_reroute_def new_reroute_def Let_def)
  then have "same_wiring ?g1 ?g1" by (simp add: same_wiring_def)
  then have w: "same_wiring ?g1 g2" unfolding g2_def by (rule same_wiring_resolve)
  have "(1, 1) \<in> feeds ?g1" using g(2) by (force simp: feeds_def is_reroute_def)
  then have loop: "(1, 1) \<in> (feeds ?g1)\<^sup>+" by (rule r_into_trancl)
  have "grow_variadic_group g2 ?to = g2"
  proof (cases "input_at g2 ?to")
    case (Some s)
    have "shaped g2" using w by (simp add: same_wiring_def)
    moreover have "is_reroute g2 1" using w g(2) by (simp add: same_wiring_def is_reroute_def)
    ultimately have "so_variadic s = None"
      using Some variadic_regular [of g2 ?to s] by (cases "so_variadic s") (auto simp: regular_at_def is_reroute_def split: option.splits)
    then show ?thesis using Some by (simp add: grow_variadic_group_def split: option.splits)
  qed (simp add: grow_variadic_group_def split: option.splits)
  then show ?thesis
    using propagate_diverges [OF loop w] g(3) by (simp add: add_connection_def Let_def g_def [symmetric] g2_def)
qed

end
