(* ===== verification/Sample_Blocks.thy ===== *)
theory Sample_Blocks
  imports Node_Runtime Signal_Events Ordered_Map
begin

text \<open>
  What the protocol decoders consume and produce: the packed sample blocks of
  \<^verbatim>\<open>crates/signal_capture/src/sample.rs\<close>, with the levels a sequence of blocks carries, and the open
  structured values of \<^verbatim>\<open>crates/logic_analyzer_protocol_decoders/src/types/packet.rs\<close>. The shared
  backing of block data is immutable, so a block holds the bytes of its visible range.
\<close>

section \<open>Packed blocks\<close>

record sample_block =
  blk_data :: "u8 list"
  blk_start_position :: u64
  blk_num_samples :: nat
  blk_timestamp_step :: u64

definition sample_block_new :: "u8 list \<Rightarrow> u64 \<Rightarrow> nat \<Rightarrow> u64 \<Rightarrow> sample_block" where
  "sample_block_new bytes start_position num_samples timestamp_step =
     \<lparr>blk_data = bytes, blk_start_position = start_position, blk_num_samples = num_samples,
      blk_timestamp_step = timestamp_step\<rparr>"

text \<open>\<open>None\<close> is the panic on a byte outside the block.\<close>

definition get_bit :: "sample_block \<Rightarrow> u64 \<Rightarrow> bool option" where
  "get_bit b position =
     (let local = unat (position - blk_start_position b); byte_index = local div 8; bit_offset = local mod 8
      in if byte_index < length (blk_data b) then Some (bit (blk_data b ! byte_index) bit_offset) else None)"

definition position_to_timestamp :: "sample_block \<Rightarrow> u64 \<Rightarrow> u64" where
  "position_to_timestamp b position = position * blk_timestamp_step b"

definition end_position :: "sample_block \<Rightarrow> u64" where
  "end_position b = blk_start_position b + of_nat (blk_num_samples b)"

definition block_data_slice :: "u8 list \<Rightarrow> nat \<Rightarrow> nat \<Rightarrow> u8 list option" where
  "block_data_slice bytes offset len =
     (case usize_checked_add offset len of
        None \<Rightarrow> None
      | Some stop \<Rightarrow> if length bytes < stop then None else Some (take len (drop offset bytes)))"

definition sub_block :: "sample_block \<Rightarrow> nat \<Rightarrow> nat \<Rightarrow> sample_block option" where
  "sub_block b sample_offset num_samples =
     (case usize_checked_add sample_offset num_samples of
        None \<Rightarrow> None
      | Some sample_end \<Rightarrow>
          if sample_offset mod 8 \<noteq> 0 \<or> blk_num_samples b < sample_end then None
          else
            case block_data_slice (blk_data b) (sample_offset div 8) (div_ceil num_samples 8) of
              None \<Rightarrow> None
            | Some bytes \<Rightarrow>
                (case checked_add (blk_start_position b) (of_nat sample_offset) of
                   None \<Rightarrow> None
                 | Some start_position \<Rightarrow>
                     Some \<lparr>blk_data = bytes, blk_start_position = start_position, blk_num_samples = num_samples,
                           blk_timestamp_step = blk_timestamp_step b\<rparr>))"

text \<open>The positions a block covers, as the loops over it visit them.\<close>

definition positions :: "u64 \<Rightarrow> u64 \<Rightarrow> u64 list" where
  "positions start stop = map of_nat [unat start..<unat stop]"

text \<open>
  A block is complete when its bytes hold all its samples and its positions do not pass the end of
  the counter.
\<close>

definition block_ok :: "sample_block \<Rightarrow> bool" where
  "block_ok b \<longleftrightarrow> blk_num_samples b \<le> 8 * length (blk_data b) \<and>
     unat (blk_start_position b) + blk_num_samples b < 2 ^ 64"

definition block_bits :: "sample_block \<Rightarrow> bool list" where
  "block_bits b = map (\<lambda>k. bit (blk_data b ! (k div 8)) (k mod 8)) [0..<blk_num_samples b]"

lemma length_block_bits [simp]: "length (block_bits b) = blk_num_samples b"
  by (simp add: block_bits_def)

lemma end_position_unat: "block_ok b \<Longrightarrow> unat (end_position b) = unat (blk_start_position b) + blk_num_samples b"
  by (simp add: block_ok_def end_position_def unat_word_ariths unat_of_nat)

lemma positions_block:
  assumes "block_ok b"
  shows "positions (blk_start_position b) (end_position b) =
    map (\<lambda>k. blk_start_position b + of_nat k) [0..<blk_num_samples b]"
proof -
  have "[unat (blk_start_position b)..<unat (end_position b)] =
      map (\<lambda>k. k + unat (blk_start_position b)) [0..<blk_num_samples b]"
    by (simp add: end_position_unat [OF assms] map_add_upt add.commute)
  then show ?thesis by (simp add: positions_def add.commute)
qed

lemma get_bit_block:
  assumes "block_ok b" "k < blk_num_samples b"
  shows "get_bit b (blk_start_position b + of_nat k) = Some (block_bits b ! k)"
proof -
  have "k < 2 ^ 64" using assms by (simp add: block_ok_def)
  then have "unat (of_nat k :: u64) = k" by (simp add: unat_of_nat)
  then show ?thesis using assms by (auto simp: get_bit_def block_bits_def block_ok_def Let_def)
qed

text \<open>A byte-aligned part of a block carries the same levels at the same positions.\<close>

lemma sub_block_bits:
  assumes "sub_block b sample_offset num_samples = Some s" "block_ok b"
  shows "block_ok s \<and> block_bits s = take num_samples (drop sample_offset (block_bits b)) \<and>
    blk_start_position s = blk_start_position b + of_nat sample_offset"
proof -
  from assms(1) have parts: "sample_offset mod 8 = 0" "sample_offset + num_samples \<le> blk_num_samples b"
    "sample_offset div 8 + div_ceil num_samples 8 \<le> length (blk_data b)"
    "checked_add (blk_start_position b) (of_nat sample_offset) = Some (blk_start_position s)"
    "blk_data s = take (div_ceil num_samples 8) (drop (sample_offset div 8) (blk_data b))" "blk_num_samples s = num_samples"
    by (auto simp: sub_block_def block_data_slice_def usize_checked_add_def split: option.splits if_splits)
  have lt: "sample_offset < 2 ^ 64" using parts(2) assms(2) by (simp add: block_ok_def)
  have start: "blk_start_position s = blk_start_position b + of_nat sample_offset"
    using parts(4) by (auto simp: checked_add_def split: if_splits)
  moreover have "unat (blk_start_position s) = unat (blk_start_position b) + sample_offset"
    using start assms(2) parts(2) lt by (simp add: block_ok_def unat_word_ariths unat_of_nat)
  moreover have "num_samples \<le> 8 * div_ceil num_samples 8" using div_ceil_mult_ge [of 8 num_samples] by (simp add: mult.commute)
  ultimately have "block_ok s" using parts assms(2) by (simp add: block_ok_def)
  moreover have "block_bits s = take num_samples (drop sample_offset (block_bits b))"
  proof (rule nth_equalityI)
    fix k assume "k < length (block_bits s)"
    then have k: "k < num_samples" using parts(6) by simp
    then have "k div 8 < div_ceil num_samples 8" by (auto simp: div_ceil_def less_eq_div_iff_mult_less_eq div_less_iff_less_mult)
    then have "blk_data s ! (k div 8) = blk_data b ! (sample_offset div 8 + k div 8)"
      using parts(3) by (simp add: parts(5))
    moreover obtain q where "sample_offset = 8 * q" using parts(1) by auto
    then have "(sample_offset + k) div 8 = sample_offset div 8 + k div 8" "(sample_offset + k) mod 8 = k mod 8"
      by simp_all
    ultimately show "block_bits s ! k = take num_samples (drop sample_offset (block_bits b)) ! k"
      using k parts(2,6) by (simp add: block_bits_def)
  qed (use parts in simp)
  ultimately show ?thesis using start by simp
qed

section \<open>Structured values\<close>

datatype protocol_value =
    Null
  | PBool bool
  | PInteger int
  | PFloat u64
  | PString string
  | PBytes "u8 list"
  | PList "protocol_value list"
  | PTuple "protocol_value list"
  | PMapping "(string \<times> protocol_value) list"

record protocol_packet =
  pk_start_sample :: u64
  pk_end_sample :: u64
  pk_start_time_ns :: u64
  pk_end_time_ns :: u64
  pk_protocol_id :: string
  pk_value :: protocol_value

end
