(* ===== verification/I2c_Decoder.thy ===== *)
theory I2c_Decoder
  imports Sample_Blocks
begin

text \<open>
  The I2C decoder, \<^verbatim>\<open>crates/logic_analyzer_protocol_decoders/src/i2c_decoder/decoder.rs\<close>: two sampled
  lines become words and packets. The specification is the bus itself: messages are turned into the
  conditions and clock pulses that carry them and those into sampled levels of any timing, and the
  theorem says that the decoder gives the messages back, however the samples are cut into blocks.
\<close>

section \<open>State\<close>

definition I2C_PROTOCOL_ID :: string where
  "I2C_PROTOCOL_ID = ''i2c''"

text \<open>The name of the protocol in messages is UTF-8.\<close>

definition I2C :: string where
  "I2C = ''I'' @ [CHR 0xC2, CHR 0xB2] @ ''C''"

record sampled_bit =
  sb_value :: bool
  sb_position :: u64

record i2c_decoder =
  i2_name :: string
  i2_previous :: "(bool \<times> bool) option"
  i2_active :: bool
  i2_repeated_start :: bool
  i2_address_pending :: bool
  i2_is_write :: "bool option"
  i2_bits :: "sampled_bit list"
  i2_awaiting_ack :: bool
  i2_finished :: bool

definition i2c_decoder_new :: i2c_decoder where
  "i2c_decoder_new =
     \<lparr>i2_name = ''i2c_decoder'', i2_previous = None, i2_active = False, i2_repeated_start = False,
      i2_address_pending = True, i2_is_write = None, i2_bits = [], i2_awaiting_ack = False, i2_finished = False\<rparr>"

definition i2c_with_name :: "i2c_decoder \<Rightarrow> string \<Rightarrow> i2c_decoder" where
  "i2c_with_name d name = d\<lparr>i2_name := name\<rparr>"

text \<open>A node with its ports; an input of another payload type is \<open>None\<close>.\<close>

record i2c_ctx =
  ic_node :: i2c_decoder
  ic_inputs :: "sample_block receiver option list"
  ic_words :: "decoded_word out_port option"
  ic_packets :: "protocol_packet out_port option"

section \<open>Operations\<close>

fun acquire_each :: "nat \<Rightarrow> sample_block receiver option list \<Rightarrow>
    (sample_block list option work_result \<times> sample_block receiver option list) option" where
  "acquire_each index [] = Some (Inr (Some []), [])"
| "acquire_each index (None # inputs) =
     Some (Inl (NodeError (I2C @ '' decoder input '' @ show_nat index @ '' is not a sample block stream'')), None # inputs)"
| "acquire_each index (Some r # inputs) =
     (case recv r of
        None \<Rightarrow> None
      | Some (Inr block, r1) \<Rightarrow>
          map_option (\<lambda>(res, inputs1). (map_sum id (map_option (Cons block)) res, Some r1 # inputs1))
            (acquire_each (Suc index) inputs)
      | Some (Inl e, r1) \<Rightarrow>
          Some (if e = Shutdown
                then if index = 0 then Inr None else Inl (NodeError (I2C @ '' SDA input ended before SCL''))
                else Inl e, Some r1 # inputs))"

definition acquire_blocks :: "sample_block receiver option list \<Rightarrow>
    ((sample_block \<times> sample_block) option work_result \<times> sample_block receiver option list) option" where
  "acquire_blocks inputs =
     (if length inputs \<noteq> 2 then Some (Inl (NodeError (I2C @ '' decoder requires SCL and SDA inputs'')), inputs)
      else
        map_option (\<lambda>(res, inputs1).
          (case res of
             Inl e \<Rightarrow> Inl e
           | Inr None \<Rightarrow> Inr None
           | Inr (Some blocks) \<Rightarrow>
               (case blocks of
                  [scl, sda] \<Rightarrow>
                    if blk_start_position scl \<noteq> blk_start_position sda \<or> blk_num_samples scl \<noteq> blk_num_samples sda \<or>
                       blk_timestamp_step scl \<noteq> blk_timestamp_step sda
                    then Inl (NodeError (I2C @ '' SCL and SDA sample blocks are not aligned''))
                    else if blk_num_samples scl = 0
                    then Inl (NodeError (I2C @ '' decoder received an empty sample block''))
                    else Inr (Some (scl, sda))
                | _ \<Rightarrow> Inl Panicked), inputs1))
          (acquire_each 0 inputs))"

definition i2c_packet :: "string \<Rightarrow> protocol_value \<Rightarrow> u64 \<Rightarrow> u64 \<Rightarrow> u64 \<Rightarrow> protocol_packet" where
  "i2c_packet command content start_sample end_sample timestamp_step =
     \<lparr>pk_start_sample = start_sample, pk_end_sample = end_sample,
      pk_start_time_ns = saturating_mul start_sample timestamp_step,
      pk_end_time_ns = saturating_mul end_sample timestamp_step, pk_protocol_id = I2C_PROTOCOL_ID,
      pk_value = PList [PString command, content]\<rparr>"

definition emit_control :: "string \<Rightarrow> u64 \<Rightarrow> u64 \<Rightarrow> protocol_packet" where
  "emit_control command position timestamp_step = i2c_packet command Null position position timestamp_step"

definition bits_value :: "bool list \<Rightarrow> u8" where
  "bits_value bs = fold (\<lambda>b v. push_bit 1 v OR (if b then 1 else 0)) bs 0"

text \<open>The last two positions give the length of a bit.\<close>

definition bit_span :: "sampled_bit list \<Rightarrow> u64" where
  "bit_span bits =
     (case rev bits of
        b # a # _ \<Rightarrow> saturating_sub (sb_position b) (sb_position a)
      | _ \<Rightarrow> 1)"

definition emit_byte :: "u64 \<Rightarrow> i2c_decoder \<Rightarrow> (decoded_word list \<times> protocol_packet list) \<times> i2c_decoder" where
  "emit_byte timestamp_step d =
     (let bits = i2_bits d;
          v = bits_value (map sb_value bits);
          start = sb_position (hd bits);
          span = bit_span bits;
          packet_end = saturating_add (sb_position (last bits)) span;
          lsb_bits = map (\<lambda>b. PList [PInteger (if sb_value b then 1 else 0), PInteger (uint (sb_position b)),
            PInteger (uint (saturating_add (sb_position b) span))]) (rev bits);
          bits_packet = i2c_packet ''BITS'' (PList lsb_bits) start packet_end timestamp_step;
          (command, decoded, d1) =
            (if i2_address_pending d
             then
               let read = (v AND 1 \<noteq> 0) in
               (if read then ''ADDRESS READ'' else ''ADDRESS WRITE'', drop_bit 1 v,
                d\<lparr>i2_is_write := Some (\<not> read), i2_address_pending := False\<rparr>)
             else
               (if (case i2_is_write d of Some w \<Rightarrow> w | None \<Rightarrow> True) then ''DATA WRITE'' else ''DATA READ'', v, d));
          byte_packet = i2c_packet command (PInteger (uint decoded)) start packet_end timestamp_step;
          word = word_spanning (ucast decoded) (saturating_mul start timestamp_step)
            (saturating_mul (saturating_sub packet_end start) timestamp_step)
      in (([word], [bits_packet, byte_packet]), d1\<lparr>i2_awaiting_ack := True\<rparr>))"

text \<open>A rising clock inside a message carries a bit or the acknowledgement.\<close>

definition clock_rise :: "u64 \<Rightarrow> u64 \<Rightarrow> bool \<Rightarrow> i2c_decoder \<Rightarrow>
    (decoded_word list \<times> protocol_packet list) \<times> i2c_decoder" where
  "clock_rise timestamp_step position sda_high d =
     (if i2_awaiting_ack d then
        (([], [emit_control (if sda_high then ''NACK'' else ''ACK'') position timestamp_step]),
         d\<lparr>i2_awaiting_ack := False, i2_bits := []\<rparr>)
      else
        let d1 = d\<lparr>i2_bits := i2_bits d @ [\<lparr>sb_value = sda_high, sb_position = position\<rparr>]\<rparr>
        in if length (i2_bits d1) = 8 then emit_byte timestamp_step d1 else (([], []), d1))"

text \<open>One sample of the two lines.\<close>

definition i2c_sample :: "u64 \<Rightarrow> u64 \<Rightarrow> bool \<times> bool \<Rightarrow> i2c_decoder \<Rightarrow>
    (decoded_word list \<times> protocol_packet list) \<times> i2c_decoder" where
  "i2c_sample timestamp_step position levels d =
     (case i2_previous d of
        None \<Rightarrow> (([], []), d\<lparr>i2_previous := Some levels\<rparr>)
      | Some (previous_scl, previous_sda) \<Rightarrow>
          let (scl_high, sda_high) = levels;
              (out, d1) =
                (if previous_sda \<and> \<not> sda_high \<and> scl_high then
                   (([], [emit_control (if i2_active d \<or> i2_repeated_start d then ''START REPEAT'' else ''START'')
                            position timestamp_step]),
                    d\<lparr>i2_active := True, i2_repeated_start := True, i2_address_pending := True, i2_is_write := None,
                      i2_bits := [], i2_awaiting_ack := False\<rparr>)
                 else if \<not> previous_sda \<and> sda_high \<and> scl_high \<and> i2_active d then
                   (([], [emit_control ''STOP'' position timestamp_step]),
                    d\<lparr>i2_active := False, i2_repeated_start := False, i2_bits := [], i2_awaiting_ack := False\<rparr>)
                 else if i2_active d \<and> \<not> previous_scl \<and> scl_high then clock_rise timestamp_step position sda_high d
                 else (([], []), d))
          in (out, d1\<lparr>i2_previous := Some levels\<rparr>))"

fun process_positions :: "u64 list \<Rightarrow> sample_block \<Rightarrow> sample_block \<Rightarrow> i2c_decoder \<Rightarrow>
    decoded_word list \<Rightarrow> protocol_packet list \<Rightarrow> ((decoded_word list \<times> protocol_packet list) \<times> i2c_decoder) option" where
  "process_positions [] scl sda d words packets = Some ((words, packets), d)"
| "process_positions (position # rest) scl sda d words packets =
     (case (get_bit scl position, get_bit sda position) of
        (Some a, Some b) \<Rightarrow>
          (case i2c_sample (blk_timestamp_step scl) position (a, b) d of
             ((ws, ps), d1) \<Rightarrow> process_positions rest scl sda d1 (words @ ws) (packets @ ps))
      | _ \<Rightarrow> None)"

text \<open>\<open>None\<close> is the panic on a block that is shorter than it claims.\<close>

definition process_blocks :: "sample_block \<Rightarrow> sample_block \<Rightarrow> i2c_decoder \<Rightarrow>
    ((decoded_word list \<times> protocol_packet list) \<times> i2c_decoder) option" where
  "process_blocks scl sda d =
     process_positions (positions (blk_start_position scl) (end_position scl)) scl sda d [] []"

definition i2c_input_schema :: "port_schema list" where
  "i2c_input_schema =
     [port_schema_new ''SampleBlock'' ''scl'' 0 Input, port_schema_new ''SampleBlock'' ''sda'' 1 Input]"

definition i2c_output_schema :: "port_schema list" where
  "i2c_output_schema =
     [with_default_buffer_capacity 8 (port_schema_new ''Word'' ''words'' 0 Output),
      port_schema_new ''ProtocolPacket'' ''packets'' 1 Output]"

definition i2c_deliver :: "nat \<Rightarrow> decoded_word list \<times> protocol_packet list \<Rightarrow> i2c_ctx \<Rightarrow> nat work_result \<times> i2c_ctx" where
  "i2c_deliver sample_count out c =
     (case send_batch_opt (ic_words c) (fst out) of
        (Some e, port) \<Rightarrow> (Inl e, c\<lparr>ic_words := port\<rparr>)
      | (None, port) \<Rightarrow>
          (case send_batch_opt (ic_packets c) (snd out) of
             (Some e, port1) \<Rightarrow> (Inl e, c\<lparr>ic_words := port, ic_packets := port1\<rparr>)
           | (None, port1) \<Rightarrow> (Inr sample_count, c\<lparr>ic_words := port, ic_packets := port1\<rparr>)))"

definition i2c_work :: "i2c_ctx work_fun" where
  "i2c_work c =
     map_option (\<lambda>(res, inputs).
       let c1 = c\<lparr>ic_inputs := inputs\<rparr> in
       case res of
         Inl e \<Rightarrow> (Inl e, c1)
       | Inr None \<Rightarrow> (Inl Shutdown, c1\<lparr>ic_node := (ic_node c)\<lparr>i2_finished := True\<rparr>\<rparr>)
       | Inr (Some (scl, sda)) \<Rightarrow>
           (case process_blocks scl sda (ic_node c) of
              None \<Rightarrow> (Inl Panicked, c1)
            | Some (out, d) \<Rightarrow> i2c_deliver (blk_num_samples scl) out (c1\<lparr>ic_node := d\<rparr>)))
       (acquire_blocks (ic_inputs c))"

section \<open>The bus\<close>

text \<open>
  Conditions and clock pulses, and the levels that carry them. Before each clock pulse the data line
  may move while the clock is low; it is set up before the clock rises and held while it is high.
\<close>

datatype bus_symbol = Begin | Pulse bool | Finish

type_synonym timed_symbol = "bus_symbol \<times> bool list \<times> nat"

fun wave :: "timed_symbol \<Rightarrow> (bool \<times> bool) list" where
  "wave (Begin, lows, n) = replicate (Suc n) (True, False)"
| "wave (Finish, lows, n) = replicate (Suc n) (True, True)"
| "wave (Pulse v, lows, n) = map (Pair False) lows @ (False, v) # replicate (Suc n) (True, v)"

definition capture_wave :: "nat \<Rightarrow> timed_symbol list \<Rightarrow> (bool \<times> bool) list" where
  "capture_wave idle timed = replicate (Suc idle) (True, True) @ concat (map wave timed)"

record i2c_message =
  im_address :: u8
  im_read :: bool
  im_ack :: bool
  im_data :: "(u8 \<times> bool) list"

definition byte_bits :: "u8 \<Rightarrow> bool list" where
  "byte_bits v = map (bit v) [7, 6, 5, 4, 3, 2, 1, 0]"

definition acked_bits :: "u8 \<times> bool \<Rightarrow> bool list" where
  "acked_bits byte = byte_bits (fst byte) @ [\<not> snd byte]"

definition address_byte :: "i2c_message \<Rightarrow> u8" where
  "address_byte m = push_bit 1 (im_address m) OR (if im_read m then 1 else 0)"

definition message_symbols :: "i2c_message \<Rightarrow> bus_symbol list" where
  "message_symbols m = Begin # map Pulse (acked_bits (address_byte m, im_ack m) @ concat (map acked_bits (im_data m)))"

text \<open>A further message starts with the clock released and the data line high; a stop starts with it low.\<close>

fun more_symbols :: "i2c_message list \<Rightarrow> bus_symbol list" where
  "more_symbols [] = [Pulse False, Finish]"
| "more_symbols (m # ms) = Pulse True # message_symbols m @ more_symbols ms"

definition transaction_symbols :: "i2c_message \<times> i2c_message list \<Rightarrow> bus_symbol list" where
  "transaction_symbols t = message_symbols (fst t) @ more_symbols (snd t)"

text \<open>What the decoder is to report: the bytes, and the commands with their contents.\<close>

definition ack_command :: "bool \<Rightarrow> string \<times> protocol_value" where
  "ack_command ack = (if ack then ''ACK'' else ''NACK'', Null)"

definition message_commands :: "string \<Rightarrow> i2c_message \<Rightarrow> (string \<times> protocol_value) list" where
  "message_commands start m =
     [(start, Null), (if im_read m then ''ADDRESS READ'' else ''ADDRESS WRITE'', PInteger (uint (im_address m))),
      ack_command (im_ack m)] @
     concat (map (\<lambda>(v, ack). [(if im_read m then ''DATA READ'' else ''DATA WRITE'', PInteger (uint v)), ack_command ack])
       (im_data m))"

definition transaction_commands :: "i2c_message \<times> i2c_message list \<Rightarrow> (string \<times> protocol_value) list" where
  "transaction_commands t =
     message_commands ''START'' (fst t) @ concat (map (message_commands ''START REPEAT'') (snd t)) @ [(''STOP'', Null)]"

definition message_bytes :: "i2c_message \<Rightarrow> u64 list" where
  "message_bytes m = ucast (im_address m) # map (\<lambda>(v, _). ucast v) (im_data m)"

definition transaction_bytes :: "i2c_message \<times> i2c_message list \<Rightarrow> u64 list" where
  "transaction_bytes t = concat (map message_bytes (fst t # snd t))"

definition packet_command :: "protocol_packet \<Rightarrow> (string \<times> protocol_value) option" where
  "packet_command p =
     (case pk_value p of
        PList [PString command, content] \<Rightarrow> if command = ''BITS'' then None else Some (command, content)
      | _ \<Rightarrow> None)"

definition commands :: "protocol_packet list \<Rightarrow> (string \<times> protocol_value) list" where
  "commands ps = List.map_filter packet_command ps"

lemma commands_simps [simp]:
  "commands [] = []" "commands (ps @ qs) = commands ps @ commands qs"
  "commands (p # ps) = (case packet_command p of None \<Rightarrow> commands ps | Some c \<Rightarrow> c # commands ps)"
  by (simp_all add: commands_def map_filter_def split: option.splits)

lemma packet_command_packet [simp]:
  "packet_command (i2c_packet c x s e t) = (if c = ''BITS'' then None else Some (c, x))"
  "packet_command (emit_control c p t) = (if c = ''BITS'' then None else Some (c, Null))"
  by (simp_all add: packet_command_def i2c_packet_def emit_control_def)

section \<open>The decoder over samples\<close>

type_synonym timed_levels = "(u64 \<times> u64) \<times> bool \<times> bool"

fun i2c_fold :: "timed_levels list \<Rightarrow> i2c_decoder \<Rightarrow> (decoded_word list \<times> protocol_packet list) \<times> i2c_decoder" where
  "i2c_fold [] d = (([], []), d)"
| "i2c_fold (((timestamp_step, position), levels) # rest) d =
     (let (out, d1) = i2c_sample timestamp_step position levels d; (out2, d2) = i2c_fold rest d1
      in ((fst out @ fst out2, snd out @ snd out2), d2))"

lemma i2c_fold_append:
  "i2c_fold (xs @ ys) d =
     (let (out, d1) = i2c_fold xs d; (out2, d2) = i2c_fold ys d1 in ((fst out @ fst out2, snd out @ snd out2), d2))"
  by (induction xs d rule: i2c_fold.induct) (auto simp: Let_def split: prod.splits)

text \<open>What the reports depend on: everything but the positions of the bits.\<close>

record bus_view =
  bv_levels :: "(bool \<times> bool) option"
  bv_active :: bool
  bv_repeated :: bool
  bv_address_pending :: bool
  bv_is_write :: "bool option"
  bv_bits :: "bool list"
  bv_awaiting_ack :: bool

definition view :: "i2c_decoder \<Rightarrow> bus_view" where
  "view d = \<lparr>bv_levels = i2_previous d, bv_active = i2_active d, bv_repeated = i2_repeated_start d,
     bv_address_pending = i2_address_pending d, bv_is_write = i2_is_write d, bv_bits = map sb_value (i2_bits d),
     bv_awaiting_ack = i2_awaiting_ack d\<rparr>"

text \<open>From a view the levels lead to another view, with these bytes and commands, at any positions.\<close>

definition leads :: "bus_view \<Rightarrow> (bool \<times> bool) list \<Rightarrow> bus_view \<Rightarrow> u64 list \<Rightarrow> (string \<times> protocol_value) list \<Rightarrow> bool" where
  "leads v levels v' values cmds \<longleftrightarrow>
     (\<forall>d xs. view d = v \<and> map snd xs = levels \<longrightarrow>
        (case i2c_fold xs d of ((ws, ps), d') \<Rightarrow> view d' = v' \<and> map w_value ws = values \<and> commands ps = cmds))"

lemma leads_Nil: "leads v [] v [] []"
  by (simp add: leads_def)

lemma leads_append:
  assumes "leads v l1 v1 b1 c1" "leads v1 l2 v2 b2 c2"
  shows "leads v (l1 @ l2) v2 (b1 @ b2) (c1 @ c2)"
  unfolding leads_def
proof (intro allI impI)
  fix d and xs :: "timed_levels list" assume a: "view d = v \<and> map snd xs = l1 @ l2"
  then obtain xs1 xs2 where xs: "xs = xs1 @ xs2" "map snd xs1 = l1" "map snd xs2 = l2" by (auto simp: map_eq_append_conv)
  obtain ws1 ps1 d1 where f1: "i2c_fold xs1 d = ((ws1, ps1), d1)" by (metis prod.exhaust)
  then have s1: "view d1 = v1" "map w_value ws1 = b1" "commands ps1 = c1"
    using assms(1) a xs(2) by (fastforce simp: leads_def)+
  obtain ws2 ps2 d2 where f2: "i2c_fold xs2 d1 = ((ws2, ps2), d2)" by (metis prod.exhaust)
  then have s2: "view d2 = v2" "map w_value ws2 = b2" "commands ps2 = c2"
    using assms(2) s1(1) xs(3) by (fastforce simp: leads_def)+
  show "case i2c_fold xs d of ((ws, ps), d') \<Rightarrow> view d' = v2 \<and> map w_value ws = b1 @ b2 \<and> commands ps = c1 @ c2"
    using f1 f2 s1 s2 xs(1) by (simp add: i2c_fold_append)
qed

lemma leads_one:
  assumes "\<And>d t p. view d = v \<Longrightarrow> (case i2c_sample t p l d of ((ws, ps), d') \<Rightarrow>
    view d' = v' \<and> map w_value ws = values \<and> commands ps = cmds)"
  shows "leads v [l] v' values cmds"
  unfolding leads_def
proof (intro allI impI)
  fix d and xs :: "timed_levels list" assume a: "view d = v \<and> map snd xs = [l]"
  then obtain t p where "xs = [((t, p), l)]" by (cases xs) auto
  with a assms [of d t p] show "case i2c_fold xs d of ((ws, ps), d') \<Rightarrow> view d' = v' \<and> map w_value ws = values \<and> commands ps = cmds"
    by (auto split: prod.splits)
qed

lemma leads_first: "bv_levels v = None \<Longrightarrow> leads v [l] (v\<lparr>bv_levels := Some l\<rparr>) [] []"
  by (rule leads_one) (auto simp: i2c_sample_def view_def)

lemma leads_same: "bv_levels v = Some l \<Longrightarrow> leads v [l] v [] []"
  by (cases l; cases "fst l"; cases "snd l"; rule leads_one) (auto simp: i2c_sample_def view_def)

lemma leads_low: "bv_levels v = Some l \<Longrightarrow> leads v [(False, s)] (v\<lparr>bv_levels := Some (False, s)\<rparr>) [] []"
  by (cases l, rule leads_one) (auto simp: i2c_sample_def view_def)

lemma leads_begin:
  "bv_levels v = Some (True, True) \<Longrightarrow>
   leads v [(True, False)] \<lparr>bv_levels = Some (True, False), bv_active = True, bv_repeated = True, bv_address_pending = True,
     bv_is_write = None, bv_bits = [], bv_awaiting_ack = False\<rparr> []
     [(if bv_active v \<or> bv_repeated v then ''START REPEAT'' else ''START'', Null)]"
  by (rule leads_one) (auto simp: i2c_sample_def view_def)

lemma leads_finish:
  "bv_levels v = Some (True, False) \<Longrightarrow> bv_active v \<Longrightarrow>
   leads v [(True, True)] (v\<lparr>bv_levels := Some (True, True), bv_active := False, bv_repeated := False, bv_bits := [],
     bv_awaiting_ack := False\<rparr>) [] [(''STOP'', Null)]"
  by (rule leads_one) (auto simp: i2c_sample_def view_def)

lemma leads_ack:
  "bv_levels v = Some (False, b) \<Longrightarrow> bv_active v \<Longrightarrow> bv_awaiting_ack v \<Longrightarrow>
   leads v [(True, b)] (v\<lparr>bv_levels := Some (True, b), bv_awaiting_ack := False, bv_bits := []\<rparr>) [] [ack_command (\<not> b)]"
  by (cases b; rule leads_one) (auto simp: i2c_sample_def clock_rise_def view_def ack_command_def)

lemma leads_bit:
  "bv_levels v = Some (False, b) \<Longrightarrow> bv_active v \<Longrightarrow> \<not> bv_awaiting_ack v \<Longrightarrow> length (bv_bits v) < 7 \<Longrightarrow>
   leads v [(True, b)] (v\<lparr>bv_levels := Some (True, b), bv_bits := bv_bits v @ [b]\<rparr>) [] []"
  by (cases b; rule leads_one) (auto simp: i2c_sample_def clock_rise_def view_def)

definition byte_command :: "bus_view \<Rightarrow> u8 \<Rightarrow> string \<times> u8" where
  "byte_command v byte =
     (if bv_address_pending v then (if byte AND 1 \<noteq> 0 then ''ADDRESS READ'' else ''ADDRESS WRITE'', drop_bit 1 byte)
      else (if bv_is_write v = Some False then ''DATA READ'' else ''DATA WRITE'', byte))"

lemma leads_byte:
  "bv_levels v = Some (False, b) \<Longrightarrow> bv_active v \<Longrightarrow> \<not> bv_awaiting_ack v \<Longrightarrow> length (bv_bits v) = 7 \<Longrightarrow>
   byte = bits_value (bv_bits v @ [b]) \<Longrightarrow>
   leads v [(True, b)] (v\<lparr>bv_levels := Some (True, b), bv_bits := bv_bits v @ [b], bv_awaiting_ack := True,
       bv_address_pending := False,
       bv_is_write := (if bv_address_pending v then Some (byte AND 1 = 0) else bv_is_write v)\<rparr>)
     [ucast (snd (byte_command v byte))]
     [(fst (byte_command v byte), PInteger (uint (snd (byte_command v byte))))]"
proof (rule leads_one, goal_cases)
  case (1 d t p)
  have d: "i2_previous d = Some (False, b)" "i2_active d" "\<not> i2_awaiting_ack d" "length (i2_bits d) = 7"
    "i2_address_pending d = bv_address_pending v" "i2_is_write d = bv_is_write v" "bv_bits v = map sb_value (i2_bits d)"
    "bv_repeated v = i2_repeated_start d"
    using 1 by (auto simp: view_def)
  have "i2c_sample t p (True, b) d =
      (case emit_byte t (d\<lparr>i2_bits := i2_bits d @ [\<lparr>sb_value = b, sb_position = p\<rparr>]\<rparr>) of
         (out, d1) \<Rightarrow> (out, d1\<lparr>i2_previous := Some (True, b)\<rparr>))"
    using d by (cases b) (simp_all add: i2c_sample_def clock_rise_def)
  moreover have "bits_value (map sb_value (i2_bits d) @ [b]) = byte" using 1 d(7) by simp
  ultimately show ?case
    using d 1(1,2,3)
    by (cases "bv_address_pending v"; cases "bv_is_write v"; cases v)
      (simp_all add: emit_byte_def view_def byte_command_def word_spanning_def Let_def)
qed

section \<open>The decoder over the bus\<close>

lemma leads_replicate: "bv_levels v = Some l \<Longrightarrow> leads v (replicate n l) v [] []"
proof (induction n)
  case (Suc n)
  from leads_append [OF leads_same [OF Suc.prems] Suc.IH [OF Suc.prems]] show ?case by simp
qed (simp add: leads_Nil)

lemma leads_lows:
  "bv_levels v = Some l \<Longrightarrow> leads v (map (Pair False) lows @ [(False, b)]) (v\<lparr>bv_levels := Some (False, b)\<rparr>) [] []"
proof (induction lows arbitrary: v l)
  case Nil
  then show ?case by (simp add: leads_low)
next
  case (Cons s lows)
  from leads_append [OF leads_low [OF Cons.prems, of s] Cons.IH [of "v\<lparr>bv_levels := Some (False, s)\<rparr>"]]
  show ?case by simp
qed

lemma leads_pulse:
  assumes "leads (v\<lparr>bv_levels := Some (False, b)\<rparr>) [(True, b)] v' values cmds" "bv_levels v = Some l"
    "bv_levels v' = Some (True, b)"
  shows "leads v (wave (Pulse b, lows, n)) v' values cmds"
proof -
  from leads_append [OF leads_lows [OF assms(2), of lows b] leads_append [OF assms(1) leads_replicate [OF assms(3), of n]]]
  show ?thesis by simp
qed

lemma leads_bits:
  assumes "map fst timed = map Pulse bs" "bv_levels v = Some l" "bv_active v" "\<not> bv_awaiting_ack v"
    "length (bv_bits v) + length bs < 8"
  shows "\<exists>l'. leads v (concat (map wave timed)) (v\<lparr>bv_levels := Some l', bv_bits := bv_bits v @ bs\<rparr>) [] []"
  using assms
proof (induction bs arbitrary: timed v l)
  case Nil
  then show ?case using leads_Nil [of v] by (intro exI [of _ l]) (cases v, simp)
next
  case (Cons b bs)
  then obtain lows n rest where timed: "timed = (Pulse b, lows, n) # rest" "map fst rest = map Pulse bs"
    by (cases timed) auto
  let ?v = "v\<lparr>bv_levels := Some (True, b), bv_bits := bv_bits v @ [b]\<rparr>"
  have "leads (v\<lparr>bv_levels := Some (False, b)\<rparr>) [(True, b)] ?v [] []"
    using leads_bit [of "v\<lparr>bv_levels := Some (False, b)\<rparr>" b] Cons.prems by simp
  from leads_pulse [OF this Cons.prems(2), of lows n] have first: "leads v (wave (Pulse b, lows, n)) ?v [] []" by simp
  from Cons.IH [OF timed(2), of ?v "(True, b)"] Cons.prems
  obtain l' where "leads ?v (concat (map wave rest)) (?v\<lparr>bv_levels := Some l', bv_bits := bv_bits ?v @ bs\<rparr>) [] []" by auto
  from leads_append [OF first this] show ?case by (intro exI [of _ l']) (simp add: timed(1))
qed

lemma bit_bits_value: "n < 8 \<Longrightarrow> bit (bits_value bs) n \<longleftrightarrow> n < length bs \<and> rev bs ! n"
proof (induction bs arbitrary: n rule: rev_induct)
  case (snoc b bs)
  have *: "bits_value (bs @ [b]) = push_bit 1 (bits_value bs) OR (if b then 1 else 0)" by (simp add: bits_value_def)
  show ?case unfolding * bit_or_iff bit_push_bit_iff using snoc by (cases n) (auto simp: bit_1_iff)
qed (simp add: bits_value_def)

lemma bits_value_byte [simp]: "bits_value (byte_bits v) = v"
proof (rule bit_word_eqI)
  fix n assume "n < LENGTH(8)"
  then have "n < 8" "n \<in> {0, 1, 2, 3, 4, 5, 6, 7}" by auto
  then show "bit (bits_value (byte_bits v)) n = bit v n" by (auto simp: bit_bits_value byte_bits_def)
qed

text \<open>Inside a message, between bytes: eight pulses and the acknowledgement give one report.\<close>

definition between :: "bus_view \<Rightarrow> bool" where
  "between v \<longleftrightarrow> (\<exists>l. bv_levels v = Some l) \<and> bv_active v \<and> bv_repeated v \<and> \<not> bv_awaiting_ack v \<and> bv_bits v = []"

lemma leads_acked:
  assumes "map fst timed = map Pulse (acked_bits (byte, ack))" "between v"
  shows "\<exists>v'. leads v (concat (map wave timed)) v' [ucast (snd (byte_command v byte))]
      [(fst (byte_command v byte), PInteger (uint (snd (byte_command v byte)))), ack_command ack] \<and>
    between v' \<and> \<not> bv_address_pending v' \<and>
    bv_is_write v' = (if bv_address_pending v then Some (byte AND 1 = 0) else bv_is_write v)"
proof -
  let ?bits = "byte_bits byte"
  obtain bs b where bits: "?bits = bs @ [b]" "length bs = 7" by (simp add: byte_bits_def)
  obtain t1 s1 s2 where timed: "timed = t1 @ [s1, s2]" "map fst t1 = map Pulse bs" "fst s1 = Pulse b" "fst s2 = Pulse (\<not> ack)"
    using assms(1) by (auto simp: acked_bits_def bits(1) map_eq_append_conv map_eq_Cons_conv)
  obtain lows1 n1 lows2 n2 where s: "s1 = (Pulse b, lows1, n1)" "s2 = (Pulse (\<not> ack), lows2, n2)"
    using timed(3,4) by (cases s1; cases s2) auto
  obtain l adr wr where v: "v = \<lparr>bv_levels = Some l, bv_active = True, bv_repeated = True, bv_address_pending = adr,
      bv_is_write = wr, bv_bits = [], bv_awaiting_ack = False\<rparr>"
    using assms(2) by (cases v) (auto simp: between_def)
  define wr' where "wr' = (if adr then Some (byte AND 1 = 0) else wr)"
  define inside where "inside l adr wr bits ack = \<lparr>bv_levels = Some l, bv_active = True, bv_repeated = True,
      bv_address_pending = adr, bv_is_write = wr, bv_bits = bits, bv_awaiting_ack = ack\<rparr>" for l adr wr bits ack
  note inside_def [simp]
  let ?c = "byte_command v byte"
  obtain l' where one: "leads v (concat (map wave t1)) (inside l' adr wr bs False) [] []"
    using leads_bits [OF timed(2), of v l] bits(2) by (auto simp: v)
  have "bits_value (bs @ [b]) = byte" using bits_value_byte [of byte] by (simp add: bits(1))
  moreover have "byte_command (inside (False, b) adr wr bs False) byte = ?c" by (simp add: byte_command_def v)
  ultimately have "leads (inside (False, b) adr wr bs False) [(True, b)] (inside (True, b) False wr' (bs @ [b]) True)
      [ucast (snd ?c)] [(fst ?c, PInteger (uint (snd ?c)))]"
    using leads_byte [of "inside (False, b) adr wr bs False" b byte] bits(2) by (cases adr) (simp_all add: wr'_def)
  then have two: "leads (inside l' adr wr bs False) (wave s1) (inside (True, b) False wr' (bs @ [b]) True)
      [ucast (snd ?c)] [(fst ?c, PInteger (uint (snd ?c)))]"
    unfolding s by (intro leads_pulse [of _ _ _ _ _ l']) simp_all
  have "leads (inside (False, \<not> ack) False wr' (bs @ [b]) True) [(True, \<not> ack)] (inside (True, \<not> ack) False wr' [] False)
      [] [ack_command ack]"
    using leads_ack [of "inside (False, \<not> ack) False wr' (bs @ [b]) True" "\<not> ack"] by simp
  then have three: "leads (inside (True, b) False wr' (bs @ [b]) True) (wave s2) (inside (True, \<not> ack) False wr' [] False)
      [] [ack_command ack]"
    unfolding s by (intro leads_pulse [of _ _ _ _ _ "(True, b)"]) simp_all
  from leads_append [OF one leads_append [OF two three]]
  have "leads v (concat (map wave timed)) (inside (True, \<not> ack) False wr' [] False) [ucast (snd ?c)]
      [(fst ?c, PInteger (uint (snd ?c))), ack_command ack]"
    by (simp only: timed(1) map_append concat_append list.map concat.simps append_Nil append_Nil2 append_Cons)
  moreover have "between (inside l False wr' [] False)" "\<not> bv_address_pending (inside l False wr' [] False)"
    "bv_is_write (inside l False wr' [] False) = (if bv_address_pending v then Some (byte AND 1 = 0) else bv_is_write v)" for l
    by (simp_all add: between_def v wr'_def)
  ultimately show ?thesis by blast
qed

lemma leads_data:
  assumes "map fst timed = map Pulse (concat (map acked_bits bytes))" "between v" "\<not> bv_address_pending v" "bv_is_write v = Some (\<not> read)"
  shows "\<exists>v'. leads v (concat (map wave timed)) v' (map (\<lambda>(b, _). ucast b) bytes)
      (concat (map (\<lambda>(b, ack). [(if read then ''DATA READ'' else ''DATA WRITE'', PInteger (uint b)), ack_command ack]) bytes)) \<and>
    between v'"
  using assms
proof (induction bytes arbitrary: timed v)
  case Nil
  then show ?case using leads_Nil by auto
next
  case (Cons x bytes)
  obtain b ack where x: "x = (b, ack)" by (cases x)
  obtain t1 t2 where timed: "timed = t1 @ t2" "map fst t1 = map Pulse (acked_bits (b, ack))"
    "map fst t2 = map Pulse (concat (map acked_bits bytes))"
    using Cons.prems(1) by (auto simp: x map_eq_append_conv)
  have cmd: "byte_command v b = (if read then ''DATA READ'' else ''DATA WRITE'', b)"
    using Cons.prems(3,4) by (simp add: byte_command_def)
  from leads_acked [OF timed(2) Cons.prems(2)] Cons.prems(3,4) obtain v1 where
    one: "leads v (concat (map wave t1)) v1 [ucast b] [(if read then ''DATA READ'' else ''DATA WRITE'', PInteger (uint b)), ack_command ack]"
    and v1: "between v1" "\<not> bv_address_pending v1" "bv_is_write v1 = Some (\<not> read)"
    by (auto simp: cmd)
  from Cons.IH [OF timed(3) v1] obtain v2 where
    two: "leads v1 (concat (map wave t2)) v2 (map (\<lambda>(b, _). ucast b) bytes)
      (concat (map (\<lambda>(b, ack). [(if read then ''DATA READ'' else ''DATA WRITE'', PInteger (uint b)), ack_command ack]) bytes))"
    and v2: "between v2" by auto
  from leads_append [OF one two] v2 show ?case by (auto simp: timed(1) x)
qed

lemma address_byte_facts:
  assumes "im_address m < 128"
  shows "drop_bit 1 (address_byte m) = im_address m" "address_byte m AND 1 = (if im_read m then 1 else 0)"
proof -
  have "uint (im_address m) < 128" using assms by (simp add: word_less_def)
  then have "\<not> bit (uint (im_address m)) 7" by (simp add: bit_iff_odd)
  then have top: "\<not> bit (im_address m) 7" by (simp add: bit_uint_iff)
  show "drop_bit 1 (address_byte m) = im_address m"
  proof (rule bit_word_eqI)
    fix n assume "n < LENGTH(8)"
    then show "bit (drop_bit 1 (address_byte m)) n = bit (im_address m) n"
      using top unfolding address_byte_def bit_drop_bit_eq comp_def bit_or_iff bit_push_bit_iff
      by (auto simp: bit_1_iff less_Suc_eq numeral_eq_Suc)
  qed
  show "address_byte m AND 1 = (if im_read m then 1 else 0)"
    by (cases "im_read m") (simp_all add: address_byte_def and_one_eq mod_2_eq_odd even_or_iff)
qed

lemma leads_begin_wave:
  assumes "fst s = Begin" "bv_levels v = Some (True, True)"
  shows "\<exists>v'. leads v (wave s) v' [] [(if bv_active v \<or> bv_repeated v then ''START REPEAT'' else ''START'', Null)] \<and>
    between v' \<and> bv_address_pending v'"
proof -
  obtain lows n where s: "s = (Begin, lows, n)" using assms(1) by (cases s) auto
  let ?v = "\<lparr>bv_levels = Some (True, False), bv_active = True, bv_repeated = True, bv_address_pending = True,
     bv_is_write = None, bv_bits = [], bv_awaiting_ack = False\<rparr>"
  have "leads ?v (replicate n (True, False)) ?v [] []" by (rule leads_replicate) simp
  from leads_append [OF leads_begin [OF assms(2)] this]
  have "leads v (wave s) ?v [] [(if bv_active v \<or> bv_repeated v then ''START REPEAT'' else ''START'', Null)]"
    by (simp add: s)
  moreover have "between ?v" "bv_address_pending ?v" by (auto simp: between_def)
  ultimately show ?thesis by blast
qed

lemma leads_message:
  assumes "map fst timed = message_symbols m" "bv_levels v = Some (True, True)" "im_address m < 128"
  shows "\<exists>v'. leads v (concat (map wave timed)) v' (message_bytes m)
      (message_commands (if bv_active v \<or> bv_repeated v then ''START REPEAT'' else ''START'') m) \<and> between v'"
proof -
  obtain s t1 t2 where timed: "timed = s # t1 @ t2" "fst s = Begin"
    "map fst t1 = map Pulse (acked_bits (address_byte m, im_ack m))" "map fst t2 = map Pulse (concat (map acked_bits (im_data m)))"
    using assms(1) by (auto simp: message_symbols_def map_eq_Cons_conv map_eq_append_conv)
  from leads_begin_wave [OF timed(2) assms(2)] obtain v1 where
    one: "leads v (wave s) v1 [] [(if bv_active v \<or> bv_repeated v then ''START REPEAT'' else ''START'', Null)]"
    and v1: "between v1" "bv_address_pending v1" by auto
  have "byte_command v1 (address_byte m) = (if im_read m then ''ADDRESS READ'' else ''ADDRESS WRITE'', im_address m)"
    using v1(2) address_byte_facts [OF assms(3)] by (simp add: byte_command_def)
  with leads_acked [OF timed(3) v1(1)] v1(2) address_byte_facts [OF assms(3)] obtain v2 where
    two: "leads v1 (concat (map wave t1)) v2 [ucast (im_address m)]
      [(if im_read m then ''ADDRESS READ'' else ''ADDRESS WRITE'', PInteger (uint (im_address m))), ack_command (im_ack m)]"
    and v2: "between v2" "\<not> bv_address_pending v2" "bv_is_write v2 = Some (\<not> im_read m)"
    by auto
  from leads_data [OF timed(4) v2] obtain v3 where
    three: "leads v2 (concat (map wave t2)) v3 (map (\<lambda>(b, _). ucast b) (im_data m))
      (concat (map (\<lambda>(b, ack). [(if im_read m then ''DATA READ'' else ''DATA WRITE'', PInteger (uint b)), ack_command ack]) (im_data m)))"
    and v3: "between v3" by auto
  from leads_append [OF one leads_append [OF two three]] v3 show ?thesis
    by (intro exI [of _ v3]) (simp add: timed(1) message_bytes_def message_commands_def)
qed

text \<open>The pulse in front of a condition is a bit of no byte; the condition discards it.\<close>

lemma leads_release:
  assumes "fst s = Pulse b" "between v"
  shows "\<exists>v'. leads v (wave s) v' [] [] \<and> bv_levels v' = Some (True, b) \<and> bv_active v' \<and> bv_repeated v'"
proof -
  obtain lows n where s: "s = (Pulse b, lows, n)" using assms(1) by (cases s) auto
  obtain l where v: "bv_levels v = Some l" "bv_active v" "bv_repeated v" "\<not> bv_awaiting_ack v" "bv_bits v = []"
    using assms(2) by (auto simp: between_def)
  from leads_pulse [OF leads_bit v(1), of b lows n] v show ?thesis by (fastforce simp: s)
qed

lemma leads_finish_wave:
  assumes "fst s = Finish" "bv_levels v = Some (True, False)" "bv_active v"
  shows "\<exists>v'. leads v (wave s) v' [] [(''STOP'', Null)] \<and> bv_levels v' = Some (True, True) \<and> \<not> bv_active v' \<and> \<not> bv_repeated v'"
proof -
  obtain lows n where s: "s = (Finish, lows, n)" using assms(1) by (cases s) auto
  let ?v = "v\<lparr>bv_levels := Some (True, True), bv_active := False, bv_repeated := False, bv_bits := [], bv_awaiting_ack := False\<rparr>"
  have "leads ?v (replicate n (True, True)) ?v [] []" by (rule leads_replicate) simp
  from leads_append [OF leads_finish [OF assms(2,3)] this] show ?thesis by (intro exI [of _ ?v]) (simp add: s)
qed

definition addressable :: "i2c_message list \<Rightarrow> bool" where
  "addressable ms \<longleftrightarrow> (\<forall>m\<in>set ms. im_address m < 128)"

lemma leads_more:
  assumes "map fst timed = more_symbols ms" "between v" "addressable ms"
  shows "\<exists>v'. leads v (concat (map wave timed)) v' (concat (map message_bytes ms))
      (concat (map (message_commands ''START REPEAT'') ms) @ [(''STOP'', Null)]) \<and>
    bv_levels v' = Some (True, True) \<and> \<not> bv_active v' \<and> \<not> bv_repeated v'"
  using assms
proof (induction ms arbitrary: timed v)
  case Nil
  then obtain s1 s2 where timed: "timed = [s1, s2]" "fst s1 = Pulse False" "fst s2 = Finish"
    by (auto simp: map_eq_Cons_conv)
  from leads_release [OF timed(2) Nil.prems(2)] obtain v1 where
    v1: "leads v (wave s1) v1 [] []" "bv_levels v1 = Some (True, False)" "bv_active v1" by auto
  from leads_finish_wave [OF timed(3) v1(2,3)] obtain v2 where
    v2: "leads v1 (wave s2) v2 [] [(''STOP'', Null)]" "bv_levels v2 = Some (True, True) \<and> \<not> bv_active v2 \<and> \<not> bv_repeated v2" by auto
  from leads_append [OF v1(1) v2(1)] v2(2) show ?case by (auto simp: timed(1))
next
  case (Cons m ms)
  then obtain s t1 t2 where timed: "timed = s # t1 @ t2" "fst s = Pulse True" "map fst t1 = message_symbols m" "map fst t2 = more_symbols ms"
    by (auto simp: map_eq_Cons_conv map_eq_append_conv)
  from Cons.prems(3) have m: "im_address m < 128" "addressable ms" by (simp_all add: addressable_def)
  from leads_release [OF timed(2) Cons.prems(2)] obtain v1 where
    v1: "leads v (wave s) v1 [] []" "bv_levels v1 = Some (True, True)" "bv_active v1" by auto
  from leads_message [OF timed(3) v1(2) m(1)] v1(3) obtain v2 where
    v2: "leads v1 (concat (map wave t1)) v2 (message_bytes m) (message_commands ''START REPEAT'' m)" "between v2" by auto
  from Cons.IH [OF timed(4) v2(2) m(2)] obtain v3 where
    v3: "leads v2 (concat (map wave t2)) v3 (concat (map message_bytes ms))
      (concat (map (message_commands ''START REPEAT'') ms) @ [(''STOP'', Null)])"
      "bv_levels v3 = Some (True, True) \<and> \<not> bv_active v3 \<and> \<not> bv_repeated v3" by auto
  from leads_append [OF v1(1) leads_append [OF v2(1) v3(1)]] v3(2) show ?case by (intro exI [of _ v3]) (simp add: timed(1))
qed

lemma map_eq_appendE:
  assumes "map f xs = ys @ zs"
  obtains us vs where "xs = us @ vs" "map f us = ys" "map f vs = zs"
  using assms by (auto simp: map_eq_append_conv)

lemma leads_transactions:
  assumes "map fst timed = concat (map transaction_symbols ts)" "bv_levels v = Some (True, True)" "\<not> bv_active v" "\<not> bv_repeated v"
    "\<forall>t\<in>set ts. addressable (fst t # snd t)"
  shows "\<exists>v'. leads v (concat (map wave timed)) v' (concat (map transaction_bytes ts)) (concat (map transaction_commands ts))"
  using assms
proof (induction ts arbitrary: timed v)
  case Nil
  then show ?case using leads_Nil by auto
next
  case (Cons t ts)
  from Cons.prems(1) have "map fst timed =
      (message_symbols (fst t) @ more_symbols (snd t)) @ concat (map transaction_symbols ts)"
    by (simp add: transaction_symbols_def [of t])
  then obtain t12 t3 where t12: "timed = t12 @ t3" "map fst t12 = message_symbols (fst t) @ more_symbols (snd t)"
    "map fst t3 = concat (map transaction_symbols ts)" by (rule map_eq_appendE) metis
  from t12(2) obtain t1 t2 where "t12 = t1 @ t2" "map fst t1 = message_symbols (fst t)" "map fst t2 = more_symbols (snd t)"
    by (rule map_eq_appendE) metis
  with t12 have timed: "timed = (t1 @ t2) @ t3" "map fst t1 = message_symbols (fst t)"
    "map fst t2 = more_symbols (snd t)" "map fst t3 = concat (map transaction_symbols ts)" by simp_all
  have t: "im_address (fst t) < 128" "addressable (snd t)" using Cons.prems(5) by (simp_all add: addressable_def)
  from leads_message [OF timed(2) Cons.prems(2) t(1)] Cons.prems(3,4) obtain v1 where
    v1: "leads v (concat (map wave t1)) v1 (message_bytes (fst t)) (message_commands ''START'' (fst t))" "between v1" by auto
  from leads_more [OF timed(3) v1(2) t(2)] obtain v2 where
    v2: "leads v1 (concat (map wave t2)) v2 (concat (map message_bytes (snd t)))
      (concat (map (message_commands ''START REPEAT'') (snd t)) @ [(''STOP'', Null)])"
      "bv_levels v2 = Some (True, True)" "\<not> bv_active v2" "\<not> bv_repeated v2" by auto
  from Cons.IH [OF timed(4) v2(2-4)] Cons.prems(5) obtain v3 where
    v3: "leads v2 (concat (map wave t3)) v3 (concat (map transaction_bytes ts)) (concat (map transaction_commands ts))" by auto
  from leads_append [OF leads_append [OF v1(1) v2(1)] v3] show ?case
    by (intro exI [of _ v3]) (simp add: timed(1) transaction_bytes_def [of t] transaction_commands_def [of t])
qed

section \<open>The decoder over blocks\<close>

definition aligned :: "sample_block \<Rightarrow> sample_block \<Rightarrow> bool" where
  "aligned scl sda \<longleftrightarrow> block_ok scl \<and> block_ok sda \<and> blk_start_position scl = blk_start_position sda \<and>
     blk_num_samples scl = blk_num_samples sda \<and> blk_timestamp_step scl = blk_timestamp_step sda \<and> 0 < blk_num_samples scl"

definition block_levels :: "sample_block \<Rightarrow> sample_block \<Rightarrow> timed_levels list" where
  "block_levels scl sda =
     zip (map (Pair (blk_timestamp_step scl)) (positions (blk_start_position scl) (end_position scl)))
       (zip (block_bits scl) (block_bits sda))"

lemma process_positions_fold:
  assumes "\<forall>k\<in>set ks. k < blk_num_samples scl" "aligned scl sda"
  shows "process_positions (map (\<lambda>k. blk_start_position scl + of_nat k) ks) scl sda d words packets =
    (let ((ws, ps), d') = i2c_fold (map (\<lambda>k. ((blk_timestamp_step scl, blk_start_position scl + of_nat k),
        block_bits scl ! k, block_bits sda ! k)) ks) d
     in Some ((words @ ws, packets @ ps), d'))"
  using assms(1)
proof (induction ks arbitrary: d words packets)
  case (Cons k ks)
  have "get_bit scl (blk_start_position scl + of_nat k) = Some (block_bits scl ! k)"
    "get_bit sda (blk_start_position scl + of_nat k) = Some (block_bits sda ! k)"
    using get_bit_block [of scl k] get_bit_block [of sda k] assms(2) Cons.prems by (simp_all add: aligned_def)
  with Cons show ?case by (simp add: Let_def split: prod.splits)
qed simp

lemma process_blocks_fold:
  assumes "aligned scl sda"
  shows "process_blocks scl sda d = Some (i2c_fold (block_levels scl sda) d)"
proof -
  let ?ks = "[0..<blk_num_samples scl]"
  have pos: "positions (blk_start_position scl) (end_position scl) = map (\<lambda>k. blk_start_position scl + of_nat k) ?ks"
    using assms by (intro positions_block) (simp add: aligned_def)
  have len: "blk_num_samples sda = blk_num_samples scl" using assms by (simp add: aligned_def)
  have "block_levels scl sda = map (\<lambda>k. ((blk_timestamp_step scl, blk_start_position scl + of_nat k),
      block_bits scl ! k, block_bits sda ! k)) ?ks"
    by (intro nth_equalityI) (auto simp: block_levels_def pos len)
  then show ?thesis
    using process_positions_fold [OF _ assms, of ?ks d "[]" "[]"]
    by (simp add: process_blocks_def pos split: prod.splits)
qed

definition stream_levels :: "sample_block list \<Rightarrow> sample_block list \<Rightarrow> timed_levels list" where
  "stream_levels scls sdas = concat (map2 block_levels scls sdas)"

lemma stream_levels_Cons [simp]:
  "stream_levels (scl # scls) (sda # sdas) = block_levels scl sda @ stream_levels scls sdas" "stream_levels [] sdas = []"
  by (simp_all add: stream_levels_def)

lemma map_snd_block_levels: "aligned scl sda \<Longrightarrow> map snd (block_levels scl sda) = zip (block_bits scl) (block_bits sda)"
  by (subst block_levels_def, subst positions_block) (simp_all add: aligned_def map_snd_zip_take)

lemma stream_levels_bits:
  "list_all2 aligned scls sdas \<Longrightarrow>
   map snd (stream_levels scls sdas) = zip (concat (map block_bits scls)) (concat (map block_bits sdas))"
  by (induction rule: list_all2_induct) (simp_all add: map_snd_block_levels aligned_def)

definition i2c_good :: "i2c_ctx \<Rightarrow> bool" where
  "i2c_good c \<longleftrightarrow> (\<exists>scl sda. ic_inputs c = [Some scl, Some sda] \<and> ends scl \<and> ends sda \<and>
     list_all2 aligned (stream scl) (stream sda)) \<and> accepting (ic_words c) \<and> accepting (ic_packets c) \<and>
     \<not> i2_finished (ic_node c)"

definition i2c_streams :: "i2c_ctx \<Rightarrow> sample_block list \<times> sample_block list" where
  "i2c_streams c = (case ic_inputs c of [Some scl, Some sda] \<Rightarrow> (stream scl, stream sda) | _ \<Rightarrow> ([], []))"

definition i2c_observed :: "i2c_ctx \<Rightarrow> decoded_word list \<times> protocol_packet list" where
  "i2c_observed c = (log_of (ic_words c), log_of (ic_packets c))"

definition i2c_predicted :: "i2c_ctx \<Rightarrow> decoded_word list \<times> protocol_packet list" where
  "i2c_predicted c =
     (let (ws, ps) = fst (i2c_fold (stream_levels (fst (i2c_streams c)) (snd (i2c_streams c))) (ic_node c))
      in (log_of (ic_words c) @ ws, log_of (ic_packets c) @ ps))"

lemma emit_byte_finished: "i2_finished (snd (emit_byte t d)) = i2_finished d"
  by (simp add: emit_byte_def Let_def)

lemma clock_rise_finished: "i2_finished (snd (clock_rise t p b d)) = i2_finished d"
  by (simp add: clock_rise_def Let_def emit_byte_finished)

lemma i2c_sample_finished: "i2_finished (snd (i2c_sample t p l d)) = i2_finished d"
  by (cases l; cases "i2_previous d") (simp_all add: i2c_sample_def case_prod_unfold Let_def clock_rise_finished)

lemma i2c_fold_finished: "i2_finished (snd (i2c_fold xs d)) = i2_finished d"
proof (induction xs arbitrary: d)
  case (Cons x xs)
  obtain t p l where x: "x = ((t, p), l)" by (metis prod.exhaust)
  show ?case using Cons.IH [of "snd (i2c_sample t p l d)"] i2c_sample_finished [of t p l d]
    by (simp add: x case_prod_unfold Let_def)
qed simp

text \<open>The two ways a call can go.\<close>

lemma i2c_work_cases:
  assumes "i2c_good c"
  obtains (ended) c' where "i2c_work c = Some (Inl Shutdown, c')" "i2c_observed c' = i2c_observed c"
      "i2c_streams c = ([], [])"
  | (block) scl sda scls sdas c' where "i2c_streams c = (scl # scls, sda # sdas)" "aligned scl sda"
      "i2c_work c = Some (Inr (blk_num_samples scl), c')" "i2c_good c'" "i2c_streams c' = (scls, sdas)"
      "ic_node c' = snd (i2c_fold (block_levels scl sda) (ic_node c))"
      "i2c_observed c' = (fst (i2c_observed c) @ fst (fst (i2c_fold (block_levels scl sda) (ic_node c))),
         snd (i2c_observed c) @ snd (fst (i2c_fold (block_levels scl sda) (ic_node c))))"
proof -
  obtain r1 r2 where c: "ic_inputs c = [Some r1, Some r2]" "ends r1" "ends r2" "list_all2 aligned (stream r1) (stream r2)"
    "\<not> i2_finished (ic_node c)"
    using assms by (auto simp: i2c_good_def)
  obtain p1 p2 where p: "ic_words c = Some p1" "open_port p1" "ic_packets c = Some p2" "open_port p2"
    using assms by (auto simp: i2c_good_def accepting_def)
  have streams: "i2c_streams c = (stream r1, stream r2)" by (simp add: i2c_streams_def c(1))
  show ?thesis
  proof (cases "stream r1")
    case Nil
    then have "stream r2 = []" using c(4) by simp
    moreover obtain r1' where "recv r1 = Some (Inl Shutdown, r1')" using rx.receive_end [OF Nil c(2)] by auto
    ultimately show ?thesis
      by (intro ended [of "c\<lparr>ic_inputs := [Some r1', Some r2], ic_node := (ic_node c)\<lparr>i2_finished := True\<rparr>\<rparr>"])
        (auto simp: i2c_work_def acquire_blocks_def c(1) i2c_observed_def streams Nil)
  next
    case (Cons scl scls)
    then obtain sda sdas where two: "stream r2 = sda # sdas" "aligned scl sda" "list_all2 aligned scls sdas"
      using c(4) by (auto simp: list_all2_Cons1)
    obtain r1' where r1: "recv r1 = Some (Inr scl, r1')" "stream r1' = scls" "ends r1'"
      using rx.receive_item [OF Cons] c(2) by auto
    obtain r2' where r2: "recv r2 = Some (Inr sda, r2')" "stream r2' = sdas" "ends r2'"
      using rx.receive_item [OF two(1)] c(3) by auto
    obtain ws ps d where f: "i2c_fold (block_levels scl sda) (ic_node c) = ((ws, ps), d)" by (metis prod.exhaust)
    then have d: "\<not> i2_finished d" using i2c_fold_finished [of "block_levels scl sda" "ic_node c"] c(5) by simp
    let ?c = "c\<lparr>ic_inputs := [Some r1', Some r2'], ic_node := d, ic_words := Some (p1\<lparr>sent := sent p1 @ ws\<rparr>),
      ic_packets := Some (p2\<lparr>sent := sent p2 @ ps\<rparr>)\<rparr>"
    have "acquire_blocks (ic_inputs c) = Some (Inr (Some (scl, sda)), [Some r1', Some r2'])"
      using two(2) by (simp add: acquire_blocks_def c(1) r1 r2 aligned_def)
    then have "i2c_work c = Some (Inr (blk_num_samples scl), ?c)"
      using p by (simp add: i2c_work_def process_blocks_fold [OF two(2)] f i2c_deliver_def send_batch_opt_def port_simps)
    then show ?thesis
      by (rule block [rotated 2])
        (use d p r1 r2 two f in \<open>auto simp: c(1) Cons i2c_good_def i2c_streams_def i2c_observed_def\<close>)
  qed
qed

interpretation i2c: draining_node i2c_work i2c_good "\<lambda>c. length (fst (i2c_streams c))" i2c_observed i2c_predicted
proof (rule draining_nodeI)
  fix c assume "i2c_good c"
  then show "\<exists>res c'. i2c_work c = Some (res, c') \<and> (case res of
      Inl e \<Rightarrow> e = Shutdown \<and> i2c_observed c' = i2c_predicted c
    | Inr n \<Rightarrow> i2c_good c' \<and> length (fst (i2c_streams c')) < length (fst (i2c_streams c)) \<and> i2c_predicted c' = i2c_predicted c)"
  proof (cases rule: i2c_work_cases)
    case (ended c')
    then show ?thesis by (auto simp: i2c_predicted_def i2c_observed_def)
  next
    case (block scl sda scls sdas c')
    have "i2c_predicted c' = i2c_predicted c"
      using block(1,5-7) by (simp add: i2c_predicted_def i2c_fold_append i2c_observed_def case_prod_unfold Let_def)
    with block show ?thesis by auto
  qed
qed

section \<open>Properties\<close>

text \<open>
  C7: What the bus carries is what the decoder reports. Take any sequence of I2C transactions, put on
  the wire with any clock timing and any data movement while the clock is low, sampled after some
  idle time and cut into aligned blocks in any way: the decoder's run ends with the regular shutdown,
  its words are the address and data bytes, and its packets, the raw-bit ones apart, are the start,
  address, acknowledgement, data, repeated start and stop reports of these transactions in order.
\<close>
theorem i2c_transactions_decoded:
  assumes "ends scl" "ends sda" "list_all2 aligned (stream scl) (stream sda)"
    and "zip (concat (map block_bits (stream scl))) (concat (map block_bits (stream sda))) = capture_wave idle timed"
    and "map fst timed = concat (map transaction_symbols ts)" "\<forall>t\<in>set ts. addressable (fst t # snd t)"
    and "open_port words" "open_port packets" "sent packets = []" "length (stream scl) < fuel"
  shows "\<exists>c n. run_node fuel i2c_work (\<lambda>c. i2_finished (ic_node c))
      \<lparr>ic_node = i2c_decoder_new, ic_inputs = [Some scl, Some sda], ic_words = Some words, ic_packets = Some packets\<rparr> 0 =
      Some (Some Shutdown, c, n) \<and>
    map w_value (log_of (ic_words c)) = map w_value (sent words) @ concat (map transaction_bytes ts) \<and>
    commands (log_of (ic_packets c)) = concat (map transaction_commands ts)"
proof -
  let ?c = "\<lparr>ic_node = i2c_decoder_new, ic_inputs = [Some scl, Some sda], ic_words = Some words, ic_packets = Some packets\<rparr>"
  let ?v0 = "view i2c_decoder_new"
  let ?v1 = "?v0\<lparr>bv_levels := Some (True, True)\<rparr>"
  have "i2c_good ?c" using assms(1-3,7,8) by (simp add: i2c_good_def i2c_decoder_new_def)
  moreover have streams: "i2c_streams ?c = (stream scl, stream sda)" by (simp add: i2c_streams_def)
  ultimately obtain c n where run: "run_node fuel i2c_work (\<lambda>c. i2_finished (ic_node c)) ?c 0 = Some (Some Shutdown, c, n)"
    "i2c_observed c = i2c_predicted ?c"
    using i2c.run_completes_unless [of ?c fuel "\<lambda>c. i2_finished (ic_node c)" 0] assms(10) by (auto simp: i2c_good_def)
  obtain v where "leads ?v1 (concat (map wave timed)) v (concat (map transaction_bytes ts)) (concat (map transaction_commands ts))"
    using leads_transactions [OF assms(5) _ _ _ assms(6), of ?v1] by (auto simp: view_def i2c_decoder_new_def)
  moreover have "leads ?v0 [(True, True)] ?v1 [] []" by (rule leads_first) (simp add: view_def i2c_decoder_new_def)
  moreover have "leads ?v1 (replicate idle (True, True)) ?v1 [] []" by (rule leads_replicate) simp
  ultimately have leads: "leads ?v0 (capture_wave idle timed) v (concat (map transaction_bytes ts)) (concat (map transaction_commands ts))"
    using leads_append leads_append by (fastforce simp: capture_wave_def)
  obtain ws ps d where fold: "i2c_fold (stream_levels (stream scl) (stream sda)) i2c_decoder_new = ((ws, ps), d)" by (metis prod.exhaust)
  have "map snd (stream_levels (stream scl) (stream sda)) = capture_wave idle timed"
    using stream_levels_bits [OF assms(3)] assms(4) by simp
  then have "map w_value ws = concat (map transaction_bytes ts)" "commands ps = concat (map transaction_commands ts)"
    using leads fold by (fastforce simp: leads_def)+
  moreover have "log_of (ic_words c) = sent words @ ws" "log_of (ic_packets c) = ps"
    using run(2) streams fold assms(9) by (simp_all add: i2c_predicted_def i2c_observed_def)
  ultimately show ?thesis using run(1) by auto
qed

definition example_line :: "u8 \<Rightarrow> u8 list \<Rightarrow> sample_block receiver" where
  "example_line first others =
     \<lparr>rx_queue = [Sample_Message (sample_block_new [first] 0 8 10), Batch [sample_block_new others 8 15 10], EndOfStream],
      rx_connected = True, rx_buffer = [], rx_eos = False\<rparr>"

text \<open>Address \<open>0x50\<close> written and acknowledged, one sample per phase, in two blocks.\<close>

definition example_message :: i2c_message where
  "example_message = \<lparr>im_address = 0x50, im_read = False, im_ack = True, im_data = []\<rparr>"

definition example_timed :: "timed_symbol list" where
  "example_timed = map (\<lambda>s. (s, [], 0)) (transaction_symbols (example_message, []))"

theorem i2c_transactions_decoded_witness:
  "\<exists>c n. run_node 3 i2c_work (\<lambda>c. i2_finished (ic_node c))
      \<lparr>ic_node = i2c_decoder_new, ic_inputs = [Some (example_line 171 [170, 106]), Some (example_line 205 [0, 64])],
       ic_words = Some \<lparr>sent = [], open_port = True\<rparr>, ic_packets = Some \<lparr>sent = [], open_port = True\<rparr>\<rparr> 0 =
      Some (Some Shutdown, c, n) \<and>
    map w_value (log_of (ic_words c)) = [0x50] \<and>
    commands (log_of (ic_packets c)) =
      [(''START'', Null), (''ADDRESS WRITE'', PInteger 0x50), (''ACK'', Null), (''STOP'', Null)]"
proof -
  let ?scl = "example_line 171 [170, 106]" and ?sda = "example_line 205 [0, 64]"
  have a: "ends ?scl" "ends ?sda" by (simp_all add: example_line_def ends_def)
  have b: "list_all2 aligned (stream ?scl) (stream ?sda)"
    by (simp add: example_line_def stream_def sample_block_new_def aligned_def block_ok_def)
  have c: "zip (concat (map block_bits (stream ?scl))) (concat (map block_bits (stream ?sda))) = capture_wave 0 example_timed"
    by code_simp
  have d: "map fst example_timed = concat (map transaction_symbols [(example_message, [])])"
    by (simp add: example_timed_def comp_def)
  have e: "\<forall>t\<in>set [(example_message, [])]. addressable (fst t # snd t)"
    by (simp add: addressable_def example_message_def)
  have f: "length (stream ?scl) < 3" by (simp add: example_line_def stream_def)
  from i2c_transactions_decoded [OF a b c d e, of "\<lparr>sent = [], open_port = True\<rparr>" "\<lparr>sent = [], open_port = True\<rparr>" 3] f
  show ?thesis
    by (simp add: transaction_bytes_def transaction_commands_def message_bytes_def message_commands_def example_message_def ack_command_def)
qed

end
