(* ===== verification/Uart_Decoder.thy ===== *)
theory Uart_Decoder
  imports Sample_Blocks
begin

text \<open>
  The UART decoder, \<^verbatim>\<open>crates/logic_analyzer_protocol_decoders/src/uart_decoder/decoder.rs\<close>: it waits
  for the edge of a start bit and then samples the line at the middle of each bit. Times are computed
  in floating point, always as a rounded product of a number of quarter bits and the bit time; that
  product is the parameter \<open>ticks\<close>, a function of the number of quarter bits (halves and quarters of
  small integers are exact). \<open>None\<close> is a call that blocks for ever.
\<close>

section \<open>State\<close>

datatype uart_parity = No_Parity | Odd | Even | Mark | Space

datatype uart_stop_bits = S0 | S0_5 | S1 | S1_5 | S2

datatype bit_order = MsbFirst | LsbFirst

text \<open>The number of stop bits, in quarters.\<close>

definition stop_quarters :: "uart_stop_bits \<Rightarrow> nat" where
  "stop_quarters s = (case s of S0 \<Rightarrow> 0 | S0_5 \<Rightarrow> 2 | S1 \<Rightarrow> 4 | S1_5 \<Rightarrow> 6 | S2 \<Rightarrow> 8)"

record uart_decoder =
  ud_name :: string
  ud_baud :: u64
  ud_data_bits :: nat
  ud_parity :: uart_parity
  ud_check_parity :: bool
  ud_stop_bits :: uart_stop_bits
  ud_bit_order :: bit_order
  ud_invert :: bool
  ud_resume_after :: u64
  ud_frames :: u64
  ud_finished :: bool

text \<open>The constructor asserts its arguments.\<close>

definition uart_decoder_new :: "u64 \<Rightarrow> nat \<Rightarrow> uart_decoder option" where
  "uart_decoder_new baud data_bits =
     (if 0 < baud \<and> 5 \<le> data_bits \<and> data_bits \<le> 9
      then Some \<lparr>ud_name = ''uart_decoder'', ud_baud = baud, ud_data_bits = data_bits, ud_parity = No_Parity,
        ud_check_parity = False, ud_stop_bits = S1, ud_bit_order = LsbFirst, ud_invert = False, ud_resume_after = 0,
        ud_frames = 0, ud_finished = False\<rparr>
      else None)"

definition uart_with_name :: "uart_decoder \<Rightarrow> string \<Rightarrow> uart_decoder" where
  "uart_with_name d name = d\<lparr>ud_name := name\<rparr>"

definition uart_with_parity :: "uart_decoder \<Rightarrow> uart_parity \<Rightarrow> bool \<Rightarrow> uart_decoder" where
  "uart_with_parity d parity check = d\<lparr>ud_parity := parity, ud_check_parity := check\<rparr>"

definition uart_with_stop_bits :: "uart_decoder \<Rightarrow> uart_stop_bits \<Rightarrow> uart_decoder" where
  "uart_with_stop_bits d stop_bits = d\<lparr>ud_stop_bits := stop_bits\<rparr>"

definition uart_with_bit_order :: "uart_decoder \<Rightarrow> bit_order \<Rightarrow> uart_decoder" where
  "uart_with_bit_order d bit_order = d\<lparr>ud_bit_order := bit_order\<rparr>"

definition uart_with_invert :: "uart_decoder \<Rightarrow> bool \<Rightarrow> uart_decoder" where
  "uart_with_invert d invert = d\<lparr>ud_invert := invert\<rparr>"

record uart_ctx =
  ux_node :: uart_decoder
  ux_rx :: "sample receiver option"
  ux_words :: "decoded_word out_port option"
  ux_error :: "timestamp_event out_port option"
  ux_bits :: "decoded_word out_port option"
  ux_frame :: "decoded_word out_port option"

definition uart_input_schema :: "port_schema list" where
  "uart_input_schema = [port_schema_state ''Sample'' ''rx'' 0 Input]"

definition uart_output_schema :: "port_schema list" where
  "uart_output_schema =
     [with_default_buffer_capacity 8 (port_schema_new ''Word'' ''words'' 0 Output),
      port_schema_new ''TimestampEvent'' ''error'' 1 Output,
      with_default_buffer_capacity 8 (port_schema_new ''Word'' ''bits'' 2 Output),
      with_default_buffer_capacity 8 (port_schema_new ''Word'' ''frame'' 3 Output)]"

section \<open>Sampling the line\<close>

text \<open>The level of the line at a time; no level means that the line has ended.\<close>

function value_at :: "sample receiver \<Rightarrow> u64 \<Rightarrow> (bool option work_result \<times> sample receiver) option" where
  "value_at r timestamp =
     (case recv r of
        None \<Rightarrow> None
      | Some (Inl e, r1) \<Rightarrow> Some (if e = Shutdown then Inr None else Inl e, r1)
      | Some (Inr current, r1) \<Rightarrow>
          (case peek r1 of
             None \<Rightarrow> None
           | Some (Inr following, r2) \<Rightarrow>
               if s_start_time_ns current \<le> timestamp \<and> timestamp < s_start_time_ns following
               then Some (Inr (Some (s_value current)), put_back r2 current)
               else value_at r2 timestamp
           | Some (Inl e, r2) \<Rightarrow>
               if e = Shutdown
               then if s_start_time_ns current \<le> timestamp
                    then Some (Inr (Some (s_value current)), put_back r2 current) else Some (Inr None, r2)
               else Some (Inl e, r2)))"
  by pat_completeness auto
termination
  by (relation "measure (\<lambda>(r, _). length (stream r))") (auto dest: recv_peek_shorter)

declare value_at.simps [simp del]

function hunt :: "bool \<Rightarrow> u64 \<Rightarrow> sample receiver \<Rightarrow> (u64 work_result \<times> sample receiver) option" where
  "hunt start_level resume_after r =
     (case recv r of
        None \<Rightarrow> None
      | Some (Inl e, r1) \<Rightarrow> Some (Inl e, r1)
      | Some (Inr edge, r1) \<Rightarrow>
          if s_value edge = start_level \<and> resume_after \<le> s_start_time_ns edge
          then Some (Inr (s_start_time_ns edge), put_back r1 edge)
          else hunt start_level resume_after r1)"
  by pat_completeness auto
termination
  by (relation "measure (\<lambda>(_, _, r). length (stream r))") (auto dest: rx.receive_OkD)

declare hunt.simps [simp del]

text \<open>A sample that finds the line ended ends the call; an error is passed on.\<close>

definition sampled_then :: "('a option work_result \<times> sample receiver) option \<Rightarrow>
    ('a \<Rightarrow> sample receiver \<Rightarrow> ('b option work_result \<times> sample receiver) option) \<Rightarrow>
    ('b option work_result \<times> sample receiver) option" where
  "sampled_then res f =
     (case res of
        None \<Rightarrow> None
      | Some (Inl e, r) \<Rightarrow> Some (Inl e, r)
      | Some (Inr None, r) \<Rightarrow> Some (Inr None, r)
      | Some (Inr (Some x), r) \<Rightarrow> f x r)"

lemma sampled_then_simps [simp]:
  "sampled_then None f = None" "sampled_then (Some (Inl e, r)) f = Some (Inl e, r)"
  "sampled_then (Some (Inr None, r)) f = Some (Inr None, r)" "sampled_then (Some (Inr (Some x), r)) f = f x r"
  by (simp_all add: sampled_then_def)

section \<open>One frame\<close>

definition logical :: "uart_decoder \<Rightarrow> bool \<Rightarrow> bool" where
  "logical d raw \<longleftrightarrow> raw \<noteq> ud_invert d"

definition bit_position :: "uart_decoder \<Rightarrow> nat \<Rightarrow> nat" where
  "bit_position d i = (case ud_bit_order d of LsbFirst \<Rightarrow> i | MsbFirst \<Rightarrow> ud_data_bits d - 1 - i)"

definition sample_time :: "(nat \<Rightarrow> u64) \<Rightarrow> u64 \<Rightarrow> nat \<Rightarrow> u64" where
  "sample_time ticks t0 bit_index = t0 + ticks (4 * bit_index + 2)"

fun uart_bits :: "(nat \<Rightarrow> u64) \<Rightarrow> uart_decoder \<Rightarrow> u64 \<Rightarrow> nat \<Rightarrow> nat \<Rightarrow> u64 \<Rightarrow> bool list \<Rightarrow> sample receiver \<Rightarrow>
    ((u64 \<times> bool list) option work_result \<times> sample receiver) option" where
  "uart_bits ticks d t0 i 0 acc bits r = Some (Inr (Some (acc, bits)), r)"
| "uart_bits ticks d t0 i (Suc n) acc bits r =
     sampled_then (value_at r (sample_time ticks t0 (1 + i))) (\<lambda>raw r1.
       uart_bits ticks d t0 (Suc i) n
         (if logical d raw then acc OR push_bit (bit_position d i) 1 else acc) (bits @ [logical d raw]) r1)"

definition count_ones :: "u64 \<Rightarrow> nat" where
  "count_ones v = length (filter (bit v) [0..<64])"

definition parity_ok :: "uart_parity \<Rightarrow> u64 \<Rightarrow> bool \<Rightarrow> bool" where
  "parity_ok parity v parity_bit =
     (let ones = count_ones v + (if parity_bit then 1 else 0) in
      case parity of
        Odd \<Rightarrow> odd ones
      | Even \<Rightarrow> even ones
      | Mark \<Rightarrow> parity_bit
      | Space \<Rightarrow> \<not> parity_bit
      | No_Parity \<Rightarrow> True)"

definition uart_parity_check :: "(nat \<Rightarrow> u64) \<Rightarrow> uart_decoder \<Rightarrow> u64 \<Rightarrow> u64 \<Rightarrow> sample receiver \<Rightarrow>
    (bool option work_result \<times> sample receiver) option" where
  "uart_parity_check ticks d t0 v r =
     (if ud_parity d = No_Parity then Some (Inr (Some False), r)
      else
        sampled_then (value_at r (sample_time ticks t0 (1 + ud_data_bits d))) (\<lambda>raw r1.
          Some (Inr (Some (ud_check_parity d \<and> \<not> parity_ok (ud_parity d) v (logical d raw))), r1)))"

definition parity_bits :: "uart_decoder \<Rightarrow> nat" where
  "parity_bits d = (if ud_parity d = No_Parity then 0 else 1)"

definition stop_time :: "(nat \<Rightarrow> u64) \<Rightarrow> uart_decoder \<Rightarrow> u64 \<Rightarrow> u64" where
  "stop_time ticks d t0 =
     t0 + ticks (4 * (1 + ud_data_bits d + parity_bits d) + min (stop_quarters (ud_stop_bits d)) 4 div 2)"

definition uart_stop_check :: "(nat \<Rightarrow> u64) \<Rightarrow> uart_decoder \<Rightarrow> u64 \<Rightarrow> sample receiver \<Rightarrow>
    (bool option work_result \<times> sample receiver) option" where
  "uart_stop_check ticks d t0 r =
     (if stop_quarters (ud_stop_bits d) = 0 then Some (Inr (Some False), r)
      else
        sampled_then (value_at r (stop_time ticks d t0)) (\<lambda>raw r1. Some (Inr (Some (\<not> logical d raw)), r1)))"

definition uart_frame :: "(nat \<Rightarrow> u64) \<Rightarrow> uart_decoder \<Rightarrow> u64 \<Rightarrow> sample receiver \<Rightarrow>
    ((u64 \<times> bool list \<times> bool) option work_result \<times> sample receiver) option" where
  "uart_frame ticks d t0 r =
     sampled_then (uart_bits ticks d t0 0 (ud_data_bits d) 0 [] r) (\<lambda>(v, bits) r1.
     sampled_then (uart_parity_check ticks d t0 v r1) (\<lambda>parity_error r2.
     sampled_then (uart_stop_check ticks d t0 r2) (\<lambda>stop_error r3.
       Some (Inr (Some (v, bits, parity_error \<or> stop_error)), r3))))"

section \<open>Emitting\<close>

definition frame_quarters :: "uart_decoder \<Rightarrow> nat" where
  "frame_quarters d = 4 * (1 + ud_data_bits d + parity_bits d) + stop_quarters (ud_stop_bits d)"

definition bit_annotations :: "(nat \<Rightarrow> u64) \<Rightarrow> u64 \<Rightarrow> bool list \<Rightarrow> decoded_word list" where
  "bit_annotations ticks t0 bits =
     map (\<lambda>(index, b). word_spanning (if b then 1 else 0) (t0 + ticks (4 * (1 + index))) (ticks 4)) (enumerate 0 bits)"

definition frame_annotations :: "(nat \<Rightarrow> u64) \<Rightarrow> uart_decoder \<Rightarrow> u64 \<Rightarrow> u64 \<Rightarrow> bool \<Rightarrow> decoded_word list" where
  "frame_annotations ticks d t0 v frame_error =
     (let bit_duration = ticks 4 in
      [word_spanning (- 1) t0 bit_duration,
       word_spanning (if frame_error then - 3 else v) (t0 + bit_duration) (bit_duration * of_nat (ud_data_bits d))] @
      (if stop_quarters (ud_stop_bits d) = 0 then []
       else [word_spanning (- 2) (t0 + bit_duration * of_nat (ud_data_bits d + 1)) (ticks (stop_quarters (ud_stop_bits d)))]))"

definition uart_emit :: "(nat \<Rightarrow> u64) \<Rightarrow> u64 \<Rightarrow> u64 \<Rightarrow> bool list \<Rightarrow> bool \<Rightarrow> sample receiver \<Rightarrow> uart_ctx \<Rightarrow>
    nat work_result \<times> uart_ctx" where
  "uart_emit ticks t0 v bits frame_error r c =
     (let d = ux_node c;
          c1 = c\<lparr>ux_node := d\<lparr>ud_frames := ud_frames d + 1,
                   ud_resume_after := t0 + ticks (frame_quarters d - 1)\<rparr>, ux_rx := Some r\<rparr>
      in case (if frame_error then send_opt (ux_error c) (timestamp_event_new t0) else (None, ux_error c)) of
           (Some e, port) \<Rightarrow> (Inl e, c1\<lparr>ux_error := port\<rparr>)
         | (None, port) \<Rightarrow>
             let c2 = c1\<lparr>ux_error := port\<rparr> in
             (case send_batch_opt (ux_bits c) (bit_annotations ticks t0 bits) of
                (Some e, port) \<Rightarrow> (Inl e, c2\<lparr>ux_bits := port\<rparr>)
              | (None, port) \<Rightarrow>
                  let c3 = c2\<lparr>ux_bits := port\<rparr> in
                  (case send_opt (ux_words c) (word_spanning v t0 (ticks (frame_quarters d))) of
                     (Some e, port) \<Rightarrow> (Inl e, c3\<lparr>ux_words := port\<rparr>)
                   | (None, port) \<Rightarrow>
                       let c4 = c3\<lparr>ux_words := port\<rparr> in
                       (case send_batch_opt (ux_frame c) (frame_annotations ticks d t0 v frame_error) of
                          (Some e, port) \<Rightarrow> (Inl e, c4\<lparr>ux_frame := port\<rparr>)
                        | (None, port) \<Rightarrow>
                            (Inr 1, c4\<lparr>ux_frame := port,
                               ux_node := (ux_node c4)\<lparr>ud_finished := is_shutdown r\<rparr>\<rparr>)))))"

definition uart_work :: "(nat \<Rightarrow> u64) \<Rightarrow> uart_ctx work_fun" where
  "uart_work ticks c =
     (case ux_rx c of
        None \<Rightarrow> Some (Inl (NodeError ''Missing rx input''), c)
      | Some rx \<Rightarrow>
          (case hunt (ud_invert (ux_node c)) (ud_resume_after (ux_node c)) rx of
             None \<Rightarrow> None
           | Some (Inl e, r) \<Rightarrow> Some (Inl e, c\<lparr>ux_rx := Some r\<rparr>)
           | Some (Inr t0, r) \<Rightarrow>
               (case uart_frame ticks (ux_node c) t0 r of
                  None \<Rightarrow> None
                | Some (Inl e, r1) \<Rightarrow> Some (Inl e, c\<lparr>ux_rx := Some r1\<rparr>)
                | Some (Inr None, r1) \<Rightarrow>
                    Some (Inl Shutdown, c\<lparr>ux_rx := Some r1, ux_node := (ux_node c)\<lparr>ud_finished := True\<rparr>\<rparr>)
                | Some (Inr (Some (v, bits, frame_error)), r1) \<Rightarrow> Some (uart_emit ticks t0 v bits frame_error r1 c))))"

section \<open>A line and its levels\<close>

text \<open>Whether the end of the stream is announced by a marker, not only by the sender going away.\<close>

definition marked :: "'a receiver \<Rightarrow> bool" where
  "marked r \<longleftrightarrow> EndOfStream \<in> set (rx_queue r)"

lemma recv_loop_marked: "recv_loop r q = Some (Inr x, r') \<Longrightarrow> EndOfStream \<in> set (rx_queue r') \<longleftrightarrow> EndOfStream \<in> set q"
  by (induction r q rule: recv_loop.induct) (auto split: option.splits if_splits)

lemma recv_marked: "recv r = Some (Inr x, r') \<Longrightarrow> (marked r' \<longleftrightarrow> marked r) \<and> \<not> rx_eos r'"
  using recv_loop_marked [of r "rx_queue r" x r'] recv_Inr_live [of r x r']
  by (auto simp: recv_def marked_def split: if_splits list.splits)

lemma peek_loop_marked: "peek_loop r q = Some (Inr x, r') \<Longrightarrow> EndOfStream \<in> set (rx_queue r') \<longleftrightarrow> EndOfStream \<in> set q"
  by (induction r q rule: peek_loop.induct) (auto split: list.splits if_splits)

lemma peek_marked: "peek r = Some (Inr x, r') \<Longrightarrow> marked r' \<longleftrightarrow> marked r"
  using peek_loop_marked [of r "rx_queue r" x r'] by (auto simp: peek_def marked_def split: if_splits list.splits)

lemma peek_end_marked:
  assumes "peek r = Some (Inl e, r')" "\<not> rx_eos r"
  shows "(rx_eos r' \<longleftrightarrow> marked r) \<and> (\<not> marked r \<longrightarrow> \<not> marked r')"
proof -
  have loop: "peek_loop r q = Some (Inl e, r') \<Longrightarrow> EndOfStream \<notin> set q \<Longrightarrow> EndOfStream \<notin> set (rx_queue r')" for q
    by (induction r q rule: peek_loop.induct) (auto split: list.splits if_splits)
  show ?thesis
    using assms peek_loop_eos [of r "rx_queue r" e r'] loop [of "rx_queue r"]
    by (auto simp: peek_def marked_def split: list.splits)
qed

text \<open>The part of a line from the level at a time on.\<close>

fun line_from :: "u64 \<Rightarrow> sample list \<Rightarrow> sample list" where
  "line_from t [] = []"
| "line_from t [x] = [x]"
| "line_from t (x # y # zs) = (if s_start_time_ns y \<le> t then line_from t (y # zs) else x # y # zs)"

lemma line_from_ne [simp]: "line_from t xs = [] \<longleftrightarrow> xs = []"
  by (induction t xs rule: line_from.induct) auto

lemma line_from_later: "t \<le> t' \<Longrightarrow> line_from t' (line_from t xs) = line_from t' xs"
  by (induction t xs rule: line_from.induct) auto

lemma line_from_hd: "xs \<noteq> [] \<Longrightarrow> s_start_time_ns (hd xs) \<le> t \<Longrightarrow> s_start_time_ns (hd (line_from t xs)) \<le> t"
  by (induction t xs rule: line_from.induct) auto

lemma line_from_sorted: "sorted_by s_start_time_ns xs \<Longrightarrow> sorted_by s_start_time_ns (line_from t xs)"
  by (induction t xs rule: line_from.induct) auto

lemma line_from_length: "length (line_from t xs) \<le> length xs"
  by (induction t xs rule: line_from.induct) auto

lemma line_from_level:
  "sorted_by s_start_time_ns xs \<Longrightarrow> xs \<noteq> [] \<Longrightarrow> s_start_time_ns (hd xs) \<le> t \<Longrightarrow> s_value (hd (line_from t xs)) = level_at v xs t"
proof (induction t xs arbitrary: v rule: line_from.induct)
  case (3 t x y zs)
  show ?case
  proof (cases "s_start_time_ns y \<le> t")
    case True
    then show ?thesis using 3 by simp
  next
    case False
    then have "\<forall>s\<in>set (y # zs). t < s_start_time_ns s" using 3(2) by force
    then show ?thesis using False 3(4) level_at_later [of "y # zs" t "s_value x"] by simp
  qed
qed auto

lemma line_from_single: "sorted_by s_start_time_ns xs \<Longrightarrow> xs \<noteq> [] \<Longrightarrow> s_start_time_ns (hd xs) \<le> t \<Longrightarrow>
    length (line_from t xs) = 1 \<longleftrightarrow> (\<forall>s\<in>set xs. s_start_time_ns s \<le> t)"
proof (induction t xs rule: line_from.induct)
  case (3 t x y zs)
  then show ?case by (cases "s_start_time_ns y \<le> t") auto
qed auto

lemma value_at_line:
  assumes "stream r = xs" "xs \<noteq> []" "sorted_by s_start_time_ns xs" "s_start_time_ns (hd xs) \<le> t" "ends r" "\<not> rx_eos r"
  shows "\<exists>r'. value_at r t = Some (Inr (Some (s_value (hd (line_from t xs)))), r') \<and> ends r' \<and>
    (if marked r \<and> length (line_from t xs) = 1 then rx_eos r'
     else stream r' = line_from t xs \<and> \<not> rx_eos r' \<and> (marked r' \<longleftrightarrow> marked r))"
  using assms
proof (induction t xs arbitrary: r rule: line_from.induct)
  case (3 t x y zs)
  obtain r1 where r1: "recv r = Some (Inr x, r1)" "stream r1 = y # zs" "ends r1"
    using rx.receive_item [OF 3(2)] 3(6) by auto
  obtain r2 where r2: "peek r1 = Some (Inr y, r2)" "stream r2 = y # zs" "ends r2" "\<not> rx_eos r2"
    using peek_item [OF r1(2)] r1(3) by auto
  have m: "marked r2 \<longleftrightarrow> marked r" using recv_marked [OF r1(1)] peek_marked [OF r2(1)] by simp
  show ?case
  proof (cases "s_start_time_ns y \<le> t")
    case True
    then have "\<not> t < s_start_time_ns y" by simp
    then have "value_at r t = value_at r2 t" using r1 r2 by (simp add: value_at.simps [of r])
    moreover have "sorted_by s_start_time_ns (y # zs)" using 3(4) by simp
    moreover obtain r' where "value_at r2 t = Some (Inr (Some (s_value (hd (line_from t (y # zs))))), r')" "ends r'"
      "if marked r \<and> length (line_from t (y # zs)) = 1 then rx_eos r'
       else stream r' = line_from t (y # zs) \<and> \<not> rx_eos r' \<and> (marked r' \<longleftrightarrow> marked r)"
      using 3(1) [OF True r2(2)] True 3(4) r2(3,4) m by auto
    ultimately show ?thesis using True by (intro exI [of _ r']) simp
  next
    case False
    then have "t < s_start_time_ns y" by simp
    then have "value_at r t = Some (Inr (Some (s_value x)), put_back r2 x)"
      using r1 r2 3(5) by (simp add: value_at.simps [of r])
    moreover have "marked (put_back r2 x) \<longleftrightarrow> marked r2" "\<not> rx_eos (put_back r2 x)"
      using r2(4) by (simp_all add: marked_def put_back_def)
    ultimately show ?thesis using False r2 m by (simp add: stream_put_back)
  qed
next
  case (1 t)
  then show ?case by simp
next
  case (2 t x)
  obtain r1 where r1: "recv r = Some (Inr x, r1)" "stream r1 = []" "ends r1"
    using rx.receive_item [OF 2(1)] 2(5) by auto
  obtain r2 where r2: "peek r1 = Some (Inl Shutdown, r2)" "stream r2 = []" "ends r2"
    using peek_end [OF r1(2)] r1(3) by auto
  have eos: "rx_eos r2 \<longleftrightarrow> marked r" "\<not> marked r \<longrightarrow> \<not> marked r2"
    using peek_end_marked [OF r2(1)] recv_marked [OF r1(1)] by auto
  have "value_at r t = Some (Inr (Some (s_value x)), put_back r2 x)"
    using r1 r2 2(4) by (simp add: value_at.simps [of r])
  moreover have "marked (put_back r2 x) \<longleftrightarrow> marked r2" "rx_eos (put_back r2 x) \<longleftrightarrow> rx_eos r2"
    by (simp_all add: marked_def put_back_def)
  ultimately show ?case using r2 eos by (auto simp: stream_put_back)
qed

lemma value_at_ended: "rx_eos r \<Longrightarrow> value_at r t = Some (Inr None, r)"
  by (simp add: value_at.simps [of r] recv_def)

section \<open>A frame on a line\<close>

text \<open>
  What the decoder relies on of the times: the rounded products grow with the number of quarter bits
  and do not pass the end of the clock within a frame.
\<close>

definition ticks_ok :: "(nat \<Rightarrow> u64) \<Rightarrow> uart_decoder \<Rightarrow> u64 \<Rightarrow> bool" where
  "ticks_ok ticks d t0 \<longleftrightarrow> ticks 0 = 0 \<and> (\<forall>i j. i \<le> j \<and> j \<le> frame_quarters d \<longrightarrow> t0 + ticks i \<le> t0 + ticks j)"

text \<open>The receiver stands on the line: it still has everything from the level at a time on.\<close>

definition stands :: "bool \<Rightarrow> sample list \<Rightarrow> u64 \<Rightarrow> sample receiver \<Rightarrow> bool" where
  "stands m line t r \<longleftrightarrow> stream r = line_from t line \<and> ends r \<and> \<not> rx_eos r \<and> (marked r \<longleftrightarrow> m)"

text \<open>A line that begins at or before a time, in order of time.\<close>

definition line_ok :: "sample list \<Rightarrow> u64 \<Rightarrow> bool" where
  "line_ok line t \<longleftrightarrow> line \<noteq> [] \<and> sorted_by s_start_time_ns line \<and> s_start_time_ns (hd line) \<le> t"

text \<open>Sampling at a time does not run into the marker at the end.\<close>

definition safe :: "bool \<Rightarrow> sample list \<Rightarrow> u64 \<Rightarrow> bool" where
  "safe m line t \<longleftrightarrow> (m \<longrightarrow> (\<exists>s\<in>set line. t < s_start_time_ns s))"

lemma safe_earlier: "safe m line t' \<Longrightarrow> t \<le> t' \<Longrightarrow> safe m line t"
  by (force simp: safe_def)

lemma value_at_stands:
  assumes "line_ok line t" "stands m line t r" "t \<le> t'" "safe m line t'"
  shows "\<exists>r'. value_at r t' = Some (Inr (Some (level_at v line t')), r') \<and> stands m line t' r'"
proof -
  let ?xs = "line_from t line"
  have xs: "?xs \<noteq> []" "sorted_by s_start_time_ns ?xs" "s_start_time_ns (hd ?xs) \<le> t'"
    using assms(1,3) line_from_sorted line_from_hd [of line t] by (auto simp: line_ok_def)
  have line: "line_ok line t'" using assms(1,3) by (auto simp: line_ok_def)
  have r: "stream r = ?xs" "ends r" "\<not> rx_eos r" "marked r \<longleftrightarrow> m" using assms(2) by (simp_all add: stands_def)
  have cut: "line_from t' ?xs = line_from t' line" using assms(3) by (rule line_from_later)
  have "\<not> (m \<and> length (line_from t' line) = 1)"
    using assms(4) line line_from_single [of line t'] by (auto simp: safe_def line_ok_def not_less)
  with value_at_line [OF r(1) xs r(2,3)] r(4) line_from_level [of line t' v] line show ?thesis
    by (auto simp: cut stands_def line_ok_def)
qed

definition read_bit :: "(nat \<Rightarrow> u64) \<Rightarrow> uart_decoder \<Rightarrow> sample list \<Rightarrow> u64 \<Rightarrow> nat \<Rightarrow> bool" where
  "read_bit ticks d line t0 k = logical d (level_at (ud_invert d) line (sample_time ticks t0 (1 + k)))"

definition gather :: "uart_decoder \<Rightarrow> (nat \<Rightarrow> bool) \<Rightarrow> nat list \<Rightarrow> u64 \<Rightarrow> u64" where
  "gather d b ks acc = fold (\<lambda>k acc. if b k then acc OR push_bit (bit_position d k) 1 else acc) ks acc"

lemma uart_bits_read:
  assumes "line_ok line t0" "stands m line t r" "t0 \<le> t" "\<forall>k<n. t \<le> sample_time ticks t0 (1 + (i + k))"
    "\<forall>j k. j \<le> k \<and> k < n \<longrightarrow> sample_time ticks t0 (1 + (i + j)) \<le> sample_time ticks t0 (1 + (i + k))"
    "\<forall>k<n. safe m line (sample_time ticks t0 (1 + (i + k)))"
  shows "\<exists>r'. uart_bits ticks d t0 i n acc bits r =
      Some (Inr (Some (gather d (read_bit ticks d line t0) [i..<i + n] acc, bits @ map (read_bit ticks d line t0) [i..<i + n])), r') \<and>
    stands m line (if n = 0 then t else sample_time ticks t0 (i + n)) r'"
  using assms(2-)
proof (induction n arbitrary: i t r acc bits)
  case 0
  then show ?case by (simp add: gather_def)
next
  case (Suc n)
  let ?s = "sample_time ticks t0 (1 + i)" and ?b = "read_bit ticks d line t0"
  have t: "t \<le> ?s" "safe m line ?s" using Suc.prems(3,5) by auto
  have "line_ok line t" using assms(1) Suc.prems(2) by (auto simp: line_ok_def)
  from value_at_stands [OF this Suc.prems(1) t] obtain r1 where
    r1: "value_at r ?s = Some (Inr (Some (level_at (ud_invert d) line ?s)), r1)" "stands m line ?s r1" by auto
  have shift: "1 + (Suc i + k) = 1 + (i + Suc k)" for k by simp
  have later: "\<forall>k<n. ?s \<le> sample_time ticks t0 (1 + (Suc i + k))"
    unfolding shift using Suc.prems(4) by (metis Suc_less_eq add.right_neutral zero_le)
  have mono: "\<forall>j k. j \<le> k \<and> k < n \<longrightarrow> sample_time ticks t0 (1 + (Suc i + j)) \<le> sample_time ticks t0 (1 + (Suc i + k))"
    unfolding shift using Suc.prems(4) by (metis Suc_le_mono Suc_less_eq)
  have safe: "\<forall>k<n. safe m line (sample_time ticks t0 (1 + (Suc i + k)))"
    unfolding shift using Suc.prems(5) by (metis Suc_less_eq)
  have "t0 \<le> ?s" using Suc.prems(2) t(1) by simp
  let ?acc = "if ?b i then acc OR push_bit (bit_position d i) 1 else acc"
  from Suc.IH [OF r1(2) \<open>t0 \<le> ?s\<close> later mono safe, of ?acc "bits @ [?b i]"] obtain r' where
    r': "uart_bits ticks d t0 (Suc i) n ?acc (bits @ [?b i]) r1 =
      Some (Inr (Some (gather d ?b [Suc i..<Suc i + n] ?acc, (bits @ [?b i]) @ map ?b [Suc i..<Suc i + n])), r')"
    "stands m line (if n = 0 then ?s else sample_time ticks t0 (Suc i + n)) r'" by blast
  have step: "uart_bits ticks d t0 i (Suc n) acc bits r = uart_bits ticks d t0 (Suc i) n ?acc (bits @ [?b i]) r1"
    using r1(1) by (simp add: read_bit_def)
  have upt: "[i..<i + Suc n] = i # [Suc i..<Suc i + n]" by (simp add: upt_conv_Cons)
  have "stands m line (sample_time ticks t0 (i + Suc n)) r'" using r'(2) by (auto split: if_splits)
  then show ?case unfolding step r'(1) upt by (simp add: gather_def)
qed

lemma bit_gather:
  "j < 64 \<Longrightarrow> bit (gather d b ks acc) j \<longleftrightarrow> bit acc j \<or> (\<exists>k\<in>set ks. b k \<and> bit_position d k = j)"
proof (induction ks arbitrary: acc)
  case (Cons k ks)
  have "bit (push_bit n 1 :: u64) j \<longleftrightarrow> n = j" for n
    using Cons.prems by (auto simp: bit_exp_iff)
  then have "bit (if b k then acc OR push_bit (bit_position d k) 1 else acc) j \<longleftrightarrow> bit acc j \<or> (b k \<and> bit_position d k = j)"
    by (auto simp: bit_or_iff)
  moreover have "gather d b (k # ks) acc = gather d b ks (if b k then acc OR push_bit (bit_position d k) 1 else acc)"
    by (simp add: gather_def)
  ultimately show ?case using Cons.IH [OF Cons.prems] by auto
qed (simp add: gather_def)

lemma bit_beyond: "v < 2 ^ n \<Longrightarrow> n \<le> j \<Longrightarrow> j < 64 \<Longrightarrow> \<not> bit v j" for v :: u64
proof -
  assume a: "v < 2 ^ n" "n \<le> j" "j < 64"
  have "uint v < 2 ^ n" using a word_2p_lem [of n v] by (simp add: word_size)
  also have "(2::int) ^ n \<le> 2 ^ j" using a(2) by simp
  finally have "\<not> bit (uint v) j" by (simp add: bit_iff_odd)
  then show ?thesis using a(3) by (simp add: bit_uint_iff)
qed

lemma gather_word:
  assumes "\<forall>k<ud_data_bits d. b k = bit v (bit_position d k)" "v < 2 ^ ud_data_bits d" "ud_data_bits d \<le> 64"
  shows "gather d b [0..<ud_data_bits d] 0 = v"
proof (rule bit_word_eqI)
  fix j assume "j < LENGTH(64)"
  then have j: "j < 64" by simp
  show "bit (gather d b [0..<ud_data_bits d] 0) j = bit v j"
  proof (cases "j < ud_data_bits d")
    case True
    then have "\<exists>k<ud_data_bits d. bit_position d k = j"
      by (intro exI [of _ "bit_position d j"]) (auto simp: bit_position_def split: bit_order.splits)
    with assms(1) show ?thesis by (auto simp: bit_gather [OF j])
  next
    case False
    then have "\<not> bit v j" using bit_beyond [OF assms(2)] j by simp
    moreover have "bit_position d k < ud_data_bits d" if "k < ud_data_bits d" for k
      using that by (auto simp: bit_position_def split: bit_order.splits)
    ultimately show ?thesis using False by (auto simp: bit_gather [OF j])
  qed
qed

text \<open>Whether the levels of the frame break the parity or the stop bit.\<close>

definition frame_broken :: "(nat \<Rightarrow> u64) \<Rightarrow> uart_decoder \<Rightarrow> sample list \<Rightarrow> u64 \<Rightarrow> u64 \<Rightarrow> bool" where
  "frame_broken ticks d line t0 v \<longleftrightarrow>
     ud_parity d \<noteq> No_Parity \<and> ud_check_parity d \<and> \<not> parity_ok (ud_parity d) v (read_bit ticks d line t0 (ud_data_bits d)) \<or>
     stop_quarters (ud_stop_bits d) \<noteq> 0 \<and> \<not> logical d (level_at (ud_invert d) line (stop_time ticks d t0))"

text \<open>The time of the last sample of a frame.\<close>

definition last_time :: "(nat \<Rightarrow> u64) \<Rightarrow> uart_decoder \<Rightarrow> u64 \<Rightarrow> u64" where
  "last_time ticks d t0 =
     (if stop_quarters (ud_stop_bits d) \<noteq> 0 then stop_time ticks d t0
      else sample_time ticks t0 (ud_data_bits d + parity_bits d))"

lemma sample_times:
  assumes "ticks_ok ticks d t0"
  shows "i \<le> j \<Longrightarrow> j \<le> ud_data_bits d + parity_bits d \<Longrightarrow> sample_time ticks t0 i \<le> sample_time ticks t0 j"
    "j \<le> ud_data_bits d + parity_bits d \<Longrightarrow> t0 \<le> sample_time ticks t0 j"
    "j \<le> ud_data_bits d + parity_bits d \<Longrightarrow> sample_time ticks t0 j \<le> last_time ticks d t0"
    "stop_quarters (ud_stop_bits d) \<noteq> 0 \<Longrightarrow> t0 \<le> stop_time ticks d t0"
proof -
  have mono: "t0 + ticks i \<le> t0 + ticks j" if "i \<le> j" "j \<le> frame_quarters d" for i j
    using assms that by (simp add: ticks_ok_def)
  have q: "4 * j + 2 \<le> frame_quarters d" if "j \<le> ud_data_bits d + parity_bits d" for j
    using that by (simp add: frame_quarters_def)
  have s: "4 * (1 + ud_data_bits d + parity_bits d) + min (stop_quarters (ud_stop_bits d)) 4 div 2 \<le> frame_quarters d"
    by (simp add: frame_quarters_def)
  show "i \<le> j \<Longrightarrow> j \<le> ud_data_bits d + parity_bits d \<Longrightarrow> sample_time ticks t0 i \<le> sample_time ticks t0 j"
    unfolding sample_time_def by (rule mono) (use q in auto)
  have zero: "ticks 0 = 0" using assms by (simp add: ticks_ok_def)
  show "j \<le> ud_data_bits d + parity_bits d \<Longrightarrow> t0 \<le> sample_time ticks t0 j"
    using mono [of 0 "4 * j + 2"] q [of j] zero by (simp add: sample_time_def)
  show "stop_quarters (ud_stop_bits d) \<noteq> 0 \<Longrightarrow> t0 \<le> stop_time ticks d t0"
    using mono [OF _ s, of 0] zero by (simp add: stop_time_def)
  show "j \<le> ud_data_bits d + parity_bits d \<Longrightarrow> sample_time ticks t0 j \<le> last_time ticks d t0"
    using mono [of "4 * j + 2" "4 * (ud_data_bits d + parity_bits d) + 2"] q [of "ud_data_bits d + parity_bits d"]
      mono [OF _ s, of "4 * j + 2"]
    by (auto simp: last_time_def sample_time_def stop_time_def)
qed

lemma uart_frame_read:
  assumes "line_ok line t0" "stands m line t0 r" "ticks_ok ticks d t0" "safe m line (last_time ticks d t0)" "0 < ud_data_bits d"
    "v = gather d (read_bit ticks d line t0) [0..<ud_data_bits d] 0"
  shows "\<exists>r'. uart_frame ticks d t0 r =
      Some (Inr (Some (v, map (read_bit ticks d line t0) [0..<ud_data_bits d], frame_broken ticks d line t0 v)), r') \<and>
    stands m line (last_time ticks d t0) r'"
proof -
  note times = sample_times [OF assms(3)]
  have safe: "safe m line t" if "t \<le> last_time ticks d t0" for t using safe_earlier [OF assms(4) that] .
  let ?n = "ud_data_bits d" and ?b = "read_bit ticks d line t0"
  obtain r1 where r1: "uart_bits ticks d t0 0 ?n 0 [] r = Some (Inr (Some (v, map ?b [0..<?n])), r1)"
    "stands m line (sample_time ticks t0 ?n) r1"
    using uart_bits_read [OF assms(1,2), of ?n ticks 0 d 0 "[]"] assms(5,6) times safe by auto
  have line: "line_ok line t" if "t0 \<le> t" for t using assms(1) that by (auto simp: line_ok_def)
  define t2 where "t2 = sample_time ticks t0 (?n + parity_bits d)"
  have t2: "t0 \<le> t2" "t2 \<le> last_time ticks d t0" using times(2,3) by (simp_all add: t2_def)
  obtain r2 where r2: "uart_parity_check ticks d t0 v r1 =
      Some (Inr (Some (ud_parity d \<noteq> No_Parity \<and> ud_check_parity d \<and> \<not> parity_ok (ud_parity d) v (?b ?n))), r2)"
    "stands m line t2 r2"
  proof (cases "ud_parity d = No_Parity")
    case True
    with r1(2) that show ?thesis by (auto simp: uart_parity_check_def t2_def parity_bits_def)
  next
    case False
    then have p: "t2 = sample_time ticks t0 (1 + ?n)" by (simp add: t2_def parity_bits_def)
    have "sample_time ticks t0 ?n \<le> t2" using times(1) by (simp add: t2_def)
    from value_at_stands [OF line r1(2) this safe [OF t2(2)], of "ud_invert d"] times(2)
    obtain r' where "value_at r1 t2 = Some (Inr (Some (level_at (ud_invert d) line t2)), r')" "stands m line t2 r'" by auto
    with False p that show ?thesis by (auto simp: uart_parity_check_def read_bit_def)
  qed
  obtain r3 where r3: "uart_stop_check ticks d t0 r2 =
      Some (Inr (Some (stop_quarters (ud_stop_bits d) \<noteq> 0 \<and> \<not> logical d (level_at (ud_invert d) line (stop_time ticks d t0)))), r3)"
    "stands m line (last_time ticks d t0) r3"
  proof (cases "stop_quarters (ud_stop_bits d) = 0")
    case True
    with r2(2) that show ?thesis by (auto simp: uart_stop_check_def last_time_def t2_def)
  next
    case False
    then have l: "last_time ticks d t0 = stop_time ticks d t0" by (simp add: last_time_def)
    from value_at_stands [OF line [OF t2(1)] r2(2) t2(2) safe, of "ud_invert d"]
    obtain r' where "value_at r2 (last_time ticks d t0) = Some (Inr (Some (level_at (ud_invert d) line (last_time ticks d t0))), r')"
      "stands m line (last_time ticks d t0) r'" by auto
    with False l that show ?thesis by (auto simp: uart_stop_check_def)
  qed
  show ?thesis using r1(1) r2(1) r3 by (simp add: uart_frame_def frame_broken_def)
qed

section \<open>One call\<close>

text \<open>The line of the next frame: the edges that the hunt skips, the start edge, and what follows it.\<close>

definition next_frame :: "uart_decoder \<Rightarrow> sample receiver \<Rightarrow> sample \<Rightarrow> sample list \<Rightarrow> bool" where
  "next_frame d r e post \<longleftrightarrow> ends r \<and>
     (\<exists>pre. stream r = pre @ e # post \<and>
       (\<forall>s\<in>set pre. \<not> (s_value s = ud_invert d \<and> ud_resume_after d \<le> s_start_time_ns s))) \<and>
     s_value e = ud_invert d \<and> ud_resume_after d \<le> s_start_time_ns e \<and>
     (\<forall>s\<in>set post. s_start_time_ns e < s_start_time_ns s) \<and> sorted_by s_start_time_ns post"

lemma hunt_finds:
  assumes "stream r = pre @ e # post" "ends r" "\<forall>s\<in>set pre. \<not> (s_value s = lvl \<and> resume \<le> s_start_time_ns s)"
    "s_value e = lvl" "resume \<le> s_start_time_ns e"
  shows "\<exists>r'. hunt lvl resume r = Some (Inr (s_start_time_ns e), r') \<and> stream r' = e # post \<and> ends r' \<and> \<not> rx_eos r' \<and>
    (marked r' \<longleftrightarrow> marked r)"
  using assms(1-3)
proof (induction pre arbitrary: r)
  case Nil
  then obtain r1 where r1: "recv r = Some (Inr e, r1)" "stream r1 = post" "ends r1"
    using rx.receive_item [of r e post] by auto
  note m = recv_marked [OF r1(1)]
  have "hunt lvl resume r = Some (Inr (s_start_time_ns e), put_back r1 e)"
    using r1 assms(4,5) by (simp add: hunt.simps [of lvl resume r])
  with r1 m show ?case by (auto simp: stream_put_back marked_def put_back_def stream_def ends_def)
next
  case (Cons s pre)
  then obtain r1 where r1: "recv r = Some (Inr s, r1)" "stream r1 = pre @ e # post" "ends r1"
    using rx.receive_item [of r s "pre @ e # post"] by auto
  have "hunt lvl resume r = hunt lvl resume r1" using r1(1) Cons.prems(3) by (auto simp: hunt.simps [of lvl resume r])
  with Cons.IH [OF r1(2,3)] Cons.prems(3) recv_marked [OF r1(1)] show ?case by simp
qed

lemma next_frame_hunt:
  assumes "next_frame d r e post"
  shows "\<exists>r'. hunt (ud_invert d) (ud_resume_after d) r = Some (Inr (s_start_time_ns e), r') \<and>
    stands (marked r) (e # post) (s_start_time_ns e) r'" and "line_ok (e # post) (s_start_time_ns e)"
proof -
  have "line_from (s_start_time_ns e) (e # post) = e # post"
    using assms by (cases post) (auto simp: next_frame_def)
  then show "\<exists>r'. hunt (ud_invert d) (ud_resume_after d) r = Some (Inr (s_start_time_ns e), r') \<and>
    stands (marked r) (e # post) (s_start_time_ns e) r'"
    using assms hunt_finds [of r _ e post "ud_invert d" "ud_resume_after d"]
    by (fastforce simp: next_frame_def stands_def)
  show "line_ok (e # post) (s_start_time_ns e)" using assms by (auto simp: next_frame_def line_ok_def less_imp_le)
qed

text \<open>A sample on the last level of a line whose end is announced loses that level: the frame ends there.\<close>

lemma uart_bits_lost:
  assumes "line_ok line t0" "stands True line t r" "t0 \<le> t" "\<forall>k<n. t \<le> sample_time ticks t0 (1 + (i + k))"
    "\<forall>j k. j \<le> k \<and> k < n \<longrightarrow> sample_time ticks t0 (1 + (i + j)) \<le> sample_time ticks t0 (1 + (i + k))"
    "k + 1 < n" "\<not> safe True line (sample_time ticks t0 (1 + (i + k)))"
  shows "\<exists>r'. uart_bits ticks d t0 i n acc bits r = Some (Inr None, r')"
  using assms(2-)
proof (induction n arbitrary: i t r acc bits k)
  case (Suc n)
  let ?s = "sample_time ticks t0 (1 + i)"
  have line: "line_ok line t" "line_ok line ?s" using assms(1) Suc.prems(2,3) by (auto simp: line_ok_def intro: order_trans)
  have t: "t \<le> ?s" using Suc.prems(3) by auto
  show ?case
  proof (cases "safe True line ?s")
    case True
    from value_at_stands [OF line(1) Suc.prems(1) t True, of "ud_invert d"] obtain r1 where
      r1: "value_at r ?s = Some (Inr (Some (level_at (ud_invert d) line ?s)), r1)" "stands True line ?s r1" by auto
    obtain j where j: "k = Suc j" using True Suc.prems(6) by (cases k) auto
    have shift: "1 + (Suc i + k) = 1 + (i + Suc k)" for k by simp
    have later: "\<forall>k<n. ?s \<le> sample_time ticks t0 (1 + (Suc i + k))"
      unfolding shift using Suc.prems(4) by (metis Suc_less_eq add.right_neutral zero_le)
    have mono: "\<forall>j k. j \<le> k \<and> k < n \<longrightarrow> sample_time ticks t0 (1 + (Suc i + j)) \<le> sample_time ticks t0 (1 + (Suc i + k))"
      unfolding shift using Suc.prems(4) by (metis Suc_le_mono Suc_less_eq)
    have "t0 \<le> ?s" using Suc.prems(2) t by simp
    from Suc.IH [OF r1(2) this later mono, of j] Suc.prems(5,6) j r1(1) show ?thesis by simp
  next
    case False
    let ?xs = "line_from t line"
    have xs: "?xs \<noteq> []" "sorted_by s_start_time_ns ?xs" "s_start_time_ns (hd ?xs) \<le> ?s"
      using line(1) t line_from_sorted line_from_hd [of line t] by (auto simp: line_ok_def)
    have r: "stream r = ?xs" "ends r" "\<not> rx_eos r" "marked r" using Suc.prems(1) by (simp_all add: stands_def)
    have "length (line_from ?s ?xs) = 1"
      unfolding line_from_later [OF t]
      using False line(2) line_from_single [of line ?s] by (auto simp: safe_def line_ok_def not_less)
    with value_at_line [OF r(1) xs r(2,3)] r(4) obtain r1 x where
      r1: "value_at r ?s = Some (Inr (Some x), r1)" "rx_eos r1" by auto
    obtain n' where "n = Suc n'" using Suc.prems(5) by (cases n) auto
    with r1 show ?thesis by (simp add: value_at_ended)
  qed
qed simp

section \<open>The transmitter\<close>

text \<open>
  What a transmitter with the decoder's settings puts on the line, stated without the decoder's functions. A bit
  lasts four quarters, the start bit is cell 0, the data bits follow in the order of the setting.
\<close>

definition sent_cells :: "bit_order \<Rightarrow> nat \<Rightarrow> u64 \<Rightarrow> bool list" where
  "sent_cells order n v = (case order of LsbFirst \<Rightarrow> map (bit v) [0..<n] | MsbFirst \<Rightarrow> rev (map (bit v) [0..<n]))"

definition line_level :: "bool \<Rightarrow> bool \<Rightarrow> bool" where
  "line_level inverted b = (if inverted then \<not> b else b)"

definition cell_middle :: "(nat \<Rightarrow> u64) \<Rightarrow> u64 \<Rightarrow> nat \<Rightarrow> u64" where
  "cell_middle ticks t0 k = t0 + ticks (4 * k + 2)"

definition has_parity :: "uart_decoder \<Rightarrow> bool" where
  "has_parity d \<longleftrightarrow> ud_parity d \<in> {Odd, Even, Mark, Space}"

text \<open>The number of cells before the stop bits, and the stop bits in quarters: the middle of the first and their length.\<close>

definition cells_before_stop :: "uart_decoder \<Rightarrow> nat" where
  "cells_before_stop d = 1 + ud_data_bits d + of_bool (has_parity d)"

definition stop_cell :: "uart_stop_bits \<Rightarrow> (nat \<times> nat) option" where
  "stop_cell s = (case s of S0 \<Rightarrow> None | S0_5 \<Rightarrow> Some (1, 2) | S1 \<Rightarrow> Some (2, 4) | S1_5 \<Rightarrow> Some (2, 6) | S2 \<Rightarrow> Some (2, 8))"

definition stop_middle :: "(nat \<Rightarrow> u64) \<Rightarrow> uart_decoder \<Rightarrow> u64 \<Rightarrow> u64 option" where
  "stop_middle ticks d t0 = map_option (\<lambda>(q, _). t0 + ticks (4 * cells_before_stop d + q)) (stop_cell (ud_stop_bits d))"

definition frame_length :: "uart_decoder \<Rightarrow> nat" where
  "frame_length d = 4 * cells_before_stop d + (case stop_cell (ud_stop_bits d) of None \<Rightarrow> 0 | Some (_, n) \<Rightarrow> n)"

definition last_sample :: "(nat \<Rightarrow> u64) \<Rightarrow> uart_decoder \<Rightarrow> u64 \<Rightarrow> u64" where
  "last_sample ticks d t0 = (case stop_middle ticks d t0 of None \<Rightarrow> cell_middle ticks t0 (cells_before_stop d - 1) | Some t \<Rightarrow> t)"

text \<open>A parity is wrong when the ones among the data cells and the parity cell have the other parity.\<close>

definition parity_wrong :: "uart_parity \<Rightarrow> bool list \<Rightarrow> bool \<Rightarrow> bool" where
  "parity_wrong parity cells p =
     (case parity of
        Odd \<Rightarrow> even (count_list (cells @ [p]) True)
      | Even \<Rightarrow> odd (count_list (cells @ [p]) True)
      | Mark \<Rightarrow> \<not> p
      | Space \<Rightarrow> p
      | No_Parity \<Rightarrow> False)"

lemma sent_cells_nth: "k < ud_data_bits d \<Longrightarrow> sent_cells (ud_bit_order d) (ud_data_bits d) v ! k = bit v (bit_position d k)"
  by (auto simp: sent_cells_def bit_position_def rev_nth split: bit_order.split)

lemma length_sent_cells [simp]: "length (sent_cells order n v) = n"
  by (auto simp: sent_cells_def split: bit_order.split)

lemma logical_line_level: "logical d (line_level (ud_invert d) b) = b"
  by (auto simp: logical_def line_level_def)

lemma count_list_filter: "count_list (map f xs) True = length (filter f xs)"
  by (induction xs) auto

lemma count_list_rev: "count_list (rev xs) x = count_list xs x"
  by (induction xs) auto

lemma count_sent_cells:
  assumes "v < 2 ^ n" "n \<le> 64"
  shows "count_list (sent_cells order n v) True = count_ones v"
proof -
  have "[0..<64] = [0..<n] @ [n..<64]" using assms(2) upt_add_eq_append [of 0 n "64 - n"] by simp
  moreover have "filter (bit v) [n..<64] = []" using bit_beyond [OF assms(1)] by (auto simp: filter_empty_conv)
  ultimately have "count_ones v = length (filter (bit v) [0..<n])" by (simp add: count_ones_def)
  then show ?thesis by (simp add: sent_cells_def count_list_rev count_list_filter split: bit_order.split)
qed

lemma parity_ok_wrong:
  assumes "v < 2 ^ n" "n \<le> 64"
  shows "parity_ok parity v p \<longleftrightarrow> \<not> parity_wrong parity (sent_cells order n v) p"
  using count_sent_cells [OF assms, of order]
  by (cases parity; cases p) (simp_all add: parity_ok_def parity_wrong_def Let_def)

lemma transmitter_times:
  "stop_middle ticks d t0 = (if stop_quarters (ud_stop_bits d) = 0 then None else Some (stop_time ticks d t0))"
  "frame_length d = frame_quarters d" "last_sample ticks d t0 = last_time ticks d t0" "has_parity d \<longleftrightarrow> ud_parity d \<noteq> No_Parity"
proof -
  show parity: "has_parity d \<longleftrightarrow> ud_parity d \<noteq> No_Parity" by (cases "ud_parity d") (simp_all add: has_parity_def)
  then have cells: "cells_before_stop d = 1 + ud_data_bits d + parity_bits d" by (simp add: cells_before_stop_def parity_bits_def)
  show stop: "stop_middle ticks d t0 = (if stop_quarters (ud_stop_bits d) = 0 then None else Some (stop_time ticks d t0))"
    by (cases "ud_stop_bits d") (simp_all add: stop_middle_def stop_cell_def stop_quarters_def stop_time_def cells)
  show "frame_length d = frame_quarters d"
    by (cases "ud_stop_bits d") (simp_all add: frame_length_def stop_cell_def stop_quarters_def frame_quarters_def cells)
  show "last_sample ticks d t0 = last_time ticks d t0"
    by (simp add: last_sample_def last_time_def stop cell_middle_def sample_time_def cells)
qed

section \<open>Properties\<close>

text \<open>
  C8: A frame on the line is decoded. Take a line whose next start edge opens a frame as a transmitter
  with the decoder's settings sends it: in the middle of each data cell the line shows the bit of the value in
  the configured order and polarity. Then one call emits the word with that value, spanning the frame from the
  start edge, and a word for each cell; it emits an error event exactly when the parity cell makes the
  number of ones wrong, where parity is checked, or the middle of the first stop bit is not the idle level. It
  hunts on a quarter bit before the end of the frame and keeps the rest of the line. The line may end after the
  frame if the sender just disconnects; if the end is announced by a marker, an edge has to follow the last
  sample.
\<close>
theorem uart_frame_decoded:
  assumes "ux_rx c = Some rx" "d = ux_node c" "next_frame d rx e post" "t0 = s_start_time_ns e" "ticks_ok ticks d t0"
    and "marked rx \<longrightarrow> (\<exists>s\<in>set post. last_sample ticks d t0 < s_start_time_ns s)"
    and "0 < ud_data_bits d" "ud_data_bits d \<le> 64" "v < 2 ^ ud_data_bits d"
    and "cells = sent_cells (ud_bit_order d) (ud_data_bits d) v"
    and "\<forall>k<ud_data_bits d. level_at (ud_invert d) (e # post) (cell_middle ticks t0 (1 + k)) = line_level (ud_invert d) (cells ! k)"
    and "has_parity d \<longrightarrow> level_at (ud_invert d) (e # post) (cell_middle ticks t0 (1 + ud_data_bits d)) = line_level (ud_invert d) p"
    and "\<forall>t. stop_middle ticks d t0 = Some t \<longrightarrow> level_at (ud_invert d) (e # post) t = line_level (ud_invert d) stop"
    and "broken \<longleftrightarrow> ud_check_parity d \<and> parity_wrong (ud_parity d) cells p \<or> stop_middle ticks d t0 \<noteq> None \<and> \<not> stop"
    and "accepting (ux_words c)" "accepting (ux_error c)" "accepting (ux_bits c)" "accepting (ux_frame c)"
  shows "\<exists>c' r'. uart_work ticks c = Some (Inr 1, c') \<and>
    log_of (ux_words c') = log_of (ux_words c) @ [word_spanning v t0 (ticks (frame_length d))] \<and>
    log_of (ux_bits c') = log_of (ux_bits c) @
      map (\<lambda>k. word_spanning (of_bool (cells ! k)) (t0 + ticks (4 * (1 + k))) (ticks 4)) [0..<ud_data_bits d] \<and>
    log_of (ux_error c') = log_of (ux_error c) @ (if broken then [timestamp_event_new t0] else []) \<and>
    ud_resume_after (ux_node c') = t0 + ticks (frame_length d - 1) \<and>
    ux_rx c' = Some r' \<and> stream r' = line_from (last_sample ticks d t0) (e # post) \<and> marked r' = marked rx"
proof -
  note spec = transmitter_times
  obtain r where r: "hunt (ud_invert d) (ud_resume_after d) rx = Some (Inr t0, r)" "stands (marked rx) (e # post) t0 r"
    and line: "line_ok (e # post) t0"
    using next_frame_hunt [OF assms(3)] assms(4) by auto
  have safe: "safe (marked rx) (e # post) (last_time ticks d t0)" using assms(6) by (auto simp: safe_def spec)
  have bits: "read_bit ticks d (e # post) t0 k = cells ! k" if "k < ud_data_bits d" for k
    using assms(11) that by (simp add: read_bit_def sample_time_def cell_middle_def logical_line_level)
  have v: "v = gather d (read_bit ticks d (e # post) t0) [0..<ud_data_bits d] 0"
    using gather_word [OF _ assms(9,8), of "read_bit ticks d (e # post) t0"] bits sent_cells_nth assms(10) by simp
  have parity: "read_bit ticks d (e # post) t0 (ud_data_bits d) = p" if "ud_parity d \<noteq> No_Parity"
    using assms(12) that by (simp add: read_bit_def sample_time_def cell_middle_def logical_line_level spec)
  have stop: "logical d (level_at (ud_invert d) (e # post) (stop_time ticks d t0)) = stop" if "stop_quarters (ud_stop_bits d) \<noteq> 0"
    using assms(13) that by (simp add: logical_line_level spec)
  have wrong: "\<not> parity_ok (ud_parity d) v p \<longleftrightarrow> parity_wrong (ud_parity d) cells p"
    unfolding assms(10) using parity_ok_wrong [OF assms(9,8), of "ud_parity d" p "ud_bit_order d"] by blast
  have broken: "frame_broken ticks d (e # post) t0 v = broken"
    using parity stop wrong assms(14) unfolding frame_broken_def spec by (cases "ud_parity d = No_Parity") (auto simp: parity_wrong_def)
  from uart_frame_read [OF line r(2) assms(5) safe assms(7) v] obtain r' where
    r': "uart_frame ticks d t0 r = Some (Inr (Some (v, map (\<lambda>k. cells ! k) [0..<ud_data_bits d], broken)), r')"
      "stands (marked rx) (e # post) (last_time ticks d t0) r'" using bits by (auto simp: broken cong: map_cong)
  obtain p1 p2 p3 p4 where p: "ux_words c = Some p1" "ux_error c = Some p2" "ux_bits c = Some p3" "ux_frame c = Some p4"
    "open_port p1" "open_port p2" "open_port p3" "open_port p4"
    using assms(15-18) by (auto simp: accepting_def)
  have "uart_work ticks c = Some (uart_emit ticks t0 v (map (\<lambda>k. cells ! k) [0..<ud_data_bits d]) broken r' c)"
    using r(1) r'(1) assms(1,2) by (simp add: uart_work_def)
  moreover have "stream r' = line_from (last_time ticks d t0) (e # post)" "marked r' = marked rx"
    using r'(2) by (auto simp: stands_def)
  moreover have "bit_annotations ticks t0 (map (\<lambda>k. cells ! k) [0..<ud_data_bits d]) =
      map (\<lambda>k. word_spanning (of_bool (cells ! k)) (t0 + ticks (4 * (1 + k))) (ticks 4)) [0..<ud_data_bits d]"
    by (rule nth_equalityI) (simp_all add: bit_annotations_def nth_enumerate_eq of_bool_def)
  ultimately show ?thesis
    using p assms(2) by (simp add: uart_emit_def send_opt_def send_batch_opt_def port_simps Let_def spec)
qed

text \<open>
  C26: The last frame of an announced end is lost. When a marker ends the stream and no edge comes
  after the middle of a data bit other than the last one, because the line stays idle, the level that was put
  back after the marker had been seen is gone: the call reports the shutdown and emits nothing,
  although the same frame is decoded when the sender disconnects without a marker.
\<close>
theorem uart_announced_end_loses_frame:
  assumes "ux_rx c = Some rx" "d = ux_node c" "next_frame d rx e post" "t0 = s_start_time_ns e" "ticks_ok ticks d t0"
    and "marked rx" "k + 1 < ud_data_bits d" "\<forall>s\<in>set (e # post). s_start_time_ns s \<le> sample_time ticks t0 (1 + k)"
  shows "\<exists>c'. uart_work ticks c = Some (Inl Shutdown, c') \<and> ud_finished (ux_node c') \<and>
    ux_words c' = ux_words c \<and> ux_error c' = ux_error c \<and> ux_bits c' = ux_bits c \<and> ux_frame c' = ux_frame c"
proof -
  obtain r where r: "hunt (ud_invert d) (ud_resume_after d) rx = Some (Inr t0, r)" "stands True (e # post) t0 r"
    and line: "line_ok (e # post) t0"
    using next_frame_hunt [OF assms(3)] assms(4,6) by auto
  note times = sample_times [OF assms(5)]
  have "\<not> safe True (e # post) (sample_time ticks t0 (1 + (0 + k)))" using assms(8) by (auto simp: safe_def not_less)
  then obtain r' where "uart_bits ticks d t0 0 (ud_data_bits d) 0 [] r = Some (Inr None, r')"
    using uart_bits_lost [OF line r(2), of "ud_data_bits d" ticks 0 k d 0 "[]"] assms(7) times by auto
  then have "uart_frame ticks d t0 r = Some (Inr None, r')" by (simp add: uart_frame_def)
  with r(1) assms(1,2) show ?thesis by (simp add: uart_work_def)
qed

text \<open>One megabaud, five data bits: the line falls at 1000 and rises at 2000 to stay, the value 31.\<close>

definition example_ticks :: "nat \<Rightarrow> u64" where
  "example_ticks q = of_nat (250 * q)"

definition example_uart :: uart_decoder where
  "example_uart = the (uart_decoder_new 1000000 5)"

definition example_rx :: "sample channel_message list \<Rightarrow> sample receiver" where
  "example_rx rest = \<lparr>rx_queue = [Sample_Message (sample_new True 0), Sample_Message (sample_new False 1000),
     Sample_Message (sample_new True 2000)] @ rest, rx_connected = False, rx_buffer = [], rx_eos = False\<rparr>"

definition example_uart_ctx :: "sample channel_message list \<Rightarrow> uart_ctx" where
  "example_uart_ctx rest = \<lparr>ux_node = example_uart, ux_rx = Some (example_rx rest),
     ux_words = Some \<lparr>sent = [], open_port = True\<rparr>, ux_error = Some \<lparr>sent = [], open_port = True\<rparr>,
     ux_bits = Some \<lparr>sent = [], open_port = True\<rparr>, ux_frame = Some \<lparr>sent = [], open_port = True\<rparr>\<rparr>"

lemma example_uart_fields [simp]:
  "ud_data_bits example_uart = 5" "ud_invert example_uart = False" "ud_resume_after example_uart = 0"
  "ud_parity example_uart = No_Parity" "ud_stop_bits example_uart = S1" "ud_bit_order example_uart = LsbFirst"
  "frame_quarters example_uart = 28" "parity_bits example_uart = 0"
  by (simp_all add: example_uart_def uart_decoder_new_def frame_quarters_def parity_bits_def stop_quarters_def)

lemma example_ticks_ok:
  assumes "frame_quarters d \<le> 40"
  shows "ticks_ok example_ticks d 1000"
proof -
  have *: "unat (1000 + 250 * of_nat i :: u64) = 1000 + 250 * i" if "i \<le> 40" for i
  proof -
    have "unat (of_nat (1000 + 250 * i) :: u64) = 1000 + 250 * i" unfolding unat_of_nat using that by simp
    then show ?thesis by simp
  qed
  show ?thesis unfolding ticks_ok_def example_ticks_def
    using assms by (auto simp: word_le_nat_alt *)
qed

lemma example_next_frame:
  "next_frame example_uart (example_rx rest) (sample_new False 1000) (sample_new True 2000 # queue_items rest)"
  if "queue_items rest = []" for rest
  using that
  by (auto simp: next_frame_def example_rx_def stream_def ends_def sample_new_def intro!: exI [of _ "[sample_new True 0]"])

text \<open>With odd parity checked, the cells 1 1 0 0 0 are the value 3, and the parity cell is 1.\<close>

definition example_parity_ctx :: uart_ctx where
  "example_parity_ctx = (example_uart_ctx [])\<lparr>ux_node := uart_with_parity example_uart Odd True,
     ux_rx := Some \<lparr>rx_queue = map Sample_Message [sample_new True 0, sample_new False 1000, sample_new True 2000,
       sample_new False 4000, sample_new True 7000], rx_connected = False, rx_buffer = [], rx_eos = False\<rparr>\<rparr>"

lemma example_parity_fields:
  "ud_data_bits (ux_node example_parity_ctx) = 5" "ud_invert (ux_node example_parity_ctx) = False"
  "ud_resume_after (ux_node example_parity_ctx) = 0" "ud_bit_order (ux_node example_parity_ctx) = LsbFirst"
  "ud_parity (ux_node example_parity_ctx) = Odd" "ud_check_parity (ux_node example_parity_ctx)"
  "ud_stop_bits (ux_node example_parity_ctx) = S1" "frame_length (ux_node example_parity_ctx) = 32"
  by (simp_all add: example_parity_ctx_def uart_with_parity_def frame_length_def cells_before_stop_def has_parity_def stop_cell_def)

theorem uart_frame_decoded_witness:
  "\<exists>c'. uart_work example_ticks example_parity_ctx = Some (Inr 1, c') \<and>
     log_of (ux_words c') = [word_spanning 3 1000 8000] \<and> log_of (ux_error c') = []"
proof -
  let ?c = example_parity_ctx and ?e = "sample_new False 1000" and ?post = "[sample_new True 2000, sample_new False 4000, sample_new True 7000]"
  have rx: "ux_rx ?c = Some (the (ux_rx ?c))" "\<not> marked (the (ux_rx ?c))" by (simp_all add: example_parity_ctx_def marked_def)
  have frame: "next_frame (ux_node ?c) (the (ux_rx ?c)) ?e ?post"
    by (simp add: next_frame_def example_parity_fields) (auto simp: example_parity_ctx_def stream_def ends_def sample_new_def
        intro!: exI [of _ "[sample_new True 0]"])
  have ticks: "ticks_ok example_ticks (ux_node ?c) 1000"
    by (rule example_ticks_ok) (simp add: transmitter_times(2) [symmetric] example_parity_fields)
  have cells: "sent_cells LsbFirst 5 3 = [True, True, False, False, False]" by code_simp
  have bits: "\<forall>k<5. level_at False (?e # ?post) (cell_middle example_ticks 1000 (1 + k)) = line_level False ([True, True, False, False, False] ! k)"
    by code_simp
  have parity: "level_at False (?e # ?post) (cell_middle example_ticks 1000 6) = line_level False True" by code_simp
  have stop: "stop_middle example_ticks (ux_node ?c) 1000 = Some 8500"
    by (simp add: stop_middle_def stop_cell_def cells_before_stop_def has_parity_def example_parity_fields example_ticks_def)
  have idle: "level_at False (?e # ?post) 8500 = line_level False True" by code_simp
  have ports: "accepting (ux_words ?c)" "accepting (ux_error ?c)" "accepting (ux_bits ?c)" "accepting (ux_frame ?c)"
    "log_of (ux_words ?c) = []" "log_of (ux_error ?c) = []"
    by (simp_all add: example_parity_ctx_def example_uart_ctx_def)
  have "\<not> parity_wrong Odd [True, True, False, False, False] True" by (simp add: parity_wrong_def)
  then show ?thesis
    using uart_frame_decoded [OF rx(1) refl frame _ ticks, of 3 "sent_cells LsbFirst 5 3" True True False]
      rx(2) bits parity stop idle ports by (auto simp: example_parity_fields cells sample_new_def example_ticks_def)
qed

theorem uart_announced_end_loses_frame_witness:
  "\<exists>c'. uart_work example_ticks (example_uart_ctx [EndOfStream]) = Some (Inl Shutdown, c') \<and> log_of (ux_words c') = []"
proof -
  let ?e = "sample_new False 1000" and ?post = "[sample_new True 2000]"
  have frame: "next_frame example_uart (example_rx [EndOfStream]) ?e ?post" using example_next_frame [of "[EndOfStream]"] by simp
  have "marked (example_rx [EndOfStream])" by (simp add: marked_def example_rx_def)
  with uart_announced_end_loses_frame [of "example_uart_ctx [EndOfStream]" "example_rx [EndOfStream]" example_uart ?e ?post 1000 example_ticks 0]
    frame example_ticks_ok [of example_uart]
  show ?thesis by (auto simp: example_uart_ctx_def sample_new_def example_ticks_def sample_time_def)
qed

end
