(* ===== verification/Spi_Decoder.thy ===== *)
theory Spi_Decoder
  imports Uart_Decoder
begin

text \<open>
  The SPI decoder, \<^verbatim>\<open>crates/logic_analyzer_protocol_decoders/src/spi_decoder/decoder.rs\<close>, on streamed lines: it
  finds the window in which the chip select is active, reads the clock inside it, samples the data lines
  just before each sampling edge, and packs the bits into words and the words into a transaction. No sampling
  points are recorded. \<open>None\<close> is a call that blocks for ever.
\<close>

section \<open>State\<close>

datatype spi_mode = Mode0 | Mode1 | Mode2 | Mode3

datatype cs_polarity = ActiveLow | ActiveHigh | Disabled

record spi_decoder =
  sd_name :: string
  sd_mode :: spi_mode
  sd_bits_per_word :: nat
  sd_has_mosi :: bool
  sd_has_miso :: bool
  sd_cs_polarity :: cs_polarity
  sd_bit_order :: bit_order
  sd_prev_clk :: bool
  sd_tx_count :: u64

definition spi_with_cs_polarity :: "spi_mode \<Rightarrow> nat \<Rightarrow> bool \<Rightarrow> bool \<Rightarrow> cs_polarity \<Rightarrow> spi_decoder" where
  "spi_with_cs_polarity mode bits_per_word has_mosi has_miso polarity =
     \<lparr>sd_name = ''spi_decoder'', sd_mode = mode, sd_bits_per_word = bits_per_word, sd_has_mosi = has_mosi,
      sd_has_miso = has_miso, sd_cs_polarity = polarity, sd_bit_order = MsbFirst, sd_prev_clk = False, sd_tx_count = 0\<rparr>"

definition spi_decoder_new :: "spi_mode \<Rightarrow> nat \<Rightarrow> bool \<Rightarrow> bool \<Rightarrow> spi_decoder" where
  "spi_decoder_new mode bits_per_word has_mosi has_miso =
     spi_with_cs_polarity mode bits_per_word has_mosi has_miso ActiveLow"

definition spi_with_name :: "spi_decoder \<Rightarrow> string \<Rightarrow> spi_decoder" where
  "spi_with_name d name = d\<lparr>sd_name := name\<rparr>"

definition spi_with_bit_order :: "spi_decoder \<Rightarrow> bit_order \<Rightarrow> spi_decoder" where
  "spi_with_bit_order d bit_order = d\<lparr>sd_bit_order := bit_order\<rparr>"

definition samples_on_rising :: "spi_decoder \<Rightarrow> bool" where
  "samples_on_rising d \<longleftrightarrow> sd_mode d = Mode0 \<or> sd_mode d = Mode3"

definition cs_is_active :: "cs_polarity \<Rightarrow> bool \<Rightarrow> bool" where
  "cs_is_active polarity v = (case polarity of ActiveLow \<Rightarrow> \<not> v | ActiveHigh \<Rightarrow> v | Disabled \<Rightarrow> True)"

record spi_ctx =
  sx_node :: spi_decoder
  sx_cs :: "sample receiver option"
  sx_clk :: "sample receiver option"
  sx_mosi :: "sample receiver option"
  sx_miso :: "sample receiver option"
  sx_mosi_words :: "decoded_word out_port option"
  sx_mosi_bits :: "decoded_word out_port option"
  sx_mosi_data :: "decoded_word out_port option"
  sx_miso_words :: "decoded_word out_port option"
  sx_miso_bits :: "decoded_word out_port option"
  sx_miso_data :: "decoded_word out_port option"
  sx_transactions :: "protocol_packet out_port option"

definition spi_input_schema :: "spi_decoder \<Rightarrow> port_schema list" where
  "spi_input_schema d =
     map (with_protocols [Edge_Query_Protocol, Stream_Protocol])
       ([port_schema_state ''Sample'' ''cs'' 0 Input, port_schema_state ''Sample'' ''clk'' 1 Input] @
        (if sd_has_mosi d then [port_schema_state ''Sample'' ''mosi'' 2 Input] else []) @
        (if sd_has_miso d then [port_schema_state ''Sample'' ''miso'' (2 + of_bool (sd_has_mosi d)) Input] else []))"

definition spi_output_schema :: "port_schema list" where
  "spi_output_schema =
     map (\<lambda>(index, name). with_default_buffer_capacity 8 (port_schema_new ''Word'' name index Output))
       (enumerate 0 [''mosi_words'', ''mosi_bits'', ''mosi_data'', ''miso_words'', ''miso_bits'', ''miso_data'']) @
     [port_schema_new ''ProtocolPacket'' ''transactions'' 6 Output]"

section \<open>Packets and annotations\<close>

definition SPI_TRANSACTION_PROTOCOL_ID :: string where
  "SPI_TRANSACTION_PROTOCOL_ID = ''org.logicconduit.spi-transaction/v1''"

record spi_transaction =
  st_start_sample :: u64
  st_end_sample :: u64
  st_start_time_ns :: u64
  st_end_time_ns :: u64
  st_word_bits :: nat
  st_mosi_words :: "u64 list"
  st_miso_words :: "u64 list"
  st_has_mosi :: bool
  st_has_miso :: bool
  st_incomplete_bits :: nat
  st_cs_deasserted :: bool

definition words_value :: "bool \<Rightarrow> u64 list \<Rightarrow> protocol_value" where
  "words_value present values = (if present then PList (map (\<lambda>v. PInteger (uint v)) values) else Null)"

definition spi_diagnostics :: "spi_transaction \<Rightarrow> protocol_value list" where
  "spi_diagnostics t =
     (if 0 < st_incomplete_bits t
      then [PString (''incomplete word: '' @ show_nat (st_incomplete_bits t) @ ''/'' @ show_nat (st_word_bits t) @ '' bits'')]
      else []) @
     (if st_cs_deasserted t then [] else [PString ''chip select remained active at end of capture''])"

definition spi_transaction_packet :: "spi_transaction \<Rightarrow> protocol_packet" where
  "spi_transaction_packet t =
     \<lparr>pk_start_sample = st_start_sample t, pk_end_sample = st_end_sample t, pk_start_time_ns = st_start_time_ns t,
      pk_end_time_ns = st_end_time_ns t, pk_protocol_id = SPI_TRANSACTION_PROTOCOL_ID,
      pk_value = PMapping
        [(''complete'', PBool (st_incomplete_bits t = 0 \<and> st_cs_deasserted t)),
         (''diagnostics'', PList (spi_diagnostics t)),
         (''incomplete_bits'', PInteger (int (st_incomplete_bits t))),
         (''miso'', words_value (st_has_miso t) (st_miso_words t)),
         (''mosi'', words_value (st_has_mosi t) (st_mosi_words t)),
         (''word_bits'', PInteger (int (st_word_bits t)))]\<rparr>"

text \<open>The cell of a bit reaches half way to its neighbours.\<close>

definition cell_start :: "u64 list \<Rightarrow> nat \<Rightarrow> u64" where
  "cell_start timestamps index =
     (if length timestamps = 1 then timestamps ! 0
      else if index = 0 then saturating_sub (timestamps ! 0) ((timestamps ! 1 - timestamps ! 0) div 2)
      else timestamps ! (index - 1) + (timestamps ! index - timestamps ! (index - 1)) div 2)"

definition cell_end :: "u64 list \<Rightarrow> nat \<Rightarrow> u64" where
  "cell_end timestamps index =
     (if length timestamps = 1 then saturating_add (timestamps ! 0) 1
      else if index + 1 = length timestamps
      then saturating_add (timestamps ! index)
             (of_nat (div_ceil (unat (timestamps ! index - timestamps ! (index - 1))) 2))
      else timestamps ! index + (timestamps ! (index + 1) - timestamps ! index) div 2)"

definition spi_word_annotations :: "u64 \<Rightarrow> bool list \<Rightarrow> u64 list \<Rightarrow> (decoded_word list \<times> decoded_word) option" where
  "spi_word_annotations v bit_values timestamps =
     (if length bit_values \<noteq> length timestamps \<or> timestamps = [] then None
      else
        let start = cell_start timestamps 0; stop = cell_end timestamps (length timestamps - 1)
        in Some (map (\<lambda>(index, b). word_spanning (of_bool b) (cell_start timestamps index)
                   (max (saturating_sub (cell_end timestamps index) (cell_start timestamps index)) 1)) (enumerate 0 bit_values),
                 word_spanning v start (max (saturating_sub stop start) 1)))"

section \<open>Sampling\<close>

function value_at_time :: "sample receiver \<Rightarrow> u64 \<Rightarrow> (bool option work_result \<times> sample receiver) option" where
  "value_at_time r timestamp =
     (case recv r of
        None \<Rightarrow> None
      | Some (Inl e, r1) \<Rightarrow> Some (if e = Shutdown then Inr None else Inl e, r1)
      | Some (Inr current, r1) \<Rightarrow>
          (case peek r1 of
             None \<Rightarrow> None
           | Some (Inr following, r2) \<Rightarrow>
               if s_start_time_ns current \<le> timestamp \<and> timestamp < s_start_time_ns following
               then Some (Inr (Some (s_value current)), put_back r2 current)
               else value_at_time r2 timestamp
           | Some (Inl e, r2) \<Rightarrow>
               if e = Shutdown
               then if s_start_time_ns current \<le> timestamp
                    then Some (Inr (Some (s_value current)), put_back r2 current) else Some (Inr None, r2)
               else Some (Inl e, r2)))"
  by pat_completeness auto
termination
  by (relation "measure (\<lambda>(r, _). length (stream r))") (auto dest: recv_peek_shorter)

declare value_at_time.simps [simp del]

text \<open>One data line at a time; a line that has ended shuts the decoder down.\<close>

definition sample_line :: "sample receiver option \<Rightarrow> u64 \<Rightarrow> (bool option work_result \<times> sample receiver option) option" where
  "sample_line line t =
     (case line of
        None \<Rightarrow> Some (Inr None, None)
      | Some r \<Rightarrow>
          (case value_at_time r t of
             None \<Rightarrow> None
           | Some (Inl e, r1) \<Rightarrow> Some (Inl e, Some r1)
           | Some (Inr None, r1) \<Rightarrow> Some (Inl Shutdown, Some r1)
           | Some (Inr (Some v), r1) \<Rightarrow> Some (Inr (Some v), Some r1)))"

section \<open>The word loop\<close>

record spi_bits =
  sb_mosi_word :: u64
  sb_miso_word :: u64
  sb_collected :: nat
  sb_span :: "(u64 \<times> u64) option"
  sb_timestamps :: "u64 list"
  sb_mosi_bits :: "bool list"
  sb_miso_bits :: "bool list"

definition no_bits :: spi_bits where
  "no_bits = \<lparr>sb_mosi_word = 0, sb_miso_word = 0, sb_collected = 0, sb_span = None, sb_timestamps = [],
     sb_mosi_bits = [], sb_miso_bits = []\<rparr>"

record spi_batches =
  bt_mosi :: "decoded_word list"
  bt_miso :: "decoded_word list"
  bt_mosi_bits :: "decoded_word list"
  bt_mosi_data :: "decoded_word list"
  bt_miso_bits :: "decoded_word list"
  bt_miso_data :: "decoded_word list"
  bt_mosi_words :: "u64 list"
  bt_miso_words :: "u64 list"
  bt_count :: nat

definition no_batches :: spi_batches where
  "no_batches = \<lparr>bt_mosi = [], bt_miso = [], bt_mosi_bits = [], bt_mosi_data = [], bt_miso_bits = [], bt_miso_data = [],
     bt_mosi_words = [], bt_miso_words = [], bt_count = 0\<rparr>"

text \<open>The shift of a bit; shifts are taken modulo the width.\<close>

definition spi_bit_position :: "spi_decoder \<Rightarrow> nat \<Rightarrow> nat" where
  "spi_bit_position d bit_index =
     (case sd_bit_order d of
        MsbFirst \<Rightarrow> unat (of_nat (sd_bits_per_word d) - 1 - of_nat bit_index :: u64) mod 64
      | LsbFirst \<Rightarrow> bit_index mod 64)"

record spi_config =
  sc_node :: spi_decoder
  sc_need_mosi :: bool
  sc_need_miso :: bool
  sc_start :: u64
  sc_stop :: u64

definition set_bit_if :: "bool option \<Rightarrow> nat \<Rightarrow> u64 \<Rightarrow> u64" where
  "set_bit_if v position w = (if v = Some True then w OR push_bit position 1 else w)"

definition record_bit :: "spi_config \<Rightarrow> u64 \<Rightarrow> bool option \<Rightarrow> bool option \<Rightarrow> spi_bits \<Rightarrow> spi_bits" where
  "record_bit cfg t mosi miso b =
     (let position = spi_bit_position (sc_node cfg) (sb_collected b)
      in b\<lparr>sb_mosi_word := set_bit_if mosi position (sb_mosi_word b),
           sb_miso_word := set_bit_if miso position (sb_miso_word b),
           sb_collected := sb_collected b + 1,
           sb_span := Some (case sb_span b of None \<Rightarrow> (t, t) | Some (first, _) \<Rightarrow> (first, t)),
           sb_timestamps := (if sc_need_mosi cfg \<or> sc_need_miso cfg then sb_timestamps b @ [t] else sb_timestamps b),
           sb_mosi_bits := (case mosi of Some v \<Rightarrow> if sc_need_mosi cfg then sb_mosi_bits b @ [v] else sb_mosi_bits b
                            | None \<Rightarrow> sb_mosi_bits b),
           sb_miso_bits := (case miso of Some v \<Rightarrow> if sc_need_miso cfg then sb_miso_bits b @ [v] else sb_miso_bits b
                            | None \<Rightarrow> sb_miso_bits b)\<rparr>)"

definition emit_word :: "spi_config \<Rightarrow> spi_bits \<Rightarrow> spi_batches \<Rightarrow> spi_batches" where
  "emit_word cfg b out =
     (let (timestamp, last_edge) = (case sb_span b of None \<Rightarrow> (sc_start cfg, sc_start cfg) | Some s \<Rightarrow> s);
          duration = saturating_sub last_edge timestamp;
          d = sc_node cfg;
          mosi_notes = spi_word_annotations (sb_mosi_word b) (sb_mosi_bits b) (sb_timestamps b);
          miso_notes = spi_word_annotations (sb_miso_word b) (sb_miso_bits b) (sb_timestamps b)
      in \<lparr>bt_mosi = bt_mosi out @ [word_spanning (sb_mosi_word b) timestamp duration],
          bt_miso = bt_miso out @ [word_spanning (sb_miso_word b) timestamp duration],
          bt_mosi_bits = bt_mosi_bits out @ (case mosi_notes of None \<Rightarrow> [] | Some (bits, _) \<Rightarrow> bits),
          bt_mosi_data = bt_mosi_data out @ (case mosi_notes of None \<Rightarrow> [] | Some (_, data) \<Rightarrow> [data]),
          bt_miso_bits = bt_miso_bits out @ (case miso_notes of None \<Rightarrow> [] | Some (bits, _) \<Rightarrow> bits),
          bt_miso_data = bt_miso_data out @ (case miso_notes of None \<Rightarrow> [] | Some (_, data) \<Rightarrow> [data]),
          bt_mosi_words = (if sd_has_mosi d then bt_mosi_words out @ [sb_mosi_word b] else bt_mosi_words out),
          bt_miso_words = (if sd_has_miso d then bt_miso_words out @ [sb_miso_word b] else bt_miso_words out),
          bt_count = bt_count out + 1\<rparr>)"

text \<open>After a sampling edge: the bit is recorded, and a full word is emitted and a new one begun.\<close>

definition absorb_bit :: "spi_config \<Rightarrow> u64 \<Rightarrow> bool option \<Rightarrow> bool option \<Rightarrow> spi_bits \<times> spi_batches \<Rightarrow> spi_bits \<times> spi_batches" where
  "absorb_bit cfg t mosi miso s =
     (let b = record_bit cfg t mosi miso (fst s); n = sd_bits_per_word (sc_node cfg)
      in if sb_collected b < n then (b, snd s)
         else if sb_collected b = n then (no_bits, emit_word cfg b (snd s)) else (no_bits, snd s))"

record spi_lines =
  sl_clk :: "sample receiver"
  sl_mosi :: "sample receiver option"
  sl_miso :: "sample receiver option"

function spi_loop :: "spi_config \<Rightarrow> bool \<Rightarrow> spi_lines \<Rightarrow> spi_bits \<times> spi_batches \<Rightarrow>
    ((bool \<times> nat \<times> spi_batches) work_result \<times> spi_lines) option" where
  "spi_loop cfg prev_clk ls s =
     (case recv (sl_clk ls) of
        None \<Rightarrow> None
      | Some (Inl e, clk) \<Rightarrow>
          Some (if e = Shutdown then Inr (prev_clk, sb_collected (fst s), snd s) else Inl e, ls\<lparr>sl_clk := clk\<rparr>)
      | Some (Inr edge, clk) \<Rightarrow>
          if sc_stop cfg \<le> s_start_time_ns edge
          then let n = sb_collected (fst s)
               in Some (Inr (prev_clk, if 0 < n \<and> n < sd_bits_per_word (sc_node cfg) then n else 0, snd s),
                    ls\<lparr>sl_clk := put_back clk edge\<rparr>)
          else
            let rising = \<not> prev_clk \<and> s_value edge; falling = prev_clk \<and> \<not> s_value edge; ls1 = ls\<lparr>sl_clk := clk\<rparr>
            in if \<not> (if samples_on_rising (sc_node cfg) then rising else falling) then spi_loop cfg (s_value edge) ls1 s
               else
                 let t = saturating_sub (s_start_time_ns edge) 1
                 in case sample_line (sl_mosi ls) t of
                      None \<Rightarrow> None
                    | Some (Inl e, mosi) \<Rightarrow> Some (Inl e, ls1\<lparr>sl_mosi := mosi\<rparr>)
                    | Some (Inr mosi_value, mosi) \<Rightarrow>
                        (case sample_line (sl_miso ls) t of
                           None \<Rightarrow> None
                         | Some (Inl e, miso) \<Rightarrow> Some (Inl e, ls1\<lparr>sl_mosi := mosi, sl_miso := miso\<rparr>)
                         | Some (Inr miso_value, miso) \<Rightarrow>
                             spi_loop cfg (s_value edge) (ls1\<lparr>sl_mosi := mosi, sl_miso := miso\<rparr>)
                               (absorb_bit cfg (s_start_time_ns edge) mosi_value miso_value s)))"
  by pat_completeness auto
termination
  by (relation "measure (\<lambda>(_, _, ls, _). length (stream (sl_clk ls)))") (auto dest: rx.receive_OkD)

declare spi_loop.simps [simp del]

section \<open>The chip select\<close>

function wait_active :: "cs_polarity \<Rightarrow> sample receiver \<Rightarrow> (u64 work_result \<times> sample receiver) option" where
  "wait_active polarity r =
     (case recv r of
        None \<Rightarrow> None
      | Some (Inl e, r1) \<Rightarrow> Some (Inl e, r1)
      | Some (Inr edge, r1) \<Rightarrow>
          if cs_is_active polarity (s_value edge) then Some (Inr (s_start_time_ns edge), r1) else wait_active polarity r1)"
  by pat_completeness auto
termination
  by (relation "measure (\<lambda>(_, r). length (stream r))") (auto dest: rx.receive_OkD)

declare wait_active.simps [simp del]

text \<open>The end of the window and whether the select was released there.\<close>

function wait_inactive :: "cs_polarity \<Rightarrow> u64 \<Rightarrow> u64 \<Rightarrow> sample receiver \<Rightarrow> ((u64 \<times> bool) work_result \<times> sample receiver) option" where
  "wait_inactive polarity active_start terminal_time r =
     (case recv r of
        None \<Rightarrow> None
      | Some (Inl e, r1) \<Rightarrow>
          Some (if e = Shutdown \<and> active_start < terminal_time then Inr (terminal_time, polarity = Disabled) else Inl e, r1)
      | Some (Inr edge, r1) \<Rightarrow>
          if cs_is_active polarity (s_value edge) then wait_inactive polarity active_start (s_start_time_ns edge) r1
          else Some (Inr (s_start_time_ns edge, True), r1))"
  by pat_completeness auto
termination
  by (relation "measure (\<lambda>(_, _, _, r). length (stream r))") (auto dest: rx.receive_OkD)

declare wait_inactive.simps [simp del]

definition drain_line :: "u64 \<Rightarrow> sample receiver option \<Rightarrow> (unit work_result \<times> sample receiver option) option" where
  "drain_line before line =
     (case line of
        None \<Rightarrow> Some (Inr (), None)
      | Some r \<Rightarrow> map_option (\<lambda>(res, r1). (res, Some r1)) (drain_before r before s_start_time_ns))"

section \<open>One call\<close>

definition and_send :: "(work_error option \<times> 'c) \<Rightarrow> ('c \<Rightarrow> work_error option \<times> 'c) \<Rightarrow> work_error option \<times> 'c" where
  "and_send res f = (case res of (Some e, c) \<Rightarrow> (Some e, c) | (None, c) \<Rightarrow> f c)"

lemma and_send_simps [simp]: "and_send (Some e, c) f = (Some e, c)" "and_send (None, c) f = f c"
  by (simp_all add: and_send_def)

definition put_port :: "('a out_port option \<Rightarrow> 'c) \<Rightarrow> work_error option \<times> 'a out_port option \<Rightarrow> work_error option \<times> 'c" where
  "put_port f res = (fst res, f (snd res))"

definition spi_deliver :: "spi_batches \<Rightarrow> protocol_packet \<Rightarrow> spi_ctx \<Rightarrow> work_error option \<times> spi_ctx" where
  "spi_deliver out packet c =
     (let d = sx_node c;
          mosi_send = \<lambda>port xs. if sd_has_mosi d then send_batch_opt port xs else (None, port);
          miso_send = \<lambda>port xs. if sd_has_miso d then send_batch_opt port xs else (None, port)
      in and_send (put_port (\<lambda>p. c\<lparr>sx_mosi_words := p\<rparr>) (mosi_send (sx_mosi_words c) (bt_mosi out))) (\<lambda>c.
         and_send (put_port (\<lambda>p. c\<lparr>sx_miso_words := p\<rparr>) (miso_send (sx_miso_words c) (bt_miso out))) (\<lambda>c.
         and_send (put_port (\<lambda>p. c\<lparr>sx_mosi_bits := p\<rparr>) (mosi_send (sx_mosi_bits c) (bt_mosi_bits out))) (\<lambda>c.
         and_send (put_port (\<lambda>p. c\<lparr>sx_mosi_data := p\<rparr>) (mosi_send (sx_mosi_data c) (bt_mosi_data out))) (\<lambda>c.
         and_send (put_port (\<lambda>p. c\<lparr>sx_miso_bits := p\<rparr>) (miso_send (sx_miso_bits c) (bt_miso_bits out))) (\<lambda>c.
         and_send (put_port (\<lambda>p. c\<lparr>sx_miso_data := p\<rparr>) (miso_send (sx_miso_data c) (bt_miso_data out))) (\<lambda>c.
           put_port (\<lambda>p. c\<lparr>sx_transactions := p\<rparr>) (send_opt (sx_transactions c) packet))))))))"

definition spi_config_of :: "spi_ctx \<Rightarrow> u64 \<Rightarrow> u64 \<Rightarrow> spi_config" where
  "spi_config_of c start stop =
     (let d = sx_node c
      in \<lparr>sc_node = d, sc_need_mosi = (sd_has_mosi d \<and> (sx_mosi_bits c \<noteq> None \<or> sx_mosi_data c \<noteq> None)),
          sc_need_miso = (sd_has_miso d \<and> (sx_miso_bits c \<noteq> None \<or> sx_miso_data c \<noteq> None)), sc_start = start, sc_stop = stop\<rparr>)"

definition spi_lines_of :: "spi_ctx \<Rightarrow> sample receiver \<Rightarrow> spi_lines" where
  "spi_lines_of c clk =
     \<lparr>sl_clk = clk, sl_mosi = (if sd_has_mosi (sx_node c) then sx_mosi c else None),
      sl_miso = (if sd_has_miso (sx_node c) then sx_miso c else None)\<rparr>"

definition put_lines :: "spi_lines \<Rightarrow> spi_ctx \<Rightarrow> spi_ctx" where
  "put_lines ls c =
     c\<lparr>sx_clk := Some (sl_clk ls), sx_mosi := (if sd_has_mosi (sx_node c) then sl_mosi ls else sx_mosi c),
       sx_miso := (if sd_has_miso (sx_node c) then sl_miso ls else sx_miso c)\<rparr>"

definition spi_drain :: "u64 \<Rightarrow> spi_lines \<Rightarrow> (unit work_result \<times> spi_lines) option" where
  "spi_drain start ls =
     (case drain_before (sl_clk ls) start s_start_time_ns of
        None \<Rightarrow> None
      | Some (Inl e, clk) \<Rightarrow> Some (Inl e, ls\<lparr>sl_clk := clk\<rparr>)
      | Some (Inr _, clk) \<Rightarrow>
          (case drain_line start (sl_mosi ls) of
             None \<Rightarrow> None
           | Some (Inl e, mosi) \<Rightarrow> Some (Inl e, ls\<lparr>sl_clk := clk, sl_mosi := mosi\<rparr>)
           | Some (Inr _, mosi) \<Rightarrow>
               map_option (\<lambda>(res, miso). (res, ls\<lparr>sl_clk := clk, sl_mosi := mosi, sl_miso := miso\<rparr>)) (drain_line start (sl_miso ls))))"

definition spi_packet :: "spi_decoder \<Rightarrow> u64 \<Rightarrow> u64 \<Rightarrow> bool \<Rightarrow> nat \<Rightarrow> spi_batches \<Rightarrow> protocol_packet" where
  "spi_packet d start stop deasserted incomplete out =
     spi_transaction_packet \<lparr>st_start_sample = 0, st_end_sample = 0, st_start_time_ns = start, st_end_time_ns = stop,
       st_word_bits = sd_bits_per_word d, st_mosi_words = bt_mosi_words out, st_miso_words = bt_miso_words out,
       st_has_mosi = sd_has_mosi d, st_has_miso = sd_has_miso d, st_incomplete_bits = incomplete, st_cs_deasserted = deasserted\<rparr>"

definition spi_finish :: "u64 \<Rightarrow> u64 \<Rightarrow> bool \<Rightarrow> bool \<times> nat \<times> spi_batches \<Rightarrow> spi_ctx \<Rightarrow> nat work_result \<times> spi_ctx" where
  "spi_finish start stop deasserted res c =
     (case res of (prev_clk, incomplete, out) \<Rightarrow>
        (case spi_deliver out (spi_packet (sx_node c) start stop deasserted incomplete out) c of
           (Some e, c1) \<Rightarrow> (Inl e, c1)
         | (None, c1) \<Rightarrow>
             (Inr (max (bt_count out) 1),
              c1\<lparr>sx_node := (sx_node c1)\<lparr>sd_prev_clk := prev_clk, sd_tx_count := sd_tx_count (sx_node c1) + of_nat (bt_count out)\<rparr>\<rparr>)))"

definition spi_window :: "u64 \<Rightarrow> u64 \<Rightarrow> bool \<Rightarrow> sample receiver \<Rightarrow> spi_ctx \<Rightarrow> (nat work_result \<times> spi_ctx) option" where
  "spi_window start stop deasserted clk c =
     (case spi_drain start (spi_lines_of c clk) of
        None \<Rightarrow> None
      | Some (Inl e, ls) \<Rightarrow> Some (Inl e, put_lines ls c)
      | Some (Inr _, ls) \<Rightarrow>
          (case spi_loop (spi_config_of c start stop) (sd_prev_clk (sx_node c)) ls (no_bits, no_batches) of
             None \<Rightarrow> None
           | Some (Inl e, ls1) \<Rightarrow> Some (Inl e, put_lines ls1 c)
           | Some (Inr res, ls1) \<Rightarrow> Some (spi_finish start stop deasserted res (put_lines ls1 c))))"

definition spi_work_streamed :: "spi_ctx work_fun" where
  "spi_work_streamed c =
     (case sx_cs c of
        None \<Rightarrow> Some (Inl (NodeError ''Missing CS input''), c)
      | Some cs \<Rightarrow>
          (case sx_clk c of
             None \<Rightarrow> Some (Inl (NodeError ''Missing CLK input''), c)
           | Some clk \<Rightarrow>
               if sd_has_mosi (sx_node c) \<and> sx_mosi c = None then Some (Inl (NodeError ''Missing MOSI input''), c)
               else if sd_has_miso (sx_node c) \<and> sx_miso c = None then Some (Inl (NodeError ''Missing MISO input''), c)
               else
                 (case wait_active (sd_cs_polarity (sx_node c)) cs of
                    None \<Rightarrow> None
                  | Some (Inl e, cs1) \<Rightarrow> Some (Inl e, c\<lparr>sx_cs := Some cs1\<rparr>)
                  | Some (Inr start, cs1) \<Rightarrow>
                      (case wait_inactive (sd_cs_polarity (sx_node c)) start start cs1 of
                         None \<Rightarrow> None
                       | Some (Inl e, cs2) \<Rightarrow> Some (Inl e, c\<lparr>sx_cs := Some cs2\<rparr>)
                       | Some (Inr (stop, deasserted), cs2) \<Rightarrow> spi_window start stop deasserted clk (c\<lparr>sx_cs := Some cs2\<rparr>)))))"

section \<open>Reading the lines\<close>

lemma value_at_time_eq: "value_at_time r t = value_at r t"
proof (induction r t rule: value_at_time.induct)
  case (1 r t)
  show ?case
    by (subst value_at_time.simps, subst value_at.simps)
      (auto simp: 1 split: option.splits sum.splits)
qed

lemma line_from_earlier: "t \<le> u \<Longrightarrow> line_from t (line_from u xs) = line_from u xs"
  by (induction u xs rule: line_from.induct) (auto dest: order_trans)

lemma line_from_max: "line_from t (line_from u xs) = line_from (max u t) xs"
  by (cases "u \<le> t") (simp_all add: line_from_later line_from_earlier max_def)

text \<open>What a data line shows when it is sampled: never before the window.\<close>

definition reads :: "sample list \<Rightarrow> u64 \<Rightarrow> bool" where
  "reads line t = s_value (hd (line_from t line))"

lemma value_at_time_reads:
  assumes "stands m line u r" "line \<noteq> []" "sorted_by s_start_time_ns line"
    and "s_start_time_ns (hd (line_from u line)) \<le> t" "safe m line (max u t)"
  shows "\<exists>r'. value_at_time r t = Some (Inr (Some (reads line (max u t))), r') \<and> stands m line (max u t) r'"
proof -
  let ?xs = "line_from u line"
  have r: "stream r = ?xs" "ends r" "\<not> rx_eos r" "marked r \<longleftrightarrow> m" using assms(1) by (simp_all add: stands_def)
  have xs: "?xs \<noteq> []" "sorted_by s_start_time_ns ?xs" using assms(2,3) line_from_sorted by auto
  have hd: "s_start_time_ns (hd ?xs) \<le> max u t" using assms(4) by (simp add: max_def order_trans [of _ t u])
  have "\<not> (m \<and> length (line_from (max u t) line) = 1)"
  proof
    assume one: "m \<and> length (line_from (max u t) line) = 1"
    have "line_from (max u t) ?xs = line_from (max u t) line" by (simp add: line_from_max)
    then have all: "\<forall>s\<in>set ?xs. s_start_time_ns s \<le> max u t"
      using one line_from_single [OF xs(2,1) hd] by simp
    obtain s where s: "s \<in> set line" "max u t < s_start_time_ns s" using one assms(5) by (auto simp: safe_def)
    have "s \<in> set (line_from u line)"
      using s assms(3) by (induction u line rule: line_from.induct) (auto simp: max_def split: if_splits)
    with all s(2) show False by (auto simp: not_le [symmetric])
  qed
  with value_at_line [OF r(1) xs assms(4) r(2,3)] r(4) show ?thesis
    by (auto simp: value_at_time_eq line_from_max stands_def reads_def)
qed

text \<open>A data line that may be absent: its samples and whether its end is announced.\<close>

type_synonym data_line = "(bool \<times> sample list) option"

definition line_at :: "data_line \<Rightarrow> u64 \<Rightarrow> sample receiver option \<Rightarrow> bool" where
  "line_at line u r \<longleftrightarrow>
     (case line of None \<Rightarrow> r = None | Some (m, l) \<Rightarrow> (\<exists>rx. r = Some rx \<and> stands m l u rx))"

definition read_line :: "data_line \<Rightarrow> u64 \<Rightarrow> bool option" where
  "read_line line t = map_option (\<lambda>(m, l). reads l t) line"

definition ready :: "data_line \<Rightarrow> u64 \<Rightarrow> u64 \<Rightarrow> bool" where
  "ready line u t \<longleftrightarrow>
     (case line of None \<Rightarrow> True
      | Some (m, l) \<Rightarrow> l \<noteq> [] \<and> sorted_by s_start_time_ns l \<and> s_start_time_ns (hd (line_from u l)) \<le> t \<and> safe m l (max u t))"

lemma sample_line_reads:
  assumes "line_at line u r" "ready line u t"
  shows "\<exists>r'. sample_line r t = Some (Inr (read_line line (max u t)), r') \<and> line_at line (max u t) r'"
proof (cases line)
  case None
  then show ?thesis using assms(1) by (simp add: line_at_def sample_line_def read_line_def)
next
  case (Some p)
  obtain m l where p: "p = (m, l)" by (cases p)
  obtain rx where rx: "r = Some rx" "stands m l u rx" using assms(1) by (auto simp: line_at_def Some p)
  obtain rx' where "value_at_time rx t = Some (Inr (Some (reads l (max u t))), rx')" "stands m l (max u t) rx'"
    using value_at_time_reads [OF rx(2)] assms(2) by (auto simp: ready_def Some p)
  then show ?thesis by (simp add: sample_line_def rx(1) read_line_def line_at_def Some p)
qed

lemma ready_later:
  assumes "ready line u t" "ready line u t'" "t \<le> t'"
  shows "ready line (max u t) t'" "max (max u t) t' = max u t'"
proof -
  show max: "max (max u t) t' = max u t'" using assms(3) by (simp add: max.assoc max_absorb2)
  show "ready line (max u t) t'"
  proof (cases line)
    case (Some p)
    obtain m l where p: "p = (m, l)" by (cases p)
    have l: "l \<noteq> []" "s_start_time_ns (hd (line_from u l)) \<le> t" "sorted_by s_start_time_ns l" "safe m l (max u t')"
      "s_start_time_ns (hd (line_from u l)) \<le> t'"
      using assms(1,2) by (auto simp: ready_def Some p)
    have "s_start_time_ns (hd (line_from (max u t) l)) \<le> t'"
    proof (cases "u \<le> t")
      case True
      have "s_start_time_ns (hd (line_from t (line_from u l))) \<le> t" using l(1,2) by (intro line_from_hd) simp_all
      then show ?thesis using True assms(3) by (simp add: line_from_max max_absorb2)
    next
      case False
      then show ?thesis using l(5) by (simp add: max_absorb1)
    qed
    then show ?thesis using l max by (simp add: ready_def Some p)
  qed (simp add: ready_def)
qed

section \<open>The loop\<close>

fun sampling_edges :: "bool \<Rightarrow> bool \<Rightarrow> sample list \<Rightarrow> sample list" where
  "sampling_edges rising prev [] = []"
| "sampling_edges rising prev (e # es) =
     (if (if rising then \<not> prev \<and> s_value e else prev \<and> \<not> s_value e) then e # sampling_edges rising (s_value e) es
      else sampling_edges rising (s_value e) es)"

definition last_level :: "bool \<Rightarrow> sample list \<Rightarrow> bool" where
  "last_level prev es = (if es = [] then prev else s_value (last es))"

text \<open>When a bit is sampled, and what is read then.\<close>

definition sample_time_of :: "sample \<Rightarrow> u64" where
  "sample_time_of e = saturating_sub (s_start_time_ns e) 1"

type_synonym bit_row = "u64 \<times> bool option \<times> bool option"

definition row_of :: "data_line \<Rightarrow> data_line \<Rightarrow> u64 \<Rightarrow> sample \<Rightarrow> bit_row" where
  "row_of mosi miso u e =
     (s_start_time_ns e, read_line mosi (max u (sample_time_of e)), read_line miso (max u (sample_time_of e)))"

definition absorb_rows :: "spi_config \<Rightarrow> bit_row list \<Rightarrow> spi_bits \<times> spi_batches \<Rightarrow> spi_bits \<times> spi_batches" where
  "absorb_rows cfg rows s = fold (\<lambda>(t, a, b). absorb_bit cfg t a b) rows s"

lemma sampling_edges_subset: "set (sampling_edges rising prev es) \<subseteq> set es"
  by (induction es arbitrary: prev) auto

lemma sample_time_mono: "s_start_time_ns e \<le> s_start_time_ns e' \<Longrightarrow> sample_time_of e \<le> sample_time_of e'"
  by (simp add: sample_time_of_def word_le_nat_alt sat_simps diff_le_mono)

lemma absorb_collected:
  assumes "0 < sd_bits_per_word (sc_node cfg)"
  shows "sb_collected (fst (absorb_bit cfg t a b s)) < sd_bits_per_word (sc_node cfg)"
  using assms by (simp add: absorb_bit_def Let_def no_bits_def)

lemma spi_loop_reads:
  assumes "stream (sl_clk ls) = xs @ rest" "ends (sl_clk ls)" "\<not> rx_eos (sl_clk ls)"
    and "\<forall>e\<in>set xs. s_start_time_ns e < sc_stop cfg" "rest = [] \<or> sc_stop cfg \<le> s_start_time_ns (hd rest)"
    and "sorted_by s_start_time_ns xs" "0 < sd_bits_per_word (sc_node cfg)"
    and "sb_collected (fst s) < sd_bits_per_word (sc_node cfg)"
    and "line_at mosi u (sl_mosi ls)" "line_at miso u (sl_miso ls)"
    and "\<forall>e\<in>set (sampling_edges (samples_on_rising (sc_node cfg)) prev xs). ready mosi u (sample_time_of e) \<and> ready miso u (sample_time_of e)"
  shows "\<exists>ls' s'. spi_loop cfg prev ls s = Some (Inr (last_level prev xs, sb_collected (fst s'), snd s'), ls') \<and>
    s' = absorb_rows cfg (map (row_of mosi miso u) (sampling_edges (samples_on_rising (sc_node cfg)) prev xs)) s \<and>
    stream (sl_clk ls') = rest \<and> ends (sl_clk ls') \<and> (\<exists>u'\<ge>u. line_at mosi u' (sl_mosi ls') \<and> line_at miso u' (sl_miso ls'))"
  using assms
proof (induction xs arbitrary: prev ls s u)
  case Nil
  show ?case
  proof (cases rest)
    case Nil
    then obtain clk where "recv (sl_clk ls) = Some (Inl Shutdown, clk)" "stream clk = []" "ends clk"
      using Nil.prems(1,2) rx.receive_end [of "sl_clk ls"] by auto
    then show ?thesis
      using Nil Nil.prems(9,10) by (auto simp: spi_loop.simps [of cfg prev ls s] absorb_rows_def last_level_def)
  next
    case (Cons y ys)
    then obtain clk where clk: "recv (sl_clk ls) = Some (Inr y, clk)" "stream clk = ys" "ends clk"
      using Nil.prems(1,2) rx.receive_item [of "sl_clk ls" y ys] by auto
    have "\<not> rx_eos clk" using recv_marked [OF clk(1)] by simp
    then show ?thesis
      using Cons clk Nil.prems(5,8-10)
      by (auto simp: spi_loop.simps [of cfg prev ls s] absorb_rows_def last_level_def Let_def stream_put_back)
  qed
next
  case (Cons e xs)
  obtain clk where clk: "recv (sl_clk ls) = Some (Inr e, clk)" "stream clk = xs @ rest" "ends clk"
    using Cons.prems(1,2) rx.receive_item [of "sl_clk ls" e "xs @ rest"] by auto
  have clk_live: "\<not> rx_eos clk" using recv_marked [OF clk(1)] by simp
  have inside: "\<not> sc_stop cfg \<le> s_start_time_ns e" using Cons.prems(4) by (simp add: not_le)
  let ?rising = "samples_on_rising (sc_node cfg)"
  let ?hit = "if ?rising then \<not> prev \<and> s_value e else prev \<and> \<not> s_value e"
  have level: "last_level prev (e # xs) = last_level (s_value e) xs" by (simp add: last_level_def)
  show ?case
  proof (cases ?hit)
    case False
    have "spi_loop cfg prev ls s = spi_loop cfg (s_value e) (ls\<lparr>sl_clk := clk\<rparr>) s"
      using False inside by (subst spi_loop.simps) (simp add: clk(1) Let_def)
    moreover have "sampling_edges ?rising prev (e # xs) = sampling_edges ?rising (s_value e) xs" using False by simp
    moreover have "\<exists>ls' s'. spi_loop cfg (s_value e) (ls\<lparr>sl_clk := clk\<rparr>) s =
          Some (Inr (last_level (s_value e) xs, sb_collected (fst s'), snd s'), ls') \<and>
        s' = absorb_rows cfg (map (row_of mosi miso u) (sampling_edges ?rising (s_value e) xs)) s \<and>
        stream (sl_clk ls') = rest \<and> ends (sl_clk ls') \<and> (\<exists>u'\<ge>u. line_at mosi u' (sl_mosi ls') \<and> line_at miso u' (sl_miso ls'))"
      using Cons.prems(4-) clk(2,3) clk_live False by (intro Cons.IH) simp_all
    ultimately show ?thesis unfolding level by simp
  next
    case True
    let ?t = "sample_time_of e"
    have edges: "sampling_edges ?rising prev (e # xs) = e # sampling_edges ?rising (s_value e) xs" using True by simp
    note all_ready = Cons.prems(11) [unfolded edges]
    have ready: "ready mosi u ?t" "ready miso u ?t" using all_ready by auto
    obtain mosi' where mosi': "sample_line (sl_mosi ls) ?t = Some (Inr (read_line mosi (max u ?t)), mosi')" "line_at mosi (max u ?t) mosi'"
      using sample_line_reads [OF Cons.prems(9) ready(1)] by blast
    obtain miso' where miso': "sample_line (sl_miso ls) ?t = Some (Inr (read_line miso (max u ?t)), miso')" "line_at miso (max u ?t) miso'"
      using sample_line_reads [OF Cons.prems(10) ready(2)] by blast
    let ?ls = "ls\<lparr>sl_clk := clk, sl_mosi := mosi', sl_miso := miso'\<rparr>"
    let ?s = "absorb_bit cfg (s_start_time_ns e) (read_line mosi (max u ?t)) (read_line miso (max u ?t)) s"
    have step: "spi_loop cfg prev ls s = spi_loop cfg (s_value e) ?ls ?s"
      using True inside mosi'(1) miso'(1)
      by (subst spi_loop.simps) (simp add: clk(1) Let_def sample_time_of_def [symmetric])
    have later: "ready mosi (max u ?t) (sample_time_of e') \<and> ready miso (max u ?t) (sample_time_of e') \<and>
        row_of mosi miso (max u ?t) e' = row_of mosi miso u e'" if e': "e' \<in> set (sampling_edges ?rising (s_value e) xs)" for e'
    proof -
      have "e' \<in> set xs" using e' sampling_edges_subset by blast
      then have mono: "?t \<le> sample_time_of e'" using Cons.prems(6) by (intro sample_time_mono) auto
      have "ready mosi u (sample_time_of e')" "ready miso u (sample_time_of e')" using all_ready e' by auto
      then show ?thesis
        using ready_later [OF ready(1) _ mono] ready_later [OF ready(2) _ mono] by (simp add: row_of_def)
    qed
    have "\<exists>ls' s'. spi_loop cfg (s_value e) ?ls ?s = Some (Inr (last_level (s_value e) xs, sb_collected (fst s'), snd s'), ls') \<and>
        s' = absorb_rows cfg (map (row_of mosi miso (max u ?t)) (sampling_edges ?rising (s_value e) xs)) ?s \<and>
        stream (sl_clk ls') = rest \<and> ends (sl_clk ls') \<and> (\<exists>u'\<ge>max u ?t. line_at mosi u' (sl_mosi ls') \<and> line_at miso u' (sl_miso ls'))"
      using Cons.prems(4-8) clk(2,3) clk_live mosi'(2) miso'(2) later absorb_collected [OF Cons.prems(7)] by (intro Cons.IH) simp_all
    then obtain ls' s' u' where rest: "spi_loop cfg (s_value e) ?ls ?s = Some (Inr (last_level (s_value e) xs, sb_collected (fst s'), snd s'), ls')"
      "s' = absorb_rows cfg (map (row_of mosi miso (max u ?t)) (sampling_edges ?rising (s_value e) xs)) ?s"
      "stream (sl_clk ls') = rest" "ends (sl_clk ls')" "max u ?t \<le> u'" "line_at mosi u' (sl_mosi ls')" "line_at miso u' (sl_miso ls')"
      by blast
    have rows: "map (row_of mosi miso (max u ?t)) (sampling_edges ?rising (s_value e) xs) =
        map (row_of mosi miso u) (sampling_edges ?rising (s_value e) xs)" using later by auto
    have "s' = absorb_rows cfg (map (row_of mosi miso u) (sampling_edges ?rising (s_value e) xs)) ?s"
      using rest(2) unfolding rows .
    also have "\<dots> = absorb_rows cfg (map (row_of mosi miso u) (e # sampling_edges ?rising (s_value e) xs)) s"
      by (simp add: absorb_rows_def row_of_def)
    finally have "s' = absorb_rows cfg (map (row_of mosi miso u) (e # sampling_edges ?rising (s_value e) xs)) s" .
    moreover have "u \<le> u'" using rest(5) by (rule order_trans [OF max.cobounded1])
    ultimately show ?thesis unfolding step level edges using rest(1,3,4,6,7) by blast
  qed
qed

section \<open>Words\<close>

definition spi_value :: "bit_order \<Rightarrow> bool list \<Rightarrow> u64" where
  "spi_value order bits = foldl (\<lambda>v b. 2 * v + of_bool b) 0 (case order of MsbFirst \<Rightarrow> bits | LsbFirst \<Rightarrow> rev bits)"

definition row_groups :: "nat \<Rightarrow> 'a list \<Rightarrow> 'a list list" where
  "row_groups n rows = map (\<lambda>k. take n (drop (n * k) rows)) [0..<length rows div n]"

definition word_bits :: "spi_config \<Rightarrow> bit_row list \<Rightarrow> spi_bits" where
  "word_bits cfg rows = fold (\<lambda>(t, a, b). record_bit cfg t a b) rows no_bits"

lemma collected_record [simp]: "sb_collected (record_bit cfg t a b s) = sb_collected s + 1"
  by (simp add: record_bit_def Let_def)

lemma collected_fold: "sb_collected (fold (\<lambda>(t, a, b). record_bit cfg t a b) rows s) = sb_collected s + length rows"
  by (induction rows arbitrary: s) auto

lemma absorb_partial:
  "sb_collected b + length rows < sd_bits_per_word (sc_node cfg) \<Longrightarrow>
   absorb_rows cfg rows (b, out) = (fold (\<lambda>(t, a, b). record_bit cfg t a b) rows b, out)"
proof (induction rows arbitrary: b)
  case (Cons row rows)
  obtain t x y where row: "row = (t, x, y)" by (cases row)
  from Cons.prems have "absorb_bit cfg t x y (b, out) = (record_bit cfg t x y b, out)" by (simp add: absorb_bit_def Let_def)
  with Cons.prems Cons.IH [of "record_bit cfg t x y b"] show ?case by (simp add: absorb_rows_def row)
qed (simp add: absorb_rows_def)

lemma absorb_group:
  assumes "length g = sd_bits_per_word (sc_node cfg)" "g \<noteq> []"
  shows "absorb_rows cfg g (no_bits, out) = (no_bits, emit_word cfg (word_bits cfg g) out)"
proof -
  obtain g' t x y where g: "g = g' @ [(t, x, y)]" using assms(2) by (metis prod_cases3 rev_exhaust)
  let ?b = "fold (\<lambda>(t, a, b). record_bit cfg t a b) g' no_bits"
  have len: "length g' + 1 = sd_bits_per_word (sc_node cfg)" using assms(1) by (simp add: g)
  have collected: "sb_collected ?b = length g'" by (simp add: collected_fold no_bits_def)
  have "absorb_rows cfg g' (no_bits, out) = (?b, out)" using len by (intro absorb_partial) (simp add: no_bits_def)
  then show ?thesis using len collected by (simp add: g absorb_rows_def word_bits_def absorb_bit_def Let_def)
qed

lemma row_groups_cons:
  assumes "0 < n" "n \<le> length rows"
  shows "row_groups n rows = take n rows # row_groups n (drop n rows)"
proof -
  let ?q = "(length rows - n) div n"
  have "length rows div n = Suc ?q" using assms by (simp add: le_div_geq)
  moreover have "[0..<Suc ?q] = 0 # map Suc [0..<?q]" by (metis map_Suc_upt upt_conv_Cons zero_less_Suc)
  ultimately show ?thesis unfolding row_groups_def by (simp add: ac_simps del: upt_Suc)
qed

lemma absorb_words:
  assumes "0 < sd_bits_per_word (sc_node cfg)"
  shows "absorb_rows cfg rows (no_bits, out) =
    (let n = sd_bits_per_word (sc_node cfg)
     in (word_bits cfg (drop (n * (length rows div n)) rows), fold (\<lambda>g. emit_word cfg (word_bits cfg g)) (row_groups n rows) out))"
proof (induction "length rows" arbitrary: rows out rule: less_induct)
  case less
  let ?n = "sd_bits_per_word (sc_node cfg)"
  show ?case
  proof (cases "length rows < ?n")
    case True
    then show ?thesis using absorb_partial [of no_bits rows cfg out]
      by (simp add: row_groups_def word_bits_def no_bits_def)
  next
    case False
    let ?g = "take ?n rows" and ?r = "drop ?n rows"
    have q: "length rows div ?n = Suc (length ?r div ?n)" using False assms by (simp add: le_div_geq)
    have "absorb_rows cfg rows (no_bits, out) = absorb_rows cfg (?g @ ?r) (no_bits, out)" by simp
    also have "\<dots> = absorb_rows cfg ?r (absorb_rows cfg ?g (no_bits, out))" by (simp only: absorb_rows_def fold_append comp_apply)
    also have "absorb_rows cfg ?g (no_bits, out) = (no_bits, emit_word cfg (word_bits cfg ?g) out)"
      using False assms by (intro absorb_group) auto
    also have "absorb_rows cfg ?r (no_bits, emit_word cfg (word_bits cfg ?g) out) =
        (let n = ?n in (word_bits cfg (drop (n * (length ?r div n)) ?r),
           fold (\<lambda>g. emit_word cfg (word_bits cfg g)) (row_groups n ?r) (emit_word cfg (word_bits cfg ?g) out)))"
      using False assms by (intro less) auto
    finally show ?thesis using False assms by (simp add: row_groups_cons q Let_def ac_simps)
  qed
qed

lemma bit_horner: "length bits \<le> 64 \<Longrightarrow>
    bit (foldl (\<lambda>v b. 2 * v + of_bool b) (0 :: u64) bits) p \<longleftrightarrow> p < length bits \<and> bits ! (length bits - 1 - p)"
proof (induction bits arbitrary: p rule: rev_induct)
  case (snoc b bits)
  let ?v = "foldl (\<lambda>v b. 2 * v + of_bool b) (0 :: u64) bits"
  have bit: "bit (2 * ?v + of_bool b) p \<longleftrightarrow> (p = 0 \<and> b) \<or> (p \<noteq> 0 \<and> p < 64 \<and> bit ?v (p - 1))" for p
    by (cases b) (auto simp: add.commute [of _ 1] even_bit_succ_iff bit_double_iff)
  show ?case
  proof (cases p)
    case 0
    then show ?thesis by (simp add: bit)
  next
    case (Suc q)
    have "bit (2 * ?v + of_bool b) (Suc q) \<longleftrightarrow> Suc q < 64 \<and> bit ?v q" unfolding bit by simp
    also have "\<dots> \<longleftrightarrow> q < length bits \<and> bits ! (length bits - 1 - q)"
      using snoc.IH [of q] snoc.prems by (cases "q < length bits") simp_all
    finally have "bit (2 * ?v + of_bool b) (Suc q) \<longleftrightarrow> q < length bits \<and> bits ! (length bits - 1 - q)" .
    moreover have "length bits - Suc q < length bits" if "q < length bits" using that by simp
    ultimately show ?thesis using Suc by (cases "q < length bits") (simp_all add: nth_append)
  qed
qed simp

lemma spi_bit_position_eq:
  assumes "i < sd_bits_per_word d" "sd_bits_per_word d \<le> 64"
  shows "spi_bit_position d i = (case sd_bit_order d of MsbFirst \<Rightarrow> sd_bits_per_word d - 1 - i | LsbFirst \<Rightarrow> i)"
proof -
  have n: "unat (of_nat (sd_bits_per_word d) :: u64) = sd_bits_per_word d" "unat (of_nat i :: u64) = i"
    using assms by (simp_all add: unat_of_nat)
  have one: "(1 :: u64) \<le> of_nat (sd_bits_per_word d)" using assms n(1) by (simp add: word_le_nat_alt)
  then have "unat (of_nat (sd_bits_per_word d) - 1 :: u64) = sd_bits_per_word d - 1" using n(1) by (simp add: unat_sub)
  moreover from this have "(of_nat i :: u64) \<le> of_nat (sd_bits_per_word d) - 1" using assms n(2) by (simp add: word_le_nat_alt)
  ultimately have "unat (of_nat (sd_bits_per_word d) - 1 - of_nat i :: u64) = sd_bits_per_word d - 1 - i"
    using n(2) by (simp add: unat_sub)
  with assms show ?thesis by (cases "sd_bit_order d") (simp_all add: spi_bit_position_def)
qed

lemma bit_set_bit_if: "position < 64 \<Longrightarrow> bit (set_bit_if v position w) p \<longleftrightarrow> bit w p \<or> (v = Some True \<and> p = position)"
  by (auto simp: set_bit_if_def bit_or_iff bit_exp_iff)

lemma word_bits_snoc: "word_bits cfg (rows @ [(t, a, b)]) = record_bit cfg t a b (word_bits cfg rows)"
  by (simp add: word_bits_def)

lemma ex_nth_snoc: "(\<exists>i<length (xs @ [x]). P i ((xs @ [x]) ! i)) \<longleftrightarrow> (\<exists>i<length xs. P i (xs ! i)) \<or> P (length xs) x"
proof
  assume "\<exists>i<length (xs @ [x]). P i ((xs @ [x]) ! i)"
  then obtain i where "i < Suc (length xs)" "P i ((xs @ [x]) ! i)" by auto
  then show "(\<exists>i<length xs. P i (xs ! i)) \<or> P (length xs) x"
    by (cases "i < length xs") (auto simp: nth_append less_Suc_eq)
next
  assume "(\<exists>i<length xs. P i (xs ! i)) \<or> P (length xs) x"
  then consider i where "i < length xs" "P i (xs ! i)" | "P (length xs) x" by blast
  then show "\<exists>i<length (xs @ [x]). P i ((xs @ [x]) ! i)"
  proof cases
    case 1
    then show ?thesis by (intro exI [of _ i]) (simp add: nth_append)
  next
    case 2
    then show ?thesis by (intro exI [of _ "length xs"]) simp
  qed
qed

lemma word_bits_bits:
  assumes "length rows \<le> sd_bits_per_word (sc_node cfg)" "sd_bits_per_word (sc_node cfg) \<le> 64"
  shows "bit (sb_mosi_word (word_bits cfg rows)) p \<longleftrightarrow>
      (\<exists>i<length rows. spi_bit_position (sc_node cfg) i = p \<and> fst (snd (rows ! i)) = Some True)"
    and "bit (sb_miso_word (word_bits cfg rows)) p \<longleftrightarrow>
      (\<exists>i<length rows. spi_bit_position (sc_node cfg) i = p \<and> snd (snd (rows ! i)) = Some True)"
proof -
  have "(bit (sb_mosi_word (word_bits cfg rows)) p \<longleftrightarrow>
      (\<exists>i<length rows. spi_bit_position (sc_node cfg) i = p \<and> fst (snd (rows ! i)) = Some True)) \<and>
    (bit (sb_miso_word (word_bits cfg rows)) p \<longleftrightarrow>
      (\<exists>i<length rows. spi_bit_position (sc_node cfg) i = p \<and> snd (snd (rows ! i)) = Some True))"
    using assms(1)
  proof (induction rows rule: rev_induct)
    case Nil
    show ?case by (simp add: word_bits_def no_bits_def)
  next
    case (snoc row rows)
    obtain t a b where row: "row = (t, a, b)" by (cases row)
    have collected: "sb_collected (word_bits cfg rows) = length rows" by (simp add: word_bits_def collected_fold no_bits_def)
    have position: "spi_bit_position (sc_node cfg) (length rows) < 64"
      by (auto simp: spi_bit_position_def split: bit_order.split)
    have IH: "bit (sb_mosi_word (word_bits cfg rows)) p \<longleftrightarrow>
        (\<exists>i<length rows. spi_bit_position (sc_node cfg) i = p \<and> fst (snd (rows ! i)) = Some True)"
      "bit (sb_miso_word (word_bits cfg rows)) p \<longleftrightarrow>
        (\<exists>i<length rows. spi_bit_position (sc_node cfg) i = p \<and> snd (snd (rows ! i)) = Some True)"
      using snoc by simp_all
    show ?case
      unfolding ex_nth_snoc [of rows row "\<lambda>i r. spi_bit_position (sc_node cfg) i = p \<and> fst (snd r) = Some True"]
        ex_nth_snoc [of rows row "\<lambda>i r. spi_bit_position (sc_node cfg) i = p \<and> snd (snd r) = Some True"] IH [symmetric]
      unfolding row word_bits_snoc
      by (simp add: record_bit_def Let_def collected bit_set_bit_if [OF position]) blast
  qed
  then show "bit (sb_mosi_word (word_bits cfg rows)) p \<longleftrightarrow>
      (\<exists>i<length rows. spi_bit_position (sc_node cfg) i = p \<and> fst (snd (rows ! i)) = Some True)"
    "bit (sb_miso_word (word_bits cfg rows)) p \<longleftrightarrow>
      (\<exists>i<length rows. spi_bit_position (sc_node cfg) i = p \<and> snd (snd (rows ! i)) = Some True)" by simp_all
qed

lemma bit_spi_value:
  assumes "length bits = sd_bits_per_word d" "sd_bits_per_word d \<le> 64"
  shows "bit (spi_value (sd_bit_order d) bits) p \<longleftrightarrow> (\<exists>i<length bits. spi_bit_position d i = p \<and> bits ! i)"
proof (cases "sd_bit_order d")
  case MsbFirst
  have position: "spi_bit_position d i = length bits - 1 - i" if "i < length bits" for i
    using spi_bit_position_eq [of i d] assms that MsbFirst by simp
  have "bit (spi_value (sd_bit_order d) bits) p \<longleftrightarrow> p < length bits \<and> bits ! (length bits - 1 - p)"
    using assms bit_horner [of bits p] by (simp add: spi_value_def MsbFirst)
  also have "\<dots> \<longleftrightarrow> (\<exists>i<length bits. length bits - 1 - i = p \<and> bits ! i)"
  proof
    assume "p < length bits \<and> bits ! (length bits - 1 - p)"
    then show "\<exists>i<length bits. length bits - 1 - i = p \<and> bits ! i" by (intro exI [of _ "length bits - 1 - p"]) auto
  qed auto
  finally show ?thesis using position by auto
next
  case LsbFirst
  have position: "spi_bit_position d i = i" if "i < length bits" for i
    using spi_bit_position_eq [of i d] assms that LsbFirst by simp
  have "bit (spi_value (sd_bit_order d) bits) p \<longleftrightarrow> p < length bits \<and> rev bits ! (length bits - 1 - p)"
    using assms bit_horner [of "rev bits" p] by (simp add: spi_value_def LsbFirst)
  also have "\<dots> \<longleftrightarrow> p < length bits \<and> bits ! p" by (auto simp: rev_nth)
  finally show ?thesis using position by auto
qed

definition mosi_of :: "bit_row list \<Rightarrow> bool list" where
  "mosi_of rows = map (\<lambda>(_, a, _). a = Some True) rows"

definition miso_of :: "bit_row list \<Rightarrow> bool list" where
  "miso_of rows = map (\<lambda>(_, _, b). b = Some True) rows"

lemma word_bits_value:
  assumes "length g = sd_bits_per_word (sc_node cfg)" "sd_bits_per_word (sc_node cfg) \<le> 64"
  shows "sb_mosi_word (word_bits cfg g) = spi_value (sd_bit_order (sc_node cfg)) (mosi_of g)"
    and "sb_miso_word (word_bits cfg g) = spi_value (sd_bit_order (sc_node cfg)) (miso_of g)"
proof -
  have "bit (sb_mosi_word (word_bits cfg g)) p \<longleftrightarrow> bit (spi_value (sd_bit_order (sc_node cfg)) (mosi_of g)) p" for p
    using word_bits_bits(1) [of g cfg p] bit_spi_value [of "mosi_of g" "sc_node cfg" p] assms
    by (auto simp: mosi_of_def split_beta)
  then show "sb_mosi_word (word_bits cfg g) = spi_value (sd_bit_order (sc_node cfg)) (mosi_of g)" by (simp add: bit_eq_iff)
  have "bit (sb_miso_word (word_bits cfg g)) p \<longleftrightarrow> bit (spi_value (sd_bit_order (sc_node cfg)) (miso_of g)) p" for p
    using word_bits_bits(2) [of g cfg p] bit_spi_value [of "miso_of g" "sc_node cfg" p] assms
    by (auto simp: miso_of_def split_beta)
  then show "sb_miso_word (word_bits cfg g) = spi_value (sd_bit_order (sc_node cfg)) (miso_of g)" by (simp add: bit_eq_iff)
qed

lemma word_bits_span: "rows \<noteq> [] \<Longrightarrow> sb_span (word_bits cfg rows) = Some (fst (hd rows), fst (last rows))"
proof (induction rows rule: rev_induct)
  case (snoc row rows)
  obtain t a b where row: "row = (t, a, b)" by (cases row)
  show ?case
  proof (cases "rows = []")
    case True
    then show ?thesis by (simp add: row word_bits_def record_bit_def no_bits_def Let_def)
  next
    case False
    then show ?thesis using snoc.IH by (simp add: row word_bits_snoc) (simp add: record_bit_def Let_def)
  qed
qed simp

text \<open>What is noted of the bits of a word, where annotations are wanted.\<close>

definition noted :: "bool \<Rightarrow> (bit_row \<Rightarrow> 'a option) \<Rightarrow> bit_row list \<Rightarrow> 'a list" where
  "noted need f rows = (if need then List.map_filter f rows else [])"

lemma noted_snoc: "noted need f (rows @ [row]) = noted need f rows @ (case f row of Some v \<Rightarrow> if need then [v] else [] | None \<Rightarrow> [])"
  by (auto simp: noted_def map_filter_def split: option.split)

lemma noted_Nil [simp]: "noted need f [] = []"
  by (simp add: noted_def map_filter_def)

lemma word_bits_notes:
  "sb_timestamps (word_bits cfg rows) = noted (sc_need_mosi cfg \<or> sc_need_miso cfg) (\<lambda>r. Some (fst r)) rows"
  "sb_mosi_bits (word_bits cfg rows) = noted (sc_need_mosi cfg) (\<lambda>r. fst (snd r)) rows"
  "sb_miso_bits (word_bits cfg rows) = noted (sc_need_miso cfg) (\<lambda>r. snd (snd r)) rows"
proof -
  have "sb_timestamps (word_bits cfg rows) = noted (sc_need_mosi cfg \<or> sc_need_miso cfg) (\<lambda>r. Some (fst r)) rows \<and>
    sb_mosi_bits (word_bits cfg rows) = noted (sc_need_mosi cfg) (\<lambda>r. fst (snd r)) rows \<and>
    sb_miso_bits (word_bits cfg rows) = noted (sc_need_miso cfg) (\<lambda>r. snd (snd r)) rows"
  proof (induction rows rule: rev_induct)
    case Nil
    show ?case by (simp add: word_bits_def no_bits_def)
  next
    case (snoc row rows)
    obtain t a b where row: "row = (t, a, b)" by (cases row)
    show ?case
      using snoc unfolding noted_snoc unfolding row word_bits_snoc
      by (cases a; cases b) (simp_all add: record_bit_def Let_def)
  qed
  then show "sb_timestamps (word_bits cfg rows) = noted (sc_need_mosi cfg \<or> sc_need_miso cfg) (\<lambda>r. Some (fst r)) rows"
    "sb_mosi_bits (word_bits cfg rows) = noted (sc_need_mosi cfg) (\<lambda>r. fst (snd r)) rows"
    "sb_miso_bits (word_bits cfg rows) = noted (sc_need_miso cfg) (\<lambda>r. snd (snd r)) rows" by simp_all
qed

text \<open>
  The specification of a window: its sampled bits are cut into words, each of which gives a word, its
  annotations and an entry of the transaction.
\<close>

definition word_span :: "u64 \<Rightarrow> bit_row list \<Rightarrow> decoded_word" where
  "word_span v g = word_spanning v (fst (hd g)) (saturating_sub (fst (last g)) (fst (hd g)))"

definition word_notes :: "spi_config \<Rightarrow> u64 \<Rightarrow> bool list \<Rightarrow> bit_row list \<Rightarrow> (decoded_word list \<times> decoded_word) option" where
  "word_notes cfg v bits g = spi_word_annotations v bits (noted (sc_need_mosi cfg \<or> sc_need_miso cfg) (\<lambda>r. Some (fst r)) g)"

definition spi_result :: "spi_config \<Rightarrow> bit_row list list \<Rightarrow> spi_batches" where
  "spi_result cfg gs =
     (let d = sc_node cfg;
          mosi = (\<lambda>g. spi_value (sd_bit_order d) (mosi_of g)); miso = (\<lambda>g. spi_value (sd_bit_order d) (miso_of g));
          mosi_notes = (\<lambda>g. word_notes cfg (mosi g) (noted (sc_need_mosi cfg) (\<lambda>r. fst (snd r)) g) g);
          miso_notes = (\<lambda>g. word_notes cfg (miso g) (noted (sc_need_miso cfg) (\<lambda>r. snd (snd r)) g) g)
      in \<lparr>bt_mosi = map (\<lambda>g. word_span (mosi g) g) gs, bt_miso = map (\<lambda>g. word_span (miso g) g) gs,
          bt_mosi_bits = concat (map (\<lambda>g. case mosi_notes g of None \<Rightarrow> [] | Some (bits, _) \<Rightarrow> bits) gs),
          bt_mosi_data = concat (map (\<lambda>g. case mosi_notes g of None \<Rightarrow> [] | Some (_, data) \<Rightarrow> [data]) gs),
          bt_miso_bits = concat (map (\<lambda>g. case miso_notes g of None \<Rightarrow> [] | Some (bits, _) \<Rightarrow> bits) gs),
          bt_miso_data = concat (map (\<lambda>g. case miso_notes g of None \<Rightarrow> [] | Some (_, data) \<Rightarrow> [data]) gs),
          bt_mosi_words = (if sd_has_mosi d then map mosi gs else []),
          bt_miso_words = (if sd_has_miso d then map miso gs else []), bt_count = length gs\<rparr>)"

lemma emit_words:
  assumes "0 < sd_bits_per_word (sc_node cfg)" "sd_bits_per_word (sc_node cfg) \<le> 64"
    and "\<forall>g\<in>set gs. length g = sd_bits_per_word (sc_node cfg)"
  shows "fold (\<lambda>g. emit_word cfg (word_bits cfg g)) gs no_batches = spi_result cfg gs"
  using assms(3)
proof (induction gs rule: rev_induct)
  case Nil
  show ?case by (simp add: no_batches_def spi_result_def Let_def)
next
  case (snoc g gs)
  have g: "length g = sd_bits_per_word (sc_node cfg)" "g \<noteq> []" using snoc.prems assms(1) by auto
  have "fold (\<lambda>g. emit_word cfg (word_bits cfg g)) (gs @ [g]) no_batches = emit_word cfg (word_bits cfg g) (spi_result cfg gs)"
    using snoc by simp
  also have "\<dots> = spi_result cfg (gs @ [g])"
    unfolding emit_word_def word_bits_span [OF g(2)] word_bits_value [OF g(1) assms(2)] word_bits_notes
    by (simp add: spi_result_def Let_def word_span_def word_notes_def)
  finally show ?case .
qed

lemma row_groups_length: "g \<in> set (row_groups n rows) \<Longrightarrow> length g = n"
proof -
  assume "g \<in> set (row_groups n rows)"
  then obtain k where k: "k < length rows div n" "g = take n (drop (n * k) rows)" by (auto simp: row_groups_def)
  have "Suc k * n \<le> length rows div n * n" using k(1) by (intro mult_le_mono1) simp
  also have "\<dots> \<le> length rows" by simp
  finally show ?thesis using k(2) by (simp add: algebra_simps)
qed

lemma absorb_window:
  assumes "0 < sd_bits_per_word (sc_node cfg)" "sd_bits_per_word (sc_node cfg) \<le> 64"
  shows "snd (absorb_rows cfg rows (no_bits, no_batches)) = spi_result cfg (row_groups (sd_bits_per_word (sc_node cfg)) rows)"
    and "sb_collected (fst (absorb_rows cfg rows (no_bits, no_batches))) = length rows mod sd_bits_per_word (sc_node cfg)"
proof -
  have groups: "\<forall>g\<in>set (row_groups (sd_bits_per_word (sc_node cfg)) rows). length g = sd_bits_per_word (sc_node cfg)"
    using row_groups_length by blast
  show "snd (absorb_rows cfg rows (no_bits, no_batches)) = spi_result cfg (row_groups (sd_bits_per_word (sc_node cfg)) rows)"
    by (simp add: absorb_words [OF assms(1)] Let_def emit_words [OF assms groups])
  have "sb_collected (word_bits cfg g) = length g" for g by (simp add: word_bits_def collected_fold no_bits_def)
  then show "sb_collected (fst (absorb_rows cfg rows (no_bits, no_batches))) = length rows mod sd_bits_per_word (sc_node cfg)"
    by (simp add: absorb_words [OF assms(1)] Let_def minus_mult_div_eq_mod)
qed

section \<open>A whole call\<close>

text \<open>The first window of the chip select: its start, its end, and whether the select is released there.\<close>

definition select_active :: "cs_polarity \<Rightarrow> bool \<Rightarrow> bool" where
  "select_active polarity level \<longleftrightarrow> polarity = Disabled \<or> (level \<longleftrightarrow> polarity = ActiveHigh)"

lemma select_active_eq: "select_active = cs_is_active"
  by (auto simp: fun_eq_iff select_active_def cs_is_active_def split: cs_polarity.split)

definition cs_window :: "cs_polarity \<Rightarrow> sample list \<Rightarrow> (u64 \<times> u64 \<times> bool) option" where
  "cs_window polarity xs =
     (case dropWhile (\<lambda>e. \<not> select_active polarity (s_value e)) xs of
        [] \<Rightarrow> None
      | e0 # ys \<Rightarrow>
          (case dropWhile (\<lambda>e. select_active polarity (s_value e)) ys of
             e1 # _ \<Rightarrow> Some (s_start_time_ns e0, s_start_time_ns e1, True)
           | [] \<Rightarrow> if ys \<noteq> [] \<and> s_start_time_ns e0 < s_start_time_ns (last ys)
                   then Some (s_start_time_ns e0, s_start_time_ns (last ys), polarity = Disabled) else None))"

lemma wait_active_first:
  assumes "dropWhile (\<lambda>e. \<not> cs_is_active polarity (s_value e)) (stream r) = e0 # ys" "ends r"
  shows "\<exists>r'. wait_active polarity r = Some (Inr (s_start_time_ns e0), r') \<and> stream r' = ys \<and> ends r'"
  using assms
proof (induction "stream r" arbitrary: r)
  case (Cons x xs)
  obtain r1 where r1: "recv r = Some (Inr x, r1)" "stream r1 = xs" "ends r1"
    using rx.receive_item [OF Cons(2) [symmetric]] Cons(4) by auto
  show ?case
  proof (cases "cs_is_active polarity (s_value x)")
    case True
    then show ?thesis using Cons(3) r1 unfolding Cons(2) [symmetric] by (simp add: wait_active.simps [of _ r])
  next
    case False
    then have "dropWhile (\<lambda>e. \<not> cs_is_active polarity (s_value e)) (stream r1) = e0 # ys"
      using Cons(3) r1(2) unfolding Cons(2) [symmetric] by simp
    from Cons(1) [OF r1(2) [symmetric] this r1(3)] False r1(1) show ?thesis by (simp add: wait_active.simps [of _ r])
  qed
qed simp

lemma wait_inactive_released:
  assumes "dropWhile (\<lambda>e. cs_is_active polarity (s_value e)) (stream r) = e1 # ys" "ends r"
  shows "\<exists>r'. wait_inactive polarity start t r = Some (Inr (s_start_time_ns e1, True), r')"
  using assms
proof (induction "stream r" arbitrary: r t)
  case (Cons x xs)
  obtain r1 where r1: "recv r = Some (Inr x, r1)" "stream r1 = xs" "ends r1"
    using rx.receive_item [OF Cons(2) [symmetric]] Cons(4) by auto
  show ?case
  proof (cases "cs_is_active polarity (s_value x)")
    case False
    then show ?thesis using Cons(3) r1 unfolding Cons(2) [symmetric] by (simp add: wait_inactive.simps [of _ _ _ r])
  next
    case True
    then have "dropWhile (\<lambda>e. cs_is_active polarity (s_value e)) (stream r1) = e1 # ys"
      using Cons(3) r1(2) unfolding Cons(2) [symmetric] by simp
    from Cons(1) [OF r1(2) [symmetric] this r1(3)] True r1(1) show ?thesis by (simp add: wait_inactive.simps [of _ _ _ r])
  qed
qed simp

lemma wait_inactive_end:
  assumes "\<forall>e\<in>set (stream r). cs_is_active polarity (s_value e)" "ends r"
    and "start < (if stream r = [] then t else s_start_time_ns (last (stream r)))"
  shows "\<exists>r'. wait_inactive polarity start t r =
    Some (Inr (if stream r = [] then t else s_start_time_ns (last (stream r)), polarity = Disabled), r')"
  using assms
proof (induction "stream r" arbitrary: r t)
  case Nil
  then obtain r1 where "recv r = Some (Inl Shutdown, r1)" using rx.receive_end [of r] by auto
  then show ?case using Nil(1,4) by (simp add: wait_inactive.simps [of _ _ _ r])
next
  case (Cons x xs)
  obtain r1 where r1: "recv r = Some (Inr x, r1)" "stream r1 = xs" "ends r1"
    using rx.receive_item [OF Cons(2) [symmetric]] Cons(4) by auto
  have later: "(if stream r1 = [] then s_start_time_ns x else s_start_time_ns (last (stream r1))) =
      (if stream r = [] then t else s_start_time_ns (last (stream r)))" using Cons(2) r1(2) by (auto simp: Cons(2) [symmetric])
  have active: "\<forall>e\<in>set (stream r1). cs_is_active polarity (s_value e)"
    using Cons(3) r1(2) by (simp add: Cons(2) [symmetric])
  obtain r' where
    "wait_inactive polarity start (s_start_time_ns x) r1 =
      Some (Inr (if stream r = [] then t else s_start_time_ns (last (stream r)), polarity = Disabled), r')"
    using Cons(1) [OF r1(2) [symmetric] active r1(3), of "s_start_time_ns x", unfolded later] Cons(5) by blast
  moreover have "cs_is_active polarity (s_value x)" using Cons(3) by (simp add: Cons(2) [symmetric])
  ultimately show ?case using r1(1) by (simp add: wait_inactive.simps [of _ _ _ r])
qed

lemma cs_window_waits:
  assumes "cs_window polarity (stream r) = Some (start, stop, deasserted)" "ends r"
  shows "\<exists>r1 r2. wait_active polarity r = Some (Inr start, r1) \<and>
    wait_inactive polarity start start r1 = Some (Inr (stop, deasserted), r2)"
proof -
  obtain e0 ys where first: "dropWhile (\<lambda>e. \<not> cs_is_active polarity (s_value e)) (stream r) = e0 # ys"
    using assms(1) by (auto simp: cs_window_def select_active_eq split: list.splits)
  obtain r1 where r1: "wait_active polarity r = Some (Inr (s_start_time_ns e0), r1)" "stream r1 = ys" "ends r1"
    using wait_active_first [OF first assms(2)] by auto
  show ?thesis
  proof (cases "dropWhile (\<lambda>e. cs_is_active polarity (s_value e)) ys")
    case Nil
    then have active: "\<forall>e\<in>set (stream r1). cs_is_active polarity (s_value e)" using r1(2) by (simp add: dropWhile_eq_Nil_conv)
    have w: "ys \<noteq> []" "s_start_time_ns e0 < s_start_time_ns (last ys)" "start = s_start_time_ns e0"
      "stop = s_start_time_ns (last ys)" "deasserted = (polarity = Disabled)"
      using assms(1) by (simp_all add: cs_window_def select_active_eq first Nil split: if_splits)
    show ?thesis using wait_inactive_end [OF active r1(3), of start start] w r1 by simp
  next
    case (Cons e1 zs)
    then show ?thesis
      using assms(1) r1 wait_inactive_released [of polarity r1 e1 zs] by (auto simp: cs_window_def select_active_eq first)
  qed
qed

lemma drain_stands:
  assumes "stream r = l" "ends r" "\<not> rx_eos r" "2 \<le> length (line_from t l)"
  shows "\<exists>r'. drain_before r t s_start_time_ns = Some (Inr (), r') \<and> stands (marked r) l t r'"
  using assms
proof (induction t l arbitrary: r rule: line_from.induct)
  case (3 t x y zs)
  obtain r1 where r1: "recv r = Some (Inr x, r1)" "stream r1 = y # zs" "ends r1"
    using rx.receive_item [OF 3(2)] 3(3) by auto
  obtain r2 where r2: "peek r1 = Some (Inr y, r2)" "stream r2 = y # zs" "ends r2" "\<not> rx_eos r2"
    using peek_item [OF r1(2)] r1(3) by auto
  have m: "marked r2 \<longleftrightarrow> marked r" using recv_marked [OF r1(1)] peek_marked [OF r2(1)] by simp
  show ?case
  proof (cases "s_start_time_ns y \<le> t")
    case True
    then have "drain_before r t s_start_time_ns = drain_before r2 t s_start_time_ns"
      using r1(1) r2(1) by (simp add: drain_before.simps [of r])
    moreover obtain r' where "drain_before r2 t s_start_time_ns = Some (Inr (), r')" "stands (marked r2) (y # zs) t r'"
      using 3(1) [OF True r2(2-4)] 3(5) True by auto
    ultimately show ?thesis using m True by (simp add: stands_def)
  next
    case False
    moreover have "marked (put_back r2 x) \<longleftrightarrow> marked r2" "\<not> rx_eos (put_back r2 x)"
      using r2(4) by (simp_all add: marked_def put_back_def)
    ultimately show ?thesis using r1(1) r2 m by (simp add: drain_before.simps [of r] stands_def stream_put_back)
  qed
qed simp_all

text \<open>A line that covers the window: a level at its start and an item at or after its end.\<close>

definition covers :: "sample list \<Rightarrow> u64 \<Rightarrow> u64 \<Rightarrow> bool" where
  "covers line start stop \<longleftrightarrow> line_ok line start \<and> (\<exists>s\<in>set line. stop \<le> s_start_time_ns s)"

lemma covers_two:
  assumes "covers line start stop" "start < stop"
  shows "2 \<le> length (line_from start line)"
proof -
  have line: "line \<noteq> []" "sorted_by s_start_time_ns line" "s_start_time_ns (hd line) \<le> start"
    using assms(1) by (auto simp: covers_def line_ok_def)
  obtain s where s: "s \<in> set line" "stop \<le> s_start_time_ns s" using assms(1) by (auto simp: covers_def)
  then have "start < s_start_time_ns s" using assms(2) by simp
  then have "length (line_from start line) \<noteq> 1" using line_from_single [OF line(2,1,3)] s(1) by (auto simp: not_le [symmetric])
  moreover have "line_from start line \<noteq> []" using line(1) by simp
  ultimately show ?thesis by (cases "line_from start line") (simp_all add: Suc_le_eq)
qed

text \<open>The data lines as a call finds them.\<close>

definition data_of :: "bool \<Rightarrow> sample receiver option \<Rightarrow> data_line" where
  "data_of has r = (if has then map_option (\<lambda>rx. (marked rx, stream rx)) r else None)"

definition line_covers :: "bool \<Rightarrow> sample receiver option \<Rightarrow> u64 \<Rightarrow> u64 \<Rightarrow> bool" where
  "line_covers has r start stop \<longleftrightarrow>
     (has \<longrightarrow> (case r of None \<Rightarrow> False | Some rx \<Rightarrow> ends rx \<and> \<not> rx_eos rx \<and> covers (stream rx) start stop))"

lemma drain_line_covers:
  assumes "line_covers has r start stop" "start < stop"
  shows "\<exists>r'. drain_line start (if has then r else None) = Some (Inr (), r') \<and> line_at (data_of has r) start r'"
proof (cases "has")
  case True
  then obtain rx where rx: "r = Some rx" "ends rx" "\<not> rx_eos rx" "covers (stream rx) start stop"
    using assms(1) by (auto simp: line_covers_def split: option.splits)
  then show ?thesis
    using drain_stands [OF refl rx(2,3) covers_two [OF rx(4) assms(2)]] True
    by (auto simp: drain_line_def line_at_def data_of_def)
qed (simp add: drain_line_def line_at_def data_of_def)

lemma ready_covers:
  assumes "line_covers has r start stop" "start < s_start_time_ns e" "s_start_time_ns e < stop"
  shows "ready (data_of has r) start (sample_time_of e)" "max start (sample_time_of e) = sample_time_of e"
    "read_line (data_of has r) (sample_time_of e) =
      map_option (\<lambda>(m, l). level_at False l (sample_time_of e)) (data_of has r)"
proof -
  have t: "start \<le> sample_time_of e" "sample_time_of e < stop"
    using assms(2,3) by (auto simp: sample_time_of_def word_le_nat_alt word_less_nat_alt sat_simps)
  then show max: "max start (sample_time_of e) = sample_time_of e" by (simp add: max_absorb2)
  have *: "(ready (data_of has r) start (sample_time_of e)) \<and> (read_line (data_of has r) (sample_time_of e) =
      map_option (\<lambda>(m, l). level_at False l (sample_time_of e)) (data_of has r))"
  proof (cases "has")
    case True
    then obtain rx where rx: "r = Some rx" "line_ok (stream rx) start" "\<exists>s\<in>set (stream rx). stop \<le> s_start_time_ns s"
      using assms(1) by (auto simp: line_covers_def covers_def split: option.splits)
    have line: "stream rx \<noteq> []" "sorted_by s_start_time_ns (stream rx)" "s_start_time_ns (hd (stream rx)) \<le> start"
      using rx(2) by (auto simp: line_ok_def)
    have "safe (marked rx) (stream rx) (sample_time_of e)" using rx(3) t(2) by (force simp: safe_def)
    moreover have "s_start_time_ns (hd (line_from start (stream rx))) \<le> sample_time_of e"
      using line_from_hd [OF line(1,3)] t(1) by (rule order_trans)
    moreover have "s_value (hd (line_from (sample_time_of e) (stream rx))) = level_at False (stream rx) (sample_time_of e)"
      using line t(1) by (intro line_from_level) auto
    ultimately show ?thesis using True rx(1) line(1,2) max by (simp add: ready_def data_of_def read_line_def reads_def)
  qed (simp add: ready_def data_of_def read_line_def)
  then show "ready (data_of has r) start (sample_time_of e)"
    "read_line (data_of has r) (sample_time_of e) = map_option (\<lambda>(m, l). level_at False l (sample_time_of e)) (data_of has r)"
    by simp_all
qed

lemma filter_takeWhile_sorted:
  "sorted_by s_start_time_ns xs \<Longrightarrow> filter (\<lambda>e. s_start_time_ns e < stop) xs = takeWhile (\<lambda>e. s_start_time_ns e < stop) xs"
proof (induction xs)
  case (Cons x xs)
  show ?case
  proof (cases "s_start_time_ns x < stop")
    case True
    then show ?thesis using Cons by simp
  next
    case False
    then have "\<forall>e\<in>set (x # xs). \<not> s_start_time_ns e < stop" using Cons.prems by (force simp: not_less)
    then have "filter (\<lambda>e. s_start_time_ns e < stop) (x # xs) = []" by (simp only: filter_False)
    then show ?thesis using False by simp
  qed
qed simp

text \<open>The clock inside the window: the level it enters with, then its edges.\<close>

lemma clock_window:
  assumes "line_ok line start" "start < stop"
  shows "\<exists>e0 rest. line_from start line = e0 # filter (\<lambda>e. start < s_start_time_ns e \<and> s_start_time_ns e < stop) line @ rest \<and>
    s_start_time_ns e0 \<le> start \<and> s_value e0 = level_at v line start \<and> (rest = [] \<or> stop \<le> s_start_time_ns (hd rest))"
  using assms(1)
proof (induction start line rule: line_from.induct)
  case (2 start x)
  then show ?case using assms(2) by (auto simp: line_ok_def)
next
  case (3 start x y zs)
  show ?case
  proof (cases "s_start_time_ns y \<le> start")
    case True
    have "line_ok (y # zs) start" using 3(2) True by (simp add: line_ok_def)
    from 3(1) [OF True this] True 3(2) show ?thesis by (auto simp: line_ok_def)
  next
    case False
    let ?ys = "y # zs"
    have order: "sorted_by s_start_time_ns ?ys" "\<forall>s\<in>set ?ys. start < s_start_time_ns s" "s_start_time_ns x \<le> start"
      using 3(2) False by (force simp: line_ok_def)+
    have "filter (\<lambda>e. start < s_start_time_ns e \<and> s_start_time_ns e < stop) (x # ?ys) = filter (\<lambda>e. s_start_time_ns e < stop) ?ys"
      using order by (auto intro: filter_cong)
    then have "line_from start (x # ?ys) = x # filter (\<lambda>e. start < s_start_time_ns e \<and> s_start_time_ns e < stop) (x # ?ys) @
        dropWhile (\<lambda>e. s_start_time_ns e < stop) ?ys"
      using False filter_takeWhile_sorted [OF order(1)] by simp
    moreover have "s_value x = level_at v (x # ?ys) start" using order level_at_later [of ?ys start "s_value x"] by simp
    moreover have "dropWhile (\<lambda>e. s_start_time_ns e < stop) ?ys = [] \<or>
        stop \<le> s_start_time_ns (hd (dropWhile (\<lambda>e. s_start_time_ns e < stop) ?ys))"
      using hd_dropWhile [of "\<lambda>e. s_start_time_ns e < stop" ?ys] by (simp only: not_less) blast
    ultimately show ?thesis using order(3) by blast
  qed
qed (simp add: line_ok_def)

lemma spi_drain_covers:
  assumes "ends clk" "\<not> rx_eos clk" "covers (stream clk) start stop" "start < stop"
    and "line_covers (sd_has_mosi (sx_node c)) (sx_mosi c) start stop" "line_covers (sd_has_miso (sx_node c)) (sx_miso c) start stop"
  shows "\<exists>ls. spi_drain start (spi_lines_of c clk) = Some (Inr (), ls) \<and> stands (marked clk) (stream clk) start (sl_clk ls) \<and>
    line_at (data_of (sd_has_mosi (sx_node c)) (sx_mosi c)) start (sl_mosi ls) \<and>
    line_at (data_of (sd_has_miso (sx_node c)) (sx_miso c)) start (sl_miso ls)"
proof -
  obtain clk' where "drain_before clk start s_start_time_ns = Some (Inr (), clk')" "stands (marked clk) (stream clk) start clk'"
    using drain_stands [OF refl assms(1,2) covers_two [OF assms(3,4)]] by auto
  moreover obtain mosi where "drain_line start (if sd_has_mosi (sx_node c) then sx_mosi c else None) = Some (Inr (), mosi)"
    "line_at (data_of (sd_has_mosi (sx_node c)) (sx_mosi c)) start mosi"
    using drain_line_covers [OF assms(5,4)] by auto
  moreover obtain miso where "drain_line start (if sd_has_miso (sx_node c) then sx_miso c else None) = Some (Inr (), miso)"
    "line_at (data_of (sd_has_miso (sx_node c)) (sx_miso c)) start miso"
    using drain_line_covers [OF assms(6,4)] by auto
  ultimately show ?thesis by (simp add: spi_drain_def spi_lines_of_def)
qed

text \<open>What a call hands on of a window whose sampled bits are \<open>rows\<close>.\<close>

definition spi_reports :: "spi_ctx \<Rightarrow> u64 \<Rightarrow> u64 \<Rightarrow> bool \<Rightarrow> bit_row list \<Rightarrow> spi_ctx \<Rightarrow> bool" where
  "spi_reports c start stop deasserted rows c' \<longleftrightarrow>
     (let d = sx_node c; n = sd_bits_per_word d; out = spi_result (spi_config_of c start stop) (row_groups n rows);
          mosi = (\<lambda>ws. if sd_has_mosi d then ws else []); miso = (\<lambda>ws. if sd_has_miso d then ws else [])
      in log_of (sx_mosi_words c') = log_of (sx_mosi_words c) @ mosi (bt_mosi out) \<and>
         log_of (sx_mosi_bits c') = log_of (sx_mosi_bits c) @ mosi (bt_mosi_bits out) \<and>
         log_of (sx_mosi_data c') = log_of (sx_mosi_data c) @ mosi (bt_mosi_data out) \<and>
         log_of (sx_miso_words c') = log_of (sx_miso_words c) @ miso (bt_miso out) \<and>
         log_of (sx_miso_bits c') = log_of (sx_miso_bits c) @ miso (bt_miso_bits out) \<and>
         log_of (sx_miso_data c') = log_of (sx_miso_data c) @ miso (bt_miso_data out) \<and>
         log_of (sx_transactions c') =
           log_of (sx_transactions c) @ [spi_packet d start stop deasserted (length rows mod n) out] \<and>
         sd_tx_count (sx_node c') = sd_tx_count d + of_nat (length rows div n))"

definition spi_accepting :: "spi_ctx \<Rightarrow> bool" where
  "spi_accepting c \<longleftrightarrow>
     accepting (sx_mosi_words c) \<and> accepting (sx_mosi_bits c) \<and> accepting (sx_mosi_data c) \<and>
     accepting (sx_miso_words c) \<and> accepting (sx_miso_bits c) \<and> accepting (sx_miso_data c) \<and> accepting (sx_transactions c)"

lemma put_port_batch:
  "accepting port \<Longrightarrow> \<exists>p. send_batch_opt port xs = (None, Some p) \<and> open_port p \<and> sent p = log_of port @ xs"
  by (auto simp: accepting_def send_batch_opt_def port_simps)

lemma send_opt_accepting:
  "accepting port \<Longrightarrow> \<exists>p. send_opt port x = (None, Some p) \<and> open_port p \<and> sent p = log_of port @ [x]"
  by (auto simp: accepting_def send_opt_def port_simps)

lemma spi_deliver_accepting:
  assumes "spi_accepting c"
  shows "\<exists>c'. spi_deliver out packet c = (None, c') \<and> sx_node c' = sx_node c \<and> sx_clk c' = sx_clk c \<and>
    log_of (sx_mosi_words c') = log_of (sx_mosi_words c) @ (if sd_has_mosi (sx_node c) then bt_mosi out else []) \<and>
    log_of (sx_mosi_bits c') = log_of (sx_mosi_bits c) @ (if sd_has_mosi (sx_node c) then bt_mosi_bits out else []) \<and>
    log_of (sx_mosi_data c') = log_of (sx_mosi_data c) @ (if sd_has_mosi (sx_node c) then bt_mosi_data out else []) \<and>
    log_of (sx_miso_words c') = log_of (sx_miso_words c) @ (if sd_has_miso (sx_node c) then bt_miso out else []) \<and>
    log_of (sx_miso_bits c') = log_of (sx_miso_bits c) @ (if sd_has_miso (sx_node c) then bt_miso_bits out else []) \<and>
    log_of (sx_miso_data c') = log_of (sx_miso_data c) @ (if sd_has_miso (sx_node c) then bt_miso_data out else []) \<and>
    log_of (sx_transactions c') = log_of (sx_transactions c) @ [packet]"
proof -
  obtain p1 p2 p3 p4 p5 p6 p7 where p: "sx_mosi_words c = Some p1" "open_port p1" "sx_mosi_bits c = Some p2" "open_port p2"
    "sx_mosi_data c = Some p3" "open_port p3" "sx_miso_words c = Some p4" "open_port p4" "sx_miso_bits c = Some p5" "open_port p5"
    "sx_miso_data c = Some p6" "open_port p6" "sx_transactions c = Some p7" "open_port p7"
    using assms by (auto simp: spi_accepting_def accepting_def)
  show ?thesis
    by (cases "sd_has_mosi (sx_node c)"; cases "sd_has_miso (sx_node c)")
      (simp_all add: spi_deliver_def Let_def p put_port_def send_batch_opt_def send_opt_def port_simps)
qed

lemma spi_window_reports:
  assumes "ends clk" "\<not> rx_eos clk" "covers (stream clk) start stop" "start < stop" "spi_accepting c"
    and "line_covers (sd_has_mosi (sx_node c)) (sx_mosi c) start stop" "line_covers (sd_has_miso (sx_node c)) (sx_miso c) start stop"
    and "0 < sd_bits_per_word (sx_node c)" "sd_bits_per_word (sx_node c) \<le> 64"
    and "line_from start (stream clk) = xs @ rest" "\<forall>e\<in>set xs. s_start_time_ns e < stop" "rest = [] \<or> stop \<le> s_start_time_ns (hd rest)"
    and "edges = sampling_edges (samples_on_rising (sx_node c)) (sd_prev_clk (sx_node c)) xs"
    and "mosi = data_of (sd_has_mosi (sx_node c)) (sx_mosi c)" "miso = data_of (sd_has_miso (sx_node c)) (sx_miso c)"
    and "\<forall>e\<in>set edges. ready mosi start (sample_time_of e) \<and> ready miso start (sample_time_of e)"
  shows "\<exists>c' clk'. spi_window start stop deasserted clk c =
      Some (Inr (max (length edges div sd_bits_per_word (sx_node c)) 1), c') \<and>
    spi_reports c start stop deasserted (map (row_of mosi miso start) edges) c' \<and>
    sd_prev_clk (sx_node c') = last_level (sd_prev_clk (sx_node c)) xs \<and> sx_clk c' = Some clk' \<and> stream clk' = rest"
proof -
  let ?cfg = "spi_config_of c start stop" and ?rows = "map (row_of mosi miso start) edges" and ?n = "sd_bits_per_word (sx_node c)"
  have cfg: "sc_node ?cfg = sx_node c" "sc_stop ?cfg = stop" by (simp_all add: spi_config_of_def Let_def)
  obtain ls where ls: "spi_drain start (spi_lines_of c clk) = Some (Inr (), ls)" "stands (marked clk) (stream clk) start (sl_clk ls)"
    "line_at mosi start (sl_mosi ls)" "line_at miso start (sl_miso ls)"
    using spi_drain_covers [OF assms(1-4,6,7)] assms(14,15) by auto
  have clk: "stream (sl_clk ls) = xs @ rest" "ends (sl_clk ls)" "\<not> rx_eos (sl_clk ls)"
    using ls(2) assms(10) by (simp_all add: stands_def)
  have "sorted_by s_start_time_ns (xs @ rest)"
    using line_from_sorted [of "stream clk" start] assms(3,10) by (simp add: covers_def line_ok_def)
  then have order: "sorted_by s_start_time_ns xs" by (induction xs) auto
  have "\<exists>ls' s'. spi_loop ?cfg (sd_prev_clk (sx_node c)) ls (no_bits, no_batches) =
        Some (Inr (last_level (sd_prev_clk (sx_node c)) xs, sb_collected (fst s'), snd s'), ls') \<and>
      s' = absorb_rows ?cfg (map (row_of mosi miso start) (sampling_edges (samples_on_rising (sc_node ?cfg)) (sd_prev_clk (sx_node c)) xs)) (no_bits, no_batches) \<and>
      stream (sl_clk ls') = rest \<and> ends (sl_clk ls') \<and> (\<exists>u'\<ge>start. line_at mosi u' (sl_mosi ls') \<and> line_at miso u' (sl_miso ls'))"
    using assms(8,11,12,13,16) clk order ls(3,4) by (intro spi_loop_reads) (simp_all add: cfg no_bits_def)
  then obtain ls' s' where loop: "spi_loop ?cfg (sd_prev_clk (sx_node c)) ls (no_bits, no_batches) =
        Some (Inr (last_level (sd_prev_clk (sx_node c)) xs, sb_collected (fst s'), snd s'), ls')"
      "s' = absorb_rows ?cfg ?rows (no_bits, no_batches)" "stream (sl_clk ls') = rest"
    unfolding cfg assms(13) [symmetric] by blast
  define out where "out = spi_result ?cfg (row_groups ?n ?rows)"
  have result: "snd s' = out" "sb_collected (fst s') = length edges mod ?n"
    using absorb_window [of ?cfg ?rows] assms(8,9) by (simp_all add: loop(2) cfg out_def)
  have count: "bt_count out = length edges div ?n" by (simp add: out_def spi_result_def Let_def row_groups_def)
  let ?c = "put_lines ls' c"
  have "spi_accepting ?c" using assms(5) by (simp add: spi_accepting_def put_lines_def)
  from spi_deliver_accepting [OF this, of out "spi_packet (sx_node c) start stop deasserted (length edges mod ?n) out"]
  obtain c1 where c1: "spi_deliver out (spi_packet (sx_node c) start stop deasserted (length edges mod ?n) out) ?c = (None, c1)"
    "sx_node c1 = sx_node c" "sx_clk c1 = Some (sl_clk ls')"
    "log_of (sx_mosi_words c1) = log_of (sx_mosi_words c) @ (if sd_has_mosi (sx_node c) then bt_mosi out else [])"
    "log_of (sx_mosi_bits c1) = log_of (sx_mosi_bits c) @ (if sd_has_mosi (sx_node c) then bt_mosi_bits out else [])"
    "log_of (sx_mosi_data c1) = log_of (sx_mosi_data c) @ (if sd_has_mosi (sx_node c) then bt_mosi_data out else [])"
    "log_of (sx_miso_words c1) = log_of (sx_miso_words c) @ (if sd_has_miso (sx_node c) then bt_miso out else [])"
    "log_of (sx_miso_bits c1) = log_of (sx_miso_bits c) @ (if sd_has_miso (sx_node c) then bt_miso_bits out else [])"
    "log_of (sx_miso_data c1) = log_of (sx_miso_data c) @ (if sd_has_miso (sx_node c) then bt_miso_data out else [])"
    "log_of (sx_transactions c1) = log_of (sx_transactions c) @ [spi_packet (sx_node c) start stop deasserted (length edges mod ?n) out]"
    by (auto simp: put_lines_def)
  have node: "sx_node ?c = sx_node c" by (simp add: put_lines_def)
  show ?thesis
    unfolding spi_window_def
    by (simp add: ls(1) loop(1) spi_finish_def result node c1(1-3) count spi_reports_def Let_def
        out_def [symmetric] c1(4-10) loop(3) split del: if_split) (simp add: out_def)
qed

text \<open>
  The specification of a window: the clock's sampling edges inside it, rising or falling as the mode says, and at
  each of them the levels of the data lines just before.
\<close>

definition rising_mode :: "spi_mode \<Rightarrow> bool" where
  "rising_mode mode = (case mode of Mode0 \<Rightarrow> True | Mode1 \<Rightarrow> False | Mode2 \<Rightarrow> False | Mode3 \<Rightarrow> True)"

lemma rising_mode_eq: "rising_mode (sd_mode d) = samples_on_rising d"
  by (cases "sd_mode d") (simp_all add: rising_mode_def samples_on_rising_def)

definition window_edges :: "bool \<Rightarrow> sample list \<Rightarrow> u64 \<Rightarrow> u64 \<Rightarrow> sample list" where
  "window_edges rising clk start stop =
     sampling_edges rising (level_at False clk start) (filter (\<lambda>e. start < s_start_time_ns e \<and> s_start_time_ns e < stop) clk)"

definition shown_level :: "bool \<Rightarrow> sample receiver option \<Rightarrow> u64 \<Rightarrow> bool option" where
  "shown_level has r t = (if has then map_option (\<lambda>rx. level_at False (stream rx) t) r else None)"

definition window_rows :: "spi_ctx \<Rightarrow> sample list \<Rightarrow> u64 \<Rightarrow> u64 \<Rightarrow> bit_row list" where
  "window_rows c clk start stop =
     map (\<lambda>e. (s_start_time_ns e, shown_level (sd_has_mosi (sx_node c)) (sx_mosi c) (sample_time_of e),
                shown_level (sd_has_miso (sx_node c)) (sx_miso c) (sample_time_of e)))
       (window_edges (rising_mode (sd_mode (sx_node c))) clk start stop)"

lemma window_edges_inside: "e \<in> set (window_edges rising clk start stop) \<Longrightarrow> start < s_start_time_ns e \<and> s_start_time_ns e < stop"
  using sampling_edges_subset unfolding window_edges_def by fastforce

lemma shown_level_data: "shown_level has r t = map_option (\<lambda>(m, l). level_at False l t) (data_of has r)"
  by (simp add: shown_level_def data_of_def option.map_comp comp_def)

lemma row_of_window:
  assumes "line_covers (sd_has_mosi (sx_node c)) (sx_mosi c) start stop" "line_covers (sd_has_miso (sx_node c)) (sx_miso c) start stop"
    and "start < s_start_time_ns e \<and> s_start_time_ns e < stop"
  shows "row_of (data_of (sd_has_mosi (sx_node c)) (sx_mosi c)) (data_of (sd_has_miso (sx_node c)) (sx_miso c)) start e =
    (s_start_time_ns e, shown_level (sd_has_mosi (sx_node c)) (sx_mosi c) (sample_time_of e),
      shown_level (sd_has_miso (sx_node c)) (sx_miso c) (sample_time_of e))"
  using ready_covers(2,3) [OF assms(1), of e] ready_covers(3) [OF assms(2), of e] assms(3) by (simp add: row_of_def shown_level_data)

lemma spi_work_window:
  assumes "sx_cs c = Some cs" "ends cs" "cs_window (sd_cs_polarity (sx_node c)) (stream cs) = Some (start, stop, deasserted)"
    and "sx_clk c = Some clk"
    and "line_covers (sd_has_mosi (sx_node c)) (sx_mosi c) start stop" "line_covers (sd_has_miso (sx_node c)) (sx_miso c) start stop"
  shows "\<exists>cs'. spi_work_streamed c = spi_window start stop deasserted clk (c\<lparr>sx_cs := Some cs'\<rparr>)"
proof -
  have "\<not> (sd_has_mosi (sx_node c) \<and> sx_mosi c = None)" "\<not> (sd_has_miso (sx_node c) \<and> sx_miso c = None)"
    using assms(5,6) by (auto simp: line_covers_def split: option.splits)
  then show ?thesis
    using cs_window_waits [OF assms(3,2)] unfolding spi_work_streamed_def assms(1,4) by auto
qed

lemma spi_cs_only [simp]:
  "spi_config_of (c\<lparr>sx_cs := x\<rparr>) = spi_config_of c" "spi_accepting (c\<lparr>sx_cs := x\<rparr>) = spi_accepting c"
  "spi_reports (c\<lparr>sx_cs := x\<rparr>) start stop deasserted rows c' = spi_reports c start stop deasserted rows c'"
  by (simp_all add: fun_eq_iff spi_config_of_def spi_accepting_def spi_reports_def)

text \<open>A call in which the clock enters the window with \<open>e0\<close>.\<close>

lemma spi_work_reports:
  assumes "sx_cs c = Some cs" "ends cs" "cs_window (sd_cs_polarity (sx_node c)) (stream cs) = Some (start, stop, deasserted)"
    and "sx_clk c = Some clk" "ends clk" "\<not> rx_eos clk" "covers (stream clk) start stop" "start < stop"
    and "line_covers (sd_has_mosi (sx_node c)) (sx_mosi c) start stop" "line_covers (sd_has_miso (sx_node c)) (sx_miso c) start stop"
    and "0 < sd_bits_per_word (sx_node c)" "sd_bits_per_word (sx_node c) \<le> 64" "spi_accepting c"
    and "line_from start (stream clk) = (e0 # filter (\<lambda>e. start < s_start_time_ns e \<and> s_start_time_ns e < stop) (stream clk)) @ rest"
    and "s_start_time_ns e0 \<le> start" "rest = [] \<or> stop \<le> s_start_time_ns (hd rest)" "s_value e0 = level_at False (stream clk) start"
    and "edges = (if s_value e0 = sd_prev_clk (sx_node c) \<or> s_value e0 \<noteq> samples_on_rising (sx_node c) then [] else [e0]) @
      window_edges (samples_on_rising (sx_node c)) (stream clk) start stop"
    and "mosi = data_of (sd_has_mosi (sx_node c)) (sx_mosi c)" "miso = data_of (sd_has_miso (sx_node c)) (sx_miso c)"
    and "e0 \<in> set edges \<longrightarrow> ready mosi start (sample_time_of e0) \<and> ready miso start (sample_time_of e0)"
  shows "\<exists>c'. spi_work_streamed c = Some (Inr (max (length edges div sd_bits_per_word (sx_node c)) 1), c') \<and>
    spi_reports c start stop deasserted (map (row_of mosi miso start) edges) c'"
proof -
  obtain cs' where work: "spi_work_streamed c = spi_window start stop deasserted clk (c\<lparr>sx_cs := Some cs'\<rparr>)"
    using spi_work_window [OF assms(1-4,9,10)] by auto
  let ?c = "c\<lparr>sx_cs := Some cs'\<rparr>" and ?in = "filter (\<lambda>e. start < s_start_time_ns e \<and> s_start_time_ns e < stop) (stream clk)"
  have edges: "edges = sampling_edges (samples_on_rising (sx_node ?c)) (sd_prev_clk (sx_node ?c)) (e0 # ?in)"
    using assms(17) by (auto simp: assms(18) window_edges_def)
  have "start < s_start_time_ns e \<and> s_start_time_ns e < stop" if "e \<in> set edges" "e \<noteq> e0" for e
    using that sampling_edges_subset [of _ _ "e0 # ?in"] unfolding edges by fastforce
  then have ready: "\<forall>e\<in>set edges. ready mosi start (sample_time_of e) \<and> ready miso start (sample_time_of e)"
    using assms(19-21) ready_covers(1) [OF assms(9)] ready_covers(1) [OF assms(10)] by metis
  have before: "\<forall>e\<in>set (e0 # ?in). s_start_time_ns e < stop" using assms(8,15) by auto
  have "\<exists>c' clk'. spi_window start stop deasserted clk ?c = Some (Inr (max (length edges div sd_bits_per_word (sx_node ?c)) 1), c') \<and>
      spi_reports ?c start stop deasserted (map (row_of mosi miso start) edges) c' \<and>
      sd_prev_clk (sx_node c') = last_level (sd_prev_clk (sx_node ?c)) (e0 # ?in) \<and> sx_clk c' = Some clk' \<and> stream clk' = rest"
    by (rule spi_window_reports [OF assms(5-8) _ _ _ _ _ assms(14) before assms(16) edges _ _ ready])
      (simp_all add: assms(9-13,19,20))
  then show ?thesis unfolding work by auto
qed

section \<open>Properties\<close>

lemma spi_transaction_reports:
  assumes "sx_cs c = Some cs" "ends cs" "cs_window (sd_cs_polarity (sx_node c)) (stream cs) = Some (start, stop, deasserted)"
    and "sx_clk c = Some clk" "ends clk" "\<not> rx_eos clk" "covers (stream clk) start stop" "start < stop"
    and "line_covers (sd_has_mosi (sx_node c)) (sx_mosi c) start stop" "line_covers (sd_has_miso (sx_node c)) (sx_miso c) start stop"
    and "0 < sd_bits_per_word (sx_node c)" "sd_bits_per_word (sx_node c) \<le> 64" "spi_accepting c"
    and "level_at False (stream clk) start = sd_prev_clk (sx_node c)"
    and "rows = window_rows c (stream clk) start stop"
  shows "\<exists>c'. spi_work_streamed c = Some (Inr (max (length rows div sd_bits_per_word (sx_node c)) 1), c') \<and>
    spi_reports c start stop deasserted rows c'"
proof -
  let ?mosi = "data_of (sd_has_mosi (sx_node c)) (sx_mosi c)" and ?miso = "data_of (sd_has_miso (sx_node c)) (sx_miso c)"
  define edges where "edges = window_edges (samples_on_rising (sx_node c)) (stream clk) start stop"
  obtain e0 rest where clk:
    "line_from start (stream clk) = (e0 # filter (\<lambda>e. start < s_start_time_ns e \<and> s_start_time_ns e < stop) (stream clk)) @ rest"
    "s_start_time_ns e0 \<le> start" "rest = [] \<or> stop \<le> s_start_time_ns (hd rest)" "s_value e0 = level_at False (stream clk) start"
    using clock_window [of "stream clk" start stop False] assms(7,8) by (auto simp: covers_def)
  have inside: "start < s_start_time_ns e \<and> s_start_time_ns e < stop" if "e \<in> set edges" for e
    using that window_edges_inside by (simp add: edges_def)
  have "rows = map (row_of ?mosi ?miso start) edges"
    using row_of_window [OF assms(9,10) inside] by (simp add: assms(15) window_rows_def rising_mode_eq edges_def [symmetric])
  moreover have "e0 \<notin> set edges" using inside clk(2) by (auto simp: not_less [symmetric])
  ultimately show ?thesis
    using spi_work_reports [OF assms(1-13) clk, of edges ?mosi ?miso] clk(4) assms(14) by (simp add: edges_def)
qed

text \<open>The words of one data line: the bits of each whole group, from its first sampling edge to its last.\<close>

definition line_words :: "bit_order \<Rightarrow> nat \<Rightarrow> (bit_row \<Rightarrow> bool option) \<Rightarrow> bit_row list \<Rightarrow> decoded_word list" where
  "line_words order n column rows =
     map (\<lambda>g. word_spanning (spi_value order (map (\<lambda>row. column row = Some True) g)) (fst (hd g)) (saturating_sub (fst (last g)) (fst (hd g))))
       (row_groups n rows)"

definition transaction_field :: "bool \<Rightarrow> decoded_word list \<Rightarrow> protocol_value" where
  "transaction_field present words = (if present then PList (map (\<lambda>w. PInteger (uint (w_value w))) words) else Null)"

lemma spi_reports_words:
  assumes "spi_reports c start stop deasserted rows c'" "d = sx_node c" "n = sd_bits_per_word d"
    and "mosi = (if sd_has_mosi d then line_words (sd_bit_order d) n (\<lambda>r. fst (snd r)) rows else [])"
    and "miso = (if sd_has_miso d then line_words (sd_bit_order d) n (\<lambda>r. snd (snd r)) rows else [])"
  shows "log_of (sx_mosi_words c') = log_of (sx_mosi_words c) @ mosi" "log_of (sx_miso_words c') = log_of (sx_miso_words c) @ miso"
    and "\<exists>packet fields. log_of (sx_transactions c') = log_of (sx_transactions c) @ [packet] \<and>
      pk_start_time_ns packet = start \<and> pk_end_time_ns packet = stop \<and> pk_value packet = PMapping fields \<and>
      map_of fields ''mosi'' = Some (transaction_field (sd_has_mosi d) mosi) \<and>
      map_of fields ''miso'' = Some (transaction_field (sd_has_miso d) miso) \<and>
      map_of fields ''incomplete_bits'' = Some (PInteger (int (length rows mod n))) \<and>
      map_of fields ''complete'' = Some (PBool (n dvd length rows \<and> deasserted))"
proof -
  let ?out = "spi_result (spi_config_of c start stop) (row_groups n rows)"
  have node: "sc_node (spi_config_of c start stop) = d" by (simp add: spi_config_of_def Let_def assms(2))
  have columns: "mosi_of g = map (\<lambda>r. fst (snd r) = Some True) g" "miso_of g = map (\<lambda>r. snd (snd r) = Some True) g" for g
    by (simp_all add: mosi_of_def miso_of_def split_beta)
  have words: "bt_mosi ?out = line_words (sd_bit_order d) n (\<lambda>r. fst (snd r)) rows"
    "bt_miso ?out = line_words (sd_bit_order d) n (\<lambda>r. snd (snd r)) rows"
    by (simp_all add: spi_result_def Let_def node line_words_def word_span_def columns)
  have "words_value (sd_has_mosi d) (bt_mosi_words ?out) = transaction_field (sd_has_mosi d) mosi"
    "words_value (sd_has_miso d) (bt_miso_words ?out) = transaction_field (sd_has_miso d) miso"
    by (simp_all add: words_value_def transaction_field_def spi_result_def Let_def node assms(4,5) line_words_def columns comp_def
        word_spanning_def)
  then show "\<exists>packet fields. log_of (sx_transactions c') = log_of (sx_transactions c) @ [packet] \<and>
      pk_start_time_ns packet = start \<and> pk_end_time_ns packet = stop \<and> pk_value packet = PMapping fields \<and>
      map_of fields ''mosi'' = Some (transaction_field (sd_has_mosi d) mosi) \<and>
      map_of fields ''miso'' = Some (transaction_field (sd_has_miso d) miso) \<and>
      map_of fields ''incomplete_bits'' = Some (PInteger (int (length rows mod n))) \<and>
      map_of fields ''complete'' = Some (PBool (n dvd length rows \<and> deasserted))"
    using assms(1) by (simp add: spi_reports_def Let_def assms(2,3) [symmetric] spi_packet_def spi_transaction_packet_def mod_eq_0_iff_dvd)
  show "log_of (sx_mosi_words c') = log_of (sx_mosi_words c) @ mosi" "log_of (sx_miso_words c') = log_of (sx_miso_words c) @ miso"
    using assms(1) words by (simp_all add: spi_reports_def Let_def assms(2,3) [symmetric] assms(4,5))
qed

text \<open>
  C40: A transaction is decoded. When the chip select opens a window on the stream, the clock and the data lines
  cover it, and the clock enters it at the level the decoder remembers, one call takes the sampling edges of
  the mode inside the window, reads each data line just before every one of them, and cuts the bits into words
  of the configured size and order, each spanning its sampling edges. It hands on exactly these words and one
  transaction packet from the start to the end of the window, with the words, the number of bits left over, and
  whether the transaction is complete: no bit left over and the select released.
\<close>
theorem spi_transaction_decoded:
  assumes "sx_cs c = Some cs" "ends cs" "cs_window (sd_cs_polarity d) (stream cs) = Some (start, stop, deasserted)"
    and "sx_clk c = Some clk" "ends clk" "\<not> rx_eos clk" "covers (stream clk) start stop" "start < stop"
    and "line_covers (sd_has_mosi d) (sx_mosi c) start stop" "line_covers (sd_has_miso d) (sx_miso c) start stop"
    and "0 < n" "n \<le> 64" "spi_accepting c" "level_at False (stream clk) start = sd_prev_clk d"
    and "d = sx_node c" "n = sd_bits_per_word d" "rows = window_rows c (stream clk) start stop"
    and "mosi = (if sd_has_mosi d then line_words (sd_bit_order d) n (\<lambda>r. fst (snd r)) rows else [])"
    and "miso = (if sd_has_miso d then line_words (sd_bit_order d) n (\<lambda>r. snd (snd r)) rows else [])"
  shows "\<exists>c' packet fields. spi_work_streamed c = Some (Inr (max (length rows div n) 1), c') \<and>
    log_of (sx_mosi_words c') = log_of (sx_mosi_words c) @ mosi \<and> log_of (sx_miso_words c') = log_of (sx_miso_words c) @ miso \<and>
    log_of (sx_transactions c') = log_of (sx_transactions c) @ [packet] \<and>
    pk_start_time_ns packet = start \<and> pk_end_time_ns packet = stop \<and> pk_value packet = PMapping fields \<and>
    map_of fields ''mosi'' = Some (transaction_field (sd_has_mosi d) mosi) \<and>
    map_of fields ''miso'' = Some (transaction_field (sd_has_miso d) miso) \<and>
    map_of fields ''incomplete_bits'' = Some (PInteger (int (length rows mod n))) \<and>
    map_of fields ''complete'' = Some (PBool (n dvd length rows \<and> deasserted))"
proof -
  obtain c' where c': "spi_work_streamed c = Some (Inr (max (length rows div n) 1), c')" "spi_reports c start stop deasserted rows c'"
    using spi_transaction_reports [OF assms(1,2) _ assms(4-8) _ _ _ _ assms(13) _ assms(17)] assms(3,9-12,14-16) by auto
  from spi_reports_words [OF c'(2) assms(15,16,18,19)] c'(1) show ?thesis by blast
qed

text \<open>The data lines have shown their level since before the clock's own first level.\<close>

definition settled :: "bool \<Rightarrow> sample receiver option \<Rightarrow> u64 \<Rightarrow> u64 \<Rightarrow> bool" where
  "settled has r start t \<longleftrightarrow>
     (has \<longrightarrow> (case r of None \<Rightarrow> True | Some rx \<Rightarrow> s_start_time_ns (hd (line_from start (stream rx))) \<le> t))"

lemma settled_reads:
  assumes "line_covers has r start stop" "settled has r start t" "t \<le> start" "start < stop"
  shows "ready (data_of has r) start t" "read_line (data_of has r) (max start t) = shown_level has r start"
proof -
  have "ready (data_of has r) start t \<and> read_line (data_of has r) (max start t) = shown_level has r start"
  proof (cases "has")
    case True
    then obtain rx where rx: "r = Some rx" "line_ok (stream rx) start" "\<exists>s\<in>set (stream rx). stop \<le> s_start_time_ns s"
      using assms(1) by (auto simp: line_covers_def covers_def split: option.splits)
    have "safe (marked rx) (stream rx) start" using rx(3) assms(4) by (force simp: safe_def)
    moreover have "s_value (hd (line_from start (stream rx))) = level_at False (stream rx) start"
      using rx(2) by (intro line_from_level) (auto simp: line_ok_def)
    ultimately show ?thesis
      using True rx(1,2) assms(2,3) by (simp add: ready_def data_of_def read_line_def reads_def shown_level_def settled_def line_ok_def max_absorb1)
  qed (simp add: ready_def data_of_def read_line_def shown_level_def)
  then show "ready (data_of has r) start t" "read_line (data_of has r) (max start t) = shown_level has r start" by simp_all
qed

text \<open>
  A clock that idles high gives the first transaction a bit too many. A decoder that samples on rising
  edges starts with the clock remembered low; when the clock enters the first window high, as it does in
  mode 3, the level that opens the clock's stream counts as a rising edge, so a bit with the data levels at the
  start of the window precedes the bits of the transaction, and every word of it is shifted by one.
\<close>
theorem spi_idle_high_spurious_bit:
  assumes "sx_cs c = Some cs" "ends cs" "cs_window (sd_cs_polarity (sx_node c)) (stream cs) = Some (start, stop, deasserted)"
    and "sx_clk c = Some clk" "ends clk" "\<not> rx_eos clk" "covers (stream clk) start stop" "start < stop"
    and "line_covers (sd_has_mosi (sx_node c)) (sx_mosi c) start stop" "line_covers (sd_has_miso (sx_node c)) (sx_miso c) start stop"
    and "0 < sd_bits_per_word (sx_node c)" "sd_bits_per_word (sx_node c) \<le> 64" "spi_accepting c"
    and "samples_on_rising (sx_node c)" "\<not> sd_prev_clk (sx_node c)" "level_at False (stream clk) start"
    and "first = hd (line_from start (stream clk))"
    and "settled (sd_has_mosi (sx_node c)) (sx_mosi c) start (sample_time_of first)"
      "settled (sd_has_miso (sx_node c)) (sx_miso c) start (sample_time_of first)"
    and "rows = (s_start_time_ns first, shown_level (sd_has_mosi (sx_node c)) (sx_mosi c) start,
        shown_level (sd_has_miso (sx_node c)) (sx_miso c) start) # window_rows c (stream clk) start stop"
  shows "\<exists>c'. spi_work_streamed c = Some (Inr (max (length rows div sd_bits_per_word (sx_node c)) 1), c') \<and>
    spi_reports c start stop deasserted rows c'"
proof -
  let ?mosi = "data_of (sd_has_mosi (sx_node c)) (sx_mosi c)" and ?miso = "data_of (sd_has_miso (sx_node c)) (sx_miso c)"
  define inner where "inner = window_edges (samples_on_rising (sx_node c)) (stream clk) start stop"
  obtain e0 rest where clk:
    "line_from start (stream clk) = (e0 # filter (\<lambda>e. start < s_start_time_ns e \<and> s_start_time_ns e < stop) (stream clk)) @ rest"
    "s_start_time_ns e0 \<le> start" "rest = [] \<or> stop \<le> s_start_time_ns (hd rest)" "s_value e0 = level_at False (stream clk) start"
    using clock_window [of "stream clk" start stop False] assms(7,8) by (auto simp: covers_def)
  have first: "first = e0" using assms(17) clk(1) by simp
  have early: "sample_time_of e0 \<le> start" using clk(2) by (simp add: sample_time_of_def word_le_nat_alt sat_simps)
  note mosi = settled_reads [OF assms(9,18) [unfolded first] early assms(8)]
  note miso = settled_reads [OF assms(10,19) [unfolded first] early assms(8)]
  have inside: "start < s_start_time_ns e \<and> s_start_time_ns e < stop" if "e \<in> set inner" for e
    using that window_edges_inside by (simp add: inner_def)
  have "window_rows c (stream clk) start stop = map (row_of ?mosi ?miso start) inner"
    using row_of_window [OF assms(9,10) inside] by (simp add: window_rows_def rising_mode_eq inner_def [symmetric])
  then have "rows = map (row_of ?mosi ?miso start) (e0 # inner)"
    using mosi(2) miso(2) by (simp add: assms(20) first row_of_def)
  then show ?thesis
    using spi_work_reports [OF assms(1-13) clk, of "e0 # inner" ?mosi ?miso] clk(4) assms(14-16) mosi(1) miso(1)
    by (simp add: inner_def)
qed

text \<open>Two-bit words: the line shows the bits 1 and 0 at the two rising edges inside the window.\<close>

definition example_wave :: "(bool \<times> u64) list \<Rightarrow> sample receiver" where
  "example_wave xs = \<lparr>rx_queue = map (\<lambda>(v, t). Sample_Message (sample_new v t)) xs @ [EndOfStream], rx_connected = False,
     rx_buffer = [], rx_eos = False\<rparr>"

definition example_cs :: "sample receiver" where
  "example_cs = example_wave [(True, 0), (False, 10), (True, 50), (True, 100)]"

definition example_clk :: "bool \<Rightarrow> sample receiver" where
  "example_clk idle =
     example_wave ((idle, 0) # (if idle then [(False, 15)] else []) @ [(True, 20), (False, 25), (True, 30), (False, 60), (False, 100)])"

definition example_spi :: "spi_mode \<Rightarrow> bool \<Rightarrow> spi_ctx" where
  "example_spi mode idle = \<lparr>sx_node = spi_decoder_new mode 2 True False,
     sx_cs = Some example_cs, sx_clk = Some (example_clk idle),
     sx_mosi = Some (example_wave [(True, 0), (False, 22), (False, 100)]), sx_miso = None,
     sx_mosi_words = Some \<lparr>sent = [], open_port = True\<rparr>, sx_mosi_bits = Some \<lparr>sent = [], open_port = True\<rparr>,
     sx_mosi_data = Some \<lparr>sent = [], open_port = True\<rparr>, sx_miso_words = Some \<lparr>sent = [], open_port = True\<rparr>,
     sx_miso_bits = Some \<lparr>sent = [], open_port = True\<rparr>, sx_miso_data = Some \<lparr>sent = [], open_port = True\<rparr>,
     sx_transactions = Some \<lparr>sent = [], open_port = True\<rparr>\<rparr>"

lemma example_wave_stream: "stream (example_wave xs) = map (\<lambda>(v, t). sample_new v t) xs"
  by (induction xs) (auto simp: example_wave_def stream_def)

lemma example_wave_live: "ends (example_wave xs)" "\<not> rx_eos (example_wave xs)"
  by (simp_all add: example_wave_def ends_def)

lemma example_spi_covers:
  "covers (stream (example_clk idle)) 10 50"
  "line_covers True (sx_mosi (example_spi mode idle)) 10 50" "line_covers False (sx_miso (example_spi mode idle)) 10 50"
  by (simp_all add: example_spi_def example_cs_def example_clk_def line_covers_def covers_def line_ok_def example_wave_stream example_wave_live sample_new_def)

lemma example_spi_window: "cs_window ActiveLow (stream (example_cs)) = Some (10, 50, True)"
  by (simp add: example_spi_def example_cs_def example_clk_def example_wave_stream cs_window_def select_active_def sample_new_def)

lemma example_spi_fields:
  "sx_node (example_spi mode idle) = spi_decoder_new mode 2 True False" "spi_accepting (example_spi mode idle)"
  "sx_cs (example_spi mode idle) = Some (example_cs)"
  "sx_clk (example_spi mode idle) = Some (example_clk idle)"
  "ends (example_cs)" "ends (example_clk idle)" "\<not> rx_eos (example_clk idle)"
  by (simp_all add: example_spi_def example_cs_def example_clk_def spi_accepting_def example_wave_live)

lemma spi_new_fields:
  "sd_cs_polarity (spi_decoder_new mode n a b) = ActiveLow" "sd_bits_per_word (spi_decoder_new mode n a b) = n"
  "sd_has_mosi (spi_decoder_new mode n a b) = a" "sd_has_miso (spi_decoder_new mode n a b) = b"
  "\<not> sd_prev_clk (spi_decoder_new mode n a b)" "sd_mode (spi_decoder_new mode n a b) = mode"
  "sd_bit_order (spi_decoder_new mode n a b) = MsbFirst"
  by (simp_all add: spi_decoder_new_def spi_with_cs_polarity_def)

lemma example_spi_rows:
  "window_rows (example_spi Mode0 False) (stream (example_clk False)) 10 50 = [(20, Some True, None), (30, Some False, None)]"
  "window_rows (example_spi Mode3 True) (stream (example_clk True)) 10 50 = [(20, Some True, None), (30, Some False, None)]"
  by code_simp+

lemma spi_reports_mosi:
  "spi_reports c start stop deasserted rows c' \<Longrightarrow> sd_has_mosi (sx_node c) \<Longrightarrow>
   log_of (sx_mosi_words c') = log_of (sx_mosi_words c) @
     map (\<lambda>g. word_span (spi_value (sd_bit_order (sx_node c)) (mosi_of g)) g) (row_groups (sd_bits_per_word (sx_node c)) rows)"
  by (simp add: spi_reports_def Let_def spi_result_def spi_config_of_def)

lemma example_spi_words:
  "map (\<lambda>g. word_span (spi_value MsbFirst (mosi_of g)) g) (row_groups 2 [(20, Some True, None), (30, Some False, None)]) =
     [word_spanning 2 20 10]"
  "map (\<lambda>g. word_span (spi_value MsbFirst (mosi_of g)) g) (row_groups 2 [(0, Some True, None), (20, Some True, None), (30, Some False, None)]) =
     [word_spanning 3 0 20]"
  by (simp_all add: row_groups_def word_span_def spi_value_def mosi_of_def saturating_sub_def)

theorem spi_transaction_decoded_witness:
  "\<exists>c'. spi_work_streamed (example_spi Mode0 False) = Some (Inr 1, c') \<and> log_of (sx_mosi_words c') = [word_spanning 2 20 10]"
proof -
  let ?c = "example_spi Mode0 False" and ?rows = "[(20, Some True, None), (30, Some False, None)] :: bit_row list"
  have level: "\<not> level_at False (stream (example_clk False)) 10" by (simp add: example_clk_def example_wave_stream sample_new_def)
  have words: "line_words MsbFirst 2 (\<lambda>r. fst (snd r)) ?rows = [word_spanning 2 20 10]"
    by (simp add: line_words_def row_groups_def spi_value_def saturating_sub_def)
  have hyps: "cs_window (sd_cs_polarity (sx_node ?c)) (stream example_cs) = Some (10, 50, True)"
    "line_covers (sd_has_mosi (sx_node ?c)) (sx_mosi ?c) 10 50" "line_covers (sd_has_miso (sx_node ?c)) (sx_miso ?c) 10 50"
    "level_at False (stream (example_clk False)) 10 = sd_prev_clk (sx_node ?c)" "2 = sd_bits_per_word (sx_node ?c)"
    using example_spi_covers example_spi_window level by (simp_all only: example_spi_fields spi_new_fields)
  have found: "[word_spanning 2 20 10] = (if sd_has_mosi (sx_node ?c)
      then line_words (sd_bit_order (sx_node ?c)) 2 (\<lambda>r. fst (snd r)) ?rows else [])"
    "[] = (if sd_has_miso (sx_node ?c) then line_words (sd_bit_order (sx_node ?c)) 2 (\<lambda>r. snd (snd r)) ?rows else [])"
    using words by (simp_all add: example_spi_fields spi_new_fields)
  have "max (length ?rows div 2) 1 = 1" by simp
  then have "\<exists>c'. spi_work_streamed ?c = Some (Inr 1, c') \<and> log_of (sx_mosi_words c') = log_of (sx_mosi_words ?c) @ [word_spanning 2 20 10]"
    using spi_transaction_decoded [OF example_spi_fields(3,5) hyps(1) example_spi_fields(4,6,7) example_spi_covers(1) _ hyps(2,3) _ _
        example_spi_fields(2) hyps(4) refl hyps(5) example_spi_rows(1) [symmetric] found]
    by auto
  moreover have "log_of (sx_mosi_words ?c) = []" by (simp add: example_spi_def)
  ultimately show ?thesis by simp
qed

theorem spi_idle_high_spurious_bit_witness:
  "\<exists>c'. spi_work_streamed (example_spi Mode3 True) = Some (Inr 1, c') \<and> log_of (sx_mosi_words c') = [word_spanning 3 0 20]"
proof -
  let ?c = "example_spi Mode3 True" and ?rows = "[(0, Some True, None), (20, Some True, None), (30, Some False, None)] :: bit_row list"
  have first: "hd (line_from 10 (stream (example_clk True))) = sample_new True 0" "level_at False (stream (example_clk True)) 10"
    by (simp_all add: example_spi_def example_cs_def example_clk_def example_wave_stream sample_new_def)
  have levels: "shown_level True (sx_mosi ?c) 10 = Some True" "shown_level False (sx_miso ?c) 10 = None" "sample_time_of (sample_new True 0) = 0"
    "settled True (sx_mosi ?c) 10 0" "settled False (sx_miso ?c) 10 0" "s_start_time_ns (sample_new True 0) = 0"
    by (simp_all add: example_spi_def example_cs_def example_clk_def example_wave_stream sample_new_def shown_level_def settled_def sample_time_of_def saturating_sub_def)
  have "samples_on_rising (spi_decoder_new Mode3 2 True False)" by (simp add: samples_on_rising_def spi_new_fields)
  then obtain c' where "spi_work_streamed ?c = Some (Inr 1, c')" "spi_reports ?c 10 50 True ?rows c'"
    using spi_idle_high_spurious_bit [of ?c example_cs 10 50 True "example_clk True" "sample_new True 0" ?rows]
      example_spi_covers example_spi_window example_spi_rows first levels
    by (simp add: example_spi_fields spi_new_fields) blast
  moreover have "log_of (sx_mosi_words ?c) = []" by (simp add: example_spi_def)
  ultimately show ?thesis
    using example_spi_words by (auto simp: example_spi_fields spi_new_fields dest!: spi_reports_mosi)
qed

end
