(* ===== verification/Packet_Framer.thy ===== *)
theory Packet_Framer
  imports Sample_Blocks Event_Gate
begin

text \<open>
  The packet framer, \<^verbatim>\<open>crates/logic_analyzer_protocol_decoders/src/packet_framer/framer.rs\<close>: it groups a
  word stream into packets by size, delimiter, gap, boundary events and a level gate. The
  specification says which words are kept and between which of them a packet ends; the theorem that
  a complete run emits exactly these packets.
\<close>

section \<open>State\<close>

definition PACKET_FRAME_PROTOCOL_ID :: string where
  "PACKET_FRAME_PROTOCOL_ID = ''org.logicconduit.packet-frame/v1''"

record packet_framer =
  pf_name :: string
  pf_fixed_word_count :: "nat option"
  pf_delimiter :: "(u64 \<times> bool) option"
  pf_maximum_gap_ns :: "u64 option"
  pf_maximum_words :: nat
  pf_boundary_enabled :: bool
  pf_gate_polarity :: "gate_polarity option"
  pf_gate_level :: bool
  pf_words :: "decoded_word list"
  pf_word_head :: "decoded_word option"
  pf_boundary_head :: "timestamp_event option"
  pf_gate_head :: "sample option"
  pf_word_eos :: bool
  pf_boundary_eos :: bool
  pf_gate_eos :: bool
  pf_finished :: bool

definition packet_framer_new :: packet_framer where
  "packet_framer_new =
     \<lparr>pf_name = ''packet_framer'', pf_fixed_word_count = None, pf_delimiter = None, pf_maximum_gap_ns = None,
      pf_maximum_words = 4096, pf_boundary_enabled = False, pf_gate_polarity = None, pf_gate_level = False,
      pf_words = [], pf_word_head = None, pf_boundary_head = None, pf_gate_head = None, pf_word_eos = False,
      pf_boundary_eos = False, pf_gate_eos = False, pf_finished = False\<rparr>"

definition framer_with_name :: "packet_framer \<Rightarrow> string \<Rightarrow> packet_framer" where
  "framer_with_name f name = f\<lparr>pf_name := name\<rparr>"

definition with_fixed_word_count :: "packet_framer \<Rightarrow> nat option \<Rightarrow> packet_framer" where
  "with_fixed_word_count f count =
     f\<lparr>pf_fixed_word_count := (case count of Some n \<Rightarrow> if 0 < n then Some n else None | None \<Rightarrow> None)\<rparr>"

definition with_delimiter :: "packet_framer \<Rightarrow> u64 option \<Rightarrow> bool \<Rightarrow> packet_framer" where
  "with_delimiter f v include_it = f\<lparr>pf_delimiter := map_option (\<lambda>v. (v, include_it)) v\<rparr>"

definition with_maximum_gap_ns :: "packet_framer \<Rightarrow> u64 option \<Rightarrow> packet_framer" where
  "with_maximum_gap_ns f gap =
     f\<lparr>pf_maximum_gap_ns := (case gap of Some g \<Rightarrow> if 0 < g then Some g else None | None \<Rightarrow> None)\<rparr>"

definition with_maximum_words :: "packet_framer \<Rightarrow> nat \<Rightarrow> packet_framer" where
  "with_maximum_words f n = f\<lparr>pf_maximum_words := max n 1\<rparr>"

definition with_boundary_input :: "packet_framer \<Rightarrow> bool \<Rightarrow> packet_framer" where
  "with_boundary_input f enabled = f\<lparr>pf_boundary_enabled := enabled\<rparr>"

definition with_gate_input :: "packet_framer \<Rightarrow> gate_polarity option \<Rightarrow> packet_framer" where
  "with_gate_input f polarity = f\<lparr>pf_gate_polarity := polarity\<rparr>"

record packet_framer_ctx =
  pfc_node :: packet_framer
  pfc_words :: "decoded_word receiver option"
  pfc_boundary :: "timestamp_event receiver option"
  pfc_gate :: "sample receiver option"
  pfc_out :: "protocol_packet out_port option"

definition framer_input_schema :: "port_schema list" where
  "framer_input_schema =
     [port_schema_new ''Word'' ''words'' 0 Input, port_schema_new ''TimestampEvent'' ''boundary'' 1 Input,
      port_schema_state ''Sample'' ''gate'' 2 Input]"

definition framer_output_schema :: "port_schema list" where
  "framer_output_schema = [port_schema_new ''ProtocolPacket'' ''packets'' 0 Output]"

section \<open>Operations\<close>

definition level_active :: "gate_polarity option \<Rightarrow> bool \<Rightarrow> bool" where
  "level_active polarity level =
     (case polarity of None \<Rightarrow> True | Some ActiveHigh \<Rightarrow> level | Some ActiveLow \<Rightarrow> \<not> level)"

definition framer_gate_active :: "packet_framer \<Rightarrow> bool" where
  "framer_gate_active f = level_active (pf_gate_polarity f) (pf_gate_level f)"

definition framer_fill_heads :: "packet_framer_ctx \<Rightarrow> (work_error option \<times> packet_framer_ctx) option" where
  "framer_fill_heads c =
     (let f = pfc_node c in
      case fill_two ''Missing words input'' (pf_word_head f) (pf_word_eos f) (pfc_words c)
             (pf_boundary_enabled f) ''Missing boundary input'' (pf_boundary_head f) (pf_boundary_eos f) (pfc_boundary c) of
        None \<Rightarrow> None
      | Some (err, (word_head, word_eos, words), (boundary_head, boundary_eos, boundary)) \<Rightarrow>
          let c1 = c\<lparr>pfc_node := f\<lparr>pf_word_head := word_head, pf_word_eos := word_eos,
                       pf_boundary_head := boundary_head, pf_boundary_eos := boundary_eos\<rparr>,
                     pfc_words := words, pfc_boundary := boundary\<rparr>
          in case err of
               Some e \<Rightarrow> Some (Some e, c1)
             | None \<Rightarrow>
                 if pf_gate_polarity f = None then Some (None, c1)
                 else map_option (\<lambda>(err, gate_head, gate_eos, gate).
                        (err, c1\<lparr>pfc_node := (pfc_node c1)\<lparr>pf_gate_head := gate_head, pf_gate_eos := gate_eos\<rparr>,
                                 pfc_gate := gate\<rparr>))
                   (fill_port ''Missing gate input'' (pf_gate_head f) (pf_gate_eos f) (pfc_gate c)))"

definition word_value :: "decoded_word \<Rightarrow> protocol_value" where
  "word_value w =
     (let fields = btree_insert ''end_time_ns'' (PInteger (uint (end_ns w)))
            (btree_insert ''start_time_ns'' (PInteger (uint (w_timestamp_ns w)))
              (btree_insert ''value'' (PInteger (uint (w_value w))) []))
      in PMapping
        (case w_payload w of
           None \<Rightarrow> fields
         | Some payload \<Rightarrow>
             btree_insert ''payload''
               (case payload of
                  Bytes bytes \<Rightarrow> PBytes bytes
                | Text text \<Rightarrow> PString (map (\<lambda>b. char_of (unat b)) text)) fields))"

definition packet_of :: "decoded_word list \<Rightarrow> protocol_packet" where
  "packet_of words =
     \<lparr>pk_start_sample = 0, pk_end_sample = 0, pk_start_time_ns = w_timestamp_ns (hd words),
      pk_end_time_ns = end_ns (last words), pk_protocol_id = PACKET_FRAME_PROTOCOL_ID,
      pk_value = PList (map word_value words)\<rparr>"

definition close_packet :: "packet_framer \<Rightarrow> protocol_packet list \<times> packet_framer" where
  "close_packet f =
     (let words = pf_words f in
      (if words = [] then [] else [packet_of words], f\<lparr>pf_words := []\<rparr>))"

definition is_delimiter :: "packet_framer \<Rightarrow> decoded_word \<Rightarrow> bool" where
  "is_delimiter f word = (case pf_delimiter f of Some (delimiter, _) \<Rightarrow> w_value word = delimiter | None \<Rightarrow> False)"

definition includes_delimiter :: "packet_framer \<Rightarrow> bool" where
  "includes_delimiter f = (case pf_delimiter f of Some (_, include_it) \<Rightarrow> include_it | None \<Rightarrow> False)"

definition gap_exceeded :: "packet_framer \<Rightarrow> decoded_word \<Rightarrow> decoded_word \<Rightarrow> bool" where
  "gap_exceeded f previous word =
     (case pf_maximum_gap_ns f of
        None \<Rightarrow> False
      | Some gap \<Rightarrow> gap < saturating_sub (w_timestamp_ns word) (end_ns previous))"

definition packet_full :: "packet_framer \<Rightarrow> decoded_word list \<Rightarrow> bool" where
  "packet_full f words \<longleftrightarrow>
     (case pf_fixed_word_count f of Some count \<Rightarrow> count \<le> length words | None \<Rightarrow> False) \<or>
     pf_maximum_words f \<le> length words"

definition process_word :: "packet_framer \<Rightarrow> decoded_word \<Rightarrow> protocol_packet list \<times> packet_framer" where
  "process_word f word =
     (if \<not> framer_gate_active f then ([], f)
      else
        let (packets, f1) = (if pf_words f \<noteq> [] \<and> gap_exceeded f (last (pf_words f)) word then close_packet f else ([], f));
            delimiter = is_delimiter f word
        in if delimiter \<and> \<not> includes_delimiter f
           then (let (closed, f2) = close_packet f1 in (packets @ closed, f2))
           else
             let f2 = f1\<lparr>pf_words := pf_words f1 @ [word]\<rparr>;
                 (closed, f3) = (if delimiter \<or> packet_full f2 (pf_words f2) then close_packet f2 else ([], f2))
             in (packets @ closed, f3))"

text \<open>The least pair of a time and an input, as tuples are compared.\<close>

fun least :: "(u64 \<times> nat) list \<Rightarrow> (u64 \<times> nat) option" where
  "least [] = None"
| "least (x # xs) =
     (case least xs of
        None \<Rightarrow> Some x
      | Some y \<Rightarrow> Some (if fst x < fst y \<or> fst x = fst y \<and> snd x \<le> snd y then x else y))"

definition next_kind :: "packet_framer \<Rightarrow> nat option" where
  "next_kind f =
     map_option snd (least
       ((case pf_gate_head f of None \<Rightarrow> [] | Some gate \<Rightarrow> [(s_start_time_ns gate, 0)]) @
        (case pf_boundary_head f of None \<Rightarrow> [] | Some boundary \<Rightarrow> [(te_timestamp_ns boundary, 1)]) @
        (case pf_word_head f of None \<Rightarrow> [] | Some word \<Rightarrow> [(w_timestamp_ns word, 2)])))"

definition process_gate :: "packet_framer \<Rightarrow> sample \<Rightarrow> protocol_packet list \<times> packet_framer" where
  "process_gate f gate =
     (let was_active = framer_gate_active f;
          f1 = f\<lparr>pf_gate_head := None, pf_gate_level := s_value gate\<rparr>
      in if was_active \<and> \<not> framer_gate_active f1 then close_packet f1 else ([], f1))"

definition process_next_event :: "packet_framer \<Rightarrow> protocol_packet list \<times> packet_framer" where
  "process_next_event f =
     (case next_kind f of
        None \<Rightarrow> ([], f)
      | Some kind \<Rightarrow>
          if kind = 0 then process_gate f (the (pf_gate_head f))
          else if kind = 1 then close_packet (f\<lparr>pf_boundary_head := None\<rparr>)
          else process_word (f\<lparr>pf_word_head := None\<rparr>) (the (pf_word_head f)))"

definition all_inputs_finished :: "packet_framer \<Rightarrow> bool" where
  "all_inputs_finished f \<longleftrightarrow>
     pf_word_eos f \<and> (\<not> pf_boundary_enabled f \<or> pf_boundary_eos f) \<and> (pf_gate_polarity f = None \<or> pf_gate_eos f) \<and>
     pf_word_head f = None \<and> pf_boundary_head f = None \<and> pf_gate_head f = None"

definition framer_step :: "protocol_packet out_port \<Rightarrow> packet_framer_ctx \<Rightarrow> nat work_result \<times> packet_framer_ctx" where
  "framer_step output c =
     (let (packets, f1) = process_next_event (pfc_node c);
          (packets1, f2) =
            (if all_inputs_finished f1
             then (let (closed, f2) = close_packet f1 in (packets @ closed, f2\<lparr>pf_finished := True\<rparr>))
             else (packets, f1));
          c1 = c\<lparr>pfc_node := f2\<rparr>;
          (err, output1) = (if packets1 \<noteq> [] then send_batch output packets1 else (None, output));
          c2 = c1\<lparr>pfc_out := Some output1\<rparr>
      in case err of
           Some e \<Rightarrow> (Inl e, c2)
         | None \<Rightarrow> (if packets1 = [] \<and> pf_finished f2 then Inl Shutdown else Inr (length packets1), c2))"

definition framer_work :: "packet_framer_ctx work_fun" where
  "framer_work c =
     (if pf_finished (pfc_node c) then Some (Inl Shutdown, c)
      else case pfc_out c of
        None \<Rightarrow> Some (Inl (NodeError ''Missing packets output''), c)
      | Some output \<Rightarrow>
          (case framer_fill_heads c of
             None \<Rightarrow> None
           | Some (Some e, c1) \<Rightarrow> Some (Inl e, c1)
           | Some (None, c1) \<Rightarrow> Some (framer_step output c1)))"

section \<open>Specification\<close>

text \<open>
  A word outside the gate is dropped, a delimiter that is not included only separates. Two words
  that follow each other belong together unless a gap, a boundary, a closed gate or an included
  delimiter lies between them.
\<close>

datatype framer_token = Take decoded_word | Break

definition framer_tokens :: "packet_framer \<Rightarrow> bool \<Rightarrow> sample list \<Rightarrow> decoded_word list \<Rightarrow> framer_token list" where
  "framer_tokens f level gates words =
     concat (map (\<lambda>w.
       if \<not> level_active (pf_gate_polarity f) (level_at level gates (w_timestamp_ns w)) then []
       else if is_delimiter f w \<and> \<not> includes_delimiter f then [Break] else [Take w]) words)"

definition together :: "packet_framer \<Rightarrow> sample list \<Rightarrow> timestamp_event list \<Rightarrow> decoded_word \<Rightarrow> decoded_word \<Rightarrow> bool" where
  "together f gates boundaries a w \<longleftrightarrow>
     \<not> gap_exceeded f a w \<and> \<not> is_delimiter f a \<and>
     (\<forall>b\<in>set boundaries. \<not> (w_timestamp_ns a < te_timestamp_ns b \<and> te_timestamp_ns b \<le> w_timestamp_ns w)) \<and>
     (\<forall>g\<in>set gates. w_timestamp_ns a < s_start_time_ns g \<and> s_start_time_ns g \<le> w_timestamp_ns w \<longrightarrow>
        level_active (pf_gate_polarity f) (s_value g))"

fun pack :: "(decoded_word \<Rightarrow> decoded_word \<Rightarrow> bool) \<Rightarrow> (decoded_word list \<Rightarrow> bool) \<Rightarrow> decoded_word list \<Rightarrow>
    framer_token list \<Rightarrow> decoded_word list list" where
  "pack joins full cur [] = (if cur = [] then [] else [cur])"
| "pack joins full cur (Break # ts) = (if cur = [] then [] else [cur]) @ pack joins full [] ts"
| "pack joins full cur (Take w # ts) =
     (if cur \<noteq> [] \<and> (full cur \<or> \<not> joins (last cur) w) then cur # pack joins full [w] ts
      else pack joins full (cur @ [w]) ts)"

definition framer_packets :: "packet_framer \<Rightarrow> sample list \<Rightarrow> timestamp_event list \<Rightarrow> decoded_word list \<Rightarrow>
    decoded_word list list" where
  "framer_packets f gates boundaries words =
     pack (together f gates boundaries) (packet_full f) (pf_words f) (framer_tokens f (pf_gate_level f) gates words)"

section \<open>The packets, step by step\<close>

lemma pack_cong:
  assumes "\<And>w. cur \<noteq> [] \<Longrightarrow> Take w \<in> set ts \<Longrightarrow> J (last cur) w = J' (last cur) w"
    "\<And>a w. Take a \<in> set ts \<Longrightarrow> Take w \<in> set ts \<Longrightarrow> J a w = J' a w"
  shows "pack J F cur ts = pack J' F cur ts"
  using assms
proof (induction J F cur ts rule: pack.induct)
  case (3 J F cur w ts)
  have "J (last cur) w = J' (last cur) w" if "cur \<noteq> []" using 3(3) that by simp
  moreover have "pack J F [w] ts = pack J' F [w] ts" if "cur \<noteq> [] \<and> (F cur \<or> \<not> J (last cur) w)"
    by (rule 3(1) [OF that]) (use 3(4) in auto)
  moreover have "pack J F (cur @ [w]) ts = pack J' F (cur @ [w]) ts" if "\<not> (cur \<noteq> [] \<and> (F cur \<or> \<not> J (last cur) w))"
    by (rule 3(2) [OF that]) (use 3(4) in auto)
  ultimately show ?case by auto
qed auto

lemma pack_split:
  assumes "cur \<noteq> []" "F cur \<or> (\<forall>w. Take w \<in> set ts \<longrightarrow> \<not> J (last cur) w)"
  shows "pack J F cur ts = cur # pack J F [] ts"
proof (cases ts)
  case (Cons t rest)
  then show ?thesis using assms by (cases t) auto
qed (use assms in simp)

definition same_config :: "packet_framer \<Rightarrow> packet_framer \<Rightarrow> bool" where
  "same_config f f' \<longleftrightarrow> pf_fixed_word_count f = pf_fixed_word_count f' \<and> pf_delimiter f = pf_delimiter f' \<and>
     pf_maximum_gap_ns f = pf_maximum_gap_ns f' \<and> pf_maximum_words f = pf_maximum_words f' \<and>
     pf_boundary_enabled f = pf_boundary_enabled f' \<and> pf_gate_polarity f = pf_gate_polarity f'"

lemma same_configD:
  assumes "same_config f f'"
  shows "is_delimiter f = is_delimiter f'" "packet_full f = packet_full f'"
    "framer_tokens f = framer_tokens f'" "together f = together f'"
proof -
  show d: "is_delimiter f = is_delimiter f'" and "packet_full f = packet_full f'"
    using assms by (simp_all add: same_config_def is_delimiter_def packet_full_def fun_eq_iff)
  have "includes_delimiter f = includes_delimiter f'" "gap_exceeded f = gap_exceeded f'"
    "pf_gate_polarity f = pf_gate_polarity f'"
    using assms by (simp_all add: same_config_def includes_delimiter_def gap_exceeded_def fun_eq_iff)
  with d show "framer_tokens f = framer_tokens f'" "together f = together f'"
    by (simp_all add: fun_eq_iff framer_tokens_def together_def cong: if_cong)
qed

lemma packet_full_words [simp]: "packet_full (f\<lparr>pf_words := ws\<rparr>) = packet_full f"
  by (simp add: packet_full_def fun_eq_iff)

lemma is_delimiter_words [simp]: "is_delimiter (f\<lparr>pf_words := ws\<rparr>) = is_delimiter f"
  by (simp add: is_delimiter_def fun_eq_iff)

lemma framer_packets_words:
  "framer_packets (f\<lparr>pf_words := ws\<rparr>) gates boundaries words =
     pack (together f gates boundaries) (packet_full f) ws (framer_tokens f (pf_gate_level f) gates words)"
proof -
  have "same_config (f\<lparr>pf_words := ws\<rparr>) f" by (simp add: same_config_def)
  from same_configD [OF this] show ?thesis by (simp add: framer_packets_def)
qed

lemma framer_tokens_simps:
  "framer_tokens f level gates [] = []"
  "framer_tokens f level gates (w # words) =
     (if \<not> level_active (pf_gate_polarity f) (level_at level gates (w_timestamp_ns w)) then []
      else if is_delimiter f w \<and> \<not> includes_delimiter f then [Break] else [Take w]) @ framer_tokens f level gates words"
  by (simp_all add: framer_tokens_def)

lemma framer_tokens_Take: "Take w \<in> set (framer_tokens f level gates words) \<Longrightarrow> w \<in> set words"
  by (auto simp: framer_tokens_def split: if_splits)

lemma framer_tokens_gate:
  "\<forall>w\<in>set words. s_start_time_ns g \<le> w_timestamp_ns w \<Longrightarrow>
   framer_tokens f level (g # gates) words = framer_tokens f (s_value g) gates words"
  by (induction words) (auto simp: framer_tokens_simps)

text \<open>What holds between the events: the open packet could still grow, and everything to come is later.\<close>

definition framer_inv :: "packet_framer \<Rightarrow> sample list \<Rightarrow> timestamp_event list \<Rightarrow> decoded_word list \<Rightarrow> bool" where
  "framer_inv f gates boundaries words \<longleftrightarrow>
     sorted_by s_start_time_ns gates \<and> sorted_by te_timestamp_ns boundaries \<and> sorted_by w_timestamp_ns words \<and>
     (pf_words f \<noteq> [] \<longrightarrow> framer_gate_active f \<and> \<not> packet_full f (pf_words f) \<and> \<not> is_delimiter f (last (pf_words f)) \<and>
       (\<forall>g\<in>set gates. w_timestamp_ns (last (pf_words f)) < s_start_time_ns g) \<and>
       (\<forall>b\<in>set boundaries. w_timestamp_ns (last (pf_words f)) < te_timestamp_ns b) \<and>
       (\<forall>w\<in>set words. w_timestamp_ns (last (pf_words f)) \<le> w_timestamp_ns w))"

lemma together_past_boundary:
  "te_timestamp_ns b \<le> w_timestamp_ns a \<Longrightarrow> together f gates (b # boundaries) a w = together f gates boundaries a w"
  by (auto simp: together_def)

lemma together_past_gate:
  "s_start_time_ns g \<le> w_timestamp_ns a \<or> level_active (pf_gate_polarity f) (s_value g) \<Longrightarrow>
   together f (g # gates) boundaries a w = together f gates boundaries a w"
  by (auto simp: together_def)

lemma close_packet_packets:
  assumes "close_packet f = (ps, f')"
  shows "f' = f\<lparr>pf_words := []\<rparr>" "ps = map packet_of (if pf_words f = [] then [] else [pf_words f])"
  using assms by (auto simp: close_packet_def Let_def)

lemma boundary_step:
  assumes "framer_inv f gates (b # boundaries) words" "\<forall>w\<in>set words. te_timestamp_ns b \<le> w_timestamp_ns w"
    "close_packet f = (ps, f')"
  shows "map packet_of (framer_packets f gates (b # boundaries) words) = ps @ map packet_of (framer_packets f' gates boundaries words)"
    "framer_inv f' gates boundaries words"
proof -
  note close = close_packet_packets [OF assms(3)]
  let ?ts = "framer_tokens f (pf_gate_level f) gates words" and ?J = "together f gates (b # boundaries)"
  have later: "te_timestamp_ns b \<le> w_timestamp_ns w" if "Take w \<in> set ?ts" for w
    using framer_tokens_Take [OF that] assms(2) by simp
  have "pack ?J (packet_full f) (pf_words f) ?ts =
      (if pf_words f = [] then [] else [pf_words f]) @ pack ?J (packet_full f) [] ?ts"
  proof (cases "pf_words f = []")
    case False
    then have "w_timestamp_ns (last (pf_words f)) < te_timestamp_ns b" using assms(1) by (simp add: framer_inv_def)
    then have "\<forall>w. Take w \<in> set ?ts \<longrightarrow> \<not> ?J (last (pf_words f)) w" using later by (auto simp: together_def)
    with pack_split [OF False] show ?thesis using False by simp
  qed simp
  moreover have "pack ?J (packet_full f) [] ?ts = pack (together f gates boundaries) (packet_full f) [] ?ts"
    by (rule pack_cong) (auto simp: together_past_boundary later)
  moreover have "same_config f f'" using close(1) by (simp add: same_config_def)
  ultimately show "map packet_of (framer_packets f gates (b # boundaries) words) = ps @ map packet_of (framer_packets f' gates boundaries words)"
    unfolding framer_packets_def using same_configD [of f f'] close by simp
  show "framer_inv f' gates boundaries words" using assms(1) close(1) by (simp add: framer_inv_def)
qed

lemma gate_step:
  assumes "framer_inv f (g # gates) boundaries words" "\<forall>w\<in>set words. s_start_time_ns g \<le> w_timestamp_ns w"
    "process_gate f g = (ps, f')"
  shows "map packet_of (framer_packets f (g # gates) boundaries words) =
      ps @ map packet_of (framer_packets f' gates boundaries words)"
    "framer_inv f' gates boundaries words"
proof -
  let ?ts = "framer_tokens f (s_value g) gates words" and ?J = "together f (g # gates) boundaries"
  have later: "s_start_time_ns g \<le> w_timestamp_ns w" if "Take w \<in> set ?ts" for w
    using framer_tokens_Take [OF that] assms(2) by simp
  have ts: "framer_tokens f (pf_gate_level f) (g # gates) words = ?ts" using assms(2) by (rule framer_tokens_gate)
  have fresh: "pack ?J (packet_full f) [] ?ts = pack (together f gates boundaries) (packet_full f) [] ?ts"
    by (rule pack_cong) (auto simp: together_past_gate later)
  let ?closes = "pf_words f \<noteq> [] \<and> \<not> level_active (pf_gate_polarity f) (s_value g)"
  have active: "framer_gate_active f" "w_timestamp_ns (last (pf_words f)) < s_start_time_ns g" if "pf_words f \<noteq> []"
    using assms(1) that by (simp_all add: framer_inv_def)
  have f': "f' = f\<lparr>pf_gate_head := None, pf_gate_level := s_value g, pf_words := if ?closes then [] else pf_words f\<rparr>"
    and ps: "ps = (if ?closes then [packet_of (pf_words f)] else [])"
    using assms(3) active by (auto simp: process_gate_def Let_def framer_gate_active_def close_packet_def split: if_splits)
  have same: "same_config f f'" by (simp add: f' same_config_def)
  show "map packet_of (framer_packets f (g # gates) boundaries words) =
      ps @ map packet_of (framer_packets f' gates boundaries words)"
  proof (cases ?closes)
    case True
    then have "\<forall>w. Take w \<in> set ?ts \<longrightarrow> \<not> ?J (last (pf_words f)) w"
      using later active(2) by (auto simp: together_def)
    then have "pack ?J (packet_full f) (pf_words f) ?ts = pf_words f # pack ?J (packet_full f) [] ?ts"
      using True by (intro pack_split) auto
    moreover have "pf_words f' = []" "pf_gate_level f' = s_value g" "ps = [packet_of (pf_words f)]" using True f' ps by auto
    ultimately show ?thesis using fresh by (simp add: framer_packets_def ts flip: same_configD [OF same])
  next
    case False
    then have "pack ?J (packet_full f) (pf_words f) ?ts = pack (together f gates boundaries) (packet_full f) (pf_words f) ?ts"
      using fresh by (intro pack_cong) (auto simp: together_past_gate later)
    moreover have "pf_words f' = pf_words f" "pf_gate_level f' = s_value g" "ps = []" using False f' ps by auto
    ultimately show ?thesis by (simp add: framer_packets_def ts flip: same_configD [OF same])
  qed
  show "framer_inv f' gates boundaries words"
    using assms(1) by (auto simp: framer_inv_def f' framer_gate_active_def packet_full_def is_delimiter_def)
qed

lemma together_now:
  assumes "\<forall>g\<in>set gates. w_timestamp_ns w < s_start_time_ns g" "\<forall>b\<in>set boundaries. w_timestamp_ns w < te_timestamp_ns b"
  shows "together f gates boundaries a w \<longleftrightarrow> \<not> gap_exceeded f a w \<and> \<not> is_delimiter f a"
  using assms by (fastforce simp: together_def)

text \<open>A word that has been appended closes its packet at once or leaves it open.\<close>

lemma pack_settle:
  fixes f gates boundaries xs w
  defines "closes \<equiv> is_delimiter f w \<or> packet_full f (xs @ [w])"
  shows "pack (together f gates boundaries) (packet_full f) (xs @ [w]) ts =
    (if closes then [xs @ [w]] else []) @
    pack (together f gates boundaries) (packet_full f) (if closes then [] else xs @ [w]) ts"
  using pack_split [of "xs @ [w]" "packet_full f" ts "together f gates boundaries"]
  by (cases closes) (auto simp: together_def closes_def)

lemma process_word_taken:
  assumes "framer_gate_active f" "\<not> (is_delimiter f w \<and> \<not> includes_delimiter f)"
  defines "gap \<equiv> pf_words f \<noteq> [] \<and> gap_exceeded f (last (pf_words f)) w"
  defines "cur \<equiv> (if gap then [] else pf_words f) @ [w]"
  shows "process_word f w =
    ((if gap then [packet_of (pf_words f)] else []) @
       (if is_delimiter f w \<or> packet_full f cur then [packet_of cur] else []),
     f\<lparr>pf_words := if is_delimiter f w \<or> packet_full f cur then [] else cur\<rparr>)"
proof -
  have no: "(is_delimiter f w \<and> \<not> includes_delimiter f) = False" using assms(2) by simp
  have closed: "(if gap then close_packet f else ([], f)) =
      (if gap then [packet_of (pf_words f)] else [], f\<lparr>pf_words := if gap then [] else pf_words f\<rparr>)"
    by (auto simp: close_packet_def gap_def)
  have "process_word f w =
      (let (closed, f3) = (if is_delimiter f w \<or> packet_full f cur then close_packet (f\<lparr>pf_words := cur\<rparr>)
         else ([], f\<lparr>pf_words := cur\<rparr>))
       in ((if gap then [packet_of (pf_words f)] else []) @ closed, f3))"
    unfolding process_word_def gap_def [symmetric] closed Let_def no by (simp add: assms(1) cur_def)
  also have "\<dots> = ((if gap then [packet_of (pf_words f)] else []) @
       (if is_delimiter f w \<or> packet_full f cur then [packet_of cur] else []),
     f\<lparr>pf_words := if is_delimiter f w \<or> packet_full f cur then [] else cur\<rparr>)"
    by (cases "is_delimiter f w \<or> packet_full f cur") (simp_all add: close_packet_def cur_def)
  finally show ?thesis .
qed

lemma word_step:
  assumes inv: "framer_inv f gates boundaries (w # words)"
    and first: "\<forall>g\<in>set gates. w_timestamp_ns w < s_start_time_ns g" "\<forall>b\<in>set boundaries. w_timestamp_ns w < te_timestamp_ns b"
    and step: "process_word f w = (ps, f')"
  shows "map packet_of (framer_packets f gates boundaries (w # words)) =
      ps @ map packet_of (framer_packets f' gates boundaries words) \<and> framer_inv f' gates boundaries words"
proof -
  let ?ts = "framer_tokens f (pf_gate_level f) gates words"
  let ?pack = "pack (together f gates boundaries) (packet_full f)"
  have level: "level_at (pf_gate_level f) gates (w_timestamp_ns w) = pf_gate_level f"
    using first(1) by (rule level_at_later)
  have sorted: "sorted_by s_start_time_ns gates" "sorted_by te_timestamp_ns boundaries" "sorted_by w_timestamp_ns words"
    "\<forall>x\<in>set words. w_timestamp_ns w \<le> w_timestamp_ns x"
    using inv by (simp_all add: framer_inv_def)
  have cur: "\<not> packet_full f (pf_words f)" "\<not> is_delimiter f (last (pf_words f))" if "pf_words f \<noteq> []"
    using inv that by (simp_all add: framer_inv_def)
  consider (inactive) "\<not> framer_gate_active f"
    | (break) "framer_gate_active f" "is_delimiter f w \<and> \<not> includes_delimiter f"
    | (taken) "framer_gate_active f" "\<not> (is_delimiter f w \<and> \<not> includes_delimiter f)"
    by blast
  then show ?thesis
  proof cases
    case inactive
    then have "ps = []" "f' = f" "pf_words f = []" using step inv by (auto simp: process_word_def framer_inv_def)
    with inactive sorted show ?thesis
      by (simp add: framer_packets_def framer_tokens_simps level framer_gate_active_def framer_inv_def)
  next
    case break
    then have "ps = (if pf_words f = [] then [] else [packet_of (pf_words f)])" "f' = f\<lparr>pf_words := []\<rparr>"
      using step by (auto simp: process_word_def close_packet_def Let_def split: if_splits)
    moreover from this have "same_config f f'" by (simp add: same_config_def)
    ultimately show ?thesis using break sorted
      by (simp add: framer_packets_def framer_tokens_simps level framer_gate_active_def framer_inv_def flip: same_configD)
  next
    case taken
    let ?gap = "pf_words f \<noteq> [] \<and> gap_exceeded f (last (pf_words f)) w"
    let ?cur = "(if ?gap then [] else pf_words f) @ [w]"
    let ?closes = "is_delimiter f w \<or> packet_full f ?cur"
    have step': "ps = (if ?gap then [packet_of (pf_words f)] else []) @ (if ?closes then [packet_of ?cur] else [])"
      "f' = f\<lparr>pf_words := if ?closes then [] else ?cur\<rparr>"
      using process_word_taken [OF taken] step by simp_all
    then have same: "same_config f f'" by (simp add: same_config_def)
    have no: "(is_delimiter f w \<and> \<not> includes_delimiter f) = False" using taken(2) by simp
    have gap: "pf_words f \<noteq> [] \<and> (packet_full f (pf_words f) \<or> \<not> together f gates boundaries (last (pf_words f)) w) \<longleftrightarrow> ?gap"
      using cur together_now [OF first] by blast
    have "framer_packets f gates boundaries (w # words) = ?pack (pf_words f) (Take w # ?ts)"
      using taken(1) by (simp add: framer_packets_def framer_tokens_simps(2) level framer_gate_active_def no del: pack.simps)
    also have "\<dots> = (if ?gap then [pf_words f] else []) @ ?pack ?cur ?ts"
      unfolding pack.simps(3) gap by (cases ?gap) (simp_all only: if_True if_False append_Nil append_Cons simp_thms)
    also have "?pack ?cur ?ts = (if ?closes then [?cur] else []) @ ?pack (if ?closes then [] else ?cur) ?ts"
      by (rule pack_settle)
    also have "?pack (if ?closes then [] else ?cur) ?ts = framer_packets f' gates boundaries words"
      unfolding step'(2) by (rule framer_packets_words [symmetric])
    finally have "map packet_of (framer_packets f gates boundaries (w # words)) =
        ps @ map packet_of (framer_packets f' gates boundaries words)"
      by (auto simp: step'(1))
    moreover have "framer_inv f' gates boundaries words"
    proof (cases ?closes)
      case True
      then show ?thesis using sorted by (simp add: step'(2) framer_inv_def)
    next
      case False
      then have "pf_words f' = ?cur" "framer_gate_active f'" "\<not> packet_full f' ?cur" "\<not> is_delimiter f' (last ?cur)"
        using taken(1) by (simp_all add: step'(2) framer_gate_active_def)
      then show ?thesis using sorted first by (simp add: framer_inv_def)
    qed
    ultimately show ?thesis by blast
  qed
qed

section \<open>The node\<close>

definition framer_words :: "packet_framer_ctx \<Rightarrow> decoded_word list" where
  "framer_words c = port_pending (pf_word_head (pfc_node c)) (pf_word_eos (pfc_node c)) (pfc_words c)"

definition framer_boundaries :: "packet_framer_ctx \<Rightarrow> timestamp_event list" where
  "framer_boundaries c = used_pending (pf_boundary_enabled (pfc_node c)) (pf_boundary_head (pfc_node c))
     (pf_boundary_eos (pfc_node c)) (pfc_boundary c)"

definition framer_gates :: "packet_framer_ctx \<Rightarrow> sample list" where
  "framer_gates c = used_pending (pf_gate_polarity (pfc_node c) \<noteq> None) (pf_gate_head (pfc_node c))
     (pf_gate_eos (pfc_node c)) (pfc_gate c)"

definition framer_ports :: "packet_framer_ctx \<Rightarrow> bool" where
  "framer_ports c \<longleftrightarrow> port_ends (pfc_words c) \<and>
     (if pf_boundary_enabled (pfc_node c) then port_ends (pfc_boundary c) else pf_boundary_head (pfc_node c) = None) \<and>
     (if pf_gate_polarity (pfc_node c) \<noteq> None then port_ends (pfc_gate c) else pf_gate_head (pfc_node c) = None)"

definition framer_ready :: "packet_framer_ctx \<Rightarrow> bool" where
  "framer_ready c \<longleftrightarrow> head_ready (pf_word_head (pfc_node c)) (pf_word_eos (pfc_node c)) \<and>
     (pf_boundary_enabled (pfc_node c) \<longrightarrow> head_ready (pf_boundary_head (pfc_node c)) (pf_boundary_eos (pfc_node c))) \<and>
     (pf_gate_polarity (pfc_node c) \<noteq> None \<longrightarrow> head_ready (pf_gate_head (pfc_node c)) (pf_gate_eos (pfc_node c)))"

definition framer_left :: "packet_framer_ctx \<Rightarrow> nat" where
  "framer_left c = length (framer_gates c) + length (framer_boundaries c) + length (framer_words c)"

definition framer_consistent :: "packet_framer_ctx \<Rightarrow> bool" where
  "framer_consistent c \<longleftrightarrow> framer_ports c \<and> framer_inv (pfc_node c) (framer_gates c) (framer_boundaries c) (framer_words c)"

definition framer_to_come :: "packet_framer_ctx \<Rightarrow> protocol_packet list" where
  "framer_to_come c = map packet_of (framer_packets (pfc_node c) (framer_gates c) (framer_boundaries c) (framer_words c))"

lemmas framer_views = framer_words_def framer_boundaries_def framer_gates_def framer_ports_def framer_ready_def
  framer_left_def framer_consistent_def framer_to_come_def

text \<open>What holds of the held item and lasts with time holds of everything an input still delivers.\<close>

lemma used_pending_all:
  assumes "used \<Longrightarrow> port_ends port" "used \<Longrightarrow> head_ready head eos" "sorted_by t (used_pending used head eos port)"
    and "\<And>x. head = Some x \<Longrightarrow> P x" "\<And>x y. P x \<Longrightarrow> t x \<le> t y \<Longrightarrow> P y"
  shows "\<forall>x\<in>set (used_pending used head eos port). P x"
proof (cases "used \<and> head \<noteq> None")
  case True
  then obtain h where h: "head = Some h" by auto
  then have "used_pending used head eos port = h # port_pending None eos port"
    using True assms(1) by (simp add: used_pending_def port_pending_take)
  with assms(3) assms(4) [OF h] assms(5) show ?thesis by auto
next
  case False
  with assms(2) show ?thesis by (auto simp: used_pending_def head_ready_def)
qed

lemma next_kind_cases:
  obtains (none) "next_kind f = None" "pf_gate_head f = None" "pf_boundary_head f = None" "pf_word_head f = None"
  | (gate) g where "next_kind f = Some 0" "pf_gate_head f = Some g"
      "\<And>w. pf_word_head f = Some w \<Longrightarrow> s_start_time_ns g \<le> w_timestamp_ns w"
  | (boundary) b where "next_kind f = Some 1" "pf_boundary_head f = Some b"
      "\<And>w. pf_word_head f = Some w \<Longrightarrow> te_timestamp_ns b \<le> w_timestamp_ns w"
  | (word) w where "next_kind f = Some 2" "pf_word_head f = Some w"
      "\<And>g. pf_gate_head f = Some g \<Longrightarrow> w_timestamp_ns w < s_start_time_ns g"
      "\<And>b. pf_boundary_head f = Some b \<Longrightarrow> w_timestamp_ns w < te_timestamp_ns b"
proof -
  have "(next_kind f = None \<and> pf_gate_head f = None \<and> pf_boundary_head f = None \<and> pf_word_head f = None) \<or>
    (\<exists>g. next_kind f = Some 0 \<and> pf_gate_head f = Some g \<and>
      (\<forall>w. pf_word_head f = Some w \<longrightarrow> s_start_time_ns g \<le> w_timestamp_ns w)) \<or>
    (\<exists>b. next_kind f = Some 1 \<and> pf_boundary_head f = Some b \<and>
      (\<forall>w. pf_word_head f = Some w \<longrightarrow> te_timestamp_ns b \<le> w_timestamp_ns w)) \<or>
    (\<exists>w. next_kind f = Some 2 \<and> pf_word_head f = Some w \<and>
      (\<forall>g. pf_gate_head f = Some g \<longrightarrow> w_timestamp_ns w < s_start_time_ns g) \<and>
      (\<forall>b. pf_boundary_head f = Some b \<longrightarrow> w_timestamp_ns w < te_timestamp_ns b))"
    by (cases "pf_gate_head f"; cases "pf_boundary_head f"; cases "pf_word_head f")
      (auto simp: next_kind_def not_less not_le simp flip: le_less)
  then show ?thesis using none gate boundary word by blast
qed

lemma process_gate_fields:
  assumes "process_gate f g = (ps, f')"
  obtains ws where "f' = f\<lparr>pf_gate_head := None, pf_gate_level := s_value g, pf_words := ws\<rparr>"
proof -
  have "f' = f\<lparr>pf_gate_head := None, pf_gate_level := s_value g, pf_words := pf_words f'\<rparr>"
    using assms by (auto simp: process_gate_def Let_def close_packet_def split: if_splits)
  then show thesis by (rule that)
qed

lemma process_word_fields:
  assumes "process_word f w = (ps, f')"
  obtains ws where "f' = f\<lparr>pf_words := ws\<rparr>"
proof -
  have "f' = f\<lparr>pf_words := pf_words f'\<rparr>"
    using assms by (auto simp: process_word_def Let_def close_packet_def split: if_splits)
  then show thesis by (rule that)
qed

text \<open>The packets to come depend on the configuration, the gate level and the open packet only.\<close>

lemma same_state:
  assumes "same_config f f'" "pf_words f = pf_words f'" "pf_gate_level f = pf_gate_level f'"
  shows "framer_packets f = framer_packets f'" "framer_inv f = framer_inv f'"
proof -
  have "framer_gate_active f = framer_gate_active f'"
    using assms by (simp add: framer_gate_active_def same_config_def)
  with assms(2,3) same_configD [OF assms(1)]
  show "framer_packets f = framer_packets f'" "framer_inv f = framer_inv f'"
    by (intro ext; simp only: framer_packets_def framer_inv_def)+
qed

lemma framer_packets_heads:
  "framer_packets (f\<lparr>pf_word_head := w\<rparr>) = framer_packets f" "framer_packets (f\<lparr>pf_boundary_head := b\<rparr>) = framer_packets f"
  "framer_inv (f\<lparr>pf_word_head := w\<rparr>) = framer_inv f" "framer_inv (f\<lparr>pf_boundary_head := b\<rparr>) = framer_inv f"
  by (rule same_state; simp add: same_config_def)+

lemma framer_event:
  assumes "framer_consistent c" "framer_ready c" "process_next_event (pfc_node c) = (ps, f1)"
  defines "c1 \<equiv> c\<lparr>pfc_node := f1\<rparr>"
  shows "framer_to_come c = ps @ framer_to_come c1 \<and> framer_consistent c1 \<and>
    (framer_left c1 < framer_left c \<or> all_inputs_finished f1) \<and> pf_finished f1 = pf_finished (pfc_node c)"
proof (cases "pfc_node c" rule: next_kind_cases)
  case none
  then have "ps = []" "f1 = pfc_node c" using assms(3) by (simp_all add: process_next_event_def)
  moreover have "all_inputs_finished (pfc_node c)"
    using none assms(2) by (auto simp: all_inputs_finished_def framer_ready_def head_ready_def)
  ultimately show ?thesis using assms(1) by (simp add: c1_def)
next
  case (gate g)
  have step: "process_gate (pfc_node c) g = (ps, f1)" using gate assms(3) by (simp add: process_next_event_def)
  then obtain ws where f1: "f1 = (pfc_node c)\<lparr>pf_gate_head := None, pf_gate_level := s_value g, pf_words := ws\<rparr>"
    by (rule process_gate_fields)
  have used: "pf_gate_polarity (pfc_node c) \<noteq> None"
    using assms(1) gate(2) by (auto simp: framer_consistent_def framer_ports_def split: if_splits)
  have views: "framer_gates c = g # framer_gates c1" "framer_boundaries c1 = framer_boundaries c" "framer_words c1 = framer_words c"
    using used gate(2) assms(1) by (simp_all add: c1_def f1 framer_views used_pending_def port_pending_take)
  have inv: "framer_inv (pfc_node c) (g # framer_gates c1) (framer_boundaries c) (framer_words c)"
    using assms(1) by (simp add: framer_consistent_def views)
  have "\<forall>w\<in>set (used_pending True (pf_word_head (pfc_node c)) (pf_word_eos (pfc_node c)) (pfc_words c)). s_start_time_ns g \<le> w_timestamp_ns w"
    by (rule used_pending_all [where t = w_timestamp_ns])
      (use assms(1,2) gate(3) in \<open>auto simp: framer_views framer_inv_def used_pending_def\<close>)
  then have "\<forall>w\<in>set (framer_words c). s_start_time_ns g \<le> w_timestamp_ns w" by (simp add: used_pending_def framer_words_def)
  note res = gate_step [OF inv this step]
  have "framer_ports c1" using assms(1) by (auto simp: framer_consistent_def framer_ports_def c1_def f1)
  with res views show ?thesis
    by (simp add: framer_to_come_def framer_consistent_def framer_left_def) (simp add: c1_def f1)
next
  case (boundary b)
  let ?f = "(pfc_node c)\<lparr>pf_boundary_head := None\<rparr>"
  have step: "close_packet ?f = (ps, f1)" using boundary assms(3) by (simp add: process_next_event_def)
  then have f1: "f1 = (pfc_node c)\<lparr>pf_boundary_head := None, pf_words := []\<rparr>" by (auto simp: close_packet_def Let_def)
  have used: "pf_boundary_enabled (pfc_node c)"
    using assms(1) boundary(2) by (auto simp: framer_consistent_def framer_ports_def split: if_splits)
  have views: "framer_gates c1 = framer_gates c" "framer_boundaries c = b # framer_boundaries c1" "framer_words c1 = framer_words c"
    using used boundary(2) assms(1) by (simp_all add: c1_def f1 framer_views used_pending_def port_pending_take)
  have inv: "framer_inv ?f (framer_gates c) (b # framer_boundaries c1) (framer_words c)"
    using assms(1) by (simp add: framer_consistent_def views framer_packets_heads)
  have "\<forall>w\<in>set (used_pending True (pf_word_head (pfc_node c)) (pf_word_eos (pfc_node c)) (pfc_words c)). te_timestamp_ns b \<le> w_timestamp_ns w"
    by (rule used_pending_all [where t = w_timestamp_ns])
      (use assms(1,2) boundary(3) in \<open>auto simp: framer_views framer_inv_def used_pending_def\<close>)
  then have "\<forall>w\<in>set (framer_words c). te_timestamp_ns b \<le> w_timestamp_ns w" by (simp add: used_pending_def framer_words_def)
  note res = boundary_step [OF inv this step, unfolded framer_packets_heads]
  have "framer_ports c1" using assms(1) by (auto simp: framer_consistent_def framer_ports_def c1_def f1)
  with res views show ?thesis
    by (simp add: framer_to_come_def framer_consistent_def framer_left_def) (simp add: c1_def f1)
next
  case (word w)
  let ?f = "(pfc_node c)\<lparr>pf_word_head := None\<rparr>"
  have step: "process_word ?f w = (ps, f1)" using word assms(3) by (simp add: process_next_event_def)
  then obtain ws where f1: "f1 = (pfc_node c)\<lparr>pf_word_head := None, pf_words := ws\<rparr>" by (auto elim: process_word_fields)
  have views: "framer_gates c1 = framer_gates c" "framer_boundaries c1 = framer_boundaries c" "framer_words c = w # framer_words c1"
    using word(2) assms(1) by (simp_all add: c1_def f1 framer_views used_pending_def port_pending_take)
  have inv: "framer_inv ?f (framer_gates c) (framer_boundaries c) (w # framer_words c1)"
    using assms(1) by (simp add: framer_consistent_def views framer_packets_heads)
  have gates: "\<forall>g\<in>set (framer_gates c). w_timestamp_ns w < s_start_time_ns g" unfolding framer_gates_def
    by (rule used_pending_all [where t = s_start_time_ns]) (use assms(1,2) word(3) in \<open>auto simp: framer_views framer_inv_def\<close>)
  have "\<forall>b\<in>set (framer_boundaries c). w_timestamp_ns w < te_timestamp_ns b" unfolding framer_boundaries_def
    by (rule used_pending_all [where t = te_timestamp_ns]) (use assms(1,2) word(4) in \<open>auto simp: framer_views framer_inv_def\<close>)
  note res = word_step [OF inv gates this step, unfolded framer_packets_heads]
  have "framer_ports c1" using assms(1) by (auto simp: framer_consistent_def framer_ports_def c1_def f1)
  with res views show ?thesis
    by (simp add: framer_to_come_def framer_consistent_def framer_left_def) (simp add: c1_def f1)
qed

lemma framer_finish:
  assumes "framer_consistent c" "all_inputs_finished (pfc_node c)" "close_packet (pfc_node c) = (ps, f')"
  shows "ps = framer_to_come c"
proof -
  have "framer_words c = []" "framer_boundaries c = []" "framer_gates c = []"
    using assms(2) by (auto simp: framer_views all_inputs_finished_def used_pending_def)
  then show ?thesis
    using close_packet_packets(2) [OF assms(3)] by (simp add: framer_to_come_def framer_packets_def framer_tokens_simps)
qed

definition framer_good :: "packet_framer_ctx \<Rightarrow> bool" where
  "framer_good c \<longleftrightarrow> accepting (pfc_out c) \<and> (pf_finished (pfc_node c) \<or> framer_consistent c)"

definition framer_remaining :: "packet_framer_ctx \<Rightarrow> nat" where
  "framer_remaining c = (if pf_finished (pfc_node c) then 0 else Suc (framer_left c))"

definition framer_predicted :: "packet_framer_ctx \<Rightarrow> protocol_packet list" where
  "framer_predicted c = log_of (pfc_out c) @ (if pf_finished (pfc_node c) then [] else framer_to_come c)"

lemma framer_views_out [simp]:
  "framer_left (c\<lparr>pfc_out := out\<rparr>) = framer_left c" "framer_to_come (c\<lparr>pfc_out := out\<rparr>) = framer_to_come c"
  "framer_consistent (c\<lparr>pfc_out := out\<rparr>) = framer_consistent c"
  by (simp_all add: framer_views)

lemma framer_step_refines:
  assumes c: "framer_consistent c" "framer_ready c" "\<not> pf_finished (pfc_node c)" "pfc_out c = Some output" "open_port output"
    and step: "framer_step output c = (res, c')"
  shows "case res of
      Inl e \<Rightarrow> e = Shutdown \<and> log_of (pfc_out c') = framer_predicted c
    | Inr n \<Rightarrow> framer_good c' \<and> framer_remaining c' < framer_remaining c \<and> framer_predicted c' = framer_predicted c"
proof -
  obtain ps f1 where event: "process_next_event (pfc_node c) = (ps, f1)" by fastforce
  let ?c1 = "c\<lparr>pfc_node := f1\<rparr>"
  note ev = framer_event [OF c(1,2) event]
  have sent: "(if xs \<noteq> [] then send_batch output xs else (None, output)) = (None, output\<lparr>sent := sent output @ xs\<rparr>)" for xs
    using c(5) by (simp add: port_simps)
  show ?thesis
  proof (cases "all_inputs_finished f1")
    case True
    obtain qs f2 where close: "close_packet f1 = (qs, f2)" by fastforce
    then have qs: "qs = framer_to_come ?c1" using ev True framer_finish [of ?c1 qs f2] by simp
    have "c' = c\<lparr>pfc_node := f2\<lparr>pf_finished := True\<rparr>, pfc_out := Some (output\<lparr>sent := sent output @ ps @ qs\<rparr>)\<rparr>"
      "res = (if ps @ qs = [] then Inl Shutdown else Inr (length (ps @ qs)))"
      using step True by (simp_all add: framer_step_def event close sent)
    then show ?thesis using c(3-5) ev qs
      by (simp add: framer_good_def framer_remaining_def framer_predicted_def accepting_def)
  next
    case False
    then have "c' = ?c1\<lparr>pfc_out := Some (output\<lparr>sent := sent output @ ps\<rparr>)\<rparr>" "res = Inr (length ps)"
      using step c(3) ev by (simp_all add: framer_step_def event sent)
    then show ?thesis using c(3-5) ev False
      by (simp add: framer_good_def framer_remaining_def framer_predicted_def accepting_def)
  qed
qed

lemma framer_fill_heads_returns:
  assumes "framer_consistent c"
  obtains c1 where "framer_fill_heads c = Some (None, c1)" "framer_consistent c1" "framer_ready c1"
    "framer_left c1 = framer_left c" "framer_to_come c1 = framer_to_come c" "pfc_out c1 = pfc_out c"
    "pf_finished (pfc_node c1) = pf_finished (pfc_node c)"
proof -
  let ?f = "pfc_node c"
  have ports: "port_ends (pfc_words c)" "pf_boundary_enabled ?f \<Longrightarrow> port_ends (pfc_boundary c)"
    "pf_gate_polarity ?f \<noteq> None \<Longrightarrow> port_ends (pfc_gate c)"
    using assms by (auto simp: framer_consistent_def framer_ports_def)
  obtain err h e p h' e' p' where two: "fill_two ''Missing words input'' (pf_word_head ?f) (pf_word_eos ?f) (pfc_words c)
      (pf_boundary_enabled ?f) ''Missing boundary input'' (pf_boundary_head ?f) (pf_boundary_eos ?f) (pfc_boundary c) =
      Some (err, (h, e, p), (h', e', p'))"
    using fill_two_total [OF ports(1,2)] by fastforce
  note two' = fill_twoD [OF two ports(1,2)]
  obtain err2 g ge gp where gate: "(if pf_gate_polarity ?f = None then Some (None, pf_gate_head ?f, pf_gate_eos ?f, pfc_gate c)
      else fill_port ''Missing gate input'' (pf_gate_head ?f) (pf_gate_eos ?f) (pfc_gate c)) = Some (err2, g, ge, gp)"
    using fill_port_total [OF ports(3)] by (cases "pf_gate_polarity ?f = None") fastforce+
  have gate': "err2 = None \<and> (pf_gate_polarity ?f \<noteq> None \<longrightarrow> port_ends gp \<and> head_ready g ge) \<and>
      port_pending g ge gp = port_pending (pf_gate_head ?f) (pf_gate_eos ?f) (pfc_gate c) \<and>
      (pf_gate_polarity ?f = None \<longrightarrow> g = pf_gate_head ?f)"
    using gate ports(3) by (auto split: if_splits dest: fill_portD)
  let ?c1 = "c\<lparr>pfc_node := ?f\<lparr>pf_word_head := h, pf_word_eos := e, pf_boundary_head := h', pf_boundary_eos := e',
    pf_gate_head := g, pf_gate_eos := ge\<rparr>, pfc_words := p, pfc_boundary := p', pfc_gate := gp\<rparr>"
  have fill: "framer_fill_heads c = Some (None, ?c1)"
  proof (cases "pf_gate_polarity ?f = None")
    case True
    then show ?thesis using two two' gate by (simp add: framer_fill_heads_def Let_def)
  next
    case False
    then obtain polarity where "pf_gate_polarity ?f = Some polarity" by auto
    then show ?thesis using two two' gate gate' by (simp add: framer_fill_heads_def Let_def)
  qed
  have views: "framer_words ?c1 = framer_words c" "framer_boundaries ?c1 = framer_boundaries c" "framer_gates ?c1 = framer_gates c"
    using two' gate' by (simp_all add: framer_views used_pending_def)
  have state: "framer_packets (pfc_node ?c1) = framer_packets ?f" "framer_inv (pfc_node ?c1) = framer_inv ?f"
    by (rule same_state; simp add: same_config_def)+
  have "framer_ports ?c1" "framer_ready ?c1"
    using two' gate' assms by (auto simp: framer_consistent_def framer_ports_def framer_ready_def split: if_splits)
  then show ?thesis
    by (intro that [OF fill]) (use assms views state in \<open>simp_all add: framer_consistent_def framer_left_def framer_to_come_def\<close>)
qed

interpretation packet_framer: draining_node framer_work framer_good framer_remaining "\<lambda>c. log_of (pfc_out c)" framer_predicted
proof (rule draining_nodeI)
  fix c assume good: "framer_good c"
  then obtain port where out: "pfc_out c = Some port" "open_port port" by (auto simp: framer_good_def accepting_def)
  show "\<exists>res c'. framer_work c = Some (res, c') \<and> (case res of
      Inl e \<Rightarrow> e = Shutdown \<and> log_of (pfc_out c') = framer_predicted c
    | Inr n \<Rightarrow> framer_good c' \<and> framer_remaining c' < framer_remaining c \<and> framer_predicted c' = framer_predicted c)"
  proof (cases "pf_finished (pfc_node c)")
    case True
    then show ?thesis by (simp add: framer_work_def framer_predicted_def)
  next
    case False
    then have "framer_consistent c" using good by (simp add: framer_good_def)
    then obtain c1 where fill: "framer_fill_heads c = Some (None, c1)" and c1: "framer_consistent c1" "framer_ready c1"
      "framer_left c1 = framer_left c" "framer_to_come c1 = framer_to_come c" "pfc_out c1 = pfc_out c"
      "pf_finished (pfc_node c1) = pf_finished (pfc_node c)"
      by (rule framer_fill_heads_returns)
    obtain res c' where step: "framer_step port c1 = (res, c')" by fastforce
    then have "framer_work c = Some (res, c')" using False out fill by (simp add: framer_work_def)
    moreover have "framer_predicted c1 = framer_predicted c" "framer_remaining c1 = framer_remaining c"
      using c1 False by (simp_all add: framer_predicted_def framer_remaining_def)
    moreover note framer_step_refines [OF c1(1,2) _ _ out(2) step]
    ultimately show ?thesis using False out c1 by (cases res) simp_all
  qed
qed

section \<open>The framing of a word stream\<close>

text \<open>
  The packets in terms of the settings alone. The gate is open when its input shows the active level, or always
  without one; a group is complete at the fixed count, if there is one, or at the maximum; two words that
  follow each other are joined unless more than the maximum gap lies between the end of the first and the
  start of the second, the first is the delimiter, or a boundary or a closing of the gate falls after the first
  and not after the second. Differences and sizes are unbounded numbers here; a gap, a count or a maximum of zero is
  as good as none, and as one word.
\<close>

definition gate_open :: "gate_polarity option \<Rightarrow> bool \<Rightarrow> bool" where
  "gate_open polarity level \<longleftrightarrow> polarity \<noteq> None \<longrightarrow> (level \<longleftrightarrow> polarity = Some ActiveHigh)"

definition kept_words :: "gate_polarity option \<Rightarrow> u64 option \<Rightarrow> bool \<Rightarrow> sample list \<Rightarrow> decoded_word list \<Rightarrow> framer_token list" where
  "kept_words polarity delimiter include_it gates words =
     map (\<lambda>w. if delimiter = Some (w_value w) \<and> \<not> include_it then Break else Take w)
       (filter (\<lambda>w. gate_open polarity (level_at False gates (w_timestamp_ns w))) words)"

definition joined :: "gate_polarity option \<Rightarrow> u64 option \<Rightarrow> u64 option \<Rightarrow> sample list \<Rightarrow> timestamp_event list \<Rightarrow>
    decoded_word \<Rightarrow> decoded_word \<Rightarrow> bool" where
  "joined polarity delimiter gap gates boundaries a w \<longleftrightarrow>
     (\<forall>g. gap = Some g \<and> g \<noteq> 0 \<longrightarrow> unat (w_timestamp_ns w) \<le> unat (w_timestamp_ns a + w_duration_ns a) + unat g) \<and>
     delimiter \<noteq> Some (w_value a) \<and>
     (\<forall>b\<in>set boundaries. te_timestamp_ns b \<le> w_timestamp_ns a \<or> w_timestamp_ns w < te_timestamp_ns b) \<and>
     (\<forall>g\<in>set gates. gate_open polarity (s_value g) \<or> s_start_time_ns g \<le> w_timestamp_ns a \<or> w_timestamp_ns w < s_start_time_ns g)"

definition complete :: "nat option \<Rightarrow> nat \<Rightarrow> decoded_word list \<Rightarrow> bool" where
  "complete count maximum words \<longleftrightarrow> (\<exists>n. count = Some n \<and> n \<noteq> 0 \<and> n \<le> length words) \<or> max maximum 1 \<le> length words"

lemma gap_exceeded_unbounded:
  "gap < saturating_sub (w_timestamp_ns w) (end_ns a) \<longleftrightarrow>
   unat (w_timestamp_ns a + w_duration_ns a) + unat gap < unat (w_timestamp_ns w)"
  by (auto simp: end_ns_def word_less_nat_alt sat_simps)

lemma framing_settings:
  assumes "f = with_gate_input (with_boundary_input (with_maximum_words (with_maximum_gap_ns (with_delimiter
      (with_fixed_word_count packet_framer_new count) delimiter include_it) gap) maximum) bounded) polarity"
  shows "framer_tokens f False gates words = kept_words polarity delimiter include_it gates words"
    and "together f gates boundaries = joined polarity delimiter gap gates boundaries"
    and "packet_full f = complete count maximum"
proof -
  have f: "pf_fixed_word_count f = (case count of Some n \<Rightarrow> if 0 < n then Some n else None | None \<Rightarrow> None)"
    "pf_delimiter f = map_option (\<lambda>v. (v, include_it)) delimiter" "pf_maximum_words f = max maximum 1"
    "pf_maximum_gap_ns f = (case gap of Some g \<Rightarrow> if 0 < g then Some g else None | None \<Rightarrow> None)" "pf_gate_polarity f = polarity"
    by (simp_all add: assms with_gate_input_def with_boundary_input_def with_maximum_words_def with_maximum_gap_ns_def
        with_delimiter_def with_fixed_word_count_def packet_framer_new_def)
  have gate: "level_active polarity = gate_open polarity"
    by (auto simp: fun_eq_iff level_active_def gate_open_def split: option.split gate_polarity.split)
  have delimiter: "is_delimiter f w \<longleftrightarrow> delimiter = Some (w_value w)" "is_delimiter f w \<Longrightarrow> includes_delimiter f = include_it" for w
    using f(2) by (auto simp: is_delimiter_def includes_delimiter_def split: option.split)
  have token: "(if is_delimiter f w \<and> \<not> includes_delimiter f then [Break] else [Take w]) =
      [if delimiter = Some (w_value w) \<and> \<not> include_it then Break else Take w]" for w
    using delimiter [of w] by auto
  show "framer_tokens f False gates words = kept_words polarity delimiter include_it gates words"
    by (induction words) (simp_all add: framer_tokens_simps kept_words_def f(5) gate token)
  have exceeded: "gap_exceeded f a w \<longleftrightarrow> (\<exists>g. gap = Some g \<and> g \<noteq> 0 \<and>
      unat (w_timestamp_ns a + w_duration_ns a) + unat g < unat (w_timestamp_ns w))" for a w
    using f(4) by (auto simp: gap_exceeded_def gap_exceeded_unbounded word_neq_0_conv split: option.splits if_splits)
  show "together f gates boundaries = joined polarity delimiter gap gates boundaries"
    by (auto simp: fun_eq_iff together_def joined_def exceeded delimiter(1) f(5) gate not_less not_le)
  show "packet_full f = complete count maximum"
    by (auto simp: fun_eq_iff packet_full_def complete_def f(1,3) split: option.splits)
qed

section \<open>Properties\<close>

text \<open>
  C20: On finite inputs in order of time, a run of the packet framer ends with the regular shutdown
  and emits one packet for each group of kept words: words outside the gate are dropped, a
  delimiter that is not included only separates, and a packet ends where it has the fixed count or the maximum
  of words, after an included delimiter, before a word that starts more than the maximum gap after the end of
  the previous one, at a boundary event and where the gate closes; nothing is lost at the end.
\<close>
theorem packet_framer_complete_run:
  assumes "ends words" "pf_boundary_enabled f \<Longrightarrow> ends boundary" "pf_gate_polarity f \<noteq> None \<Longrightarrow> ends gate" "open_port out"
    and "f = with_gate_input (with_boundary_input (with_maximum_words (with_maximum_gap_ns (with_delimiter
      (with_fixed_word_count packet_framer_new count) delimiter include_it) gap) maximum) bounded) polarity"
    and "sorted_by w_timestamp_ns (stream words)" "sorted_by te_timestamp_ns (stream boundary)"
      "sorted_by s_start_time_ns (stream gate)"
    and "length (stream words) + length (stream boundary) + length (stream gate) + 1 < fuel"
    and "gates = (if polarity = None then [] else stream gate)" "boundaries = (if bounded then stream boundary else [])"
  shows "\<exists>c n. run_node fuel framer_work never_stop
      \<lparr>pfc_node = f, pfc_words = Some words, pfc_boundary = Some boundary, pfc_gate = Some gate, pfc_out = Some out\<rparr> 0 =
      Some (Some Shutdown, c, n) \<and>
    log_of (pfc_out c) = sent out @ map packet_of
      (pack (joined polarity delimiter gap gates boundaries) (complete count maximum) []
        (kept_words polarity delimiter include_it gates (stream words)))"
proof -
  let ?c = "\<lparr>pfc_node = f, pfc_words = Some words, pfc_boundary = Some boundary, pfc_gate = Some gate, pfc_out = Some out\<rparr>"
  have f: "pf_words f = []" "pf_word_head f = None" "pf_boundary_head f = None" "pf_gate_head f = None" "\<not> pf_word_eos f"
    "\<not> pf_boundary_eos f" "\<not> pf_gate_eos f" "\<not> pf_finished f" "\<not> pf_gate_level f"
    "pf_boundary_enabled f = bounded" "pf_gate_polarity f = polarity"
    by (simp_all add: assms(5) with_gate_input_def with_boundary_input_def with_maximum_words_def with_maximum_gap_ns_def
        with_delimiter_def with_fixed_word_count_def packet_framer_new_def)
  have views: "framer_words ?c = stream words" "framer_boundaries ?c = (if bounded then stream boundary else [])"
    "framer_gates ?c = (if polarity = None then [] else stream gate)"
    using f by (simp_all add: framer_views used_pending_def port_pending_def pending_def)
  have "framer_good ?c"
    using assms(1-4,6-8) f by (simp add: framer_good_def framer_consistent_def views framer_inv_def framer_ports_def port_ends_def)
  moreover have "framer_remaining ?c < fuel" using assms(9) f(8) by (simp add: framer_remaining_def framer_left_def views)
  ultimately obtain c n where "run_node fuel framer_work never_stop ?c 0 = Some (Some Shutdown, c, n)"
    "log_of (pfc_out c) = framer_predicted ?c"
    using packet_framer.run_completes [of ?c fuel 0] by blast
  then show ?thesis
    using f by (auto simp: framer_predicted_def framer_to_come_def framer_packets_def views assms(10,11) framing_settings [OF assms(5)])
qed

definition example_word :: "u64 \<Rightarrow> u64 \<Rightarrow> decoded_word" where
  "example_word v t = \<lparr>w_value = v, w_payload = None, w_timestamp_ns = t, w_duration_ns = 5\<rparr>"

definition example_rx :: "'a list \<Rightarrow> 'a receiver" where
  "example_rx xs = \<lparr>rx_queue = [Batch xs, EndOfStream], rx_connected = True, rx_buffer = [], rx_eos = False\<rparr>"

text \<open>
  Packets of at most two words that lie no more than 4 apart, separated by the word \<open>0\<close>, with a boundary
  at 40 and a gate that is open from 5 to 50.
\<close>

definition example_framer :: packet_framer where
  "example_framer = with_gate_input (with_boundary_input (with_maximum_words (with_maximum_gap_ns (with_delimiter
      (with_fixed_word_count packet_framer_new None) (Some 0) False) (Some 4)) 2) True) (Some ActiveHigh)"

theorem packet_framer_complete_run_witness:
  "\<exists>c n. run_node 20 framer_work never_stop
      \<lparr>pfc_node = example_framer,
       pfc_words = Some (example_rx [example_word 1 10, example_word 2 20, example_word 3 25, example_word 0 30,
         example_word 4 35, example_word 5 40, example_word 6 60]),
       pfc_boundary = Some (example_rx [\<lparr>te_timestamp_ns = 40\<rparr>]),
       pfc_gate = Some (example_rx [\<lparr>s_value = True, s_start_time_ns = 5\<rparr>, \<lparr>s_value = False, s_start_time_ns = 50\<rparr>]),
       pfc_out = Some \<lparr>sent = [], open_port = True\<rparr>\<rparr> 0 = Some (Some Shutdown, c, n) \<and>
    log_of (pfc_out c) = map packet_of [[example_word 1 10], [example_word 2 20, example_word 3 25], [example_word 4 35], [example_word 5 40]]"
proof -
  let ?words = "[example_word 1 10, example_word 2 20, example_word 3 25, example_word 0 30,
         example_word 4 35, example_word 5 40, example_word 6 60]"
  let ?bounds = "[\<lparr>te_timestamp_ns = 40\<rparr>] :: timestamp_event list"
  let ?gates = "[\<lparr>s_value = True, s_start_time_ns = 5\<rparr>, \<lparr>s_value = False, s_start_time_ns = 50\<rparr>] :: sample list"
  have words: "stream (example_rx ?words) = ?words" "ends (example_rx ?words)"
    and bounds: "stream (example_rx ?bounds) = ?bounds" "ends (example_rx ?bounds)"
    and gates: "stream (example_rx ?gates) = ?gates" "ends (example_rx ?gates)"
    by (simp_all add: example_rx_def stream_def ends_def)
  have sorted: "sorted_by w_timestamp_ns ?words" "sorted_by te_timestamp_ns ?bounds" "sorted_by s_start_time_ns ?gates"
    by (simp_all add: example_word_def)
  have size: "length ?words + length ?bounds + length ?gates + 1 < 20" by simp
  let ?packets = "\<lambda>gates bounds. pack (joined (Some ActiveHigh) (Some 0) (Some 4) gates bounds) (complete None 2) []
      (kept_words (Some ActiveHigh) (Some 0) False gates ?words)"
  have packets: "?packets ?gates ?bounds = [[example_word 1 10], [example_word 2 20, example_word 3 25], [example_word 4 35], [example_word 5 40]]"
    by (simp add: kept_words_def joined_def complete_def gate_open_def example_word_def)
  have "\<exists>c n. run_node 20 framer_work never_stop
      \<lparr>pfc_node = example_framer, pfc_words = Some (example_rx ?words), pfc_boundary = Some (example_rx ?bounds),
       pfc_gate = Some (example_rx ?gates), pfc_out = Some \<lparr>sent = [], open_port = True\<rparr>\<rparr> 0 = Some (Some Shutdown, c, n) \<and>
    log_of (pfc_out c) = sent \<lparr>sent = [], open_port = True\<rparr> @ map packet_of (?packets ?gates ?bounds)"
    using packet_framer_complete_run [OF words(2) bounds(2) gates(2) _ example_framer_def, unfolded words(1) bounds(1) gates(1),
        OF _ sorted size, of "\<lparr>sent = [], open_port = True\<rparr>" ?gates ?bounds]
    by (simp only: out_port.simps simp_thms option.distinct(2) if_True if_False)
  then show ?thesis by (simp only: packets out_port.simps append_Nil)
qed

end
