(* ===== verification/Worker_Queue.thy ===== *)
theory Worker_Queue
  imports Ordered_Map "HOL-Library.Multiset"
begin

text \<open>
  The worker-operation queue, \<^verbatim>\<open>crates/platform_runtime/src/worker_operation_queue.rs\<close>, with the message
  types of \<^verbatim>\<open>work_executor.rs\<close>: a bounded scheduler for a pool of host workers that finish, fail and are
  cancelled in any order, while results are released in the order of submission. The theorems hold for
  every sequence of calls.
\<close>

section \<open>Messages\<close>

record worker_request =
  wr_sequence :: u64
  wr_operation :: string
  wr_payload :: "u8 list"

datatype worker_failure =
    Failure_Not_Registered string
  | Failure_Kernel string
  | Failure_Host string
  | Failure_Protocol string
  | Cancelled
  | Unavailable

datatype worker_message =
    Message_Run worker_request
  | Message_Cancel u64
  | Progress u64 u64 "u64 option"
  | Complete u64 "u8 list"
  | Failed u64 worker_failure

datatype worker_queue_error =
    EmptyPool
  | InsufficientCapacity nat nat
  | OperationNotRegistered string
  | NonMonotonicSequence u64 u64
  | Full

datatype worker_host_command =
    Run_Command nat worker_request
  | Cancel_Command nat u64

datatype worker_execution_mode = Cooperative | Parallel

record worker_execution_capability =
  cap_mode :: worker_execution_mode
  cap_parallelism :: nat
  cap_operations :: "string list"
  cap_unavailable_reason :: "string option"

text \<open>Both constructors sort the operations and drop repetitions.\<close>

definition capability_parallel :: "nat \<Rightarrow> string list \<Rightarrow> worker_execution_capability" where
  "capability_parallel parallelism operations =
     \<lparr>cap_mode = Parallel, cap_parallelism = max parallelism 1, cap_operations = remdups_adj (sort operations),
      cap_unavailable_reason = None\<rparr>"

definition capability_cooperative :: "string list \<Rightarrow> string \<Rightarrow> worker_execution_capability" where
  "capability_cooperative operations reason =
     \<lparr>cap_mode = Cooperative, cap_parallelism = 1, cap_operations = remdups_adj (sort operations),
      cap_unavailable_reason = Some reason\<rparr>"

definition capability_supports :: "worker_execution_capability \<Rightarrow> string \<Rightarrow> bool" where
  "capability_supports capability operation \<longleftrightarrow> operation \<in> set (cap_operations capability)"

section \<open>The queue\<close>

record worker_state =
  wk_ready :: bool
  wk_failed :: bool
  wk_running :: "u64 option"

record worker_operation_queue =
  wq_workers :: "worker_state list"
  wq_pending :: "worker_request list"
  wq_submission_order :: "u64 list"
  wq_terminal :: "(u64, worker_message) btree_map"
  wq_delivered :: "worker_message list"
  wq_cancelled :: "u64 set"
  wq_max_outstanding :: nat
  wq_last_submitted_sequence :: "u64 option"
  wq_operations :: "string set"

definition queue_new :: "nat \<Rightarrow> nat \<Rightarrow> string list \<Rightarrow> worker_queue_error + worker_operation_queue" where
  "queue_new worker_count max_outstanding operations =
     (if worker_count = 0 then Inl EmptyPool
      else if max_outstanding < worker_count then Inl (InsufficientCapacity worker_count max_outstanding)
      else Inr \<lparr>wq_workers = replicate worker_count \<lparr>wk_ready = False, wk_failed = False, wk_running = None\<rparr>,
        wq_pending = [], wq_submission_order = [], wq_terminal = [], wq_delivered = [], wq_cancelled = {},
        wq_max_outstanding = max_outstanding, wq_last_submitted_sequence = None, wq_operations = set operations\<rparr>)"

definition queue_capability :: "worker_operation_queue \<Rightarrow> worker_execution_capability" where
  "queue_capability q = capability_parallel (length (wq_workers q)) (sorted_list_of_set (wq_operations q))"

definition available_parallelism :: "worker_operation_queue \<Rightarrow> nat" where
  "available_parallelism q = length (wq_workers q)"

definition outstanding :: "worker_operation_queue \<Rightarrow> nat" where
  "outstanding q = length (wq_submission_order q)"

definition contains_sequence :: "worker_operation_queue \<Rightarrow> u64 \<Rightarrow> bool" where
  "contains_sequence q s \<longleftrightarrow> s \<in> set (wq_submission_order q)"

text \<open>Only results and failures end a request; any other message panics.\<close>

definition terminal_sequence :: "worker_message \<Rightarrow> u64 option" where
  "terminal_sequence message =
     (case message of Complete s _ \<Rightarrow> Some s | Failed s _ \<Rightarrow> Some s | _ \<Rightarrow> None)"

fun release :: "u64 list \<Rightarrow> (u64, worker_message) btree_map \<Rightarrow> u64 set \<Rightarrow>
    u64 list \<times> (u64, worker_message) btree_map \<times> u64 set \<times> worker_message list" where
  "release [] terminal cancelled = ([], terminal, cancelled, [])"
| "release (s # order) terminal cancelled =
     (case map_of terminal s of
        None \<Rightarrow> (s # order, terminal, cancelled, [])
      | Some message \<Rightarrow>
          let (order', terminal', cancelled', messages) = release order (btree_remove s terminal) (cancelled - {s})
          in (order', terminal', cancelled', message # messages))"

definition release_ordered :: "worker_operation_queue \<Rightarrow> worker_operation_queue" where
  "release_ordered q =
     (let (order, terminal, cancelled, messages) = release (wq_submission_order q) (wq_terminal q) (wq_cancelled q)
      in q\<lparr>wq_submission_order := order, wq_terminal := terminal, wq_cancelled := cancelled,
           wq_delivered := wq_delivered q @ messages\<rparr>)"

definition record_terminal :: "worker_message \<Rightarrow> worker_operation_queue \<Rightarrow> worker_operation_queue option" where
  "record_terminal message q =
     map_option (\<lambda>s.
       release_ordered
         (if contains_sequence q s \<and> map_of (wq_terminal q) s = None
          then q\<lparr>wq_terminal := btree_insert s message (wq_terminal q)\<rparr> else q))
     (terminal_sequence message)"

fun dispatch_from :: "nat \<Rightarrow> worker_state list \<Rightarrow> worker_request list \<Rightarrow>
    worker_host_command list \<times> worker_state list \<times> worker_request list" where
  "dispatch_from i [] pending = ([], [], pending)"
| "dispatch_from i (w # workers) pending =
     (if \<not> wk_ready w \<or> wk_failed w \<or> wk_running w \<noteq> None
      then (let (commands, workers', pending') = dispatch_from (Suc i) workers pending
            in (commands, w # workers', pending'))
      else case pending of
        [] \<Rightarrow> ([], w # workers, [])
      | request # rest \<Rightarrow>
          (let (commands, workers', pending') = dispatch_from (Suc i) workers rest
           in (Run_Command i request # commands, w\<lparr>wk_running := Some (wr_sequence request)\<rparr> # workers', pending')))"

definition dispatch_ready_workers :: "worker_operation_queue \<Rightarrow> worker_host_command list \<times> worker_operation_queue" where
  "dispatch_ready_workers q =
     (let (commands, workers, pending) = dispatch_from 0 (wq_workers q) (wq_pending q)
      in (commands, q\<lparr>wq_workers := workers, wq_pending := pending\<rparr>))"

definition fail_pending_if_unavailable :: "worker_operation_queue \<Rightarrow> worker_operation_queue" where
  "fail_pending_if_unavailable q =
     (if list_all wk_failed (wq_workers q)
      then release_ordered (q\<lparr>wq_pending := [],
        wq_terminal := fold (\<lambda>request. btree_insert (wr_sequence request) (Failed (wr_sequence request) Unavailable))
          (wq_pending q) (wq_terminal q)\<rparr>)
      else q)"

definition submit :: "worker_request \<Rightarrow> worker_operation_queue \<Rightarrow>
    (worker_queue_error + worker_host_command list) \<times> worker_operation_queue" where
  "submit request q =
     (if wr_operation request \<notin> wq_operations q then (Inl (OperationNotRegistered (wr_operation request)), q)
      else if (case wq_last_submitted_sequence q of Some previous \<Rightarrow> wr_sequence request \<le> previous | None \<Rightarrow> False)
      then (Inl (NonMonotonicSequence (wr_sequence request) (the (wq_last_submitted_sequence q))), q)
      else if wq_max_outstanding q \<le> outstanding q then (Inl Full, q)
      else map_prod Inr id (dispatch_ready_workers
        (q\<lparr>wq_last_submitted_sequence := Some (wr_sequence request),
           wq_submission_order := wq_submission_order q @ [wr_sequence request],
           wq_pending := wq_pending q @ [request]\<rparr>)))"

definition worker_ready :: "nat \<Rightarrow> worker_operation_queue \<Rightarrow> worker_host_command list \<times> worker_operation_queue" where
  "worker_ready i q =
     dispatch_ready_workers
       (if i < length (wq_workers q) \<and> \<not> wk_failed (wq_workers q ! i)
        then q\<lparr>wq_workers := (wq_workers q)[i := (wq_workers q ! i)\<lparr>wk_ready := True\<rparr>]\<rparr> else q)"

definition worker_progress :: "u64 \<Rightarrow> u64 \<Rightarrow> u64 option \<Rightarrow> worker_operation_queue \<Rightarrow> worker_operation_queue" where
  "worker_progress s completed goal q =
     (if contains_sequence q s \<and> s \<notin> wq_cancelled q
      then q\<lparr>wq_delivered := wq_delivered q @ [Progress s completed goal]\<rparr> else q)"

definition worker_failed :: "nat \<Rightarrow> worker_failure \<Rightarrow> worker_operation_queue \<Rightarrow>
    (worker_host_command list \<times> worker_operation_queue) option" where
  "worker_failed i error q =
     (if length (wq_workers q) \<le> i then Some ([], q)
      else
        let worker = wq_workers q ! i;
            q1 = q\<lparr>wq_workers := (wq_workers q)[i := worker\<lparr>wk_ready := False, wk_failed := True, wk_running := None\<rparr>]\<rparr>
        in map_option (\<lambda>q2. dispatch_ready_workers (fail_pending_if_unavailable q2))
             (case wk_running worker of
                None \<Rightarrow> Some q1
              | Some s \<Rightarrow> if s \<notin> wq_cancelled q1 then record_terminal (Failed s error) q1 else Some q1))"

definition worker_completed :: "nat \<Rightarrow> u64 option \<Rightarrow> worker_failure + u8 list \<Rightarrow> worker_operation_queue \<Rightarrow>
    (worker_host_command list \<times> worker_operation_queue) option" where
  "worker_completed i reported res q =
     (case (if i < length (wq_workers q) then wk_running (wq_workers q ! i) else None) of
        None \<Rightarrow>
          worker_failed i (Failure_Protocol ''worker returned a terminal message without an active request'') q
      | Some running \<Rightarrow>
          if reported \<noteq> None \<and> the reported \<noteq> running
          then worker_failed i (Failure_Protocol (''worker returned sequence '' @ show_nat (unat (the reported)) @
                 '' while running sequence '' @ show_nat (unat running))) q
          else
            let q1 = q\<lparr>wq_workers := (wq_workers q)[i := (wq_workers q ! i)\<lparr>wk_running := None\<rparr>]\<rparr>
            in map_option dispatch_ready_workers
                 (if contains_sequence q1 running \<and> running \<notin> wq_cancelled q1
                  then record_terminal (case res of Inr payload \<Rightarrow> Complete running payload | Inl e \<Rightarrow> Failed running e) q1
                  else Some q1))"

fun drop_first :: "('a \<Rightarrow> bool) \<Rightarrow> 'a list \<Rightarrow> 'a list" where
  "drop_first P [] = []"
| "drop_first P (x # xs) = (if P x then xs else x # drop_first P xs)"

definition cancel :: "u64 \<Rightarrow> worker_operation_queue \<Rightarrow>
    ((bool \<times> worker_host_command list) \<times> worker_operation_queue) option" where
  "cancel s q =
     (if \<not> contains_sequence q s then Some ((False, []), q)
      else
        let q1 = q\<lparr>wq_cancelled := insert s (wq_cancelled q),
                   wq_pending := drop_first (\<lambda>request. wr_sequence request = s) (wq_pending q)\<rparr>;
            commands = map (\<lambda>(i, _). Cancel_Command i s)
              (filter (\<lambda>(_, worker). wk_running worker = Some s) (enumerate 0 (wq_workers q1)))
        in map_option (\<lambda>q2. let (started, q3) = dispatch_ready_workers q2 in ((True, commands @ started), q3))
             (record_terminal (Failed s Cancelled) q1))"

definition drain_messages :: "worker_operation_queue \<Rightarrow> worker_message list \<times> worker_operation_queue" where
  "drain_messages q = (wq_delivered q, q\<lparr>wq_delivered := []\<rparr>)"

section \<open>Invariant\<close>

definition started_of :: "worker_host_command list \<Rightarrow> u64 list" where
  "started_of commands =
     List.map_filter (\<lambda>command. case command of Run_Command _ request \<Rightarrow> Some (wr_sequence request) | Cancel_Command _ _ \<Rightarrow> None) commands"

definition idle :: "worker_state \<Rightarrow> bool" where
  "idle w \<longleftrightarrow> wk_ready w \<and> \<not> wk_failed w \<and> wk_running w = None"

definition running_of :: "worker_state list \<Rightarrow> u64 list" where
  "running_of workers = List.map_filter wk_running workers"

definition pending_of :: "worker_operation_queue \<Rightarrow> u64 list" where
  "pending_of q = map wr_sequence (wq_pending q)"

definition ended_of :: "worker_operation_queue \<Rightarrow> u64 set" where
  "ended_of q = fst ` set (wq_terminal q)"

definition up_to :: "u64 option \<Rightarrow> u64 \<Rightarrow> bool" where
  "up_to limit s = (case limit of None \<Rightarrow> False | Some l \<Rightarrow> s \<le> l)"

text \<open>
  The invariant, for all requests but those in a set \<open>X\<close> whose end is about to be recorded: every
  outstanding request is queued, running on one worker, or ended and waiting for its turn.
\<close>

definition wq_but :: "u64 set \<Rightarrow> worker_operation_queue \<Rightarrow> bool" where
  "wq_but X q \<longleftrightarrow>
     sorted_wrt (<) (wq_submission_order q) \<and> sorted_wrt (<) (pending_of q) \<and>
     (\<forall>s\<in>set (wq_submission_order q) \<union> set (running_of (wq_workers q)). up_to (wq_last_submitted_sequence q) s) \<and>
     increasing (wq_terminal q) \<and> (\<forall>(s, m)\<in>set (wq_terminal q). terminal_sequence m = Some s) \<and>
     set (pending_of q) \<subseteq> set (wq_submission_order q) \<and> ended_of q \<subseteq> set (wq_submission_order q) \<and>
     distinct (running_of (wq_workers q)) \<and>
     set (pending_of q) \<inter> (ended_of q \<union> set (running_of (wq_workers q)) \<union> X) = {} \<and>
     (ended_of q \<union> X) \<inter> set (running_of (wq_workers q)) \<subseteq> wq_cancelled q \<and>
     set (wq_submission_order q) \<subseteq> set (pending_of q) \<union> ended_of q \<union> set (running_of (wq_workers q)) \<union> X \<and>
     wq_cancelled q \<subseteq> ended_of q \<union> (X \<inter> set (wq_submission_order q)) \<and>
     (\<forall>w\<in>set (wq_workers q). wk_failed w \<longrightarrow> \<not> wk_ready w \<and> wk_running w = None) \<and>
     outstanding q \<le> wq_max_outstanding q"

abbreviation wq_core :: "worker_operation_queue \<Rightarrow> bool" where
  "wq_core \<equiv> wq_but {}"

definition released :: "worker_operation_queue \<Rightarrow> bool" where
  "released q \<longleftrightarrow> (\<forall>s rest. wq_submission_order q = s # rest \<longrightarrow> s \<notin> ended_of q)"

definition work_conserving :: "worker_operation_queue \<Rightarrow> bool" where
  "work_conserving q \<longleftrightarrow> wq_pending q = [] \<or> (\<forall>w\<in>set (wq_workers q). \<not> idle w)"

definition wq_inv :: "worker_operation_queue \<Rightarrow> bool" where
  "wq_inv q \<longleftrightarrow> wq_core q \<and> released q \<and> work_conserving q"

lemma running_of_simps [simp]:
  "running_of [] = []" "running_of (w # ws) = (case wk_running w of None \<Rightarrow> [] | Some s \<Rightarrow> [s]) @ running_of ws"
  by (simp_all add: running_of_def List.map_filter_def split: option.splits)

lemma started_of_simps [simp]:
  "started_of [] = []" "started_of (Run_Command i r # cs) = wr_sequence r # started_of cs"
  "started_of (Cancel_Command i s # cs) = started_of cs"
  by (simp_all add: started_of_def List.map_filter_def)

lemma started_of_append: "started_of (cs @ ds) = started_of cs @ started_of ds"
  by (simp add: started_of_def List.map_filter_def)

lemma set_running_of: "s \<in> set (running_of ws) \<longleftrightarrow> (\<exists>w\<in>set ws. wk_running w = Some s)"
  by (induction ws) (auto split: option.splits)

lemma mset_running_of_update:
  assumes "i < length ws"
  shows "mset (running_of (ws[i := w])) + mset (running_of [ws ! i]) = mset (running_of ws) + mset (running_of [w])"
  using assms
proof (induction ws arbitrary: i)
  case (Cons v ws)
  then show ?case by (cases i) (auto simp: algebra_simps)
qed simp

section \<open>Releasing\<close>

lemma release_spec:
  assumes "release order terminal cancelled = (order', terminal', cancelled', messages)"
    "increasing terminal" "\<forall>(s, m)\<in>set terminal. terminal_sequence m = Some s" "distinct order"
  shows "\<exists>gone. order = gone @ order' \<and> map terminal_sequence messages = map Some gone \<and>
    increasing terminal' \<and> set terminal' = {e \<in> set terminal. fst e \<notin> set gone} \<and> set gone \<subseteq> fst ` set terminal \<and>
    cancelled' = cancelled - set gone \<and> (\<forall>s rest. order' = s # rest \<longrightarrow> s \<notin> fst ` set terminal')"
  using assms
proof (induction order terminal cancelled arbitrary: order' terminal' cancelled' messages rule: release.induct)
  case (2 s order terminal cancelled)
  show ?case
  proof (cases "map_of terminal s")
    case None
    with 2(2-) show ?thesis by (auto simp: map_of_eq_None_iff)
  next
    case (Some m)
    obtain o1 t1 c1 ms where rest: "release order (btree_remove s terminal) (cancelled - {s}) = (o1, t1, c1, ms)"
      by (metis prod.exhaust)
    with 2(2) Some have out: "order' = o1" "terminal' = t1" "cancelled' = c1" "messages = m # ms" by auto
    have m: "(s, m) \<in> set terminal" using Some by (rule map_of_SomeD)
    then have "terminal_sequence m = Some s" using 2(4) by auto
    moreover have "increasing (btree_remove s terminal)" using 2(3) by (rule btree.remove_increasing)
    moreover have "set (btree_remove s terminal) = {e \<in> set terminal. fst e \<noteq> s}" by (auto simp: btree_remove_def)
    moreover obtain gone where g: "order = gone @ o1" "map terminal_sequence ms = map Some gone" "increasing t1"
      "set t1 = {e \<in> set (btree_remove s terminal). fst e \<notin> set gone}" "set gone \<subseteq> fst ` set (btree_remove s terminal)"
      "c1 = cancelled - {s} - set gone" "\<forall>s rest. o1 = s # rest \<longrightarrow> s \<notin> fst ` set t1"
      using 2(1) [OF Some rest] calculation 2(4,5) by auto
    ultimately show ?thesis using m unfolding out
      by (intro exI [of _ "s # gone"] conjI) (auto intro: rev_image_eqI)
  qed
qed simp

lemma release_ordered_spec:
  assumes "wq_core q"
  shows "\<exists>gone messages. wq_submission_order q = gone @ wq_submission_order (release_ordered q) \<and>
    map terminal_sequence messages = map Some gone \<and>
    release_ordered q = q\<lparr>wq_submission_order := wq_submission_order (release_ordered q),
      wq_terminal := wq_terminal (release_ordered q), wq_cancelled := wq_cancelled q - set gone,
      wq_delivered := wq_delivered q @ messages\<rparr> \<and>
    set (wq_terminal (release_ordered q)) = {e \<in> set (wq_terminal q). fst e \<notin> set gone} \<and> set gone \<subseteq> ended_of q \<and>
    wq_core (release_ordered q) \<and> released (release_ordered q)"
proof -
  obtain order terminal cancelled messages where r:
    "release (wq_submission_order q) (wq_terminal q) (wq_cancelled q) = (order, terminal, cancelled, messages)"
    by (metis prod.exhaust)
  then have q': "release_ordered q = q\<lparr>wq_submission_order := order, wq_terminal := terminal, wq_cancelled := cancelled,
      wq_delivered := wq_delivered q @ messages\<rparr>" by (simp add: release_ordered_def)
  have pre: "increasing (wq_terminal q)" "\<forall>(s, m)\<in>set (wq_terminal q). terminal_sequence m = Some s"
    "distinct (wq_submission_order q)"
    using assms by (auto simp: wq_but_def strict_sorted_iff)
  then obtain gone where g: "wq_submission_order q = gone @ order" "map terminal_sequence messages = map Some gone"
    "increasing terminal" "set terminal = {e \<in> set (wq_terminal q). fst e \<notin> set gone}" "set gone \<subseteq> ended_of q"
    "cancelled = wq_cancelled q - set gone" "\<forall>s rest. order = s # rest \<longrightarrow> s \<notin> fst ` set terminal"
    using release_spec [OF r pre] by (auto simp: ended_of_def)
  have ended: "ended_of (release_ordered q) = ended_of q - set gone" by (auto simp: q' ended_of_def g(4))
  have disjoint: "set gone \<inter> set order = {}" using pre(3) g(1) by auto
  have gone: "set gone \<inter> set (pending_of q) = {}" using g(5) assms by (auto simp: wq_but_def)
  have "wq_core (release_ordered q)"
    using assms g(1,3-6) disjoint gone unfolding wq_but_def ended
    by (elim conjE, intro conjI) (auto simp: q' pending_of_def sorted_wrt_append outstanding_def)
  moreover have "released (release_ordered q)" using g(7) by (simp add: released_def q' ended_of_def)
  ultimately show ?thesis using g q' by (intro exI [of _ gone] exI [of _ messages]) auto
qed

section \<open>Recording and handing out\<close>

text \<open>The ends that have been reported and not yet been drained, and the requests without a released end.\<close>

definition history :: "worker_operation_queue \<Rightarrow> u64 list" where
  "history q = List.map_filter terminal_sequence (wq_delivered q) @ wq_submission_order q"

definition same_setup :: "worker_operation_queue \<Rightarrow> worker_operation_queue \<Rightarrow> bool" where
  "same_setup q q' \<longleftrightarrow> wq_max_outstanding q' = wq_max_outstanding q \<and> wq_operations q' = wq_operations q \<and>
     wq_last_submitted_sequence q' = wq_last_submitted_sequence q \<and> length (wq_workers q') = length (wq_workers q)"

lemma map_filter_Some: "map f xs = map Some ys \<Longrightarrow> List.map_filter f xs = ys"
  by (induction xs arbitrary: ys) (auto simp: List.map_filter_def)

lemma map_filter_append: "List.map_filter f (xs @ ys) = List.map_filter f xs @ List.map_filter f ys"
  by (simp add: List.map_filter_def)

lemma release_ordered_keeps:
  assumes "wq_core q"
  shows "wq_core (release_ordered q)" "released (release_ordered q)" "history (release_ordered q) = history q"
    "same_setup q (release_ordered q)" "wq_workers (release_ordered q) = wq_workers q"
    "wq_pending (release_ordered q) = wq_pending q" "ended_of (release_ordered q) \<subseteq> ended_of q"
proof -
  obtain gone messages where g: "wq_submission_order q = gone @ wq_submission_order (release_ordered q)"
    "map terminal_sequence messages = map Some gone"
    "release_ordered q = q\<lparr>wq_submission_order := wq_submission_order (release_ordered q),
      wq_terminal := wq_terminal (release_ordered q), wq_cancelled := wq_cancelled q - set gone,
      wq_delivered := wq_delivered q @ messages\<rparr>"
    "set (wq_terminal (release_ordered q)) = {e \<in> set (wq_terminal q). fst e \<notin> set gone}"
    "wq_core (release_ordered q)" "released (release_ordered q)"
    using release_ordered_spec [OF assms] by blast
  show "wq_core (release_ordered q)" "released (release_ordered q)" using g by blast+
  have fields: "wq_workers (release_ordered q) = wq_workers q" "wq_pending (release_ordered q) = wq_pending q"
    "wq_delivered (release_ordered q) = wq_delivered q @ messages" "same_setup q (release_ordered q)"
    by (subst g(3); simp add: same_setup_def)+
  then show "wq_workers (release_ordered q) = wq_workers q" "wq_pending (release_ordered q) = wq_pending q"
    "same_setup q (release_ordered q)" by simp_all
  show "history (release_ordered q) = history q"
    by (simp add: history_def fields g(1) map_filter_append map_filter_Some [OF g(2)])
  show "ended_of (release_ordered q) \<subseteq> ended_of q" by (auto simp: ended_of_def g(4))
qed

definition note_end :: "u64 \<Rightarrow> worker_message \<Rightarrow> worker_operation_queue \<Rightarrow> worker_operation_queue" where
  "note_end s m q =
     (if contains_sequence q s \<and> map_of (wq_terminal q) s = None
      then q\<lparr>wq_terminal := btree_insert s m (wq_terminal q)\<rparr> else q)"

lemma ended_of_note_end:
  assumes "increasing (wq_terminal q)"
  shows "ended_of (note_end s m q) = ended_of q \<union> ({s} \<inter> set (wq_submission_order q))"
  using assms by (auto simp: note_end_def ended_of_def contains_sequence_def btree.insert_keys map_of_eq_None_iff)

lemma note_end_core:
  assumes "wq_but {s} q" "terminal_sequence m = Some s"
  shows "wq_core (note_end s m q)"
proof -
  have incr: "increasing (wq_terminal q)" using assms(1) by (simp add: wq_but_def)
  have ended: "ended_of (note_end s m q) = ended_of q \<union> ({s} \<inter> set (wq_submission_order q))"
    by (rule ended_of_note_end [OF incr])
  have fields: "wq_submission_order (note_end s m q) = wq_submission_order q" "wq_workers (note_end s m q) = wq_workers q"
    "pending_of (note_end s m q) = pending_of q" "wq_cancelled (note_end s m q) = wq_cancelled q"
    "wq_last_submitted_sequence (note_end s m q) = wq_last_submitted_sequence q"
    "wq_max_outstanding (note_end s m q) = wq_max_outstanding q" "outstanding (note_end s m q) = outstanding q"
    by (simp_all add: note_end_def pending_of_def outstanding_def)
  have "increasing (wq_terminal (note_end s m q))"
    using incr by (simp add: note_end_def increasing_btree_insert)
  moreover have "\<forall>(k, v)\<in>set (wq_terminal (note_end s m q)). terminal_sequence v = Some k"
  proof -
    have "terminal_sequence v = Some k" if "map_of (wq_terminal (note_end s m q)) k = Some v" for k v
      using that assms map_of_SomeD [of "wq_terminal q" k v]
      by (auto simp: note_end_def map_of_btree_insert wq_but_def split: if_splits)
    then show ?thesis using calculation by (auto dest!: increasing_distinct intro: map_of_is_SomeI)
  qed
  ultimately show ?thesis
    using assms(1) unfolding wq_but_def fields ended by (elim conjE, intro conjI) auto
qed

lemma record_terminal_keeps:
  assumes "wq_but {s} q" "terminal_sequence m = Some s"
  obtains q' where "record_terminal m q = Some q'" "wq_core q'" "released q'" "history q' = history q" "same_setup q q'"
    "wq_workers q' = wq_workers q" "wq_pending q' = wq_pending q" "ended_of q' \<subseteq> insert s (ended_of q)"
proof -
  note core = note_end_core [OF assms]
  have "record_terminal m q = Some (release_ordered (note_end s m q))"
    using assms(2) by (simp add: record_terminal_def note_end_def)
  moreover have "history (note_end s m q) = history q" "same_setup q (note_end s m q)"
    "wq_workers (note_end s m q) = wq_workers q" "wq_pending (note_end s m q) = wq_pending q"
    by (simp_all add: note_end_def history_def same_setup_def)
  moreover have "ended_of (note_end s m q) \<subseteq> insert s (ended_of q)"
    using assms(1) ended_of_note_end [of q s m] by (auto simp: wq_but_def)
  ultimately show thesis
    using release_ordered_keeps [OF core] by (intro that [of "release_ordered (note_end s m q)"]) (auto simp: same_setup_def)
qed

lemma dispatch_from_spec:
  assumes "dispatch_from i ws pending = (commands, ws', pending')"
  shows "\<exists>taken. pending = taken @ pending' \<and> length ws' = length ws \<and> started_of commands = map wr_sequence taken \<and>
    mset (running_of ws') = mset (running_of ws) + mset (map wr_sequence taken) \<and>
    map wk_failed ws' = map wk_failed ws \<and> map wk_ready ws' = map wk_ready ws \<and>
    (pending' = [] \<or> (\<forall>w\<in>set ws'. \<not> idle w)) \<and>
    ((\<forall>w\<in>set ws. wk_failed w \<longrightarrow> \<not> wk_ready w \<and> wk_running w = None) \<longrightarrow>
     (\<forall>w\<in>set ws'. wk_failed w \<longrightarrow> \<not> wk_ready w \<and> wk_running w = None))"
  using assms
proof (induction i ws pending arbitrary: commands ws' pending' rule: dispatch_from.induct)
  case (2 i w ws pending)
  show ?case
  proof (cases "idle w")
    case False
    obtain cs vs ps where r: "dispatch_from (Suc i) ws pending = (cs, vs, ps)" by (metis prod.exhaust)
    have "\<not> wk_ready w \<or> wk_failed w \<or> wk_running w \<noteq> None" using False by (auto simp: idle_def)
    with 2(3) r have "commands = cs" "ws' = w # vs" "pending' = ps" by auto
    with 2(1) [OF \<open>\<not> wk_ready w \<or> wk_failed w \<or> wk_running w \<noteq> None\<close> r] False show ?thesis by auto
  next
    case True
    then have idle: "\<not> (\<not> wk_ready w \<or> wk_failed w \<or> wk_running w \<noteq> None)" by (auto simp: idle_def)
    show ?thesis
    proof (cases pending)
      case Nil
      with 2(3) idle show ?thesis by auto
    next
      case (Cons r rest)
      obtain cs vs ps where d: "dispatch_from (Suc i) ws rest = (cs, vs, ps)" by (metis prod.exhaust)
      with 2(3) idle Cons have out: "ws' = w\<lparr>wk_running := Some (wr_sequence r)\<rparr> # vs" "pending' = ps"
        "commands = Run_Command i r # cs" by auto
      obtain taken where t: "rest = taken @ ps" "length vs = length ws \<and> started_of cs = map wr_sequence taken"
        "mset (running_of vs) = mset (running_of ws) + mset (map wr_sequence taken)"
        "map wk_failed vs = map wk_failed ws" "map wk_ready vs = map wk_ready ws" "ps = [] \<or> (\<forall>w\<in>set vs. \<not> idle w)"
        "(\<forall>w\<in>set ws. wk_failed w \<longrightarrow> \<not> wk_ready w \<and> wk_running w = None) \<longrightarrow>
         (\<forall>w\<in>set vs. wk_failed w \<longrightarrow> \<not> wk_ready w \<and> wk_running w = None)"
        using 2(2) [OF idle Cons d] by blast
      show ?thesis
      proof (intro exI [of _ "r # taken"] conjI)
        show "mset (running_of ws') = mset (running_of (w # ws)) + mset (map wr_sequence (r # taken))"
          using t(3) idle by (simp add: out(1))
        show "pending' = [] \<or> (\<forall>v\<in>set ws'. \<not> idle v)" using t(6) by (simp add: out idle_def)
        show "(\<forall>v\<in>set (w # ws). wk_failed v \<longrightarrow> \<not> wk_ready v \<and> wk_running v = None) \<longrightarrow>
            (\<forall>v\<in>set ws'. wk_failed v \<longrightarrow> \<not> wk_ready v \<and> wk_running v = None)"
          using t(7) idle by (simp add: out(1))
      qed (use t(1,2,4,5) Cons in \<open>simp_all add: out\<close>)
    qed
  qed
qed simp

lemma dispatch_keeps:
  assumes "wq_core q" "dispatch_ready_workers q = (commands, q')"
  shows "wq_core q' \<and> work_conserving q' \<and> (released q \<longrightarrow> released q') \<and> history q' = history q \<and> same_setup q q' \<and>
    map wk_failed (wq_workers q') = map wk_failed (wq_workers q) \<and>
    pending_of q = started_of commands @ pending_of q'"
proof -
  obtain cs ws ps where d: "dispatch_from 0 (wq_workers q) (wq_pending q) = (cs, ws, ps)" by (metis prod.exhaust)
  then have q': "q' = q\<lparr>wq_workers := ws, wq_pending := ps\<rparr>" "commands = cs" using assms(2) by (simp_all add: dispatch_ready_workers_def)
  obtain taken where t: "wq_pending q = taken @ ps" "length ws = length (wq_workers q) \<and> started_of cs = map wr_sequence taken"
    "mset (running_of ws) = mset (running_of (wq_workers q)) + mset (map wr_sequence taken)"
    "map wk_failed ws = map wk_failed (wq_workers q)" "ps = [] \<or> (\<forall>w\<in>set ws. \<not> idle w)"
    "\<forall>w\<in>set ws. wk_failed w \<longrightarrow> \<not> wk_ready w \<and> wk_running w = None"
    using dispatch_from_spec [OF d] assms(1) unfolding wq_but_def by blast
  have running: "set (running_of ws) = set (running_of (wq_workers q)) \<union> wr_sequence ` set taken"
    using arg_cong [OF t(3), of set_mset] by simp
  have pending: "pending_of q = map wr_sequence taken @ pending_of q'" by (simp add: pending_of_def t(1) q')
  have sorted: "sorted_wrt (<) (map wr_sequence taken @ pending_of q')" using assms(1) by (simp add: wq_but_def pending)
  have "distinct (running_of ws)"
  proof -
    have "distinct (map wr_sequence taken)" using sorted by (simp add: sorted_wrt_append strict_sorted_iff)
    moreover have "set (running_of (wq_workers q)) \<inter> wr_sequence ` set taken = {}"
      using assms(1) by (auto simp: wq_but_def pending)
    ultimately have "distinct (running_of (wq_workers q) @ map wr_sequence taken)"
      using assms(1) by (auto simp: wq_but_def)
    then show ?thesis using t(3) by (metis mset_append mset_eq_imp_distinct_iff)
  qed
  moreover have "wr_sequence ` set taken \<inter> set (pending_of q') = {}" using sorted by (force simp: sorted_wrt_append)
  moreover have "ended_of q' = ended_of q" by (simp add: q' ended_of_def)
  ultimately have "wq_core q'"
    using assms(1) running t(6) sorted unfolding wq_but_def pending
    by (elim conjE, intro conjI) (auto simp: q' outstanding_def sorted_wrt_append)
  then show ?thesis using t(2,4,5) pending
    by (auto simp: q' work_conserving_def released_def history_def same_setup_def ended_of_def)
qed

lemma running_of_clear:
  assumes "i < length ws" "wk_running (ws ! i) = Some s" "wk_running w = None" "distinct (running_of ws)"
  shows "distinct (running_of (ws[i := w]))" "set (running_of (ws[i := w])) = set (running_of ws) - {s}"
proof -
  have m: "mset (running_of ws) = add_mset s (mset (running_of (ws[i := w])))"
    using mset_running_of_update [OF assms(1), of w] assms(2,3) by simp
  then have "mset (running_of ws) = mset (s # running_of (ws[i := w]))" by simp
  then have "distinct (s # running_of (ws[i := w]))" using assms(4) mset_eq_imp_distinct_iff by blast
  then show "distinct (running_of (ws[i := w]))" "set (running_of (ws[i := w])) = set (running_of ws) - {s}"
    using arg_cong [OF m, of set_mset] by auto
qed

lemma running_of_same:
  assumes "i < length ws" "wk_running w = wk_running (ws ! i)"
  shows "running_of (ws[i := w]) = running_of ws"
  using assms by (induction ws arbitrary: i) (auto split: nat.splits)

section \<open>Every operation keeps the invariant\<close>

text \<open>A request leaves the queue at most once: what is started or still queued was queued before.\<close>

definition proceeds :: "worker_operation_queue \<Rightarrow> worker_host_command list \<Rightarrow> worker_operation_queue \<Rightarrow> bool" where
  "proceeds q commands q' \<longleftrightarrow> wq_inv q' \<and> history q' = history q \<and> same_setup q q' \<and>
     mset (started_of commands) + mset (pending_of q') \<subseteq># mset (pending_of q)"

lemma dispatch_proceeds:
  assumes "wq_core q1" "released q1" "history q1 = history q" "same_setup q q1" "mset (pending_of q1) \<subseteq># mset (pending_of q)"
    "dispatch_ready_workers q1 = (commands, q')"
  shows "proceeds q commands q'"
  using dispatch_keeps [OF assms(1,6)] assms(2-5) by (auto simp: proceeds_def wq_inv_def same_setup_def)

lemma wq_invD:
  assumes "wq_inv q"
  shows "wq_core q" "released q" "work_conserving q"
  using assms by (auto simp: wq_inv_def)

lemma map_prod_Inr [simp]: "map_prod Inr id p = (Inr a, b) \<longleftrightarrow> p = (a, b)" "map_prod Inr id p \<noteq> (Inl e, b)"
  by (cases p; auto)+

lemma submit_accepts:
  assumes "wq_inv q" "submit r q = (Inr commands, q')"
  shows "wq_inv q'" "history q' = history q @ [wr_sequence r]"
    "wq_last_submitted_sequence q' = Some (wr_sequence r)"
    "case wq_last_submitted_sequence q of Some previous \<Rightarrow> previous < wr_sequence r | None \<Rightarrow> True"
    "wq_max_outstanding q' = wq_max_outstanding q" "length (wq_workers q') = length (wq_workers q)"
    "wr_operation r \<in> wq_operations q" "pending_of q @ [wr_sequence r] = started_of commands @ pending_of q'"
    "wq_operations q' = wq_operations q"
proof -
  let ?s = "wr_sequence r"
  let ?q = "q\<lparr>wq_last_submitted_sequence := Some ?s, wq_submission_order := wq_submission_order q @ [?s],
    wq_pending := wq_pending q @ [r]\<rparr>"
  have acc: "wr_operation r \<in> wq_operations q" "outstanding q < wq_max_outstanding q"
    "dispatch_ready_workers ?q = (commands, q')"
    and later: "case wq_last_submitted_sequence q of Some previous \<Rightarrow> previous < ?s | None \<Rightarrow> True"
    using assms(2) by (auto simp: submit_def split: if_splits option.splits prod.splits)
  have above: "u < ?s" if "up_to (wq_last_submitted_sequence q) u" for u
    using that later by (auto simp: up_to_def split: option.splits)
  note core = wq_invD(1) [OF assms(1)]
  have fresh: "\<forall>u\<in>set (wq_submission_order q) \<union> set (running_of (wq_workers q)). u < ?s"
    using above core by (auto simp: wq_but_def)
  then have up: "\<forall>u\<in>insert ?s (set (wq_submission_order q) \<union> set (running_of (wq_workers q))). up_to (Some ?s) u"
    by (auto simp: up_to_def less_imp_le)
  have new: "?s \<notin> set (running_of (wq_workers q))" "?s \<notin> ended_of q" "\<forall>u\<in>set (pending_of q). u < ?s"
    using fresh core by (auto simp: wq_but_def)
  have views: "pending_of ?q = pending_of q @ [?s]" "ended_of ?q = ended_of q" "outstanding ?q = Suc (outstanding q)"
    by (simp_all add: pending_of_def ended_of_def outstanding_def)
  have core': "wq_core ?q"
    using core acc(2) fresh up new unfolding wq_but_def views
    by (elim conjE, intro conjI) (auto simp: sorted_wrt_append)
  have "released ?q"
    using wq_invD(2) [OF assms(1)] core
    by (cases "wq_submission_order q") (auto simp: released_def ended_of_def wq_but_def)
  with dispatch_keeps [OF core' acc(3)] show "wq_inv q'" "history q' = history q @ [?s]"
    "wq_last_submitted_sequence q' = Some ?s" "wq_max_outstanding q' = wq_max_outstanding q"
    "length (wq_workers q') = length (wq_workers q)" "pending_of q @ [?s] = started_of commands @ pending_of q'"
    "wq_operations q' = wq_operations q"
    by (auto simp: wq_inv_def history_def same_setup_def views)
qed (use assms(2) in \<open>auto simp: submit_def split: if_splits option.splits prod.splits\<close>)

lemma submit_rejects: "submit r q = (Inl e, q') \<Longrightarrow> q' = q"
  by (auto simp: submit_def split: if_splits prod.splits)

lemma worker_ready_proceeds:
  assumes "wq_inv q" "worker_ready i q = (commands, q')"
  shows "proceeds q commands q'"
proof -
  let ?q = "if i < length (wq_workers q) \<and> \<not> wk_failed (wq_workers q ! i)
    then q\<lparr>wq_workers := (wq_workers q)[i := (wq_workers q ! i)\<lparr>wk_ready := True\<rparr>]\<rparr> else q"
  have "wq_core ?q"
  proof (cases "i < length (wq_workers q) \<and> \<not> wk_failed (wq_workers q ! i)")
    case True
    then have "running_of ((wq_workers q)[i := (wq_workers q ! i)\<lparr>wk_ready := True\<rparr>]) = running_of (wq_workers q)"
      by (intro running_of_same) auto
    with True wq_invD(1) [OF assms(1)] show ?thesis
      by (auto simp: wq_but_def pending_of_def ended_of_def outstanding_def dest!: set_update_subset_insert [THEN subsetD])
  qed (use wq_invD(1) [OF assms(1)] in auto)
  moreover have "released ?q" "history ?q = history q" "same_setup q ?q" "mset (pending_of ?q) \<subseteq># mset (pending_of q)"
    using wq_invD(2) [OF assms(1)] by (simp_all add: released_def ended_of_def history_def same_setup_def pending_of_def)
  ultimately show ?thesis
    using assms(2) by (intro dispatch_proceeds [of ?q q commands q']) (simp_all only: worker_ready_def)
qed

lemma worker_progress_proceeds:
  assumes "wq_inv q"
  shows "proceeds q [] (worker_progress s completed goal q)"
  using assms
  by (auto simp: worker_progress_def proceeds_def wq_inv_def wq_but_def released_def work_conserving_def history_def
      same_setup_def pending_of_def ended_of_def outstanding_def map_filter_append List.map_filter_def terminal_sequence_def)

lemma fold_unavailable:
  "fold (\<lambda>r. btree_insert (wr_sequence r) (Failed (wr_sequence r) Unavailable)) rs m =
   fold (\<lambda>(k, v). btree_insert k v) (map (\<lambda>s. (s, Failed s Unavailable)) (map wr_sequence rs)) m"
  by (induction rs arbitrary: m) auto

lemma map_of_same: "map_of (map (\<lambda>s. (s, f s)) xs) k = (if k \<in> set xs then Some (f k) else None)"
  by (induction xs) auto

lemma fail_pending_keeps:
  assumes "wq_core q" "released q"
  defines "q' \<equiv> fail_pending_if_unavailable q"
  shows "wq_core q' \<and> released q' \<and> history q' = history q \<and> same_setup q q' \<and> mset (pending_of q') \<subseteq># mset (pending_of q)"
proof (cases "list_all wk_failed (wq_workers q)")
  case True
  let ?t = "fold (\<lambda>r. btree_insert (wr_sequence r) (Failed (wr_sequence r) Unavailable)) (wq_pending q) (wq_terminal q)"
  let ?q = "q\<lparr>wq_pending := [], wq_terminal := ?t\<rparr>"
  have incr: "increasing (wq_terminal q)" using assms(1) by (simp add: wq_but_def)
  have t: "increasing ?t" "map_of ?t = map_of (wq_terminal q) ++ map_of (map (\<lambda>s. (s, Failed s Unavailable)) (rev (pending_of q)))"
    using btree.collect_entries [OF incr, of "map (\<lambda>s. (s, Failed s Unavailable)) (pending_of q)"]
    by (simp_all add: fold_unavailable pending_of_def rev_map)
  have ended: "ended_of ?q = ended_of q \<union> set (pending_of q)"
    using arg_cong [OF t(2), of dom] by (auto simp: ended_of_def dom_map_of_conv_image_fst image_image)
  have "terminal_sequence m = Some s" if "map_of ?t s = Some m" for s m
    using that assms(1) unfolding t(2) wq_but_def
    by (auto simp: map_add_def map_of_same terminal_sequence_def split: option.splits if_splits dest!: map_of_SomeD)
  then have "\<forall>(s, m)\<in>set ?t. terminal_sequence m = Some s"
    using t(1) by (auto dest!: increasing_distinct intro: map_of_is_SomeI)
  moreover have "pending_of ?q = []" "outstanding ?q = outstanding q" by (simp_all add: pending_of_def outstanding_def)
  moreover have idle: "running_of (wq_workers q) = []"
  proof -
    have "wk_running w = None" if "w \<in> set (wq_workers q)" for w
      using that True assms(1) by (auto simp: list_all_iff wq_but_def)
    then show ?thesis by (simp add: running_of_def List.map_filter_def filter_empty_conv)
  qed
  ultimately have core: "wq_core ?q"
    using assms(1) t(1) unfolding wq_but_def ended by (elim conjE, intro conjI) auto
  have "history ?q = history q" "same_setup q ?q" by (simp_all add: history_def same_setup_def)
  moreover have "q' = release_ordered ?q" using True by (simp add: q'_def fail_pending_if_unavailable_def)
  ultimately show ?thesis using release_ordered_keeps [OF core] by (auto simp: same_setup_def pending_of_def)
qed (use assms in \<open>simp add: fail_pending_if_unavailable_def same_setup_def\<close>)

text \<open>Taking the request of a worker away, because it ended or the worker is lost.\<close>

lemma clear_worker:
  assumes "wq_inv q" "i < length (wq_workers q)" "wk_running (wq_workers q ! i) = Some s"
    and "wk_running w = None" "wk_failed w \<longrightarrow> \<not> wk_ready w"
  defines "q1 \<equiv> q\<lparr>wq_workers := (wq_workers q)[i := w]\<rparr>"
  shows "s \<notin> wq_cancelled q \<Longrightarrow> wq_but {s} q1" "s \<in> wq_cancelled q \<or> s \<notin> set (wq_submission_order q) \<Longrightarrow> wq_core q1"
proof -
  note core = wq_invD(1) [OF assms(1)]
  have running: "distinct (running_of (wq_workers q1))" "set (running_of (wq_workers q1)) = set (running_of (wq_workers q)) - {s}"
    using running_of_clear [OF assms(2-4)] core by (auto simp: q1_def wq_but_def)
  have s: "s \<in> set (running_of (wq_workers q))" using assms(2,3) by (auto simp: set_running_of intro!: bexI [of _ "wq_workers q ! i"])
  have views: "pending_of q1 = pending_of q" "ended_of q1 = ended_of q" "outstanding q1 = outstanding q"
    "wq_submission_order q1 = wq_submission_order q" "wq_cancelled q1 = wq_cancelled q" "wq_terminal q1 = wq_terminal q"
    "wq_last_submitted_sequence q1 = wq_last_submitted_sequence q" "wq_max_outstanding q1 = wq_max_outstanding q"
    by (simp_all add: q1_def pending_of_def ended_of_def outstanding_def)
  have failed: "\<forall>w\<in>set (wq_workers q1). wk_failed w \<longrightarrow> \<not> wk_ready w \<and> wk_running w = None"
    using core assms(4,5) by (auto simp: q1_def wq_but_def dest!: set_update_subset_insert [THEN subsetD])
  show "wq_but {s} q1" if "s \<notin> wq_cancelled q"
    using core running failed s that unfolding wq_but_def views running(2) by (elim conjE, intro conjI) auto
  show "wq_core q1" if "s \<in> wq_cancelled q \<or> s \<notin> set (wq_submission_order q)"
    using core running failed s that unfolding wq_but_def views running(2) by (elim conjE, intro conjI) auto
qed

lemma workers_change:
  "released (q\<lparr>wq_workers := ws\<rparr>) = released q" "history (q\<lparr>wq_workers := ws\<rparr>) = history q"
  "length ws = length (wq_workers q) \<Longrightarrow> same_setup q (q\<lparr>wq_workers := ws\<rparr>)" "pending_of (q\<lparr>wq_workers := ws\<rparr>) = pending_of q"
  by (simp_all add: released_def ended_of_def history_def same_setup_def pending_of_def)

lemma same_setup_trans: "same_setup p q \<Longrightarrow> same_setup q r \<Longrightarrow> same_setup p r"
  by (simp add: same_setup_def)

lemma worker_failed_proceeds:
  assumes "wq_inv q"
  shows "\<exists>commands q'. worker_failed i e q = Some (commands, q') \<and> proceeds q commands q'"
proof (cases "i < length (wq_workers q)")
  case False
  then show ?thesis using assms by (auto simp: worker_failed_def proceeds_def same_setup_def)
next
  case True
  let ?w = "wq_workers q ! i"
  let ?v = "?w\<lparr>wk_ready := False, wk_failed := True, wk_running := None\<rparr>"
  let ?q = "q\<lparr>wq_workers := (wq_workers q)[i := ?v]\<rparr>"
  note change = workers_change [where q = q and ws = "(wq_workers q)[i := ?v]"]
  have "\<exists>q2. (case wk_running ?w of None \<Rightarrow> Some ?q
       | Some s \<Rightarrow> if s \<notin> wq_cancelled ?q then record_terminal (Failed s e) ?q else Some ?q) = Some q2 \<and>
     wq_core q2 \<and> released q2 \<and> history q2 = history q \<and> same_setup q q2 \<and> pending_of q2 = pending_of q"
  proof (cases "wk_running ?w")
    case None
    then have "running_of ((wq_workers q)[i := ?v]) = running_of (wq_workers q)" using True by (intro running_of_same) auto
    then have "wq_core ?q" using wq_invD(1) [OF assms]
      by (auto simp: wq_but_def pending_of_def ended_of_def outstanding_def dest!: set_update_subset_insert [THEN subsetD])
    with None change wq_invD(2) [OF assms] show ?thesis by simp
  next
    case (Some s)
    note clear = clear_worker [OF assms True Some, of ?v]
    show ?thesis
    proof (cases "s \<in> wq_cancelled q")
      case True
      with clear(2) Some change wq_invD(2) [OF assms] show ?thesis by simp
    next
      case False
      then have "wq_but {s} ?q" using clear(1) by simp
      then obtain q2 where "record_terminal (Failed s e) ?q = Some q2" "wq_core q2" "released q2" "history q2 = history ?q"
        "same_setup ?q q2" "wq_pending q2 = wq_pending ?q"
        by (rule record_terminal_keeps [of s ?q "Failed s e"]) (auto simp: terminal_sequence_def)
      with False Some change show ?thesis by (auto intro: same_setup_trans simp: pending_of_def)
    qed
  qed
  then obtain q2 where q2: "(case wk_running ?w of None \<Rightarrow> Some ?q
       | Some s \<Rightarrow> if s \<notin> wq_cancelled ?q then record_terminal (Failed s e) ?q else Some ?q) = Some q2"
    and keep: "wq_core q2" "released q2" "history q2 = history q" "same_setup q q2" "pending_of q2 = pending_of q" by blast
  note fail = fail_pending_keeps [OF keep(1,2)]
  obtain commands q' where d: "dispatch_ready_workers (fail_pending_if_unavailable q2) = (commands, q')" by fastforce
  then have "worker_failed i e q = Some (commands, q')" using True q2 by (simp add: worker_failed_def Let_def)
  moreover have "proceeds q commands q'"
    by (rule dispatch_proceeds [OF _ _ _ _ _ d]) (use fail keep in \<open>auto intro: same_setup_trans\<close>)
  ultimately show ?thesis by blast
qed

lemma worker_completed_proceeds:
  assumes "wq_inv q"
  shows "\<exists>commands q'. worker_completed i reported res q = Some (commands, q') \<and> proceeds q commands q'"
proof (cases "if i < length (wq_workers q) then wk_running (wq_workers q ! i) else None")
  case None
  show ?thesis
    unfolding worker_completed_def None
    using worker_failed_proceeds [OF assms] by (simp only: option.case)
next
  case (Some s)
  then have i: "i < length (wq_workers q)" "wk_running (wq_workers q ! i) = Some s" by (auto split: if_splits)
  show ?thesis
  proof (cases "reported \<noteq> None \<and> the reported \<noteq> s")
    case True
    show ?thesis
      unfolding worker_completed_def Some
      using worker_failed_proceeds [OF assms] True by (simp only: option.case if_True simp_thms not_False_eq_True)
  next
    case False
    let ?v = "(wq_workers q ! i)\<lparr>wk_running := None\<rparr>"
    let ?q = "q\<lparr>wq_workers := (wq_workers q)[i := ?v]\<rparr>"
    let ?m = "case res of Inr payload \<Rightarrow> Complete s payload | Inl e \<Rightarrow> Failed s e"
    note change = workers_change [where q = q and ws = "(wq_workers q)[i := ?v]"]
    have "wk_failed ?v \<longrightarrow> \<not> wk_ready ?v" using wq_invD(1) [OF assms] i(1) by (auto simp: wq_but_def)
    note clear = clear_worker [OF assms i, of ?v, OF _ this]
    have "\<exists>q2. (if contains_sequence ?q s \<and> s \<notin> wq_cancelled ?q then record_terminal ?m ?q else Some ?q) = Some q2 \<and>
       wq_core q2 \<and> released q2 \<and> history q2 = history q \<and> same_setup q q2 \<and> pending_of q2 = pending_of q"
    proof (cases "contains_sequence ?q s \<and> s \<notin> wq_cancelled ?q")
      case True
      then have "wq_but {s} ?q" using clear(1) by simp
      then obtain q2 where "record_terminal ?m ?q = Some q2" "wq_core q2" "released q2" "history q2 = history ?q" "same_setup ?q q2"
        "wq_pending q2 = wq_pending ?q" by (rule record_terminal_keeps [of s ?q ?m]) (auto simp: terminal_sequence_def split: sum.splits)
      with True change show ?thesis by (auto intro: same_setup_trans simp: pending_of_def)
    next
      case False
      then have "s \<in> wq_cancelled q \<or> s \<notin> set (wq_submission_order q)" by (auto simp: contains_sequence_def)
      then have "wq_core ?q" using clear(2) by simp
      with False change wq_invD(2) [OF assms] show ?thesis by auto
    qed
    then obtain q2 where q2: "(if contains_sequence ?q s \<and> s \<notin> wq_cancelled ?q then record_terminal ?m ?q else Some ?q) = Some q2"
      and keep: "wq_core q2" "released q2" "history q2 = history q" "same_setup q q2" "pending_of q2 = pending_of q" by blast
    obtain commands q' where d: "dispatch_ready_workers q2 = (commands, q')" by fastforce
    have "worker_completed i reported res q = Some (commands, q')"
      unfolding worker_completed_def Some using False q2 d by (simp only: option.case if_False Let_def option.map)
    then show ?thesis using dispatch_proceeds [OF keep(1-4) _ d] keep(5) by auto
  qed
qed

lemma drop_first_sorted:
  assumes "sorted_wrt (<) (map f xs)"
  shows "set (map f (drop_first (\<lambda>x. f x = s) xs)) = set (map f xs) - {s :: 'b :: linorder}"
    "sorted_wrt (<) (map f (drop_first (\<lambda>x. f x = s) xs))"
proof -
  have sub: "set (map f (drop_first P xs)) \<subseteq> set (map f xs)" for P and xs :: "'a list" by (induction xs) auto
  show "set (map f (drop_first (\<lambda>x. f x = s) xs)) = set (map f xs) - {s}" using assms by (induction xs) auto
  show "sorted_wrt (<) (map f (drop_first (\<lambda>x. f x = s) xs))" using assms sub by (induction xs) fastforce+
qed

lemma mset_drop_first: "mset (drop_first P xs) \<subseteq># mset xs"
  by (induction xs) (auto intro: subset_mset.order_trans)

lemma cancel_proceeds:
  assumes "wq_inv q"
  shows "\<exists>accepted commands q'. cancel s q = Some ((accepted, commands), q') \<and> proceeds q commands q' \<and>
    (accepted \<longleftrightarrow> s \<in> set (wq_submission_order q))"
proof (cases "s \<in> set (wq_submission_order q)")
  case False
  then show ?thesis using assms by (auto simp: cancel_def contains_sequence_def proceeds_def same_setup_def)
next
  case True
  let ?q = "q\<lparr>wq_cancelled := insert s (wq_cancelled q),
    wq_pending := drop_first (\<lambda>request. wr_sequence request = s) (wq_pending q)\<rparr>"
  note core = wq_invD(1) [OF assms]
  have pending: "set (pending_of ?q) = set (pending_of q) - {s}" "sorted_wrt (<) (pending_of ?q)"
    using core drop_first_sorted [of wr_sequence "wq_pending q" s] by (auto simp: wq_but_def pending_of_def)
  have views: "ended_of ?q = ended_of q" "outstanding ?q = outstanding q" by (simp_all add: ended_of_def outstanding_def)
  have "wq_but {s} ?q"
    using core True pending unfolding wq_but_def views pending(1) by (elim conjE, intro conjI) auto
  then obtain q2 where q2: "record_terminal (Failed s Cancelled) ?q = Some q2" "wq_core q2" "released q2"
    "history q2 = history ?q" "same_setup ?q q2" "wq_pending q2 = wq_pending ?q"
    by (rule record_terminal_keeps [of s ?q "Failed s Cancelled"]) (auto simp: terminal_sequence_def)
  obtain commands q' where d: "dispatch_ready_workers q2 = (commands, q')" by fastforce
  have same: "history q2 = history q" "same_setup q q2" using q2(4,5) by (simp_all add: history_def same_setup_def)
  have "mset (pending_of q2) \<subseteq># mset (pending_of q)"
    unfolding pending_of_def q2(6) by (simp add: image_mset_subseteq_mono mset_drop_first)
  from dispatch_proceeds [OF q2(2,3) same this d] have "proceeds q commands q'" .
  moreover have "started_of (map (\<lambda>(i, _). Cancel_Command i s) xs @ commands) = started_of commands" for xs :: "(nat \<times> worker_state) list"
    by (induction xs) auto
  ultimately show ?thesis
    using True q2(1) d by (auto simp: cancel_def contains_sequence_def Let_def proceeds_def)
qed

lemma drain_messages_keeps:
  assumes "wq_inv q"
  shows "wq_inv (snd (drain_messages q))" "same_setup q (snd (drain_messages q))"
    "history q = List.map_filter terminal_sequence (fst (drain_messages q)) @ history (snd (drain_messages q))"
  using assms
  by (auto simp: drain_messages_def wq_inv_def wq_but_def released_def work_conserving_def history_def same_setup_def
      pending_of_def ended_of_def outstanding_def List.map_filter_def)

lemma queue_new_inv:
  assumes "queue_new n m ops = Inr q"
  shows "wq_inv q" "history q = []" "length (wq_workers q) = n" "wq_max_outstanding q = m" "wq_last_submitted_sequence q = None"
    "pending_of q = []"
proof -
  have idle: "running_of (replicate n \<lparr>wk_ready = False, wk_failed = False, wk_running = None\<rparr>) = []"
    by (induction n) auto
  show "wq_inv q" "history q = []" "length (wq_workers q) = n" "wq_max_outstanding q = m" "wq_last_submitted_sequence q = None"
    "pending_of q = []"
    using assms idle
    by (auto simp: queue_new_def wq_inv_def wq_but_def released_def work_conserving_def history_def pending_of_def
        ended_of_def outstanding_def List.map_filter_def split: if_splits)
qed

section \<open>Sequences of calls\<close>

datatype queue_call =
    Submit worker_request
  | Ready nat
  | Report u64 u64 "u64 option"
  | Finish nat "u64 option" "worker_failure + u8 list"
  | Lose nat worker_failure
  | Cancel u64
  | Drain

text \<open>The queue with what its caller has seen: accepted requests, drained messages, started requests.\<close>

record queue_trace =
  tr_queue :: worker_operation_queue
  tr_requests :: "worker_request list"
  tr_messages :: "worker_message list"
  tr_started :: "u64 list"

definition queue_trace_new :: "worker_operation_queue \<Rightarrow> queue_trace" where
  "queue_trace_new q = \<lparr>tr_queue = q, tr_requests = [], tr_messages = [], tr_started = []\<rparr>"

definition tr_accepted :: "queue_trace \<Rightarrow> u64 list" where
  "tr_accepted t = map wr_sequence (tr_requests t)"

definition started :: "worker_host_command list \<times> worker_operation_queue \<Rightarrow> queue_trace \<Rightarrow> queue_trace" where
  "started result t = t\<lparr>tr_queue := snd result, tr_started := tr_started t @ started_of (fst result)\<rparr>"

fun perform_call :: "queue_call \<Rightarrow> queue_trace \<Rightarrow> queue_trace option" where
  "perform_call (Submit request) t =
     (case submit request (tr_queue t) of
        (Inl _, q) \<Rightarrow> Some (t\<lparr>tr_queue := q\<rparr>)
      | (Inr commands, q) \<Rightarrow> Some (started (commands, q) (t\<lparr>tr_requests := tr_requests t @ [request]\<rparr>)))"
| "perform_call (Ready i) t = Some (started (worker_ready i (tr_queue t)) t)"
| "perform_call (Report s completed goal) t = Some (t\<lparr>tr_queue := worker_progress s completed goal (tr_queue t)\<rparr>)"
| "perform_call (Finish i reported res) t = map_option (\<lambda>r. started r t) (worker_completed i reported res (tr_queue t))"
| "perform_call (Lose i e) t = map_option (\<lambda>r. started r t) (worker_failed i e (tr_queue t))"
| "perform_call (Cancel s) t = map_option (\<lambda>((_, commands), q). started (commands, q) t) (cancel s (tr_queue t))"
| "perform_call Drain t =
     (let (messages, q) = drain_messages (tr_queue t) in Some (t\<lparr>tr_queue := q, tr_messages := tr_messages t @ messages\<rparr>))"

fun queue_calls :: "queue_call list \<Rightarrow> queue_trace \<Rightarrow> queue_trace option" where
  "queue_calls [] t = Some t"
| "queue_calls (c # cs) t = (case perform_call c t of None \<Rightarrow> None | Some t' \<Rightarrow> queue_calls cs t')"

text \<open>The ends the caller has received or will receive with the next drain, in order.\<close>

definition reported :: "queue_trace \<Rightarrow> u64 list" where
  "reported t = List.map_filter terminal_sequence (tr_messages t @ wq_delivered (tr_queue t))"

definition trace_ok :: "queue_trace \<Rightarrow> bool" where
  "trace_ok t \<longleftrightarrow> wq_inv (tr_queue t) \<and>
     List.map_filter terminal_sequence (tr_messages t) @ history (tr_queue t) = tr_accepted t \<and>
     sorted_wrt (<) (tr_accepted t) \<and>
     wq_last_submitted_sequence (tr_queue t) = (if tr_accepted t = [] then None else Some (last (tr_accepted t))) \<and>
     distinct (tr_started t @ pending_of (tr_queue t)) \<and> set (tr_started t @ pending_of (tr_queue t)) \<subseteq> set (tr_accepted t) \<and>
     (\<forall>r\<in>set (tr_requests t). wr_operation r \<in> wq_operations (tr_queue t))"

lemma distinct_submset:
  assumes "mset xs \<subseteq># mset ys" "distinct ys"
  shows "distinct xs" "set xs \<subseteq> set ys"
proof -
  obtain zs where "mset ys = mset (xs @ zs)"
    using assms(1) by (metis ex_mset mset_append mset_subset_eq_exists_conv)
  then show "distinct xs" "set xs \<subseteq> set ys"
    using assms(2) by (metis distinct_append mset_eq_imp_distinct_iff, metis mset_eq_setD set_append sup_ge1)
qed

lemma trace_ok_started:
  assumes "trace_ok t" "proceeds (tr_queue t) commands q'"
  shows "trace_ok (started (commands, q') t)" "same_setup (tr_queue t) q'"
proof -
  have sub: "mset (started_of commands) + mset (pending_of q') \<subseteq># mset (pending_of (tr_queue t))"
    and keep: "wq_inv q'" "history q' = history (tr_queue t)" "same_setup (tr_queue t) q'"
    using assms(2) by (simp_all add: proceeds_def)
  have "mset ((tr_started t @ started_of commands) @ pending_of q') \<subseteq># mset (tr_started t @ pending_of (tr_queue t))"
    using sub by (simp add: add.assoc)
  then have "distinct ((tr_started t @ started_of commands) @ pending_of q')"
    "set ((tr_started t @ started_of commands) @ pending_of q') \<subseteq> set (tr_started t @ pending_of (tr_queue t))"
    using distinct_submset assms(1) unfolding trace_ok_def by blast+
  then show "trace_ok (started (commands, q') t)" "same_setup (tr_queue t) q'"
    using assms(1) keep by (auto simp: trace_ok_def started_def same_setup_def tr_accepted_def)
qed

definition same_pool :: "worker_operation_queue \<Rightarrow> worker_operation_queue \<Rightarrow> bool" where
  "same_pool q q' \<longleftrightarrow> wq_max_outstanding q' = wq_max_outstanding q \<and> wq_operations q' = wq_operations q \<and> length (wq_workers q') = length (wq_workers q)"

lemma same_setup_pool: "same_setup q q' \<Longrightarrow> same_pool q q'"
  by (simp add: same_setup_def same_pool_def)

lemma trace_ok_submit:
  assumes "trace_ok t" "submit r (tr_queue t) = (Inr commands, q')"
  shows "trace_ok (started (commands, q') (t\<lparr>tr_requests := tr_requests t @ [r]\<rparr>))" "same_pool (tr_queue t) q'"
proof -
  have inv: "wq_inv (tr_queue t)" using assms(1) by (simp add: trace_ok_def)
  note acc = submit_accepts [OF inv assms(2)]
  have le: "u \<le> last (tr_accepted t)" if "u \<in> set (tr_accepted t)" for u
    using that assms(1) by (cases "tr_accepted t" rule: rev_cases) (auto simp: trace_ok_def sorted_wrt_append less_imp_le)
  have fresh: "\<forall>u\<in>set (tr_accepted t). u < wr_sequence r"
    using le acc(4) assms(1) by (fastforce simp: trace_ok_def split: if_splits)
  then have "distinct (tr_started t @ (pending_of (tr_queue t) @ [wr_sequence r]))"
    "set (tr_started t @ (pending_of (tr_queue t) @ [wr_sequence r])) \<subseteq> set (tr_accepted t @ [wr_sequence r])"
    using assms(1) by (auto simp: trace_ok_def)
  then show "trace_ok (started (commands, q') (t\<lparr>tr_requests := tr_requests t @ [r]\<rparr>))" "same_pool (tr_queue t) q'"
    using acc fresh assms(1) unfolding acc(8)
    by (auto simp: trace_ok_def started_def sorted_wrt_append same_pool_def tr_accepted_def)
qed

lemma trace_ok_call:
  assumes "trace_ok t"
  shows "\<exists>t'. perform_call c t = Some t' \<and> trace_ok t' \<and> same_pool (tr_queue t) (tr_queue t')"
proof -
  have inv: "wq_inv (tr_queue t)" using assms by (simp add: trace_ok_def)
  note step = trace_ok_started [OF assms]
  have same: "same_pool (tr_queue t) (tr_queue (started (commands, q') t))" if "proceeds (tr_queue t) commands q'" for commands q'
    using step(2) [OF that] by (simp add: started_def same_setup_pool)
  show ?thesis
  proof (cases c)
    case (Submit r)
    obtain res q' where s: "submit r (tr_queue t) = (res, q')" by fastforce
    show ?thesis
    proof (cases res)
      case (Inl e)
      with s submit_rejects [of r "tr_queue t" e q'] assms show ?thesis by (simp add: Submit same_pool_def)
    next
      case (Inr commands)
      with s trace_ok_submit [OF assms, of r commands q'] show ?thesis by (simp add: Submit started_def)
    qed
  next
    case (Ready i)
    obtain commands q' where "worker_ready i (tr_queue t) = (commands, q')" by fastforce
    with worker_ready_proceeds [OF inv this] step same show ?thesis by (simp add: Ready)
  next
    case (Report s completed goal)
    have "t\<lparr>tr_queue := worker_progress s completed goal (tr_queue t)\<rparr> = started ([], worker_progress s completed goal (tr_queue t)) t"
      by (simp add: started_def)
    with worker_progress_proceeds [OF inv, of s completed goal] step same show ?thesis by (simp add: Report)
  next
    case (Finish i reported res)
    with worker_completed_proceeds [OF inv, of i reported res] step same show ?thesis by auto
  next
    case (Lose i e)
    with worker_failed_proceeds [OF inv, of i e] step same show ?thesis by auto
  next
    case (Cancel s)
    with cancel_proceeds [OF inv, of s] step same show ?thesis by auto
  next
    case Drain
    note d = drain_messages_keeps [OF inv]
    obtain messages q' where r: "drain_messages (tr_queue t) = (messages, q')" by fastforce
    then have "pending_of q' = pending_of (tr_queue t)" "wq_last_submitted_sequence q' = wq_last_submitted_sequence (tr_queue t)"
      by (auto simp: drain_messages_def pending_of_def)
    with d r assms show ?thesis by (simp add: same_setup_def Drain trace_ok_def map_filter_append same_setup_pool tr_accepted_def)
  qed
qed

lemma trace_ok_calls:
  assumes "trace_ok t"
  shows "\<exists>t'. queue_calls cs t = Some t' \<and> trace_ok t' \<and> same_pool (tr_queue t) (tr_queue t')"
  using assms
proof (induction cs arbitrary: t)
  case (Cons c cs)
  from trace_ok_call [OF Cons.prems, of c] obtain t1 where
    "perform_call c t = Some t1" "trace_ok t1" "same_pool (tr_queue t) (tr_queue t1)" by blast
  with Cons.IH [of t1] show ?case by (auto simp: same_pool_def)
qed (simp add: same_pool_def)

lemma trace_ok_new: "queue_new n m ops = Inr q \<Longrightarrow> trace_ok (queue_trace_new q)"
  using queue_new_inv [of n m ops q] by (auto simp: trace_ok_def queue_trace_new_def List.map_filter_def tr_accepted_def)

lemma drained:
  assumes "wq_inv q" "w \<in> set (wq_workers q)" "\<forall>w\<in>set (wq_workers q). wk_failed w \<or> idle w" "\<not> wk_failed w"
  shows "wq_submission_order q = []"
proof -
  note inv = wq_invD [OF assms(1)]
  have "wk_running v = None" if "v \<in> set (wq_workers q)" for v
    using that assms(3) inv(1) by (auto simp: idle_def wq_but_def)
  then have "set (running_of (wq_workers q)) = {}" by (auto simp: running_of_def List.map_filter_def filter_empty_conv)
  moreover have "pending_of q = []" using assms inv(3) by (auto simp: work_conserving_def pending_of_def)
  ultimately have "set (wq_submission_order q) \<subseteq> ended_of q" using inv(1) by (auto simp: wq_but_def)
  then show ?thesis using inv(2) by (cases "wq_submission_order q") (auto simp: released_def)
qed

section \<open>Properties\<close>

text \<open>
  C4: For every sequence of submissions, worker reports (in any order, also wrong ones), losses of
  workers and cancellations, the queue never panics; the ends it reports, drained or waiting to be
  drained, are those of a prefix of the accepted requests, each once and in the order of submission,
  and the rest is outstanding, never more than the configured bound. A request is handed to a worker
  at most once.
\<close>
theorem worker_results_in_order:
  assumes "queue_new worker_count bound operations = Inr q"
  shows "\<exists>t. queue_calls calls (queue_trace_new q) = Some t \<and>
    reported t @ wq_submission_order (tr_queue t) = tr_accepted t \<and> sorted_wrt (<) (tr_accepted t) \<and>
    distinct (tr_started t) \<and> set (tr_started t) \<subseteq> set (tr_accepted t) \<and> outstanding (tr_queue t) \<le> bound"
proof -
  obtain t where t: "queue_calls calls (queue_trace_new q) = Some t" "trace_ok t" "same_pool q (tr_queue t)"
    using trace_ok_calls [OF trace_ok_new [OF assms]] by (auto simp: queue_trace_new_def)
  then have "outstanding (tr_queue t) \<le> bound"
    using queue_new_inv(4) [OF assms] by (auto simp: trace_ok_def wq_inv_def wq_but_def same_pool_def)
  with t show ?thesis by (auto simp: trace_ok_def reported_def history_def map_filter_append)
qed

text \<open>
  C13: No accepted request is forgotten: whenever a worker is left and the workers that are left are
  ready and idle, every accepted request has been answered.
\<close>
theorem worker_pool_drains:
  assumes "queue_new worker_count bound operations = Inr q" "queue_calls calls (queue_trace_new q) = Some t"
    "\<exists>w\<in>set (wq_workers (tr_queue t)). \<not> wk_failed w"
    "\<forall>w\<in>set (wq_workers (tr_queue t)). \<not> wk_failed w \<longrightarrow> wk_ready w \<and> wk_running w = None"
  shows "outstanding (tr_queue t) = 0 \<and> reported t = tr_accepted t"
proof -
  have ok: "trace_ok t" using trace_ok_calls [OF trace_ok_new [OF assms(1)], of calls] assms(2) by auto
  then have inv: "wq_inv (tr_queue t)" by (simp add: trace_ok_def)
  have "wq_submission_order (tr_queue t) = []" using assms(3,4) drained [OF inv] by (auto simp: idle_def)
  with ok show ?thesis by (auto simp: outstanding_def trace_ok_def reported_def history_def map_filter_append)
qed

text \<open>Calls that neither lose a worker, nor report a result, nor cancel: submissions, a worker being ready, progress and drains.\<close>

definition quiet_call :: "queue_call \<Rightarrow> bool" where
  "quiet_call c = (case c of Submit _ \<Rightarrow> True | Ready _ \<Rightarrow> True | Report _ _ _ \<Rightarrow> True | Drain \<Rightarrow> True | _ \<Rightarrow> False)"

lemma dispatch_all_failed: "list_all wk_failed ws \<Longrightarrow> dispatch_from i ws pending = ([], ws, pending)"
  by (induction ws arbitrary: i) auto

lemma stranded_call:
  assumes "list_all wk_failed (wq_workers (tr_queue t))" "s \<in> set (pending_of (tr_queue t))" "quiet_call c"
    "perform_call c t = Some t'"
  shows "list_all wk_failed (wq_workers (tr_queue t')) \<and> s \<in> set (pending_of (tr_queue t'))"
proof (cases c)
  case (Submit r)
  with assms show ?thesis
    by (auto simp: submit_def dispatch_ready_workers_def dispatch_all_failed started_def pending_of_def split: if_splits)
next
  case (Ready i)
  have "\<not> (i < length (wq_workers (tr_queue t)) \<and> \<not> wk_failed (wq_workers (tr_queue t) ! i))"
    using assms(1) by (auto simp: list_all_length)
  with Ready assms show ?thesis
    by (auto simp: worker_ready_def dispatch_ready_workers_def dispatch_all_failed started_def pending_of_def)
qed (use assms in \<open>auto simp: quiet_call_def worker_progress_def drain_messages_def pending_of_def\<close>)

lemma stranded_calls:
  assumes "list_all wk_failed (wq_workers (tr_queue t))" "s \<in> set (pending_of (tr_queue t))" "list_all quiet_call calls"
    "queue_calls calls t = Some t'"
  shows "s \<in> set (pending_of (tr_queue t'))"
  using assms
proof (induction calls arbitrary: t)
  case (Cons c calls)
  then obtain t1 where "perform_call c t = Some t1" "queue_calls calls t1 = Some t'" by (auto split: option.splits)
  with Cons.prems stranded_call [of t s c t1] Cons.IH [of t1] show ?case by simp
qed simp

text \<open>
  C22: When the last worker has been lost, the queue still accepts every request it would have accepted before:
  one of a registered operation, with a new sequence number, while there is room. Such a request is not started,
  and it stays without an answer through any number of further submissions, readiness and progress reports and
  drains; the report of a result, a cancellation or the report of another lost worker is needed to end it.
\<close>
theorem submission_without_workers_strands:
  assumes "queue_new worker_count bound operations = Inr q" "queue_calls calls (queue_trace_new q) = Some t"
    "list_all wk_failed (wq_workers (tr_queue t))"
    and "wr_operation r \<in> wq_operations (tr_queue t)" "\<forall>s. wq_last_submitted_sequence (tr_queue t) = Some s \<longrightarrow> s < wr_sequence r"
      "outstanding (tr_queue t) < wq_max_outstanding (tr_queue t)"
    and "list_all quiet_call later"
  shows "fst (submit r (tr_queue t)) = Inr [] \<and> (\<exists>t'. queue_calls (Submit r # later) t = Some t' \<and>
    wr_sequence r \<in> set (wq_submission_order (tr_queue t')) \<and> wr_sequence r \<notin> set (reported t') \<and> wr_sequence r \<notin> set (tr_started t'))"
proof -
  have ok: "trace_ok t" using trace_ok_calls [OF trace_ok_new [OF assms(1)], of calls] assms(2) by auto
  have "\<not> (case wq_last_submitted_sequence (tr_queue t) of Some previous \<Rightarrow> wr_sequence r \<le> previous | None \<Rightarrow> False)"
    using assms(5) by (auto simp: not_le split: option.splits)
  then obtain q' where submitted: "submit r (tr_queue t) = (Inr [], q')"
    using assms(3,4,6) by (simp add: submit_def dispatch_ready_workers_def dispatch_all_failed)
  let ?t1 = "started ([], q') (t\<lparr>tr_requests := tr_requests t @ [r]\<rparr>)"
  have ok1: "trace_ok ?t1" by (rule trace_ok_submit [OF ok submitted])
  obtain t' where t': "queue_calls later ?t1 = Some t'" "trace_ok t'" using trace_ok_calls [OF ok1] by blast
  have now: "list_all wk_failed (wq_workers q')" "wr_sequence r \<in> set (pending_of q')"
    using assms(3) submitted by (auto simp: submit_def dispatch_ready_workers_def dispatch_all_failed pending_of_def split: if_splits)
  then have pending: "wr_sequence r \<in> set (pending_of (tr_queue t'))"
    using stranded_calls [OF _ _ assms(7) t'(1)] by (simp add: started_def)
  then have order: "wr_sequence r \<in> set (wq_submission_order (tr_queue t'))"
    using t'(2) by (auto simp: trace_ok_def wq_inv_def wq_but_def)
  have "distinct (reported t' @ wq_submission_order (tr_queue t'))"
    using t'(2) by (auto simp: trace_ok_def reported_def history_def map_filter_append strict_sorted_iff)
  moreover have "wr_sequence r \<notin> set (tr_started t')" using t'(2) pending by (auto simp: trace_ok_def)
  ultimately show ?thesis using order t'(1) submitted by auto
qed

text \<open>
  Cancelling an outstanding request that has already ended and only waits for its turn reports
  success and drops nothing: the recorded result is the one released later.
\<close>
lemma cancel_keeps_waiting_result:
  assumes "queue_new worker_count bound operations = Inr q" "queue_calls calls (queue_trace_new q) = Some t"
    "map_of (wq_terminal (tr_queue t)) s = Some m"
  shows "\<exists>commands q'. cancel s (tr_queue t) = Some ((True, commands), q') \<and> map_of (wq_terminal q') s = Some m"
proof -
  let ?q = "tr_queue t"
  have ok: "trace_ok t" using trace_ok_calls [OF trace_ok_new [OF assms(1)], of calls] assms(2) by auto
  then have inv: "wq_inv ?q" by (simp add: trace_ok_def)
  let ?q1 = "?q\<lparr>wq_cancelled := insert s (wq_cancelled ?q),
    wq_pending := drop_first (\<lambda>request. wr_sequence request = s) (wq_pending ?q)\<rparr>"
  have s: "s \<in> set (wq_submission_order ?q)"
    using assms(3) wq_invD(1) [OF inv] map_of_SomeD [of "wq_terminal ?q" s m] by (force simp: wq_but_def ended_of_def)
  obtain first rest where order: "wq_submission_order ?q = first # rest" using s by (cases "wq_submission_order ?q") auto
  then have "map_of (wq_terminal ?q) first = None"
    using wq_invD(2) [OF inv] by (simp add: released_def ended_of_def map_of_eq_None_iff)
  then have "release_ordered ?q1 = ?q1" by (simp add: release_ordered_def order)
  then have rec: "record_terminal (Failed s Cancelled) ?q1 = Some ?q1"
    using assms(3) by (simp add: record_terminal_def terminal_sequence_def)
  obtain cs q' where d: "dispatch_ready_workers ?q1 = (cs, q')" by fastforce
  then have "wq_terminal q' = wq_terminal ?q" by (auto simp: dispatch_ready_workers_def split: prod.splits)
  with rec d s assms(3) show ?thesis by (simp add: cancel_def contains_sequence_def Let_def)
qed

section \<open>Witnesses\<close>

text \<open>Two workers; the second of two requests finishes first; a third request follows.\<close>

definition example_queue :: worker_operation_queue where
  "example_queue = (case queue_new 2 4 [''op''] of Inr q \<Rightarrow> q)"

definition example_request :: "u64 \<Rightarrow> worker_request" where
  "example_request s = \<lparr>wr_sequence = s, wr_operation = ''op'', wr_payload = [1]\<rparr>"

definition example_calls :: "queue_call list" where
  "example_calls = [Ready 0, Ready 1, Submit (example_request 10), Submit (example_request 11), Submit (example_request 12),
     Finish 1 (Some 11) (Inr [2]), Drain, Cancel 12, Finish 0 (Some 10) (Inr [1])]"

definition example_trace :: "queue_call list \<Rightarrow> queue_trace" where
  "example_trace calls = the (queue_calls calls (queue_trace_new example_queue))"

lemma example_queue_new: "queue_new 2 4 [''op''] = Inr example_queue"
  by (simp add: example_queue_def queue_new_def)

theorem worker_results_in_order_witness:
  "\<exists>t. queue_calls example_calls (queue_trace_new example_queue) = Some t \<and>
    reported t @ wq_submission_order (tr_queue t) = tr_accepted t \<and> sorted_wrt (<) (tr_accepted t) \<and>
    distinct (tr_started t) \<and> set (tr_started t) \<subseteq> set (tr_accepted t) \<and> outstanding (tr_queue t) \<le> 4"
  by (rule worker_results_in_order [OF example_queue_new])

theorem worker_pool_drains_witness:
  "outstanding (tr_queue (example_trace (example_calls @ [Finish 1 None (Inl Unavailable)]))) = 0 \<and>
   reported (example_trace (example_calls @ [Finish 1 None (Inl Unavailable)])) = [10, 11, 12]"
proof -
  let ?calls = "example_calls @ [Finish 1 None (Inl Unavailable)]"
  have run: "queue_calls ?calls (queue_trace_new example_queue) = Some (example_trace ?calls)"
    and left: "\<exists>w\<in>set (wq_workers (tr_queue (example_trace ?calls))). \<not> wk_failed w"
      "\<forall>w\<in>set (wq_workers (tr_queue (example_trace ?calls))). \<not> wk_failed w \<longrightarrow> wk_ready w \<and> wk_running w = None"
    and "tr_accepted (example_trace ?calls) = [10, 11, 12]"
    by code_simp+
  with worker_pool_drains [OF example_queue_new run left] show ?thesis by simp
qed

theorem submission_without_workers_strands_witness:
  "\<exists>t'. queue_calls [Submit (example_request 1), Drain, Submit (example_request 2)]
      (example_trace [Lose 0 (Failure_Host ''lost''), Lose 1 (Failure_Host ''lost'')]) = Some t' \<and>
    1 \<in> set (wq_submission_order (tr_queue t')) \<and> 1 \<notin> set (reported t')"
proof -
  let ?t = "example_trace [Lose 0 (Failure_Host ''lost''), Lose 1 (Failure_Host ''lost'')]"
  have run: "queue_calls [Lose 0 (Failure_Host ''lost''), Lose 1 (Failure_Host ''lost'')] (queue_trace_new example_queue) = Some ?t"
    and lost: "list_all wk_failed (wq_workers (tr_queue ?t))"
    and quiet: "list_all quiet_call [Drain, Submit (example_request 2)]"
    by code_simp+
  have fits: "wr_operation (example_request 1) \<in> wq_operations (tr_queue ?t)" "wq_last_submitted_sequence (tr_queue ?t) = None"
    "outstanding (tr_queue ?t) < wq_max_outstanding (tr_queue ?t)"
    by code_simp+
  have number: "wr_sequence (example_request 1) = 1" by (simp add: example_request_def)
  have newer: "\<forall>s. wq_last_submitted_sequence (tr_queue ?t) = Some s \<longrightarrow> s < wr_sequence (example_request 1)" using fits(2) by simp
  from submission_without_workers_strands [OF example_queue_new run lost fits(1) newer fits(3) quiet]
  show ?thesis unfolding number by blast
qed

end
