(* ===== verification/Worker_Pool.thy ===== *)
theory Worker_Pool
  imports Worker_Queue
begin

text \<open>
  The catalogue of worker kernels and the two ways to execute its operations, from
  \<^verbatim>\<open>crates/platform_runtime/src/work_executor.rs\<close>: the cooperative executor runs each request when it is
  submitted, a pool of workers runs them side by side through the worker-operation queue. The theorem:
  on a host whose workers report what the kernels compute, both give the same answers in the same order.
\<close>

section \<open>The catalogue\<close>

text \<open>A kernel is a function of the payload; its error is the message of the execution error.\<close>

type_synonym worker_kernel = "u8 list \<Rightarrow> string + u8 list"

type_synonym worker_kernel_registry = "(string, worker_kernel) btree_map"

datatype worker_message_error = InvalidOperation | DuplicateOperation

text \<open>Only white space in the encoding of the text, so that nothing is left of it when it is trimmed.\<close>

fun only_white_space :: "nat list \<Rightarrow> bool" where
  "only_white_space [] = True"
| "only_white_space (b # bs) =
     (if 9 \<le> b \<and> b \<le> 13 \<or> b = 32 then only_white_space bs
      else case bs of
        b1 # rest \<Rightarrow>
          if b = 0xC2 \<and> (b1 = 0x85 \<or> b1 = 0xA0) then only_white_space rest
          else (case rest of
            b2 # others \<Rightarrow>
              if b = 0xE1 \<and> b1 = 0x9A \<and> b2 = 0x80 \<or>
                 b = 0xE2 \<and> b1 = 0x80 \<and> (0x80 \<le> b2 \<and> b2 \<le> 0x8A \<or> b2 = 0xA8 \<or> b2 = 0xA9 \<or> b2 = 0xAF) \<or>
                 b = 0xE2 \<and> b1 = 0x81 \<and> b2 = 0x9F \<or> b = 0xE3 \<and> b1 = 0x80 \<and> b2 = 0x80
              then only_white_space others else False
          | [] \<Rightarrow> False)
      | [] \<Rightarrow> False)"

definition worker_operation_new :: "string \<Rightarrow> worker_message_error + string" where
  "worker_operation_new v = (if only_white_space (map of_char v) then Inl InvalidOperation else Inr v)"

definition registry_register :: "string \<Rightarrow> worker_kernel \<Rightarrow> worker_kernel_registry \<Rightarrow>
    worker_message_error + worker_kernel_registry" where
  "registry_register operation run kernels =
     and_then (worker_operation_new operation) (\<lambda>operation.
       if map_of kernels operation \<noteq> None then Inl DuplicateOperation
       else Inr (btree_insert operation run kernels))"

definition registry_operations :: "worker_kernel_registry \<Rightarrow> string list" where
  "registry_operations kernels = map fst kernels"

definition registry_supports :: "worker_kernel_registry \<Rightarrow> string \<Rightarrow> bool" where
  "registry_supports kernels operation \<longleftrightarrow> map_of kernels operation \<noteq> None"

definition registry_execute :: "worker_kernel_registry \<Rightarrow> worker_request \<Rightarrow> worker_message" where
  "registry_execute kernels request =
     (case map_of kernels (wr_operation request) of
        None \<Rightarrow> Failed (wr_sequence request) (Failure_Not_Registered (wr_operation request))
      | Some run \<Rightarrow>
          (case run (wr_payload request) of
             Inr payload \<Rightarrow> Complete (wr_sequence request) payload
           | Inl message \<Rightarrow> Failed (wr_sequence request) (Failure_Kernel message)))"

section \<open>The cooperative executor\<close>

record cooperative_executor =
  ce_kernels :: worker_kernel_registry
  ce_capability :: worker_execution_capability
  ce_messages :: "worker_message list"
  ce_last_sequence :: "u64 option"

definition cooperative_new :: "worker_kernel_registry \<Rightarrow> string \<Rightarrow> cooperative_executor" where
  "cooperative_new kernels reason =
     \<lparr>ce_kernels = kernels, ce_capability = capability_cooperative (registry_operations kernels) reason,
      ce_messages = [], ce_last_sequence = None\<rparr>"

definition cooperative_submit :: "worker_request \<Rightarrow> cooperative_executor \<Rightarrow> worker_queue_error option \<times> cooperative_executor" where
  "cooperative_submit request e =
     (if (case ce_last_sequence e of Some previous \<Rightarrow> wr_sequence request \<le> previous | None \<Rightarrow> False)
      then (Some (NonMonotonicSequence (wr_sequence request) (the (ce_last_sequence e))), e)
      else if \<not> capability_supports (ce_capability e) (wr_operation request)
      then (Some (OperationNotRegistered (wr_operation request)), e)
      else (None, e\<lparr>ce_last_sequence := Some (wr_sequence request),
        ce_messages := ce_messages e @
          [Progress (wr_sequence request) 0 (Some 1), Progress (wr_sequence request) 1 (Some 1),
           registry_execute (ce_kernels e) request]\<rparr>))"

definition cooperative_cancel :: "u64 \<Rightarrow> cooperative_executor \<Rightarrow> bool" where
  "cooperative_cancel s e = False"

definition cooperative_drain :: "cooperative_executor \<Rightarrow> worker_message list \<times> cooperative_executor" where
  "cooperative_drain e = (ce_messages e, e\<lparr>ce_messages := []\<rparr>)"

definition cooperative_outstanding :: "cooperative_executor \<Rightarrow> nat" where
  "cooperative_outstanding e = 0"

text \<open>Submitting one request after the other, where each has to be accepted.\<close>

fun cooperative_submits :: "worker_request list \<Rightarrow> cooperative_executor \<Rightarrow> cooperative_executor option" where
  "cooperative_submits [] e = Some e"
| "cooperative_submits (r # rs) e =
     (case cooperative_submit r e of (None, e') \<Rightarrow> cooperative_submits rs e' | (Some _, _) \<Rightarrow> None)"

lemma terminal_execute [simp]: "terminal_sequence (registry_execute kernels r) = Some (wr_sequence r)"
  by (simp add: registry_execute_def terminal_sequence_def split: option.splits sum.splits)

section \<open>The contract of an executor\<close>

text \<open>
  What a client of \<^verbatim>\<open>WorkerOperationExecutor\<close> relies on: an accepted request joins the requests without a
  drained end, a rejected one changes nothing, and draining takes the ends of the oldest ones in order.
  \<open>client\<close> is a client that submits and drains in any order.
\<close>

datatype client_call = Client_Submit worker_request | Client_Drain

locale ordered_executor =
  fixes ok :: "'s \<Rightarrow> bool"
    and submit_to :: "worker_request \<Rightarrow> 's \<Rightarrow> worker_queue_error option \<times> 's"
    and drain_from :: "'s \<Rightarrow> worker_message list \<times> 's"
    and unanswered :: "'s \<Rightarrow> u64 list"
  assumes submit_accepted: "ok s \<Longrightarrow> submit_to r s = (None, s') \<Longrightarrow> ok s' \<and> unanswered s' = unanswered s @ [wr_sequence r]"
    and submit_rejected: "ok s \<Longrightarrow> submit_to r s = (Some e, s') \<Longrightarrow> s' = s"
    and drain_oldest: "ok s \<Longrightarrow> drain_from s = (ms, s') \<Longrightarrow>
      ok s' \<and> unanswered s = List.map_filter terminal_sequence ms @ unanswered s'"
begin

fun client :: "client_call list \<Rightarrow> 's \<Rightarrow> u64 list \<times> worker_message list \<times> 's" where
  "client [] s = ([], [], s)"
| "client (Client_Submit r # calls) s =
     (let (err, s1) = submit_to r s; (accepted, ms, s2) = client calls s1
      in (if err = None then wr_sequence r # accepted else accepted, ms, s2))"
| "client (Client_Drain # calls) s =
     (let (ms1, s1) = drain_from s; (accepted, ms, s2) = client calls s1 in (accepted, ms1 @ ms, s2))"

lemma client_sees_order:
  "ok s \<Longrightarrow> client calls s = (accepted, ms, s') \<Longrightarrow>
   ok s' \<and> unanswered s @ accepted = List.map_filter terminal_sequence ms @ unanswered s'"
proof (induction calls arbitrary: s accepted ms s')
  case (Cons c calls)
  show ?case
  proof (cases c)
    case (Client_Submit r)
    obtain err s1 a1 ms1 s2 where call: "submit_to r s = (err, s1)" "client calls s1 = (a1, ms1, s2)" by (metis prod.exhaust)
    have "ok s1" "unanswered s1 = unanswered s @ (if err = None then [wr_sequence r] else [])"
      using submit_accepted [OF Cons.prems(1), of r s1] submit_rejected [OF Cons.prems(1), of r _ s1] Cons.prems(1) call
      by (cases err; auto)+
    with Cons.IH [OF _ call(2)] Cons.prems(2) call Client_Submit show ?thesis by (auto split: if_splits)
  next
    case Client_Drain
    obtain ms1 s1 a2 ms2 s2 where call: "drain_from s = (ms1, s1)" "client calls s1 = (a2, ms2, s2)" by (metis prod.exhaust)
    with drain_oldest [OF Cons.prems(1) call(1)] Cons.IH [OF _ call(2)] Cons.prems(2) Client_Drain show ?thesis
      by (auto simp: map_filter_append)
  qed
qed (auto simp: List.map_filter_def)

end

interpretation cooperative: ordered_executor "\<lambda>_. True" cooperative_submit cooperative_drain
  "\<lambda>e. List.map_filter terminal_sequence (ce_messages e)"
  by unfold_locales
    (auto simp: cooperative_submit_def cooperative_drain_def map_filter_append List.map_filter_def
      terminal_sequence_def [of "Progress _ _ _"] terminal_execute split: if_splits)

text \<open>The queue's submission as its clients see it, with the commands left to the host.\<close>

definition queue_submit :: "worker_request \<Rightarrow> worker_operation_queue \<Rightarrow> worker_queue_error option \<times> worker_operation_queue" where
  "queue_submit r q = (case submit r q of (Inl e, q') \<Rightarrow> (Some e, q') | (Inr _, q') \<Rightarrow> (None, q'))"

interpretation worker_queue: ordered_executor wq_inv queue_submit drain_messages history
proof
  fix q r q' assume "wq_inv q" "queue_submit r q = (None, q')"
  then show "wq_inv q' \<and> history q' = history q @ [wr_sequence r]"
    using submit_accepts [of q r] by (auto simp: queue_submit_def split: prod.splits sum.splits)
next
  fix q r e q' assume "wq_inv q" "queue_submit r q = (Some e, q')"
  then show "q' = q" using submit_rejects [of r q] by (auto simp: queue_submit_def split: prod.splits sum.splits)
next
  fix q ms q' assume "wq_inv q" "drain_messages q = (ms, q')"
  then show "wq_inv q' \<and> history q = List.map_filter terminal_sequence ms @ history q'"
    using drain_messages_keeps [of q] by simp
qed

section \<open>Faithful hosts\<close>

definition result_of :: "worker_message \<Rightarrow> worker_failure + u8 list" where
  "result_of m = (case m of Complete _ payload \<Rightarrow> Inr payload | Failed _ e \<Rightarrow> Inl e | _ \<Rightarrow> Inl Unavailable)"

text \<open>
  A host that loses no worker, cancels nothing, and whose workers report, under the right number or
  none, what the kernels compute for the request they run.
\<close>

definition faithful_call :: "worker_kernel_registry \<Rightarrow> queue_trace \<Rightarrow> queue_call \<Rightarrow> bool" where
  "faithful_call kernels t c =
     (case c of
        Finish i announced res \<Rightarrow>
          i < length (wq_workers (tr_queue t)) \<and>
          (\<exists>r\<in>set (tr_requests t). wk_running (wq_workers (tr_queue t) ! i) = Some (wr_sequence r) \<and>
             (announced = None \<or> announced = Some (wr_sequence r)) \<and> res = result_of (registry_execute kernels r))
      | Lose _ _ \<Rightarrow> False
      | Cancel _ \<Rightarrow> False
      | _ \<Rightarrow> True)"

fun faithful_calls :: "worker_kernel_registry \<Rightarrow> queue_call list \<Rightarrow> queue_trace \<Rightarrow> bool" where
  "faithful_calls kernels [] t = True"
| "faithful_calls kernels (c # cs) t \<longleftrightarrow>
     faithful_call kernels t c \<and> (case perform_call c t of None \<Rightarrow> False | Some t' \<Rightarrow> faithful_calls kernels cs t')"

definition is_end :: "worker_message \<Rightarrow> bool" where
  "is_end m \<longleftrightarrow> terminal_sequence m \<noteq> None"

text \<open>All ends the queue holds: those to be drained and those that wait for their turn.\<close>

definition ends_of :: "worker_operation_queue \<Rightarrow> worker_message set" where
  "ends_of q = {m \<in> set (wq_delivered q). is_end m} \<union> snd ` set (wq_terminal q)"

definition contents_ok :: "worker_kernel_registry \<Rightarrow> queue_trace \<Rightarrow> bool" where
  "contents_ok kernels t \<longleftrightarrow> trace_ok t \<and>
     {m \<in> set (tr_messages t). is_end m} \<union> ends_of (tr_queue t) \<subseteq> registry_execute kernels ` set (tr_requests t)"

lemma result_message: "(case result_of (registry_execute kernels r) of
    Inr payload \<Rightarrow> Complete (wr_sequence r) payload | Inl e \<Rightarrow> Failed (wr_sequence r) e) = registry_execute kernels r"
  by (simp add: registry_execute_def result_of_def split: option.splits sum.splits)

lemma release_ends:
  "release order terminal cancelled = (order', terminal', cancelled', messages) \<Longrightarrow>
   set messages \<union> snd ` set terminal' \<subseteq> snd ` set terminal"
proof (induction order terminal cancelled arbitrary: order' terminal' cancelled' messages rule: release.induct)
  case (2 s order terminal cancelled)
  show ?case
  proof (cases "map_of terminal s")
    case (Some m)
    obtain o1 t1 c1 ms where rest: "release order (btree_remove s terminal) (cancelled - {s}) = (o1, t1, c1, ms)"
      by (metis prod.exhaust)
    have "snd ` set (btree_remove s terminal) \<subseteq> snd ` set terminal" by (auto simp: btree_remove_def)
    moreover have "m \<in> snd ` set terminal" using map_of_SomeD [OF Some] by (rule rev_image_eqI) simp
    moreover have "messages = m # ms" "terminal' = t1" using 2(2) Some rest by simp_all
    ultimately show ?thesis using 2(1) [OF Some rest] by (simp, blast)
  qed (use 2(2) in auto)
qed simp

lemma release_ordered_ends: "ends_of (release_ordered q) \<subseteq> ends_of q"
proof -
  obtain o1 t1 c1 ms where r: "release (wq_submission_order q) (wq_terminal q) (wq_cancelled q) = (o1, t1, c1, ms)"
    by (metis prod.exhaust)
  from release_ends [OF r] r show ?thesis by (auto simp: release_ordered_def ends_of_def)
qed

lemma set_btree_insert_entries: "set (btree_insert k v m) \<subseteq> insert (k, v) (set m)"
  by (induction k v m rule: btree_insert.induct) auto

lemma record_terminal_ends:
  assumes "record_terminal m q = Some q'"
  shows "ends_of q' \<subseteq> insert m (ends_of q)"
proof -
  from assms obtain s where s: "terminal_sequence m = Some s" "q' = release_ordered (note_end s m q)"
    by (auto simp: record_terminal_def note_end_def)
  have "ends_of (note_end s m q) \<subseteq> insert m (ends_of q)"
    using set_btree_insert_entries [of s m "wq_terminal q"] by (auto simp: note_end_def ends_of_def)
  with release_ordered_ends s(2) show ?thesis by blast
qed

lemma dispatch_ends: "ends_of (snd (dispatch_ready_workers q)) = ends_of q"
  by (auto simp: dispatch_ready_workers_def ends_of_def split: prod.splits)

lemma submit_ends:
  assumes "submit r q = (res, q')"
  shows "ends_of q' = ends_of q"
proof -
  let ?q = "q\<lparr>wq_last_submitted_sequence := Some (wr_sequence r),
    wq_submission_order := wq_submission_order q @ [wr_sequence r], wq_pending := wq_pending q @ [r]\<rparr>"
  have "q' = q \<or> q' = snd (map_prod Inr id (dispatch_ready_workers ?q) :: (worker_queue_error + _) \<times> _)"
    using assms unfolding submit_def by (metis snd_conv)
  then have "q' = q \<or> q' = snd (dispatch_ready_workers ?q)" by simp
  moreover have "ends_of ?q = ends_of q" by (simp add: ends_of_def)
  ultimately show ?thesis using dispatch_ends [of ?q] by auto
qed

lemma contents_ok_call:
  assumes "contents_ok kernels t" "faithful_call kernels t c" "perform_call c t = Some t'"
  shows "contents_ok kernels t'"
proof -
  have ok: "trace_ok t" and inside: "{m \<in> set (tr_messages t). is_end m} \<union> ends_of (tr_queue t) \<subseteq> registry_execute kernels ` set (tr_requests t)"
    using assms(1) by (simp_all add: contents_ok_def)
  have ok': "trace_ok t'" using trace_ok_call [OF ok, of c] assms(3) by auto
  have "{m \<in> set (tr_messages t'). is_end m} \<union> ends_of (tr_queue t') \<subseteq> registry_execute kernels ` set (tr_requests t')"
  proof (cases c)
    case (Submit r)
    obtain res q' where r: "submit r (tr_queue t) = (res, q')" by fastforce
    have same: "tr_messages t' = tr_messages t" "tr_queue t' = q'" and more: "set (tr_requests t) \<subseteq> set (tr_requests t')"
      using assms(3) unfolding Submit by (auto simp: r started_def split: sum.splits)
    from inside image_mono [OF more] show ?thesis
      unfolding same submit_ends [OF r] by (rule order_trans)
  next
    case (Ready i)
    have "ends_of (q\<lparr>wq_workers := ws\<rparr>) = ends_of q" for q ws by (simp add: ends_of_def)
    moreover have "t' = started (worker_ready i (tr_queue t)) t" using Ready assms(3) by simp
    ultimately have "tr_messages t' = tr_messages t" "ends_of (tr_queue t') = ends_of (tr_queue t)" "tr_requests t' = tr_requests t"
      by (simp_all add: worker_ready_def started_def dispatch_ends)
    with inside show ?thesis by simp
  next
    case (Report s completed goal)
    with assms(3) have "tr_messages t' = tr_messages t" "ends_of (tr_queue t') = ends_of (tr_queue t)" "tr_requests t' = tr_requests t"
      by (auto simp: worker_progress_def ends_of_def is_end_def terminal_sequence_def split: if_splits)
    with inside show ?thesis by simp
  next
    case (Finish i announced res)
    then obtain r where r: "i < length (wq_workers (tr_queue t))" "r \<in> set (tr_requests t)"
      "wk_running (wq_workers (tr_queue t) ! i) = Some (wr_sequence r)" "announced = None \<or> announced = Some (wr_sequence r)"
      "res = result_of (registry_execute kernels r)"
      using assms(2) by (auto simp: faithful_call_def)
    let ?q = "(tr_queue t)\<lparr>wq_workers := (wq_workers (tr_queue t))[i := (wq_workers (tr_queue t) ! i)\<lparr>wk_running := None\<rparr>]\<rparr>"
    have no: "(announced \<noteq> None \<and> the announced \<noteq> wr_sequence r) = False" using r(4) by auto
    have here: "(if i < length (wq_workers (tr_queue t)) then wk_running (wq_workers (tr_queue t) ! i) else None) = Some (wr_sequence r)"
      using r(1,3) by simp
    have w: "worker_completed i announced res (tr_queue t) = map_option dispatch_ready_workers
        (if contains_sequence ?q (wr_sequence r) \<and> wr_sequence r \<notin> wq_cancelled ?q
         then record_terminal (registry_execute kernels r) ?q else Some ?q)"
      unfolding worker_completed_def here option.case no if_False Let_def r(5) result_message by (rule refl)
    have "ends_of ?q = ends_of (tr_queue t)" by (simp add: ends_of_def)
    then have "ends_of q2 \<subseteq> insert (registry_execute kernels r) (ends_of (tr_queue t))"
      if "(if contains_sequence ?q (wr_sequence r) \<and> wr_sequence r \<notin> wq_cancelled ?q
         then record_terminal (registry_execute kernels r) ?q else Some ?q) = Some q2" for q2
      using that record_terminal_ends [of "registry_execute kernels r" ?q q2] by (auto split: if_splits)
    moreover obtain q2 where q2: "(if contains_sequence ?q (wr_sequence r) \<and> wr_sequence r \<notin> wq_cancelled ?q
         then record_terminal (registry_execute kernels r) ?q else Some ?q) = Some q2" "t' = started (dispatch_ready_workers q2) t"
      using assms(3) w Finish by auto
    ultimately have "ends_of (tr_queue t') \<subseteq> insert (registry_execute kernels r) (ends_of (tr_queue t))"
      by (simp add: started_def dispatch_ends)
    moreover have "tr_messages t' = tr_messages t" "tr_requests t' = tr_requests t" by (simp_all add: q2(2) started_def)
    ultimately show ?thesis using inside r(2) by auto
  next
    case Drain
    with assms(3) have "{m \<in> set (tr_messages t'). is_end m} \<union> ends_of (tr_queue t') =
        {m \<in> set (tr_messages t). is_end m} \<union> ends_of (tr_queue t)" "tr_requests t' = tr_requests t"
      by (auto simp: drain_messages_def ends_of_def)
    with inside show ?thesis by simp
  qed (use assms(2) in \<open>simp_all add: faithful_call_def\<close>)
  with ok' show ?thesis by (simp add: contents_ok_def)
qed

lemma contents_ok_calls:
  assumes "contents_ok kernels t" "faithful_calls kernels cs t" "queue_calls cs t = Some t'"
  shows "contents_ok kernels t'"
  using assms
proof (induction cs arbitrary: t)
  case (Cons c cs)
  then obtain t1 where "perform_call c t = Some t1" "queue_calls cs t1 = Some t'" "faithful_calls kernels cs t1"
    by (auto split: option.splits)
  with Cons.prems Cons.IH [of t1] contents_ok_call [of kernels t c t1] show ?case by simp
qed simp

text \<open>Distinct numbers, so the messages are those of the requests, one for one.\<close>

lemma messages_of_requests:
  assumes "List.map_filter terminal_sequence ms = map wr_sequence rs" "distinct (map wr_sequence rs)"
    and "{m \<in> set ms. is_end m} \<subseteq> registry_execute kernels ` set rs"
  shows "filter is_end ms = map (registry_execute kernels) rs"
proof -
  have seq: "map (the \<circ> terminal_sequence) (filter is_end ms) = map wr_sequence rs"
    using assms(1) by (simp add: List.map_filter_def is_end_def [abs_def])
  have "filter is_end ms ! k = registry_execute kernels (rs ! k)" if "k < length rs" for k
  proof -
    have len: "length (filter is_end ms) = length rs" using seq by (metis length_map)
    then have "filter is_end ms ! k \<in> {m \<in> set ms. is_end m}" using that nth_mem [of k "filter is_end ms"] by simp
    then obtain r where r: "r \<in> set rs" "filter is_end ms ! k = registry_execute kernels r" using assms(3) by blast
    have "wr_sequence (rs ! k) = wr_sequence r"
      using arg_cong [OF seq, of "\<lambda>xs. xs ! k"] that len r(2) by simp
    then have "rs ! k = r" using assms(2) that r(1) by (meson distinct_map inj_onD nth_mem)
    with r(2) show ?thesis by simp
  qed
  moreover have "length (filter is_end ms) = length rs" using seq by (metis length_map)
  ultimately show ?thesis by (intro nth_equalityI) auto
qed

lemma set_remdups_sort [simp]: "set (remdups_adj (sort xs)) = set xs"
  by simp

lemma cooperative_submits_all:
  assumes "sorted_wrt (<) (map wr_sequence rs)" "\<forall>r\<in>set rs. wr_operation r \<in> set (cap_operations (ce_capability e))"
    and "\<forall>r\<in>set rs. case ce_last_sequence e of None \<Rightarrow> True | Some previous \<Rightarrow> previous < wr_sequence r"
  shows "\<exists>e'. cooperative_submits rs e = Some e' \<and>
    filter is_end (ce_messages e') = filter is_end (ce_messages e) @ map (registry_execute (ce_kernels e)) rs"
  using assms
proof (induction rs arbitrary: e)
  case (Cons r rs)
  obtain e1 where e1: "cooperative_submit r e = (None, e1)" "e1 = e\<lparr>ce_last_sequence := Some (wr_sequence r),
      ce_messages := ce_messages e @ [Progress (wr_sequence r) 0 (Some 1), Progress (wr_sequence r) 1 (Some 1),
        registry_execute (ce_kernels e) r]\<rparr>"
    using Cons.prems by (auto simp: cooperative_submit_def capability_supports_def split: option.splits)
  have "\<exists>e'. cooperative_submits rs e1 = Some e' \<and>
    filter is_end (ce_messages e') = filter is_end (ce_messages e1) @ map (registry_execute (ce_kernels e1)) rs"
    using Cons.prems by (intro Cons.IH) (auto simp: e1(2))
  moreover have "filter is_end (ce_messages e1) = filter is_end (ce_messages e) @ [registry_execute (ce_kernels e) r]"
    by (simp add: e1(2) is_end_def terminal_sequence_def [of "Progress _ _ _"])
  ultimately show ?case using e1 by simp
qed simp

section \<open>Properties\<close>

text \<open>
  C5: A worker pool and the cooperative executor cannot be told apart by their answers. Take any run
  of the queue, with any number of workers that become ready, finish and report progress in any order,
  on a host whose workers report what the kernels compute; when nothing is outstanding, the cooperative
  executor accepts the same requests and its results and failures are the same, in the same order.
\<close>
theorem pool_agrees_with_cooperative:
  assumes "queue_new worker_count bound (registry_operations kernels) = Inr q"
    and "queue_calls calls (queue_trace_new q) = Some t" "faithful_calls kernels calls (queue_trace_new q)"
    and "outstanding (tr_queue t) = 0"
  shows "\<exists>e. cooperative_submits (tr_requests t) (cooperative_new kernels reason) = Some e \<and>
    filter is_end (tr_messages t @ wq_delivered (tr_queue t)) = filter is_end (ce_messages e)"
proof -
  have new: "trace_ok (queue_trace_new q)" by (rule trace_ok_new [OF assms(1)])
  have "contents_ok kernels (queue_trace_new q)"
    using new assms(1) by (auto simp: contents_ok_def queue_trace_new_def queue_new_def ends_of_def split: if_splits)
  then have contents: "contents_ok kernels t" using contents_ok_calls assms(2,3) by blast
  then have ok: "trace_ok t" by (simp add: contents_ok_def)
  let ?ms = "tr_messages t @ wq_delivered (tr_queue t)"
  have "filter is_end ?ms = map (registry_execute kernels) (tr_requests t)"
  proof (rule messages_of_requests)
    show "List.map_filter terminal_sequence ?ms = map wr_sequence (tr_requests t)"
      using ok assms(4) by (simp add: trace_ok_def history_def map_filter_append outstanding_def tr_accepted_def)
    show "distinct (map wr_sequence (tr_requests t))" using ok by (simp add: trace_ok_def tr_accepted_def strict_sorted_iff)
    show "{m \<in> set ?ms. is_end m} \<subseteq> registry_execute kernels ` set (tr_requests t)"
      using contents by (auto simp: contents_ok_def ends_of_def)
  qed
  moreover have "wq_operations (tr_queue t) = set (registry_operations kernels)"
  proof -
    have "wq_operations q = set (registry_operations kernels)" using assms(1) by (auto simp: queue_new_def split: if_splits)
    moreover have "same_pool (tr_queue (queue_trace_new q)) (tr_queue t)"
      using trace_ok_calls [OF new, of calls] assms(2) by auto
    ultimately show ?thesis by (simp add: same_pool_def queue_trace_new_def)
  qed
  moreover obtain e where "cooperative_submits (tr_requests t) (cooperative_new kernels reason) = Some e"
    "filter is_end (ce_messages e) = map (registry_execute kernels) (tr_requests t)"
    using cooperative_submits_all [of "tr_requests t" "cooperative_new kernels reason"] ok calculation(2)
    by (auto simp: cooperative_new_def capability_cooperative_def trace_ok_def tr_accepted_def)
  ultimately show ?thesis by auto
qed

definition example_kernels :: worker_kernel_registry where
  "example_kernels = [(''op'', \<lambda>payload. if payload = [1] then Inr [2, 3] else Inl ''bad payload'')]"

definition pool_calls :: "queue_call list" where
  "pool_calls = [Ready 0, Ready 1, Submit (example_request 10), Submit (example_request 11),
     Finish 1 (Some 11) (Inr [2, 3]), Report 10 0 (Some 1), Drain, Finish 0 None (Inr [2, 3])]"

theorem pool_agrees_with_cooperative_witness:
  "\<exists>e. cooperative_submits [example_request 10, example_request 11] (cooperative_new example_kernels ''no workers'') = Some e \<and>
    [Complete 10 [2, 3], Complete 11 [2, 3]] = filter is_end (ce_messages e)"
proof -
  have "registry_operations example_kernels = [''op'']" by (simp add: registry_operations_def example_kernels_def)
  then have new: "queue_new 2 4 (registry_operations example_kernels) = Inr example_queue" by (simp add: example_queue_new)
  have run: "queue_calls pool_calls (queue_trace_new example_queue) = Some (example_trace pool_calls)" by code_simp
  have none: "outstanding (tr_queue (example_trace pool_calls)) = 0" by code_simp
  have requests: "tr_requests (example_trace pool_calls) = [example_request 10, example_request 11]" by code_simp
  have ends: "filter is_end (tr_messages (example_trace pool_calls) @ wq_delivered (tr_queue (example_trace pool_calls))) =
      [Complete 10 [2, 3], Complete 11 [2, 3]]" by code_simp
  have faithful: "faithful_calls example_kernels pool_calls (queue_trace_new example_queue)" by code_simp
  from pool_agrees_with_cooperative [OF new run faithful none, of "''no workers''", unfolded requests ends] show ?thesis .
qed

end
