(* ===== verification/Capture_Index.thy ===== *)
theory Capture_Index
  imports Word_Format Ordered_Map
begin

text \<open>
  The kernel of the capture index, \<^verbatim>\<open>crates/signal_capture/src/capture_index_kernel.rs\<close>: a packed channel
  becomes three levels of bitmaps that say in which of the groups of 64, 4096 and 262144 samples the
  level changes and which level each group ends with. The theorem relates every bit to the samples.
\<close>

section \<open>Types\<close>

definition LEVEL_POWER :: nat where "LEVEL_POWER = 6"

definition L1_WORDS :: nat where "L1_WORDS = 2 ^ (LEVEL_POWER * 2)"

definition L2_WORDS :: nat where "L2_WORDS = 2 ^ LEVEL_POWER"

lemmas index_consts = LEVEL_POWER_def L1_WORDS_def L2_WORDS_def

record capture_index_block_request =
  cq_sequence :: u64
  cq_channel :: u64
  cq_block :: u64
  cq_valid_samples :: u64
  cq_packed_samples :: "u8 list"

record capture_index_block_levels =
  cl_l1_toggle :: "u64 list"
  cl_l1_last :: "u64 list"
  cl_l2_toggle :: "u64 list"
  cl_l2_last :: "u64 list"
  cl_l3_toggle :: u64
  cl_l3_last :: u64

record capture_index_block_result =
  cr_sequence :: u64
  cr_channel :: u64
  cr_block :: u64
  cr_valid_samples :: u32
  cr_first :: bool
  cr_last :: bool
  cr_levels :: "capture_index_block_levels option"

datatype capture_index_kernel_error =
    ValidSamplesExceedPayload u64 u64
  | LeafSampleLimit
  | ByteLengthExceedsAddressSpace
  | PayloadLengthOverflow
  | TruncatedPayload
  | TrailingBytes

type_synonym 'a index_result = "capture_index_kernel_error + 'a"

section \<open>Bits\<close>

definition packed_bit :: "u8 list \<Rightarrow> nat \<Rightarrow> bool" where
  "packed_bit data index = (index div 8 < length data \<and> bit (data ! (index div 8)) (index mod 8))"

definition word_bit :: "u64 \<Rightarrow> nat \<Rightarrow> bool" where
  "word_bit w index = (index < 64 \<and> bit (drop_bit index w) 0)"

definition set_word_bit :: "nat \<Rightarrow> u64 \<Rightarrow> u64" where
  "set_word_bit index w = (if index < 64 then w OR push_bit index 1 else w)"

text \<open>Setting a bit of a vector of words; \<open>None\<close> is the panic outside of it.\<close>

definition mark :: "nat \<Rightarrow> u64 list \<Rightarrow> u64 list option" where
  "mark grp v =
     (if grp div 64 < length v
      then Some (v[grp div 64 := set_word_bit (grp mod 64) (v ! (grp div 64))]) else None)"

definition mark_if :: "bool \<Rightarrow> nat \<Rightarrow> u64 list \<Rightarrow> u64 list option" where
  "mark_if b grp v = (if b then mark grp v else Some v)"

definition valid_mask :: "nat \<Rightarrow> u64" where
  "valid_mask valid_bits = (if valid_bits = 64 then - 1 else push_bit valid_bits 1 - 1)"

definition l1_word_has_internal_toggle :: "u64 \<Rightarrow> nat \<Rightarrow> bool" where
  "l1_word_has_internal_toggle w valid_bits =
     (if valid_bits \<le> 1 then False
      else (w XOR push_bit 1 w) AND (valid_mask valid_bits AND NOT 1) \<noteq> 0)"

definition partial_l1_word :: "u8 list \<Rightarrow> nat \<Rightarrow> nat \<Rightarrow> u64 \<times> nat" where
  "partial_l1_word data grp valid_samples =
     (let sample_start = grp * 64; valid_bits = min (valid_samples - sample_start) 64; byte_start = grp * 8;
          available = min (length data - byte_start) 8;
          bytes = take available (drop byte_start data) @ replicate (8 - available) 0;
          w = from_le bytes
      in (if valid_bits < 64 then w AND (push_bit valid_bits 1 - 1) else w, valid_bits))"

section \<open>The kernel\<close>

type_synonym l1_state = "(u64 list \<times> u64 list) \<times> bool"

definition record_l1_group :: "nat \<Rightarrow> u64 \<Rightarrow> nat \<Rightarrow> l1_state \<Rightarrow> l1_state option" where
  "record_l1_group grp w valid_bits s =
     (case s of ((toggle, ends), entering) \<Rightarrow>
        let first_bit = bit w 0; leaving = word_bit w (valid_bits - 1)
        in case mark_if (first_bit \<noteq> entering \<or> l1_word_has_internal_toggle w valid_bits) grp toggle of
             None \<Rightarrow> None
           | Some toggle' \<Rightarrow> map_option (\<lambda>ends'. ((toggle', ends'), leaving)) (mark_if leaving grp ends))"

fun record_l1_groups :: "(nat \<times> u64 \<times> nat) list \<Rightarrow> l1_state \<Rightarrow> l1_state option" where
  "record_l1_groups [] s = Some s"
| "record_l1_groups ((grp, w, valid_bits) # rest) s =
     (case record_l1_group grp w valid_bits s of None \<Rightarrow> None | Some s' \<Rightarrow> record_l1_groups rest s')"

definition l1_group_words :: "u8 list \<Rightarrow> nat \<Rightarrow> (nat \<times> u64 \<times> nat) list" where
  "l1_group_words data valid_samples =
     (let l1_groups = div_ceil valid_samples 64; full_l1_groups = valid_samples div 64
      in map (\<lambda>grp. (grp, from_le (slice data (grp * 8) 8), 64)) [0..<full_l1_groups] @
         (if full_l1_groups < l1_groups then [(full_l1_groups, partial_l1_word data full_l1_groups valid_samples)] else []))"

text \<open>One more level over vectors: a group holds the 64 groups of one word below.\<close>

primrec record_l2_groups :: "nat list \<Rightarrow> nat \<Rightarrow> u64 list \<times> u64 list \<Rightarrow> u64 list \<times> u64 list \<Rightarrow> (u64 list \<times> u64 list) option" where
  "record_l2_groups [] l1_groups l1 l2 = Some l2"
| "record_l2_groups (grp # rest) l1_groups l1 l2 =
     (let last_l1_group = min ((grp + 1) * 64) l1_groups - 1
      in if length (fst l1) \<le> grp \<or> length (snd l1) \<le> last_l1_group div 64 then None
         else case mark_if (fst l1 ! grp \<noteq> 0) grp (fst l2) of
           None \<Rightarrow> None
         | Some l2_toggle \<Rightarrow>
             (case mark_if (word_bit (snd l1 ! (last_l1_group div 64)) (last_l1_group mod 64)) grp (snd l2) of
                None \<Rightarrow> None
              | Some l2_last \<Rightarrow> record_l2_groups rest l1_groups l1 (l2_toggle, l2_last)))"

text \<open>The top level is a single word, where a bit outside is not set.\<close>

primrec record_l3_groups :: "nat list \<Rightarrow> nat \<Rightarrow> u64 list \<times> u64 list \<Rightarrow> u64 \<times> u64 \<Rightarrow> (u64 \<times> u64) option" where
  "record_l3_groups [] l2_groups l2 l3 = Some l3"
| "record_l3_groups (grp # rest) l2_groups l2 l3 =
     (let last_l2_group = min ((grp + 1) * 64) l2_groups - 1
      in if length (fst l2) \<le> grp \<or> length (snd l2) \<le> last_l2_group div 64 then None
         else record_l3_groups rest l2_groups l2
           (if fst l2 ! grp \<noteq> 0 then set_word_bit grp (fst l3) else fst l3,
            if word_bit (snd l2 ! (last_l2_group div 64)) (last_l2_group mod 64) then set_word_bit grp (snd l3) else snd l3))"

definition build_levels :: "u8 list \<Rightarrow> nat \<Rightarrow> bool \<Rightarrow> capture_index_block_levels option" where
  "build_levels data valid_samples first =
     (let l1_groups = div_ceil valid_samples 64; l2_groups = div_ceil l1_groups 64; l3_groups = div_ceil l2_groups 64;
          zeros1 = replicate L1_WORDS 0; zeros2 = replicate L2_WORDS 0
      in case record_l1_groups (l1_group_words data valid_samples) ((zeros1, zeros1), first) of
           None \<Rightarrow> None
         | Some (l1, _) \<Rightarrow>
             (case record_l2_groups [0..<l2_groups] l1_groups l1 (zeros2, zeros2) of
                None \<Rightarrow> None
              | Some l2 \<Rightarrow>
                  map_option (\<lambda>l3. \<lparr>cl_l1_toggle = fst l1, cl_l1_last = snd l1, cl_l2_toggle = fst l2, cl_l2_last = snd l2,
                      cl_l3_toggle = fst l3, cl_l3_last = snd l3\<rparr>)
                    (record_l3_groups [0..<l3_groups] l2_groups l2 (0, 0))))"

text \<open>\<open>None\<close> is the panic on more groups than the vectors hold.\<close>

definition build_capture_index_block_from_packed :: "u64 \<Rightarrow> u64 \<Rightarrow> u64 \<Rightarrow> u64 \<Rightarrow> u8 list \<Rightarrow>
    capture_index_block_result index_result option" where
  "build_capture_index_block_from_packed sequence channel block requested packed_samples =
     (let available = of_nat (min (length packed_samples * 8) (2 ^ 64 - 1))
      in if available < requested then Some (Inl (ValidSamplesExceedPayload requested available))
         else if 2 ^ 32 \<le> unat requested then Some (Inl LeafSampleLimit)
         else if requested = 0
         then Some (Inr \<lparr>cr_sequence = sequence, cr_channel = channel, cr_block = block, cr_valid_samples = 0,
                cr_first = False, cr_last = False, cr_levels = None\<rparr>)
         else
           let first = packed_bit packed_samples 0; final = packed_bit packed_samples (unat requested - 1)
           in map_option (\<lambda>levels. Inr \<lparr>cr_sequence = sequence, cr_channel = channel, cr_block = block,
                  cr_valid_samples = ucast requested, cr_first = first, cr_last = final,
                  cr_levels = if cl_l3_toggle levels \<noteq> 0 then Some levels else None\<rparr>)
                (build_levels packed_samples (unat requested) first))"

definition build_capture_index_block :: "capture_index_block_request \<Rightarrow> capture_index_block_result index_result option" where
  "build_capture_index_block request =
     build_capture_index_block_from_packed (cq_sequence request) (cq_channel request) (cq_block request)
       (cq_valid_samples request) (cq_packed_samples request)"

section \<open>The worker's payloads\<close>

record payload_reader =
  pr_payload :: "u8 list"
  pr_cursor :: nat

definition reader_take :: "nat \<Rightarrow> payload_reader \<Rightarrow> (u8 list \<times> payload_reader) index_result" where
  "reader_take n r =
     (case usize_checked_add (pr_cursor r) n of
        None \<Rightarrow> Inl PayloadLengthOverflow
      | Some stop \<Rightarrow>
          if length (pr_payload r) < stop then Inl TruncatedPayload
          else Inr (slice (pr_payload r) (pr_cursor r) n, r\<lparr>pr_cursor := stop\<rparr>))"

definition reader_u64 :: "payload_reader \<Rightarrow> (u64 \<times> payload_reader) index_result" where
  "reader_u64 r = and_then (reader_take 8 r) (\<lambda>(bytes, r'). Inr (from_le bytes, r'))"

text \<open>A 64-bit length always fits the address space of a 64-bit target.\<close>

definition reader_bytes :: "payload_reader \<Rightarrow> (u8 list \<times> payload_reader) index_result" where
  "reader_bytes r = and_then (reader_u64 r) (\<lambda>(n, r'). reader_take (unat n) r')"

definition reader_finish :: "payload_reader \<Rightarrow> unit index_result" where
  "reader_finish r = (if pr_cursor r = length (pr_payload r) then Inr () else Inl TrailingBytes)"

definition decode_capture_index_request :: "u8 list \<Rightarrow> capture_index_block_request index_result" where
  "decode_capture_index_request payload =
     and_then (reader_u64 \<lparr>pr_payload = payload, pr_cursor = 0\<rparr>) (\<lambda>(sequence, r1).
     and_then (reader_u64 r1) (\<lambda>(channel, r2).
     and_then (reader_u64 r2) (\<lambda>(block, r3).
     and_then (reader_u64 r3) (\<lambda>(valid_samples, r4).
     and_then (reader_bytes r4) (\<lambda>(packed_samples, r5).
     and_then (reader_finish r5) (\<lambda>_.
       Inr \<lparr>cq_sequence = sequence, cq_channel = channel, cq_block = block, cq_valid_samples = valid_samples,
            cq_packed_samples = packed_samples\<rparr>))))))"

definition encode_capture_index_result :: "capture_index_block_result \<Rightarrow> u8 list" where
  "encode_capture_index_result res =
     to_le 8 (cr_sequence res) @ to_le 8 (cr_channel res) @ to_le 8 (cr_block res) @ to_le 4 (cr_valid_samples res) @
     [of_bool (cr_first res), of_bool (cr_last res), of_bool (cr_levels res \<noteq> None)] @
     (case cr_levels res of
        None \<Rightarrow> []
      | Some levels \<Rightarrow>
          concat (map (to_le 8) (cl_l1_toggle levels @ cl_l1_last levels @ cl_l2_toggle levels @ cl_l2_last levels)) @
          to_le 8 (cl_l3_toggle levels) @ to_le 8 (cl_l3_last levels))"

text \<open>The messages of the errors, as the worker reports them.\<close>

definition index_error_text :: "capture_index_kernel_error \<Rightarrow> string" where
  "index_error_text e =
     (case e of
        ValidSamplesExceedPayload declared available \<Rightarrow>
          ''capture-index request declares '' @ show_nat (unat declared) @ '' valid samples but contains only '' @
          show_nat (unat available)
      | LeafSampleLimit \<Rightarrow> ''capture-index leaf exceeds the fixed-width sample limit''
      | ByteLengthExceedsAddressSpace \<Rightarrow> ''worker byte payload length exceeds this address space''
      | PayloadLengthOverflow \<Rightarrow> ''worker payload length overflow''
      | TruncatedPayload \<Rightarrow> ''worker payload is truncated''
      | TrailingBytes \<Rightarrow> ''worker payload contains trailing bytes'')"

definition capture_worker_kernel :: "u8 list \<Rightarrow> (string + u8 list) option" where
  "capture_worker_kernel payload =
     (case decode_capture_index_request payload of
        Inl e \<Rightarrow> Some (Inl (index_error_text e))
      | Inr request \<Rightarrow>
          map_option (\<lambda>res. case res of Inl e \<Rightarrow> Inl (index_error_text e) | Inr built \<Rightarrow> Inr (encode_capture_index_result built))
            (build_capture_index_block request))"

section \<open>Bitmaps\<close>

definition vbit :: "u64 list \<Rightarrow> nat \<Rightarrow> bool" where
  "vbit v i \<longleftrightarrow> i div 64 < length v \<and> bit (v ! (i div 64)) (i mod 64)"

definition changes :: "(nat \<Rightarrow> bool) \<Rightarrow> nat \<Rightarrow> nat \<Rightarrow> bool" where
  "changes s a b \<longleftrightarrow> (\<exists>i\<in>{a..<b}. 0 < i \<and> s i \<noteq> s (i - 1))"

lemma changesE:
  assumes "changes s a (min b n)"
  obtains i where "a \<le> i" "i < b" "i < n" "0 < i" "s i \<noteq> s (i - 1)"
proof -
  from assms obtain i where "i \<in> {a..<min b n}" "0 < i \<and> s i \<noteq> s (i - 1)" unfolding changes_def by (elim bexE)
  then show thesis by (intro that [of i]) simp_all
qed

lemma changesI: "a \<le> i \<Longrightarrow> i < b \<Longrightarrow> i < n \<Longrightarrow> 0 < i \<Longrightarrow> s i \<noteq> s (i - 1) \<Longrightarrow> changes s a (min b n)"
  unfolding changes_def by (intro bexI [of _ i]) simp_all

lemma bex_shift: "(\<exists>i\<in>{a..<a + n}. P i) \<longleftrightarrow> (\<exists>i<n. P (a + i))" for a n :: nat
proof
  assume "\<exists>i\<in>{a..<a + n}. P i"
  then obtain i where "a \<le> i" "i < a + n" "P i" by auto
  then show "\<exists>i<n. P (a + i)" by (intro exI [of _ "i - a"]) auto
qed auto

lemma word_bit_iff: "word_bit w i \<longleftrightarrow> bit w i"
  by (auto simp: word_bit_def bit_drop_bit_eq dest: bit_imp_le_length)

lemma bit_set_word_bit: "i < 64 \<Longrightarrow> bit (set_word_bit i w) j \<longleftrightarrow> j = i \<or> bit w j"
  by (auto simp: set_word_bit_def bit_or_iff bit_exp_iff)

lemma mark_bits:
  assumes "mark g v = Some v'"
  shows "length v' = length v" "vbit v' i \<longleftrightarrow> i = g \<or> vbit v i"
proof -
  have g: "g div 64 < length v" and v': "v' = v[g div 64 := set_word_bit (g mod 64) (v ! (g div 64))]"
    using assms by (auto simp: mark_def split: if_splits)
  show "length v' = length v" by (simp add: v')
  have "i = g \<longleftrightarrow> i div 64 = g div 64 \<and> i mod 64 = g mod 64" by (metis div_mult_mod_eq)
  then show "vbit v' i \<longleftrightarrow> i = g \<or> vbit v i"
    using g by (cases "i div 64 = g div 64") (auto simp: vbit_def v' bit_set_word_bit)
qed

lemma mark_if_bits:
  assumes "g div 64 < length v"
  shows "\<exists>v'. mark_if b g v = Some v' \<and> length v' = length v \<and> (\<forall>i. vbit v' i \<longleftrightarrow> b \<and> i = g \<or> vbit v i)"
proof (cases b)
  case True
  obtain v' where v': "mark g v = Some v'" using assms by (simp add: mark_def)
  with True mark_bits [OF v'] show ?thesis by (auto simp: mark_if_def)
qed (simp add: mark_if_def)

lemma word_nonzero: "(w :: u64) \<noteq> 0 \<longleftrightarrow> (\<exists>k<64. bit w k)"
  using bit_eq_iff [of w 0] bit_imp_le_length [of w] by auto

lemma vector_word_nonzero:
  assumes "g < length v"
  shows "v ! g \<noteq> 0 \<longleftrightarrow> (\<exists>j\<in>{64 * g..<64 * g + 64}. vbit v j)"
proof -
  have "vbit v (64 * g + k) \<longleftrightarrow> bit (v ! g) k" if "k < 64" for k using assms that by (simp add: vbit_def)
  then show ?thesis unfolding word_nonzero
    by (metis atLeastLessThan_iff le_add1 le_add_diff_inverse nat_add_left_cancel_less)
qed

lemma vbit_zeros [simp]: "\<not> vbit (replicate n 0) i"
  by (auto simp: vbit_def)

lemma bit_low_mask: "bit (2 ^ n - 1 :: u64) i \<longleftrightarrow> i < n \<and> i < 64"
  by (auto simp: bit_mask_iff simp flip: mask_eq_exp_minus_1)

lemma internal_toggle_iff:
  assumes "n \<le> 64"
  shows "l1_word_has_internal_toggle w n \<longleftrightarrow> (\<exists>i<n. 0 < i \<and> bit w i \<noteq> bit w (i - 1))"
proof (cases "n \<le> 1")
  case True
  then show ?thesis by (auto simp: l1_word_has_internal_toggle_def)
next
  case False
  have "bit (valid_mask n) i \<longleftrightarrow> i < n" for i
    using assms by (auto simp: valid_mask_def bit_low_mask)
  then have "bit ((w XOR push_bit 1 w) AND (valid_mask n AND NOT 1)) i \<longleftrightarrow> i < n \<and> 0 < i \<and> bit w i \<noteq> bit w (i - 1)" for i
    using assms unfolding bit_and_iff bit_xor_iff bit_push_bit_iff bit_not_iff bit_1_iff
    by (cases "i = 0"; cases "i < n") simp_all
  then have "(w XOR push_bit 1 w) AND (valid_mask n AND NOT 1) \<noteq> 0 \<longleftrightarrow> (\<exists>i<64. i < n \<and> 0 < i \<and> bit w i \<noteq> bit w (i - 1))"
    unfolding word_nonzero by simp
  also have "\<dots> \<longleftrightarrow> (\<exists>i<n. 0 < i \<and> bit w i \<noteq> bit w (i - 1))" using assms by (meson less_le_trans)
  finally show ?thesis using False by (simp add: l1_word_has_internal_toggle_def)
qed

section \<open>The levels describe the samples\<close>

definition describes :: "nat \<Rightarrow> (nat \<Rightarrow> bool) \<Rightarrow> nat \<Rightarrow> (nat \<Rightarrow> bool) \<Rightarrow> (nat \<Rightarrow> bool) \<Rightarrow> bool" where
  "describes width s n toggle ends \<longleftrightarrow>
     (\<forall>g. (toggle g \<longleftrightarrow> g < div_ceil n width \<and> changes s (width * g) (min (width * g + width) n)) \<and>
          (ends g \<longleftrightarrow> g < div_ceil n width \<and> s (min (width * g + width) n - 1)))"

lemma record_l1_group_spec:
  assumes "0 < n" "n \<le> 64" "\<And>i. i < n \<Longrightarrow> bit w i \<longleftrightarrow> s (64 * g + i)" "entering \<longleftrightarrow> s (64 * g - 1)"
    and "g div 64 < length t" "g div 64 < length e"
  shows "\<exists>t' e'. record_l1_group g w n ((t, e), entering) = Some ((t', e'), s (64 * g + n - 1)) \<and>
    length t' = length t \<and> length e' = length e \<and>
    (\<forall>i. vbit t' i \<longleftrightarrow> i = g \<and> changes s (64 * g) (64 * g + n) \<or> vbit t i) \<and>
    (\<forall>i. vbit e' i \<longleftrightarrow> i = g \<and> s (64 * g + n - 1) \<or> vbit e i)"
proof -
  have leaving: "word_bit w (n - 1) \<longleftrightarrow> s (64 * g + n - 1)"
    using assms(1) assms(3) [of "n - 1"] by (simp add: word_bit_iff)
  have toggles: "(bit w 0 \<noteq> entering \<or> l1_word_has_internal_toggle w n) = changes s (64 * g) (64 * g + n)"
  proof -
    have "changes s (64 * g) (64 * g + n) \<longleftrightarrow> (\<exists>i<n. 0 < 64 * g + i \<and> s (64 * g + i) \<noteq> s (64 * g + i - 1))"
      unfolding changes_def by (rule bex_shift)
    also have "\<dots> \<longleftrightarrow> (0 < g \<and> s (64 * g) \<noteq> s (64 * g - 1)) \<or> (\<exists>i<n. 0 < i \<and> s (64 * g + i) \<noteq> s (64 * g + i - 1))"
      using assms(1) by (metis add.right_neutral add_gr_0 gr0I mult_pos_pos zero_less_numeral mult_is_0)
    also have "(\<exists>i<n. 0 < i \<and> s (64 * g + i) \<noteq> s (64 * g + i - 1)) \<longleftrightarrow> (\<exists>i<n. 0 < i \<and> bit w i \<noteq> bit w (i - 1))"
      using assms(3) by (metis Nat.add_diff_assoc One_nat_def Suc_leI less_imp_diff_less)
    also have "(0 < g \<and> s (64 * g) \<noteq> s (64 * g - 1)) \<longleftrightarrow> bit w 0 \<noteq> entering"
      using assms(1,4) assms(3) [of 0] by (cases "g = 0") auto
    finally show ?thesis using internal_toggle_iff [OF assms(2)] by simp
  qed
  obtain t' where t': "mark_if (changes s (64 * g) (64 * g + n)) g t = Some t'" "length t' = length t"
    "\<forall>i. vbit t' i \<longleftrightarrow> changes s (64 * g) (64 * g + n) \<and> i = g \<or> vbit t i"
    using mark_if_bits [OF assms(5)] by blast
  obtain e' where e': "mark_if (s (64 * g + n - 1)) g e = Some e'" "length e' = length e"
    "\<forall>i. vbit e' i \<longleftrightarrow> s (64 * g + n - 1) \<and> i = g \<or> vbit e i"
    using mark_if_bits [OF assms(6)] by blast
  have "record_l1_group g w n ((t, e), entering) = Some ((t', e'), s (64 * g + n - 1))"
    unfolding record_l1_group_def prod.case Let_def toggles leaving t'(1) e'(1) by simp
  with t'(2,3) e'(2,3) show ?thesis by blast
qed

text \<open>The words of the groups carry the samples.\<close>

definition word_at :: "u8 list \<Rightarrow> nat \<Rightarrow> nat \<Rightarrow> u64" where
  "word_at data n g = (if 64 * g + 64 \<le> n then from_le (slice data (g * 8) 8) else fst (partial_l1_word data g n))"

lemma packed_bit_group: "packed_bit data (64 * g + i) \<longleftrightarrow>
    8 * g + i div 8 < length data \<and> bit (data ! (8 * g + i div 8)) (i mod 8)"
proof -
  have "(64 * g + i) div 8 = 8 * g + i div 8" "(64 * g + i) mod 8 = i mod 8" by presburger+
  then show ?thesis by (simp add: packed_bit_def)
qed

lemma word_at_bits:
  assumes "n \<le> 8 * length data" "64 * g < n" "i < min 64 (n - 64 * g)"
  shows "bit (word_at data n g) i \<longleftrightarrow> packed_bit data (64 * g + i)"
proof (cases "64 * g + 64 \<le> n")
  case True
  then have "8 * g + i div 8 < length data" "i < 64" "i div 8 < 8" using assms by auto
  then show ?thesis using True
    by (auto simp: word_at_def bit_from_le slice_def packed_bit_group mult.commute [of g 8])
next
  case False
  let ?a = "min (length data - g * 8) 8"
  have "i div 8 < ?a" using assms False by auto
  moreover from this have "8 * g + i div 8 < length data" by linarith
  moreover have "i < n - 64 * g" "i < 64" "n - 64 * g < 64" using assms(3) False by auto
  moreover have "length (take ?a (drop (g * 8) data) @ replicate (8 - ?a) 0) = 8" by auto
  ultimately show ?thesis using False
    by (simp add: word_at_def partial_l1_word_def Let_def bit_and_iff bit_low_mask bit_from_le packed_bit_group
        nth_append mult.commute [of g 8] mult.commute [of g 64])
qed

lemma l1_group_words_eq:
  assumes "0 < n"
  shows "l1_group_words data n = map (\<lambda>g. (g, word_at data n g, min 64 (n - 64 * g))) [0..<div_ceil n 64]"
proof -
  have full: "map (\<lambda>g. (g, from_le (slice data (g * 8) 8), 64)) [0..<n div 64] =
      map (\<lambda>g. (g, word_at data n g, min 64 (n - 64 * g))) [0..<n div 64]"
    by (intro map_cong refl) (auto simp: word_at_def)
  show ?thesis
  proof (cases "n mod 64 = 0")
    case True
    then have "div_ceil n 64 = n div 64" by (auto simp: div_ceil_def)
    then show ?thesis using full by (simp add: l1_group_words_def Let_def)
  next
    case False
    then have "div_ceil n 64 = Suc (n div 64)" 
    proof -
      define q r where "q = n div 64" and "r = n mod 64"
      then have n: "n = 64 * q + r" "0 < r" "r < 64" using False by simp_all
      have "(64 * q + r + 64 - 1) div 64 = Suc q" using n(2,3) by (intro div_nat_eqI) simp_all
      then have "div_ceil n 64 = Suc q" unfolding div_ceil_def by (subst n(1))
      then show ?thesis by (simp only: q_def)
    qed
    moreover have "partial_l1_word data (n div 64) n = (word_at data n (n div 64), min 64 (n - 64 * (n div 64)))"
    proof -
      have "\<not> 64 * (n div 64) + 64 \<le> n" by presburger
      moreover have "snd (partial_l1_word data (n div 64) n) = min 64 (n - 64 * (n div 64))"
        by (simp add: partial_l1_word_def Let_def mult.commute [of _ 64] min.commute [of 64])
      ultimately show ?thesis by (simp add: word_at_def prod_eq_iff)
    qed
    ultimately show ?thesis using full by (simp add: l1_group_words_def Let_def)
  qed
qed

lemma record_l1_groups_spec:
  assumes "m \<le> div_ceil n 64" "\<And>g. g < m \<Longrightarrow> g div 64 < length t" "length e = length t"
    and "\<And>g i. g < m \<Longrightarrow> i < min 64 (n - 64 * g) \<Longrightarrow> bit (W g) i \<longleftrightarrow> s (64 * g + i)"
    and "\<And>g. g < m \<Longrightarrow> 64 * g < n"
    and "\<forall>i. vbit t i \<longleftrightarrow> i < k \<and> changes s (64 * i) (min (64 * i + 64) n)"
    and "\<forall>i. vbit e i \<longleftrightarrow> i < k \<and> s (min (64 * i + 64) n - 1)"
    and "entering \<longleftrightarrow> s (64 * k - 1)" "k \<le> m"
  shows "\<exists>t' e' final. record_l1_groups (map (\<lambda>g. (g, W g, min 64 (n - 64 * g))) [k..<m]) ((t, e), entering) =
      Some ((t', e'), final) \<and> length t' = length t \<and> length e' = length e \<and>
    (\<forall>i. vbit t' i \<longleftrightarrow> i < m \<and> changes s (64 * i) (min (64 * i + 64) n)) \<and>
    (\<forall>i. vbit e' i \<longleftrightarrow> i < m \<and> s (min (64 * i + 64) n - 1))"
  using assms(2-)
proof (induction "m - k" arbitrary: k t e entering)
  case 0
  then show ?case by simp
next
  case (Suc d)
  then have k: "k < m" by simp
  let ?n = "min 64 (n - 64 * k)"
  have len: "k div 64 < length t" "k div 64 < length e" using Suc.prems(1,2) k by auto
  have n: "0 < ?n" "?n \<le> 64" "64 * k + ?n = min (64 * k + 64) n" using Suc.prems(4) [OF k] by auto
  obtain t1 e1 where r: "record_l1_group k (W k) ?n ((t, e), entering) = Some ((t1, e1), s (64 * k + ?n - 1))"
    "length t1 = length t" "length e1 = length e"
    "\<forall>i. vbit t1 i \<longleftrightarrow> i = k \<and> changes s (64 * k) (64 * k + ?n) \<or> vbit t i"
    "\<forall>i. vbit e1 i \<longleftrightarrow> i = k \<and> s (64 * k + ?n - 1) \<or> vbit e i"
    using record_l1_group_spec [OF n(1,2) Suc.prems(3) [OF k] Suc.prems(7) len] by blast
  have next_entering: "s (64 * k + ?n - 1) \<longleftrightarrow> s (64 * Suc k - 1)" if "Suc k < m"
    using Suc.prems(4) [OF that] n(3) by (simp add: algebra_simps)
  have t1: "\<forall>i. vbit t1 i \<longleftrightarrow> i < Suc k \<and> changes s (64 * i) (min (64 * i + 64) n)"
    using r(4) Suc.prems(5) n(3) by (auto simp: less_Suc_eq)
  have e1: "\<forall>i. vbit e1 i \<longleftrightarrow> i < Suc k \<and> s (min (64 * i + 64) n - 1)"
    using r(5) Suc.prems(6) n(3) by (auto simp: less_Suc_eq)
  have split: "[k..<m] = k # [Suc k..<m]" using k by (rule upt_conv_Cons)
  show ?case
  proof (cases "Suc k < m")
    case True
    have "\<exists>t' e' final. record_l1_groups (map (\<lambda>g. (g, W g, min 64 (n - 64 * g))) [Suc k..<m]) ((t1, e1), s (64 * k + ?n - 1)) =
        Some ((t', e'), final) \<and> length t' = length t1 \<and> length e' = length e1 \<and>
      (\<forall>i. vbit t' i \<longleftrightarrow> i < m \<and> changes s (64 * i) (min (64 * i + 64) n)) \<and>
      (\<forall>i. vbit e' i \<longleftrightarrow> i < m \<and> s (min (64 * i + 64) n - 1))"
      using Suc.hyps(2) Suc.prems(1-4) r(2,3) t1 e1 next_entering [OF True] True
      by (intro Suc.hyps(1)) simp_all
    then show ?thesis using r(1-3) by (simp add: split)
  next
    case False
    then have "m = Suc k" using k by simp
    then show ?thesis using r(1-3) t1 e1 by (simp add: split)
  qed
qed

lemma group_starts_inside: "0 < u \<Longrightarrow> g < div_ceil n u \<longleftrightarrow> u * g < n"
  by (simp add: less_div_ceil mult.commute)

lemma div_ceil_le: "0 < u \<Longrightarrow> a \<le> b * u \<Longrightarrow> div_ceil a u \<le> b"
  using group_starts_inside [of u b a] by (simp add: not_less mult.commute)

lemma record_l2_groups_spec:
  assumes "\<And>g. g < m \<Longrightarrow> g < length (fst l1) \<and> (min ((g + 1) * 64) groups - 1) div 64 < length (snd l1)"
    and "\<And>g. g < m \<Longrightarrow> g div 64 < length t" "length e = length t" "k \<le> m"
    and "\<forall>i. vbit t i \<longleftrightarrow> i < k \<and> (\<exists>j\<in>{64 * i..<64 * i + 64}. vbit (fst l1) j)"
    and "\<forall>i. vbit e i \<longleftrightarrow> i < k \<and> vbit (snd l1) (min (64 * i + 64) groups - 1)"
  shows "\<exists>t' e'. record_l2_groups [k..<m] groups l1 (t, e) = Some (t', e') \<and> length t' = length t \<and> length e' = length e \<and>
    (\<forall>i. vbit t' i \<longleftrightarrow> i < m \<and> (\<exists>j\<in>{64 * i..<64 * i + 64}. vbit (fst l1) j)) \<and>
    (\<forall>i. vbit e' i \<longleftrightarrow> i < m \<and> vbit (snd l1) (min (64 * i + 64) groups - 1))"
  using assms(2-)
proof (induction "m - k" arbitrary: k t e)
  case 0
  then show ?case by simp
next
  case (Suc d)
  then have k: "k < m" by simp
  obtain t0 e0 where l1: "l1 = (t0, e0)" by (cases l1)
  let ?last = "min ((k + 1) * 64) groups - 1"
  have inside: "k < length t0" "?last div 64 < length e0" using assms(1) [OF k] by (simp_all add: l1)
  have len: "k div 64 < length t" "k div 64 < length e" using Suc.prems(1,2) k by auto
  have last_bit: "word_bit (e0 ! (?last div 64)) (?last mod 64) \<longleftrightarrow> vbit e0 (min (64 * k + 64) groups - 1)"
    using inside(2) by (simp add: word_bit_iff vbit_def algebra_simps)
  obtain t1 where t1: "mark_if (t0 ! k \<noteq> 0) k t = Some t1" "length t1 = length t"
    "\<forall>i. vbit t1 i \<longleftrightarrow> t0 ! k \<noteq> 0 \<and> i = k \<or> vbit t i" using mark_if_bits [OF len(1)] by blast
  obtain e1 where e1: "mark_if (word_bit (e0 ! (?last div 64)) (?last mod 64)) k e = Some e1" "length e1 = length e"
    "\<forall>i. vbit e1 i \<longleftrightarrow> word_bit (e0 ! (?last div 64)) (?last mod 64) \<and> i = k \<or> vbit e i"
    using mark_if_bits [OF len(2)] by blast
  have "\<forall>i. vbit t1 i \<longleftrightarrow> i < Suc k \<and> (\<exists>j\<in>{64 * i..<64 * i + 64}. vbit t0 j)"
    using t1(3) Suc.prems(4) vector_word_nonzero [OF inside(1)] by (auto simp: less_Suc_eq l1)
  moreover have "\<forall>i. vbit e1 i \<longleftrightarrow> i < Suc k \<and> vbit e0 (min (64 * i + 64) groups - 1)"
    using e1(3) Suc.prems(5) last_bit by (auto simp: less_Suc_eq l1)
  ultimately have "\<exists>t' e'. record_l2_groups [Suc k..<m] groups l1 (t1, e1) = Some (t', e') \<and> length t' = length t1 \<and> length e' = length e1 \<and>
      (\<forall>i. vbit t' i \<longleftrightarrow> i < m \<and> (\<exists>j\<in>{64 * i..<64 * i + 64}. vbit (fst l1) j)) \<and>
      (\<forall>i. vbit e' i \<longleftrightarrow> i < m \<and> vbit (snd l1) (min (64 * i + 64) groups - 1))"
    using Suc.hyps(2) Suc.prems(1-3) t1(2) e1(2) k l1 by (intro Suc.hyps(1)) simp_all
  moreover have "record_l2_groups [k..<m] groups l1 (t, e) = record_l2_groups [Suc k..<m] groups l1 (t1, e1)"
    using inside t1(1) e1(1) by (simp add: upt_conv_Cons [OF k] l1 Let_def)
  ultimately show ?case using t1(2) e1(2) by simp
qed

lemma record_l3_groups_spec:
  assumes "\<And>g. g < m \<Longrightarrow> g < length (fst l2) \<and> (min ((g + 1) * 64) groups - 1) div 64 < length (snd l2)"
    and "m \<le> 64" "k \<le> m"
    and "\<forall>i. bit t i \<longleftrightarrow> i < k \<and> (\<exists>j\<in>{64 * i..<64 * i + 64}. vbit (fst l2) j)"
    and "\<forall>i. bit e i \<longleftrightarrow> i < k \<and> vbit (snd l2) (min (64 * i + 64) groups - 1)"
  shows "\<exists>t' e'. record_l3_groups [k..<m] groups l2 (t, e) = Some (t', e') \<and>
    (\<forall>i. bit t' i \<longleftrightarrow> i < m \<and> (\<exists>j\<in>{64 * i..<64 * i + 64}. vbit (fst l2) j)) \<and>
    (\<forall>i. bit e' i \<longleftrightarrow> i < m \<and> vbit (snd l2) (min (64 * i + 64) groups - 1))"
  using assms(3-)
proof (induction "m - k" arbitrary: k t e)
  case 0
  then show ?case by simp
next
  case (Suc d)
  then have k: "k < m" "k < 64" using assms(2) by simp_all
  obtain t0 e0 where l2: "l2 = (t0, e0)" by (cases l2)
  let ?last = "min ((k + 1) * 64) groups - 1"
  have inside: "k < length t0" "?last div 64 < length e0" using assms(1) [OF k(1)] by (simp_all add: l2)
  have last_bit: "word_bit (e0 ! (?last div 64)) (?last mod 64) \<longleftrightarrow> vbit e0 (min (64 * k + 64) groups - 1)"
    using inside(2) by (simp add: word_bit_iff vbit_def algebra_simps)
  let ?t = "if t0 ! k \<noteq> 0 then set_word_bit k t else t"
  let ?e = "if word_bit (e0 ! (?last div 64)) (?last mod 64) then set_word_bit k e else e"
  have "\<forall>i. bit ?t i \<longleftrightarrow> i < Suc k \<and> (\<exists>j\<in>{64 * i..<64 * i + 64}. vbit t0 j)"
    using Suc.prems(2) vector_word_nonzero [OF inside(1)] bit_set_word_bit [OF k(2)] by (auto simp: less_Suc_eq l2)
  moreover have "\<forall>i. bit ?e i \<longleftrightarrow> i < Suc k \<and> vbit e0 (min (64 * i + 64) groups - 1)"
    using Suc.prems(3) last_bit bit_set_word_bit [OF k(2)] by (auto simp: less_Suc_eq l2)
  ultimately have "\<exists>t' e'. record_l3_groups [Suc k..<m] groups l2 (?t, ?e) = Some (t', e') \<and>
      (\<forall>i. bit t' i \<longleftrightarrow> i < m \<and> (\<exists>j\<in>{64 * i..<64 * i + 64}. vbit (fst l2) j)) \<and>
      (\<forall>i. bit e' i \<longleftrightarrow> i < m \<and> vbit (snd l2) (min (64 * i + 64) groups - 1))"
    using Suc.hyps(2) k l2 by (intro Suc.hyps(1)) simp_all
  moreover have "record_l3_groups [k..<m] groups l2 (t, e) = record_l3_groups [Suc k..<m] groups l2 (?t, ?e)"
    using inside by (simp add: upt_conv_Cons [OF k(1)] l2 Let_def)
  ultimately show ?case by simp
qed

text \<open>One level above: a group of groups changes when one of them does, and ends as the last of them.\<close>

lemma describes_up:
  assumes "describes u s n T E" "0 < u"
    and "\<forall>i. T' i \<longleftrightarrow> i < div_ceil (div_ceil n u) 64 \<and> (\<exists>j\<in>{64 * i..<64 * i + 64}. T j)"
    and "\<forall>i. E' i \<longleftrightarrow> i < div_ceil (div_ceil n u) 64 \<and> E (min (64 * i + 64) (div_ceil n u) - 1)"
  shows "describes (64 * u) s n T' E'" "div_ceil (div_ceil n u) 64 = div_ceil n (64 * u)"
proof -
  have groups: "g < div_ceil (div_ceil n u) 64 \<longleftrightarrow> g < div_ceil n (64 * u)" for g
    using assms(2) by (simp add: group_starts_inside algebra_simps)
  then show "div_ceil (div_ceil n u) 64 = div_ceil n (64 * u)" by (metis linorder_neqE_nat less_irrefl)
  have "(\<exists>j\<in>{64 * g..<64 * g + 64}. T j) \<longleftrightarrow> changes s (64 * u * g) (min (64 * u * g + 64 * u) n)" for g
  proof
    assume "\<exists>j\<in>{64 * g..<64 * g + 64}. T j"
    then obtain j where j: "64 * g \<le> j" "j < 64 * g + 64" "T j" by auto
    then have "changes s (u * j) (min (u * j + u) n)" using assms(1) by (simp add: describes_def)
    then obtain i where i: "u * j \<le> i" "i < u * j + u" "i < n" "0 < i" "s i \<noteq> s (i - 1)" by (rule changesE)
    have "64 * u * g \<le> u * j" using mult_le_mono2 [OF j(1), of u] by (simp add: algebra_simps)
    moreover have "u * j + u \<le> 64 * u * g + 64 * u"
      using mult_le_mono2 [of "Suc j" "64 * g + 64" u] j(2) by (simp add: algebra_simps)
    ultimately have "64 * u * g \<le> i" "i < 64 * u * g + 64 * u" using i(1,2) by linarith+
    then show "changes s (64 * u * g) (min (64 * u * g + 64 * u) n)" using i(3-5) by (rule changesI)
  next
    assume "changes s (64 * u * g) (min (64 * u * g + 64 * u) n)"
    then obtain i where i: "64 * u * g \<le> i" "i < 64 * u * g + 64 * u" "i < n" "0 < i" "s i \<noteq> s (i - 1)"
      by (rule changesE)
    have split: "u * (i div u) \<le> i" "i < u * (i div u) + u"
      using dividend_less_div_times [OF assms(2), of i] by (simp_all add: algebra_simps)
    have "64 * g \<le> i div u" using i(1) assms(2) by (simp add: less_eq_div_iff_mult_less_eq algebra_simps)
    moreover have "i div u < 64 * g + 64" using i(2) assms(2) by (simp add: div_less_iff_less_mult algebra_simps)
    moreover have "T (i div u)"
    proof -
      have "changes s (u * (i div u)) (min (u * (i div u) + u) n)" using split i(3-5) by (rule changesI)
      moreover have "i div u < div_ceil n u" unfolding group_starts_inside [OF assms(2)] using split(1) i(3) by (rule le_less_trans)
      ultimately show ?thesis using assms(1) by (simp add: describes_def)
    qed
    ultimately show "\<exists>j\<in>{64 * g..<64 * g + 64}. T j" by auto
  qed
  moreover have "E (min (64 * g + 64) (div_ceil n u) - 1) \<longleftrightarrow> s (min (64 * u * g + 64 * u) n - 1)" if "g < div_ceil n (64 * u)" for g
  proof -
    let ?j = "min (64 * g + 64) (div_ceil n u) - 1"
    have pos: "64 * u * g < n" using that assms(2) by (simp add: group_starts_inside)
    then have "64 * g < div_ceil n u" using assms(2) by (simp add: group_starts_inside algebra_simps)
    then have j: "?j < div_ceil n u" "?j + 1 = min (64 * g + 64) (div_ceil n u)" by auto
    have "min (u * ?j + u) n = min (u * (?j + 1)) n" by simp
    also have "\<dots> = min (64 * u * g + 64 * u) n"
    proof (cases "64 * g + 64 \<le> div_ceil n u")
      case True
      then show ?thesis unfolding j(2) by (simp add: algebra_simps)
    next
      case False
      then have "n \<le> u * (64 * g + 64)" using group_starts_inside [of u "64 * g + 64" n] assms(2) by simp
      moreover have "n \<le> u * div_ceil n u" using div_ceil_mult_ge [OF assms(2), of n] by (simp add: mult.commute)
      ultimately show ?thesis using False unfolding j(2) by (simp add: algebra_simps)
    qed
    finally show ?thesis using assms(1) j(1) by (auto simp: describes_def)
  qed
  ultimately show "describes (64 * u) s n T' E'"
    using assms(3,4) groups unfolding describes_def by (simp add: group_starts_inside) blast
qed

end
