(* ===== verification/Capture_Levels.thy ===== *)
theory Capture_Levels
  imports Capture_Index
begin

text \<open>
  What the capture index says of the samples: the three levels built from a packed channel describe it, a block
  without levels is constant, more samples than the vectors hold panic, and the request of a worker decodes to
  what was encoded.
\<close>

section \<open>The levels of a block\<close>

lemma level_widths: "64 * 64 = (4096::nat)" "64 * 4096 = (262144::nat)"
  by simp_all

lemma group_bound: "0 < groups \<Longrightarrow> groups \<le> 64 * words \<Longrightarrow> (min ((g + 1) * 64) groups - 1) div 64 < words" for groups :: nat
  by (rule less_mult_imp_div_less) linarith

lemma build_levels_spec:
  assumes "0 < n" "n \<le> 2 ^ 24" "n \<le> 8 * length data"
  defines "s \<equiv> packed_bit data"
  shows "\<exists>L. build_levels data n (s 0) = Some L \<and>
    describes 64 s n (vbit (cl_l1_toggle L)) (vbit (cl_l1_last L)) \<and>
    describes 4096 s n (vbit (cl_l2_toggle L)) (vbit (cl_l2_last L)) \<and>
    describes 262144 s n (bit (cl_l3_toggle L)) (bit (cl_l3_last L))"
proof -
  define G1 G2 G3 where "G1 = div_ceil n 64" and "G2 = div_ceil G1 64" and "G3 = div_ceil G2 64"
  have sizes: "0 < G1" "G1 \<le> 64 * 4096" "0 < G2" "G2 \<le> 64 * 64" "0 < G3" "G3 \<le> 64"
    using assms(1,2) by (auto simp: G1_def G2_def G3_def group_starts_inside intro!: div_ceil_le)
  have zeros: "\<not> vbit (replicate m 0) i" for m i by simp
  obtain t1 e1 final where l1: "record_l1_groups (l1_group_words data n) ((replicate L1_WORDS 0, replicate L1_WORDS 0), s 0) =
      Some ((t1, e1), final)" "length t1 = 4096" "length e1 = 4096"
    "\<forall>i. vbit t1 i \<longleftrightarrow> i < G1 \<and> changes s (64 * i) (min (64 * i + 64) n)"
    "\<forall>i. vbit e1 i \<longleftrightarrow> i < G1 \<and> s (min (64 * i + 64) n - 1)"
  proof -
    have bits: "bit (word_at data n g) i \<longleftrightarrow> s (64 * g + i)" if "g < G1" "i < min 64 (n - 64 * g)" for g i
      using word_at_bits [OF assms(3) _ that(2)] that(1) by (simp add: G1_def s_def group_starts_inside)
    have "\<exists>t' e' final. record_l1_groups (map (\<lambda>g. (g, word_at data n g, min 64 (n - 64 * g))) [0..<G1])
          ((replicate L1_WORDS 0, replicate L1_WORDS 0), s 0) = Some ((t', e'), final) \<and>
        length t' = length (replicate L1_WORDS (0::u64)) \<and> length e' = length (replicate L1_WORDS (0::u64)) \<and>
        (\<forall>i. vbit t' i \<longleftrightarrow> i < G1 \<and> changes s (64 * i) (min (64 * i + 64) n)) \<and>
        (\<forall>i. vbit e' i \<longleftrightarrow> i < G1 \<and> s (min (64 * i + 64) n - 1))"
      using bits sizes(2) assms(2) by (intro record_l1_groups_spec) (simp_all add: index_consts group_starts_inside G1_def)
    then show thesis
      using that unfolding l1_group_words_eq [OF assms(1)] G1_def by (auto simp: index_consts)
  qed
  obtain t2 e2 where l2: "record_l2_groups [0..<G2] G1 (t1, e1) (replicate L2_WORDS 0, replicate L2_WORDS 0) = Some (t2, e2)"
    "length t2 = 64" "length e2 = 64"
    "\<forall>i. vbit t2 i \<longleftrightarrow> i < G2 \<and> (\<exists>j\<in>{64 * i..<64 * i + 64}. vbit t1 j)"
    "\<forall>i. vbit e2 i \<longleftrightarrow> i < G2 \<and> vbit e1 (min (64 * i + 64) G1 - 1)"
  proof -
    have "\<exists>t' e'. record_l2_groups [0..<G2] G1 (t1, e1) (replicate L2_WORDS 0, replicate L2_WORDS 0) = Some (t', e') \<and>
        length t' = length (replicate L2_WORDS (0::u64)) \<and> length e' = length (replicate L2_WORDS (0::u64)) \<and>
        (\<forall>i. vbit t' i \<longleftrightarrow> i < G2 \<and> (\<exists>j\<in>{64 * i..<64 * i + 64}. vbit (fst (t1, e1)) j)) \<and>
        (\<forall>i. vbit e' i \<longleftrightarrow> i < G2 \<and> vbit (snd (t1, e1)) (min (64 * i + 64) G1 - 1))"
      using sizes l1(2,3) group_bound [OF sizes(1,2)] by (intro record_l2_groups_spec) (simp_all add: index_consts)
    then show thesis using that by (auto simp: index_consts)
  qed
  obtain t3 e3 where l3: "record_l3_groups [0..<G3] G2 (t2, e2) (0, 0) = Some (t3, e3)"
    "\<forall>i. bit t3 i \<longleftrightarrow> i < G3 \<and> (\<exists>j\<in>{64 * i..<64 * i + 64}. vbit t2 j)"
    "\<forall>i. bit e3 i \<longleftrightarrow> i < G3 \<and> vbit e2 (min (64 * i + 64) G2 - 1)"
  proof -
    have "\<exists>t' e'. record_l3_groups [0..<G3] G2 (t2, e2) (0, 0) = Some (t', e') \<and>
        (\<forall>i. bit t' i \<longleftrightarrow> i < G3 \<and> (\<exists>j\<in>{64 * i..<64 * i + 64}. vbit (fst (t2, e2)) j)) \<and>
        (\<forall>i. bit e' i \<longleftrightarrow> i < G3 \<and> vbit (snd (t2, e2)) (min (64 * i + 64) G2 - 1))"
      using sizes l2(2,3) group_bound [OF sizes(3,4)] by (intro record_l3_groups_spec) simp_all
    then show thesis using that by auto
  qed
  have d1: "describes 64 s n (vbit t1) (vbit e1)" using l1(4,5) by (simp add: describes_def G1_def)
  have d2: "describes 4096 s n (vbit t2) (vbit e2)" "G2 = div_ceil n 4096"
    using describes_up [OF d1 _ l2(4) [unfolded G2_def G1_def] l2(5) [unfolded G2_def G1_def]]
    by (simp_all add: level_widths G1_def G2_def)
  have d3: "describes 262144 s n (bit t3) (bit e3)"
    using describes_up(1) [OF d2(1) _ l3(2) [unfolded G3_def d2(2)] l3(3) [unfolded G3_def d2(2)]] by (simp add: level_widths)
  have "build_levels data n (s 0) = Some \<lparr>cl_l1_toggle = t1, cl_l1_last = e1, cl_l2_toggle = t2, cl_l2_last = e2,
      cl_l3_toggle = t3, cl_l3_last = e3\<rparr>"
    using l1(1) l2(1) l3(1) by (simp add: build_levels_def Let_def G1_def G2_def G3_def)
  with d1 d2(1) d3 show ?thesis by simp
qed

text \<open>The top level is empty exactly when the channel never changes.\<close>

lemma no_change_constant: "(\<forall>i<n. 0 < i \<longrightarrow> s i = s (i - 1)) \<longleftrightarrow> (\<forall>i<n. s i = s 0)" for s :: "nat \<Rightarrow> bool"
proof
  assume step: "\<forall>i<n. 0 < i \<longrightarrow> s i = s (i - 1)"
  show "\<forall>i<n. s i = s 0"
  proof (intro allI impI)
    fix i assume "i < n"
    then show "s i = s 0"
    proof (induction i)
      case (Suc i)
      then show ?case using step [rule_format, of "Suc i"] by simp
    qed simp
  qed
next
  assume same: "\<forall>i<n. s i = s 0"
  show "\<forall>i<n. 0 < i \<longrightarrow> s i = s (i - 1)"
  proof (intro allI impI)
    fix i assume "i < n" "0 < i"
    then show "s i = s (i - 1)" using same [rule_format, of i] same [rule_format, of "i - 1"] by simp
  qed
qed

lemma top_level_constant:
  assumes "describes 262144 s n (bit w) E" "n \<le> 2 ^ 24"
  shows "(w :: u64) = 0 \<longleftrightarrow> (\<forall>i<n. s i = s 0)"
proof -
  have "w \<noteq> 0 \<longleftrightarrow> (\<exists>g<64. bit w g)" by (rule word_nonzero)
  also have "\<dots> \<longleftrightarrow> (\<exists>i<n. 0 < i \<and> s i \<noteq> s (i - 1))"
  proof
    assume "\<exists>g<64. bit w g"
    then obtain g where "bit w g" by blast
    then have "changes s (262144 * g) (min (262144 * g + 262144) n)" using assms(1) by (simp add: describes_def)
    then obtain i where "i < n" "0 < i" "s i \<noteq> s (i - 1)" by (rule changesE)
    then show "\<exists>i<n. 0 < i \<and> s i \<noteq> s (i - 1)" by blast
  next
    assume "\<exists>i<n. 0 < i \<and> s i \<noteq> s (i - 1)"
    then obtain i where i: "i < n" "0 < i" "s i \<noteq> s (i - 1)" by blast
    let ?g = "i div 262144"
    have g: "262144 * ?g \<le> i" "i < 262144 * ?g + 262144" "?g < 64" using i(1) assms(2) by auto
    have "changes s (262144 * ?g) (min (262144 * ?g + 262144) n)" by (rule changesI [OF g(1,2) i])
    moreover have "?g < div_ceil n 262144" using g(1) i(1) by (simp add: group_starts_inside)
    ultimately have "bit w ?g" using assms(1) by (simp add: describes_def)
    with g(3) show "\<exists>g<64. bit w g" by blast
  qed
  finally show ?thesis using no_change_constant [of n s] by blast
qed

section \<open>Blocks beyond the vectors\<close>

lemma mark_if_length: "mark_if b g v = Some v' \<Longrightarrow> length v' = length v"
  by (auto simp: mark_if_def dest: mark_bits(1) split: if_splits)

lemma record_l1_groups_length: "record_l1_groups ws ((t, e), b) = Some ((t', e'), b') \<Longrightarrow> length t' = length t"
proof (induction ws arbitrary: t e b)
  case (Cons x ws)
  obtain g w n where x: "x = (g, w, n)" by (cases x)
  from Cons.prems obtain t1 e1 b1 where step: "record_l1_group g w n ((t, e), b) = Some ((t1, e1), b1)"
    and rest: "record_l1_groups ws ((t1, e1), b1) = Some ((t', e'), b')" by (auto simp: x split: option.splits)
  have "length t1 = length t"
    using step by (auto simp: record_l1_group_def Let_def dest: mark_if_length split: option.splits)
  with Cons.IH [OF rest] show ?case by simp
qed simp

lemma record_l2_groups_outside: "\<exists>g\<in>set gs. length (fst l1) \<le> g \<Longrightarrow> record_l2_groups gs groups l1 l2 = None"
  by (induction gs arbitrary: l2) (auto simp: Let_def split: option.splits)

lemma build_levels_outside:
  assumes "2 ^ 24 < n"
  shows "build_levels data n b = None"
proof (cases "record_l1_groups (l1_group_words data n) ((replicate L1_WORDS 0, replicate L1_WORDS 0), b)")
  case (Some r)
  then obtain t e b' where r: "r = ((t, e), b')" by (metis prod.exhaust)
  have "length t = 4096" using record_l1_groups_length [OF Some [unfolded r]] by (simp add: index_consts)
  moreover have "4096 < div_ceil (div_ceil n 64) 64" using assms by (simp add: group_starts_inside)
  ultimately have "record_l2_groups [0..<div_ceil (div_ceil n 64) 64] (div_ceil n 64) (t, e)
      (replicate L2_WORDS 0, replicate L2_WORDS 0) = None"
    by (intro record_l2_groups_outside bexI [of _ 4096]) simp_all
  then show ?thesis using Some by (simp add: build_levels_def Let_def r)
qed (simp add: build_levels_def Let_def)

section \<open>Results\<close>

lemma payload_holds:
  assumes "unat requested \<le> 8 * length data"
  shows "\<not> of_nat (min (length data * 8) (2 ^ 64 - 1)) < (requested :: u64)"
proof -
  have "unat (of_nat (min (length data * 8) (2 ^ 64 - 1)) :: u64) = min (length data * 8) (2 ^ 64 - 1)"
    by (simp add: unat_of_nat)
  moreover have "unat requested \<le> 2 ^ 64 - 1" using unsigned_less [of requested, where 'a = nat] by simp
  ultimately show ?thesis using assms by (simp add: word_less_nat_alt not_less)
qed

lemma of_u64_positive: "0 < unat (w :: u64) \<Longrightarrow> w \<noteq> 0"
  by auto

text \<open>
  C11: a block of at most 2^24 samples that the payload holds is indexed: the result carries the first and the
  last sample, it has no levels exactly when the channel is constant, and otherwise each bit of each of the
  three levels says whether the samples of its group change, the step into the group included, and at which
  level the group ends.
\<close>
theorem capture_index_levels:
  assumes "0 < unat requested" "unat requested \<le> 2 ^ 24" "unat requested \<le> 8 * length data"
  shows "\<exists>res. build_capture_index_block_from_packed sequence channel block requested data = Some (Inr res) \<and>
    cr_sequence res = sequence \<and> cr_channel res = channel \<and> cr_block res = block \<and>
    unat (cr_valid_samples res) = unat requested \<and>
    cr_first res = packed_bit data 0 \<and> cr_last res = packed_bit data (unat requested - 1) \<and>
    (case cr_levels res of
       None \<Rightarrow> \<forall>i<unat requested. packed_bit data i = packed_bit data 0
     | Some L \<Rightarrow> (\<exists>i<unat requested. packed_bit data i \<noteq> packed_bit data 0) \<and>
         describes 64 (packed_bit data) (unat requested) (vbit (cl_l1_toggle L)) (vbit (cl_l1_last L)) \<and>
         describes 4096 (packed_bit data) (unat requested) (vbit (cl_l2_toggle L)) (vbit (cl_l2_last L)) \<and>
         describes 262144 (packed_bit data) (unat requested) (bit (cl_l3_toggle L)) (bit (cl_l3_last L)))"
proof -
  obtain L where L: "build_levels data (unat requested) (packed_bit data 0) = Some L"
    "describes 64 (packed_bit data) (unat requested) (vbit (cl_l1_toggle L)) (vbit (cl_l1_last L))"
    "describes 4096 (packed_bit data) (unat requested) (vbit (cl_l2_toggle L)) (vbit (cl_l2_last L))"
    "describes 262144 (packed_bit data) (unat requested) (bit (cl_l3_toggle L)) (bit (cl_l3_last L))"
    using build_levels_spec [OF assms] by blast
  have small: "\<not> 2 ^ 32 \<le> unat requested" using assms(2) by simp
  have built: "build_capture_index_block_from_packed sequence channel block requested data =
      Some (Inr \<lparr>cr_sequence = sequence, cr_channel = channel, cr_block = block, cr_valid_samples = ucast requested,
        cr_first = packed_bit data 0, cr_last = packed_bit data (unat requested - 1),
        cr_levels = if cl_l3_toggle L \<noteq> 0 then Some L else None\<rparr>)"
    unfolding build_capture_index_block_from_packed_def Let_def
    using payload_holds [OF assms(3)] small of_u64_positive [OF assms(1)] L(1) by simp
  have "unat (ucast requested :: u32) = unat requested"
    using assms(2) by (simp add: unsigned_ucast_eq take_bit_nat_eq_self)
  moreover define C where "C \<longleftrightarrow> (\<forall>i<unat requested. packed_bit data i = packed_bit data 0)"
  moreover have "(\<exists>i<unat requested. packed_bit data i \<noteq> packed_bit data 0) \<longleftrightarrow> \<not> C" unfolding C_def by blast
  moreover have "cl_l3_toggle L = 0 \<longleftrightarrow> C" unfolding C_def by (rule top_level_constant [OF L(4) assms(2)])
  ultimately show ?thesis
    unfolding C_def [symmetric] using built L(2-4) by (cases "cl_l3_toggle L = 0") simp_all
qed

theorem capture_index_levels_witness:
  "0 < unat (16 :: u64) \<and> unat (16 :: u64) \<le> 8 * length [0xF0, 0xAA :: u8] \<and>
   (\<exists>res L. build_capture_index_block_from_packed 9 3 7 16 [0xF0, 0xAA] = Some (Inr res) \<and>
     \<not> cr_first res \<and> cr_last res \<and> cr_levels res = Some L \<and> vbit (cl_l1_toggle L) 0 \<and> bit (cl_l3_last L) 0)"
proof -
  let ?s = "packed_bit [0xF0, 0xAA]"
  have u: "unat (16 :: u64) = 16" by simp
  have fits: "0 < unat (16 :: u64)" "unat (16 :: u64) \<le> 2 ^ 24" "unat (16 :: u64) \<le> 8 * length [0xF0, 0xAA :: u8]" by simp_all
  obtain res where res: "build_capture_index_block_from_packed 9 3 7 16 [0xF0, 0xAA] = Some (Inr res)"
    "cr_first res = ?s 0" "cr_last res = ?s (16 - 1)"
    "case cr_levels res of
       None \<Rightarrow> \<forall>i<16. ?s i = ?s 0
     | Some L \<Rightarrow> (\<exists>i<16. ?s i \<noteq> ?s 0) \<and> describes 64 ?s 16 (vbit (cl_l1_toggle L)) (vbit (cl_l1_last L)) \<and>
         describes 4096 ?s 16 (vbit (cl_l2_toggle L)) (vbit (cl_l2_last L)) \<and>
         describes 262144 ?s 16 (bit (cl_l3_toggle L)) (bit (cl_l3_last L))"
    using capture_index_levels [OF fits, of 9 3 7, unfolded u] by blast
  have bits: "\<not> ?s 0" "\<not> ?s 3" "?s 4" "?s 15" by (simp_all add: packed_bit_def)
  obtain L where L: "cr_levels res = Some L" using res(4) bits(1,3) by (cases "cr_levels res") auto
  have "vbit (cl_l1_toggle L) 0 \<longleftrightarrow> changes ?s 0 (min 64 16)" "bit (cl_l3_last L) 0 \<longleftrightarrow> ?s 15"
    using res(4) by (simp_all add: L describes_def group_starts_inside)
  moreover have "changes ?s 0 (min 64 16)" using bits(2,3) by (intro changesI [of _ 4]) simp_all
  ultimately show ?thesis using res(1-3) bits L by simp
qed

text \<open>
  C23: a block of more than 2^24 samples passes the limit of the kernel as long as it has fewer than 2^32
  samples, and then panics.
\<close>
theorem capture_index_panics:
  assumes "2 ^ 24 < unat requested" "unat requested < 2 ^ 32" "unat requested \<le> 8 * length data"
  shows "build_capture_index_block_from_packed sequence channel block requested data = None"
proof -
  have "\<not> 2 ^ 32 \<le> unat requested" "requested \<noteq> 0" using assms(1,2) by auto
  then show ?thesis
    unfolding build_capture_index_block_from_packed_def Let_def
    using payload_holds [OF assms(3)] build_levels_outside [OF assms(1)] by simp
qed

theorem capture_index_panics_witness:
  "build_capture_index_block_from_packed 0 0 0 16777217 (replicate 2097153 0) = None"
  by (rule capture_index_panics, simp, simp, unfold length_replicate, simp)

section \<open>The worker's request\<close>

text \<open>The layout of a request's payload: four coordinates, then the counted samples.\<close>

definition encode_capture_index_request :: "capture_index_block_request \<Rightarrow> u8 list" where
  "encode_capture_index_request q =
     to_le 8 (cq_sequence q) @ to_le 8 (cq_channel q) @ to_le 8 (cq_block q) @ to_le 8 (cq_valid_samples q) @
     to_le 8 (of_nat (length (cq_packed_samples q)) :: u64) @ cq_packed_samples q"

lemma reader_take_at:
  assumes "length pre + length xs < 2 ^ 64"
  shows "reader_take (length xs) \<lparr>pr_payload = pre @ xs @ suf, pr_cursor = length pre\<rparr> =
    Inr (xs, \<lparr>pr_payload = pre @ xs @ suf, pr_cursor = length pre + length xs\<rparr>)"
  using assms by (simp add: reader_take_def usize_checked_add_def slice_def)

lemma reader_u64_at:
  assumes "length pre + 8 < 2 ^ 64"
  shows "reader_u64 \<lparr>pr_payload = pre @ to_le 8 w @ suf, pr_cursor = length pre\<rparr> =
    Inr (w, \<lparr>pr_payload = (pre @ to_le 8 w) @ suf, pr_cursor = length (pre @ to_le 8 w)\<rparr>)"
  using reader_take_at [of pre "to_le 8 w" suf] assms by (simp add: reader_u64_def from_le_to_le)

text \<open>
  The worker decodes a request to what was encoded, and rejects it when a byte follows: nothing of the
  payload is ignored.
\<close>
lemma capture_request_round_trip:
  assumes "40 + length (cq_packed_samples q) + length extra < 2 ^ 64"
  shows "decode_capture_index_request (encode_capture_index_request q @ extra) =
    (if extra = [] then Inr q else Inl TrailingBytes)"
proof -
  obtain a b c v xs where q: "q = \<lparr>cq_sequence = a, cq_channel = b, cq_block = c, cq_valid_samples = v, cq_packed_samples = xs\<rparr>"
    by (cases q)
  let ?n = "of_nat (length xs) :: u64"
  let ?p4 = "to_le 8 a @ to_le 8 b @ to_le 8 c @ to_le 8 v"
  have len: "length xs < 2 ^ 64" "unat ?n = length xs" using assms by (simp_all add: q unat_of_nat)
  show ?thesis
    using assms reader_u64_at [of "[]" a] reader_u64_at [of "to_le 8 a" b] reader_u64_at [of "to_le 8 a @ to_le 8 b" c]
      reader_u64_at [of "to_le 8 a @ to_le 8 b @ to_le 8 c" v] reader_u64_at [of ?p4 ?n "xs @ extra"]
      reader_take_at [of "?p4 @ to_le 8 ?n" xs extra] len
    by (simp add: encode_capture_index_request_def decode_capture_index_request_def reader_bytes_def reader_finish_def q)
qed

lemma capture_request_round_trip_example:
  "decode_capture_index_request (encode_capture_index_request
      \<lparr>cq_sequence = 9, cq_channel = 3, cq_block = 7, cq_valid_samples = 16, cq_packed_samples = [0xF0, 0xAA]\<rparr> @ [0]) =
    Inl TrailingBytes"
  by (subst capture_request_round_trip) simp_all

end
