(* ===== verification/Capture_Policy.thy ===== *)
theory Capture_Policy
  imports Ordered_Map
begin

text \<open>
  Capture policies, \<^verbatim>\<open>crates/signal_capture_session/src/capture_policy.rs\<close>: what a recording starts at, keeps and
  ends with, the negotiation of a request against what a provider supports, and the tracker that bounds what
  may be reclaimed. A duration is its number of nanoseconds.
\<close>

section \<open>Policies\<close>

type_synonym duration = nat



datatype recording_start = Immediate | Trigger

datatype capture_policy_error = Invalid string | Unsupported string | UnsafeReclamation u64 u64

type_synonym 'a policy_result = "capture_policy_error + 'a"

datatype capture_fraction = CaptureFraction (parts: u16)

definition DENOMINATOR :: u16 where "DENOMINATOR = 10000"

definition fraction_new :: "u16 \<Rightarrow> capture_fraction policy_result" where
  "fraction_new p =
     (if DENOMINATOR < p then Inl (Invalid ''capture fraction must be within 0..=10000'') else Inr (CaptureFraction p))"

definition from_percent :: "u8 \<Rightarrow> capture_fraction policy_result" where
  "from_percent percent = fraction_new (ucast percent * 100)"

definition percent_floor :: "capture_fraction \<Rightarrow> u8" where
  "percent_floor f = ucast (parts f div 100)"

definition samples_of :: "capture_fraction \<Rightarrow> u64 \<Rightarrow> u64" where
  "samples_of f samples = of_nat (unat samples * unat (parts f) div unat DENOMINATOR)"

definition fraction_default :: capture_fraction where
  "fraction_default = CaptureFraction (DENOMINATOR div 2)"

datatype trigger_placement = Fraction capture_fraction | SamplesBefore u64 | DurationBefore duration

datatype retention_policy = Everything | RecentDuration duration | RecentBytes u64 | DeviceManaged

datatype completion_policy = UntilStopped | DurationAfterOrigin duration | SamplesAfterOrigin u64

datatype trigger_timeout_action = ContinueWaiting | Stop | ForceTrigger

record trigger_timeout =
  tt_after :: duration
  tt_action :: trigger_timeout_action

record capture_policy =
  cp_start :: recording_start
  cp_trigger_placement :: "trigger_placement option"
  cp_retention_before_origin :: retention_policy
  cp_retention_after_origin :: retention_policy
  cp_completion :: completion_policy
  cp_trigger_timeout :: "trigger_timeout option"

definition capture_policy_default :: capture_policy where
  "capture_policy_default =
     \<lparr>cp_start = Immediate, cp_trigger_placement = None, cp_retention_before_origin = Everything,
      cp_retention_after_origin = Everything, cp_completion = UntilStopped, cp_trigger_timeout = None\<rparr>"

datatype retention_policy_kind = Kind_Everything | Kind_RecentDuration | Kind_RecentBytes | Kind_DeviceManaged

fun retention_kind :: "retention_policy \<Rightarrow> retention_policy_kind" where
  "retention_kind Everything = Kind_Everything"
| "retention_kind (RecentDuration _) = Kind_RecentDuration"
| "retention_kind (RecentBytes _) = Kind_RecentBytes"
| "retention_kind DeviceManaged = Kind_DeviceManaged"

datatype completion_policy_kind = Kind_UntilStopped | Kind_DurationAfterOrigin | Kind_SamplesAfterOrigin

fun completion_kind :: "completion_policy \<Rightarrow> completion_policy_kind" where
  "completion_kind UntilStopped = Kind_UntilStopped"
| "completion_kind (DurationAfterOrigin _) = Kind_DurationAfterOrigin"
| "completion_kind (SamplesAfterOrigin _) = Kind_SamplesAfterOrigin"

datatype trigger_placement_capability =
    Placement_Unsupported
  | Placement_Fixed trigger_placement
  | SelectableFraction capture_fraction capture_fraction capture_fraction u64

record capture_policy_capabilities =
  cc_recording_starts :: "recording_start list"
  cc_retention :: "retention_policy_kind list"
  cc_completion :: "completion_policy_kind list"
  cc_trigger_placement :: trigger_placement_capability
  cc_trigger_timeout_actions :: "trigger_timeout_action list"

record capture_policy_context =
  cx_sample_rate_hz :: u64
  cx_capture_window_samples :: "u64 option"
  cx_has_trigger_program :: bool

record effective_capture_policy =
  ep_requested :: capture_policy
  ep_effective :: capture_policy


section \<open>Text of the messages\<close>

text \<open>A duration prints in its largest unit, its fraction without trailing zeros.\<close>

definition pad_left :: "nat \<Rightarrow> string \<Rightarrow> string" where
  "pad_left n s = replicate (n - length s) (CHR ''0'') @ s"

definition trim_zeros :: "string \<Rightarrow> string" where
  "trim_zeros s = rev (dropWhile ((=) (CHR ''0'')) (rev s))"

definition fmt_decimal :: "nat \<Rightarrow> nat \<Rightarrow> nat \<Rightarrow> string \<Rightarrow> string" where
  "fmt_decimal whole fractional digits unit_text =
     (let tail = trim_zeros (pad_left digits (show_nat fractional))
      in show_nat whole @ (if tail = [] then [] else CHR ''.'' # tail) @ unit_text)"

definition debug_duration :: "duration \<Rightarrow> string" where
  "debug_duration d =
     (let secs = d div 10 ^ 9; nanos = d mod 10 ^ 9
      in if 0 < secs then fmt_decimal secs nanos 9 ''s''
         else if 10 ^ 6 \<le> nanos then fmt_decimal (nanos div 10 ^ 6) (nanos mod 10 ^ 6) 6 ''ms''
         else if 10 ^ 3 \<le> nanos then fmt_decimal (nanos div 10 ^ 3) (nanos mod 10 ^ 3) 3 (map char_of [0xC2, 0xB5 :: nat] @ ''s'')
         else show_nat nanos @ ''ns'')"

definition debug_start :: "recording_start \<Rightarrow> string" where
  "debug_start s = (case s of Immediate \<Rightarrow> ''Immediate'' | Trigger \<Rightarrow> ''Trigger'')"

definition debug_retention :: "retention_policy \<Rightarrow> string" where
  "debug_retention r =
     (case r of
        Everything \<Rightarrow> ''Everything''
      | RecentDuration d \<Rightarrow> ''RecentDuration('' @ debug_duration d @ '')''
      | RecentBytes n \<Rightarrow> ''RecentBytes('' @ show_nat (unat n) @ '')''
      | DeviceManaged \<Rightarrow> ''DeviceManaged'')"

definition debug_completion :: "completion_policy \<Rightarrow> string" where
  "debug_completion c =
     (case c of
        UntilStopped \<Rightarrow> ''UntilStopped''
      | DurationAfterOrigin d \<Rightarrow> ''DurationAfterOrigin('' @ debug_duration d @ '')''
      | SamplesAfterOrigin n \<Rightarrow> ''SamplesAfterOrigin('' @ show_nat (unat n) @ '')'')"

definition debug_action :: "trigger_timeout_action \<Rightarrow> string" where
  "debug_action a = (case a of ContinueWaiting \<Rightarrow> ''ContinueWaiting'' | Stop \<Rightarrow> ''Stop'' | ForceTrigger \<Rightarrow> ''ForceTrigger'')"

definition debug_placement :: "trigger_placement \<Rightarrow> string" where
  "debug_placement p =
     (case p of
        Fraction f \<Rightarrow> ''Fraction(CaptureFraction('' @ show_nat (unat (parts f)) @ ''))''
      | SamplesBefore n \<Rightarrow> ''SamplesBefore('' @ show_nat (unat n) @ '')''
      | DurationBefore d \<Rightarrow> ''DurationBefore('' @ debug_duration d @ '')'')"

definition policy_error_text :: "capture_policy_error \<Rightarrow> string" where
  "policy_error_text e =
     (case e of
        Invalid m \<Rightarrow> ''invalid capture policy: '' @ m
      | Unsupported m \<Rightarrow> ''unsupported capture policy: '' @ m
      | UnsafeReclamation requested safe \<Rightarrow>
          ''cannot reclaim to sample '' @ show_nat (unat requested) @ ''; the safe boundary is '' @ show_nat (unat safe))"

section \<open>Capabilities\<close>

definition capabilities_new :: "recording_start list \<Rightarrow> retention_policy_kind list \<Rightarrow> completion_policy_kind list \<Rightarrow>
    trigger_placement_capability \<Rightarrow> trigger_timeout_action list \<Rightarrow> capture_policy_capabilities policy_result" where
  "capabilities_new starts retention completion placement actions =
     (if starts = [] \<or> retention = [] \<or> completion = []
      then Inl (Invalid ''capture-policy capabilities require start, retention, and completion choices'')
      else if (case placement of
                 SelectableFraction minimum maximum step sample_alignment \<Rightarrow>
                   parts maximum < parts minimum \<or> parts step = 0 \<or> sample_alignment = 0
               | _ \<Rightarrow> False)
      then Inl (Invalid ''selectable trigger placement has an invalid range or alignment'')
      else Inr \<lparr>cc_recording_starts = starts, cc_retention = retention, cc_completion = completion,
                 cc_trigger_placement = placement, cc_trigger_timeout_actions = actions\<rparr>)"

definition finite_default :: "capture_policy_capabilities policy_result" where
  "finite_default =
     capabilities_new [Immediate, Trigger] [Kind_Everything] [Kind_DurationAfterOrigin, Kind_SamplesAfterOrigin]
       (Placement_Fixed (Fraction fraction_default)) [ContinueWaiting, Stop]"

definition continuous_default :: "capture_policy_capabilities policy_result" where
  "continuous_default =
     and_then (fraction_new 0) (\<lambda>zero.
       capabilities_new [Immediate, Trigger] [Kind_Everything, Kind_RecentDuration, Kind_RecentBytes]
         [Kind_UntilStopped, Kind_DurationAfterOrigin, Kind_SamplesAfterOrigin]
         (Placement_Fixed (Fraction zero)) [ContinueWaiting, Stop, ForceTrigger])"

section \<open>Durations and boundaries in samples\<close>

definition duration_to_samples :: "duration \<Rightarrow> u64 \<Rightarrow> u64 policy_result" where
  "duration_to_samples d sample_rate_hz =
     (if 2 ^ 128 \<le> d * unat sample_rate_hz then Inl (Invalid ''duration-to-samples overflow'')
      else let samples = div_ceil (d * unat sample_rate_hz) (10 ^ 9)
           in if 2 ^ 64 \<le> samples then Inl (Invalid ''duration is too long'') else Inr (of_nat samples))"

definition retention_boundary :: "retention_policy \<Rightarrow> u64 \<Rightarrow> u64 \<Rightarrow> u64 \<Rightarrow> u64 \<Rightarrow> u64" where
  "retention_boundary policy extent_samples committed_samples committed_bytes sample_rate_hz =
     (case policy of
        Everything \<Rightarrow> 0
      | DeviceManaged \<Rightarrow> 0
      | RecentDuration d \<Rightarrow>
          saturating_sub extent_samples
            (case duration_to_samples d sample_rate_hz of Inl _ \<Rightarrow> - 1 | Inr samples \<Rightarrow> samples)
      | RecentBytes bytes \<Rightarrow>
          if committed_bytes = 0 then 0
          else saturating_sub extent_samples (of_nat (unat bytes * unat committed_samples div unat committed_bytes)))"
section \<open>Negotiation\<close>

text \<open>Rounding up divisions of words; the divisors, a step and an alignment, are not zero in validated capabilities.\<close>

definition word_div_ceil :: "'a::len word \<Rightarrow> 'a word \<Rightarrow> 'a word" where
  "word_div_ceil a b = of_nat (div_ceil (unat a) (unat b))"

definition requested_samples :: "trigger_placement \<Rightarrow> u64 \<Rightarrow> u64 \<Rightarrow> u64 policy_result" where
  "requested_samples p window sample_rate_hz =
     (case p of
        Fraction f \<Rightarrow> Inr (samples_of f window)
      | SamplesBefore n \<Rightarrow> Inr n
      | DurationBefore d \<Rightarrow> duration_to_samples d sample_rate_hz)"

definition stepped_parts :: "u16 \<Rightarrow> u16 \<Rightarrow> u16 \<Rightarrow> u16 \<Rightarrow> u16" where
  "stepped_parts fraction_parts minimum maximum step =
     (let relative = fraction_parts - minimum in min (minimum + word_div_ceil relative step * step) maximum)"

definition select_placement :: "capture_fraction \<Rightarrow> capture_fraction \<Rightarrow> capture_fraction \<Rightarrow> u64 \<Rightarrow> u64 \<Rightarrow> u64 \<Rightarrow>
    trigger_placement option policy_result" where
  "select_placement minimum maximum step sample_alignment window samples =
     (if window < samples then Inl (Invalid ''trigger placement exceeds the finite capture window'')
      else
        let fraction_parts = of_nat (unat samples * unat DENOMINATOR div unat window) :: u16
        in if fraction_parts < parts minimum \<or> parts maximum < fraction_parts
           then Inl (Unsupported (''trigger placement lies outside '' @ show_nat (unat (parts minimum)) @ ''..='' @
                  show_nat (unat (parts maximum)) @ '' parts''))
           else and_then (fraction_new (stepped_parts fraction_parts (parts minimum) (parts maximum) (parts step))) (\<lambda>fraction.
             Inr (Some (SamplesBefore
               (min (saturating_mul (word_div_ceil (samples_of fraction window) sample_alignment) sample_alignment) window)))))"

definition negotiate_trigger_placement :: "capture_policy_capabilities \<Rightarrow> capture_policy \<Rightarrow> capture_policy_context \<Rightarrow>
    trigger_placement option policy_result" where
  "negotiate_trigger_placement caps requested context =
     (if cp_start requested = Immediate
      then if cp_trigger_placement requested \<noteq> None
           then Inl (Invalid ''immediate recording cannot request trigger placement'') else Inr None
      else
        case cc_trigger_placement caps of
          Placement_Unsupported \<Rightarrow>
            if cp_trigger_placement requested \<noteq> None
            then Inl (Unsupported ''trigger placement is not supported'') else Inr None
        | Placement_Fixed fixed \<Rightarrow>
            if cp_trigger_placement requested \<noteq> None \<and> cp_trigger_placement requested \<noteq> Some fixed
            then Inl (Unsupported (''trigger placement is fixed at '' @ debug_placement fixed)) else Inr (Some fixed)
        | SelectableFraction minimum maximum step sample_alignment \<Rightarrow>
            (case cp_trigger_placement requested of
               None \<Rightarrow> Inl (Invalid ''triggered recording requires a trigger placement'')
             | Some placement \<Rightarrow>
                 (case cx_capture_window_samples context of
                    None \<Rightarrow> Inl (Invalid ''selectable trigger placement requires a finite capture window'')
                  | Some window \<Rightarrow>
                      if window = 0 \<or> cx_sample_rate_hz context = 0
                      then Inl (Invalid ''capture window and sample rate must be non-zero'')
                      else and_then (requested_samples placement window (cx_sample_rate_hz context))
                        (select_placement minimum maximum step sample_alignment window))))"

definition check_retention :: "capture_policy_capabilities \<Rightarrow> retention_policy \<Rightarrow> unit policy_result" where
  "check_retention caps retention =
     (if retention_kind retention \<notin> set (cc_retention caps)
      then Inl (Unsupported (''retention policy '' @ debug_retention retention @ '' is not supported''))
      else if retention = RecentDuration 0 then Inl (Invalid ''retained duration must be non-zero'')
      else if retention = RecentBytes 0 then Inl (Invalid ''retained byte count must be non-zero'')
      else Inr ())"

definition check_completion :: "capture_policy_capabilities \<Rightarrow> completion_policy \<Rightarrow> unit policy_result" where
  "check_completion caps completion =
     (if completion_kind completion \<notin> set (cc_completion caps)
      then Inl (Unsupported (''completion policy '' @ debug_completion completion @ '' is not supported''))
      else if completion = DurationAfterOrigin 0 then Inl (Invalid ''completion duration must be non-zero'')
      else if completion = SamplesAfterOrigin 0 then Inl (Invalid ''completion sample count must be non-zero'')
      else Inr ())"

definition check_timeout :: "capture_policy_capabilities \<Rightarrow> capture_policy \<Rightarrow> unit policy_result" where
  "check_timeout caps requested =
     (case cp_trigger_timeout requested of
        None \<Rightarrow> Inr ()
      | Some timeout \<Rightarrow>
          if cp_start requested \<noteq> Trigger then Inl (Invalid ''a trigger timeout requires triggered recording'')
          else if tt_after timeout = 0 then Inl (Invalid ''trigger timeout must be non-zero'')
          else if tt_action timeout \<notin> set (cc_trigger_timeout_actions caps)
          then Inl (Unsupported (''trigger-timeout action '' @ debug_action (tt_action timeout) @ '' is not supported''))
          else Inr ())"

definition negotiate :: "capture_policy_capabilities \<Rightarrow> capture_policy \<Rightarrow> capture_policy_context \<Rightarrow>
    effective_capture_policy policy_result" where
  "negotiate caps requested context =
     (if cp_start requested \<notin> set (cc_recording_starts caps)
      then Inl (Unsupported (''recording start '' @ debug_start (cp_start requested) @ '' is not supported''))
      else if cp_start requested = Trigger \<and> \<not> cx_has_trigger_program context
      then Inl (Invalid ''triggered recording requires an active trigger program'')
      else
        and_then (check_retention caps (cp_retention_before_origin requested)) (\<lambda>_.
        and_then (check_retention caps (cp_retention_after_origin requested)) (\<lambda>_.
        and_then (check_completion caps (cp_completion requested)) (\<lambda>_.
        and_then (check_timeout caps requested) (\<lambda>_.
        and_then (negotiate_trigger_placement caps requested context) (\<lambda>placement.
          Inr \<lparr>ep_requested = requested, ep_effective = requested\<lparr>cp_trigger_placement := placement\<rparr>\<rparr>))))))"

section \<open>Effective policies and plans\<close>





section \<open>The retention tracker\<close>

type_synonym retention_pin = u64

record retention_tracker =
  rt_sample_rate_hz :: u64
  rt_before :: retention_policy
  rt_after :: retention_policy
  rt_retained_start_sample :: u64
  rt_next_pin :: u64
  rt_pins :: "(retention_pin, u64) btree_map"

definition tracker_new :: "u64 \<Rightarrow> retention_policy \<Rightarrow> retention_policy \<Rightarrow> retention_tracker policy_result" where
  "tracker_new sample_rate_hz before after =
     (if sample_rate_hz = 0 then Inl (Invalid ''retention tracking requires a non-zero sample rate'')
      else Inr \<lparr>rt_sample_rate_hz = sample_rate_hz, rt_before = before, rt_after = after,
                 rt_retained_start_sample = 0, rt_next_pin = 1, rt_pins = []\<rparr>)"

definition pin_from :: "u64 \<Rightarrow> retention_tracker \<Rightarrow> retention_pin \<times> retention_tracker" where
  "pin_from sample t =
     (rt_next_pin t, t\<lparr>rt_next_pin := saturating_add (rt_next_pin t) 1, rt_pins := btree_insert (rt_next_pin t) sample (rt_pins t)\<rparr>)"

definition update_pin :: "retention_pin \<Rightarrow> u64 \<Rightarrow> retention_tracker \<Rightarrow> bool \<times> retention_tracker" where
  "update_pin pin sample t =
     (case map_of (rt_pins t) pin of
        None \<Rightarrow> (False, t)
      | Some _ \<Rightarrow> (True, t\<lparr>rt_pins := btree_insert pin sample (rt_pins t)\<rparr>))"

definition unpin :: "retention_pin \<Rightarrow> retention_tracker \<Rightarrow> bool \<times> retention_tracker" where
  "unpin pin t = (map_of (rt_pins t) pin \<noteq> None, t\<lparr>rt_pins := btree_remove pin (rt_pins t)\<rparr>)"

definition policy_boundary :: "retention_tracker \<Rightarrow> u64 \<Rightarrow> u64 \<Rightarrow> u64 option \<Rightarrow> u64" where
  "policy_boundary t committed_samples committed_bytes recording_origin =
     (let boundary = \<lambda>policy extent. retention_boundary policy extent committed_samples committed_bytes (rt_sample_rate_hz t)
      in case recording_origin of
           None \<Rightarrow> boundary (rt_before t) committed_samples
         | Some origin \<Rightarrow>
             if origin = 0 then boundary (rt_after t) committed_samples
             else min (boundary (rt_before t) origin)
               (saturating_add origin (boundary (rt_after t) (saturating_sub committed_samples origin))))"

definition safe_reclaim_before :: "retention_tracker \<Rightarrow> u64 \<Rightarrow> u64 \<Rightarrow> u64 option \<Rightarrow> u64" where
  "safe_reclaim_before t committed_samples committed_bytes recording_origin =
     (let boundary = policy_boundary t committed_samples committed_bytes recording_origin;
          pinned = (if rt_pins t = [] then boundary else min boundary (Min (snd ` set (rt_pins t))))
      in max pinned (rt_retained_start_sample t))"

definition record_reclaimed_to :: "u64 \<Rightarrow> u64 \<Rightarrow> u64 \<Rightarrow> u64 option \<Rightarrow> retention_tracker \<Rightarrow>
    unit policy_result \<times> retention_tracker" where
  "record_reclaimed_to requested committed_samples committed_bytes recording_origin t =
     (let safe = safe_reclaim_before t committed_samples committed_bytes recording_origin
      in if requested < rt_retained_start_sample t \<or> safe < requested
         then (Inl (UnsafeReclamation requested safe), t)
         else (Inr (), t\<lparr>rt_retained_start_sample := requested\<rparr>))"
section \<open>Reclaiming\<close>

lemmas tracker_defs = record_reclaimed_to_def safe_reclaim_before_def policy_boundary_def retention_boundary_def
  duration_to_samples_def div_ceil_def saturating_sub_def pin_from_def Let_def

text \<open>
  The calls on a tracker, of consumers that pin samples which are still there.
\<close>

inductive tracker_step :: "retention_tracker \<Rightarrow> retention_tracker \<Rightarrow> bool" where
  step_pin: "rt_retained_start_sample t \<le> sample \<Longrightarrow> tracker_step t (snd (pin_from sample t))"
| step_update: "rt_retained_start_sample t \<le> sample \<Longrightarrow> tracker_step t (snd (update_pin pin sample t))"
| step_unpin: "tracker_step t (snd (unpin pin t))"
| step_reclaim: "tracker_step t (snd (record_reclaimed_to requested samples bytes origin t))"

definition tracker_ok :: "retention_tracker \<Rightarrow> bool" where
  "tracker_ok t \<longleftrightarrow> increasing (rt_pins t) \<and> (\<forall>sample\<in>snd ` set (rt_pins t). rt_retained_start_sample t \<le> sample) \<and>
     (rt_next_pin t = - 1 \<or> (\<forall>pin\<in>fst ` set (rt_pins t). pin < rt_next_pin t))"

lemma set_btree_insert_sub: "set (btree_insert k v m) \<subseteq> insert (k, v) (set m)"
  by (induction k v m rule: btree_insert.induct) auto

lemma set_btree_remove_sub: "set (btree_remove k m) \<subseteq> set m"
  by (auto simp: btree_remove_def)

lemma accepted_reclaim:
  assumes "record_reclaimed_to r cs cb origin t = (Inr (), t')" "rt_retained_start_sample t < r"
  shows "r \<le> policy_boundary t cs cb origin" "\<forall>sample\<in>snd ` set (rt_pins t). r \<le> sample"
proof -
  have "r \<le> safe_reclaim_before t cs cb origin"
    using assms(1) by (auto simp: record_reclaimed_to_def Let_def split: if_splits)
  with assms(2) have "r \<le> (if rt_pins t = [] then policy_boundary t cs cb origin
      else min (policy_boundary t cs cb origin) (Min (snd ` set (rt_pins t))))"
    by (auto simp: safe_reclaim_before_def Let_def max_def split: if_splits)
  then show "r \<le> policy_boundary t cs cb origin" "\<forall>sample\<in>snd ` set (rt_pins t). r \<le> sample"
    by (auto split: if_splits)
qed

lemma next_pin_fresh: "k \<le> n \<Longrightarrow> saturating_add n 1 \<noteq> - 1 \<Longrightarrow> k < saturating_add n 1" for k n :: u64
proof -
  assume "k \<le> n" "saturating_add n 1 \<noteq> - 1"
  then have "unat n + 1 < 2 ^ 64" by (auto simp: saturating_add_def split: if_splits)
  then have "unat (saturating_add n 1) = unat n + 1" by (simp add: sat_simps)
  with \<open>k \<le> n\<close> show ?thesis by (simp add: word_less_nat_alt word_le_nat_alt)
qed

lemma tracker_step_ok:
  assumes "tracker_step t t'" "tracker_ok t"
  shows "tracker_ok t'" "rt_retained_start_sample t \<le> rt_retained_start_sample t'"
proof -
  have "tracker_ok t' \<and> rt_retained_start_sample t \<le> rt_retained_start_sample t'"
    using assms
  proof (induction rule: tracker_step.induct)
    case (step_pin t sample)
    let ?m = "btree_insert (rt_next_pin t) sample (rt_pins t)"
    have inc: "increasing (rt_pins t)" using step_pin.prems by (simp add: tracker_ok_def)
    have samples: "\<forall>x\<in>snd ` set ?m. rt_retained_start_sample t \<le> x"
      using set_btree_insert_sub [of "rt_next_pin t" sample "rt_pins t"] step_pin by (auto simp: tracker_ok_def)
    have "\<forall>pin\<in>fst ` set ?m. pin < saturating_add (rt_next_pin t) 1" if "saturating_add (rt_next_pin t) 1 \<noteq> - 1"
    proof -
      have "rt_next_pin t \<noteq> - 1" using that saturating_add_ge [of "rt_next_pin t" 1] by (auto dest: word_order.extremum_uniqueI)
      then have "\<forall>pin\<in>fst ` set ?m. pin \<le> rt_next_pin t"
        using step_pin.prems by (auto simp: btree.insert_keys [OF inc] tracker_ok_def intro: less_imp_le)
      then show ?thesis using next_pin_fresh [OF _ that] by blast
    qed
    with samples btree.insert_increasing [OF inc] show ?case by (auto simp: pin_from_def tracker_ok_def)
  next
    case (step_update t sample pin)
    have inc: "increasing (rt_pins t)" using step_update.prems by (simp add: tracker_ok_def)
    have "\<forall>x\<in>snd ` set (btree_insert pin sample (rt_pins t)). rt_retained_start_sample t \<le> x"
      using set_btree_insert_sub [of pin sample "rt_pins t"] step_update by (auto simp: tracker_ok_def)
    moreover have "fst ` set (btree_insert pin sample (rt_pins t)) = fst ` set (rt_pins t)" if "map_of (rt_pins t) pin = Some v" for v
      using map_of_SomeD [OF that] unfolding btree.insert_keys [OF inc] by force
    ultimately show ?case
      using step_update.prems btree.insert_increasing [OF inc, of pin sample]
      by (cases "map_of (rt_pins t) pin") (simp_all add: update_pin_def tracker_ok_def)
  next
    case (step_unpin t pin)
    have "increasing (btree_remove pin (rt_pins t))"
      using step_unpin by (intro btree.remove_increasing) (simp add: tracker_ok_def)
    then show ?case using step_unpin set_btree_remove_sub [of pin "rt_pins t"] by (auto simp: unpin_def tracker_ok_def)
  next
    case (step_reclaim t requested samples bytes origin)
    show ?case
    proof (cases "fst (record_reclaimed_to requested samples bytes origin t) = Inr () \<and> rt_retained_start_sample t < requested")
      case True
      then have "\<forall>sample\<in>snd ` set (rt_pins t). requested \<le> sample"
        by (intro accepted_reclaim(2)) (auto intro: prod_eqI)
      with True step_reclaim show ?thesis
        by (auto simp: record_reclaimed_to_def Let_def tracker_ok_def split: if_splits)
    next
      case False
      then have "snd (record_reclaimed_to requested samples bytes origin t) = t"
        by (auto simp: record_reclaimed_to_def Let_def split: if_splits)
      with step_reclaim show ?thesis by simp
    qed
  qed
  then show "tracker_ok t'" "rt_retained_start_sample t \<le> rt_retained_start_sample t'" by simp_all
qed
lemma tracker_steps_ok:
  assumes "tracker_step\<^sup>*\<^sup>* t t'" "tracker_ok t"
  shows "tracker_ok t' \<and> rt_retained_start_sample t \<le> rt_retained_start_sample t'"
  using assms(1)
proof (induction rule: rtranclp_induct)
  case base
  then show ?case using assms(2) by simp
next
  case (step u v)
  then show ?case using tracker_step_ok [OF step.hyps(2)] by auto
qed

text \<open>
  C14: whatever calls consumers and the source make on a retention tracker, as long as no consumer pins a
  sample that is already gone, the first retained sample never moves back and never passes an active pin, and
  a new pin does not take over the identifier of an active one before all identifiers are used up.
\<close>
theorem retention_never_passes_pins:
  assumes "tracker_new sample_rate_hz before after = Inr t0"
    and "tracker_step\<^sup>*\<^sup>* t0 t" "tracker_step\<^sup>*\<^sup>* t t'"
  shows "rt_retained_start_sample t \<le> rt_retained_start_sample t' \<and>
    (\<forall>pin sample. map_of (rt_pins t') pin = Some sample \<longrightarrow> rt_retained_start_sample t' \<le> sample) \<and>
    (rt_next_pin t' = - 1 \<or> map_of (rt_pins t') (fst (pin_from sample' t')) = None)"
proof -
  have "tracker_ok t0" using assms(1) by (auto simp: tracker_new_def tracker_ok_def split: if_splits)
  then have ok: "tracker_ok t'" "rt_retained_start_sample t \<le> rt_retained_start_sample t'"
    using tracker_steps_ok [OF assms(2)] tracker_steps_ok [OF assms(3)] by blast+
  have pins: "\<forall>pin sample. map_of (rt_pins t') pin = Some sample \<longrightarrow> rt_retained_start_sample t' \<le> sample"
    using ok(1) unfolding tracker_ok_def by (force dest: map_of_SomeD)
  have "rt_next_pin t' = - 1 \<or> map_of (rt_pins t') (fst (pin_from sample' t')) = None"
    using ok(1) by (auto simp: tracker_ok_def pin_from_def map_of_eq_None_iff)
  with pins ok(2) show ?thesis by (intro conjI)
qed

theorem retention_never_passes_pins_witness:
  "\<exists>t0 t. tracker_new 1000 Everything (RecentDuration 2000000000) = Inr t0 \<and> tracker_step\<^sup>*\<^sup>* t0 t \<and>
    map_of (rt_pins t) 1 = Some 800 \<and> rt_retained_start_sample t = 800 \<and>
    (\<forall>pin sample. map_of (rt_pins t) pin = Some sample \<longrightarrow> rt_retained_start_sample t \<le> sample)"
proof -
  let ?init = "\<lparr>rt_sample_rate_hz = 1000, rt_before = Everything, rt_after = RecentDuration 2000000000,
    rt_retained_start_sample = 0, rt_next_pin = 1, rt_pins = []\<rparr>"
  let ?pinned = "snd (pin_from 800 ?init)"
  let ?final = "snd (record_reclaimed_to 800 5000 5000 (Some 0) ?pinned)"
  have new: "tracker_new 1000 Everything (RecentDuration 2000000000) = Inr ?init" by (simp add: tracker_new_def)
  have "tracker_step ?init ?pinned" by (rule step_pin) simp
  moreover have "tracker_step ?pinned ?final" by (rule step_reclaim)
  ultimately have run: "tracker_step\<^sup>*\<^sup>* ?init ?final"
    by (rule rtranclp_trans [OF r_into_rtranclp [of tracker_step ?init ?pinned] r_into_rtranclp [of tracker_step ?pinned ?final]])
  have "map_of (rt_pins ?final) 1 = Some 800 \<and> rt_retained_start_sample ?final = 800" by (simp add: tracker_defs)
  moreover have "\<forall>pin sample. map_of (rt_pins ?final) pin = Some sample \<longrightarrow> rt_retained_start_sample ?final \<le> sample"
    using retention_never_passes_pins [OF new run rtranclp.rtrancl_refl, of 0] by blast
  ultimately show ?thesis using new run by blast
qed

section \<open>What a policy wants to keep\<close>

text \<open>
  Whether a policy wants to keep the sample that lies \<open>age\<close> samples before the end of its range: the last
  \<open>age\<close> samples last no longer than the duration, or take no more bytes than the budget at the capture's own rate
  of bytes to samples.
\<close>

fun wanted :: "retention_policy \<Rightarrow> nat \<Rightarrow> nat \<Rightarrow> nat \<Rightarrow> nat \<Rightarrow> bool" where
  "wanted Everything age samples bytes rate = True"
| "wanted DeviceManaged age samples bytes rate = True"
| "wanted (RecentDuration d) age samples bytes rate \<longleftrightarrow> age * 10 ^ 9 \<le> d * rate"
| "wanted (RecentBytes b) age samples bytes rate \<longleftrightarrow> age * bytes \<le> unat b * samples"

text \<open>A byte budget whose number of samples fits 64 bits.\<close>

definition budget_fits :: "retention_policy \<Rightarrow> u64 \<Rightarrow> u64 \<Rightarrow> bool" where
  "budget_fits policy cs cb \<longleftrightarrow> (case policy of RecentBytes b \<Rightarrow> unat b * unat cs div unat cb < 2 ^ 64 | _ \<Rightarrow> True)"

definition kept_by_policy :: "retention_tracker \<Rightarrow> u64 \<Rightarrow> u64 \<Rightarrow> u64 option \<Rightarrow> nat \<Rightarrow> bool" where
  "kept_by_policy t cs cb origin i \<longleftrightarrow>
     (let wants = \<lambda>policy age. wanted policy age (unat cs) (unat cb) (unat (rt_sample_rate_hz t))
      in case origin of
           None \<Rightarrow> i < unat cs \<and> wants (rt_before t) (unat cs - i)
         | Some x \<Rightarrow> if i < unat x then wants (rt_before t) (unat x - i)
             else i < unat cs \<and> wants (rt_after t) (unat cs - i))"

lemma duration_samples_ge:
  assumes "age * 10 ^ 9 \<le> d * unat rate" "age < 2 ^ 64"
  shows "age \<le> unat (case duration_to_samples d rate of Inl _ \<Rightarrow> - 1 | Inr samples \<Rightarrow> samples)"
proof (cases "duration_to_samples d rate")
  case (Inl e)
  then show ?thesis using assms(2) by (simp add: unsigned_minus_1_eq_mask mask_eq_exp_minus_1)
next
  case (Inr n)
  then have n: "div_ceil (d * unat rate) (10 ^ 9) < 2 ^ 64" "n = of_nat (div_ceil (d * unat rate) (10 ^ 9))"
    by (auto simp: duration_to_samples_def Let_def split: if_splits)
  have "age * 10 ^ 9 \<le> div_ceil (d * unat rate) (10 ^ 9) * 10 ^ 9"
    using assms(1) div_ceil_mult_ge [of "10 ^ 9" "d * unat rate"] by (simp del: mult_le_cancel2)
  then have "age \<le> div_ceil (d * unat rate) (10 ^ 9)" by simp
  then show ?thesis using n Inr by (simp add: unat_of_nat)
qed

lemma boundary_keeps_wanted:
  assumes "wanted policy age (unat cs) (unat cb) (unat rate)" "age \<le> unat extent" "budget_fits policy cs cb"
  shows "unat (retention_boundary policy extent cs cb rate) \<le> unat extent - age"
proof (cases policy)
  case (RecentDuration d)
  moreover have "age < 2 ^ 64" using assms(2) unsigned_less [of extent, where ?'a = nat] by simp
  ultimately show ?thesis
    using assms(1) duration_samples_ge [of age d rate]
    by (simp add: retention_boundary_def sat_simps diff_le_mono2)
next
  case (RecentBytes b)
  show ?thesis
  proof (cases "cb = 0")
    case False
    then have "0 < unat cb" by (simp add: unat_gt_0)
    then have "age \<le> unat b * unat cs div unat cb" "unat b * unat cs div unat cb < 2 ^ 64"
      using assms(1,3) RecentBytes by (simp_all add: less_eq_div_iff_mult_less_eq budget_fits_def)
    then show ?thesis using False RecentBytes by (simp add: retention_boundary_def sat_simps unat_of_nat)
  qed (simp add: retention_boundary_def RecentBytes)
qed (simp_all add: retention_boundary_def)

text \<open>
  C15: a reclamation that the tracker accepts and that moves the retained start keeps every sample the policies
  want and every pinned sample: those of the policy before the origin up to it (or up to the end while there
  is no origin), and those of the policy after the origin from it to the end. This holds for every policy but a
  budget in bytes that stands for 2^64 samples or more.
\<close>
theorem reclaim_keeps_wanted:
  assumes "record_reclaimed_to r cs cb origin t = (Inr (), t')" "rt_retained_start_sample t < r"
    and "budget_fits (rt_before t) cs cb" "budget_fits (rt_after t) cs cb"
    and "kept_by_policy t cs cb origin i \<or> i \<in> unat ` snd ` set (rt_pins t)"
  shows "unat (rt_retained_start_sample t') = unat r \<and> unat r \<le> i"
proof -
  let ?b = "\<lambda>policy extent. retention_boundary policy extent cs cb (rt_sample_rate_hz t)"
  have r: "r \<le> policy_boundary t cs cb origin" "\<forall>sample\<in>snd ` set (rt_pins t). r \<le> sample"
    using accepted_reclaim [OF assms(1,2)] by simp_all
  have policy: "unat r \<le> i" if "kept_by_policy t cs cb origin i"
  proof (cases origin)
    case None
    then have i: "i < unat cs" "wanted (rt_before t) (unat cs - i) (unat cs) (unat cb) (unat (rt_sample_rate_hz t))"
      using that by (simp_all add: kept_by_policy_def)
    have "unat (?b (rt_before t) cs) \<le> unat cs - (unat cs - i)" by (rule boundary_keeps_wanted [OF i(2) _ assms(3)]) simp
    then show ?thesis using None r(1) i(1) by (simp add: policy_boundary_def word_le_nat_alt)
  next
    case (Some x)
    show ?thesis
    proof (cases "i < unat x")
      case True
      with that Some have before: "i < unat x" "wanted (rt_before t) (unat x - i) (unat cs) (unat cb) (unat (rt_sample_rate_hz t))"
        by (simp_all add: kept_by_policy_def)
      then have "x \<noteq> 0" by auto
      then have "r \<le> ?b (rt_before t) x" using Some r(1) by (simp add: policy_boundary_def)
      then have "unat r \<le> unat (?b (rt_before t) x)" by (simp add: word_le_nat_alt)
      also have "\<dots> \<le> unat x - (unat x - i)" by (rule boundary_keeps_wanted [OF before(2) _ assms(3)]) simp
      finally show ?thesis using before(1) by simp
    next
      case False
      with that Some have after: "unat x \<le> i" "i < unat cs"
        "wanted (rt_after t) (unat cs - i) (unat cs) (unat cb) (unat (rt_sample_rate_hz t))"
        by (simp_all add: kept_by_policy_def)
      have extent: "unat (saturating_sub cs x) = unat cs - unat x" by (simp add: sat_simps)
      have "unat (?b (rt_after t) (saturating_sub cs x)) \<le> unat (saturating_sub cs x) - (unat cs - i)"
        using after assms(4) by (intro boundary_keeps_wanted) (simp_all add: extent)
      moreover have "unat r \<le> unat x + unat (?b (rt_after t) (saturating_sub cs x))"
      proof -
        have "r \<le> saturating_add x (?b (rt_after t) (saturating_sub cs x))"
          using Some r(1) by (cases "x = 0") (simp_all add: policy_boundary_def saturating_sub_def saturating_add_def)
        then have "unat r \<le> unat (saturating_add x (?b (rt_after t) (saturating_sub cs x)))" by (simp add: word_le_nat_alt)
        then show ?thesis by (simp add: sat_simps)
      qed
      ultimately show ?thesis using after by (simp add: extent)
    qed
  qed
  have "unat r \<le> i" using assms(5) policy r(2) by (auto simp: word_le_nat_alt)
  then show ?thesis using assms(1) by (auto simp: record_reclaimed_to_def Let_def split: if_splits)
qed

theorem reclaim_keeps_wanted_witness:
  "\<exists>t t'. rt_retained_start_sample t = 0 \<and> record_reclaimed_to 3000 5000 5000 (Some 0) t = (Inr (), t') \<and>
    kept_by_policy t 5000 5000 (Some 0) 3000 \<and> unat (rt_retained_start_sample t') \<le> 3000"
proof -
  let ?t = "\<lparr>rt_sample_rate_hz = 1000, rt_before = Everything, rt_after = RecentDuration 2000000000,
    rt_retained_start_sample = 0, rt_next_pin = 1, rt_pins = []\<rparr>"
  let ?t' = "?t\<lparr>rt_retained_start_sample := 3000\<rparr>"
  have r: "record_reclaimed_to 3000 5000 5000 (Some 0) ?t = (Inr (), ?t')" by (simp add: tracker_defs)
  have kept: "kept_by_policy ?t 5000 5000 (Some 0) 3000" by (simp add: kept_by_policy_def)
  have "unat (rt_retained_start_sample ?t') \<le> 3000"
    using reclaim_keeps_wanted [OF r _ _ _ disjI1 [OF kept]] by (simp add: budget_fits_def)
  with r kept show ?thesis by (intro exI [of _ ?t] exI [of _ ?t']) simp
qed

text \<open>
  The limit on the budget in bytes is needed: a budget of 2^61 bytes, at eight samples to the byte, is taken for
  an empty one, and the newest sample, which it wants, lies before the boundary.
\<close>

lemma recent_bytes_truncates:
  "wanted (RecentBytes 0x2000000000000000) 1 8000 1000 rate"
  "retention_boundary (RecentBytes 0x2000000000000000) 8000 8000 1000 sample_rate_hz = 8000"
  by (simp_all add: retention_boundary_def saturating_sub_def)

section \<open>Negotiated placements\<close>

lemma word_div_ceil_nat: "unat a + unat b \<le> 2 ^ LENGTH('a) \<Longrightarrow> unat (word_div_ceil a b) = div_ceil (unat a) (unat b)"
  for a b :: "'a::len word"
proof (cases "unat b = 0")
  case False
  assume "unat a + unat b \<le> 2 ^ LENGTH('a)"
  then have "div_ceil (unat a) (unat b) < 2 ^ LENGTH('a)"
    using False unfolding div_ceil_def by (intro le_less_trans [OF div_le_dividend]) linarith
  then show ?thesis by (simp add: word_div_ceil_def unat_of_nat)
qed (simp add: word_div_ceil_def div_ceil_def)

lemma div_ceil_mult_less: "0 < b \<Longrightarrow> div_ceil a b * b < a + b"
proof -
  assume "0 < b"
  then have "(a + b - 1) div b * b \<le> a + b - 1" by simp
  with \<open>0 < b\<close> show ?thesis unfolding div_ceil_def by linarith
qed

lemma samples_of_nat:
  assumes "parts f \<le> DENOMINATOR"
  shows "unat (samples_of f w) = unat w * unat (parts f) div 10000" "samples_of f w \<le> w"
proof -
  have "unat (parts f) \<le> 10000" using assms by (simp add: DENOMINATOR_def word_le_nat_alt)
  then have le: "unat w * unat (parts f) div 10000 \<le> unat w"
    using mult_le_mono2 [of "unat (parts f)" 10000 "unat w"] by (intro div_le_mono [of _ "unat w * 10000" 10000, simplified]) simp
  then have "unat w * unat (parts f) div 10000 < 2 ^ 64" using unsigned_less [of w, where ?'a = nat] by simp
  then show "unat (samples_of f w) = unat w * unat (parts f) div 10000"
    by (simp add: samples_of_def DENOMINATOR_def unat_of_nat)
  then show "samples_of f w \<le> w" using le by (simp add: word_le_nat_alt)
qed

lemma samples_of_mono:
  assumes "parts f \<le> parts g" "parts g \<le> DENOMINATOR"
  shows "samples_of f w \<le> samples_of g w"
proof -
  have "unat w * unat (parts f) div 10000 \<le> unat w * unat (parts g) div 10000"
    using assms(1) by (intro div_le_mono mult_le_mono2) (simp add: word_le_nat_alt)
  then show ?thesis using samples_of_nat(1) [of f w] samples_of_nat(1) [of g w] assms by (simp add: word_le_nat_alt)
qed

lemma stepped_parts_range:
  assumes "minimum \<le> p" "p \<le> maximum" "maximum \<le> DENOMINATOR" "step \<le> DENOMINATOR" "step \<noteq> 0"
  shows "minimum \<le> stepped_parts p minimum maximum step" "stepped_parts p minimum maximum step \<le> maximum"
proof -
  have nat: "unat minimum \<le> unat p" "unat p \<le> unat maximum" "unat maximum \<le> 10000" "unat step \<le> 10000" "0 < unat step"
    using assms by (simp_all add: word_le_nat_alt DENOMINATOR_def unat_gt_0)
  have rel: "unat (p - minimum) = unat p - unat minimum" using assms(1) by (simp add: unat_sub word_le_nat_alt)
  have ceil: "unat (word_div_ceil (p - minimum) step) * unat step < 20000"
    using div_ceil_mult_less [OF nat(5), of "unat (p - minimum)"] nat rel by (simp add: word_div_ceil_nat)
  have "minimum \<le> minimum + word_div_ceil (p - minimum) step * step"
  proof -
    have "unat (word_div_ceil (p - minimum) step * step) = unat (word_div_ceil (p - minimum) step) * unat step"
      using ceil by (simp add: unat_word_ariths)
    then have "unat minimum + unat (word_div_ceil (p - minimum) step * step) < 2 ^ LENGTH(16)" using ceil nat by simp
    then show ?thesis by (simp add: word_le_nat_alt unat_add_lem [THEN iffD1])
  qed
  then show "minimum \<le> stepped_parts p minimum maximum step"
    using assms(1,2) by (simp add: stepped_parts_def Let_def)
  show "stepped_parts p minimum maximum step \<le> maximum" by (simp add: stepped_parts_def Let_def)
qed

lemma unat_min: "unat (min a b) = min (unat a) (unat b)" for a b :: "'a::len word"
  by (simp add: min_def word_le_nat_alt)

lemma unat_saturating_mul: "unat (saturating_mul x y) = min (unat x * unat y) (2 ^ LENGTH('a) - 1)" for x y :: "'a::len word"
proof (cases "unat x * unat y < 2 ^ LENGTH('a)")
  case True
  then have "unat x * unat y \<le> 2 ^ LENGTH('a) - 1" by linarith
  with True show ?thesis by (simp add: saturating_mul_def unat_word_ariths)
next
  case False
  moreover have "unat (- 1 :: 'a word) = 2 ^ LENGTH('a) - 1" by (simp add: unsigned_minus_1_eq_mask mask_eq_exp_minus_1)
  moreover have "min (unat x * unat y) (2 ^ LENGTH('a) - 1) = 2 ^ LENGTH('a) - 1"
    using False by (intro min_absorb2) linarith
  ultimately show ?thesis by (simp add: saturating_mul_def)
qed

lemma aligned_samples:
  fixes al s w :: "'a::len word"
  assumes "al \<noteq> 0" "s \<le> w"
  defines "n \<equiv> min (saturating_mul (word_div_ceil s al) al) w"
  shows "s \<le> n" "n \<le> w" "n = w \<or> unat al dvd unat n" "unat n < unat s + unat al"
proof -
  let ?c = "div_ceil (unat s) (unat al)"
  have al: "0 < unat al" using assms(1) by (simp add: unat_gt_0)
  have ge: "unat s \<le> ?c * unat al" and lt: "?c * unat al < unat s + unat al"
    using div_ceil_mult_ge [OF al] div_ceil_mult_less [OF al] by simp_all
  have c: "unat (word_div_ceil s al) = ?c"
  proof -
    have "unat s \<le> unat s * unat al" using al by simp
    then have "?c \<le> unat s" using less_div_ceil [OF al, of "unat s" "unat s"] by linarith
    then have "?c < 2 ^ LENGTH('a)" by (rule le_less_trans) (rule unsigned_less)
    then show ?thesis by (simp add: word_div_ceil_def unat_of_nat)
  qed
  have n: "unat n = min (?c * unat al) (unat w)"
    using unat_le_max [of w] unfolding n_def unat_min unat_saturating_mul c by simp
  show "s \<le> n" "n \<le> w" "unat n < unat s + unat al"
    using n ge lt assms(2) by (simp_all add: word_le_nat_alt)
  show "n = w \<or> unat al dvd unat n" using n by (auto simp: min_def word_unat_eq_iff split: if_splits)
qed

text \<open>
  C25: a triggered recording negotiated with a provider of selectable placements keeps everything of the request
  but the placement, which becomes a number of samples inside the capture window: at least the provider's
  minimum, less than one alignment above its maximum, and aligned unless it is the whole window.
\<close>
theorem negotiated_placement_in_range:
  assumes "capabilities_new starts retention completion (SelectableFraction minimum maximum step al) actions = Inr caps"
    and "parts maximum \<le> DENOMINATOR" "parts step \<le> DENOMINATOR"
    and "cp_start requested = Trigger" "negotiate caps requested context = Inr p"
  shows "\<exists>w n. cx_capture_window_samples context = Some w \<and>
    ep_effective p = requested\<lparr>cp_trigger_placement := Some (SamplesBefore n)\<rparr> \<and>
    samples_of minimum w \<le> n \<and> n \<le> w \<and> unat n < unat (samples_of maximum w) + unat al \<and>
    (n = w \<or> unat al dvd unat n)"
proof -
  have caps: "cc_trigger_placement caps = SelectableFraction minimum maximum step al"
    "parts minimum \<le> parts maximum" "parts step \<noteq> 0" "al \<noteq> 0"
    using assms(1) by (auto simp: capabilities_new_def not_less split: if_splits)
  obtain placement where placement: "negotiate_trigger_placement caps requested context = Inr placement"
    "ep_effective p = requested\<lparr>cp_trigger_placement := placement\<rparr>"
    using assms(5) by (auto simp: negotiate_def and_then_Inr_iff split: if_splits)
  obtain w samples where w: "cx_capture_window_samples context = Some w"
    "select_placement minimum maximum step al w samples = Inr placement"
    using placement(1) assms(4) by (auto simp: negotiate_trigger_placement_def caps(1) and_then_Inr_iff split: if_splits option.splits)
  define q where "q = (of_nat (unat samples * unat DENOMINATOR div unat w) :: u16)"
  define f where "f = CaptureFraction (stepped_parts q (parts minimum) (parts maximum) (parts step))"
  define n where "n = min (saturating_mul (word_div_ceil (samples_of f w) al) al) w"
  have q: "parts minimum \<le> q" "q \<le> parts maximum"
    using w(2) by (auto simp: select_placement_def Let_def q_def not_less split: if_splits)
  have f: "parts minimum \<le> parts f" "parts f \<le> parts maximum"
    using stepped_parts_range [OF q assms(2,3) caps(3)] by (simp_all add: f_def)
  then have f_ok: "parts f \<le> DENOMINATOR" using assms(2) by (rule_tac order_trans)
  have "placement = Some (SamplesBefore n)"
    using w(2) by (auto simp: select_placement_def Let_def and_then_Inr_iff fraction_new_def f_def n_def q_def split: if_splits)
  moreover have "samples_of minimum w \<le> samples_of f w" "samples_of f w \<le> samples_of maximum w"
    by (intro samples_of_mono f f_ok assms(2))+
  moreover note aligned_samples [OF caps(4) samples_of_nat(2) [OF f_ok, of w], folded n_def]
  ultimately show ?thesis using w(1) placement(2) by (fastforce simp: word_le_nat_alt)
qed

definition selectable_request :: capture_policy where
  "selectable_request = capture_policy_default\<lparr>cp_start := Trigger, cp_trigger_placement := Some (DurationBefore 250000000),
     cp_completion := SamplesAfterOrigin 750\<rparr>"

theorem negotiated_placement_in_range_witness:
  "\<exists>caps p. capabilities_new [Immediate, Trigger] [Kind_Everything] [Kind_SamplesAfterOrigin]
      (SelectableFraction (CaptureFraction 1000) (CaptureFraction 9000) (CaptureFraction 100) 64) [] = Inr caps \<and>
    negotiate caps selectable_request
      \<lparr>cx_sample_rate_hz = 1000, cx_capture_window_samples = Some 1000, cx_has_trigger_program = True\<rparr> = Inr p \<and>
    (\<exists>n. cp_trigger_placement (ep_effective p) = Some (SamplesBefore n) \<and> 100 \<le> n \<and> n \<le> 1000)"
proof -
  let ?f = "SelectableFraction (CaptureFraction 1000) (CaptureFraction 9000) (CaptureFraction 100) 64"
  let ?caps = "\<lparr>cc_recording_starts = [Immediate, Trigger], cc_retention = [Kind_Everything],
    cc_completion = [Kind_SamplesAfterOrigin], cc_trigger_placement = ?f, cc_trigger_timeout_actions = []\<rparr>"
  let ?cx = "\<lparr>cx_sample_rate_hz = 1000, cx_capture_window_samples = Some 1000, cx_has_trigger_program = True\<rparr>"
  let ?p = "\<lparr>ep_requested = selectable_request,
    ep_effective = selectable_request\<lparr>cp_trigger_placement := Some (SamplesBefore 256)\<rparr>\<rparr>"
  have caps: "capabilities_new [Immediate, Trigger] [Kind_Everything] [Kind_SamplesAfterOrigin] ?f [] = Inr ?caps"
    by (simp add: capabilities_new_def)
  have p: "negotiate ?caps selectable_request ?cx = Inr ?p"
    by (simp add: negotiate_def check_retention_def check_completion_def check_timeout_def negotiate_trigger_placement_def
        requested_samples_def select_placement_def stepped_parts_def word_div_ceil_def fraction_new_def samples_of_def DENOMINATOR_def
        selectable_request_def capture_policy_default_def duration_to_samples_def div_ceil_def saturating_mul_def Let_def)
  have "samples_of (CaptureFraction 1000) 1000 = 100" by (simp add: samples_of_def DENOMINATOR_def)
  moreover have "\<exists>w n. cx_capture_window_samples ?cx = Some w \<and>
      ep_effective ?p = selectable_request\<lparr>cp_trigger_placement := Some (SamplesBefore n)\<rparr> \<and>
      samples_of (CaptureFraction 1000) w \<le> n \<and> n \<le> w \<and> unat n < unat (samples_of (CaptureFraction 9000) w) + unat (64 :: u64) \<and>
      (n = w \<or> unat (64 :: u64) dvd unat n)"
    by (rule negotiated_placement_in_range [OF caps _ _ _ p]) (simp_all add: DENOMINATOR_def selectable_request_def)
  ultimately have "\<exists>n. cp_trigger_placement (ep_effective ?p) = Some (SamplesBefore n) \<and> 100 \<le> n \<and> n \<le> 1000" by auto
  with caps p show ?thesis by blast
qed

text \<open>
  C24: the inclusive minimum of a provider's placements is refused when it is no whole number of samples of the
  capture window: the request is rounded down to samples and compared again as a fraction.
\<close>
theorem minimum_placement_refused:
  assumes "cc_trigger_placement caps = SelectableFraction minimum maximum step al" "cp_start requested = Trigger"
    and "cp_trigger_placement requested = Some (Fraction minimum)" "parts minimum \<le> DENOMINATOR"
    and "cx_capture_window_samples context = Some w" "cx_sample_rate_hz context \<noteq> 0"
    and "unat w * unat (parts minimum) mod 10000 \<noteq> 0"
  shows "negotiate_trigger_placement caps requested context =
    Inl (Unsupported (''trigger placement lies outside '' @ show_nat (unat (parts minimum)) @ ''..='' @
      show_nat (unat (parts maximum)) @ '' parts''))"
proof -
  let ?s = "samples_of minimum w" and ?m = "unat (parts minimum)"
  have w: "0 < unat w" "w \<noteq> 0" using assms(7) by (auto simp: unat_gt_0)
  have s: "unat ?s = unat w * ?m div 10000" "\<not> w < ?s" using samples_of_nat [OF assms(4), of w] by (simp_all add: not_less)
  have m: "?m \<le> 10000" using assms(4) by (simp add: DENOMINATOR_def word_le_nat_alt)
  have "unat ?s * 10000 < unat w * ?m"
    unfolding s(1) using assms(7) div_mult_mod_eq [of "unat w * ?m" 10000] by linarith
  then have lt: "unat ?s * 10000 div unat w < ?m" using w(1) by (simp add: div_less_iff_less_mult mult.commute)
  then have "unat (of_nat (unat ?s * 10000 div unat w) :: u16) = unat ?s * 10000 div unat w" using m by (simp add: unat_of_nat)
  with lt have "(of_nat (unat ?s * unat DENOMINATOR div unat w) :: u16) < parts minimum"
    by (simp add: word_less_nat_alt DENOMINATOR_def)
  then show ?thesis
    using assms(1-3,5,6) w(2) s(2) by (simp add: negotiate_trigger_placement_def requested_samples_def select_placement_def Let_def)
qed

theorem minimum_placement_refused_witness:
  "negotiate_trigger_placement
     \<lparr>cc_recording_starts = [Trigger], cc_retention = [Kind_Everything], cc_completion = [Kind_SamplesAfterOrigin],
      cc_trigger_placement = SelectableFraction (CaptureFraction 1000) (CaptureFraction 9000) (CaptureFraction 100) 64,
      cc_trigger_timeout_actions = []\<rparr>
     (selectable_request\<lparr>cp_trigger_placement := Some (Fraction (CaptureFraction 1000))\<rparr>)
     \<lparr>cx_sample_rate_hz = 1000, cx_capture_window_samples = Some 1001, cx_has_trigger_program = True\<rparr> =
   Inl (Unsupported ''trigger placement lies outside 1000..=9000 parts'')"
  by (subst minimum_placement_refused [where minimum = "CaptureFraction 1000" and maximum = "CaptureFraction 9000" and w = 1001])
    (simp_all add: selectable_request_def DENOMINATOR_def show_nat.simps char_of_def bit_0)

section \<open>The span of a plan\<close>



end
