(* ===== verification/Derived_Index.thy ===== *)
theory Derived_Index
  imports Recorded_Edges
begin

text \<open>
  The summary index of derived lanes, \<^verbatim>\<open>crates/signal_derived/src/derived_index.rs\<close>, with the rules by which the
  kinds of lanes of \<^verbatim>\<open>crates/signal_derived/src/derived_data_collector\<close> fold their entries. A search in a tier is
  the length of the prefix it looks for, which is what the standard library promises of ordered tiers.
\<close>

section \<open>Records and rules\<close>

record mipmap_record =
  mr_start_ns :: u64
  mr_end_ns :: u64
  mr_count :: u32
  mr_level_hint :: "(bool \<times> bool) option"

definition in_order :: "mipmap_record list \<Rightarrow> bool" where
  "in_order rs \<longleftrightarrow> sorted (map mr_start_ns rs) \<and> sorted (map mr_end_ns rs)"

text \<open>
  The contract of the trait \<^verbatim>\<open>LaneFold\<close>: a run of records is folded into one that starts with the first, ends with
  the last and counts them all.
\<close>

locale lane_fold =
  fixes combine :: "mipmap_record list \<Rightarrow> mipmap_record"
  assumes combine_start: "rs \<noteq> [] \<Longrightarrow> mr_start_ns (combine rs) = mr_start_ns (hd rs)"
    and combine_end: "rs \<noteq> [] \<Longrightarrow> in_order rs \<Longrightarrow> mr_end_ns (combine rs) = mr_end_ns (last rs)"
    and combine_count: "rs \<noteq> [] \<Longrightarrow> mr_count (combine rs) = sum_list (map mr_count rs)"

record annotation =
  an_start_ns :: u64
  an_end_ns :: u64
  an_value :: u64
  an_payload :: "word_payload option"

record text_sample =
  ts_value :: "u8 list"
  ts_start_time_ns :: u64

definition number_leaf :: "number_sample \<Rightarrow> mipmap_record" where
  "number_leaf entry =
     \<lparr>mr_start_ns = ns_start_time_ns entry, mr_end_ns = ns_start_time_ns entry, mr_count = 1, mr_level_hint = None\<rparr>"

definition number_combine :: "mipmap_record list \<Rightarrow> mipmap_record" where
  "number_combine records =
     \<lparr>mr_start_ns = mr_start_ns (hd records), mr_end_ns = mr_end_ns (last records),
      mr_count = sum_list (map mr_count records), mr_level_hint = None\<rparr>"

definition marker_leaf :: "u64 \<Rightarrow> mipmap_record" where
  "marker_leaf entry = \<lparr>mr_start_ns = entry, mr_end_ns = entry, mr_count = 1, mr_level_hint = None\<rparr>"

definition marker_combine :: "mipmap_record list \<Rightarrow> mipmap_record" where
  "marker_combine records =
     \<lparr>mr_start_ns = mr_start_ns (hd records), mr_end_ns = mr_end_ns (last records),
      mr_count = sum_list (map mr_count records), mr_level_hint = None\<rparr>"

definition text_leaf :: "text_sample \<Rightarrow> mipmap_record" where
  "text_leaf entry =
     \<lparr>mr_start_ns = ts_start_time_ns entry, mr_end_ns = ts_start_time_ns entry, mr_count = 1, mr_level_hint = None\<rparr>"

definition text_combine :: "mipmap_record list \<Rightarrow> mipmap_record" where
  "text_combine records =
     \<lparr>mr_start_ns = mr_start_ns (hd records), mr_end_ns = mr_end_ns (last records),
      mr_count = sum_list (map mr_count records), mr_level_hint = None\<rparr>"

definition annotation_leaf :: "annotation \<Rightarrow> mipmap_record" where
  "annotation_leaf entry =
     \<lparr>mr_start_ns = an_start_ns entry, mr_end_ns = an_end_ns entry, mr_count = 1, mr_level_hint = None\<rparr>"

definition annotation_combine :: "mipmap_record list \<Rightarrow> mipmap_record" where
  "annotation_combine records =
     \<lparr>mr_start_ns = mr_start_ns (hd records), mr_end_ns = Max (set (map mr_end_ns records)),
      mr_count = sum_list (map mr_count records), mr_level_hint = None\<rparr>"

definition join_hints :: "mipmap_record \<Rightarrow> mipmap_record \<Rightarrow> (bool \<times> bool) option" where
  "join_hints first final =
     (case (mr_level_hint first, mr_level_hint final) of (Some (a, _), Some (_, b)) \<Rightarrow> Some (a, b) | _ \<Rightarrow> None)"

definition digital_leaf :: "sample \<Rightarrow> mipmap_record" where
  "digital_leaf entry =
     \<lparr>mr_start_ns = s_start_time_ns entry, mr_end_ns = s_start_time_ns entry, mr_count = 1,
      mr_level_hint = Some (s_value entry, s_value entry)\<rparr>"

definition digital_combine :: "mipmap_record list \<Rightarrow> mipmap_record" where
  "digital_combine records =
     \<lparr>mr_start_ns = mr_start_ns (hd records), mr_end_ns = mr_end_ns (last records),
      mr_count = sum_list (map mr_count records), mr_level_hint = join_hints (hd records) (last records)\<rparr>"

definition summary_combine :: "mipmap_record list \<Rightarrow> mipmap_record" where
  "summary_combine records =
     \<lparr>mr_start_ns = mr_start_ns (hd records), mr_end_ns = Max (set (map mr_end_ns records)),
      mr_count = sum_list (map mr_count records), mr_level_hint = join_hints (hd records) (last records)\<rparr>"

section \<open>The append-only index\<close>

definition FAN_OUT :: nat where "FAN_OUT = 64"

definition CHUNK_SIZE :: nat where "CHUNK_SIZE = 4096"

record append_only_mipmap =
  mm_tiers :: "mipmap_record list list"
  mm_len :: nat

definition mipmap_new :: append_only_mipmap where
  "mipmap_new = \<lparr>mm_tiers = [[]], mm_len = 0\<rparr>"

definition mipmap_is_empty :: "append_only_mipmap \<Rightarrow> bool" where
  "mipmap_is_empty m \<longleftrightarrow> mm_len m = 0"

definition mipmap_resident_records :: "append_only_mipmap \<Rightarrow> nat" where
  "mipmap_resident_records m = sum_list (map length (mm_tiers m))"

text \<open>The recursion carries a folded record to the next of the tiers, which are its last argument.\<close>

fun push_record :: "(mipmap_record list \<Rightarrow> mipmap_record) \<Rightarrow> mipmap_record \<Rightarrow> mipmap_record list list \<Rightarrow> mipmap_record list list" where
  "push_record combine r [] = [[r]]"
| "push_record combine r (tier # tiers) =
     (let tier' = tier @ [r]
      in if FAN_OUT dvd length tier' then tier' # push_record combine (combine (drop (length tier' - FAN_OUT) tier')) tiers
         else tier' # tiers)"

definition mipmap_push :: "('a \<Rightarrow> mipmap_record) \<Rightarrow> (mipmap_record list \<Rightarrow> mipmap_record) \<Rightarrow> 'a \<Rightarrow> append_only_mipmap \<Rightarrow> append_only_mipmap" where
  "mipmap_push leaf combine entry m =
     m\<lparr>mm_tiers := push_record combine (leaf entry) (mm_tiers m), mm_len := mm_len m + 1\<rparr>"

definition mipmap_extend :: "('a \<Rightarrow> mipmap_record) \<Rightarrow> (mipmap_record list \<Rightarrow> mipmap_record) \<Rightarrow> 'a list \<Rightarrow> append_only_mipmap \<Rightarrow> append_only_mipmap" where
  "mipmap_extend leaf combine entries m = fold (mipmap_push leaf combine) entries m"

definition window_range :: "mipmap_record list \<Rightarrow> u64 \<Rightarrow> u64 \<Rightarrow> nat \<times> nat" where
  "window_range tier start_ns stop_ns =
     (let first = partition_point (\<lambda>r. mr_end_ns r < start_ns) tier
      in (first, first + partition_point (\<lambda>r. mr_start_ns r \<le> stop_ns) (drop first tier)))"

definition uncovered_tail :: "(mipmap_record list \<Rightarrow> mipmap_record) \<Rightarrow> append_only_mipmap \<Rightarrow> nat \<Rightarrow> u64 \<Rightarrow> u64 \<Rightarrow> mipmap_record list" where
  "uncovered_tail combine m tier_index start_ns stop_ns =
     (if tier_index = 0 then []
      else let covered = length (mm_tiers m ! tier_index) * FAN_OUT ^ tier_index
           in if mm_len m \<le> covered then []
              else let raw = drop covered (mm_tiers m ! 0)
                   in case window_range raw start_ns stop_ns of
                        (first, final) \<Rightarrow> if first < final then [combine (take (final - first) (drop first raw))] else [])"

text \<open>The records of a range and one more on each side, where there is one.\<close>

definition padded :: "mipmap_record list \<Rightarrow> nat \<times> nat \<Rightarrow> mipmap_record list" where
  "padded tier window = (case window of (first, final) \<Rightarrow>
     let first' = first - 1; final' = min (final + 1) (length tier) in take (final' - first') (drop first' tier))"

definition point_budget :: "nat \<Rightarrow> nat" where
  "point_budget target_points = usize_saturating_mul (max target_points 1) 4"

fun sample_tiers :: "(mipmap_record list \<Rightarrow> mipmap_record) \<Rightarrow> append_only_mipmap \<Rightarrow> u64 \<Rightarrow> u64 \<Rightarrow> nat \<Rightarrow> nat list \<Rightarrow> mipmap_record list" where
  "sample_tiers combine m start_ns stop_ns budget [] = []"
| "sample_tiers combine m start_ns stop_ns budget (tier_index # rest) =
     (let tier = mm_tiers m ! tier_index; window = window_range tier start_ns stop_ns
      in if snd window - fst window \<le> budget \<or> tier_index = 0
         then padded tier window @ uncovered_tail combine m tier_index start_ns stop_ns
         else sample_tiers combine m start_ns stop_ns budget rest)"

definition mipmap_sampled_window :: "(mipmap_record list \<Rightarrow> mipmap_record) \<Rightarrow> append_only_mipmap \<Rightarrow> u64 \<Rightarrow> u64 \<Rightarrow> nat \<Rightarrow> mipmap_record list" where
  "mipmap_sampled_window combine m start_ns stop_ns target_points =
     sample_tiers combine m start_ns stop_ns (point_budget target_points) (rev [0..<length (mm_tiers m)])"

section \<open>The chunked index\<close>

record chunked_mipmap =
  cm_completed :: append_only_mipmap
  cm_active :: "mipmap_record list"
  cm_len :: nat

definition chunked_new :: chunked_mipmap where
  "chunked_new = \<lparr>cm_completed = mipmap_new, cm_active = [], cm_len = 0\<rparr>"

definition chunked_is_empty :: "chunked_mipmap \<Rightarrow> bool" where
  "chunked_is_empty m \<longleftrightarrow> cm_len m = 0"

definition chunked_resident_records :: "chunked_mipmap \<Rightarrow> nat" where
  "chunked_resident_records m = mipmap_resident_records (cm_completed m) + length (cm_active m)"

definition chunked_push :: "('a \<Rightarrow> mipmap_record) \<Rightarrow> (mipmap_record list \<Rightarrow> mipmap_record) \<Rightarrow> 'a \<Rightarrow> chunked_mipmap \<Rightarrow> chunked_mipmap" where
  "chunked_push leaf combine entry m =
     (let active = cm_active m @ [leaf entry]; m' = m\<lparr>cm_active := active, cm_len := cm_len m + 1\<rparr>
      in if length active = CHUNK_SIZE
         then m'\<lparr>cm_completed := mipmap_push id summary_combine (combine active) (cm_completed m), cm_active := []\<rparr>
         else m')"

definition chunked_extend :: "('a \<Rightarrow> mipmap_record) \<Rightarrow> (mipmap_record list \<Rightarrow> mipmap_record) \<Rightarrow> 'a list \<Rightarrow> chunked_mipmap \<Rightarrow> chunked_mipmap" where
  "chunked_extend leaf combine entries m = fold (chunked_push leaf combine) entries m"

definition chunked_sampled_window :: "(mipmap_record list \<Rightarrow> mipmap_record) \<Rightarrow> chunked_mipmap \<Rightarrow> u64 \<Rightarrow> u64 \<Rightarrow> nat \<Rightarrow> mipmap_record list" where
  "chunked_sampled_window combine m start_ns stop_ns target_points =
     (let result = mipmap_sampled_window summary_combine (cm_completed m) start_ns stop_ns target_points
      in if cm_active m = [] then result
         else let active = padded (cm_active m) (window_range (cm_active m) start_ns stop_ns)
              in if usize_saturating_add (length result) (length active) \<le> point_budget target_points then result @ active
                 else result @ [combine active])"

section \<open>The rules satisfy the contract\<close>

lemma sorted_Max_last: "xs \<noteq> [] \<Longrightarrow> sorted xs \<Longrightarrow> Max (set xs) = last xs" for xs :: "'a::linorder list"
  by (intro Max_eqI) (auto simp: sorted_iff_nth_mono in_set_conv_nth [of _ xs] last_conv_nth intro: exI [of _ "length xs - 1"])

interpretation number: lane_fold number_combine by unfold_locales (simp_all add: number_combine_def)

interpretation marker: lane_fold marker_combine by unfold_locales (simp_all add: marker_combine_def)

interpretation text_lane: lane_fold text_combine by unfold_locales (simp_all add: text_combine_def)

interpretation digital: lane_fold digital_combine by unfold_locales (simp_all add: digital_combine_def)

lemma Max_end_last: "rs \<noteq> [] \<Longrightarrow> in_order rs \<Longrightarrow> Max (set (map mr_end_ns rs)) = mr_end_ns (last rs)"
  using sorted_Max_last [of "map mr_end_ns rs"] by (simp add: in_order_def last_map)

interpretation annotation_lane: lane_fold annotation_combine
  by unfold_locales (simp_all add: annotation_combine_def Max_end_last del: set_map)

interpretation summary: lane_fold summary_combine
  by unfold_locales (simp_all add: summary_combine_def Max_end_last del: set_map)

section \<open>What the tiers hold\<close>

definition run_at :: "nat \<Rightarrow> 'a list \<Rightarrow> nat \<Rightarrow> 'a list" where
  "run_at n xs g = take n (drop (n * g) xs)"

definition groups :: "nat \<Rightarrow> (mipmap_record list \<Rightarrow> mipmap_record) \<Rightarrow> mipmap_record list \<Rightarrow> mipmap_record list" where
  "groups n combine xs = map (\<lambda>g. combine (run_at n xs g)) [0..<length xs div n]"

fun tiers_over :: "(mipmap_record list \<Rightarrow> mipmap_record) \<Rightarrow> mipmap_record list \<Rightarrow> mipmap_record list list \<Rightarrow> bool" where
  "tiers_over combine xs [] \<longleftrightarrow> xs = []"
| "tiers_over combine xs (tier # tiers) \<longleftrightarrow> tier = xs \<and> tiers_over combine (groups FAN_OUT combine xs) tiers"

lemma run_at_append: "n * g + n \<le> length xs \<Longrightarrow> run_at n (xs @ ys) g = run_at n xs g"
  by (simp add: run_at_def)

lemma full_group: "g < length xs div n \<Longrightarrow> n * g + n \<le> length xs"
proof -
  assume "g < length xs div n"
  then have "Suc g * n \<le> length xs div n * n" by (intro mult_le_mono1) simp
  also have "\<dots> \<le> length xs" by simp
  finally show ?thesis by (simp add: algebra_simps)
qed

lemma length_run_at: "n * g + n \<le> length xs \<Longrightarrow> length (run_at n xs g) = n"
  by (simp add: run_at_def)

lemma groups_snoc:
  assumes "0 < n"
  shows "groups n combine (xs @ [x]) = groups n combine xs @
     (if n dvd length (xs @ [x]) then [combine (drop (length (xs @ [x]) - n) (xs @ [x]))] else [])"
proof -
  have old: "map (\<lambda>g. combine (run_at n (xs @ [x]) g)) [0..<length xs div n] = groups n combine xs"
    unfolding groups_def by (intro map_cong refl) (simp add: run_at_append full_group)
  show ?thesis
  proof (cases "n dvd length (xs @ [x])")
    case True
    then obtain q where q: "length xs + 1 = n * q" by (auto simp: dvd_def)
    then have "0 < q" by (cases q) simp_all
    then obtain p where p: "q = Suc p" by (cases q) simp_all
    have len: "length xs = n * p + (n - 1)" using q assms by (simp add: p)
    then have "length xs div n = p" using assms by (intro div_nat_eqI) simp_all
    moreover have "Suc (length xs) div n = Suc p" using q assms by (simp add: p)
    moreover have "run_at n (xs @ [x]) p = drop (length (xs @ [x]) - n) (xs @ [x])"
      using q by (simp add: p run_at_def)
    ultimately show ?thesis using True old by (simp add: groups_def)
  next
    case False
    then have "Suc (length xs) div n = length xs div n" by (simp add: div_Suc dvd_eq_mod_eq_0)
    then show ?thesis using False old by (simp add: groups_def)
  qed
qed

lemma push_record_tiers:
  "tiers_over combine xs tiers \<Longrightarrow> tiers_over combine (xs @ [r]) (push_record combine r tiers)"
proof (induction combine r tiers arbitrary: xs rule: push_record.induct)
  case (1 combine r)
  then show ?case by (simp add: groups_def FAN_OUT_def)
next
  case (2 combine r tier tiers)
  then show ?case by (auto simp: Let_def groups_snoc FAN_OUT_def)
qed

lemma mipmap_extend_tiers:
  "tiers_over combine xs (mm_tiers m) \<Longrightarrow> mm_len m = length xs \<Longrightarrow>
   tiers_over combine (xs @ map leaf entries) (mm_tiers (mipmap_extend leaf combine entries m)) \<and>
   mm_len (mipmap_extend leaf combine entries m) = length xs + length entries"
proof (induction entries arbitrary: xs m)
  case (Cons e entries)
  have "tiers_over combine (xs @ [leaf e]) (mm_tiers (mipmap_push leaf combine e m))"
    using push_record_tiers [OF Cons.prems(1)] by (simp add: mipmap_push_def)
  moreover have "mm_len (mipmap_push leaf combine e m) = length (xs @ [leaf e])" using Cons.prems(2) by (simp add: mipmap_push_def)
  ultimately show ?case using Cons.IH [of "xs @ [leaf e]"] by (simp add: mipmap_extend_def)
qed (simp add: mipmap_extend_def)

lemma tiers_over_nth: "tiers_over combine xs tiers \<Longrightarrow> k < length tiers \<Longrightarrow> tiers ! k = (groups FAN_OUT combine ^^ k) xs"
proof (induction tiers arbitrary: xs k)
  case (Cons tier tiers)
  then show ?case by (cases k) (simp_all add: funpow_swap1)
qed simp

section \<open>Tiers summarise runs\<close>

definition summary_of :: "mipmap_record list \<Rightarrow> nat \<Rightarrow> nat \<Rightarrow> mipmap_record \<Rightarrow> bool" where
  "summary_of xs a n r \<longleftrightarrow> 0 < n \<and> a + n \<le> length xs \<and> mr_start_ns r = mr_start_ns (xs ! a) \<and>
     mr_end_ns r = mr_end_ns (xs ! (a + n - 1)) \<and> mr_count r = sum_list (map mr_count (take n (drop a xs)))"

definition summarises :: "nat \<Rightarrow> mipmap_record list \<Rightarrow> mipmap_record list \<Rightarrow> bool" where
  "summarises w xs ys \<longleftrightarrow> length ys = length xs div w \<and> (\<forall>g<length ys. summary_of xs (w * g) w (ys ! g))"

lemma in_order_mono:
  assumes "in_order xs" "i \<le> j" "j < length xs"
  shows "mr_start_ns (xs ! i) \<le> mr_start_ns (xs ! j)" "mr_end_ns (xs ! i) \<le> mr_end_ns (xs ! j)"
  using assms by (auto simp: in_order_def sorted_iff_nth_mono)

lemma in_order_sublist: "in_order xs \<Longrightarrow> in_order (take n (drop a xs))"
  by (simp add: in_order_def take_map [symmetric] drop_map [symmetric] sorted_wrt_take sorted_wrt_drop)

lemma summary_of_bounds:
  assumes "in_order xs" "summary_of xs a n r" "a \<le> i" "i < a + n"
  shows "mr_start_ns r \<le> mr_start_ns (xs ! i)" "mr_end_ns (xs ! i) \<le> mr_end_ns r"
proof -
  have "i \<le> a + n - 1" "a + n - 1 < length xs" "i < length xs" using assms by (auto simp: summary_of_def)
  then show "mr_start_ns r \<le> mr_start_ns (xs ! i)" "mr_end_ns (xs ! i) \<le> mr_end_ns r"
    using assms(2,3) in_order_mono(1) [OF assms(1), of a i] in_order_mono(2) [OF assms(1), of i "a + n - 1"]
    by (simp_all add: summary_of_def)
qed

lemma summarises_in_order:
  assumes "in_order xs" "0 < w" "summarises w xs ys"
  shows "in_order ys"
proof -
  have "mr_start_ns (ys ! i) \<le> mr_start_ns (ys ! j)" "mr_end_ns (ys ! i) \<le> mr_end_ns (ys ! j)" if "i \<le> j" "j < length ys" for i j
  proof -
    have s: "summary_of xs (w * i) w (ys ! i)" "summary_of xs (w * j) w (ys ! j)"
      using assms(3) that by (simp_all add: summarises_def)
    have ij: "w * i \<le> w * j" "w * i + w - 1 \<le> w * j + w - 1" using that(1) by (simp_all add: diff_le_mono)
    have "w * j + w - 1 < length xs" "w * j < length xs" using s(2) assms(2) by (auto simp: summary_of_def)
    then show "mr_start_ns (ys ! i) \<le> mr_start_ns (ys ! j)" "mr_end_ns (ys ! i) \<le> mr_end_ns (ys ! j)"
      using s in_order_mono(1) [OF assms(1) ij(1)] in_order_mono(2) [OF assms(1) ij(2)] by (simp_all add: summary_of_def)
  qed
  then show ?thesis by (simp add: in_order_def sorted_iff_nth_mono)
qed

lemma take_runs: "take (n * w) (drop a xs) = concat (map (\<lambda>i. take w (drop (a + w * i) xs)) [0..<n])"
proof (induction n)
  case (Suc n)
  have "take (Suc n * w) (drop a xs) = take (n * w + w) (drop a xs)" by (simp add: add.commute)
  also have "\<dots> = take (n * w) (drop a xs) @ take w (drop (n * w) (drop a xs))" by (rule take_add)
  finally show ?case using Suc.IH by (simp add: mult.commute add.commute)
qed simp

lemma sum_list_runs: "sum_list (map f (concat xss)) = sum_list (map (\<lambda>xs. sum_list (map f xs)) xss)"
  by (induction xss) simp_all

lemma summarises_1: "summarises 1 xs xs"
  by (auto simp: summarises_def summary_of_def take_Suc_conv_app_nth Cons_nth_drop_Suc [symmetric])

lemma summary_of_trans:
  assumes "summarises w xs ys" "summary_of ys a n r" "0 < w"
  shows "summary_of xs (w * a) (w * n) r"
proof -
  have n: "0 < n" "a + n \<le> length ys" using assms(2) by (simp_all add: summary_of_def)
  have elem: "summary_of xs (w * k) w (ys ! k)" if "k < length ys" for k using assms(1) that by (simp add: summarises_def)
  have "take n (drop a ys) = map (\<lambda>i. ys ! (a + i)) [0..<n]" using n by (intro nth_equalityI) simp_all
  then have "map mr_count (take n (drop a ys)) = map (\<lambda>i. sum_list (map mr_count (take w (drop (w * a + w * i) xs)))) [0..<n]"
    using n elem by (auto simp: summary_of_def algebra_simps)
  then have count: "sum_list (map mr_count (take n (drop a ys))) = sum_list (map mr_count (take (w * n) (drop (w * a) xs)))"
    by (simp add: mult.commute [of w n] take_runs sum_list_runs comp_def)
  have "w * (a + n) \<le> w * length ys" using n by (intro mult_le_mono2)
  also have "\<dots> \<le> length xs" using assms(1) by (simp add: summarises_def)
  finally have "w * a + w * n \<le> length xs" by (simp add: algebra_simps)
  moreover have "w * (a + n - 1) + w - 1 = w * a + w * n - 1" using n(1) by (cases n) (simp_all add: algebra_simps)
  ultimately show ?thesis
    using elem [of a] elem [of "a + n - 1"] n assms(2,3) count by (simp add: summary_of_def)
qed

context lane_fold
begin

lemma combine_summary:
  assumes "in_order xs" "0 < n" "a + n \<le> length xs"
  shows "summary_of xs a n (combine (take n (drop a xs)))"
proof -
  let ?rs = "take n (drop a xs)"
  have ne: "?rs \<noteq> []" and len: "length ?rs = n" using assms by auto
  have "hd ?rs = xs ! a" using assms by (simp add: hd_conv_nth ne)
  moreover have "last ?rs = xs ! (a + n - 1)" using assms by (simp add: last_conv_nth ne)
  ultimately show ?thesis
    using assms combine_start [OF ne] combine_end [OF ne in_order_sublist [OF assms(1)]] combine_count [OF ne]
    by (simp add: summary_of_def)
qed

lemma groups_summarise:
  assumes "in_order xs" "0 < w" "0 < n" "summarises w xs ys"
  shows "summarises (n * w) xs (groups n combine ys)"
proof -
  have len: "length ys = length xs div w" using assms(4) by (simp add: summarises_def)
  have "length (groups n combine ys) = length xs div (n * w)"
    by (simp add: groups_def len div_mult2_eq [symmetric] mult.commute)
  moreover have "summary_of xs (n * w * g) (n * w) (groups n combine ys ! g)" if "g < length ys div n" for g
  proof -
    have "summary_of ys (n * g) n (combine (run_at n ys g))"
      unfolding run_at_def
      by (rule combine_summary [OF summarises_in_order [OF assms(1,2,4)] assms(3) full_group [OF that]])
    from summary_of_trans [OF assms(4) this assms(2)] that show ?thesis by (simp add: groups_def ac_simps)
  qed
  ultimately show ?thesis by (simp add: summarises_def groups_def)
qed

lemma tier_summarises:
  assumes "in_order xs"
  shows "summarises (FAN_OUT ^ k) xs ((groups FAN_OUT combine ^^ k) xs)"
proof (induction k)
  case 0
  show ?case using summarises_1 by simp
next
  case (Suc k)
  show ?case using groups_summarise [OF assms _ _ Suc.IH, of FAN_OUT] by (simp add: FAN_OUT_def)
qed

end

section \<open>Windows\<close>

definition overlaps :: "u64 \<Rightarrow> u64 \<Rightarrow> mipmap_record \<Rightarrow> bool" where
  "overlaps start_ns stop_ns r \<longleftrightarrow> start_ns \<le> mr_end_ns r \<and> mr_start_ns r \<le> stop_ns"

lemma takeWhile_stops: "i < length xs \<Longrightarrow> \<not> p (xs ! i) \<Longrightarrow> length (takeWhile p xs) \<le> i"
  by (metis not_le nth_mem set_takeWhileD takeWhile_nth)

lemma takeWhile_reaches: "k < length xs \<Longrightarrow> (\<And>j. j \<le> k \<Longrightarrow> p (xs ! j)) \<Longrightarrow> k < length (takeWhile p xs)"
  by (metis leI nth_length_takeWhile le_less_trans)

lemma window_range_bounds:
  "window_range tier s e = (first, final) \<Longrightarrow> first \<le> final \<and> final \<le> length tier"
  using length_takeWhile_le [of "\<lambda>r. mr_start_ns r \<le> e" "drop first tier"]
    length_takeWhile_le [of "\<lambda>r. mr_end_ns r < s" tier]
  by (auto simp: window_range_def Let_def partition_point_def)

lemma window_range_contains:
  assumes "in_order tier" "i < length tier" "overlaps s e (tier ! i)" "window_range tier s e = (first, final)"
  shows "first \<le> i" "i < final"
proof -
  have first: "first = length (takeWhile (\<lambda>r. mr_end_ns r < s) tier)"
    and final: "final = first + length (takeWhile (\<lambda>r. mr_start_ns r \<le> e) (drop first tier))"
    using assms(4) by (auto simp: window_range_def Let_def partition_point_def)
  show le: "first \<le> i" using assms(2,3) unfolding first by (intro takeWhile_stops) (auto simp: overlaps_def not_less)
  have "i - first < length (takeWhile (\<lambda>r. mr_start_ns r \<le> e) (drop first tier))"
  proof (rule takeWhile_reaches)
    show "i - first < length (drop first tier)" using le assms(2) by simp
    fix j assume "j \<le> i - first"
    then have "first + j \<le> i" using le by simp
    then have "mr_start_ns (tier ! (first + j)) \<le> mr_start_ns (tier ! i)" by (rule in_order_mono(1) [OF assms(1) _ assms(2)])
    also have "\<dots> \<le> e" using assms(3) by (simp add: overlaps_def)
    finally show "mr_start_ns (drop first tier ! j) \<le> e" using le assms(2) \<open>first + j \<le> i\<close> by simp
  qed
  then show "i < final" using le by (simp add: final)
qed

lemma set_padded:
  assumes "first \<le> final" "final \<le> length tier"
  shows "r \<in> set (padded tier (first, final)) \<longleftrightarrow> (\<exists>i. first - 1 \<le> i \<and> i < min (final + 1) (length tier) \<and> r = tier ! i)"
    and "length (padded tier (first, final)) \<le> final - first + 2"
proof -
  let ?a = "first - 1" and ?b = "min (final + 1) (length tier)"
  have len: "length (take (?b - ?a) (drop ?a tier)) = ?b - ?a" using assms by auto
  show "r \<in> set (padded tier (first, final)) \<longleftrightarrow> (\<exists>i. ?a \<le> i \<and> i < ?b \<and> r = tier ! i)"
  proof
    assume "r \<in> set (padded tier (first, final))"
    then obtain j where "j < ?b - ?a" "r = take (?b - ?a) (drop ?a tier) ! j"
      unfolding padded_def Let_def prod.case in_set_conv_nth len by blast
    then show "\<exists>i. ?a \<le> i \<and> i < ?b \<and> r = tier ! i" by (intro exI [of _ "?a + j"]) auto
  next
    assume "\<exists>i. ?a \<le> i \<and> i < ?b \<and> r = tier ! i"
    then obtain i where i: "?a \<le> i" "i < ?b" "r = tier ! i" by blast
    then have "i - ?a < ?b - ?a" "r = take (?b - ?a) (drop ?a tier) ! (i - ?a)" by auto
    then show "r \<in> set (padded tier (first, final))"
      unfolding padded_def Let_def prod.case in_set_conv_nth len by blast
  qed
  show "length (padded tier (first, final)) \<le> final - first + 2" using assms by (auto simp: padded_def Let_def)
qed

lemma sample_tiers_picks:
  assumes "ks \<noteq> []" "last ks = 0"
  shows "\<exists>k\<in>set ks. sample_tiers combine m s e budget ks =
    padded (mm_tiers m ! k) (window_range (mm_tiers m ! k) s e) @ uncovered_tail combine m k s e"
  using assms
proof (induction ks)
  case (Cons k ks)
  then show ?case by (cases ks) (auto simp: Let_def)
qed simp

context lane_fold
begin

lemma window_records_cover:
  assumes "tiers_over combine xs (mm_tiers m)" "mm_len m = length xs" "in_order xs" "k < length (mm_tiers m)"
    and "i < length xs" "overlaps s e (xs ! i)"
  shows "\<exists>r\<in>set (padded (mm_tiers m ! k) (window_range (mm_tiers m ! k) s e) @ uncovered_tail combine m k s e).
    mr_start_ns r \<le> mr_start_ns (xs ! i) \<and> mr_end_ns (xs ! i) \<le> mr_end_ns r"
proof -
  let ?tier = "mm_tiers m ! k" and ?w = "FAN_OUT ^ k"
  have tier: "summarises ?w xs ?tier"
    unfolding tiers_over_nth [OF assms(1,4)] by (rule tier_summarises [OF assms(3)])
  have w: "0 < ?w" by (simp add: FAN_OUT_def)
  obtain first final where range: "window_range ?tier s e = (first, final)" by fastforce
  show ?thesis
  proof (cases "i < length ?tier * ?w")
    case True
    let ?g = "i div ?w"
    have g: "?g < length ?tier" using True w by (simp add: div_less_iff_less_mult)
    have run: "?w * ?g \<le> i" "i < ?w * ?g + ?w"
      using dividend_less_div_times [OF w, of i] by (simp_all add: algebra_simps)
    have "summary_of xs (?w * ?g) ?w (?tier ! ?g)" using tier g by (simp add: summarises_def)
    from summary_of_bounds [OF assms(3) this run]
    have covers: "mr_start_ns (?tier ! ?g) \<le> mr_start_ns (xs ! i)" "mr_end_ns (xs ! i) \<le> mr_end_ns (?tier ! ?g)" .
    then have "overlaps s e (?tier ! ?g)" using assms(6) by (auto simp: overlaps_def)
    from window_range_contains [OF summarises_in_order [OF assms(3) w tier] g this range]
    have "?tier ! ?g \<in> set (padded ?tier (first, final))"
      using window_range_bounds [OF range] g by (subst set_padded(1)) (auto intro!: exI [of _ ?g])
    then show ?thesis using covers range by auto
  next
    case False
    let ?c = "length ?tier * ?w"
    have k: "k \<noteq> 0"
    proof
      assume "k = 0"
      then show False using False assms(5) tier by (simp add: summarises_def)
    qed
    obtain first' final' where raw: "window_range (drop ?c xs) s e = (first', final')" by fastforce
    have tier0: "mm_tiers m ! 0 = xs" using tiers_over_nth [OF assms(1), of 0] assms(4) by (cases "mm_tiers m") auto
    have in_order: "in_order (drop ?c xs)" using in_order_sublist [OF assms(3), of "length xs" ?c] by simp
    have i: "i - ?c < length (drop ?c xs)" "drop ?c xs ! (i - ?c) = xs ! i" using False assms(5) by auto
    have contains: "first' \<le> i - ?c" "i - ?c < final'"
      using window_range_contains [OF in_order i(1) _ raw] assms(6) i(2) by auto
    let ?r = "combine (take (final' - first') (drop first' (drop ?c xs)))"
    have "summary_of (drop ?c xs) first' (final' - first') ?r"
      using contains window_range_bounds [OF raw] by (intro combine_summary [OF in_order]) auto
    from summary_of_bounds [OF in_order this contains(1)]
    have "mr_start_ns ?r \<le> mr_start_ns (xs ! i) \<and> mr_end_ns (xs ! i) \<le> mr_end_ns ?r" using contains i(2) by simp
    moreover have "?r \<in> set (uncovered_tail combine m k s e)"
      using k contains raw False assms(2,5) by (simp add: uncovered_tail_def Let_def tier0)
    ultimately show ?thesis by auto
  qed
qed

lemma window_records_sound:
  assumes "tiers_over combine xs (mm_tiers m)" "in_order xs" "k < length (mm_tiers m)"
    and "r \<in> set (padded (mm_tiers m ! k) (window_range (mm_tiers m ! k) s e) @ uncovered_tail combine m k s e)"
  shows "\<exists>a n. summary_of xs a n r"
proof -
  let ?tier = "mm_tiers m ! k" and ?w = "FAN_OUT ^ k"
  have tier: "summarises ?w xs ?tier"
    unfolding tiers_over_nth [OF assms(1,3)] by (rule tier_summarises [OF assms(2)])
  obtain first final where range: "window_range ?tier s e = (first, final)" by fastforce
  consider "r \<in> set (padded ?tier (first, final))" | "r \<in> set (uncovered_tail combine m k s e)"
    using assms(4) range by auto
  then show ?thesis
  proof cases
    case 1
    then obtain g where "g < length ?tier" "r = ?tier ! g"
      using set_padded(1) [of first final ?tier r] window_range_bounds [OF range] by auto
    then have "summary_of xs (?w * g) ?w r" using tier by (simp add: summarises_def)
    then show ?thesis by blast
  next
    case 2
    let ?c = "length ?tier * ?w"
    obtain first' final' where raw: "window_range (drop ?c xs) s e = (first', final')" by fastforce
    have tier0: "mm_tiers m ! 0 = xs" using tiers_over_nth [OF assms(1), of 0] assms(3) by (cases "mm_tiers m") auto
    have lt: "first' < final'" and r: "r = combine (take (final' - first') (drop (?c + first') xs))"
      using 2 raw by (auto simp: uncovered_tail_def Let_def tier0 add.commute split: if_splits)
    have "?c + first' + (final' - first') \<le> length xs" using lt window_range_bounds [OF raw] by auto
    then have "summary_of xs (?c + first') (final' - first') r" unfolding r using lt by (intro combine_summary [OF assms(2)]) simp_all
    then show ?thesis by blast
  qed
qed

end

lemma top_tier_short: "tiers_over combine xs tiers \<Longrightarrow> tiers \<noteq> [] \<Longrightarrow> length (last tiers) < FAN_OUT"
proof (induction tiers arbitrary: xs)
  case (Cons tier tiers)
  show ?case
  proof (cases "tiers = []")
    case True
    then have "groups FAN_OUT combine tier = []" using Cons.prems by simp
    then have "length tier div FAN_OUT = 0" by (simp add: groups_def)
    then show ?thesis using True by (simp add: div_eq_0_iff FAN_OUT_def)
  next
    case False
    then show ?thesis using Cons by auto
  qed
qed simp

lemma push_record_nonempty: "push_record combine r tiers \<noteq> []"
  by (cases tiers) (simp_all add: Let_def)

lemma mipmap_extend_nonempty: "mm_tiers m \<noteq> [] \<Longrightarrow> mm_tiers (mipmap_extend leaf combine entries m) \<noteq> []"
  unfolding mipmap_extend_def
  by (induction entries arbitrary: m) (simp_all add: mipmap_push_def push_record_nonempty)

lemma sampled_window_short:
  assumes "tiers_over combine xs (mm_tiers m)" "mm_tiers m \<noteq> []" "16 \<le> target_points"
  shows "length (mipmap_sampled_window combine m s e target_points) \<le> FAN_OUT + 2"
proof -
  obtain k where k: "length (mm_tiers m) = Suc k" using assms(2) by (cases "mm_tiers m") auto
  let ?tier = "mm_tiers m ! k"
  obtain first final where range: "window_range ?tier s e = (first, final)" by fastforce
  have "length ?tier < FAN_OUT" using top_tier_short [OF assms(1,2)] assms(2) by (simp add: last_conv_nth k)
  then have short: "final - first < FAN_OUT" using window_range_bounds [OF range] by linarith
  then have "final - first \<le> point_budget target_points"
    using assms(3) by (simp add: point_budget_def usize_saturating_mul_def FAN_OUT_def)
  then have "mipmap_sampled_window combine m s e target_points = padded ?tier (first, final) @ uncovered_tail combine m k s e"
    by (simp add: mipmap_sampled_window_def range Let_def k)
  moreover have "length (padded ?tier (first, final)) \<le> final - first + 2"
    using window_range_bounds [OF range] by (intro set_padded(2)) simp_all
  moreover have "length (uncovered_tail combine m k s e) \<le> 1"
    by (auto simp: uncovered_tail_def Let_def split: prod.split)
  ultimately show ?thesis using short by simp
qed

context lane_fold
begin

lemma sampled_window_correct:
  assumes "tiers_over combine xs (mm_tiers m)" "mm_tiers m \<noteq> []" "mm_len m = length xs" "in_order xs"
  shows "i < length xs \<Longrightarrow> overlaps s e (xs ! i) \<Longrightarrow> \<exists>r\<in>set (mipmap_sampled_window combine m s e target_points).
      mr_start_ns r \<le> mr_start_ns (xs ! i) \<and> mr_end_ns (xs ! i) \<le> mr_end_ns r"
    and "r \<in> set (mipmap_sampled_window combine m s e target_points) \<Longrightarrow> \<exists>a n. summary_of xs a n r"
proof -
  let ?ks = "rev [0..<length (mm_tiers m)]"
  have "?ks \<noteq> []" "last ?ks = 0" using assms(2) by (simp_all add: last_rev)
  from sample_tiers_picks [OF this, of combine m s e "point_budget target_points"]
  obtain k where k: "k < length (mm_tiers m)" "mipmap_sampled_window combine m s e target_points =
      padded (mm_tiers m ! k) (window_range (mm_tiers m ! k) s e) @ uncovered_tail combine m k s e"
    by (auto simp: mipmap_sampled_window_def)
  show "\<exists>r\<in>set (mipmap_sampled_window combine m s e target_points).
      mr_start_ns r \<le> mr_start_ns (xs ! i) \<and> mr_end_ns (xs ! i) \<le> mr_end_ns r" if "i < length xs" "overlaps s e (xs ! i)"
    unfolding k(2) by (rule window_records_cover [OF assms(1,3,4) k(1) that])
  show "\<exists>a n. summary_of xs a n r" if "r \<in> set (mipmap_sampled_window combine m s e target_points)"
    using window_records_sound [OF assms(1,4) k(1)] that unfolding k(2) by blast
qed

lemma mipmap_of_entries:
  fixes leaf :: "'a \<Rightarrow> mipmap_record"
  assumes "in_order (map leaf entries)"
  defines "m \<equiv> mipmap_extend leaf combine entries mipmap_new"
  shows "i < length entries \<Longrightarrow> overlaps s e (leaf (entries ! i)) \<Longrightarrow> \<exists>r\<in>set (mipmap_sampled_window combine m s e target_points).
      mr_start_ns r \<le> mr_start_ns (leaf (entries ! i)) \<and> mr_end_ns (leaf (entries ! i)) \<le> mr_end_ns r"
    and "r \<in> set (mipmap_sampled_window combine m s e target_points) \<Longrightarrow> \<exists>a n. summary_of (map leaf entries) a n r"
    and "16 \<le> target_points \<Longrightarrow> length (mipmap_sampled_window combine m s e target_points) \<le> FAN_OUT + 2"
    and "mm_len m = length entries"
proof -
  have start: "tiers_over combine [] (mm_tiers mipmap_new)" "mm_len mipmap_new = length ([] :: mipmap_record list)"
    by (simp_all add: mipmap_new_def groups_def)
  have m: "tiers_over combine (map leaf entries) (mm_tiers m)" "mm_len m = length (map leaf entries)"
    using mipmap_extend_tiers [OF start, of leaf entries] by (simp_all add: m_def)
  have ne: "mm_tiers m \<noteq> []" unfolding m_def by (rule mipmap_extend_nonempty) (simp add: mipmap_new_def)
  show "\<exists>r\<in>set (mipmap_sampled_window combine m s e target_points).
      mr_start_ns r \<le> mr_start_ns (leaf (entries ! i)) \<and> mr_end_ns (leaf (entries ! i)) \<le> mr_end_ns r"
    if "i < length entries" "overlaps s e (leaf (entries ! i))"
    using sampled_window_correct(1) [OF m(1) ne m(2) assms(1), of i s e target_points] that by simp
  show "\<exists>a n. summary_of (map leaf entries) a n r" if "r \<in> set (mipmap_sampled_window combine m s e target_points)"
    by (rule sampled_window_correct(2) [OF m(1) ne m(2) assms(1) that])
  show "length (mipmap_sampled_window combine m s e target_points) \<le> FAN_OUT + 2" if "16 \<le> target_points"
    by (rule sampled_window_short [OF m(1) ne that])
  show "mm_len m = length entries" using m(2) by simp
qed

end

section \<open>Chunks\<close>

definition chunk_ok :: "(mipmap_record list \<Rightarrow> mipmap_record) \<Rightarrow> mipmap_record list \<Rightarrow> chunked_mipmap \<Rightarrow> bool" where
  "chunk_ok combine xs m \<longleftrightarrow>
     tiers_over summary_combine (groups CHUNK_SIZE combine xs) (mm_tiers (cm_completed m)) \<and> mm_tiers (cm_completed m) \<noteq> [] \<and>
     mm_len (cm_completed m) = length (groups CHUNK_SIZE combine xs) \<and>
     cm_active m = drop (CHUNK_SIZE * (length xs div CHUNK_SIZE)) xs \<and> cm_len m = length xs"

lemma chunk_push_ok:
  assumes "chunk_ok combine xs m"
  shows "chunk_ok combine (xs @ [leaf e]) (chunked_push leaf combine e m)"
proof -
  let ?q = "length xs div CHUNK_SIZE" and ?ys = "xs @ [leaf e]"
  have size: "0 < CHUNK_SIZE" by (simp add: CHUNK_SIZE_def)
  have le: "CHUNK_SIZE * ?q \<le> length xs" by simp
  have active: "cm_active m @ [leaf e] = drop (CHUNK_SIZE * ?q) ?ys" using assms le by (simp add: chunk_ok_def)
  have len: "length (cm_active m @ [leaf e]) = length xs mod CHUNK_SIZE + 1"
    using assms by (simp add: chunk_ok_def minus_mult_div_eq_mod)
  show ?thesis
  proof (cases "length xs mod CHUNK_SIZE + 1 = CHUNK_SIZE")
    case True
    have next_q: "Suc (length xs) = CHUNK_SIZE * ?q + CHUNK_SIZE" using True mult_div_mod_eq [of CHUNK_SIZE "length xs"] by linarith
    then have "Suc (length xs) = CHUNK_SIZE * Suc ?q" by simp
    then have q: "Suc (length xs) div CHUNK_SIZE = Suc ?q" "CHUNK_SIZE dvd Suc (length xs)"
      using size by (metis nonzero_mult_div_cancel_left not_gr0, metis dvd_triv_left)
    have "groups CHUNK_SIZE combine ?ys = groups CHUNK_SIZE combine xs @ [combine (drop (CHUNK_SIZE * ?q) ?ys)]"
      using groups_snoc [OF size, of combine xs "leaf e"] q(2) next_q by simp
    then show ?thesis
      using assms True push_record_tiers [of summary_combine "groups CHUNK_SIZE combine xs" "mm_tiers (cm_completed m)"]
        next_q q(1) len
      by (simp add: chunk_ok_def chunked_push_def mipmap_push_def push_record_nonempty Let_def active [simplified])
  next
    case False
    then have "\<not> CHUNK_SIZE dvd Suc (length xs)" "Suc (length xs) div CHUNK_SIZE = ?q"
      by (auto simp: div_Suc mod_Suc dvd_eq_mod_eq_0 split: if_splits)
    then show ?thesis
      using assms False len active groups_snoc [OF size, of combine xs "leaf e"]
      by (simp add: chunk_ok_def chunked_push_def Let_def)
  qed
qed

lemma chunk_extend_ok:
  "chunk_ok combine (map leaf entries) (chunked_extend leaf combine entries chunked_new)"
proof (induction entries rule: rev_induct)
  case Nil
  show ?case by (simp add: chunk_ok_def chunked_extend_def chunked_new_def mipmap_new_def groups_def)
next
  case (snoc e entries)
  from chunk_push_ok [OF this, of leaf e] show ?case by (simp add: chunked_extend_def)
qed

context lane_fold
begin

lemma padded_run:
  assumes "in_order tier" "tier \<noteq> []" "window_range tier s e = (first, final)"
  obtains a n where "padded tier (first, final) = take n (drop a tier)" "0 < n" "a + n \<le> length tier"
    "a \<le> first" "final \<le> a + n" "summary_of tier a n (combine (padded tier (first, final)))"
proof -
  let ?a = "first - 1" and ?n = "min (final + 1) (length tier) - (first - 1)"
  have bounds: "first \<le> final" "final \<le> length tier" "0 < length tier"
    using window_range_bounds [OF assms(3)] assms(2) by auto
  have pad: "padded tier (first, final) = take ?n (drop ?a tier)" by (simp add: padded_def Let_def)
  have n: "0 < ?n" "?a + ?n \<le> length tier" "final \<le> ?a + ?n" using bounds by linarith+
  show thesis
  proof (rule that [OF pad n(1,2) _ n(3)])
    show "summary_of tier ?a ?n (combine (padded tier (first, final)))"
      unfolding pad by (rule combine_summary [OF assms(1) n(1,2)])
  qed simp
qed

lemma padded_covers:
  assumes "in_order tier" "window_range tier s e = (first, final)" "j < length tier" "overlaps s e (tier ! j)"
  shows "tier ! j \<in> set (padded tier (first, final))"
    and "mr_start_ns (combine (padded tier (first, final))) \<le> mr_start_ns (tier ! j)"
    and "mr_end_ns (tier ! j) \<le> mr_end_ns (combine (padded tier (first, final)))"
proof -
  have j: "first \<le> j" "j < final" using window_range_contains [OF assms(1,3,4,2)] by simp_all
  show "tier ! j \<in> set (padded tier (first, final))"
    using j assms(3) window_range_bounds [OF assms(2)] by (subst set_padded(1)) (auto intro!: exI [of _ j])
  have "tier \<noteq> []" using assms(3) by auto
  from padded_run [OF assms(1) this assms(2)] obtain a n
    where run: "a \<le> first" "final \<le> a + n" "summary_of tier a n (combine (padded tier (first, final)))" by metis
  from summary_of_bounds [OF assms(1) run(3), of j] j run(1,2)
  show "mr_start_ns (combine (padded tier (first, final))) \<le> mr_start_ns (tier ! j)"
    "mr_end_ns (tier ! j) \<le> mr_end_ns (combine (padded tier (first, final)))" by simp_all
qed

lemma chunked_window_correct:
  assumes "chunk_ok combine xs m" "in_order xs"
  shows "i < length xs \<Longrightarrow> overlaps s e (xs ! i) \<Longrightarrow> \<exists>r\<in>set (chunked_sampled_window combine m s e target_points).
      mr_start_ns r \<le> mr_start_ns (xs ! i) \<and> mr_end_ns (xs ! i) \<le> mr_end_ns r"
    and "r \<in> set (chunked_sampled_window combine m s e target_points) \<Longrightarrow> \<exists>a n. summary_of xs a n r"
proof -
  define ys where "ys = groups CHUNK_SIZE combine xs"
  define c where "c = CHUNK_SIZE * (length xs div CHUNK_SIZE)"
  define active where "active = drop c xs"
  define result where "result = mipmap_sampled_window summary_combine (cm_completed m) s e target_points"
  have size: "0 < CHUNK_SIZE" by (simp add: CHUNK_SIZE_def)
  have ys: "summarises CHUNK_SIZE xs ys" unfolding ys_def
    using groups_summarise [OF assms(2) _ size summarises_1] by simp
  then have ys_order: "in_order ys" by (rule summarises_in_order [OF assms(2) size])
  note completed = summary.sampled_window_correct [of ys "cm_completed m"]
  have tiers: "tiers_over summary_combine ys (mm_tiers (cm_completed m))" "mm_tiers (cm_completed m) \<noteq> []"
    "mm_len (cm_completed m) = length ys" "cm_active m = active"
    using assms(1) by (simp_all add: chunk_ok_def ys_def active_def c_def)
  obtain first final where range: "window_range active s e = (first, final)" by fastforce
  define tail where "tail = padded active (first, final)"
  have window: "chunked_sampled_window combine m s e target_points =
      result @ (if active = [] then []
        else if usize_saturating_add (length result) (length tail) \<le> point_budget target_points then tail else [combine tail])"
    by (simp add: chunked_sampled_window_def tiers(4) result_def range tail_def Let_def)
  have active_order: "in_order active" using in_order_sublist [OF assms(2), of "length xs" c] by (simp add: active_def)
  show "\<exists>r\<in>set (chunked_sampled_window combine m s e target_points).
      mr_start_ns r \<le> mr_start_ns (xs ! i) \<and> mr_end_ns (xs ! i) \<le> mr_end_ns r" if i: "i < length xs" "overlaps s e (xs ! i)"
  proof (cases "i < c")
    case True
    let ?g = "i div CHUNK_SIZE"
    have g: "?g < length ys" using True size ys by (simp add: c_def summarises_def div_less_iff_less_mult mult.commute)
    have run: "CHUNK_SIZE * ?g \<le> i" "i < CHUNK_SIZE * ?g + CHUNK_SIZE"
      using dividend_less_div_times [OF size, of i] by (simp_all add: algebra_simps)
    have "summary_of xs (CHUNK_SIZE * ?g) CHUNK_SIZE (ys ! ?g)" using ys g by (simp add: summarises_def)
    from summary_of_bounds [OF assms(2) this run]
    have covers: "mr_start_ns (ys ! ?g) \<le> mr_start_ns (xs ! i)" "mr_end_ns (xs ! i) \<le> mr_end_ns (ys ! ?g)" .
    then have "overlaps s e (ys ! ?g)" using i(2) by (auto simp: overlaps_def)
    from completed(1) [OF tiers(1-3) ys_order g this, of target_points] obtain r where
      "r \<in> set result" "mr_start_ns r \<le> mr_start_ns (ys ! ?g)" "mr_end_ns (ys ! ?g) \<le> mr_end_ns r"
      by (auto simp: result_def)
    with covers show ?thesis by (auto simp: window intro!: bexI [of _ r])
  next
    case False
    then have j: "i - c < length active" "active ! (i - c) = xs ! i" using i(1) by (auto simp: active_def)
    then have "active \<noteq> []" by auto
    with padded_covers [OF active_order range j(1)] i(2) j(2) show ?thesis
      by (cases "usize_saturating_add (length result) (length tail) \<le> point_budget target_points")
        (auto simp: window tail_def intro: bexI [of _ "xs ! i"])
  qed
  have lift: "\<exists>a n. summary_of xs a n r" if "summary_of active a n r" for a n r
  proof -
    have "summary_of xs (c + a) n r" using that by (auto simp: summary_of_def active_def c_def ac_simps)
    then show ?thesis by blast
  qed
  show "\<exists>a n. summary_of xs a n r" if r: "r \<in> set (chunked_sampled_window combine m s e target_points)"
  proof -
    consider "r \<in> set result" | "active \<noteq> []" "r \<in> set tail" | "active \<noteq> []" "r = combine tail"
      using r by (auto simp: window split: if_splits)
    then show ?thesis
    proof cases
      case 1
      then obtain a n where "summary_of ys a n r"
        using completed(2) [OF tiers(1-3) ys_order, of r s e target_points] by (auto simp: result_def)
      from summary_of_trans [OF ys this size] show ?thesis by blast
    next
      case 2
      then obtain j where j: "j < length active" "r = active ! j"
        unfolding tail_def using set_padded(1) [of first final active r] window_range_bounds [OF range] by auto
      then have "summary_of active (1 * j) 1 r" using summarises_1 [of active] by (simp add: summarises_def)
      then show ?thesis by (rule lift)
    next
      case 3
      from padded_run [OF active_order this(1) range] 3(2) lift show ?thesis unfolding tail_def by metis
    qed
  qed
qed

end

section \<open>Lanes\<close>

lemma unit_counts: "(\<forall>r\<in>set rs. mr_count r = 1) \<Longrightarrow> sum_list (map mr_count rs) = of_nat (length rs)"
  by (induction rs) simp_all

lemma summary_of_leaves:
  assumes "summary_of (map leaf entries) a n r" "\<forall>entry. mr_count (leaf entry) = 1"
  shows "0 < n \<and> a + n \<le> length entries \<and> mr_start_ns r = mr_start_ns (leaf (entries ! a)) \<and>
    mr_end_ns r = mr_end_ns (leaf (entries ! (a + n - 1))) \<and> mr_count r = of_nat n"
proof -
  have "sum_list (map mr_count (take n (drop a (map leaf entries)))) = of_nat (length (take n (drop a (map leaf entries))))"
    using assms(2) by (intro unit_counts) (auto dest!: in_set_takeD in_set_dropD)
  then show ?thesis using assms(1) by (auto simp: summary_of_def)
qed

text \<open>
  C18: the summary of a time window of a digital lane, whatever its resolution, misses no sample of the window,
  also not the most recent ones; every record of it stands for a run of consecutive samples, with the times of
  the first and the last of them and their number; and from sixteen points on it has at most 66 records.
\<close>
theorem digital_window_summary:
  assumes "sorted (map s_start_time_ns samples)"
    and "rs = mipmap_sampled_window digital_combine (mipmap_extend digital_leaf digital_combine samples mipmap_new) begin_ns stop_ns target_points"
  shows "(\<forall>sample\<in>set samples. begin_ns \<le> s_start_time_ns sample \<and> s_start_time_ns sample \<le> stop_ns \<longrightarrow>
      (\<exists>r\<in>set rs. mr_start_ns r \<le> s_start_time_ns sample \<and> s_start_time_ns sample \<le> mr_end_ns r)) \<and>
    (\<forall>r\<in>set rs. \<exists>a n. 0 < n \<and> a + n \<le> length samples \<and> mr_start_ns r = s_start_time_ns (samples ! a) \<and>
      mr_end_ns r = s_start_time_ns (samples ! (a + n - 1)) \<and> mr_count r = of_nat n) \<and>
    (16 \<le> target_points \<longrightarrow> length rs \<le> 66)"
proof (intro conjI ballI impI)
  have order: "in_order (map digital_leaf samples)" using assms(1) by (simp add: in_order_def digital_leaf_def comp_def)
  note lane = digital.mipmap_of_entries [OF order]
  show "\<exists>r\<in>set rs. mr_start_ns r \<le> s_start_time_ns sample \<and> s_start_time_ns sample \<le> mr_end_ns r"
    if sample: "sample \<in> set samples" "begin_ns \<le> s_start_time_ns sample \<and> s_start_time_ns sample \<le> stop_ns" for sample
  proof -
    obtain i where "i < length samples" "samples ! i = sample" using sample(1) by (auto simp: in_set_conv_nth)
    then show ?thesis
      using lane(1) [of i begin_ns stop_ns target_points] sample(2) by (simp add: assms(2) overlaps_def digital_leaf_def)
  qed
  show "\<exists>a n. 0 < n \<and> a + n \<le> length samples \<and> mr_start_ns r = s_start_time_ns (samples ! a) \<and>
      mr_end_ns r = s_start_time_ns (samples ! (a + n - 1)) \<and> mr_count r = of_nat n" if r: "r \<in> set rs" for r
  proof -
    obtain a n where "summary_of (map digital_leaf samples) a n r" using lane(2) r unfolding assms(2) by blast
    from summary_of_leaves [OF this] show ?thesis by (auto simp: digital_leaf_def)
  qed
  show "length rs \<le> 66" if "16 \<le> target_points" using lane(3) [OF that] by (simp add: assms(2) FAN_OUT_def)
qed

theorem digital_window_summary_witness:
  "\<exists>r\<in>set (mipmap_sampled_window digital_combine (mipmap_extend digital_leaf digital_combine
      [sample_new True 10, sample_new False 20] mipmap_new) 15 25 16). mr_start_ns r \<le> 20 \<and> 20 \<le> mr_end_ns r"
proof -
  have "sorted (map s_start_time_ns [sample_new True 10, sample_new False 20])" by (simp add: sample_new_def)
  from digital_window_summary [OF this refl, of 15 25 16] show ?thesis by (simp add: sample_new_def)
qed

text \<open>
  C19: the same for annotations, whose entries have ends of their own and whose completed chunks are folded into one
  record each: no annotation that touches the window is missed, as long as annotations end in the order in
  which they start.
\<close>
theorem annotation_window_summary:
  assumes "sorted (map an_start_ns annotations)" "sorted (map an_end_ns annotations)"
    and "rs = chunked_sampled_window annotation_combine (chunked_extend annotation_leaf annotation_combine annotations chunked_new)
      begin_ns stop_ns target_points"
  shows "(\<forall>entry\<in>set annotations. begin_ns \<le> an_end_ns entry \<and> an_start_ns entry \<le> stop_ns \<longrightarrow>
      (\<exists>r\<in>set rs. mr_start_ns r \<le> an_start_ns entry \<and> an_end_ns entry \<le> mr_end_ns r)) \<and>
    (\<forall>r\<in>set rs. \<exists>a n. 0 < n \<and> a + n \<le> length annotations \<and> mr_start_ns r = an_start_ns (annotations ! a) \<and>
      mr_end_ns r = an_end_ns (annotations ! (a + n - 1)) \<and> mr_count r = of_nat n)"
proof (intro conjI ballI impI)
  have order: "in_order (map annotation_leaf annotations)" using assms(1,2) by (simp add: in_order_def annotation_leaf_def comp_def)
  note lane = annotation_lane.chunked_window_correct [OF chunk_extend_ok order]
  show "\<exists>r\<in>set rs. mr_start_ns r \<le> an_start_ns entry \<and> an_end_ns entry \<le> mr_end_ns r"
    if entry: "entry \<in> set annotations" "begin_ns \<le> an_end_ns entry \<and> an_start_ns entry \<le> stop_ns" for entry
  proof -
    obtain i where "i < length annotations" "annotations ! i = entry" using entry(1) by (auto simp: in_set_conv_nth)
    then show ?thesis
      using lane(1) [of i begin_ns stop_ns target_points] entry(2) by (simp add: assms(3) overlaps_def annotation_leaf_def)
  qed
  show "\<exists>a n. 0 < n \<and> a + n \<le> length annotations \<and> mr_start_ns r = an_start_ns (annotations ! a) \<and>
      mr_end_ns r = an_end_ns (annotations ! (a + n - 1)) \<and> mr_count r = of_nat n" if r: "r \<in> set rs" for r
  proof -
    obtain a n where "summary_of (map annotation_leaf annotations) a n r" using lane(2) r unfolding assms(3) by blast
    from summary_of_leaves [OF this] show ?thesis by (auto simp: annotation_leaf_def)
  qed
qed

theorem annotation_window_summary_witness:
  "\<exists>r\<in>set (chunked_sampled_window annotation_combine (chunked_extend annotation_leaf annotation_combine
      [\<lparr>an_start_ns = 10, an_end_ns = 15, an_value = 1, an_payload = None\<rparr>,
       \<lparr>an_start_ns = 20, an_end_ns = 30, an_value = 2, an_payload = None\<rparr>] chunked_new) 28 40 1).
    mr_start_ns r \<le> 20 \<and> 30 \<le> mr_end_ns r"
proof -
  let ?xs = "[\<lparr>an_start_ns = 10, an_end_ns = 15, an_value = 1, an_payload = None\<rparr>,
       \<lparr>an_start_ns = 20, an_end_ns = 30, an_value = 2, an_payload = None\<rparr>]"
  have "sorted (map an_start_ns ?xs)" "sorted (map an_end_ns ?xs)" by simp_all
  from annotation_window_summary [OF this refl, of 28 40 1] show ?thesis by simp
qed

end
