(* ===== verification/Spec2Isabelle.thy ===== *)
theory Spec2Isabelle
  imports Shared_Senders Event_Gate Event_Control Word_Matcher Stream_Transforms Timeline_Markers Sr_Latch
    Field_Extractor Word_Window Trigger_Program Graph_Reroutes I2c_Decoder
    Spi_Decoder
    Packet_Framer Worker_Pool Capture_Levels Capture_Policy
    Derived_Index
begin

text \<open>
  A verification library for LogicConduit (package \<^verbatim>\<open>rcaelers/dsl\<close>), a logic analyzer whose
  processing is a graph of nodes connected by bounded channels.

  \<^bold>\<open>The program and its parts.\<close> A user edits a graph document (\<^verbatim>\<open>node_graph_document\<close>); the
  compiler lowers it to processing nodes of \<^verbatim>\<open>signal_transforms\<close> and
  \<^verbatim>\<open>logic_analyzer_protocol_decoders\<close>, which the scheduler of \<^verbatim>\<open>signal_runtime\<close> drives: each node
  receives from channels through \<^verbatim>\<open>Receiver\<close>, sends through \<^verbatim>\<open>SharedSenders\<close> and \<^verbatim>\<open>Sender\<close>, and is
  called again and again until it reports the end of its inputs. Captured lines arrive as packed
  sample blocks or as edges (\<^verbatim>\<open>signal_capture\<close>). Derived words are kept in compressed, checksummed
  blocks (\<^verbatim>\<open>signal_derived\<close>). Hardware triggers are programs checked against a provider's schema
  (\<^verbatim>\<open>logic_analyzer_trigger\<close>).

  \<^bold>\<open>The theories.\<close>
  \<^item> \<open>Rust_Prelude\<close>, \<open>Ordered_Map\<close>: machine integers with saturating and checked arithmetic, results and
    their composition, sorted streams, B-tree maps as increasing association lists, decimal text.
  \<^item> \<open>Receivers\<close> (\<^verbatim>\<open>signal_runtime/src/receiver.rs\<close>): a channel is the queue of messages still to come
    and whether its sender is connected, so a blocking call that never returns is \<open>None\<close>. The locale
    \<open>item_source\<close> is what a consumer relies on; every receive variant is related to the one stream of
    items.
  \<^item> \<open>Shared_Senders\<close> (\<^verbatim>\<open>sender.rs\<close>): the subscriber list with its overflow policies. The channel is the
    parameter of the locale \<open>bounded_channel\<close>; \<open>bus_step\<close> interleaves senders, waiting sends, receivers
    and subscriptions, and the theorems hold for every interleaving.
  \<^item> \<open>Node_Runtime\<close> (\<^verbatim>\<open>scheduler.rs\<close>, \<^verbatim>\<open>ports.rs\<close>): the work loop \<open>run_node\<close>, ports and schemas. The
    locales \<open>draining_node\<close> and \<open>filling_node\<close> are the contracts from which a complete run follows: every
    node whose runs are described below is an interpretation of one of them. The fuel of \<open>run_node\<close> counts calls; each theorem
    says how many are enough (one more than the items of the inputs).
  \<^item> \<open>Signal_Events\<close>, \<open>Recorded_Edges\<close>, \<open>Sample_Blocks\<close>: payloads, the meaning of a level stream as a
    function of time, the transition log of \<^verbatim>\<open>recorded_edge_query.rs\<close>, packed blocks and structured
    protocol values.
  \<^item> \<open>Event_Gate\<close>, \<open>Event_Control\<close>, \<open>Word_Matcher\<close>, \<open>Stream_Transforms\<close>, \<open>Timeline_Markers\<close>, \<open>Sr_Latch\<close>,
    \<open>Field_Extractor\<close> (\<^verbatim>\<open>signal_transforms/src\<close>): one state record, the work function and a
    specification per node, and that a complete run emits exactly what the specification says.
  \<^item> \<open>I2c_Decoder\<close>: the decoder and the bus; transactions put on the wire with any timing are decoded
    to exactly these transactions.
  \<^item> \<open>Uart_Decoder\<close>: a frame on the line is decoded to its value and errors; the rounded products of
    quarter bits and the bit time are a parameter.
  \<^item> \<open>Spi_Decoder\<close>: the streamed path; the window of the chip select is decoded to the words its sampling
    edges and data lines show, and to one transaction.
  \<^item> \<open>Packet_Framer\<close>: the words a run groups into packets, given declaratively by which words are kept and
    which of them belong together.
  \<^item> \<open>Worker_Queue\<close>, \<open>Worker_Pool\<close> (\<^verbatim>\<open>platform_runtime/src\<close>): the scheduler of a pool of host workers under
    every sequence of calls, with \<open>queue_calls\<close> as the trace of a caller; the locale \<open>ordered_executor\<close> is the
    contract of the trait, which the queue and the cooperative executor provide, and the two agree on
    faithful hosts.
  \<^item> \<open>Capture_Index\<close>, \<open>Capture_Levels\<close> (\<^verbatim>\<open>signal_capture/src/capture_index_kernel.rs\<close>): the three bitmaps that say in
    which groups of 64, 4096 and 262144 samples a channel changes and how each group ends, related to the
    samples bit by bit (\<open>describes\<close>), and the payloads of the worker operation that computes them.
  \<^item> \<open>Capture_Policy\<close> (\<^verbatim>\<open>signal_capture_session/src/capture_policy.rs\<close>): the negotiation of a request with a
    provider, the plans of a session, and the retention tracker under every sequence of calls
    (\<open>tracker_step\<close>): what pins and policies protect is never reclaimed.
  \<^item> \<open>Derived_Index\<close> (\<^verbatim>\<open>signal_derived/src/derived_index.rs\<close>): the summary index of derived lanes. The locale
    \<open>lane_fold\<close> is the contract of the folding rules, interpreted on all six of them; from it follows that
    the summary of a window misses nothing and invents nothing.
  \<^item> \<open>Vlq\<close>, \<open>Word_Format\<close>, \<open>Crc32c\<close>, \<open>Word_Encode\<close>, \<open>Word_Decode\<close>, \<open>Word_Records\<close>, \<open>Word_Groups\<close>, \<open>Word_Blocks\<close>,
    \<open>Block_Builder\<close>, \<open>Word_Window\<close> (\<^verbatim>\<open>signal_derived/src/derived_word_store\<close> and
    \<^verbatim>\<open>platform_artifacts/src/crc32c.rs\<close>): variable-length integers, the header, the sliced checksum
    against its bitwise definition, the three record layouts, the builder with its predicted sizes,
    the decoder of whole blocks and of time windows; encoding followed by decoding is the identity,
    and damage is detected.
  \<^item> \<open>Trigger_Program\<close> (\<^verbatim>\<open>logic_analyzer_trigger/src\<close>): validation decides the declared typing, and the
    lane view of simple programs round-trips.
  \<^item> \<open>Graph_Document\<close>, \<open>Graph_Invariant\<close>, \<open>Graph_Reroutes\<close> (\<^verbatim>\<open>node_graph_document/src\<close>): every edit keeps
    the document well wired. The recursion along reroutes is followed to a depth given as an
    argument; without a circle of reroutes two more than the number of wires is enough, on a circle no
    depth is.
  This theory adds what spans the codec and the checksum.

  \<^bold>\<open>Conventions.\<close> A panic is an error value (\<open>Panicked\<close>) or, where the operation has no result type,
  \<open>None\<close>. Unsigned integers keep their width; lengths and indices are natural numbers with the bound of
  \<^verbatim>\<open>usize\<close> written out where the source checks it. Floating-point numbers are their bits, strings their
  bytes. Plain additions that the source leaves unchecked wrap.

  \<^bold>\<open>What the model showed.\<close> Wiring a reroute to itself makes the document's propagation recurse for
  ever; the UART decoder loses the last frame of a line whose end is announced by a marker; the
  SPI decoder reads a bit too many in front of the first transaction of a clock that idles high; the
  worker queue accepts requests that nobody will run once the last worker has failed; the
  capture index kernel panics on more samples than its vectors hold, below the limit it checks; a provider's smallest
  trigger placement is refused when it is no whole number of samples; a very large byte budget of a
  retention policy is truncated to a small one; the summary of a window may skip an annotation that
  outlasts later ones; an item
  put back after a peek has met the end-of-stream marker is never received; draining a receiver up to a time loses the last item of the stream.

  \<^bold>\<open>Not modelled.\<close> Threads, timers and the watchdog around the work loop; serialization derived by
  macros; the stores, caches and indexes over host storage; device drivers, file archives, user
  interfaces and application glue, which are input and output through third-party crates; the
  registries that connect editor nodes to processing nodes; the parallel and sigrok decoders, the SPI decoder over edge queries,
  the logic gates and the text formatter, which have the shape of the modelled nodes.
\<close>

section \<open>Damaged blocks\<close>

lemma slice_append_same: "offset + n \<le> length pre \<Longrightarrow> slice (pre @ xs) offset n = slice pre offset n"
  by (simp add: slice_def)

lemma from_bytes_append_same:
  assumes "BLOCK_HEADER_SIZE \<le> length pre"
  shows "from_bytes (pre @ xs) = from_bytes pre"
  using assms
  by (simp add: from_bytes_def slice_append_same get_u16_def get_u32_def get_u64_def block_consts nth_append)

lemma parse_word_block_InrD:
  assumes "parse_word_block bytes = Inr parsed"
  shows "from_bytes bytes = Inr (pb_header parsed)" "unat (h_block_len (pb_header parsed)) = length bytes"
    "block_checksum bytes BLOCK_CHECKSUM_OFFSET = Some (h_crc32c (pb_header parsed))"
  using assms by (auto simp: parse_word_block_def Let_def and_then_Inr_iff split: if_splits option.splits)

lemma parse_word_block_longer:
  assumes "parse_word_block bytes = Inr parsed"
  shows "BLOCK_HEADER_SIZE < length bytes"
proof -
  let ?h = "pb_header parsed"
  from assms obtain restarts where
    "validate_restart_order restarts (h_word_count ?h) (h_record_payload_len ?h) = Inr ()"
    "BLOCK_HEADER_SIZE + unat (h_record_payload_len ?h) \<le> length bytes"
    by (auto simp: parse_word_block_def Let_def and_then_Inr_iff usize_checked_add_def split: if_splits option.splits)
  moreover from this(1) have "h_record_payload_len ?h \<noteq> 0"
    by (auto simp: validate_restart_order_def split: if_splits)
  then have "0 < unat (h_record_payload_len ?h)" by (simp add: unat_gt_0)
  ultimately show ?thesis by simp
qed

text \<open>
  C9: A block that decodes, damaged after its header in at most four adjacent bytes, is refused: the
  decoder answers a checksum mismatch that carries the checksum the header promised, and so does the
  time-window decoder.
\<close>
theorem damaged_block_rejected:
  assumes "decode_word_block (pre @ original @ post) = Inr block" "BLOCK_HEADER_SIZE \<le> length pre"
    "length damaged = length original" "length original \<le> 4" "damaged \<noteq> original" "start \<le> stop" "0 < mx"
  shows "\<exists>actual. actual \<noteq> h_crc32c (db_header block) \<and>
    decode_word_block (pre @ damaged @ post) = Inl (ChecksumMismatch (h_crc32c (db_header block)) actual) \<and>
    decode_word_block_range (pre @ damaged @ post) start stop mx =
      Inl (ChecksumMismatch (h_crc32c (db_header block)) actual)"
proof -
  let ?good = "pre @ original @ post" and ?bad = "pre @ damaged @ post"
  from assms(1) obtain parsed where p: "parse_word_block ?good = Inr parsed" "pb_header parsed = db_header block"
    by (auto simp: decode_word_block_def and_then_Inr_iff Let_def split: if_splits)
  note good = parse_word_block_InrD [OF p(1), unfolded p(2)]
  have header: "from_bytes ?bad = Inr (db_header block)"
    using good(1) from_bytes_append_same [OF assms(2)] by simp
  have len: "unat (h_block_len (db_header block)) = length ?bad" using good(2) assms(3) by simp
  have checked: "BLOCK_CHECKSUM_OFFSET + 4 \<le> length pre" using assms(2) by (simp add: block_consts)
  then obtain actual where actual: "block_checksum ?bad BLOCK_CHECKSUM_OFFSET = Some actual"
    by (simp add: block_checksum_def)
  then have ne: "actual \<noteq> h_crc32c (db_header block)"
    using block_checksum_damaged [OF assms(3-5) checked, of post] good(3) by auto
  have "parse_word_block ?bad = Inl (ChecksumMismatch (h_crc32c (db_header block)) actual)"
    using header len actual ne assms(2) by (simp add: parse_word_block_def Let_def)
  then show ?thesis
    using ne assms(6,7) by (auto simp: decode_word_block_def decode_word_block_range_def not_less)
qed

theorem damaged_block_rejected_witness:
  "\<exists>bytes block actual. decode_word_block bytes = Inr block \<and>
    decode_word_block (butlast bytes @ [last bytes + 1]) = Inl (ChecksumMismatch (h_crc32c (db_header block)) actual)"
proof -
  have "payloads_valid (bb_words example_builder)" unfolding example_builder_facts by code_simp
  moreover have "bb_words example_builder \<noteq> []" by (simp add: example_builder_facts example_words_def)
  moreover have "predicted_size (cfg_restart_interval (bb_config example_builder)) (bb_words example_builder)
      + BLOCK_HEADER_SIZE + 7 < 2 ^ 32"
    using example_size by (simp add: example_builder_facts example_config_def BLOCK_HEADER_SIZE_def)
  ultimately obtain bytes block where d: "decode_word_block bytes = Inr block"
    using encoding_total [OF example_builder_facts(1)] by metis
  then have "BLOCK_HEADER_SIZE < length bytes"
    by (auto simp: decode_word_block_def and_then_Inr_iff dest: parse_word_block_longer)
  then have "bytes = butlast bytes @ [last bytes] @ []" "BLOCK_HEADER_SIZE \<le> length (butlast bytes)"
    by (cases bytes rule: rev_cases; simp)+
  with damaged_block_rejected [of "butlast bytes" "[last bytes]" "[]" block "[last bytes + 1]" 0 0 1] d
  show ?thesis by auto
qed

end
